(* ===== verification/Prelude.thy ===== *)
theory Prelude
  imports Main "HOL-Library.Word"
begin

text \<open>
  Shared material of the development: the collections of facts the component theories
  add to, the outcome type of code that can violate one of its own assertions, and the
  generic lemmas on lists, options and graphs that more than one component uses.

  A C++ function that can hit a failing \<open>assert\<close> or dereference an end iterator is modelled
  by an \<open>option\<close>: \<open>None\<close> is \<open>the assertion fails (or the behaviour is undefined)\<close>.
\<close>

section \<open>Collections\<close>

named_theorems offset_arith \<open>the arithmetic of offsets read as natural numbers\<close>
named_theorems bit_defs \<open>definitions of the bit containers\<close>
named_theorems graph_simps \<open>successors and predecessors after an update of a graph\<close>

section \<open>Assertions\<close>

definition assert_opt :: "bool \<Rightarrow> unit option" where
  "assert_opt b = (if b then Some () else None)"

lemma assert_opt_simps [simp]:
  "assert_opt True = Some ()"
  "assert_opt False = None"
  "(assert_opt b = Some u) = b"
  "(assert_opt b = None) = (\<not> b)"
  by (auto simp: assert_opt_def)

lemma bind_assert_opt [simp]:
  "Option.bind (assert_opt b) f = (if b then f () else None)"
  by (simp add: assert_opt_def)

lemma bind_eq_SomeE:
  assumes "Option.bind x f = Some y"
  obtains z where "x = Some z" and "f z = Some y"
  using assms by (cases x) auto

section \<open>Lists\<close>

lemma takeWhile_dropWhile_split:
  assumes "xs = ps @ qs" and "\<forall>p \<in> set ps. P p" and "qs = [] \<or> \<not> P (hd qs)"
  shows "takeWhile P xs = ps" and "dropWhile P xs = qs"
  using assms by (cases qs; simp add: takeWhile_append2 dropWhile_append2)+

lemma sorted_wrt_takeWhile:
  "sorted_wrt R xs \<Longrightarrow> sorted_wrt R (takeWhile P xs)"
  by (metis sorted_wrt_append takeWhile_dropWhile_id)

lemma sorted_wrt_dropWhile:
  "sorted_wrt R xs \<Longrightarrow> sorted_wrt R (dropWhile P xs)"
  by (metis sorted_wrt_append takeWhile_dropWhile_id)

lemma foldl_invariant:
  assumes "I s" and "\<And>s x. x \<in> set xs \<Longrightarrow> I s \<Longrightarrow> I (f s x)"
  shows "I (foldl f s xs)"
  using assms by (induction xs arbitrary: s) auto

lemma length_filter_count:
  "length (filter P xs) = sum_list (map (\<lambda>x. if P x then 1 else 0) xs)"
  by (induction xs) auto

end
