(* ===== verification/Offsets.thy ===== *)
theory Offsets
  imports Prelude
begin

text \<open>
  \<^verbatim>\<open>include/dg/Offset.h\<close>: the 64-bit offset with its greatest value reserved for
  \<open>UNKNOWN\<close>. The \<open>uint64_t\<close> is a \<open>64 word\<close>; every arithmetic operator of the struct is
  translated with its guards, so that saturation at \<open>UNKNOWN\<close> is part of the model. The
  comparison operators make \<open>Offset\<close> a \<open>linorder\<close>, which is how \<open>std::map\<close> and \<open>std::min\<close>
  use them. The collection \<open>offset_arith\<close> reads the operators as arithmetic on natural
  numbers under the side conditions that exclude saturation.
\<close>

section \<open>The type and its operators\<close>

datatype Offset = Offset (off: "64 word")

definition UNKNOWN :: "64 word" where
  "UNKNOWN = not 0"

definition getUnknown :: Offset where
  "getUnknown = Offset UNKNOWN"

definition getZero :: Offset where
  "getZero = Offset 0"

definition isUnknown :: "Offset \<Rightarrow> bool" where
  "isUnknown o1 = (off o1 = UNKNOWN)"

definition isZero :: "Offset \<Rightarrow> bool" where
  "isZero o1 = (off o1 = 0)"

definition offset_plus :: "Offset \<Rightarrow> Offset \<Rightarrow> Offset" where
  "offset_plus o1 o2 =
     (if off o1 = UNKNOWN \<or> off o2 = UNKNOWN \<or> off o1 \<ge> UNKNOWN - off o2
      then Offset UNKNOWN else Offset (off o1 + off o2))"

definition offset_minus :: "Offset \<Rightarrow> Offset \<Rightarrow> Offset" where
  "offset_minus o1 o2 =
     (if off o1 = UNKNOWN \<or> off o2 = UNKNOWN \<or> off o1 < off o2
      then Offset UNKNOWN else Offset (off o1 - off o2))"

definition offset_not :: "Offset \<Rightarrow> Offset" where
  "offset_not o1 = (if off o1 \<noteq> UNKNOWN then Offset (not (off o1)) else Offset UNKNOWN)"

definition inRange :: "Offset \<Rightarrow> 64 word \<Rightarrow> 64 word \<Rightarrow> bool" where
  "inRange o1 from to = (off o1 \<ge> from \<and> off o1 \<le> to)"

instantiation Offset :: linorder
begin

definition less_eq_Offset :: "Offset \<Rightarrow> Offset \<Rightarrow> bool" where
  "less_eq_Offset a b = (off a \<le> off b)"

definition less_Offset :: "Offset \<Rightarrow> Offset \<Rightarrow> bool" where
  "less_Offset a b = (off a < off b)"

instance
  by standard (auto simp: less_eq_Offset_def less_Offset_def Offset.expand)

end

section \<open>Reading offsets as natural numbers\<close>

abbreviation onat :: "Offset \<Rightarrow> nat" where
  "onat a \<equiv> unat (off a)"

lemma unat_UNKNOWN: "unat UNKNOWN = 18446744073709551615"
  by (simp add: UNKNOWN_def unsigned_minus_1_eq_mask mask_eq_exp_minus_1)

lemma UNKNOWN_max [simp]: "w \<le> UNKNOWN"
  by (simp add: UNKNOWN_def)

lemma UNKNOWN_le_iff [simp]: "(UNKNOWN \<le> w) = (w = UNKNOWN)"
  using UNKNOWN_max order.antisym by blast

lemma not_UNKNOWN_less [simp]: "\<not> UNKNOWN < w"
  by (simp add: not_less)

lemma onat_le_iff [offset_arith]: "(a \<le> b) = (onat a \<le> onat b)"
  by (simp add: less_eq_Offset_def word_le_nat_alt)

lemma onat_less_iff [offset_arith]: "(a < b) = (onat a < onat b)"
  by (simp add: less_Offset_def word_less_nat_alt)

lemma onat_eq_iff [offset_arith]: "(a = b) = (onat a = onat b)"
  by (cases a; cases b) (simp add: word_unat_eq_iff)

lemma onat_bound: "onat a \<le> 18446744073709551615"
  using word_le_nat_alt[of "off a" UNKNOWN] by (simp add: unat_UNKNOWN)

lemma isUnknown_onat [offset_arith]: "isUnknown a = (onat a = 18446744073709551615)"
  using unat_UNKNOWN by (metis isUnknown_def word_unat_eq_iff)

lemma off_UNKNOWN_onat: "(off a = UNKNOWN) = (onat a = 18446744073709551615)"
  using isUnknown_onat by (simp add: isUnknown_def)

lemma onat_plus [offset_arith]:
  "onat (offset_plus a b) =
     (if onat a + onat b < 18446744073709551615 then onat a + onat b else 18446744073709551615)"
proof -
  have sub: "unat (UNKNOWN - off b) = 18446744073709551615 - onat b"
    by (simp add: unat_sub unat_UNKNOWN)
  have le: "(off a \<ge> UNKNOWN - off b) = (onat a \<ge> 18446744073709551615 - onat b)"
    by (simp add: word_le_nat_alt sub)
  show ?thesis
  proof (cases "onat a + onat b < 18446744073709551615")
    case True
    then have "onat (Offset (off a + off b)) = onat a + onat b"
      by (simp add: unat_word_ariths)
    with True show ?thesis
      by (auto simp: offset_plus_def le off_UNKNOWN_onat)
  next
    case False
    then show ?thesis
      by (auto simp: offset_plus_def le off_UNKNOWN_onat unat_UNKNOWN)
  qed
qed

lemma onat_minus [offset_arith]:
  "onat (offset_minus a b) =
     (if onat a = 18446744073709551615 \<or> onat a < onat b then 18446744073709551615
      else onat a - onat b)"
proof -
  have "onat b = 18446744073709551615 \<Longrightarrow> \<not> onat a < onat b \<Longrightarrow> onat a = 18446744073709551615"
    using onat_bound[of a] by simp
  then show ?thesis
    by (auto simp: offset_minus_def off_UNKNOWN_onat unat_UNKNOWN word_less_nat_alt
        unat_sub word_le_nat_alt)
qed

lemma onat_getZero [simp]: "onat getZero = 0"
  by (simp add: getZero_def)

lemma onat_getUnknown [simp]: "onat getUnknown = 18446744073709551615"
  by (simp add: getUnknown_def unat_UNKNOWN)

lemma onat_Offset_1 [simp]: "onat (Offset 1) = 1"
  by simp

section \<open>Properties\<close>

text \<open>C40: the arithmetic of offsets never wraps around. Addition is exact and saturates at
  \<open>UNKNOWN\<close>, is associative and commutative, and, when no operation gives \<open>UNKNOWN\<close>, subtraction is
  its inverse.\<close>

theorem offset_arith_saturates:
  "unat (off (offset_plus a b)) = min (unat (off a) + unat (off b)) 18446744073709551615 \<and>
   offset_plus a b = offset_plus b a \<and>
   offset_plus (offset_plus a b) c = offset_plus a (offset_plus b c) \<and>
   (isUnknown (offset_plus a b) \<or> offset_minus (offset_plus a b) b = a) \<and>
   (isUnknown (offset_minus a b) \<or> offset_plus (offset_minus a b) b = a)"
proof (intro conjI)
  show "unat (off (offset_plus a b)) = min (onat a + onat b) 18446744073709551615"
    by (simp add: onat_plus)
  show "isUnknown (offset_minus a b) \<or> offset_plus (offset_minus a b) b = a"
    using onat_bound [of a] by (simp add: offset_arith)
qed (simp_all add: offset_arith)

end
