(* ===== verification/Interval_Map.thy ===== *)
theory Interval_Map
  imports Offsets
begin

text \<open>
  \<^verbatim>\<open>include/dg/ADT/DisjunctiveIntervalMap.h\<close> at its default instance: intervals of
  \<open>Offset\<close>s mapped to sets of values. A \<open>std::map\<close> ordered by the start of the key is a list
  of entries; an iterator is the pair of the entries before it and the entries from it on,
  so that \<open>emplace_hint\<close> and \<open>erase\<close> at an iterator edit the list in place. Failing
  assertions, \<open>--end()\<close> of an empty map and reads through \<open>end()\<close> are \<open>None\<close>.

  The abstract value of a map is \<open>dim_at\<close>: the set stored for each byte, if any.
\<close>

section \<open>Intervals\<close>

record DiscreteInterval =
  istart :: Offset
  iend :: Offset

definition mk_interval :: "Offset \<Rightarrow> Offset \<Rightarrow> DiscreteInterval option" where
  "mk_interval s e = (if s \<le> e then Some \<lparr>istart = s, iend = e\<rparr> else None)"

definition iv_length :: "DiscreteInterval \<Rightarrow> Offset" where
  "iv_length I = offset_plus (offset_minus (iend I) (istart I)) (Offset 1)"

definition iv_overlaps :: "DiscreteInterval \<Rightarrow> DiscreteInterval \<Rightarrow> bool" where
  "iv_overlaps this I =
     ((istart this \<le> istart I \<and> iend this \<ge> istart I) \<or> iend I \<ge> istart this)"

definition iv_covers :: "DiscreteInterval \<Rightarrow> DiscreteInterval \<Rightarrow> bool" where
  "iv_covers this I = (istart this \<le> istart I \<and> iend this \<ge> iend I)"

type_synonym 'v entry = "DiscreteInterval \<times> 'v set"
type_synonym 'v dimap = "'v entry list"
type_synonym 'v dim_it = "'v dimap \<times> 'v dimap"

abbreviation osucc :: "Offset \<Rightarrow> Offset" where
  "osucc x \<equiv> offset_plus x (Offset 1)"

abbreviation opred :: "Offset \<Rightarrow> Offset" where
  "opred x \<equiv> offset_minus x (Offset 1)"

section \<open>Searching\<close>

definition find_ge :: "'v dimap \<Rightarrow> DiscreteInterval \<Rightarrow> 'v dim_it" where
  "find_ge m I =
     (takeWhile (\<lambda>e. istart (fst e) < istart I) m, dropWhile (\<lambda>e. istart (fst e) < istart I) m)"

definition get_last :: "'v dimap \<Rightarrow> 'v entry option" where
  "get_last m = (if m = [] then None else Some (last m))"

definition shift_le :: "'v dimap \<Rightarrow> 'v dim_it \<Rightarrow> DiscreteInterval \<Rightarrow> 'v dim_it option" where
  "shift_le m startge I =
     (if snd startge = [] then
        Option.bind (get_last m) (\<lambda>lst.
          if iend (fst lst) \<ge> istart I
          then (if iv_overlaps (fst lst) I then Some (butlast m, [lst]) else None)
          else Some (m, []))
      else if \<not> istart (fst (hd (snd startge))) \<ge> istart I then None
      else if fst startge \<noteq> [] \<and> iend (fst (last (fst startge))) \<ge> istart I then
        (if iv_overlaps (fst (last (fst startge))) I
         then Some (butlast (fst startge), last (fst startge) # snd startge) else None)
      else if istart (fst (hd (snd startge))) > iend I then Some (m, [])
      else if iv_overlaps (fst (hd (snd startge))) I then Some startge else None)"

definition dim_le :: "'v dimap \<Rightarrow> DiscreteInterval \<Rightarrow> 'v dim_it option" where
  "dim_le m I = shift_le m (find_ge m I) I"

definition dim_overlaps :: "'v dimap \<Rightarrow> DiscreteInterval \<Rightarrow> bool" where
  "dim_overlaps m I =
     (if m = [] then False
      else case snd (find_ge m I) of
             [] \<Rightarrow> iend (fst (last m)) \<ge> istart I
           | ge # _ \<Rightarrow> istart (fst ge) \<le> iend I)"

fun full_walk :: "DiscreteInterval \<Rightarrow> Offset \<Rightarrow> 'v dimap \<Rightarrow> bool" where
  "full_walk I last_end [] = False"
| "full_walk I last_end (ge # es) =
     (if istart (fst ge) \<noteq> osucc last_end then False
      else if iend (fst ge) < iend I then full_walk I (iend (fst ge)) es else True)"

definition dim_overlapsFull :: "'v dimap \<Rightarrow> DiscreteInterval \<Rightarrow> bool" where
  "dim_overlapsFull m I =
     (if m = [] then False
      else case find_ge m I of
             (bef, []) \<Rightarrow> iend (fst (last m)) \<ge> iend I
           | (bef, ge # es) \<Rightarrow>
               (if istart (fst ge) > istart I \<and>
                   (bef = [] \<or> iend (fst (last bef)) \<noteq> opred (istart (fst ge)))
                then False
                else if iend (fst ge) < iend I then full_walk I (iend (fst ge)) es else True))"

fun gather_loop :: "DiscreteInterval \<Rightarrow> 'v dimap \<Rightarrow> 'v set \<Rightarrow> 'v set" where
  "gather_loop I [] ret = ret"
| "gather_loop I (e # es) ret =
     (if iv_overlaps (fst e) I then gather_loop I es (ret \<union> snd e) else ret)"

definition gather :: "'v dimap \<Rightarrow> DiscreteInterval \<Rightarrow> 'v set option" where
  "gather m I =
     Option.bind (dim_le m I) (\<lambda>it.
       case snd it of
         [] \<Rightarrow> Some {}
       | e # _ \<Rightarrow> if iv_overlaps (fst e) I then Some (gather_loop I (snd it) {}) else None)"

fun uncovered_loop ::
  "DiscreteInterval \<Rightarrow> Offset \<Rightarrow> 'v dimap \<Rightarrow> DiscreteInterval list \<Rightarrow> DiscreteInterval list option"
where
  "uncovered_loop I cur [] ret = None"
| "uncovered_loop I cur (e # es) ret =
     (if \<not> cur \<le> istart (fst e) then None
      else Option.bind
        (if cur \<noteq> istart (fst e) \<and> cur < istart (fst e)
         then (if istart (fst e) = Offset 0 then None
               else map_option (\<lambda>g. ret @ [g]) (mk_interval cur (opred (istart (fst e)))))
         else Some ret)
        (\<lambda>ret'.
          if iend (fst e) \<ge> iend I then Some ret'
          else (let cur' = osucc (iend (fst e)) in
                case es of
                  [] \<Rightarrow> Some (if cur' \<le> iend I then ret' @ [\<lparr>istart = cur', iend = iend I\<rparr>] else ret')
                | _ \<Rightarrow> uncovered_loop I cur' es ret')))"

definition uncovered :: "'v dimap \<Rightarrow> DiscreteInterval \<Rightarrow> DiscreteInterval list option" where
  "uncovered m I =
     (if m = [] then Some [I]
      else Option.bind (dim_le m I) (\<lambda>it.
        case snd it of
          [] \<Rightarrow> Some [I]
        | e # es \<Rightarrow>
            (if istart I > istart (fst e) then
               (if iend (fst e) \<ge> iend I then Some []
                else (let cur = osucc (iend (fst e)) in
                      if es = [] \<and> cur \<le> iend I then Some [\<lparr>istart = cur, iend = iend I\<rparr>]
                      else uncovered_loop I cur es []))
             else uncovered_loop I (istart I) (e # es) [])))"

section \<open>Adding and updating\<close>

definition splitIntervalHint :: "'v entry \<Rightarrow> Offset \<Rightarrow> ('v entry \<times> 'v entry) option" where
  "splitIntervalHint e wh =
     (if istart (fst e) = iend (fst e) then None
      else if \<not> (istart (fst e) \<le> wh \<and> wh \<le> iend (fst e)) then None
      else if \<not> wh < iend (fst e) then None
      else Option.bind (mk_interval (istart (fst e)) wh) (\<lambda>lo.
           Option.bind (mk_interval (osucc wh) (iend (fst e))) (\<lambda>hi.
             Some ((lo, snd e), (hi, snd e)))))"

fun split_right :: "DiscreteInterval \<Rightarrow> 'v dimap \<Rightarrow> (bool \<times> 'v dimap) option" where
  "split_right I [] = Some (False, [])"
| "split_right I (e # es) =
     (if istart (fst e) \<le> iend I then
        (if iend (fst e) > iend I
         then map_option (\<lambda>(lo, hi). (True, lo # hi # es)) (splitIntervalHint e (iend I))
         else map_option (\<lambda>(c, es'). (c, e # es')) (split_right I es))
      else Some (False, e # es))"

definition split_prev :: "DiscreteInterval \<Rightarrow> bool \<Rightarrow> 'v dim_it \<Rightarrow> (bool \<times> 'v dimap) option" where
  "split_prev I changed it =
     (case it of (bef, ge) \<Rightarrow>
        if bef = [] then Some (changed, ge)
        else (let prev = last bef; prev_end = iend (fst prev) in
          if prev_end \<ge> istart I then
            Option.bind (splitIntervalHint prev (opred (istart I))) (\<lambda>(lo, hi).
              if prev_end > iend I then
                (if iend (fst hi) \<noteq> prev_end then None
                 else Option.bind (splitIntervalHint hi (iend I)) (\<lambda>(check, up).
                   if fst check = I then Some (True, butlast bef @ [lo, check, up] @ ge) else None))
              else Some (True, butlast bef @ [lo, hi] @ ge))
          else Some (changed, bef @ ge)))"

definition splitExtBorders :: "'v dimap \<Rightarrow> DiscreteInterval \<Rightarrow> (bool \<times> 'v dimap) option" where
  "splitExtBorders m I =
     (if m = [] then None
      else case find_ge m I of
        (bef, []) \<Rightarrow>
          (let lst = last m in
           if \<not> istart (fst lst) < istart I then None
           else Option.bind
             (if iend (fst lst) > iend I
              then map_option (\<lambda>(lo, hi). (True, lo, [hi])) (splitIntervalHint lst (iend I))
              else Some (False, lst, []))
             (\<lambda>(changed, lst', tl).
               if iend (fst lst') \<ge> istart I
               then map_option (\<lambda>(lo, hi). (True, butlast m @ [lo, hi] @ tl))
                      (splitIntervalHint lst' (opred (istart I)))
               else Some (changed, butlast m @ [lst'] @ tl)))
      | (bef, ge) \<Rightarrow>
          if \<not> istart (fst (hd ge)) \<ge> istart I then None
          else Option.bind (split_right I ge) (\<lambda>(changed, ge').
            split_prev I changed (if changed then find_ge (bef @ ge') I else (bef, ge))))"

definition addValue :: "'v set \<Rightarrow> 'v \<Rightarrow> bool \<Rightarrow> bool \<times> 'v set" where
  "addValue vs val upd =
     (if upd then (if card vs = 1 \<and> val \<in> vs then (False, vs) else (True, {val}))
      else (val \<notin> vs, insert val vs))"

fun dim_check :: "'v dimap \<Rightarrow> bool" where
  "dim_check [] = False"
| "dim_check [e] = True"
| "dim_check (e # f # es) =
     (istart (fst e) \<le> iend (fst e) \<and> iend (fst e) < istart (fst f) \<and>
      istart (fst f) \<le> iend (fst f) \<and> dim_check (f # es))"

text \<open>The loop of \<open>_add\<close>: \<open>rs\<close> and \<open>re\<close> are \<open>rest.start\<close> and \<open>rest.end\<close>.\<close>

function (sequential) add_loop ::
  "Offset \<Rightarrow> 'v \<Rightarrow> bool \<Rightarrow> Offset \<Rightarrow> 'v dimap \<Rightarrow> (bool \<times> 'v dimap) option"
where
  "add_loop re val upd rs [] = Some (False, [])"
| "add_loop re val upd rs ((J, vs) # es) =
     (if rs < istart J then
        Option.bind (mk_interval rs (opred (istart J))) (\<lambda>gap.
          map_option (\<lambda>(c, es'). (True, (gap, {val}) # es'))
            (add_loop re val upd (istart J) ((J, vs) # es)))
      else if rs \<noteq> istart J then None
      else (let (c, vs') = addValue vs val upd in
        if iend J = re then Some (c, (J, vs') # es)
        else (let rs' = osucc (iend J) in
          if es = [] \<or> istart (fst (hd es)) > re
          then Some (True, (J, vs') # (\<lparr>istart = rs', iend = re\<rparr>, {val}) # es)
          else map_option (\<lambda>(c', es'). (c \<or> c', (J, vs') # es')) (add_loop re val upd rs' es))))"
  by pat_completeness auto
termination
  by (relation "measure (\<lambda>(re, val, upd, rs, es).
        2 * length es + (case es of [] \<Rightarrow> 0 | (J, _) # _ \<Rightarrow> if rs < istart J then 1 else 0))")
    (auto split: list.split)

definition dim_add :: "'v dimap \<Rightarrow> DiscreteInterval \<Rightarrow> 'v \<Rightarrow> bool \<Rightarrow> (bool \<times> 'v dimap) option" where
  "dim_add m I val upd =
     (if m = [] then Some (True, [(I, {val})])
      else Option.bind (splitExtBorders m I) (\<lambda>(changed, m1).
        if \<not> dim_check m1 then None
        else case find_ge m1 I of (bef, it) \<Rightarrow>
          if changed \<and> it = [] then None
          else if it = [] \<or> iend I < istart (fst (hd it)) then
            (if dim_overlaps m1 I then None else Some (True, bef @ (I, {val}) # it))
          else if \<not> iend I \<ge> istart (fst (hd it)) then None
          else Option.bind (add_loop (iend I) val upd (istart I) it) (\<lambda>(c, it').
            if dim_check (bef @ it') then Some (changed \<or> c, bef @ it') else None)))"

fun dim_add_values ::
  "'v dimap \<Rightarrow> DiscreteInterval \<Rightarrow> 'v list \<Rightarrow> bool \<Rightarrow> (bool \<times> 'v dimap) option" where
  "dim_add_values m I [] upd = Some (False, m)"
| "dim_add_values m I (v # vals) upd =
     Option.bind (dim_add m I v upd) (\<lambda>(c, m').
       map_option (\<lambda>(c', m''). (c \<or> c', m'')) (dim_add_values m' I vals upd))"

fun dim_addAll :: "'v dimap \<Rightarrow> 'v \<Rightarrow> bool \<times> 'v dimap" where
  "dim_addAll [] val = (False, [])"
| "dim_addAll ((I, vs) # m) val =
     (let (c, m') = dim_addAll m val in (val \<notin> vs \<or> c, (I, insert val vs) # m'))"

section \<open>Intersection\<close>

text \<open>
  The inner \<open>while\<close> of \<open>intersection\<close> never advances \<open>it\<close>; the function is a fixpoint in
  the \<open>option\<close> domain, so that a loop that does not end is \<open>None\<close>.
\<close>

partial_function (option) inter_skip :: "'v dimap \<Rightarrow> Offset \<Rightarrow> bool option" where
  "inter_skip it s =
     (case it of
        [] \<Rightarrow> None
      | e # _ \<Rightarrow> if iend (fst e) < s then (if it = [] then Some False else inter_skip it s) else Some True)"

fun inter_loop ::
  "'v::linorder dimap \<Rightarrow> 'v dimap \<Rightarrow> 'v dimap \<Rightarrow> 'v dimap option" where
  "inter_loop it [] tmp = Some tmp"
| "inter_loop it (r # rhs) tmp =
     Option.bind (inter_skip it (istart (fst r))) (\<lambda>going.
       if \<not> going then Some tmp
       else if iv_overlaps (fst (hd it)) (fst r) then
         Option.bind (mk_interval (max (istart (fst (hd it))) (istart (fst r)))
                                  (min (iend (fst (hd it))) (iend (fst r)))) (\<lambda>K.
         Option.bind (dim_add_values tmp K (sorted_list_of_set (snd (hd it) \<inter> snd r)) False)
           (\<lambda>(_, tmp'). inter_loop it rhs tmp'))
       else inter_loop it rhs tmp)"

definition dim_intersection :: "'v::linorder dimap \<Rightarrow> 'v dimap \<Rightarrow> 'v dimap option" where
  "dim_intersection m rhs = inter_loop m rhs []"

section \<open>Well-formed maps\<close>

text \<open>
  The invariant: intervals are ordered and disjoint, none starts at \<open>UNKNOWN\<close>, and none ends
  at the last known byte \<open>UNKNOWN - 1\<close> (so \<open>iend + 1\<close> and \<open>istart - 1\<close> never hit the
  saturation of \<open>Offset\<close>).
\<close>

definition iv_ok :: "DiscreteInterval \<Rightarrow> bool" where
  "iv_ok I = (istart I \<le> iend I \<and> \<not> isUnknown (istart I) \<and> iend I \<noteq> Offset (UNKNOWN - 1))"

definition dim_wf :: "'v dimap \<Rightarrow> bool" where
  "dim_wf m = ((\<forall>e \<in> set m. iv_ok (fst e)) \<and> sorted_wrt (\<lambda>a b. iend (fst a) < istart (fst b)) m)"

fun dim_at :: "'v dimap \<Rightarrow> Offset \<Rightarrow> 'v set option" where
  "dim_at [] x = None"
| "dim_at (e # m) x =
     (if istart (fst e) \<le> x \<and> x \<le> iend (fst e) then Some (snd e) else dim_at m x)"

definition values_at :: "'v dimap \<Rightarrow> Offset \<Rightarrow> 'v set" where
  "values_at m x = (case dim_at m x of None \<Rightarrow> {} | Some vs \<Rightarrow> vs)"

lemma dim_wf_Nil [simp]: "dim_wf []"
  by (simp add: dim_wf_def)

lemma dim_wf_Cons:
  "dim_wf (e # m) = (iv_ok (fst e) \<and> (\<forall>f \<in> set m. iend (fst e) < istart (fst f)) \<and> dim_wf m)"
  by (auto simp: dim_wf_def)

lemma dim_wf_append:
  "dim_wf (a @ b) = (dim_wf a \<and> dim_wf b \<and> (\<forall>e \<in> set a. \<forall>f \<in> set b. iend (fst e) < istart (fst f)))"
  by (auto simp: dim_wf_def sorted_wrt_append)

lemma dim_at_append:
  "dim_at (a @ b) x = (case dim_at a x of None \<Rightarrow> dim_at b x | Some vs \<Rightarrow> Some vs)"
  by (induction a) auto

lemma dim_at_None:
  "(dim_at m x = None) = (\<forall>e \<in> set m. \<not> (istart (fst e) \<le> x \<and> x \<le> iend (fst e)))"
  by (induction m) auto

lemma iv_okD: "iv_ok I \<Longrightarrow> istart I \<le> iend I"
  by (simp add: iv_ok_def)

lemma iv_ok_start_known: "iv_ok I \<Longrightarrow> istart I < getUnknown"
  using onat_bound [of "istart I"] by (auto simp: iv_ok_def offset_arith)

lemma mk_interval_le [simp]: "s \<le> e \<Longrightarrow> mk_interval s e = Some \<lparr>istart = s, iend = e\<rparr>"
  by (simp add: mk_interval_def)

section \<open>Predecessor and successor\<close>

lemma onat_osucc: "onat (osucc x) = (if onat x < 18446744073709551614 then Suc (onat x) else 18446744073709551615)"
  by (simp add: onat_plus)

lemma le_opred: "a < s \<Longrightarrow> \<not> isUnknown s \<Longrightarrow> (x \<le> opred s) = (x < s)"
  by (auto simp: offset_arith)

lemma opred_less: "a < s \<Longrightarrow> \<not> isUnknown s \<Longrightarrow> (opred s < x) = (s \<le> x)"
  by (auto simp: offset_arith)

lemma osucc_opred: "a < s \<Longrightarrow> \<not> isUnknown s \<Longrightarrow> osucc (opred s) = s"
  using onat_bound [of s] by (auto simp: offset_arith)

lemma osucc_le: "e < b \<Longrightarrow> (osucc e \<le> x) = (e < x)"
  using onat_bound [of x] onat_bound [of b] by (auto simp: offset_arith)

lemma less_osucc: "e < b \<Longrightarrow> (x < osucc e) = (x \<le> e)"
  using osucc_le [of e b x] by (auto simp: not_le [symmetric])

lemma onat_last_known: "onat (Offset (UNKNOWN - 1)) = 18446744073709551614"
proof -
  have "unat (UNKNOWN - 1) = unat UNKNOWN - 1" by (simp add: unat_sub word_le_nat_alt unat_UNKNOWN)
  then show ?thesis by (simp add: unat_UNKNOWN)
qed

lemma osucc_known: "e < b \<Longrightarrow> e \<noteq> Offset (UNKNOWN - 1) \<Longrightarrow> \<not> isUnknown (osucc e)"
  using onat_bound [of b] onat_last_known by (auto simp: offset_arith)

lemma opred_not_last: "a < s \<Longrightarrow> \<not> isUnknown s \<Longrightarrow> opred s \<noteq> Offset (UNKNOWN - 1)"
  using onat_bound [of s] onat_last_known by (auto simp: offset_arith)

section \<open>Splitting\<close>

lemma splitIntervalHint_ok:
  assumes "iv_ok (fst e)" and "istart (fst e) \<le> wh" and "wh < iend (fst e)"
    and "wh \<noteq> Offset (UNKNOWN - 1)"
  shows "splitIntervalHint e wh =
      Some ((\<lparr>istart = istart (fst e), iend = wh\<rparr>, snd e), (\<lparr>istart = osucc wh, iend = iend (fst e)\<rparr>, snd e))"
    and "iv_ok \<lparr>istart = istart (fst e), iend = wh\<rparr>"
    and "iv_ok \<lparr>istart = osucc wh, iend = iend (fst e)\<rparr>"
  using assms
  by (auto simp: splitIntervalHint_def iv_ok_def osucc_le [OF assms(3)] osucc_known [OF assms(3,4)])

text \<open>
  A list of entries \<open>es'\<close> refines \<open>es\<close> when it is a well-formed map of the same bytes to the
  same sets that keeps every lower and upper bound.
\<close>

definition refines_map :: "'v dimap \<Rightarrow> 'v dimap \<Rightarrow> bool" where
  "refines_map es' es =
     (dim_wf es' \<and> (\<forall>x. dim_at es' x = dim_at es x) \<and>
      (\<forall>b. (\<forall>e \<in> set es. b < istart (fst e)) \<longrightarrow> (\<forall>e \<in> set es'. b < istart (fst e))) \<and>
      (\<forall>b. (\<forall>e \<in> set es. iend (fst e) < b) \<longrightarrow> (\<forall>e \<in> set es'. iend (fst e) < b)))"

definition split_outcome :: "bool \<Rightarrow> 'v dimap \<Rightarrow> 'v dimap \<Rightarrow> bool" where
  "split_outcome c es' es = (if c then length es < length es' else es' = es)"

lemma refines_map_refl: "dim_wf es \<Longrightarrow> refines_map es es"
  by (simp add: refines_map_def)

lemma refines_map_trans: "refines_map a b \<Longrightarrow> refines_map b c \<Longrightarrow> refines_map a c"
  by (simp add: refines_map_def)

lemma refines_mapI:
  assumes "dim_wf es'" and "\<And>x. dim_at es' x = dim_at es x"
    and "\<And>b e. \<forall>e \<in> set es. b < istart (fst e) \<Longrightarrow> e \<in> set es' \<Longrightarrow> b < istart (fst e)"
    and "\<And>b e. \<forall>e \<in> set es. iend (fst e) < b \<Longrightarrow> e \<in> set es' \<Longrightarrow> iend (fst e) < b"
  shows "refines_map es' es"
  unfolding refines_map_def using assms by (intro conjI allI impI ballI) simp_all

lemma refines_map_wf: "refines_map es' es \<Longrightarrow> dim_wf es'"
  unfolding refines_map_def by (rule conjunct1)

lemma refines_map_at: "refines_map es' es \<Longrightarrow> dim_at es' x = dim_at es x"
  unfolding refines_map_def by blast

lemma refines_map_starts:
  "refines_map es' es \<Longrightarrow> \<forall>e \<in> set es. b < istart (fst e) \<Longrightarrow> e \<in> set es' \<Longrightarrow> b < istart (fst e)"
  by (simp add: refines_map_def)

lemma refines_map_ends:
  "refines_map es' es \<Longrightarrow> \<forall>e \<in> set es. iend (fst e) < b \<Longrightarrow> e \<in> set es' \<Longrightarrow> iend (fst e) < b"
  by (simp add: refines_map_def)

lemma refines_map_append:
  assumes a: "refines_map a' a" and b: "refines_map b' b" and wf: "dim_wf (a @ b)"
  shows "refines_map (a' @ b') (a @ b)"
proof (rule refines_mapI)
  have "iend (fst e) < istart (fst f)" if "e \<in> set a'" "f \<in> set b'" for e f
  proof -
    have "\<forall>h \<in> set b. iend (fst g) < istart (fst h)" if "g \<in> set a" for g
      using wf that by (simp add: dim_wf_append)
    then have "\<forall>g \<in> set a. iend (fst g) < istart (fst f)"
      using refines_map_starts [OF b _ that(2)] by simp
    then show ?thesis by (rule refines_map_ends [OF a _ that(1)])
  qed
  then show "dim_wf (a' @ b')"
    using refines_map_wf [OF a] refines_map_wf [OF b] by (simp add: dim_wf_append)
  show "dim_at (a' @ b') x = dim_at (a @ b) x" for x
    using refines_map_at [OF a] refines_map_at [OF b] by (simp add: dim_at_append split: option.split)
  show "c < istart (fst e)" if "\<forall>e \<in> set (a @ b). c < istart (fst e)" "e \<in> set (a' @ b')" for c e
    using that refines_map_starts [OF a, of c e] refines_map_starts [OF b, of c e] by auto
  show "iend (fst e) < c" if "\<forall>e \<in> set (a @ b). iend (fst e) < c" "e \<in> set (a' @ b')" for c e
    using that refines_map_ends [OF a, of c e] refines_map_ends [OF b, of c e] by auto
qed

lemma refines_split:
  assumes "iv_ok (fst e)" and "istart (fst e) \<le> wh" and "wh < iend (fst e)"
    and "wh \<noteq> Offset (UNKNOWN - 1)"
  shows "refines_map [(\<lparr>istart = istart (fst e), iend = wh\<rparr>, snd e),
                      (\<lparr>istart = osucc wh, iend = iend (fst e)\<rparr>, snd e)] [e]"
  using assms splitIntervalHint_ok [OF assms]
  by (auto simp: refines_map_def dim_wf_Cons less_osucc [OF assms(3)] osucc_le [OF assms(3)])

definition aligned :: "DiscreteInterval \<Rightarrow> 'v dimap \<Rightarrow> bool" where
  "aligned I m =
     (\<forall>e \<in> set m. iend (fst e) < istart I \<or>
        (istart I \<le> istart (fst e) \<and> iend (fst e) \<le> iend I) \<or> iend I < istart (fst e))"

lemma aligned_simps [simp]:
  "aligned I []"
  "aligned I (a @ b) = (aligned I a \<and> aligned I b)"
  "aligned I (e # m) = ((iend (fst e) < istart I \<or>
     (istart I \<le> istart (fst e) \<and> iend (fst e) \<le> iend I) \<or> iend I < istart (fst e)) \<and> aligned I m)"
  by (auto simp: aligned_def)

lemma aligned_before: "\<forall>e \<in> set m. iend (fst e) < b \<Longrightarrow> b \<le> istart I \<Longrightarrow> aligned I m"
  unfolding aligned_def by (blast intro: order.strict_trans2)

lemma aligned_after: "\<forall>e \<in> set m. b < istart (fst e) \<Longrightarrow> iend I \<le> b \<Longrightarrow> aligned I m"
  unfolding aligned_def by (blast intro: order.strict_trans1)

text \<open>One entry that starts before \<open>I\<close> and reaches into it, split at the borders of \<open>I\<close>.\<close>

lemma split_before:
  assumes ok: "iv_ok (fst e)" and I: "iv_ok I"
    and lt: "istart (fst e) < istart I" and ge: "istart I \<le> iend (fst e)"
  defines "lo \<equiv> (\<lparr>istart = istart (fst e), iend = opred (istart I)\<rparr>, snd e)"
    and "hi \<equiv> (\<lparr>istart = istart I, iend = iend (fst e)\<rparr>, snd e)"
  shows "splitIntervalHint e (opred (istart I)) = Some (lo, hi)"
    and "refines_map [lo, hi] [e]" and "iv_ok (fst hi)" and "iend (fst lo) < istart I"
proof -
  have known: "\<not> isUnknown (istart I)" using I by (simp add: iv_ok_def)
  have wh: "istart (fst e) \<le> opred (istart I)" "opred (istart I) < iend (fst e)"
    "opred (istart I) \<noteq> Offset (UNKNOWN - 1)"
    using lt ge known by (simp_all add: le_opred [OF lt known] opred_less [OF lt known] opred_not_last [OF lt known])
  note S = splitIntervalHint_ok [OF ok wh] refines_split [OF ok wh]
  have eq: "osucc (opred (istart I)) = istart I" by (rule osucc_opred [OF lt known])
  show "splitIntervalHint e (opred (istart I)) = Some (lo, hi)"
    and "refines_map [lo, hi] [e]" and "iv_ok (fst hi)"
    using S by (simp_all add: eq lo_def hi_def)
  show "iend (fst lo) < istart I" by (simp add: lo_def opred_less [OF lt known])
qed

text \<open>One entry that starts in \<open>I\<close> and reaches beyond it, split at the end of \<open>I\<close>.\<close>

lemma split_after:
  assumes ok: "iv_ok (fst e)" and I: "iv_ok I"
    and le: "istart (fst e) \<le> iend I" and lt: "iend I < iend (fst e)"
  defines "lo \<equiv> (\<lparr>istart = istart (fst e), iend = iend I\<rparr>, snd e)"
    and "hi \<equiv> (\<lparr>istart = osucc (iend I), iend = iend (fst e)\<rparr>, snd e)"
  shows "splitIntervalHint e (iend I) = Some (lo, hi)"
    and "refines_map [lo, hi] [e]" and "iv_ok (fst lo)" and "iend I < istart (fst hi)"
proof -
  have "iend I \<noteq> Offset (UNKNOWN - 1)" using I by (simp add: iv_ok_def)
  note S = splitIntervalHint_ok [OF ok le lt this] refines_split [OF ok le lt this]
  show "splitIntervalHint e (iend I) = Some (lo, hi)"
    and "refines_map [lo, hi] [e]" and "iv_ok (fst lo)"
    using S by (simp_all add: lo_def hi_def)
  show "iend I < istart (fst hi)" by (simp add: hi_def less_osucc [OF lt] not_le [symmetric] osucc_le [OF lt])
qed

lemma find_ge_append:
  assumes "\<forall>e \<in> set a. istart (fst e) < istart I" and "\<forall>e \<in> set b. istart I \<le> istart (fst e)"
  shows "find_ge (a @ b) I = (a, b)"
proof -
  have "b = [] \<or> \<not> istart (fst (hd b)) < istart I" using assms(2) by (cases b) auto
  then show ?thesis
    using assms(1) takeWhile_dropWhile_split [of "a @ b" a b "\<lambda>e. istart (fst e) < istart I"]
    by (simp add: find_ge_def)
qed

lemma dim_wf_starts: "dim_wf m \<Longrightarrow> sorted_wrt (\<lambda>a b. istart (fst a) < istart (fst b)) m"
  by (induction m) (auto simp: dim_wf_Cons dest: iv_okD order.strict_trans1)

lemma find_ge_split:
  assumes "dim_wf m" and "find_ge m I = (bef, ge)"
  shows "m = bef @ ge" and "\<forall>e \<in> set bef. istart (fst e) < istart I"
    and "\<forall>e \<in> set ge. istart I \<le> istart (fst e)"
proof -
  show m: "m = bef @ ge" and "\<forall>e \<in> set bef. istart (fst e) < istart I"
    using assms(2) by (auto simp: find_ge_def dest: set_takeWhileD)
  have "sorted_wrt (\<lambda>a b. istart (fst a) < istart (fst b)) ge"
    using assms dim_wf_starts by (auto simp: find_ge_def intro: sorted_wrt_dropWhile)
  moreover have "ge = [] \<or> \<not> istart (fst (hd ge)) < istart I"
    using assms(2) hd_dropWhile [of "\<lambda>e. istart (fst e) < istart I" m] by (auto simp: find_ge_def)
  ultimately show "\<forall>e \<in> set ge. istart I \<le> istart (fst e)"
    by (cases ge) (auto intro: order.trans less_imp_le)
qed

lemma split_right_ok:
  assumes "dim_wf es" and "iv_ok I" and "\<forall>e \<in> set es. istart I \<le> istart (fst e)"
  shows "\<exists>c es'. split_right I es = Some (c, es') \<and> refines_map es' es \<and> split_outcome c es' es \<and>
     aligned I es' \<and> (\<forall>e \<in> set es'. istart I \<le> istart (fst e))"
  using assms
proof (induction es)
  case Nil
  then show ?case by (auto simp: refines_map_def split_outcome_def intro: exI [of _ False])
next
  case (Cons e es)
  from Cons.prems have ok: "iv_ok (fst e)" and wf: "dim_wf es" and I: "istart I \<le> istart (fst e)"
    and ge: "\<forall>f \<in> set es. istart I \<le> istart (fst f)"
    and lt: "\<And>f. f \<in> set es \<Longrightarrow> iend (fst e) < istart (fst f)"
    by (auto simp: dim_wf_Cons)
  have wf1: "dim_wf ([e] @ es)" using Cons.prems(1) by simp
  consider "iend I < istart (fst e)"
    | "istart (fst e) \<le> iend I" "iend I < iend (fst e)"
    | "istart (fst e) \<le> iend I" "iend (fst e) \<le> iend I"
    by fastforce
  then show ?case
  proof cases
    case 1
    then have "iend I < iend (fst e)" using iv_okD [OF ok] by (rule order.strict_trans2)
    with 1 have "\<forall>f \<in> set (e # es). iend I < istart (fst f)"
      using lt by (auto intro: order.strict_trans)
    then have "aligned I (e # es)" by (simp add: aligned_def)
    with 1 show ?thesis
      using Cons.prems(1,3) by (auto simp: split_outcome_def refines_map_refl intro!: exI [of _ False])
  next
    case 2
    note S = split_after [OF ok Cons.prems(2) 2]
    have "aligned I es"
      using lt 2(2) unfolding aligned_def by (blast intro: order.strict_trans)
    then show ?thesis
      using 2 S I ge iv_okD [OF Cons.prems(2)]
        refines_map_append [OF S(2) refines_map_refl [OF wf] wf1]
      by (auto simp: split_outcome_def less_imp_le dest: order.trans)
  next
    case 3
    obtain c es' where IH: "split_right I es = Some (c, es')" "refines_map es' es" "split_outcome c es' es"
      "aligned I es'" "\<forall>e \<in> set es'. istart I \<le> istart (fst e)"
      using Cons.IH [OF wf Cons.prems(2) ge] by auto
    have "dim_wf [e]" using wf1 by (simp add: dim_wf_Cons)
    then show ?thesis
      using 3 IH I refines_map_append [OF refines_map_refl IH(2) wf1]
      by (auto simp: split_outcome_def)
  qed
qed

text \<open>The postcondition of \<open>splitExtBorders\<close>.\<close>

definition split_post :: "DiscreteInterval \<Rightarrow> 'v dimap \<Rightarrow> bool \<times> 'v dimap \<Rightarrow> bool" where
  "split_post I m r =
     (refines_map (snd r) m \<and> split_outcome (fst r) (snd r) m \<and> aligned I (snd r))"

lemma split_prev_ok:
  assumes wf: "dim_wf (bef @ ge)" and I: "iv_ok I"
    and b: "\<forall>e \<in> set bef. istart (fst e) < istart I" and al: "aligned I ge"
    and g: "\<forall>e \<in> set ge. istart I \<le> istart (fst e)"
  shows "\<exists>c m'. split_prev I ch (bef, ge) = Some (c, m') \<and> refines_map m' (bef @ ge) \<and> aligned I m' \<and>
    (if length m' = length (bef @ ge) then m' = bef @ ge \<and> c = ch else c \<and> length (bef @ ge) < length m')"
proof (cases bef rule: rev_cases)
  case Nil
  then show ?thesis
    using wf al by (simp add: split_prev_def refines_map_refl)
next
  case (snoc bs p)
  have ok: "iv_ok (fst p)" and lt: "istart (fst p) < istart I"
    and wfs: "dim_wf bs" "dim_wf ge" "dim_wf ([p] @ ge)" "dim_wf (bs @ ([p] @ ge))"
    using wf b by (auto simp: snoc dim_wf_append dim_wf_Cons)
  have albs: "aligned I bs"
    by (rule aligned_before [OF _ less_imp_le [OF lt]]) (use wf in \<open>simp add: snoc dim_wf_append\<close>)
  show ?thesis
  proof (cases "istart I \<le> iend (fst p)")
    case False
    then have "iend (fst p) < istart I" by simp
    with False show ?thesis
      using wf al albs
      by (intro exI [of _ ch] exI [of _ "bef @ ge"])
        (simp add: snoc split_prev_def refines_map_refl Let_def)
  next
    case True
    note S = split_before [OF ok I lt True]
    show ?thesis
    proof (cases "iend I < iend (fst p)")
      case False
      have "refines_map (bs @ (([(\<lparr>istart = istart (fst p), iend = opred (istart I)\<rparr>, snd p),
          (\<lparr>istart = istart I, iend = iend (fst p)\<rparr>, snd p)]) @ ge)) (bs @ ([p] @ ge))"
        by (intro refines_map_append refines_map_refl S(2) wfs)
      moreover have "split_prev I ch (bef, ge) =
          Some (True, bs @ [(\<lparr>istart = istart (fst p), iend = opred (istart I)\<rparr>, snd p),
            (\<lparr>istart = istart I, iend = iend (fst p)\<rparr>, snd p)] @ ge)"
        using False True S(1) by (simp add: snoc split_prev_def Let_def)
      ultimately show ?thesis
        using False S(4) albs al by (auto simp: snoc not_less)
    next
      case lt': True
      let ?hi = "(\<lparr>istart = istart I, iend = iend (fst p)\<rparr>, snd p)"
      have le: "istart (fst ?hi) \<le> iend I" "iend I < iend (fst ?hi)"
        using lt' iv_okD [OF I] by simp_all
      note S' = split_after [OF S(3) I le]
      have wf2: "dim_wf [(\<lparr>istart = istart (fst p), iend = opred (istart I)\<rparr>, snd p), ?hi]"
        using S(2) by (rule refines_map_wf)
      have "refines_map ([(\<lparr>istart = istart (fst p), iend = opred (istart I)\<rparr>, snd p)] @
          [(\<lparr>istart = istart I, iend = iend I\<rparr>, snd p), (\<lparr>istart = osucc (iend I), iend = iend (fst p)\<rparr>, snd p)])
          ([(\<lparr>istart = istart (fst p), iend = opred (istart I)\<rparr>, snd p)] @ [?hi])"
        by (rule refines_map_append) (use S'(2) wf2 in \<open>simp_all add: refines_map_refl dim_wf_Cons\<close>)
      then have "refines_map [(\<lparr>istart = istart (fst p), iend = opred (istart I)\<rparr>, snd p),
          (\<lparr>istart = istart I, iend = iend I\<rparr>, snd p),
          (\<lparr>istart = osucc (iend I), iend = iend (fst p)\<rparr>, snd p)] [p]"
        using refines_map_trans S(2) by fastforce
      then have "refines_map (bs @ (([(\<lparr>istart = istart (fst p), iend = opred (istart I)\<rparr>, snd p),
          (\<lparr>istart = istart I, iend = iend I\<rparr>, snd p),
          (\<lparr>istart = osucc (iend I), iend = iend (fst p)\<rparr>, snd p)]) @ ge)) (bs @ ([p] @ ge))"
        by (intro refines_map_append refines_map_refl wfs)
      moreover have "split_prev I ch (bef, ge) =
          Some (True, bs @ [(\<lparr>istart = istart (fst p), iend = opred (istart I)\<rparr>, snd p),
            (\<lparr>istart = istart I, iend = iend I\<rparr>, snd p),
            (\<lparr>istart = osucc (iend I), iend = iend (fst p)\<rparr>, snd p)] @ ge)"
        using lt' True S(1) S'(1) by (simp add: snoc split_prev_def Let_def)
      ultimately show ?thesis
        using S(4) S'(4) albs al by (auto simp: snoc)
    qed
  qed
qed

lemma splitExtBorders_ok:
  assumes wf: "dim_wf m" and I: "iv_ok I" and ne: "m \<noteq> []"
  shows "\<exists>r. splitExtBorders m I = Some r \<and> split_post I m r"
proof -
  obtain bef ge where fg: "find_ge m I = (bef, ge)" by fastforce
  note sp = find_ge_split [OF wf fg]
  show ?thesis
  proof (cases ge)
    case Nil
    have lt: "istart (fst (last m)) < istart I" and ok: "iv_ok (fst (last m))"
      using sp Nil ne wf by (auto simp: dim_wf_def)
    obtain bs p where m: "m = bs @ [p]" using ne by (metis append_butlast_last_id)
    have wfs: "dim_wf bs" "dim_wf [p]" "dim_wf (bs @ [p])" using wf by (simp_all add: m dim_wf_append)
    have le': "istart (fst p) < istart I" "iv_ok (fst p)" using lt ok by (simp_all add: m)
    have albs: "aligned I bs"
      by (rule aligned_before [OF _ less_imp_le [OF le'(1)]]) (use wf in \<open>simp add: m dim_wf_append\<close>)
    show ?thesis
    proof (cases "iend I < iend (fst p)")
      case True
      have le: "istart (fst p) \<le> iend I" using le'(1) iv_okD [OF I] by simp
      note A = split_after [OF le'(2) I le True]
      have lo: "istart (fst (\<lparr>istart = istart (fst p), iend = iend I\<rparr>, snd p)) < istart I"
        "istart I \<le> iend (fst (\<lparr>istart = istart (fst p), iend = iend I\<rparr>, snd p))"
        using le'(1) iv_okD [OF I] by simp_all
      note B = split_before [OF A(3) I lo]
      have "refines_map ([(\<lparr>istart = istart (fst p), iend = opred (istart I)\<rparr>, snd p),
           (\<lparr>istart = istart I, iend = iend I\<rparr>, snd p)] @ [(\<lparr>istart = osucc (iend I), iend = iend (fst p)\<rparr>, snd p)])
         ([(\<lparr>istart = istart (fst p), iend = iend I\<rparr>, snd p)] @ [(\<lparr>istart = osucc (iend I), iend = iend (fst p)\<rparr>, snd p)])"
        by (rule refines_map_append)
          (use B(2) refines_map_wf [OF A(2)] in \<open>simp_all add: refines_map_refl dim_wf_Cons\<close>)
      then have R: "refines_map [(\<lparr>istart = istart (fst p), iend = opred (istart I)\<rparr>, snd p),
           (\<lparr>istart = istart I, iend = iend I\<rparr>, snd p), (\<lparr>istart = osucc (iend I), iend = iend (fst p)\<rparr>, snd p)] [p]"
        using refines_map_trans A(2) by fastforce
      have "splitExtBorders m I = Some (True, bs @ [(\<lparr>istart = istart (fst p), iend = opred (istart I)\<rparr>, snd p),
           (\<lparr>istart = istart I, iend = iend I\<rparr>, snd p), (\<lparr>istart = osucc (iend I), iend = iend (fst p)\<rparr>, snd p)])"
        using fg Nil True A(1) B(1) lo lt by (simp add: splitExtBorders_def m)
      then show ?thesis
        using albs B(4) A(4) refines_map_append [OF refines_map_refl [OF wfs(1)] R wfs(3)]
        by (simp add: m split_post_def split_outcome_def)
    next
      case False
      show ?thesis
      proof (cases "istart I \<le> iend (fst p)")
        case True
        note B = split_before [OF le'(2) I le'(1) True]
        have "splitExtBorders m I = Some (True, bs @ [(\<lparr>istart = istart (fst p), iend = opred (istart I)\<rparr>, snd p),
           (\<lparr>istart = istart I, iend = iend (fst p)\<rparr>, snd p)])"
          using fg Nil False True B(1) lt by (simp add: splitExtBorders_def m)
        then show ?thesis
          using False albs B(4) refines_map_append [OF refines_map_refl [OF wfs(1)] B(2) wfs(3)]
          by (simp add: m split_post_def split_outcome_def not_less)
      next
        case nle: False
        then have "iend (fst p) < istart I" by simp
        moreover have "splitExtBorders m I = Some (False, m)"
          using fg Nil False nle lt by (simp add: splitExtBorders_def m)
        ultimately show ?thesis
          using albs wf by (simp add: m split_post_def split_outcome_def refines_map_refl)
      qed
    qed
  next
    case (Cons e es)
    have wfb: "dim_wf (bef @ ge)" using wf sp(1) by simp
    then have wfg: "dim_wf bef" "dim_wf ge" by (simp_all add: dim_wf_append)
    obtain c ge' where R: "split_right I ge = Some (c, ge')" "refines_map ge' ge" "split_outcome c ge' ge"
      "aligned I ge'" "\<forall>e \<in> set ge'. istart I \<le> istart (fst e)"
      using split_right_ok [OF wfg(2) I sp(3)] by blast
    have M: "refines_map (bef @ ge') (bef @ ge)"
      by (rule refines_map_append [OF refines_map_refl [OF wfg(1)] R(2) wfb])
    have it: "(if c then find_ge (bef @ ge') I else (bef, ge)) = (bef, ge')"
      using find_ge_append [OF sp(2) R(5)] R(3) by (simp add: split_outcome_def)
    have E: "splitExtBorders m I = split_prev I c (bef, ge')"
    proof (cases c)
      case True
      then have "find_ge (bef @ ge') I = (bef, ge')" using it by simp
      with True show ?thesis
        using fg Cons R(1) ne sp(3) by (simp add: splitExtBorders_def del: split_right.simps)
    next
      case False
      then have "ge' = e # es" using it Cons by simp
      with False show ?thesis
        using fg Cons R(1) ne sp(3) by (simp add: splitExtBorders_def del: split_right.simps)
    qed
    obtain c' m' where P: "split_prev I c (bef, ge') = Some (c', m')" "refines_map m' (bef @ ge')"
      "aligned I m'"
      "if length m' = length (bef @ ge') then m' = bef @ ge' \<and> c' = c else c' \<and> length (bef @ ge') < length m'"
      using split_prev_ok [OF refines_map_wf [OF M] I sp(2) R(4,5), of c] by blast
    have "split_outcome c' m' m"
      using P(4) R(3) by (auto simp: split_outcome_def sp(1) split: if_splits)
    then show ?thesis
      using E P(1,3) refines_map_trans [OF P(2) M] by (simp add: split_post_def sp(1))
  qed
qed

section \<open>The loop of \<open>_add\<close>\<close>

definition upd_values :: "bool \<Rightarrow> 'v \<Rightarrow> 'v set \<Rightarrow> 'v set" where
  "upd_values upd val vs = (if upd then {val} else insert val vs)"

lemma addValue_alt: "addValue vs val upd = (upd_values upd val vs \<noteq> vs, upd_values upd val vs)"
  by (auto simp: addValue_def upd_values_def card_1_singleton_iff)

definition added_at :: "Offset \<Rightarrow> Offset \<Rightarrow> bool \<Rightarrow> 'v \<Rightarrow> 'v dimap \<Rightarrow> Offset \<Rightarrow> 'v set option" where
  "added_at s e upd val m x =
     (if s \<le> x \<and> x \<le> e then Some (upd_values upd val (values_at m x)) else dim_at m x)"

lemma dim_at_below: "\<forall>e \<in> set m. b \<le> istart (fst e) \<Longrightarrow> x < b \<Longrightarrow> dim_at m x = None"
  by (fastforce simp: dim_at_None)

lemma add_loop_ok:
  assumes "dim_wf es" and "es \<noteq> []" and "istart (fst (hd es)) \<le> re"
    and "\<forall>e \<in> set es. rs \<le> istart (fst e)"
    and "\<forall>e \<in> set es. iend (fst e) \<le> re \<or> re < istart (fst e)"
    and "\<not> isUnknown rs" and "re \<noteq> Offset (UNKNOWN - 1)"
  shows "\<exists>c es'. add_loop re val upd rs es = Some (c, es') \<and> dim_wf es' \<and>
     (\<forall>x. dim_at es' x = added_at rs re upd val es x) \<and>
     (\<forall>e \<in> set es'. rs \<le> istart (fst e)) \<and> c = (es' \<noteq> es) \<and> length es \<le> length es'"
  using assms
proof (induction re val upd rs es rule: add_loop.induct)
  case (1 re val upd rs)
  then show ?case by simp
next
  case (2 re val upd rs J vs es)
  from "2.prems"(1) have ok: "iv_ok J" and wf: "dim_wf es" and lt: "\<forall>f \<in> set es. iend J < istart (fst f)"
    by (auto simp: dim_wf_Cons)
  have known: "\<not> isUnknown (istart J)" and le: "istart J \<le> iend J" and nl: "iend J \<noteq> Offset (UNKNOWN - 1)"
    using ok by (simp_all add: iv_ok_def)
  have below: "\<forall>f \<in> set ((J, vs) # es). istart J \<le> istart (fst f)"
    using lt le by (auto intro: less_imp_le order.strict_trans1)
  have "rs \<le> istart J" "istart J \<le> re" using "2.prems"(3,4) by auto
  then consider "rs < istart J" | "rs = istart J" "iend J = re" | "rs = istart J" "iend J < re"
    using "2.prems"(5) by fastforce
  then show ?case
  proof cases
    case 1
    obtain c es' where IH: "add_loop re val upd (istart J) ((J, vs) # es) = Some (c, es')" "dim_wf es'"
      "\<And>x. dim_at es' x = added_at (istart J) re upd val ((J, vs) # es) x"
      "\<forall>e \<in> set es'. istart J \<le> istart (fst e)" "length ((J, vs) # es) \<le> length es'"
      using "2.IH"(1) [OF 1, of "\<lparr>istart = rs, iend = opred (istart J)\<rparr>"] "2.prems" known below
        le_opred [OF 1 known, of rs] 1
      by (auto simp del: add_loop.simps)
    have gap: "rs \<le> opred (istart J)" "opred (istart J) < istart J" "opred (istart J) \<noteq> Offset (UNKNOWN - 1)"
      using 1 by (simp_all add: le_opred [OF 1 known] opred_less [OF 1 known] opred_not_last [OF 1 known])
    have eq: "add_loop re val upd rs ((J, vs) # es) =
        Some (True, (\<lparr>istart = rs, iend = opred (istart J)\<rparr>, {val}) # es')"
      using 1 IH(1) gap(1) by simp
    have "dim_wf ((\<lparr>istart = rs, iend = opred (istart J)\<rparr>, {val}) # es')"
      using IH(2,4) gap "2.prems"(6) by (auto simp: dim_wf_Cons iv_ok_def intro: order.strict_trans2)
    moreover have "dim_at ((\<lparr>istart = rs, iend = opred (istart J)\<rparr>, {val}) # es') x =
        added_at rs re upd val ((J, vs) # es) x" for x
    proof (cases "rs \<le> x \<and> x < istart J")
      case True
      then have "dim_at ((J, vs) # es) x = None" by (intro dim_at_below [OF below]) simp
      then have "values_at ((J, vs) # es) x = {}" unfolding values_at_def by (simp del: dim_at.simps)
      moreover have "x \<le> re" using True \<open>istart J \<le> re\<close> by (blast intro: less_imp_le order.strict_trans2)
      moreover have "x \<le> opred (istart J)" using True by (simp add: le_opred [OF 1 known])
      ultimately show ?thesis
        using True by (simp add: added_at_def upd_values_def)
    next
      case False
      with 1 show ?thesis
        by (auto simp: IH(3) le_opred [OF 1 known] added_at_def)
    qed
    ultimately show ?thesis
      using eq IH(4,5) 1 by (auto intro: order.trans less_imp_le)
  next
    case 2
    have "dim_at ((J, upd_values upd val vs) # es) x = added_at rs re upd val ((J, vs) # es) x" for x
      using 2 by (auto simp: added_at_def values_at_def)
    then show ?thesis
      using 2 ok wf lt below by (simp add: addValue_alt dim_wf_Cons)
  next
    case 3
    have rs': "osucc (iend J) \<le> re" "\<not> isUnknown (osucc (iend J))"
      using osucc_le [OF 3(2)] osucc_known [OF 3(2) nl] 3(2) by simp_all
    show ?thesis
    proof (cases "es = [] \<or> istart (fst (hd es)) > re")
      case True
      then have above: "\<forall>f \<in> set es. re < istart (fst f)"
        using wf by (cases es) (auto simp: dim_wf_Cons dest!: iv_okD intro: order.strict_trans order.strict_trans2)
      have "dim_at ((J, upd_values upd val vs) # (\<lparr>istart = osucc (iend J), iend = re\<rparr>, {val}) # es) x =
        added_at rs re upd val ((J, vs) # es) x" for x
      proof (cases "x \<le> re")
        case True
        then have "dim_at es x = None" using above by (fastforce simp: dim_at_None)
        with True 3 show ?thesis
          by (auto simp: added_at_def values_at_def upd_values_def osucc_le [OF 3(2)]
              intro: order.trans [OF le less_imp_le])
      next
        case False
        with 3 show ?thesis by (auto simp: added_at_def)
      qed
      with True 3 show ?thesis
        using ok wf lt below rs' above "2.prems"(7)
        by (auto simp: addValue_alt dim_wf_Cons iv_ok_def less_osucc [OF 3(2)] intro: less_imp_le order.strict_trans1)
    next
      case False
      have pre: "es \<noteq> []" "istart (fst (hd es)) \<le> re" "\<forall>e \<in> set es. osucc (iend J) \<le> istart (fst e)"
        using False lt by (auto simp: osucc_le [OF 3(2)])
      obtain c es' where IH: "add_loop re val upd (osucc (iend J)) es = Some (c, es')" "dim_wf es'"
        "\<And>x. dim_at es' x = added_at (osucc (iend J)) re upd val es x"
        "\<forall>e \<in> set es'. osucc (iend J) \<le> istart (fst e)" "c = (es' \<noteq> es)" "length es \<le> length es'"
        using "2.IH"(2) [of "addValue vs val upd" "fst (addValue vs val upd)" "snd (addValue vs val upd)" "osucc (iend J)"]
          3 False wf pre rs' "2.prems"(5,7) by auto
      have "dim_at ((J, upd_values upd val vs) # es') x = added_at rs re upd val ((J, vs) # es) x" for x
        using 3 le by (auto simp: IH(3) added_at_def values_at_def osucc_le [OF 3(2)])
      moreover have "\<forall>f \<in> set es'. iend J < istart (fst f)"
        using IH(4) by (simp add: osucc_le [OF 3(2)])
      ultimately show ?thesis
        using 3 False IH(1,2,5,6) ok le
        by (auto simp: addValue_alt dim_wf_Cons intro: less_imp_le order.strict_trans1)
    qed
  qed
qed

section \<open>Adding a value to an interval\<close>

lemma dim_check_wf: "dim_wf m \<Longrightarrow> m \<noteq> [] \<Longrightarrow> dim_check m"
  by (induction m rule: dim_check.induct) (auto simp: dim_wf_Cons dest: iv_okD)

lemma dim_at_iend: "dim_wf m \<Longrightarrow> e \<in> set m \<Longrightarrow> dim_at m (iend (fst e)) \<noteq> None"
  by (auto simp: dim_at_None dim_wf_def dest: iv_okD)

lemma find_ge_before:
  assumes "iv_ok I" and "aligned I m" and "e \<in> set m" and "istart (fst e) < istart I"
  shows "iend (fst e) < istart I"
  using assms iv_okD [OF assms(1)] by (auto simp: aligned_def dest: order.strict_trans order.strict_trans2)

lemma splitExtBorders_before:
  assumes "m \<noteq> []" and "\<forall>e \<in> set m. iend (fst e) < istart I" and "dim_wf m" and "iv_ok I"
  shows "splitExtBorders m I = Some (False, m)"
proof -
  have "\<forall>e \<in> set m. istart (fst e) < istart I"
    using assms(2,3) by (auto simp: dim_wf_def dest: iv_okD intro: order.strict_trans1)
  then have "find_ge m I = (m, [])" using find_ge_append [of m I "[]"] by simp
  moreover have "iend (fst (last m)) < istart I" "istart (fst (last m)) < istart I"
    using assms(1,2) \<open>\<forall>e \<in> set m. istart (fst e) < istart I\<close> by simp_all
  moreover have "\<not> iend I < iend (fst (last m))"
    using calculation(2) iv_okD [OF assms(4)] by (auto dest: order.strict_trans order.strict_trans2)
  ultimately show ?thesis
    using assms(1) by (simp add: splitExtBorders_def Let_def not_le [symmetric])
qed

lemma dim_add_ok:
  assumes wf: "dim_wf m" and I: "iv_ok I"
  shows "\<exists>c m'. dim_add m I val upd = Some (c, m') \<and> dim_wf m' \<and>
     (\<forall>x. dim_at m' x = added_at (istart I) (iend I) upd val m x) \<and> c = (m' \<noteq> m)"
proof (cases "m = []")
  case True
  then show ?thesis
    using I by (auto simp: dim_add_def dim_wf_Cons added_at_def values_at_def upd_values_def)
next
  case ne: False
  obtain ch m1 where S: "splitExtBorders m I = Some (ch, m1)" and P: "refines_map m1 m"
    "split_outcome ch m1 m" "aligned I m1"
    using splitExtBorders_ok [OF wf I ne] by (auto simp: split_post_def)
  obtain bef it where fg: "find_ge m1 I = (bef, it)" by fastforce
  note wf1 = refines_map_wf [OF P(1)]
  note sp = find_ge_split [OF wf1 fg]
  have ne1: "m1 \<noteq> []" using P(2) ne by (auto simp: split_outcome_def split: if_splits)
  have bef: "\<forall>e \<in> set bef. iend (fst e) < istart I"
    using find_ge_before [OF I P(3)] sp(1,2) by auto
  have wfs: "dim_wf bef" "dim_wf it" "\<forall>e \<in> set bef. \<forall>f \<in> set it. iend (fst e) < istart (fst f)"
    using wf1 by (auto simp: sp(1) dim_wf_append)
  have befN: "dim_at bef x = None" if "istart I \<le> x" for x
    using bef that by (fastforce simp: dim_at_None)
  have at: "dim_at m x = dim_at (bef @ it) x" for x
    using refines_map_at [OF P(1)] by (simp add: sp(1))
  have va: "values_at m x = values_at (bef @ it) x" for x by (simp add: values_at_def at)
  have nch: "it \<noteq> []" if "ch"
  proof
    assume "it = []"
    then have b: "\<forall>e \<in> set m1. iend (fst e) < istart I" using bef sp(1) by simp
    have "\<forall>e \<in> set m. iend (fst e) < istart I"
    proof
      fix e assume "e \<in> set m"
      then have "dim_at m1 (iend (fst e)) \<noteq> None"
        using dim_at_iend [OF wf] refines_map_at [OF P(1)] by metis
      then show "iend (fst e) < istart I" using b by (auto simp: dim_at_None intro: order.strict_trans1)
    qed
    then show False using splitExtBorders_before [OF ne _ wf I] S \<open>ch\<close> by simp
  qed
  have pre: "dim_add m I val upd = (if it = [] \<or> iend I < istart (fst (hd it)) then
      (if dim_overlaps m1 I then None else Some (True, bef @ (I, {val}) # it))
      else Option.bind (add_loop (iend I) val upd (istart I) it) (\<lambda>(c, it').
            if dim_check (bef @ it') then Some (ch \<or> c, bef @ it') else None))"
    using ne S fg nch dim_check_wf [OF wf1 ne1] by (auto simp: dim_add_def)
  show ?thesis
  proof (cases "it = [] \<or> iend I < istart (fst (hd it))")
    case True
    then have aft: "\<forall>e \<in> set it. iend I < istart (fst e)"
      using wfs(2) by (cases it) (auto simp: dim_wf_Cons dest!: iv_okD intro: order.strict_trans order.strict_trans2)
    have "\<not> dim_overlaps m1 I"
      using fg ne1 True bef sp(1) by (auto simp: dim_overlaps_def not_le split: list.split)
    moreover have "dim_at (bef @ (I, {val}) # it) x = added_at (istart I) (iend I) upd val m x" for x
    proof (cases "istart I \<le> x \<and> x \<le> iend I")
      case True
      then have "dim_at it x = None" using aft by (fastforce simp: dim_at_None)
      then have "values_at m x = {}" using True befN by (simp add: values_at_def at dim_at_append)
      then show ?thesis
        using True befN by (simp add: added_at_def dim_at_append upd_values_def)
    next
      case False
      then show ?thesis by (auto simp: added_at_def at dim_at_append split: option.split)
    qed
    moreover have "dim_wf (bef @ (I, {val}) # it)"
      using wfs aft I bef by (auto simp: dim_wf_append dim_wf_Cons)
    moreover have "length m < length (bef @ (I, {val}) # it)"
      using P(2) sp(1) by (auto simp: split_outcome_def split: if_splits)
    ultimately show ?thesis
      using True pre by fastforce
  next
    case False
    have al: "\<forall>e \<in> set it. iend (fst e) \<le> iend I \<or> iend I < istart (fst e)"
    proof
      fix e assume e: "e \<in> set it"
      then have "istart I \<le> iend (fst e)"
        using sp(3) wfs(2) by (auto simp: dim_wf_def dest!: iv_okD intro: order.trans)
      then show "iend (fst e) \<le> iend I \<or> iend I < istart (fst e)"
        using P(3) sp(1) e by (auto simp: aligned_def not_less [symmetric])
    qed
    obtain c it' where A: "add_loop (iend I) val upd (istart I) it = Some (c, it')" "dim_wf it'"
      "\<And>x. dim_at it' x = added_at (istart I) (iend I) upd val it x"
      "\<forall>e \<in> set it'. istart I \<le> istart (fst e)" "c = (it' \<noteq> it)" "length it \<le> length it'"
      using add_loop_ok [OF wfs(2) _ _ sp(3) al, of val upd] False I by (auto simp: iv_ok_def not_less)
    have wf': "dim_wf (bef @ it')"
      using wfs(1) A(2,4) bef by (auto simp: dim_wf_append intro: order.strict_trans2)
    have "bef @ it' \<noteq> []" using A(6) False by auto
    then have "dim_add m I val upd = Some (ch \<or> c, bef @ it')"
      using pre False A(1) dim_check_wf [OF wf'] by simp
    moreover have "dim_at (bef @ it') x = added_at (istart I) (iend I) upd val m x" for x
      using befN by (auto simp: dim_at_append A(3) added_at_def at va values_at_def split: option.split)
    moreover have "(ch \<or> c) = (bef @ it' \<noteq> m)"
      using P(2) A(5,6) sp(1) by (auto simp: split_outcome_def split: if_splits)
    ultimately show ?thesis using wf' by blast
  qed
qed

end
