(* ===== verification/Interval_Queries.thy ===== *)
theory Interval_Queries
  imports Interval_Map
begin

text \<open>
  The contract of \<open>DisjunctiveIntervalMap\<close> in terms of the bytes it maps: what \<open>add\<close> and
  \<open>update\<close> store, what \<open>gather\<close>, \<open>overlaps\<close>, \<open>overlapsFull\<close> and \<open>uncovered\<close> answer, and the
  concrete maps on which the answers of the queries are not the intended ones.
\<close>

abbreviation iv :: "64 word \<Rightarrow> 64 word \<Rightarrow> DiscreteInterval" where
  "iv a b \<equiv> \<lparr>istart = Offset a, iend = Offset b\<rparr>"

definition in_iv :: "Offset \<Rightarrow> DiscreteInterval \<Rightarrow> bool" where
  "in_iv x I = (istart I \<le> x \<and> x \<le> iend I)"

lemma UNKNOWN_num: "UNKNOWN = 0xFFFFFFFFFFFFFFFF"
  by (simp add: UNKNOWN_def)

lemma iv_ok_iv: "iv_ok (iv a b) = (a \<le> b \<and> a \<noteq> 0xFFFFFFFFFFFFFFFF \<and> b \<noteq> 0xFFFFFFFFFFFFFFFE)"
  by (simp add: iv_ok_def less_eq_Offset_def isUnknown_def UNKNOWN_num)

lemma in_iv_word: "in_iv (Offset x) (iv a b) = (a \<le> x \<and> x \<le> b)"
  by (simp add: in_iv_def less_eq_Offset_def)

section \<open>Adding\<close>

lemma dim_add_wf: "dim_wf m \<Longrightarrow> iv_ok I \<Longrightarrow> dim_add m I val upd = Some (c, m') \<Longrightarrow> dim_wf m'"
  using dim_add_ok [of m I val upd] by auto

text \<open>C10: \<open>add\<close> and \<open>update\<close> never fail an assertion on a well-formed map; they leave it
  well-formed, every byte of the interval holds the new value (together with its old ones when
  it is an \<open>add\<close>, alone when it is an \<open>update\<close>), every other byte keeps its set, and the
  result says exactly whether the map was changed.\<close>

theorem dim_add_correct:
  assumes "dim_wf m" and "iv_ok I"
  shows "\<exists>c m'. dim_add m I val upd = Some (c, m') \<and> dim_wf m' \<and> c = (m' \<noteq> m) \<and>
     (\<forall>x. dim_at m' x =
        (if in_iv x I then Some (if upd then {val} else insert val (values_at m x)) else dim_at m x))"
  using dim_add_ok [OF assms, of val upd] by (auto simp: added_at_def in_iv_def upd_values_def)

theorem dim_add_correct_witness:
  "\<exists>c m'. dim_add [(iv 0 9, {1 :: nat}), (iv 20 30, {2})] (iv 5 22) 3 False = Some (c, m') \<and> dim_wf m' \<and>
     dim_at m' (Offset 21) = Some {3, 2}"
  using dim_add_correct [of "[(iv 0 9, {1 :: nat}), (iv 20 30, {2})]" "iv 5 22" 3 False]
  by (auto simp: dim_wf_def iv_ok_iv in_iv_word values_at_def less_eq_Offset_def less_Offset_def)

text \<open>A sequence of operations on a map that starts empty.\<close>

fun dim_run :: "(DiscreteInterval \<times> 'v \<times> bool) list \<Rightarrow> 'v dimap \<Rightarrow> 'v dimap option" where
  "dim_run [] m = Some m"
| "dim_run ((I, val, upd) # ops) m = Option.bind (dim_add m I val upd) (\<lambda>(_, m'). dim_run ops m')"

fun byte_run :: "(DiscreteInterval \<times> 'v \<times> bool) list \<Rightarrow> Offset \<Rightarrow> 'v set option \<Rightarrow> 'v set option" where
  "byte_run [] x v = v"
| "byte_run ((I, val, upd) # ops) x v =
     byte_run ops x
       (if in_iv x I then Some (if upd then {val} else insert val (case v of None \<Rightarrow> {} | Some vs \<Rightarrow> vs)) else v)"

lemma dim_run_ok:
  assumes "dim_wf m" and "\<forall>(I, val, upd) \<in> set ops. iv_ok I"
  shows "\<exists>m'. dim_run ops m = Some m' \<and> dim_wf m' \<and> (\<forall>x. dim_at m' x = byte_run ops x (dim_at m x))"
  using assms
proof (induction ops arbitrary: m)
  case (Cons op ops)
  obtain I val upd where op: "op = (I, val, upd)" by (cases op)
  obtain c m1 where A: "dim_add m I val upd = Some (c, m1)" "dim_wf m1"
    "\<forall>x. dim_at m1 x = added_at (istart I) (iend I) upd val m x"
    using dim_add_ok [of m I val upd] Cons.prems op by auto
  have step: "byte_run (op # ops) x (dim_at m x) = byte_run ops x (dim_at m1 x)" for x
    by (simp add: op A(3) added_at_def in_iv_def upd_values_def values_at_def)
  show ?case
    using Cons.IH [OF A(2)] Cons.prems(2) A(1) unfolding step by (simp add: op)
qed simp

text \<open>Any history of \<open>add\<close>s and \<open>update\<close>s of ordinary intervals, started on the empty map,
  completes without a failing assertion and leaves in every byte exactly the values that the
  history, replayed on that byte alone, leaves there.\<close>

theorem dim_history:
  assumes "\<forall>(I, val, upd) \<in> set ops. iv_ok I"
  shows "\<exists>m. dim_run ops [] = Some m \<and> dim_wf m \<and> (\<forall>x. dim_at m x = byte_run ops x None)"
  using dim_run_ok [OF _ assms, of "[]"] by simp

theorem dim_history_witness:
  "\<exists>m. dim_run [(iv 0 9, 1 :: nat, False), (iv 5 20, 2, False), (iv 7 7, 3, True)] [] = Some m \<and>
     dim_at m (Offset 7) = Some {3} \<and> dim_at m (Offset 8) = Some {2, 1}"
  using dim_history [of "[(iv 0 9, 1 :: nat, False), (iv 5 20, 2, False), (iv 7 7, 3, True)]"]
  by (auto simp: iv_ok_iv in_iv_word)

section \<open>The entry a query starts from\<close>

text \<open>
  The iterator that \<open>le\<close> returns on a well-formed map: what precedes it ends before \<open>I\<close>; it is
  \<open>end()\<close> exactly when nothing overlaps \<open>I\<close>.
\<close>

lemma dim_le_ok:
  assumes wf: "dim_wf m" and I: "istart I \<le> iend I" and ne: "m \<noteq> []"
  shows "\<exists>bef it. dim_le m I = Some (bef, it) \<and> m = bef @ it \<and>
    (it = [] \<longrightarrow> (\<forall>e \<in> set m. iend (fst e) < istart I \<or> iend I < istart (fst e))) \<and>
    (it \<noteq> [] \<longrightarrow> (\<forall>e \<in> set bef. iend (fst e) < istart I) \<and>
       istart I \<le> iend (fst (hd it)) \<and> istart (fst (hd it)) \<le> iend I \<and>
       iv_overlaps (fst (hd it)) I \<and>
       (\<forall>e \<in> set (tl it). istart I < istart (fst e)))"
proof -
  obtain bef ge where fg: "find_ge m I = (bef, ge)" by fastforce
  note sp = find_ge_split [OF wf fg]
  have b: "\<forall>e \<in> set (butlast bef). iend (fst e) < istart I"
    using wf sp(1,2) by (cases bef rule: rev_cases) (auto simp: dim_wf_append intro: order.strict_trans)
  show ?thesis
  proof (cases "bef \<noteq> [] \<and> istart I \<le> iend (fst (last bef))")
    case True
    then have lb: "last bef \<in> set bef" "istart (fst (last bef)) < istart I" using sp(2) by simp_all
    have ov: "iv_overlaps (fst (last bef)) I" using True less_imp_le [OF lb(2)] by (simp add: iv_overlaps_def)
    have "dim_le m I = Some (butlast bef, last bef # ge)"
      using fg True lb(2) ov ne sp
      by (cases ge) (auto simp: dim_le_def shift_le_def get_last_def)
    moreover have "\<forall>f \<in> set ge. istart I < istart (fst f)"
    proof
      fix f assume "f \<in> set ge"
      then have "iend (fst (last bef)) < istart (fst f)" using wf lb(1) sp(1) by (simp add: dim_wf_append)
      then show "istart I < istart (fst f)" using True by (auto intro: order.strict_trans1)
    qed
    moreover have "m = butlast bef @ last bef # ge" using True sp(1) by simp
    ultimately show ?thesis
      using True b ov order.trans [OF less_imp_le [OF lb(2)] I] by auto
  next
    case False
    then have bef: "\<forall>e \<in> set bef. iend (fst e) < istart I"
      using b by (cases bef rule: rev_cases) (auto simp: not_le)
    show ?thesis
    proof (cases "ge = [] \<or> iend I < istart (fst (hd ge))")
      case True
      have "dim_le m I = Some (m, [])"
        using fg False True ne sp by (cases ge) (auto simp: dim_le_def shift_le_def get_last_def)
      moreover have "\<forall>e \<in> set ge. iend I < istart (fst e)"
        using True wf sp(1) by (cases ge) (auto simp: dim_wf_append dim_wf_Cons dest!: iv_okD
          intro: order.strict_trans order.strict_trans2)
      ultimately show ?thesis using bef sp(1) by (intro exI [of _ m] exI [of _ "[]"]) auto
    next
      case F2: False
      then have ov: "iv_overlaps (fst (hd ge)) I" by (simp add: iv_overlaps_def not_less)
      have "dim_le m I = Some (bef, ge)"
        using fg False F2 ov ne sp by (cases ge) (auto simp: dim_le_def shift_le_def get_last_def)
      moreover have "\<forall>e \<in> set (tl ge). istart I < istart (fst e)"
        using F2 wf sp(1,3) by (cases ge) (auto simp: dim_wf_append dim_wf_Cons dest!: iv_okD
          intro: order.strict_trans1 order.trans)
      moreover have "istart I \<le> iend (fst (hd ge))"
        using F2 wf sp(1,3) by (cases ge) (auto simp: dim_wf_append dim_wf_Cons dest!: iv_okD intro: order.trans)
      ultimately show ?thesis using bef sp(1) F2 ov by (intro exI [of _ bef] exI [of _ ge]) (auto simp: not_less)
    qed
  qed
qed


section \<open>Gathering values\<close>

lemma iv_overlaps_later: "istart I < istart J \<Longrightarrow> iv_overlaps J I = (istart J \<le> iend I)"
  by (auto simp: iv_overlaps_def)

lemma gather_loop_later:
  assumes "dim_wf es" and "\<forall>e \<in> set es. istart I < istart (fst e)"
  shows "gather_loop I es ret = ret \<union> \<Union> {vs. \<exists>J. (J, vs) \<in> set es \<and> istart J \<le> iend I}"
  using assms
proof (induction es arbitrary: ret)
  case (Cons e es)
  show ?case
  proof (cases "istart (fst e) \<le> iend I")
    case True
    with Cons show ?thesis
      by (simp add: dim_wf_Cons iv_overlaps_later) (cases e; auto)
  next
    case False
    then have "\<forall>f \<in> set (e # es). \<not> istart (fst f) \<le> iend I"
      using Cons.prems(1) by (auto simp: dim_wf_Cons not_le dest!: iv_okD
        intro: order.strict_trans order.strict_trans2)
    with False Cons.prems(2) show ?thesis
      by (fastforce simp: iv_overlaps_later)
  qed
qed simp

lemma dim_wf_mem: "dim_wf m \<Longrightarrow> (J, vs) \<in> set m \<Longrightarrow> istart J \<le> iend J"
  by (force simp: dim_wf_def iv_ok_def)

definition overlap_values :: "'v dimap \<Rightarrow> DiscreteInterval \<Rightarrow> 'v set" where
  "overlap_values m I = \<Union> {vs. \<exists>J. (J, vs) \<in> set m \<and> istart J \<le> iend I \<and> istart I \<le> iend J}"

lemma dim_at_mem:
  assumes "dim_wf m" and "(J, vs) \<in> set m" and "in_iv x J"
  shows "dim_at m x = Some vs"
  using assms
proof (induction m)
  case (Cons e m)
  show ?case
  proof (cases "e = (J, vs)")
    case False
    with Cons.prems have "(J, vs) \<in> set m" "iend (fst e) < istart J" by (auto simp: dim_wf_Cons)
    then show ?thesis using Cons by (auto simp: dim_wf_Cons in_iv_def)
  qed (use Cons.prems in \<open>simp add: in_iv_def\<close>)
qed simp

lemma dim_at_SomeD: "dim_at m x = Some vs \<Longrightarrow> \<exists>J. (J, vs) \<in> set m \<and> in_iv x J"
  by (induction m) (auto simp: in_iv_def split: if_splits)

lemma overlap_values_bytes:
  assumes "dim_wf m" and "istart I \<le> iend I"
  shows "overlap_values m I = (\<Union>x \<in> {x. in_iv x I}. values_at m x)" (is "?L = ?R")
proof
  show "?L \<subseteq> ?R"
  proof
    fix v assume "v \<in> ?L"
    then obtain J vs where J: "(J, vs) \<in> set m" "istart J \<le> iend I" "istart I \<le> iend J" "v \<in> vs"
      by (auto simp: overlap_values_def)
    have "istart J \<le> iend J" using assms(1) J(1) by (rule dim_wf_mem)
    then have "in_iv (max (istart I) (istart J)) I" "in_iv (max (istart I) (istart J)) J"
      using J assms(2) by (auto simp: in_iv_def)
    then show "v \<in> ?R" using dim_at_mem [OF assms(1) J(1)] J(4) by (force simp: values_at_def)
  qed
  show "?R \<subseteq> ?L"
    by (fastforce simp: overlap_values_def values_at_def in_iv_def intro: order.trans
        dest: dim_at_SomeD split: option.splits)
qed

lemma gather_ok:
  assumes "dim_wf m" and "m \<noteq> []" and "istart I \<le> iend I"
  shows "gather m I = Some (\<Union>x \<in> {x. in_iv x I}. values_at m x)"
proof -
  obtain bef it where D: "dim_le m I = Some (bef, it)" "m = bef @ it"
    and N: "it = [] \<Longrightarrow> \<forall>e \<in> set m. iend (fst e) < istart I \<or> iend I < istart (fst e)"
    and C: "it \<noteq> [] \<Longrightarrow> (\<forall>e \<in> set bef. iend (fst e) < istart I) \<and> istart I \<le> iend (fst (hd it)) \<and>
       istart (fst (hd it)) \<le> iend I \<and> iv_overlaps (fst (hd it)) I \<and>
       (\<forall>e \<in> set (tl it). istart I < istart (fst e))"
    using dim_le_ok [OF assms(1,3,2)] by blast
  have "gather m I = Some (overlap_values m I)"
  proof (cases it)
    case Nil
    then have "overlap_values m I = {}" using N by (fastforce simp: overlap_values_def)
    then show ?thesis using D(1) Nil by (simp add: gather_def)
  next
    case (Cons e es)
    have wf: "dim_wf (e # es)" using assms(1) D(2) Cons by (simp add: dim_wf_append)
    note C' = C [unfolded Cons, simplified]
    have late: "istart I \<le> iend J" if "(J, vs) \<in> set es" for J vs
    proof -
      have "istart I < istart J" using C' that by force
      moreover have "istart J \<le> iend J" using wf that by (intro dim_wf_mem [of "e # es" J vs]) simp_all
      ultimately show ?thesis by (rule order.trans [OF less_imp_le])
    qed
    have "gather m I = Some (gather_loop I es (snd e))"
      using D(1) Cons C' by (simp add: gather_def)
    also have "gather_loop I es (snd e) = snd e \<union> \<Union> {vs. \<exists>J. (J, vs) \<in> set es \<and> istart J \<le> iend I}"
      using C' wf by (intro gather_loop_later) (auto simp: dim_wf_Cons)
    also have "\<Union> {vs. \<exists>J. (J, vs) \<in> set es \<and> istart J \<le> iend I} = overlap_values es I"
      unfolding overlap_values_def using late by blast
    also have "snd e \<union> overlap_values es I = overlap_values (e # es) I"
      using C' by (cases e) (auto simp: overlap_values_def)
    also have "overlap_values (e # es) I = overlap_values m I"
    proof -
      have "\<not> istart I \<le> iend J" if "(J, vs) \<in> set bef" for J vs using C' that by force
      then show ?thesis by (auto simp: overlap_values_def D(2) Cons)
    qed
    finally show ?thesis .
  qed
  then show ?thesis by (simp add: overlap_values_bytes [OF assms(1,3)])
qed




section \<open>Overlap queries\<close>

text \<open>\<open>overlaps\<close> and \<open>overlapsFull\<close> are never wrong when they say yes: a positive
  \<open>overlaps\<close> means that some byte of the interval is mapped, a positive \<open>overlapsFull\<close> that
  its last byte is mapped.\<close>

theorem dim_overlaps_sound:
  assumes "dim_wf m" and "istart I \<le> iend I" and "dim_overlaps m I"
  shows "\<exists>x. in_iv x I \<and> dim_at m x \<noteq> None"
proof -
  obtain bef ge where fg: "find_ge m I = (bef, ge)" by fastforce
  note sp = find_ge_split [OF assms(1) fg]
  have ne: "m \<noteq> []" using assms(3) by (auto simp: dim_overlaps_def)
  show ?thesis
  proof (cases ge)
    case Nil
    then have "last m \<in> set m" "istart (fst (last m)) < istart I" using ne sp by auto
    moreover have "istart I \<le> iend (fst (last m))" using assms(3) fg Nil ne by (simp add: dim_overlaps_def)
    ultimately have "dim_at m (istart I) \<noteq> None" by (auto simp: dim_at_None intro: less_imp_le)
    then show ?thesis using assms(2) by (auto simp: in_iv_def)
  next
    case (Cons e es)
    then have "istart (fst e) \<le> iend I" "istart I \<le> istart (fst e)"
      using assms(3) fg ne sp(3) by (simp_all add: dim_overlaps_def)
    moreover have "dim_at m (istart (fst e)) \<noteq> None"
      using assms(1) sp(1) Cons by (auto simp: dim_at_None dim_wf_def dest: iv_okD)
    ultimately show ?thesis by (auto simp: in_iv_def)
  qed
qed

theorem dim_overlaps_sound_witness:
  "\<exists>x. in_iv x (iv 5 22) \<and> dim_at [(iv 0 9, {1 :: nat}), (iv 20 30, {2})] x \<noteq> None"
  by (rule dim_overlaps_sound)
    (simp_all add: dim_wf_def iv_ok_iv dim_overlaps_def find_ge_def less_eq_Offset_def less_Offset_def)

text \<open>The converse fails, so \<open>overlaps\<close> and \<open>overlapsFull\<close> are not the overlap tests
  they are meant to be: with the map \<open>{0-9, 20-30}\<close>, all of whose first interval covers the
  query \<open>5-6\<close>, both answer no; and an interval that lies wholly before another one counts as
  overlapping it.\<close>

theorem dim_overlaps_misses:
  "dim_overlaps [(iv 0 9, {a}), (iv 20 30, {b})] (iv 5 6) = False \<and>
   dim_overlapsFull [(iv 0 9, {a}), (iv 20 30, {b})] (iv 5 6) = False \<and>
   dim_at [(iv 0 9, {a}), (iv 20 30, {b})] (Offset 5) = Some {a} \<and>
   dim_at [(iv 0 9, {a}), (iv 20 30, {b})] (Offset 6) = Some {a} \<and>
   iv_overlaps (iv 0 1) (iv 20 30) = True"
  by (simp add: dim_overlaps_def dim_overlapsFull_def find_ge_def less_eq_Offset_def less_Offset_def
      iv_overlaps_def offset_minus_def UNKNOWN_num)

lemma full_walk_covers:
  assumes "full_walk I le es" and "dim_wf es" and "le < iend I"
    and "le < x" and "x \<le> iend I"
  shows "dim_at es x \<noteq> None"
  using assms
proof (induction I le es rule: full_walk.induct)
  case (2 I le e es)
  have start: "istart (fst e) = osucc le" using 2 by (simp split: if_splits)
  then have "istart (fst e) \<le> x" using osucc_le [OF 2(4)] 2(5) by simp
  with 2 show ?case by (cases "x \<le> iend (fst e)") (auto simp: dim_wf_Cons not_le split: if_splits)
qed simp

text \<open>A positive answer of \<open>overlapsFull\<close> means that every byte of the interval is mapped.\<close>

theorem dim_overlapsFull_sound:
  assumes "dim_wf m" and "iv_ok I" and "dim_overlapsFull m I" and "in_iv x I"
  shows "dim_at m x \<noteq> None"
proof -
  obtain bef ge where fg: "find_ge m I = (bef, ge)" by fastforce
  note sp = find_ge_split [OF assms(1) fg]
  have ne: "m \<noteq> []" using assms(3) by (auto simp: dim_overlapsFull_def)
  show ?thesis
  proof (cases ge)
    case Nil
    then have l: "last m \<in> set m" "istart (fst (last m)) < istart I" using ne sp by auto
    moreover have "iend I \<le> iend (fst (last m))"
      using assms(3) fg Nil ne by (simp add: dim_overlapsFull_def)
    ultimately have "istart (fst (last m)) \<le> x \<and> x \<le> iend (fst (last m))"
      using assms(4) by (auto simp: in_iv_def intro: order.trans less_imp_le)
    then show ?thesis using l by (auto simp: dim_at_None)
  next
    case (Cons e es)
    have wf: "dim_wf (e # es)" using assms(1) sp(1) Cons by (simp add: dim_wf_append)
    have walk: "iend (fst e) < iend I \<Longrightarrow> full_walk I (iend (fst e)) es"
      using assms(3) fg ne Cons by (simp add: dim_overlapsFull_def split: if_splits)
    have tail: "dim_at (e # es) x \<noteq> None" if "istart (fst e) \<le> x"
      using full_walk_covers [OF walk, of x] wf that assms(4)
      by (cases "x \<le> iend (fst e)") (auto simp: dim_wf_Cons in_iv_def not_le intro: order.strict_trans2)
    show ?thesis
    proof (cases "istart (fst e) \<le> x")
      case True
      then show ?thesis using tail sp(1) Cons by (simp add: dim_at_append del: dim_at.simps split: option.split)
    next
      case False
      then have lt: "istart I < istart (fst e)" using assms(4) by (auto simp: in_iv_def not_le intro: order.strict_trans1)
      then have b: "bef \<noteq> []" "iend (fst (last bef)) = opred (istart (fst e))"
        using assms(3) fg ne Cons by (auto simp: dim_overlapsFull_def split: if_splits)
      have "\<not> isUnknown (istart (fst e))" using wf by (simp add: dim_wf_Cons iv_ok_def)
      then have "x \<le> iend (fst (last bef))" using False b(2) by (simp add: le_opred [OF lt])
      moreover have "istart (fst (last bef)) \<le> x"
        using sp(2) b(1) assms(4) last_in_set [OF b(1)]
        by (auto simp: in_iv_def intro: order.trans [OF less_imp_le])
      ultimately show ?thesis using b(1) sp(1) by (auto simp: dim_at_None)
    qed
  qed
qed

theorem dim_overlapsFull_sound_witness:
  "dim_at [(iv 0 9, {1 :: nat}), (iv 10 30, {2})] (Offset 12) \<noteq> None"
  by (rule dim_overlapsFull_sound [where I = "iv 0 22"])
    (simp_all add: dim_wf_def iv_ok_iv dim_overlapsFull_def find_ge_def less_eq_Offset_def
      less_Offset_def in_iv_word offset_plus_def UNKNOWN_num)

section \<open>Uncovered parts\<close>

lemma uncovered_loop_ok:
  assumes "dim_wf es" and "es \<noteq> []" and "\<forall>e \<in> set es. cur \<le> istart (fst e)"
    and "\<not> isUnknown cur"
  shows "\<exists>gs. uncovered_loop I cur es ret = Some (ret @ gs) \<and>
    (\<forall>x. (\<exists>g \<in> set gs. in_iv x g) \<longrightarrow> cur \<le> x \<and> dim_at es x = None) \<and>
    (\<forall>x. cur \<le> x \<longrightarrow> x \<le> iend I \<longrightarrow> dim_at es x = None \<longrightarrow> (\<exists>g \<in> set gs. in_iv x g))"
  using assms
proof (induction es arbitrary: cur ret)
  case (Cons e es)
  have cur: "cur \<le> istart (fst e)" and wf: "dim_wf es" and ok: "iv_ok (fst e)"
    and lt: "\<forall>f \<in> set es. iend (fst e) < istart (fst f)"
    using Cons.prems by (auto simp: dim_wf_Cons)
  have known: "\<not> isUnknown (istart (fst e))" and se: "istart (fst e) \<le> iend (fst e)"
    and nl: "iend (fst e) \<noteq> Offset (UNKNOWN - 1)"
    using ok by (simp_all add: iv_ok_def)
  define g0 where "g0 = (if cur < istart (fst e) then [\<lparr>istart = cur, iend = opred (istart (fst e))\<rparr>] else [])"
  have g0: "(\<exists>g \<in> set g0. in_iv x g) = (cur \<le> x \<and> x < istart (fst e))" for x
    using le_opred [OF _ known, of cur x] by (auto simp: g0_def in_iv_def)
  have es: "dim_at es x = None" if "x \<le> iend (fst e)" for x
    using that lt by (fastforce simp: dim_at_None)
  define B where "B = (if cur \<noteq> istart (fst e) \<and> cur < istart (fst e)
         then (if istart (fst e) = Offset 0 then None
               else map_option (\<lambda>g. ret @ [g]) (mk_interval cur (opred (istart (fst e)))))
         else Some ret)"
  have B: "B = Some (ret @ g0)"
  proof (cases "cur < istart (fst e)")
    case True
    moreover from True have "istart (fst e) \<noteq> Offset 0" by (auto simp: less_Offset_def)
    moreover have "cur \<le> opred (istart (fst e))" using True by (simp add: le_opred [OF True known])
    ultimately show ?thesis by (simp add: B_def g0_def)
  qed (simp add: B_def g0_def)
  have eq: "uncovered_loop I cur (e # es) ret =
      (if iend (fst e) \<ge> iend I then Some (ret @ g0)
       else case es of
         [] \<Rightarrow> Some (if osucc (iend (fst e)) \<le> iend I
            then ret @ g0 @ [\<lparr>istart = osucc (iend (fst e)), iend = iend I\<rparr>] else ret @ g0)
       | _ \<Rightarrow> uncovered_loop I (osucc (iend (fst e))) es (ret @ g0))"
    using cur B by (subst uncovered_loop.simps) (simp add: B_def [symmetric] Let_def del: uncovered_loop.simps split: list.split)
  show ?case
  proof (cases "iend I \<le> iend (fst e)")
    case True
    have "dim_at (e # es) x = None" if "x < istart (fst e)" for x
      using that es [of x] se by (auto intro: less_imp_le order.strict_trans2)
    moreover have "x < istart (fst e)" if "x \<le> iend I" "dim_at (e # es) x = None" for x
      using that order.trans [OF that(1) True] by (auto split: if_splits simp: not_le)
    ultimately show ?thesis
      using True eq by (intro exI [of _ g0]) (simp add: g0 del: dim_at.simps)
  next
    case False
    then have lt': "iend (fst e) < iend I" by simp
    note sl = osucc_le [OF lt']
    have at: "dim_at (e # es) x = (if istart (fst e) \<le> x \<and> x \<le> iend (fst e) then Some (snd e) else dim_at es x)" for x
      by simp
    obtain gs where gs: "uncovered_loop I cur (e # es) ret = Some (ret @ g0 @ gs)"
      "\<forall>x. (\<exists>g \<in> set gs. in_iv x g) \<longrightarrow> iend (fst e) < x \<and> dim_at es x = None"
      "\<forall>x. iend (fst e) < x \<longrightarrow> x \<le> iend I \<longrightarrow> dim_at es x = None \<longrightarrow> (\<exists>g \<in> set gs. in_iv x g)"
    proof (cases es)
      case n: Nil
      then show ?thesis
        using n False eq lt'
        by (intro that [of "[\<lparr>istart = osucc (iend (fst e)), iend = iend I\<rparr>]"]) (simp_all add: sl in_iv_def)
    next
      case f: (Cons f fs)
      have "\<forall>h \<in> set es. osucc (iend (fst e)) \<le> istart (fst h)"
        using lt by (simp add: sl)
      moreover have "\<not> isUnknown (osucc (iend (fst e)))" by (rule osucc_known [OF lt' nl])
      moreover have "es \<noteq> []" using f by simp
      ultimately obtain gs where "uncovered_loop I (osucc (iend (fst e))) es (ret @ g0) = Some ((ret @ g0) @ gs)"
        "\<forall>x. (\<exists>g \<in> set gs. in_iv x g) \<longrightarrow> osucc (iend (fst e)) \<le> x \<and> dim_at es x = None"
        "\<forall>x. osucc (iend (fst e)) \<le> x \<longrightarrow> x \<le> iend I \<longrightarrow> dim_at es x = None \<longrightarrow> (\<exists>g \<in> set gs. in_iv x g)"
        using Cons.IH [OF wf, of "osucc (iend (fst e))" "ret @ g0"] by blast
      then show ?thesis
        using False eq f by (intro that [of gs]) (simp_all add: sl del: uncovered_loop.simps dim_at.simps)
    qed
    have "cur \<le> x \<and> dim_at (e # es) x = None" if "\<exists>g \<in> set (g0 @ gs). in_iv x g" for x
    proof -
      from that consider "cur \<le> x" "x < istart (fst e)" | "iend (fst e) < x" "dim_at es x = None"
        using g0 [of x] gs(2) by auto
      then show ?thesis
      proof cases
        case 1
        then show ?thesis using es [of x] se by (auto intro: less_imp_le order.strict_trans2)
      next
        case 2
        then show ?thesis using cur se by (auto intro: order.trans less_imp_le)
      qed
    qed
    moreover have "\<exists>g \<in> set (g0 @ gs). in_iv x g"
      if "cur \<le> x" "x \<le> iend I" "dim_at (e # es) x = None" for x
      using that g0 [of x] gs(3) by (cases "x < istart (fst e)") (auto split: if_splits simp: not_le not_less)
    ultimately show ?thesis
      using gs(1) by (intro exI [of _ "g0 @ gs"]) (simp del: dim_at.simps)
  qed
qed simp


text \<open>The intervals \<open>uncovered\<close> returns are proper and disjoint.\<close>

definition ivs_ok :: "DiscreteInterval list \<Rightarrow> bool" where
  "ivs_ok gs = ((\<forall>g \<in> set gs. iv_ok g) \<and> sorted_wrt (\<lambda>a b. iend a < istart b) gs)"

lemma uncovered_loop_ivs:
  assumes "dim_wf es" and "\<forall>e \<in> set es. cur \<le> istart (fst e)" and "\<not> isUnknown cur"
    and "iend I \<noteq> Offset (UNKNOWN - 1)" and "uncovered_loop I cur es ret = Some out"
  shows "\<exists>gs. out = ret @ gs \<and> ivs_ok gs \<and> (\<forall>g \<in> set gs. cur \<le> istart g \<and> (cur \<le> iend I \<longrightarrow> istart g \<le> iend I))"
  using assms
proof (induction es arbitrary: cur ret)
  case (Cons e es)
  have cur: "cur \<le> istart (fst e)" and wf: "dim_wf es" and ok: "iv_ok (fst e)"
    and lt: "\<forall>f \<in> set es. iend (fst e) < istart (fst f)"
    using Cons.prems by (auto simp: dim_wf_Cons)
  have known: "\<not> isUnknown (istart (fst e))" and se: "istart (fst e) \<le> iend (fst e)"
    and nl: "iend (fst e) \<noteq> Offset (UNKNOWN - 1)"
    using ok by (simp_all add: iv_ok_def)
  obtain g0 where g0: "(if cur \<noteq> istart (fst e) \<and> cur < istart (fst e)
         then (if istart (fst e) = Offset 0 then None
               else map_option (\<lambda>g. ret @ [g]) (mk_interval cur (opred (istart (fst e)))))
         else Some ret) = Some (ret @ g0)" "ivs_ok g0" "\<forall>g \<in> set g0. istart g = cur \<and> iend g < istart (fst e)"
  proof (cases "cur < istart (fst e)")
    case True
    have "cur \<le> opred (istart (fst e))" "opred (istart (fst e)) < istart (fst e)"
      using le_opred [OF True known] opred_less [OF True known] True by simp_all
    moreover have "istart (fst e) \<noteq> Offset 0" using True by (auto simp: less_Offset_def)
    ultimately show ?thesis
      using True Cons.prems(3) opred_not_last [OF True known]
      by (intro that [of "[\<lparr>istart = cur, iend = opred (istart (fst e))\<rparr>]"]) (simp_all add: ivs_ok_def iv_ok_def)
  qed (auto simp: ivs_ok_def intro: that [of "[]"])
  show ?case
  proof (cases "iend I \<le> iend (fst e)")
    case True
    then have "out = ret @ g0" using Cons.prems(5) cur g0(1) by (simp split: if_splits)
    then show ?thesis using g0 by auto
  next
    case False
    then have lt': "iend (fst e) < iend I" by simp
    note sl = osucc_le [OF lt']
    have known': "\<not> isUnknown (osucc (iend (fst e)))" by (rule osucc_known [OF lt' nl])
    have join: "ivs_ok (g0 @ gs) \<and> (\<forall>g \<in> set (g0 @ gs). cur \<le> istart g \<and> (cur \<le> iend I \<longrightarrow> istart g \<le> iend I))"
      if "ivs_ok gs" "\<forall>g \<in> set gs. osucc (iend (fst e)) \<le> istart g \<and> istart g \<le> iend I" for gs
    proof -
      have "\<forall>g \<in> set gs. iend (fst e) < istart g" using that(2) by (simp add: sl)
      then have "ivs_ok (g0 @ gs) \<and> (\<forall>g \<in> set (g0 @ gs). cur \<le> istart g)"
        using that(1) g0(2,3) se cur by (fastforce simp: ivs_ok_def sorted_wrt_append)
      then show ?thesis using that(2) g0(3) by auto
    qed
    show ?thesis
    proof (cases es)
      case Nil
      then have "out = ret @ g0 @ [\<lparr>istart = osucc (iend (fst e)), iend = iend I\<rparr>]"
        using Cons.prems(5) cur g0(1) lt' False by (auto simp: sl Let_def)
      moreover have "ivs_ok [\<lparr>istart = osucc (iend (fst e)), iend = iend I\<rparr>]"
        using known' Cons.prems(4) lt' by (simp add: ivs_ok_def iv_ok_def sl)
      ultimately show ?thesis using join [of "[\<lparr>istart = osucc (iend (fst e)), iend = iend I\<rparr>]"] lt' by (auto simp: sl)
    next
      case f: (Cons f fs)
      then have "uncovered_loop I (osucc (iend (fst e))) es (ret @ g0) = Some out"
        using Cons.prems(5) cur g0(1) False by (subst (asm) uncovered_loop.simps) (simp add: Let_def del: uncovered_loop.simps)
      moreover have "\<forall>h \<in> set es. osucc (iend (fst e)) \<le> istart (fst h)" using lt by (simp add: sl)
      ultimately obtain gs where "out = (ret @ g0) @ gs" "ivs_ok gs"
        "\<forall>g \<in> set gs. osucc (iend (fst e)) \<le> istart g \<and> istart g \<le> iend I"
        using Cons.IH [OF wf _ known' Cons.prems(4), of "ret @ g0"] lt' by (auto simp: sl)
      then show ?thesis using join [of gs] by auto
    qed
  qed
qed simp

lemma uncovered_ivs:
  assumes "dim_wf m" and "iv_ok I" and "uncovered m I = Some gs"
  shows "ivs_ok gs \<and> (\<forall>g \<in> set gs. istart I \<le> istart g \<and> istart g \<le> iend I)"
proof (cases "m = []")
  case True
  then show ?thesis using assms(2,3) by (auto simp: uncovered_def ivs_ok_def iv_ok_def)
next
  case False
  note I = iv_okD [OF assms(2)]
  have kn: "\<not> isUnknown (istart I)" "iend I \<noteq> Offset (UNKNOWN - 1)" using assms(2) by (simp_all add: iv_ok_def)
  obtain bef it where D: "dim_le m I = Some (bef, it)" "m = bef @ it"
    and C: "it \<noteq> [] \<Longrightarrow> istart I \<le> iend (fst (hd it)) \<and> (\<forall>e \<in> set (tl it). istart I < istart (fst e))"
    using dim_le_ok [OF assms(1) I False] by metis
  show ?thesis
  proof (cases it)
    case Nil
    then show ?thesis using assms(2,3) False D(1) by (auto simp: uncovered_def ivs_ok_def iv_ok_def)
  next
    case (Cons e es)
    have wf: "dim_wf (e # es)" using assms(1) D(2) Cons by (simp add: dim_wf_append)
    then have lt: "\<forall>f \<in> set es. iend (fst e) < istart (fst f)" and wfs: "dim_wf es"
      and nl: "iend (fst e) \<noteq> Offset (UNKNOWN - 1)" by (simp_all add: dim_wf_Cons iv_ok_def)
    show ?thesis
    proof (cases "istart (fst e) < istart I")
      case lt1: True
      show ?thesis
      proof (cases "iend I \<le> iend (fst e)")
        case True
        then show ?thesis using assms(3) False D(1) Cons lt1 by (simp add: uncovered_def ivs_ok_def)
      next
        case nle: False
        then have lt2: "iend (fst e) < iend I" by simp
        note sl = osucc_le [OF lt2]
        have "istart I \<le> iend (fst e)" using C Cons by simp
        then have le_s: "istart I \<le> osucc (iend (fst e))" using lt2 onat_bound [of "istart I"] by (simp add: onat_le_iff onat_plus onat_less_iff)
        show ?thesis
        proof (cases "es = []")
          case True
          then show ?thesis
            using assms(3) False D(1) Cons lt1 nle lt2 kn osucc_known [OF lt2 nl] le_s
            by (auto simp: uncovered_def sl Let_def ivs_ok_def iv_ok_def)
        next
          case ne: False
          have "uncovered_loop I (osucc (iend (fst e))) es [] = Some gs"
            using assms(3) False D(1) Cons lt1 nle ne by (simp add: uncovered_def Let_def del: uncovered_loop.simps)
          moreover have "\<forall>f \<in> set es. osucc (iend (fst e)) \<le> istart (fst f)" using lt by (simp add: sl)
          ultimately show ?thesis
            using uncovered_loop_ivs [OF wfs _ osucc_known [OF lt2 nl] kn(2)] order.trans [OF le_s] lt2 by (fastforce simp: sl)
        qed
      qed
    next
      case F: False
      then have "uncovered_loop I (istart I) (e # es) [] = Some gs"
        using assms(3) False D(1) Cons by (simp add: uncovered_def del: uncovered_loop.simps)
      moreover have "\<forall>f \<in> set (e # es). istart I \<le> istart (fst f)" using C Cons F by (auto intro: less_imp_le)
      ultimately show ?thesis using uncovered_loop_ivs [OF wf _ kn] I by fastforce
    qed
  qed
qed


lemma uncovered_ok:
  assumes "dim_wf m" and "iv_ok I"
  shows "\<exists>gs. uncovered m I = Some gs \<and>
    (\<forall>x. (\<exists>g \<in> set gs. in_iv x g) \<longrightarrow> istart I \<le> x \<and> dim_at m x = None) \<and>
    (\<forall>x. in_iv x I \<longrightarrow> dim_at m x = None \<longrightarrow> (\<exists>g \<in> set gs. in_iv x g))"
proof (cases "m = []")
  case True
  then show ?thesis by (simp add: uncovered_def in_iv_def)
next
  case False
  note I = iv_okD [OF assms(2)]
  obtain bef it where D: "dim_le m I = Some (bef, it)" "m = bef @ it"
    and N: "it = [] \<Longrightarrow> \<forall>e \<in> set m. iend (fst e) < istart I \<or> iend I < istart (fst e)"
    and C: "it \<noteq> [] \<Longrightarrow> (\<forall>e \<in> set bef. iend (fst e) < istart I) \<and> istart I \<le> iend (fst (hd it)) \<and>
       istart (fst (hd it)) \<le> iend I \<and> iv_overlaps (fst (hd it)) I \<and>
       (\<forall>e \<in> set (tl it). istart I < istart (fst e))"
    using dim_le_ok [OF assms(1) I False] by blast
  show ?thesis
  proof (cases it)
    case Nil
    then have "dim_at m x = None" if "in_iv x I" for x
      using N that by (fastforce simp: dim_at_None in_iv_def)
    then show ?thesis using False D(1) Nil by (simp add: uncovered_def in_iv_def)
  next
    case (Cons e es)
    have wf: "dim_wf (e # es)" using assms(1) D(2) Cons by (simp add: dim_wf_append)
    then have lt: "\<forall>f \<in> set es. iend (fst e) < istart (fst f)" and wfs: "dim_wf es"
      and nl: "iend (fst e) \<noteq> Offset (UNKNOWN - 1)" and se: "istart (fst e) \<le> iend (fst e)"
      by (simp_all add: dim_wf_Cons iv_ok_def)
    have bef: "dim_at bef x = None" if "istart I \<le> x" for x
      using C Cons that by (fastforce simp: dim_at_None)
    have at: "dim_at m x = dim_at (e # es) x" if "istart I \<le> x" for x
      using bef [OF that] D(2) Cons by (simp add: dim_at_append del: dim_at.simps)
    have eI: "istart I \<le> iend (fst e)" using C Cons by simp
    show ?thesis
    proof (cases "istart (fst e) < istart I")
      case lt1: True
      show ?thesis
      proof (cases "iend I \<le> iend (fst e)")
        case True
        have "dim_at m x \<noteq> None" if "in_iv x I" for x
          using that at [of x] lt1 order.trans [OF _ True] order.trans [OF less_imp_le [OF lt1]]
          by (auto simp: in_iv_def)
        then show ?thesis using False D(1) Cons lt1 True by (simp add: uncovered_def)
      next
        case nle: False
        then have lt2: "iend (fst e) < iend I" by simp
        note sl = osucc_le [OF lt2]
        have at2: "dim_at m x = (if x \<le> iend (fst e) then Some (snd e) else dim_at es x)"
          if "istart I \<le> x" for x
          using at [OF that] order.trans [OF less_imp_le [OF lt1] that] by simp
        have gt: "istart I \<le> x" if "iend (fst e) < x" for x
          using order.trans [OF eI less_imp_le [OF that]] .
        show ?thesis
        proof (cases "es = []")
          case True
          then have "uncovered m I = Some [\<lparr>istart = osucc (iend (fst e)), iend = iend I\<rparr>]"
            using False D(1) Cons lt1 nle lt2 by (simp add: uncovered_def sl Let_def)
          then show ?thesis
            using True at2 gt by (auto simp: in_iv_def sl)
        next
          case ne: False
          have "\<forall>f \<in> set es. osucc (iend (fst e)) \<le> istart (fst f)" using lt by (simp add: sl)
          then obtain gs where gs: "uncovered_loop I (osucc (iend (fst e))) es [] = Some ([] @ gs)"
            "\<forall>x. (\<exists>g \<in> set gs. in_iv x g) \<longrightarrow> osucc (iend (fst e)) \<le> x \<and> dim_at es x = None"
            "\<forall>x. osucc (iend (fst e)) \<le> x \<longrightarrow> x \<le> iend I \<longrightarrow> dim_at es x = None \<longrightarrow> (\<exists>g \<in> set gs. in_iv x g)"
            using uncovered_loop_ok [OF wfs ne _ osucc_known [OF lt2 nl]] by blast
          have "uncovered m I = Some gs"
            using False D(1) Cons lt1 nle ne gs(1) by (simp add: uncovered_def Let_def del: uncovered_loop.simps)
          moreover have "istart I \<le> x \<and> dim_at m x = None" if "\<exists>g \<in> set gs. in_iv x g" for x
            using gs(2) that at2 gt by (metis not_le sl)
          moreover have "\<exists>g \<in> set gs. in_iv x g" if "in_iv x I" "dim_at m x = None" for x
            using gs(3) that at2 [of x] by (auto simp: sl in_iv_def split: if_splits)
          ultimately show ?thesis by blast
        qed
      qed
    next
      case F: False
      then have pre: "\<forall>f \<in> set (e # es). istart I \<le> istart (fst f)"
        using C Cons by (auto intro: less_imp_le)
      obtain gs where gs: "uncovered_loop I (istart I) (e # es) [] = Some ([] @ gs)"
        "\<forall>x. (\<exists>g \<in> set gs. in_iv x g) \<longrightarrow> istart I \<le> x \<and> dim_at (e # es) x = None"
        "\<forall>x. istart I \<le> x \<longrightarrow> x \<le> iend I \<longrightarrow> dim_at (e # es) x = None \<longrightarrow> (\<exists>g \<in> set gs. in_iv x g)"
        using uncovered_loop_ok [OF wf list.distinct(2) pre, of I "[]"] assms(2)
        unfolding iv_ok_def by blast
      have "uncovered m I = Some gs"
        using False D(1) Cons F gs(1) by (simp add: uncovered_def del: uncovered_loop.simps)
      then show ?thesis
        using gs(2,3) at by (metis in_iv_def)
    qed
  qed
qed

text \<open>Intervals of which all or no bytes are mapped.\<close>

lemma uncovered_all:
  assumes "dim_wf m" and "iv_ok I" and "\<forall>x. in_iv x I \<longrightarrow> dim_at m x \<noteq> None"
  shows "uncovered m I = Some []"
proof -
  obtain gs where gs: "uncovered m I = Some gs" "\<forall>x. (\<exists>g \<in> set gs. in_iv x g) \<longrightarrow> dim_at m x = None"
    using uncovered_ok [OF assms(1,2)] by blast
  have "False" if g: "g \<in> set gs" for g
  proof -
    have "ivs_ok gs" "istart I \<le> istart g \<and> istart g \<le> iend I" using uncovered_ivs [OF assms(1,2) gs(1)] g by blast+
    then have "in_iv (istart g) g" "in_iv (istart g) I" using g by (auto simp: ivs_ok_def iv_ok_def in_iv_def)
    then show False using gs(2) g assms(3) by blast
  qed
  then have "gs = []" by (cases gs) auto
  then show ?thesis using gs(1) by simp
qed

lemma uncovered_none:
  assumes "dim_wf m" and "iv_ok I" and "\<forall>x. in_iv x I \<longrightarrow> dim_at m x = None"
  shows "uncovered m I = Some [I]"
proof (cases "m = []")
  case False
  note I = iv_okD [OF assms(2)]
  obtain bef it where D: "dim_le m I = Some (bef, it)" "m = bef @ it"
    and C: "it \<noteq> [] \<Longrightarrow> istart I \<le> iend (fst (hd it)) \<and> istart (fst (hd it)) \<le> iend I"
    using dim_le_ok [OF assms(1) I False] by metis
  have "it = []"
  proof (rule ccontr)
    assume ne: "it \<noteq> []"
    obtain J vs where J: "hd it = (J, vs)" by fastforce
    then have mem: "(J, vs) \<in> set m" using ne D(2) hd_in_set [OF ne] by auto
    have "istart J \<le> iend J" using dim_wf_mem [OF assms(1) mem] .
    moreover have "istart I \<le> iend J" "istart J \<le> iend I" using C [OF ne] J by simp_all
    ultimately have "in_iv (max (istart I) (istart J)) I" "in_iv (max (istart I) (istart J)) J" using I by (auto simp: in_iv_def)
    then show False using assms(3) dim_at_mem [OF assms(1) mem] by fastforce
  qed
  then show ?thesis using False D(1) by (simp add: uncovered_def)
qed (simp add: uncovered_def)

text \<open>\<open>uncovered\<close> fails no assertion on a well-formed map. No byte of the intervals it
  returns is mapped or lies before the queried interval, and every byte of the queried
  interval that is not mapped lies in one of them.\<close>

theorem uncovered_correct:
  assumes "dim_wf m" and "iv_ok I"
  shows "\<exists>gs. uncovered m I = Some gs \<and>
    (\<forall>x. (\<exists>g \<in> set gs. in_iv x g) \<longrightarrow> istart I \<le> x \<and> dim_at m x = None) \<and>
    (\<forall>x. in_iv x I \<longrightarrow> dim_at m x = None \<longrightarrow> (\<exists>g \<in> set gs. in_iv x g))"
  by (rule uncovered_ok [OF assms])

theorem uncovered_correct_witness:
  "\<exists>gs. uncovered [(iv 0 9, {1 :: nat}), (iv 20 30, {2})] (iv 5 22) = Some gs \<and>
     (\<exists>g \<in> set gs. in_iv (Offset 15) g) \<and> \<not> (\<exists>g \<in> set gs. in_iv (Offset 20) g)"
proof -
  have "dim_wf [(iv 0 9, {1 :: nat}), (iv 20 30, {2})]" "iv_ok (iv 5 22)"
    by (simp_all add: dim_wf_def iv_ok_iv less_Offset_def)
  from uncovered_correct [OF this] obtain gs where
    gs: "uncovered [(iv 0 9, {1 :: nat}), (iv 20 30, {2})] (iv 5 22) = Some gs"
    "\<And>x. (\<exists>g \<in> set gs. in_iv x g) \<Longrightarrow> dim_at [(iv 0 9, {1 :: nat}), (iv 20 30, {2})] x = None"
    "\<And>x. in_iv x (iv 5 22) \<Longrightarrow> dim_at [(iv 0 9, {1 :: nat}), (iv 20 30, {2})] x = None \<Longrightarrow> (\<exists>g \<in> set gs. in_iv x g)"
    by blast
  have "\<exists>g \<in> set gs. in_iv (Offset 15) g"
    by (rule gs(3)) (simp_all add: in_iv_word less_eq_Offset_def)
  moreover have "\<not> (\<exists>g \<in> set gs. in_iv (Offset 20) g)"
    using gs(2) [of "Offset 20"] by (auto simp: less_eq_Offset_def)
  ultimately show ?thesis using gs(1) by blast
qed

text \<open>The intervals \<open>uncovered\<close> returns can reach beyond the queried interval: with
  \<open>{0-1, 10-20}\<close> the uncovered part of \<open>0-5\<close> is reported as \<open>2-9\<close>.\<close>

theorem uncovered_exceeds:
  "uncovered [(iv 0 1, {a}), (iv 10 20, {b})] (iv 0 5) = Some [iv 2 9] \<and> \<not> in_iv (Offset 9) (iv 0 5)"
  by (simp add: uncovered_def dim_le_def shift_le_def find_ge_def less_eq_Offset_def less_Offset_def
      iv_overlaps_def offset_plus_def offset_minus_def UNKNOWN_num in_iv_word Let_def mk_interval_def word_le_nat_alt)

section \<open>Intersection\<close>

lemma inter_skip_stuck: "iend (fst e) < s \<Longrightarrow> inter_skip (e # es) s = None"
proof -
  have "it = e # es \<longrightarrow> iend (fst e) < s \<longrightarrow> False" if "inter_skip it s = Some y" for it s y
    by (rule inter_skip.raw_induct [OF _ that, where P = "\<lambda>it s y. it = e # es \<longrightarrow> iend (fst e) < s \<longrightarrow> False"])
      (auto split: list.splits if_splits)
  then show "iend (fst e) < s \<Longrightarrow> inter_skip (e # es) s = None"
    by (cases "inter_skip (e # es) s") auto
qed

text \<open>\<open>intersection\<close> does not return when the first interval of the left map ends before
  the first interval of the right map starts: the loop that should skip it never advances its
  iterator.\<close>

theorem dim_intersection_diverges:
  assumes "iend (fst e) < istart (fst r)"
  shows "dim_intersection (e # m) (r # rhs) = None"
  using inter_skip_stuck [OF assms] by (simp add: dim_intersection_def)

theorem dim_intersection_diverges_witness:
  "dim_intersection [(iv 0 9, {1::nat}), (iv 20 30, {2})] [(iv 20 30, {2})] = None"
  by (rule dim_intersection_diverges) (simp add: less_Offset_def)

end
