(* ===== verification/Ordered_Map.thy ===== *)
theory Ordered_Map
  imports Prelude
begin

text \<open>
  The part of \<open>std::map\<close> the sources use, as an association list whose keys are strictly
  increasing: iteration order is list order, \<open>find\<close> is \<open>map_of\<close>. \<open>smap_set\<close> is
  \<open>m[k] = v\<close>, \<open>smap_emplace\<close> keeps an entry that is already there, \<open>smap_erase\<close> removes a
  key. A \<open>std::set\<close> whose order matters is a strictly increasing list of elements with
  \<open>sset_insert\<close>.
\<close>

type_synonym ('k, 'v) smap = "('k \<times> 'v) list"

definition smap_wf :: "('k::linorder, 'v) smap \<Rightarrow> bool" where
  "smap_wf m = sorted_wrt (<) (map fst m)"

fun smap_set :: "'k::linorder \<Rightarrow> 'v \<Rightarrow> ('k, 'v) smap \<Rightarrow> ('k, 'v) smap" where
  "smap_set k v [] = [(k, v)]"
| "smap_set k v ((a, b) # m) =
     (if k < a then (k, v) # (a, b) # m else if k = a then (k, v) # m
      else (a, b) # smap_set k v m)"

definition smap_emplace :: "'k::linorder \<Rightarrow> 'v \<Rightarrow> ('k, 'v) smap \<Rightarrow> ('k, 'v) smap" where
  "smap_emplace k v m = (case map_of m k of None \<Rightarrow> smap_set k v m | Some _ \<Rightarrow> m)"

definition smap_erase :: "'k::linorder \<Rightarrow> ('k, 'v) smap \<Rightarrow> ('k, 'v) smap" where
  "smap_erase k m = filter (\<lambda>(a, _). a \<noteq> k) m"

fun sset_insert :: "'k::linorder \<Rightarrow> 'k list \<Rightarrow> 'k list" where
  "sset_insert k [] = [k]"
| "sset_insert k (a # m) =
     (if k < a then k # a # m else if k = a then a # m else a # sset_insert k m)"

section \<open>Lookup after an update\<close>

lemma smap_wf_Nil [simp]: "smap_wf []"
  by (simp add: smap_wf_def)

lemma smap_wf_Cons: "smap_wf ((a, b) # m) = (smap_wf m \<and> (\<forall>k \<in> fst ` set m. a < k))"
  by (auto simp: smap_wf_def)

lemma smap_wf_distinct: "smap_wf m \<Longrightarrow> distinct (map fst m)"
  by (simp add: smap_wf_def strict_sorted_iff)

lemma map_of_smap_set [simp]: "map_of (smap_set k v m) = (map_of m)(k \<mapsto> v)"
  by (induction k v m rule: smap_set.induct) auto

lemma keys_smap_set [simp]: "fst ` set (smap_set k v m) = insert k (fst ` set m)"
  by (induction k v m rule: smap_set.induct) auto

lemma smap_wf_set [simp]: "smap_wf m \<Longrightarrow> smap_wf (smap_set k v m)"
  by (induction k v m rule: smap_set.induct) (auto simp: smap_wf_Cons)

lemma set_smap_set:
  "smap_wf m \<Longrightarrow> set (smap_set k v m) = insert (k, v) {p \<in> set m. fst p \<noteq> k}"
  by (induction k v m rule: smap_set.induct) (auto simp: smap_wf_Cons)

lemma map_of_smap_emplace:
  "map_of (smap_emplace k v m) =
     (case map_of m k of None \<Rightarrow> (map_of m)(k \<mapsto> v) | Some _ \<Rightarrow> map_of m)"
  by (simp add: smap_emplace_def split: option.split)

lemma smap_wf_emplace [simp]: "smap_wf m \<Longrightarrow> smap_wf (smap_emplace k v m)"
  by (simp add: smap_emplace_def split: option.split)

lemma map_of_smap_erase [simp]: "map_of (smap_erase k m) = (map_of m)(k := None)"
  by (induction m) (auto simp: smap_erase_def)

lemma smap_wf_erase [simp]: "smap_wf m \<Longrightarrow> smap_wf (smap_erase k m)"
  by (induction m) (auto simp: smap_erase_def smap_wf_Cons)

lemma set_smap_erase: "set (smap_erase k m) = {p \<in> set m. fst p \<noteq> k}"
  by (auto simp: smap_erase_def)

lemma map_of_in_set: "smap_wf m \<Longrightarrow> (map_of m k = Some v) = ((k, v) \<in> set m)"
  using smap_wf_distinct by (metis map_of_is_SomeI map_of_SomeD)

lemma map_of_eq_None: "(map_of m k = None) = (k \<notin> fst ` set m)"
  by (simp add: map_of_eq_None_iff)

lemma smap_ext:
  assumes "smap_wf m" and "smap_wf n" and "\<And>k. map_of m k = map_of n k"
  shows "m = n"
proof (rule map_sorted_distinct_set_unique [of fst])
  show eq: "set m = set n"
    using assms map_of_in_set by (metis subrelI subset_antisym)
  show "inj_on fst (set m \<union> set n)"
    using smap_wf_distinct [OF assms(1)] by (simp add: eq [symmetric] distinct_map)
qed (use assms(1,2) in \<open>auto simp: smap_wf_def strict_sorted_iff\<close>)

section \<open>Ordered sets\<close>

lemma set_sset_insert [simp]: "set (sset_insert k m) = insert k (set m)"
  by (induction k m rule: sset_insert.induct) auto

lemma sorted_sset_insert [simp]:
  "sorted_wrt (<) m \<Longrightarrow> sorted_wrt (<) (sset_insert k m)"
  by (induction k m rule: sset_insert.induct) auto

lemma length_sset_insert:
  "sorted_wrt (<) m \<Longrightarrow> length (sset_insert k m) = (if k \<in> set m then length m else Suc (length m))"
  by (induction k m rule: sset_insert.induct) auto

end
