(* ===== verification/Bitsets.thy ===== *)
theory Bitsets
  imports Ordered_Map
begin

text \<open>
  The bit containers of \<^verbatim>\<open>include/dg/ADT/Bits.h\<close>, \<^verbatim>\<open>Bitvector.h\<close> and
  \<^verbatim>\<open>NumberSet.h\<close>, at their instance with \<open>uint64_t\<close>: \<open>ShiftedBits\<close> and \<open>Bits\<close> (one word
  of bits), \<open>SparseBitvector\<close> (a map from the start of a bucket to its word),
  \<open>BitvectorNumberSet\<close> and \<open>SmallNumberSet\<close>. Positions are \<open>size_t\<close>, a \<open>64 word\<close>.

  Iterators are the state the C++ object keeps (the position in the word, the buckets still
  to visit); \<open>_elems\<close> is the list a \<open>for\<close> loop from \<open>begin\<close> to \<open>end\<close> visits.
\<close>

unbundle bit_operations_syntax

section \<open>One word of bits\<close>

record ShiftedBits =
  sb_bits :: "64 word"
  sb_shift :: "64 word"

definition bitsNum :: "64 word" where
  "bitsNum = 64"

definition sb_mayContain :: "ShiftedBits \<Rightarrow> 64 word \<Rightarrow> bool" where
  "sb_mayContain s i = (i \<ge> sb_shift s \<and> i - sb_shift s < bitsNum)"

fun count_upto :: "64 word \<Rightarrow> nat \<Rightarrow> nat" where
  "count_upto w 0 = 0"
| "count_upto w (Suc i) = (if w AND push_bit i 1 \<noteq> 0 then Suc (count_upto w i) else count_upto w i)"

definition sb_size :: "ShiftedBits \<Rightarrow> nat" where
  "sb_size s = count_upto (sb_bits s) (unat bitsNum)"

definition sb_empty :: "ShiftedBits \<Rightarrow> bool" where
  "sb_empty s = (sb_bits s = 0)"

definition sb_get :: "ShiftedBits \<Rightarrow> 64 word \<Rightarrow> bool" where
  "sb_get s i =
     (if \<not> sb_mayContain s i then False
      else sb_bits s AND push_bit (unat (i - sb_shift s)) 1 \<noteq> 0)"

definition sb_set :: "ShiftedBits \<Rightarrow> 64 word \<Rightarrow> (bool \<times> ShiftedBits) option" where
  "sb_set s i =
     (if \<not> sb_mayContain s i then None
      else Some (sb_get s i, s\<lparr>sb_bits := sb_bits s OR push_bit (unat (i - sb_shift s)) 1\<rparr>))"

function findNext :: "64 word \<Rightarrow> nat \<Rightarrow> nat" where
  "findNext w pos =
     (if w AND push_bit pos 1 \<noteq> 0 \<or> 64 \<le> pos then pos else findNext w (Suc pos))"
  by pat_completeness auto
termination
  by (relation "measure (\<lambda>(w, pos). 64 - pos)") auto

declare findNext.simps [simp del]

lemma findNext_ge: "p \<le> findNext w p"
  by (induction w p rule: findNext.induct) (subst findNext.simps, auto)

definition it_next :: "64 word \<Rightarrow> nat \<Rightarrow> nat" where
  "it_next w pos = (let p = Suc pos in if p = 64 then p else findNext w p)"

definition it_begin :: "64 word \<Rightarrow> nat" where
  "it_begin w = (if w AND 1 = 0 then it_next w 0 else 0)"

text \<open>The positions the loop \<open>for (x : bits)\<close> visits, from iterator position \<open>pos\<close>.\<close>

function it_positions :: "64 word \<Rightarrow> nat \<Rightarrow> nat list" where
  "it_positions w pos = (if 64 \<le> pos then [] else pos # it_positions w (it_next w pos))"
  by pat_completeness auto
termination
proof (relation "measure (\<lambda>(w, pos). 64 - pos)")
  show "wf (measure (\<lambda>(w :: 64 word, pos). 64 - pos))" by simp
next
  fix w :: "64 word" and pos :: nat
  assume "\<not> 64 \<le> pos"
  show "((w, it_next w pos), (w, pos)) \<in> measure (\<lambda>(w, pos). 64 - pos)"
    using \<open>\<not> 64 \<le> pos\<close> findNext_ge [of "Suc pos" w] by (auto simp: it_next_def)
qed

declare it_positions.simps [simp del]

definition sb_elems :: "ShiftedBits \<Rightarrow> 64 word list" where
  "sb_elems s = map (\<lambda>p. sb_shift s + of_nat p) (it_positions (sb_bits s) (it_begin (sb_bits s)))"

text \<open>\<open>Bits\<close> is a bare word; its operations repeat those of \<open>ShiftedBits\<close> with shift 0.\<close>

type_synonym Bits = "64 word"

definition bits_mayContain :: "Bits \<Rightarrow> 64 word \<Rightarrow> bool" where
  "bits_mayContain w i = (i < bitsNum)"

definition bits_size :: "Bits \<Rightarrow> nat" where
  "bits_size w = count_upto w (unat bitsNum)"

definition bits_get :: "Bits \<Rightarrow> 64 word \<Rightarrow> bool" where
  "bits_get w i = (if \<not> bits_mayContain w i then False else w AND push_bit (unat i) 1 \<noteq> 0)"

definition bits_set :: "Bits \<Rightarrow> 64 word \<Rightarrow> (bool \<times> Bits) option" where
  "bits_set w i =
     (if \<not> bits_mayContain w i then None else Some (bits_get w i, w OR push_bit (unat i) 1))"

definition bits_empty :: "Bits \<Rightarrow> bool" where
  "bits_empty w = (w = 0)"

definition bits_elems :: "Bits \<Rightarrow> 64 word list" where
  "bits_elems w = map of_nat (it_positions w (it_begin w))"

section \<open>The sparse bit vector\<close>

type_synonym SparseBitvector = "(64 word, 64 word) smap"

definition shift_of :: "64 word \<Rightarrow> 64 word" where
  "shift_of i = i - (i mod bitsNum)"

function countBits :: "64 word \<Rightarrow> nat" where
  "countBits bits =
     (if bits = 0 then 0
      else (if bits AND 1 \<noteq> 0 then Suc (countBits (drop_bit 1 bits)) else countBits (drop_bit 1 bits)))"
  by pat_completeness auto
termination
proof (relation "measure unat")
  have "unat (drop_bit 1 w) < unat w" if "w \<noteq> 0" for w :: "64 word"
    using that by (simp add: drop_bit_eq_div unat_div unat_gt_0)
  then show "\<And>bits :: 64 word. bits \<noteq> 0 \<Longrightarrow> bits AND 1 \<noteq> 0 \<Longrightarrow> (drop_bit 1 bits, bits) \<in> measure unat"
    and "\<And>bits :: 64 word. bits \<noteq> 0 \<Longrightarrow> \<not> bits AND 1 \<noteq> 0 \<Longrightarrow> (drop_bit 1 bits, bits) \<in> measure unat"
    by simp_all
qed simp

declare countBits.simps [simp del]

definition bit_at :: "64 word \<Rightarrow> 64 word" where
  "bit_at i = push_bit (unat (i - shift_of i)) 1"

definition addBits :: "SparseBitvector \<Rightarrow> 64 word \<Rightarrow> SparseBitvector" where
  "addBits B i = smap_emplace (shift_of i) (bit_at i) B"

definition sbv_empty :: "SparseBitvector \<Rightarrow> bool" where
  "sbv_empty B = (B = [])"

definition sbv_get :: "SparseBitvector \<Rightarrow> 64 word \<Rightarrow> bool" where
  "sbv_get B i =
     (case map_of B (shift_of i) of None \<Rightarrow> False | Some w \<Rightarrow> w AND bit_at i \<noteq> 0)"

definition sbv_set :: "SparseBitvector \<Rightarrow> 64 word \<Rightarrow> bool \<times> SparseBitvector" where
  "sbv_set B i =
     (case map_of B (shift_of i) of
        None \<Rightarrow> (False, addBits B i)
      | Some w \<Rightarrow> (w AND bit_at i \<noteq> 0, smap_set (shift_of i) (w OR bit_at i) B))"

text \<open>\<open>_bits[k]\<close>: a missing bucket reads as a default-constructed 0.\<close>

definition bucket :: "SparseBitvector \<Rightarrow> 64 word \<Rightarrow> 64 word" where
  "bucket B k = (case map_of B k of None \<Rightarrow> 0 | Some v \<Rightarrow> v)"

fun sbv_union :: "SparseBitvector \<Rightarrow> SparseBitvector \<Rightarrow> bool \<times> SparseBitvector" where
  "sbv_union B [] = (False, B)"
| "sbv_union B ((k, w) # rhs) =
     (let old = bucket B k;
          new = old OR w;
          (changed, B') = sbv_union (smap_set k new B) rhs
      in (old \<noteq> new \<or> changed, B'))"

definition sbv_unset :: "SparseBitvector \<Rightarrow> 64 word \<Rightarrow> bool \<times> SparseBitvector" where
  "sbv_unset B i =
     (case map_of B (shift_of i) of
        None \<Rightarrow> (False, B)
      | Some w \<Rightarrow>
          (let w' = w AND NOT (bit_at i)
           in (True, if w' = 0 then smap_erase (shift_of i) B else smap_set (shift_of i) w' B)))"

definition sbv_size :: "SparseBitvector \<Rightarrow> nat" where
  "sbv_size B = sum_list (map (\<lambda>(_, w). countBits w) B)"

definition sbv_singleton :: "64 word \<Rightarrow> SparseBitvector" where
  "sbv_singleton i = snd (sbv_set [] i)"

text \<open>The iterator: the buckets from \<open>container_it\<close> on, and \<open>pos\<close>.\<close>

type_synonym sbv_it = "SparseBitvector \<times> nat"

definition sbv_begin :: "SparseBitvector \<Rightarrow> sbv_it" where
  "sbv_begin B = (case B of [] \<Rightarrow> ([], 0) | (k, w) # _ \<Rightarrow> (B, findNext w 0))"

fun sbv_next :: "sbv_it \<Rightarrow> sbv_it" where
  "sbv_next ([], pos) = ([], pos)"
| "sbv_next ((k, w) # rest, pos) =
     (let p = (if Suc pos \<noteq> 64 then findNext w (Suc pos) else Suc pos)
      in if p = 64
         then (case rest of [] \<Rightarrow> ([], 0) | (_, v) # _ \<Rightarrow> (rest, findNext v 0))
         else ((k, w) # rest, p))"

definition sbv_deref :: "sbv_it \<Rightarrow> 64 word" where
  "sbv_deref it = fst (hd (fst it)) + of_nat (snd it)"

text \<open>The elements a loop from an iterator to \<open>end\<close> visits; \<open>++\<close> asserts \<open>pos < 64\<close>.\<close>

function sbv_from :: "sbv_it \<Rightarrow> 64 word list" where
  "sbv_from it =
     (if fst it = [] \<or> 64 \<le> snd it then [] else sbv_deref it # sbv_from (sbv_next it))"
  by pat_completeness auto
termination
proof (relation "measure (\<lambda>it. 65 * length (fst it) + (64 - snd it))", goal_cases)
  case (2 it)
  then obtain k w rest pos where it: "it = ((k, w) # rest, pos)" "pos < 64"
    by (cases it; cases "fst it") auto
  have "Suc pos \<le> findNext w (Suc pos)" by (rule findNext_ge)
  with it show ?case by (auto simp: Let_def split: list.split)
qed simp

declare sbv_from.simps [simp del]

definition sbv_elems :: "SparseBitvector \<Rightarrow> 64 word list" where
  "sbv_elems B = sbv_from (sbv_begin B)"

section \<open>Number sets\<close>

type_synonym BitvectorNumberSet = SparseBitvector

definition bns_add :: "BitvectorNumberSet \<Rightarrow> 64 word \<Rightarrow> bool \<times> BitvectorNumberSet" where
  "bns_add S n = (let (prev, S') = sbv_set S n in (\<not> prev, S'))"

definition bns_has :: "BitvectorNumberSet \<Rightarrow> 64 word \<Rightarrow> bool" where
  "bns_has S n = sbv_get S n"

datatype SmallNumberSet = SmallSet Bits | BigSet BitvectorNumberSet

definition sns_new :: SmallNumberSet where
  "sns_new = SmallSet 0"

definition sns_lift :: "Bits \<Rightarrow> 64 word \<Rightarrow> SmallNumberSet" where
  "sns_lift w n = BigSet (foldl (\<lambda>S x. snd (bns_add S x)) (sbv_singleton n) (bits_elems w))"

fun sns_add :: "SmallNumberSet \<Rightarrow> 64 word \<Rightarrow> bool \<times> SmallNumberSet" where
  "sns_add (SmallSet w) n =
     (case bits_set w n of
        Some (prev, w') \<Rightarrow> (\<not> prev, SmallSet w')
      | None \<Rightarrow> (True, sns_lift w n))"
| "sns_add (BigSet S) n = (let (c, S') = bns_add S n in (c, BigSet S'))"

fun sns_has :: "SmallNumberSet \<Rightarrow> 64 word \<Rightarrow> bool" where
  "sns_has (SmallSet w) n = bits_get w n"
| "sns_has (BigSet S) n = bns_has S n"

fun sns_empty :: "SmallNumberSet \<Rightarrow> bool" where
  "sns_empty (SmallSet w) = bits_empty w"
| "sns_empty (BigSet S) = sbv_empty S"

fun sns_size :: "SmallNumberSet \<Rightarrow> nat" where
  "sns_size (SmallSet w) = bits_size w"
| "sns_size (BigSet S) = sbv_size S"

section \<open>Words as sets of positions\<close>

lemma and_exp_bit [simp]: "(w AND 2 ^ n = 0) = (\<not> bit (w :: 64 word) n)"
  by (simp add: and_exp_eq_0_iff_not_bit)

lemma and_1_bit: "(w AND 1 = 0) = (\<not> bit (w :: 64 word) 0)"
  using and_exp_bit [of w 0] by simp

lemma bit_exp_64 [simp]: "bit (2 ^ n :: 64 word) m = (m = n \<and> n < 64)"
  by (auto simp: bit_exp_iff)

lemma bit_or_exp [simp]:
  "bit (w OR 2 ^ n) m = (bit (w :: 64 word) m \<or> (m = n \<and> n < 64))"
  by (auto simp: bit_or_iff)

lemma bit_and_not_exp [simp]:
  "bit (w AND NOT (2 ^ n)) m = (bit (w :: 64 word) m \<and> m \<noteq> n)"
  by (auto simp: bit_and_iff bit_not_iff dest: bit_imp_le_length)

lemma word64_eq_0_iff: "(w = 0) = (\<forall>n < 64. \<not> bit (w :: 64 word) n)"
  by (auto simp: bit_eq_iff)

lemma findNext_positions:
  "pos \<le> 64 \<Longrightarrow> it_positions w (findNext w pos) = filter (bit w) [pos..<64]"
proof (induction "64 - pos" arbitrary: pos)
  case 0
  then have "pos = 64" by simp
  then show ?case by (simp add: findNext.simps [of w 64] it_positions.simps [of w 64])
next
  case (Suc n)
  then have lt: "pos < 64" and IH: "it_positions w (findNext w (Suc pos)) = filter (bit w) [Suc pos..<64]"
    by auto
  have up: "[pos..<64] = pos # [Suc pos..<64]" using lt by (simp add: upt_conv_Cons)
  show ?case
  proof (cases "bit w pos")
    case True
    then have "findNext w pos = pos" by (simp add: findNext.simps [of w pos])
    moreover have "it_positions w pos = pos # it_positions w (it_next w pos)"
      using lt by (simp add: it_positions.simps [of w pos])
    moreover have "it_positions w (it_next w pos) = filter (bit w) [Suc pos..<64]"
      using IH by (auto simp: it_next_def it_positions.simps [of w 64])
    ultimately show ?thesis using True by (simp add: up)
  next
    case False
    then have "findNext w pos = findNext w (Suc pos)"
      using lt by (simp add: findNext.simps [of w pos])
    with IH False show ?thesis by (simp add: up)
  qed
qed

lemma begin_positions: "it_positions w (it_begin w) = filter (bit w) [0..<64]"
proof -
  have "it_begin w = findNext w 0"
    by (auto simp: it_begin_def it_next_def and_1_bit findNext.simps [of w 0])
  then show ?thesis using findNext_positions [of 0 w] by simp
qed

lemma count_upto_filter: "count_upto w n = length (filter (bit w) [0..<n])"
  by (induction n) auto

lemma filter_upt_Suc_shift:
  "filter P [0..<Suc n] = (if P 0 then [0] else []) @ map Suc (filter (\<lambda>i. P (Suc i)) [0..<n])"
proof -
  have "[0..<Suc n] = 0 # map Suc [0..<n]" by (simp add: upt_conv_Cons map_Suc_upt)
  then show ?thesis by (simp add: filter_map comp_def)
qed

lemma countBits_filter: "countBits w = length (filter (bit w) [0..<64])"
proof (induction w rule: countBits.induct)
  case (1 w)
  have len: "length (filter (bit w) [0..<64]) =
      (if bit w 0 then 1 else 0) + length (filter (bit (drop_bit 1 w)) [0..<64])"
  proof -
    have "filter (bit (drop_bit 1 w)) [0..<64] = filter (\<lambda>i. bit w (Suc i)) [0..<64]"
      by (simp add: bit_drop_bit_eq comp_def)
    moreover have "\<not> bit w 64" by (auto dest: bit_imp_le_length)
    moreover have "length (filter (bit w) [0..<65]) =
        (if bit w 0 then 1 else 0) + length (filter (\<lambda>i. bit w (Suc i)) [0..<64])"
      using filter_upt_Suc_shift [of "bit w" 64] by simp
    moreover have "[0..<65 :: nat] = [0..<64] @ [64]"
      using upt_Suc_append [of 0 64] by simp
    ultimately show ?thesis by simp
  qed
  show ?case
    using "1.IH" by (subst countBits.simps) (auto simp: len and_1_bit)
qed

lemma sb_elems_bits: "bits_elems w = map of_nat (filter (bit w) [0..<64])"
  by (simp add: bits_elems_def begin_positions)

section \<open>Buckets\<close>

lemma unat_mod_64: "unat (i mod bitsNum) = unat i mod 64"
  by (simp add: bitsNum_def unat_mod)

lemma unat_shift_of: "unat (shift_of i) = unat i - unat i mod 64"
proof -
  have "i mod bitsNum \<le> i"
    by (simp add: word_le_nat_alt unat_mod_64)
  then show ?thesis by (simp add: shift_of_def unat_sub unat_mod_64)
qed

lemma unat_rest [simp]: "unat (i - shift_of i) = unat i mod 64"
  by (simp add: shift_of_def unat_mod_64)

lemma shift_of_mod: "unat (shift_of i) mod 64 = 0"
  by (simp add: unat_shift_of minus_mod_eq_mult_div)

lemma shift_of_eq: "shift_of i = shift_of j \<Longrightarrow> unat i mod 64 = unat j mod 64 \<Longrightarrow> i = j"
  by (metis add_diff_cancel_right' diff_add_cancel unat_rest word_unat_eq_iff)

lemma unat_bucket_add:
  assumes "unat (k :: 64 word) mod 64 = 0" and "p < 64"
  shows "unat (k + of_nat p) = unat k + p"
proof -
  have "unat k < 18446744073709551616" using unsigned_less [of k] by simp
  then obtain q where "unat k = 64 * q" "q < 288230376151711744" using assms(1) by auto
  then show ?thesis using assms(2) by (simp add: unat_word_ariths unat_of_nat)
qed

lemma shift_of_bucket_add:
  assumes "unat (k :: 64 word) mod 64 = 0" and "p < 64"
  shows "shift_of (k + of_nat p) = k" and "unat (k + of_nat p) mod 64 = p"
proof -
  obtain q where q: "unat k = 64 * q" using assms(1) by auto
  show m: "unat (k + of_nat p) mod 64 = p"
    using unat_bucket_add [OF assms] assms(2) q by simp
  show "shift_of (k + of_nat p) = k"
    using unat_bucket_add [OF assms] m by (simp add: word_unat_eq_iff unat_shift_of)
qed

lemma element_of_bucket: "i = shift_of i + of_nat (unat i mod 64)"
  using unat_bucket_add [OF shift_of_mod, of "unat i mod 64" i]
  by (simp add: word_unat_eq_iff unat_shift_of)

section \<open>The sparse bit vector as a set\<close>

text \<open>
  The representation invariant: bucket keys are multiples of 64 in increasing order and no
  bucket is empty (the iterator asserts the latter).
\<close>

definition sbv_wf :: "SparseBitvector \<Rightarrow> bool" where
  "sbv_wf B = (smap_wf B \<and> (\<forall>(k, w) \<in> set B. unat k mod 64 = 0 \<and> w \<noteq> 0))"

definition sbv_abs :: "SparseBitvector \<Rightarrow> 64 word set" where
  "sbv_abs B = {i. sbv_get B i}"

lemma sbv_wf_smap [simp]: "sbv_wf B \<Longrightarrow> smap_wf B"
  by (simp add: sbv_wf_def)

lemma sbv_wf_Nil [simp]: "sbv_wf []"
  by (simp add: sbv_wf_def)

lemma sbv_abs_Nil [simp]: "sbv_abs [] = {}"
  by (simp add: sbv_abs_def sbv_get_def)

lemma bit_at_exp: "bit_at i = 2 ^ (unat i mod 64)"
  by (simp add: bit_at_def)

lemma sbv_get_bit:
  "sbv_get B i = (case map_of B (shift_of i) of None \<Rightarrow> False | Some w \<Rightarrow> bit w (unat i mod 64))"
  by (simp add: sbv_get_def bit_at_exp split: option.split)

lemma sbv_mem [simp]: "(i \<in> sbv_abs B) = sbv_get B i"
  by (simp add: sbv_abs_def)

lemma sbv_wf_update:
  assumes "sbv_wf B" and "unat k mod 64 = 0" and "w \<noteq> 0"
  shows "sbv_wf (smap_set k w B)"
  using assms by (auto simp: sbv_wf_def set_smap_set)

lemma sbv_wf_delete: "sbv_wf B \<Longrightarrow> sbv_wf (smap_erase k B)"
  by (auto simp: sbv_wf_def set_smap_erase)

lemma or_exp_nonzero: "w OR 2 ^ (n mod 64) \<noteq> (0 :: 64 word)"
  by (auto simp: word64_eq_0_iff intro: exI [of _ "n mod 64"])

lemma sbv_set_alt:
  "snd (sbv_set B i) =
     smap_set (shift_of i) ((case map_of B (shift_of i) of None \<Rightarrow> 0 | Some w \<Rightarrow> w) OR 2 ^ (unat i mod 64)) B"
  by (simp add: sbv_set_def addBits_def smap_emplace_def bit_at_exp split: option.split)

lemma sbv_wf_set: "sbv_wf B \<Longrightarrow> sbv_wf (snd (sbv_set B i))"
  unfolding sbv_set_alt by (rule sbv_wf_update [OF _ shift_of_mod or_exp_nonzero])

lemma sbv_set_prev: "fst (sbv_set B i) = sbv_get B i"
  by (simp add: sbv_set_def sbv_get_def split: option.split)

lemma bucket_cases: "shift_of j = shift_of i \<Longrightarrow> (unat j mod 64 = unat i mod 64) = (j = i)"
  using shift_of_eq by blast

lemma sbv_get_set: "sbv_get (snd (sbv_set B i)) j = (j = i \<or> sbv_get B j)"
  unfolding sbv_set_alt sbv_get_bit by (auto simp: bucket_cases split: option.split)

lemma sbv_abs_set: "sbv_abs (snd (sbv_set B i)) = insert i (sbv_abs B)"
  by (auto simp: sbv_get_set)

lemma bucket_smap_set [simp]: "bucket (smap_set k v B) j = (if j = k then v else bucket B j)"
  by (simp add: bucket_def)

lemma map_of_sbv_union:
  "distinct (map fst R) \<Longrightarrow>
   map_of (snd (sbv_union B R)) k =
     (case map_of R k of None \<Rightarrow> map_of B k | Some w \<Rightarrow> Some (bucket B k OR w))"
proof (induction B R rule: sbv_union.induct)
  case (2 B k' w rhs)
  have none: "map_of rhs k' = None"
    using 2(2) by (simp add: map_of_eq_None)
  have "map_of (snd (sbv_union (smap_set k' (bucket B k' OR w) B) rhs)) k =
     (case map_of rhs k of None \<Rightarrow> map_of (smap_set k' (bucket B k' OR w) B) k
      | Some u \<Rightarrow> Some (bucket (smap_set k' (bucket B k' OR w) B) k OR u))"
    by (rule 2(1)) (use 2(2) in auto)
  with none show ?case
    by (cases "k = k'") (simp_all add: case_prod_beta Let_def split: option.split)
qed simp

lemma fst_sbv_union:
  "distinct (map fst R) \<Longrightarrow>
   fst (sbv_union B R) = (\<exists>(k, w) \<in> set R. bucket B k \<noteq> bucket B k OR w)"
proof (induction B R rule: sbv_union.induct)
  case (2 B k' w rhs)
  have "fst (sbv_union (smap_set k' (bucket B k' OR w) B) rhs) =
     (\<exists>(k, u) \<in> set rhs. bucket (smap_set k' (bucket B k' OR w) B) k \<noteq>
        bucket (smap_set k' (bucket B k' OR w) B) k OR u)"
    by (rule 2(1)) (use 2(2) in auto)
  also have "\<dots> = (\<exists>(k, u) \<in> set rhs. bucket B k \<noteq> bucket B k OR u)"
    using 2(2) by (intro bex_cong) (force split: if_splits)+
  finally have tl: "fst (sbv_union (smap_set k' (bucket B k' OR w) B) rhs) =
    (\<exists>(k, u) \<in> set rhs. bucket B k \<noteq> bucket B k OR u)" .
  have "fst (sbv_union B ((k', w) # rhs)) =
    (bucket B k' \<noteq> bucket B k' OR w \<or> fst (sbv_union (smap_set k' (bucket B k' OR w) B) rhs))"
    by (simp only: sbv_union.simps Let_def case_prod_beta fst_conv)
  then show ?case unfolding tl by simp
qed simp

lemma smap_wf_sbv_union: "smap_wf B \<Longrightarrow> smap_wf (snd (sbv_union B R))"
  by (induction B R rule: sbv_union.induct) (auto simp: case_prod_beta Let_def)

lemma sbv_get_union:
  "sbv_wf R \<Longrightarrow> sbv_get (snd (sbv_union B R)) i = (sbv_get B i \<or> sbv_get R i)"
  by (simp add: sbv_get_bit map_of_sbv_union smap_wf_distinct bit_or_iff bucket_def split: option.split)

lemma sbv_wf_union:
  assumes "sbv_wf B" and "sbv_wf R"
  shows "sbv_wf (snd (sbv_union B R))"
proof -
  have wf: "smap_wf (snd (sbv_union B R))"
    using assms(1) by (simp add: smap_wf_sbv_union)
  have dist: "distinct (map fst R)"
    using assms(2) by (simp add: smap_wf_distinct)
  have "unat k mod 64 = 0 \<and> w \<noteq> 0" if "(k, w) \<in> set (snd (sbv_union B R))" for k w
  proof -
    from that have "map_of (snd (sbv_union B R)) k = Some w"
      using wf by (simp add: map_of_in_set)
    then show ?thesis
      using assms
      by (auto simp: map_of_sbv_union [OF dist] sbv_wf_def map_of_in_set or_eq_0_iff
          split: option.splits)
  qed
  with wf show ?thesis by (auto simp: sbv_wf_def)
qed

lemma sbv_union_changed:
  assumes "sbv_wf B" and "sbv_wf R"
  shows "fst (sbv_union B R) = (snd (sbv_union B R) \<noteq> B)"
proof -
  have dist: "distinct (map fst R)" using assms(2) by (simp add: smap_wf_distinct)
  have "snd (sbv_union B R) = B" if "\<not> fst (sbv_union B R)"
  proof (rule smap_ext)
    show "smap_wf (snd (sbv_union B R))" "smap_wf B"
      using assms by (simp_all add: smap_wf_sbv_union)
    fix k
    show "map_of (snd (sbv_union B R)) k = map_of B k"
    proof (cases "map_of R k")
      case None
      then show ?thesis by (simp add: map_of_sbv_union [OF dist])
    next
      case (Some w)
      then have "(k, w) \<in> set R" "w \<noteq> 0"
        using assms(2) by (auto simp: sbv_wf_def map_of_in_set)
      with that have "bucket B k =
          bucket B k OR w"
        by (auto simp: fst_sbv_union [OF dist])
      with Some \<open>w \<noteq> 0\<close> show ?thesis
        by (simp add: map_of_sbv_union [OF dist] bucket_def split: option.splits)
    qed
  qed
  moreover have "snd (sbv_union B R) \<noteq> B" if changed: "fst (sbv_union B R)"
  proof
    assume eq: "snd (sbv_union B R) = B"
    from changed obtain k w where "(k, w) \<in> set R"
      and ne: "bucket B k \<noteq>
        bucket B k OR w"
      by (auto simp: fst_sbv_union [OF dist])
    then have "map_of R k = Some w" using assms(2) by (simp add: map_of_in_set)
    with ne show False
      using map_of_sbv_union [OF dist, of B k] by (simp add: eq bucket_def split: option.splits)
  qed
  ultimately show ?thesis by blast
qed

lemma sbv_get_unset: "sbv_get (snd (sbv_unset B i)) j = (sbv_get B j \<and> j \<noteq> i)"
proof (cases "map_of B (shift_of i)")
  case None
  then show ?thesis by (auto simp: sbv_unset_def sbv_get_bit)
next
  case (Some w)
  show ?thesis
  proof (cases "w AND NOT (bit_at i) = 0")
    case True
    then have "\<not> (bit w n \<and> n \<noteq> unat i mod 64)" for n
      by (metis bit_0_eq bit_and_not_exp bit_at_exp bot_apply bot_bool_def)
    with True Some show ?thesis
      by (auto simp: sbv_unset_def sbv_get_bit intro: shift_of_eq split: option.split)
  next
    case False
    with Some show ?thesis
      by (auto simp: sbv_unset_def sbv_get_bit bit_at_exp bucket_cases split: option.split)
  qed
qed

lemma sbv_wf_unset: "sbv_wf B \<Longrightarrow> sbv_wf (snd (sbv_unset B i))"
  by (auto simp: sbv_unset_def Let_def sbv_wf_delete sbv_wf_update shift_of_mod split: option.split)

section \<open>Iteration\<close>

lemma findNext_le: "p \<le> 64 \<Longrightarrow> findNext w p \<le> 64"
  by (induction w p rule: findNext.induct) (subst findNext.simps, auto)

lemma sbv_from_bucket:
  "q < 64 \<Longrightarrow> sbv_from ((k, w) # rest, q) =
     map (\<lambda>p. k + of_nat p) (it_positions w q) @ sbv_from (sbv_begin rest)"
proof (induction w q rule: it_positions.induct)
  case (1 w q)
  have nxt: "sbv_next ((k, w) # rest, q) =
      (if it_next w q = 64 then sbv_begin rest else ((k, w) # rest, it_next w q))"
    by (auto simp: it_next_def Let_def sbv_begin_def split: list.split)
  have le: "it_next w q \<le> 64"
    using 1(2) by (auto simp: it_next_def Let_def findNext_le)
  have unf: "sbv_from ((k, w) # rest, q) = (k + of_nat q) # sbv_from (sbv_next ((k, w) # rest, q))"
    using 1(2) by (subst sbv_from.simps) (simp add: sbv_deref_def)
  show ?case
  proof (cases "it_next w q = 64")
    case True
    then show ?thesis
      using 1(2)
      by (simp add: unf nxt it_positions.simps [of w q] it_positions.simps [of w 64] del: sbv_next.simps)
  next
    case False
    with le 1 show ?thesis
      by (simp add: unf nxt it_positions.simps [of w q] del: sbv_next.simps)
  qed
qed

lemma sbv_elems_buckets:
  "sbv_wf B \<Longrightarrow>
   sbv_elems B = concat (map (\<lambda>(k, w). map (\<lambda>p. k + of_nat p) (filter (bit w) [0..<64])) B)"
proof (induction B)
  case Nil
  then show ?case by (simp add: sbv_elems_def sbv_begin_def sbv_from.simps)
next
  case (Cons kw B)
  obtain k w where kw: "kw = (k, w)" by (cases kw)
  with Cons.prems have wf: "sbv_wf B" and "w \<noteq> 0"
    by (auto simp: sbv_wf_def smap_wf_Cons)
  have "filter (bit w) [0..<64] \<noteq> []"
    using \<open>w \<noteq> 0\<close> by (auto simp: filter_empty_conv word64_eq_0_iff)
  then have "it_positions w (findNext w 0) \<noteq> []" by (simp add: findNext_positions)
  then have "findNext w 0 < 64" by (subst (asm) it_positions.simps) (auto split: if_splits)
  then show ?case
    using Cons.IH [OF wf]
    by (simp add: kw sbv_elems_def sbv_begin_def [of "(k, w) # B"] sbv_from_bucket findNext_positions)
qed

lemma length_sbv_elems: "sbv_wf B \<Longrightarrow> length (sbv_elems B) = sbv_size B"
  by (simp add: sbv_elems_buckets sbv_size_def length_concat comp_def case_prod_unfold countBits_filter)

lemma set_sbv_elems: "sbv_wf B \<Longrightarrow> set (sbv_elems B) = sbv_abs B"
proof (rule set_eqI)
  fix i
  assume wf: "sbv_wf B"
  have "(i \<in> set (sbv_elems B)) = (\<exists>(k, w) \<in> set B. \<exists>p < 64. bit w p \<and> i = k + of_nat p)"
    using wf by (auto simp: sbv_elems_buckets)
  also have "\<dots> = (\<exists>w. (shift_of i, w) \<in> set B \<and> bit w (unat i mod 64))"
  proof
    assume "\<exists>(k, w) \<in> set B. \<exists>p < 64. bit w p \<and> i = k + of_nat p"
    then obtain k w p where "(k, w) \<in> set B" "p < 64" "bit w p" "i = k + of_nat p" by auto
    moreover from this wf have "unat k mod 64 = 0" by (auto simp: sbv_wf_def)
    ultimately show "\<exists>w. (shift_of i, w) \<in> set B \<and> bit w (unat i mod 64)"
      using shift_of_bucket_add by auto
  next
    assume "\<exists>w. (shift_of i, w) \<in> set B \<and> bit w (unat i mod 64)"
    then obtain w where "(shift_of i, w) \<in> set B" "bit w (unat i mod 64)" by auto
    then show "\<exists>(k, w) \<in> set B. \<exists>p < 64. bit w p \<and> i = k + of_nat p"
      using element_of_bucket [of i]
      by (intro bexI [of _ "(shift_of i, w)"]) (auto intro: exI [of _ "unat i mod 64"])
  qed
  also have "\<dots> = (i \<in> sbv_abs B)"
    using wf by (auto simp: sbv_get_bit map_of_in_set [symmetric] split: option.split)
  finally show "(i \<in> set (sbv_elems B)) = (i \<in> sbv_abs B)" .
qed

lemma sorted_positions:
  assumes "unat (k :: 64 word) mod 64 = 0"
  shows "sorted_wrt (<) (map (\<lambda>p. k + of_nat p) (filter P [0..<64]))"
proof -
  have "sorted_wrt (<) (filter P [0..<64])"
    by (rule sorted_wrt_filter) simp
  then have "sorted_wrt (\<lambda>p q. k + of_nat p < k + of_nat q) (filter P [0..<64])"
    by (rule sorted_wrt_mono_rel [rotated])
      (auto simp: word_less_nat_alt unat_bucket_add [OF assms])
  then show ?thesis by (simp add: sorted_wrt_map)
qed

lemma unat_multiples: "unat (k :: 64 word) mod 64 = 0 \<Longrightarrow> unat l mod 64 = 0 \<Longrightarrow> k < l \<Longrightarrow> unat k + 64 \<le> unat (l :: 64 word)"
  unfolding word_less_nat_alt by presburger

lemma sorted_sbv_elems: "sbv_wf B \<Longrightarrow> sorted_wrt (<) (sbv_elems B)"
proof (induction B)
  case Nil
  then show ?case by (simp add: sbv_elems_buckets)
next
  case (Cons kw B)
  obtain k w where kw: "kw = (k, w)" by (cases kw)
  with Cons.prems have wf: "sbv_wf B" and k: "unat k mod 64 = 0"
    and lt: "\<And>l v. (l, v) \<in> set B \<Longrightarrow> k < l \<and> unat l mod 64 = 0"
    by (auto simp: sbv_wf_def smap_wf_Cons rev_image_eqI)
  have "k + of_nat p < y" if "y \<in> set (sbv_elems B)" and "p < 64" for p y
  proof -
    from that(1) obtain l v q where "(l, v) \<in> set B" "q < 64" and y: "y = l + of_nat q"
      by (auto simp: sbv_elems_buckets [OF wf])
    with lt have l: "k < l" "unat l mod 64 = 0" by auto
    show ?thesis
      using unat_multiples [OF k l(2,1)] that(2) \<open>q < 64\<close>
      by (simp add: y word_less_nat_alt unat_bucket_add k l)
  qed
  moreover have "sbv_elems (kw # B) = map (\<lambda>p. k + of_nat p) (filter (bit w) [0..<64]) @ sbv_elems B"
    using sbv_elems_buckets [OF Cons.prems] sbv_elems_buckets [OF wf] by (simp add: kw)
  ultimately show ?case
    using Cons.IH [OF wf] sorted_positions [OF k, of "bit w"]
    by (auto simp: sorted_wrt_append)
qed

lemma sbv_size_card: "sbv_wf B \<Longrightarrow> sbv_size B = card (sbv_abs B)"
  by (metis length_sbv_elems set_sbv_elems sorted_sbv_elems distinct_card strict_sorted_iff)

lemma sbv_empty_iff: "sbv_wf B \<Longrightarrow> sbv_empty B = (sbv_abs B = {})"
proof -
  assume wf: "sbv_wf B"
  have "sbv_abs B \<noteq> {}" if "B \<noteq> []"
  proof -
    from that obtain k w B' where B: "B = (k, w) # B'" by (cases B) auto
    with wf have k: "unat k mod 64 = 0" and "w \<noteq> 0" by (auto simp: sbv_wf_def)
    then obtain p where "p < 64" "bit w p" by (auto simp: word64_eq_0_iff)
    then have "sbv_get B (k + of_nat p)"
      using shift_of_bucket_add [OF k] by (simp add: sbv_get_bit B)
    then show ?thesis by auto
  qed
  then show ?thesis by (auto simp: sbv_empty_def)
qed

section \<open>The interface of a growing set of numbers\<close>

text \<open>
  What \<open>BitvectorNumberSet\<close> and \<open>SmallNumberSet\<close> promise their clients: \<open>add\<close> says
  whether the number is new, \<open>has\<close> and \<open>size\<close> read the set.
\<close>

locale number_set =
  fixes new_set :: "'s"
    and add :: "'s \<Rightarrow> 64 word \<Rightarrow> bool \<times> 's"
    and has :: "'s \<Rightarrow> 64 word \<Rightarrow> bool"
    and num :: "'s \<Rightarrow> nat"
    and is_empty :: "'s \<Rightarrow> bool"
    and invar :: "'s \<Rightarrow> bool"
    and abst :: "'s \<Rightarrow> 64 word set"
  assumes new_set: "invar new_set" "abst new_set = {}"
    and add_invar: "invar s \<Longrightarrow> invar (snd (add s n))"
    and add_abst: "invar s \<Longrightarrow> abst (snd (add s n)) = insert n (abst s)"
    and add_new: "invar s \<Longrightarrow> fst (add s n) = (n \<notin> abst s)"
    and has_abst: "invar s \<Longrightarrow> has s n = (n \<in> abst s)"
    and num_abst: "invar s \<Longrightarrow> num s = card (abst s)"
    and empty_abst: "invar s \<Longrightarrow> is_empty s = (abst s = {})"
begin

lemma fold_add:
  "invar s \<Longrightarrow> invar (foldl (\<lambda>s n. snd (add s n)) s ns) \<and>
     abst (foldl (\<lambda>s n. snd (add s n)) s ns) = abst s \<union> set ns"
  by (induction ns arbitrary: s) (auto simp: add_invar add_abst)

lemma history:
  "has (foldl (\<lambda>s n. snd (add s n)) new_set ns) x = (x \<in> set ns) \<and>
   num (foldl (\<lambda>s n. snd (add s n)) new_set ns) = card (set ns) \<and>
   is_empty (foldl (\<lambda>s n. snd (add s n)) new_set ns) = (ns = [])"
  using fold_add [OF new_set(1), of ns] new_set(2) by (simp add: has_abst num_abst empty_abst)

end

lemma bns_add_simps: "fst (bns_add S n) = (\<not> sbv_get S n)" "snd (bns_add S n) = snd (sbv_set S n)"
  by (simp_all add: bns_add_def case_prod_beta sbv_set_prev)

interpretation bns: number_set "[]" bns_add bns_has sbv_size sbv_empty sbv_wf sbv_abs
  by unfold_locales
    (simp_all add: bns_add_simps bns_has_def sbv_wf_set sbv_abs_set sbv_size_card sbv_empty_iff)

fun sns_wf :: "SmallNumberSet \<Rightarrow> bool" where
  "sns_wf (SmallSet w) = True"
| "sns_wf (BigSet S) = sbv_wf S"

definition sns_abs :: "SmallNumberSet \<Rightarrow> 64 word set" where
  "sns_abs S = {n. sns_has S n}"

lemma bits_get_bit: "bits_get w i = bit w (unat i)"
  by (auto simp: bits_get_def bits_mayContain_def bitsNum_def word_less_nat_alt
      dest: bit_imp_le_length)

lemma bits_elems_set: "set (bits_elems w) = {i. bits_get w i}"
proof -
  have "bits_get w i = (\<exists>p < 64. bit w p \<and> i = of_nat p)" for i
  proof
    assume "bits_get w i"
    then have "bit w (unat i)" by (simp add: bits_get_bit)
    then show "\<exists>p < 64. bit w p \<and> i = of_nat p"
      by (intro exI [of _ "unat i"]) (auto dest: bit_imp_le_length)
  next
    assume "\<exists>p < 64. bit w p \<and> i = of_nat p"
    then show "bits_get w i" by (auto simp: bits_get_bit unat_of_nat)
  qed
  then show ?thesis by (auto simp: sb_elems_bits)
qed

lemma bits_size_card: "bits_size w = card {i. bits_get w i}"
proof -
  have "inj_on (of_nat :: nat \<Rightarrow> 64 word) (set (filter (bit w) [0..<64]))"
  proof (rule inj_onI)
    fix x y :: nat
    assume "x \<in> set (filter (bit w) [0..<64])" "y \<in> set (filter (bit w) [0..<64])"
      and "(of_nat x :: 64 word) = of_nat y"
    then show "x = y" by (auto simp: word_of_nat_eq_iff take_bit_nat_eq_self)
  qed
  then have "distinct (bits_elems w)" by (simp add: sb_elems_bits distinct_map)
  then have "card {i. bits_get w i} = length (bits_elems w)"
    by (simp add: bits_elems_set [symmetric] distinct_card)
  then show ?thesis by (simp add: bits_size_def count_upto_filter sb_elems_bits bitsNum_def)
qed

lemma sns_lift_correct:
  "sns_wf (sns_lift w n) \<and> sns_abs (sns_lift w n) = insert n (sns_abs (SmallSet w))"
proof -
  have "sbv_wf (sbv_singleton n)" "sbv_abs (sbv_singleton n) = {n}"
    unfolding sbv_singleton_def by (simp_all add: sbv_wf_set sbv_abs_set del: sbv_mem)
  then show ?thesis
    using bns.fold_add [of "sbv_singleton n" "bits_elems w"]
    by (auto simp: sns_lift_def sns_abs_def bns_has_def bits_elems_set set_eq_iff)
qed

lemma bits_set_cases:
  "bits_set w n = (if unat n < 64 then Some (bits_get w n, w OR 2 ^ unat n) else None)"
  by (simp add: bits_set_def bits_mayContain_def bitsNum_def word_less_nat_alt)

lemma sns_add_correct:
  "sns_wf S \<Longrightarrow> sns_wf (snd (sns_add S n)) \<and> sns_abs (snd (sns_add S n)) = insert n (sns_abs S) \<and>
     fst (sns_add S n) = (n \<notin> sns_abs S)"
proof (induction S n rule: sns_add.induct)
  case (1 w n)
  show ?case
  proof (cases "unat n < 64")
    case True
    then show ?thesis
      by (auto simp: bits_set_cases sns_abs_def bits_get_bit word_unat_eq_iff)
  next
    case False
    then have "\<not> bits_get w n" by (auto simp: bits_get_bit dest: bit_imp_le_length)
    with False show ?thesis
      using sns_lift_correct [of w n] by (simp add: bits_set_cases sns_abs_def)
  qed
next
  case (2 S n)
  then show ?case
    by (auto simp: case_prod_beta sns_abs_def bns_has_def bns_add_simps sbv_wf_set sbv_get_set)
qed

lemma bits_empty_iff: "(w = 0) = (\<forall>i. \<not> bits_get w i)"
proof
  assume none: "\<forall>i. \<not> bits_get w i"
  have "\<not> bit w n" if "n < 64" for n
    using none [rule_format, of "of_nat n"] that by (simp add: bits_get_bit unat_of_nat)
  then show "w = 0" by (simp add: word64_eq_0_iff)
qed (simp add: bits_get_bit)

interpretation sns: number_set sns_new sns_add sns_has sns_size sns_empty sns_wf sns_abs
proof unfold_locales
  show "sns_abs sns_new = {}"
    by (simp add: sns_abs_def sns_new_def bits_get_bit)
  fix S n
  assume wf: "sns_wf S"
  show "sns_size S = card (sns_abs S)"
    using wf by (cases S) (simp_all add: sns_abs_def bits_size_card bns_has_def sbv_size_card sbv_abs_def)
  show "sns_empty S = (sns_abs S = {})"
    using wf
    by (cases S) (auto simp: sns_abs_def bits_empty_def bits_empty_iff bns_has_def sbv_empty_iff)
  show "sns_has S n = (n \<in> sns_abs S)"
    by (simp add: sns_abs_def)
qed (simp_all add: sns_new_def sns_add_correct)

section \<open>The representation is canonical\<close>

lemma sbv_bucket_get:
  assumes "sbv_wf B" and "unat k mod 64 = 0"
  shows "map_of B k = Some w \<longleftrightarrow> w \<noteq> 0 \<and> (\<forall>n < 64. bit w n = sbv_get B (k + of_nat n))"
proof -
  have get: "sbv_get B (k + of_nat n) = (case map_of B k of None \<Rightarrow> False | Some v \<Rightarrow> bit v n)" if "n < 64" for n
    by (simp only: sbv_get_bit shift_of_bucket_add [OF assms(2) that])
  show ?thesis
  proof (cases "map_of B k")
    case None
    then show ?thesis using get by (auto simp: word64_eq_0_iff)
  next
    case (Some v)
    have "(k, v) \<in> set B" using Some by (rule map_of_SomeD)
    then have "v \<noteq> 0" using assms(1) by (auto simp: sbv_wf_def)
    moreover have "v = w" if "\<forall>n < 64. bit w n = bit v n"
      using that by (auto simp: bit_eq_iff)
    ultimately show ?thesis using Some get by auto
  qed
qed

lemma sbv_ext:
  assumes "sbv_wf B" and "sbv_wf C" and "\<And>i. sbv_get B i = sbv_get C i"
  shows "B = C"
proof (rule smap_ext)
  show "map_of B k = map_of C k" for k
  proof (cases "unat k mod 64 = 0")
    case True
    then have "map_of B k = Some w \<longleftrightarrow> map_of C k = Some w" for w
      using sbv_bucket_get [OF assms(1)] sbv_bucket_get [OF assms(2)] assms(3) by simp
    then show ?thesis by (metis not_Some_eq)
  next
    case False
    have "map_of D k = None" if "sbv_wf D" for D
      using that False map_of_SomeD [of D k] by (cases "map_of D k") (auto simp: sbv_wf_def)
    then show ?thesis using assms(1,2) by metis
  qed
qed (use assms in simp_all)

lemma sbv_set_all:
  "sbv_wf B \<Longrightarrow> sbv_wf (foldl (\<lambda>S i. snd (sbv_set S i)) B is) \<and>
    (\<forall>j. sbv_get (foldl (\<lambda>S i. snd (sbv_set S i)) B is) j = (j \<in> set is \<or> sbv_get B j))"
  by (induction "is" arbitrary: B) (auto simp: sbv_wf_set sbv_get_set)

section \<open>Properties\<close>

text \<open>
  C35: on a well-formed sparse bit vector \<open>set(i)\<close> returns the previous value of bit \<open>i\<close>,
  makes \<open>i\<close> a member and changes nothing else; \<open>unset(i)\<close> removes \<open>i\<close> and nothing else;
  both keep the representation invariant (aligned buckets, none empty), and \<open>size\<close> is the
  number of members.
\<close>

theorem sbv_refines_set:
  assumes "sbv_wf B"
  shows "sbv_wf (snd (sbv_set B i)) \<and> fst (sbv_set B i) = sbv_get B i \<and>
         (\<forall>j. sbv_get (snd (sbv_set B i)) j = (j = i \<or> sbv_get B j)) \<and>
         sbv_wf (snd (sbv_unset B i)) \<and>
         (\<forall>j. sbv_get (snd (sbv_unset B i)) j = (j \<noteq> i \<and> sbv_get B j)) \<and>
         sbv_size B = card {j. sbv_get B j}"
  using assms sbv_size_card [OF assms]
  by (auto simp: sbv_wf_set sbv_set_prev sbv_get_set sbv_wf_unset sbv_get_unset sbv_abs_def)

theorem sbv_refines_set_witness:
  "sbv_wf [(64, 5)] \<and> sbv_get (snd (sbv_set [(64, 5)] 200)) 66 \<and>
   \<not> sbv_get (snd (sbv_unset [(64, 5)] 66)) 66"
proof -
  have wf: "sbv_wf [(64, 5)]" by (simp add: sbv_wf_def smap_wf_def)
  have "sbv_get [(64, 5)] 66" by code_simp
  then show ?thesis
    using sbv_refines_set [OF wf, of 200] sbv_refines_set [OF wf, of 66] wf by simp
qed

text \<open>
  The union \<open>set(rhs)\<close> of two well-formed sparse bit vectors is well formed, holds
  exactly the members of both, and reports a change exactly when the left vector changed.
\<close>

theorem sbv_union_refines:
  assumes "sbv_wf B" and "sbv_wf R"
  shows "sbv_wf (snd (sbv_union B R)) \<and>
         (\<forall>i. sbv_get (snd (sbv_union B R)) i = (sbv_get B i \<or> sbv_get R i)) \<and>
         fst (sbv_union B R) = (snd (sbv_union B R) \<noteq> B)"
  using assms by (simp add: sbv_wf_union sbv_get_union sbv_union_changed)

theorem sbv_union_refines_witness:
  "sbv_wf [(0, 3)] \<and> sbv_wf [(64, 1)] \<and> sbv_get (snd (sbv_union [(0, 3)] [(64, 1)])) 64 \<and>
   fst (sbv_union [(0, 3)] [(64, 1)])"
proof -
  have wf: "sbv_wf [(0, 3)]" "sbv_wf [(64, 1)]" by (simp_all add: sbv_wf_def smap_wf_def)
  have "sbv_get [(64, 1)] 64" and "snd (sbv_union [(0, 3)] [(64, 1)]) \<noteq> [(0, 3)]" by code_simp+
  then show ?thesis using sbv_union_refines [OF wf] wf by simp
qed

text \<open>
  A loop from \<open>begin()\<close> to \<open>end()\<close> over a well-formed sparse bit vector visits every
  member exactly once, in increasing order, and takes \<open>size()\<close> steps.
\<close>

theorem sbv_iteration:
  assumes "sbv_wf B"
  shows "sorted_wrt (<) (sbv_elems B) \<and> set (sbv_elems B) = {i. sbv_get B i} \<and>
         length (sbv_elems B) = sbv_size B"
  using assms by (simp add: sorted_sbv_elems set_sbv_elems length_sbv_elems sbv_abs_def)

theorem sbv_iteration_witness:
  "sbv_wf [(0, 8), (128, 3)] \<and> set (sbv_elems [(0, 8), (128, 3)]) = {3, 128, 129}"
proof -
  have wf: "sbv_wf [(0, 8), (128, 3)]" by (simp add: sbv_wf_def smap_wf_def)
  have "sbv_elems [(0, 8), (128, 3)] = [3, 128, 129]" by code_simp
  then show ?thesis using sbv_iteration [OF wf] wf by simp
qed

text \<open>
  \<open>unset(i)\<close> does not return the previous value of bit \<open>i\<close>, as its comment says: it
  returns whether some bit of the bucket of \<open>i\<close> was set.
\<close>

theorem sbv_unset_result:
  assumes "sbv_wf B"
  shows "fst (sbv_unset B i) = (\<exists>j. shift_of j = shift_of i \<and> sbv_get B j)"
proof (cases "map_of B (shift_of i)")
  case None
  then show ?thesis by (auto simp: sbv_unset_def sbv_get_bit)
next
  case (Some w)
  then have "w \<noteq> 0" using assms by (auto simp: sbv_wf_def map_of_in_set)
  then obtain p where "p < 64" "bit w p" by (auto simp: word64_eq_0_iff)
  then have "sbv_get B (shift_of i + of_nat p)" "shift_of (shift_of i + of_nat p) = shift_of i"
    using Some shift_of_bucket_add [OF shift_of_mod] by (simp_all add: sbv_get_bit)
  with Some show ?thesis by (auto simp: sbv_unset_def Let_def)
qed

theorem sbv_unset_result_witness:
  "sbv_wf [(0, 1)] \<and> fst (sbv_unset [(0, 1)] 5) \<and> \<not> sbv_get [(0, 1)] 5"
proof -
  have wf: "sbv_wf [(0, 1)]" by (simp add: sbv_wf_def smap_wf_def)
  have "shift_of 0 = shift_of 5" "sbv_get [(0, 1)] 0" "\<not> sbv_get [(0, 1)] 5" by code_simp+
  then show ?thesis using sbv_unset_result [OF wf, of 5] wf by metis
qed

text \<open>
  After any sequence of \<open>add\<close> calls on a new \<open>SmallNumberSet\<close>, \<open>has\<close>, \<open>size\<close> and
  \<open>empty\<close> describe exactly the set of numbers added, whether or not the container was
  lifted to its big representation on the way.
\<close>

theorem small_number_set_history:
  "sns_has (foldl (\<lambda>S n. snd (sns_add S n)) sns_new ns) x = (x \<in> set ns) \<and>
   sns_size (foldl (\<lambda>S n. snd (sns_add S n)) sns_new ns) = card (set ns) \<and>
   sns_empty (foldl (\<lambda>S n. snd (sns_add S n)) sns_new ns) = (ns = [])"
  by (rule sns.history)


text \<open>C36: the representation is canonical and the iterator lists all of it: setting the bits that the
  iteration yields, in any order and with repetitions, on an empty vector gives back exactly
  the same buckets and words.\<close>

theorem sbv_roundtrip:
  assumes "sbv_wf B" and "set is = set (sbv_elems B)"
  shows "foldl (\<lambda>S i. snd (sbv_set S i)) [] is = B"
proof (rule sbv_ext)
  show "sbv_wf (foldl (\<lambda>S i. snd (sbv_set S i)) [] is)" using sbv_set_all [of "[]"] by simp
  show "sbv_get (foldl (\<lambda>S i. snd (sbv_set S i)) [] is) i = sbv_get B i" for i
    using sbv_set_all [of "[]" "is"] set_sbv_elems [OF assms(1)] assms(2) by (simp add: sbv_get_def [of "[]"])
qed (rule assms(1))

theorem sbv_roundtrip_witness:
  "foldl (\<lambda>S i. snd (sbv_set S i)) [] [129, 3, 128, 3] = [(0, 8), (128, 3)]"
proof (rule sbv_roundtrip)
  show "sbv_wf [(0, 8), (128, 3)]" by (simp add: sbv_wf_def smap_wf_def)
  have "sbv_elems [(0, 8), (128, 3)] = [3, 128, 129]" by code_simp
  then show "set [129, 3, 128, 3] = set (sbv_elems [(0, 8), (128, 3)])" by auto
qed

end
