(* ===== verification/Queues.thy ===== *)
theory Queues
  imports Ordered_Map
begin

text \<open>
  \<^verbatim>\<open>include/dg/ADT/Queue.h\<close> and \<^verbatim>\<open>include/dg/ADT/SetQueue.h\<close>: the three work lists of the
  analyses and the wrapper that lets an element in only once. \<open>pop\<close> of an empty container
  is undefined in C++ and \<open>None\<close> here. The locale \<open>queue\<close> is what a work-list algorithm may
  assume of any of them; it is interpreted for each of the three.
\<close>

section \<open>The containers\<close>

type_synonym 'a QueueLIFO = "'a list"

definition lifo_pop :: "'a QueueLIFO \<Rightarrow> ('a \<times> 'a QueueLIFO) option" where
  "lifo_pop q = (case q of [] \<Rightarrow> None | x # q' \<Rightarrow> Some (x, q'))"

definition lifo_top :: "'a QueueLIFO \<Rightarrow> 'a option" where
  "lifo_top q = (case q of [] \<Rightarrow> None | x # _ \<Rightarrow> Some x)"

definition lifo_push :: "'a QueueLIFO \<Rightarrow> 'a \<Rightarrow> 'a QueueLIFO" where
  "lifo_push q x = x # q"

definition lifo_empty :: "'a QueueLIFO \<Rightarrow> bool" where
  "lifo_empty q = (q = [])"

definition lifo_size :: "'a QueueLIFO \<Rightarrow> nat" where
  "lifo_size q = length q"

type_synonym 'a QueueFIFO = "'a list"

definition fifo_pop :: "'a QueueFIFO \<Rightarrow> ('a \<times> 'a QueueFIFO) option" where
  "fifo_pop q = (case q of [] \<Rightarrow> None | x # q' \<Rightarrow> Some (x, q'))"

definition fifo_push :: "'a QueueFIFO \<Rightarrow> 'a \<Rightarrow> 'a QueueFIFO" where
  "fifo_push q x = q @ [x]"

definition fifo_empty :: "'a QueueFIFO \<Rightarrow> bool" where
  "fifo_empty q = (q = [])"

definition fifo_size :: "'a QueueFIFO \<Rightarrow> nat" where
  "fifo_size q = length q"

text \<open>\<open>PrioritySet\<close> is a \<open>std::set\<close> ordered by its comparator: a strictly sorted list.\<close>

type_synonym 'a PrioritySet = "'a list"

definition prio_pop :: "'a PrioritySet \<Rightarrow> ('a \<times> 'a PrioritySet) option" where
  "prio_pop q = (case q of [] \<Rightarrow> None | x # q' \<Rightarrow> Some (x, q'))"

definition prio_push :: "'a::linorder PrioritySet \<Rightarrow> 'a \<Rightarrow> 'a PrioritySet" where
  "prio_push q x = sset_insert x q"

definition prio_empty :: "'a PrioritySet \<Rightarrow> bool" where
  "prio_empty q = (q = [])"

definition prio_size :: "'a PrioritySet \<Rightarrow> nat" where
  "prio_size q = length q"

text \<open>\<open>SetQueue\<close> over the operations of the queue it wraps: the set \<open>_queued\<close> of everything
  ever pushed, and the queue.\<close>

type_synonym ('a, 'q) SetQueue = "'a set \<times> 'q"

definition sq_pop :: "('q \<Rightarrow> ('a \<times> 'q) option) \<Rightarrow> ('a, 'q) SetQueue \<Rightarrow> ('a \<times> ('a, 'q) SetQueue) option" where
  "sq_pop pop S = map_option (\<lambda>(x, q). (x, (fst S, q))) (pop (snd S))"

definition sq_push :: "('q \<Rightarrow> 'a \<Rightarrow> 'q) \<Rightarrow> ('a, 'q) SetQueue \<Rightarrow> 'a \<Rightarrow> ('a, 'q) SetQueue" where
  "sq_push push S x = (if x \<in> fst S then S else (insert x (fst S), push (snd S) x))"

definition sq_empty :: "('q \<Rightarrow> bool) \<Rightarrow> ('a, 'q) SetQueue \<Rightarrow> bool" where
  "sq_empty is_empty S = is_empty (snd S)"

section \<open>Histories of a set queue\<close>

datatype 'a queue_op = Push 'a | Pop

fun sq_run ::
  "('q \<Rightarrow> 'a \<Rightarrow> 'q) \<Rightarrow> ('q \<Rightarrow> ('a \<times> 'q) option) \<Rightarrow> 'a queue_op list \<Rightarrow> ('a, 'q) SetQueue
   \<Rightarrow> ('a list \<times> ('a, 'q) SetQueue) option" where
  "sq_run push pop [] S = Some ([], S)"
| "sq_run push pop (Push x # ops) S = sq_run push pop ops (sq_push push S x)"
| "sq_run push pop (Pop # ops) S =
     Option.bind (sq_pop pop S) (\<lambda>(x, S').
       map_option (\<lambda>(xs, S''). (x # xs, S'')) (sq_run push pop ops S'))"

definition pushed :: "'a queue_op list \<Rightarrow> 'a set" where
  "pushed ops = {x. Push x \<in> set ops}"

lemma pushed_simps [simp]:
  "pushed [] = {}" "pushed (Push x # ops) = insert x (pushed ops)" "pushed (Pop # ops) = pushed ops"
  by (auto simp: pushed_def)

section \<open>The interface of a work list\<close>

locale queue =
  fixes q_new :: 'q
    and push :: "'q \<Rightarrow> 'a \<Rightarrow> 'q"
    and pop :: "'q \<Rightarrow> ('a \<times> 'q) option"
    and is_empty :: "'q \<Rightarrow> bool"
    and qsize :: "'q \<Rightarrow> nat"
    and elems :: "'q \<Rightarrow> 'a set"
    and wf :: "'q \<Rightarrow> bool"
  assumes new: "wf q_new" "elems q_new = {}" "qsize q_new = 0"
    and push: "wf q \<Longrightarrow> wf (push q x)" "wf q \<Longrightarrow> elems (push q x) = insert x (elems q)"
    and push_size: "wf q \<Longrightarrow> x \<notin> elems q \<Longrightarrow> qsize (push q x) = Suc (qsize q)"
    and pop_None: "wf q \<Longrightarrow> (pop q = None) = (elems q = {})"
    and pop_Some: "wf q \<Longrightarrow> pop q = Some (x, q') \<Longrightarrow>
      wf q' \<and> elems q = insert x (elems q') \<and> qsize q = Suc (qsize q')"
    and is_empty: "wf q \<Longrightarrow> is_empty q = (elems q = {})"
    and card_le: "wf q \<Longrightarrow> finite (elems q) \<and> card (elems q) \<le> qsize q"
begin

definition once :: "('a, 'q) SetQueue \<Rightarrow> bool" where
  "once S = (wf (snd S) \<and> elems (snd S) \<subseteq> fst S \<and> qsize (snd S) = card (elems (snd S)))"

lemma once_new: "once ({}, q_new)"
  by (simp add: once_def new)

lemma once_push:
  assumes "once S"
  shows "once (sq_push push S x)" and "fst (sq_push push S x) = insert x (fst S)"
    and "elems (snd (sq_push push S x)) = (if x \<in> fst S then elems (snd S) else insert x (elems (snd S)))"
proof -
  have "x \<notin> elems (snd S)" if "x \<notin> fst S" using assms that by (auto simp: once_def)
  then show "once (sq_push push S x)"
    using assms card_le [of "snd S"] by (auto simp: once_def sq_push_def push push_size)
  show "fst (sq_push push S x) = insert x (fst S)" by (auto simp: sq_push_def)
  show "elems (snd (sq_push push S x)) = (if x \<in> fst S then elems (snd S) else insert x (elems (snd S)))"
    using assms by (simp add: once_def sq_push_def push)
qed

lemma once_pushes:
  assumes "once S"
  shows "once (foldl (sq_push push) S xs)"
    and "fst (foldl (sq_push push) S xs) = fst S \<union> set xs"
    and "elems (snd (foldl (sq_push push) S xs)) = elems (snd S) \<union> (set xs - fst S)"
proof -
  have "once (foldl (sq_push push) S xs) \<and> fst (foldl (sq_push push) S xs) = fst S \<union> set xs \<and>
    elems (snd (foldl (sq_push push) S xs)) = elems (snd S) \<union> (set xs - fst S)"
    using assms
  proof (induction xs arbitrary: S)
    case (Cons x xs)
    note P = once_push [OF Cons.prems, of x]
    have "elems (snd S) \<subseteq> fst S" using Cons.prems by (simp add: once_def)
    then show ?case using Cons.IH [OF P(1)] P(2,3) by auto
  qed simp
  then show "once (foldl (sq_push push) S xs)"
    and "fst (foldl (sq_push push) S xs) = fst S \<union> set xs"
    and "elems (snd (foldl (sq_push push) S xs)) = elems (snd S) \<union> (set xs - fst S)" by blast+
qed

lemma sq_pop_None: "once S \<Longrightarrow> (sq_pop pop S = None) = (elems (snd S) = {})"
  by (simp add: sq_pop_def once_def pop_None)

lemma once_pop:
  assumes "once S" and "sq_pop pop S = Some (x, S')"
  shows "once S'" and "fst S' = fst S" and "elems (snd S) = insert x (elems (snd S'))"
    and "x \<notin> elems (snd S')" and "x \<in> fst S"
proof -
  obtain q' where q: "pop (snd S) = Some (x, q')" "S' = (fst S, q')"
    using assms(2) by (auto simp: sq_pop_def)
  have P: "wf q'" "elems (snd S) = insert x (elems q')" "qsize (snd S) = Suc (qsize q')"
    using pop_Some [OF _ q(1)] assms(1) by (auto simp: once_def)
  have "card (elems q') \<le> qsize q'" "finite (elems q')" using card_le [OF P(1)] by auto
  then have nin: "x \<notin> elems q'" and eq: "qsize q' = card (elems q')"
    using P(2,3) assms(1) by (auto simp: once_def insert_absorb card_insert_if split: if_splits)
  then show "once S'" "fst S' = fst S" "elems (snd S) = insert x (elems (snd S'))"
    "x \<notin> elems (snd S')" "x \<in> fst S"
    using P assms(1) by (auto simp: q once_def)
qed

lemma sq_run_once:
  assumes "sq_run push pop ops S = Some (xs, S')" and "once S"
  shows "distinct xs \<and> once S' \<and> fst S' = fst S \<union> pushed ops \<and>
    set xs \<inter> elems (snd S') = {} \<and>
    set xs \<union> elems (snd S') = elems (snd S) \<union> (pushed ops - fst S)"
  using assms
proof (induction ops arbitrary: S xs)
  case (Cons op ops)
  show ?case
  proof (cases op)
    case (Push x)
    have "sq_run push pop ops (sq_push push S x) = Some (xs, S')" using Cons.prems(1) Push by simp
    from Cons.IH [OF this once_push(1) [OF Cons.prems(2)]] show ?thesis
      using Push Cons.prems(2) once_push(2,3) [OF Cons.prems(2), of x] by (auto simp: once_def)
  next
    case Pop
    then obtain x T ys where T: "sq_pop pop S = Some (x, T)" "sq_run push pop ops T = Some (ys, S')" "xs = x # ys"
      using Cons.prems(1) by (auto elim!: bind_eq_SomeE)
    note P = once_pop [OF Cons.prems(2) T(1)]
    have IH: "distinct ys" "once S'" "fst S' = fst T \<union> pushed ops" "set ys \<inter> elems (snd S') = {}"
      "set ys \<union> elems (snd S') = elems (snd T) \<union> (pushed ops - fst T)"
      using Cons.IH [OF T(2) P(1)] by simp_all
    have "x \<notin> set ys \<union> elems (snd S')" using P(2,4,5) by (simp add: IH(5))
    then show ?thesis
      using IH P Pop T(3) by auto
  qed
qed auto

end

section \<open>The work lists provide it\<close>

interpretation lifo: queue "[]" lifo_push lifo_pop lifo_empty lifo_size set "\<lambda>_. True"
  by unfold_locales (auto simp: lifo_push_def lifo_pop_def lifo_empty_def lifo_size_def card_length
      split: list.splits)

interpretation fifo: queue "[]" fifo_push fifo_pop fifo_empty fifo_size set "\<lambda>_. True"
  by unfold_locales (auto simp: fifo_push_def fifo_pop_def fifo_empty_def fifo_size_def card_length
      split: list.splits)

interpretation prio: queue "[]" prio_push prio_pop prio_empty prio_size set "sorted_wrt (<)"
  by unfold_locales (auto simp: prio_push_def prio_pop_def prio_empty_def prio_size_def
      card_length length_sset_insert split: list.splits)

section \<open>Properties\<close>

text \<open>Over any history of \<open>push\<close> and \<open>pop\<close> calls on a new \<open>SetQueue\<close> over a FIFO queue
  that does not pop it while it is empty, no element comes out twice, nothing comes out that
  was not pushed, and what was pushed and did not come out yet is still queued.\<close>

theorem setqueue_history:
  assumes "sq_run fifo_push fifo_pop ops ({}, []) = Some (xs, S)"
  shows "distinct xs \<and> set xs \<union> set (snd S) = pushed ops \<and> set xs \<inter> set (snd S) = {}"
  using fifo.sq_run_once [OF assms fifo.once_new] by simp

theorem setqueue_history_witness:
  "distinct [7 :: nat, 3] \<and> set [7, 3] \<union> set [9] = pushed [Push 7, Push 3, Pop, Push 7, Pop, Push (9 :: nat)]"
  using setqueue_history [of "[Push 7, Push 3, Pop, Push 7, Pop, Push 9]" "[7, 3]" "({7, 3, 9}, [9])"]
  by (simp add: sq_push_def sq_pop_def fifo_push_def fifo_pop_def insert_commute)

fun prio_drain :: "nat \<Rightarrow> 'a PrioritySet \<Rightarrow> 'a list" where
  "prio_drain 0 q = []"
| "prio_drain (Suc n) q = (case prio_pop q of None \<Rightarrow> [] | Some (x, q') \<Rightarrow> x # prio_drain n q')"

lemma prio_drain_all: "length q \<le> n \<Longrightarrow> prio_drain n q = q"
  by (induction n q rule: prio_drain.induct) (auto simp: prio_pop_def split: list.splits)

lemma prio_pushes:
  "sorted_wrt (<) q \<Longrightarrow> sorted_wrt (<) (foldl prio_push q xs) \<and> set (foldl prio_push q xs) = set q \<union> set xs"
  by (induction xs arbitrary: q) (auto simp: prio_push_def)

text \<open>Draining a priority set after pushing the elements of any list returns them in
  strictly increasing order of the comparator, each once.\<close>

theorem priority_set_sorts:
  "prio_drain (length xs) (foldl prio_push [] xs) = sorted_list_of_set (set xs)"
proof -
  have P: "sorted_wrt (<) (foldl prio_push [] xs)" "set (foldl prio_push [] xs) = set xs"
    using prio_pushes [of "[]" xs] by simp_all
  then have "foldl prio_push [] xs = sorted_list_of_set (set xs)"
    by (metis strict_sorted_iff sorted_list_of_set.idem_if_sorted_distinct)
  moreover have "length (foldl prio_push [] xs) \<le> length xs"
    using P by (metis card_length distinct_card strict_sorted_iff)
  ultimately show ?thesis using prio_drain_all by metis
qed

end
