(* ===== verification/CDGraphs.thy ===== *)
theory CDGraphs
  imports Queues
begin

text \<open>
  \<^verbatim>\<open>include/dg/BBlockBase.h\<close> and \<^verbatim>\<open>lib/ControlDependence/CDGraph.h\<close>: the graph on which the
  control-dependence algorithms run. A node is its id; ids start at 1 and are consecutive. The
  successor and predecessor vectors of all nodes are the two maps of the record, so an update
  of \<open>this\<close> and of the other end of an edge is one update of the record. The set of pointers
  \<open>_predicates\<close> is a set of ids.

  The second half relates the graph to its maximal paths: \<open>inevitable g T\<close>, the least set
  that contains \<open>T\<close> and every node all of whose successors it contains, is the set of the nodes
  from which every maximal path meets \<open>T\<close>. That is the notion the non-termination sensitive
  algorithms compute.
\<close>

section \<open>Graphs\<close>

type_synonym node = nat

record CDGraph =
  cd_size :: nat
  cd_succs :: "node \<Rightarrow> node list"
  cd_preds :: "node \<Rightarrow> node list"
  cd_predicates :: "node set"

definition cd_new :: CDGraph where
  "cd_new = \<lparr>cd_size = 0, cd_succs = (\<lambda>_. []), cd_preds = (\<lambda>_. []), cd_predicates = {}\<rparr>"

definition createNode :: "CDGraph \<Rightarrow> node \<times> CDGraph" where
  "createNode g = (cd_size g + 1, g\<lparr>cd_size := cd_size g + 1\<rparr>)"

definition getNode :: "CDGraph \<Rightarrow> nat \<Rightarrow> node option" where
  "getNode g i = (if 1 \<le> i \<and> i - 1 < cd_size g then Some i else None)"

definition cd_nodes :: "CDGraph \<Rightarrow> node list" where
  "cd_nodes g = [1..<cd_size g + 1]"

definition addSuccessor :: "CDGraph \<Rightarrow> node \<Rightarrow> node \<Rightarrow> CDGraph" where
  "addSuccessor g n s =
     (if s \<in> set (cd_succs g n) then g
      else (let g1 = g\<lparr>cd_succs := (cd_succs g)(n := cd_succs g n @ [s])\<rparr> in
            if n \<in> set (cd_preds g1 s) then g1
            else g1\<lparr>cd_preds := (cd_preds g1)(s := cd_preds g1 s @ [n])\<rparr>))"

definition addNodeSuccessor :: "CDGraph \<Rightarrow> node \<Rightarrow> node \<Rightarrow> CDGraph" where
  "addNodeSuccessor g n s =
     (let g1 = addSuccessor g n s in
      if length (cd_succs g1 n) > 1 then g1\<lparr>cd_predicates := insert n (cd_predicates g1)\<rparr> else g1)"

definition getSingleSuccessor :: "CDGraph \<Rightarrow> node \<Rightarrow> node option" where
  "getSingleSuccessor g n = (if length (cd_succs g n) = 1 then Some (last (cd_succs g n)) else None)"

definition getSinglePredecessor :: "CDGraph \<Rightarrow> node \<Rightarrow> node option" where
  "getSinglePredecessor g n = (if length (cd_preds g n) = 1 then Some (last (cd_preds g n)) else None)"

definition isPredicate :: "CDGraph \<Rightarrow> node \<Rightarrow> bool" where
  "isPredicate g n = (n \<in> cd_predicates g)"

section \<open>Basic blocks of nodes\<close>

text \<open>The node lists of \<open>BBlockBase\<close>, for all blocks at once, and the block of each node.\<close>

record blocks =
  bb_nodes :: "nat \<Rightarrow> node list"
  node_bb :: "node \<Rightarrow> nat option"

definition bb_append :: "blocks \<Rightarrow> nat \<Rightarrow> node \<Rightarrow> blocks" where
  "bb_append B b n = B\<lparr>bb_nodes := (bb_nodes B)(b := bb_nodes B b @ [n]), node_bb := (node_bb B)(n := Some b)\<rparr>"

definition bb_prepend :: "blocks \<Rightarrow> nat \<Rightarrow> node \<Rightarrow> blocks" where
  "bb_prepend B b n = B\<lparr>bb_nodes := (bb_nodes B)(b := n # bb_nodes B b), node_bb := (node_bb B)(n := Some b)\<rparr>"

definition bb_insertBefore :: "blocks \<Rightarrow> nat \<Rightarrow> node \<Rightarrow> node \<Rightarrow> blocks option" where
  "bb_insertBefore B b n before =
     (if bb_nodes B b = [] then None
      else (let pre = takeWhile (\<lambda>x. x \<noteq> before) (bb_nodes B b);
                post = dropWhile (\<lambda>x. x \<noteq> before) (bb_nodes B b) in
        if post = [] then None
        else Some (B\<lparr>bb_nodes := (bb_nodes B)(b := pre @ n # post), node_bb := (node_bb B)(n := Some b)\<rparr>)))"

definition bb_getFirst :: "blocks \<Rightarrow> nat \<Rightarrow> node option" where
  "bb_getFirst B b = (if bb_nodes B b = [] then None else Some (hd (bb_nodes B b)))"

definition bb_getLast :: "blocks \<Rightarrow> nat \<Rightarrow> node option" where
  "bb_getLast B b = (if bb_nodes B b = [] then None else Some (last (bb_nodes B b)))"

section \<open>Well-formed graphs\<close>

definition cdg_wf :: "CDGraph \<Rightarrow> bool" where
  "cdg_wf g =
     ((\<forall>n. distinct (cd_succs g n)) \<and> (\<forall>n. distinct (cd_preds g n)) \<and>
      (\<forall>n m. (m \<in> set (cd_succs g n)) = (n \<in> set (cd_preds g m))) \<and>
      (\<forall>n m. m \<in> set (cd_succs g n) \<longrightarrow> n \<in> set (cd_nodes g) \<and> m \<in> set (cd_nodes g)) \<and>
      cd_predicates g = {n. length (cd_succs g n) > 1})"

lemma cdg_wfD:
  assumes "cdg_wf g"
  shows "distinct (cd_succs g n)" and "distinct (cd_preds g n)"
    and "(n \<in> set (cd_preds g m)) = (m \<in> set (cd_succs g n))"
    and "m \<in> set (cd_succs g n) \<Longrightarrow> n \<in> set (cd_nodes g)"
    and "m \<in> set (cd_succs g n) \<Longrightarrow> m \<in> set (cd_nodes g)"
    and "(n \<in> cd_predicates g) = (length (cd_succs g n) > 1)"
  using assms unfolding cdg_wf_def by simp_all

lemma cd_nodes_iff [simp]: "n \<in> set (cd_nodes g) = (1 \<le> n \<and> n \<le> cd_size g)"
  by (auto simp: cd_nodes_def)

lemma distinct_cd_nodes [simp]: "distinct (cd_nodes g)"
  by (simp add: cd_nodes_def)

lemma card_cd_nodes [simp]: "card (set (cd_nodes g)) = cd_size g"
  by (subst distinct_card) (simp_all add: cd_nodes_def)

lemma cdg_wf_new: "cdg_wf cd_new"
  by (simp add: cdg_wf_def cd_new_def)

lemma cdg_wf_createNode: "cdg_wf g \<Longrightarrow> cdg_wf (snd (createNode g))"
  by (fastforce simp: cdg_wf_def createNode_def)

lemma succs_addSuccessor:
  "cd_succs (addSuccessor g n s) k =
     (if k = n \<and> s \<notin> set (cd_succs g n) then cd_succs g n @ [s] else cd_succs g k)"
  by (simp add: addSuccessor_def Let_def)

lemma preds_addSuccessor:
  "cd_preds (addSuccessor g n s) k =
     (if k = s \<and> s \<notin> set (cd_succs g n) \<and> n \<notin> set (cd_preds g s) then cd_preds g s @ [n] else cd_preds g k)"
  by (simp add: addSuccessor_def Let_def)

lemma size_addSuccessor [simp]:
  "cd_size (addSuccessor g n s) = cd_size g" "cd_predicates (addSuccessor g n s) = cd_predicates g"
  by (simp_all add: addSuccessor_def Let_def)

lemma addNodeSuccessor_fields:
  "cd_succs (addNodeSuccessor g n s) = cd_succs (addSuccessor g n s)"
  "cd_preds (addNodeSuccessor g n s) = cd_preds (addSuccessor g n s)"
  "cd_size (addNodeSuccessor g n s) = cd_size g"
  "cd_predicates (addNodeSuccessor g n s) =
     (if length (cd_succs (addSuccessor g n s) n) > 1 then insert n (cd_predicates g) else cd_predicates g)"
  by (simp_all add: addNodeSuccessor_def Let_def)

lemma cdg_wf_addNodeSuccessor:
  assumes wf: "cdg_wf g" and "n \<in> set (cd_nodes g)" and "s \<in> set (cd_nodes g)"
  shows "cdg_wf (addNodeSuccessor g n s)"
  unfolding cdg_wf_def
proof (intro conjI allI)
  note D = cdg_wfD [OF wf]
  fix k m
  show "distinct (cd_succs (addNodeSuccessor g n s) k)" "distinct (cd_preds (addNodeSuccessor g n s) k)"
    using D(1,2) by (auto simp: addNodeSuccessor_fields succs_addSuccessor preds_addSuccessor)
  show "(m \<in> set (cd_succs (addNodeSuccessor g n s) k)) = (k \<in> set (cd_preds (addNodeSuccessor g n s) m))"
    using D(3) by (auto simp: addNodeSuccessor_fields succs_addSuccessor preds_addSuccessor)
  show "m \<in> set (cd_succs (addNodeSuccessor g n s) k) \<longrightarrow>
      k \<in> set (cd_nodes (addNodeSuccessor g n s)) \<and> m \<in> set (cd_nodes (addNodeSuccessor g n s))"
    using D(4,5) assms(2,3) by (auto simp: addNodeSuccessor_fields succs_addSuccessor split: if_splits)
  show "cd_predicates (addNodeSuccessor g n s) = {k. length (cd_succs (addNodeSuccessor g n s) k) > 1}"
    using D(6) by (auto simp: addNodeSuccessor_fields succs_addSuccessor split: if_splits)
qed

text \<open>The construction of a graph: nodes are created, edges are added between nodes that exist.\<close>

datatype cd_op = CreateNode | AddEdge node node

fun cd_exec :: "cd_op \<Rightarrow> CDGraph \<Rightarrow> CDGraph option" where
  "cd_exec CreateNode g = Some (snd (createNode g))"
| "cd_exec (AddEdge n s) g =
     Option.bind (getNode g n) (\<lambda>n'. map_option (\<lambda>s'. addNodeSuccessor g n' s') (getNode g s))"

fun cd_build :: "cd_op list \<Rightarrow> CDGraph \<Rightarrow> CDGraph option" where
  "cd_build [] g = Some g"
| "cd_build (op # ops) g = Option.bind (cd_exec op g) (cd_build ops)"

lemma cd_exec_wf: "cdg_wf g \<Longrightarrow> cd_exec op g = Some g' \<Longrightarrow> cdg_wf g'"
  by (cases op) (auto simp: cdg_wf_createNode getNode_def intro!: cdg_wf_addNodeSuccessor
      split: if_splits elim!: bind_eq_SomeE)

text \<open>Every graph built from the empty one by creating nodes and adding edges between
  existing nodes is well formed: the predecessor lists mirror the successor lists, no list
  has duplicates, every edge is between nodes of the graph, and the recorded predicates are
  exactly the nodes with more than one successor.\<close>

theorem cd_build_wf:
  assumes "cd_build ops cd_new = Some g"
  shows "cdg_wf g"
proof -
  have "cdg_wf h \<Longrightarrow> cd_build ops h = Some g \<Longrightarrow> cdg_wf g" for h
    by (induction ops arbitrary: h) (auto dest: cd_exec_wf elim!: bind_eq_SomeE)
  then show ?thesis using assms cdg_wf_new by blast
qed

theorem cd_build_wf_witness:
  "\<exists>g. cd_build [CreateNode, CreateNode, CreateNode, AddEdge 1 2, AddEdge 1 3, AddEdge 1 2] cd_new = Some g \<and>
     cdg_wf g \<and> cd_predicates g = {1} \<and> cd_preds g 2 = [1]"
proof -
  obtain g where g: "cd_build [CreateNode, CreateNode, CreateNode, AddEdge 1 2, AddEdge 1 3, AddEdge 1 2] cd_new = Some g"
    "cd_predicates g = {1}" "cd_preds g 2 = [1]"
    by (simp add: cd_new_def createNode_def getNode_def addNodeSuccessor_def addSuccessor_def Let_def)
  then show ?thesis using cd_build_wf [OF g(1)] by blast
qed

section \<open>Maximal paths\<close>

inductive_set inevitable :: "CDGraph \<Rightarrow> node set \<Rightarrow> node set" for g :: CDGraph and T :: "node set" where
  target: "t \<in> T \<Longrightarrow> t \<in> inevitable g T"
| all_succs: "cd_succs g n \<noteq> [] \<Longrightarrow> \<forall>m \<in> set (cd_succs g n). m \<in> inevitable g T \<Longrightarrow> n \<in> inevitable g T"

definition inf_path :: "CDGraph \<Rightarrow> (nat \<Rightarrow> node) \<Rightarrow> bool" where
  "inf_path g f = (\<forall>i. f (Suc i) \<in> set (cd_succs g (f i)))"

fun fin_path :: "CDGraph \<Rightarrow> node list \<Rightarrow> bool" where
  "fin_path g [] = False"
| "fin_path g [n] = (cd_succs g n = [])"
| "fin_path g (n # m # xs) = (m \<in> set (cd_succs g n) \<and> fin_path g (m # xs))"

lemma inevitable_target: "t \<in> inevitable g {t}"
  by (simp add: inevitable.target)

text \<open>Every maximal path from \<open>s\<close>, finite or infinite, meets \<open>T\<close>.\<close>

definition on_all_paths :: "CDGraph \<Rightarrow> node set \<Rightarrow> node \<Rightarrow> bool" where
  "on_all_paths g T s =
     ((\<forall>f. inf_path g f \<and> f 0 = s \<longrightarrow> (\<exists>i. f i \<in> T)) \<and>
      (\<forall>xs. fin_path g xs \<and> hd xs = s \<longrightarrow> (\<exists>x \<in> set xs. x \<in> T)))"

lemma inevitable_on_all_paths:
  assumes "s \<in> inevitable g T"
  shows "on_all_paths g T s"
  using assms
proof induction
  case (target t)
  have "t \<in> set xs" if "fin_path g xs" "hd xs = t" for xs using that by (cases xs) auto
  with target show ?case by (auto simp: on_all_paths_def)
next
  case (all_succs n)
  show ?case
    unfolding on_all_paths_def
  proof (intro conjI allI impI)
    fix f assume f: "inf_path g f \<and> f 0 = n"
    then have "inf_path g (\<lambda>i. f (Suc i))" "f 1 \<in> set (cd_succs g n)"
      by (auto simp: inf_path_def)
    with all_succs(2) have "\<exists>i. f (Suc i) \<in> T" by (fastforce simp: on_all_paths_def)
    then show "\<exists>i. f i \<in> T" by blast
  next
    fix xs assume xs: "fin_path g xs \<and> hd xs = n"
    with all_succs(1) obtain m ys where "xs = n # m # ys"
      by (cases "(g, xs)" rule: fin_path.cases) auto
    with xs all_succs(2) show "\<exists>x \<in> set xs. x \<in> T" by (force simp: on_all_paths_def)
  qed
qed

lemma avoiding_successor:
  assumes "n \<notin> inevitable g T" and "cd_succs g n \<noteq> []"
  shows "\<exists>m \<in> set (cd_succs g n). m \<notin> inevitable g T"
  using assms by (meson inevitable.all_succs)

lemma fin_path_iterate:
  assumes "\<forall>i < k. f (Suc i) \<in> set (cd_succs g (f i))" and "cd_succs g (f k) = []"
  shows "fin_path g (map f [j..<Suc k]) \<or> k < j"
proof (induction "k - j" arbitrary: j)
  case 0
  then show ?case using assms(2) by (cases "j = k") auto
next
  case (Suc d)
  then have "j < k" by simp
  moreover have "fin_path g (map f [Suc j..<Suc k])"
  proof -
    have "d = k - Suc j" "\<not> k < Suc j" using Suc(2) by arith+
    then show ?thesis using Suc(1) [of "Suc j"] by blast
  qed
  moreover from \<open>j < k\<close> have "map f [Suc j..<Suc k] = f (Suc j) # map f [Suc (Suc j)..<Suc k]"
    by (simp add: upt_conv_Cons del: upt_Suc)
  moreover from \<open>j < k\<close> have "map f [j..<Suc k] = f j # map f [Suc j..<Suc k]"
    by (simp add: upt_conv_Cons del: upt_Suc)
  ultimately show ?case using assms(1) by (simp del: upt_Suc)
qed

text \<open>The least fixpoint is the set of nodes all of whose maximal paths meet the target.\<close>

theorem inevitable_iff: "s \<in> inevitable g T \<longleftrightarrow> on_all_paths g T s"
proof
  show "on_all_paths g T s" if "s \<in> inevitable g T" using that by (rule inevitable_on_all_paths)
  assume all: "on_all_paths g T s"
  show "s \<in> inevitable g T"
  proof (rule ccontr)
    assume s: "s \<notin> inevitable g T"
    define nxt where "nxt n = (SOME m. m \<in> set (cd_succs g n) \<and> m \<notin> inevitable g T)" for n
    define f where "f i = (nxt ^^ i) s" for i
    have nxt: "nxt n \<in> set (cd_succs g n) \<and> nxt n \<notin> inevitable g T"
      if "n \<notin> inevitable g T" "cd_succs g n \<noteq> []" for n
      unfolding nxt_def by (rule someI_ex) (use avoiding_successor [OF that] in blast)
    have out: "(\<forall>j < i. cd_succs g (f j) \<noteq> []) \<Longrightarrow> f i \<notin> inevitable g T" for i
      by (induction i) (auto simp: f_def s dest!: nxt)
    show False
    proof (cases "\<exists>k. cd_succs g (f k) = []")
      case False
      then have n: "f i \<notin> inevitable g T" for i using out by blast
      then have "inf_path g f" using nxt False by (auto simp: inf_path_def f_def)
      moreover have "f 0 = s" by (simp add: f_def)
      ultimately obtain i where "f i \<in> T" using all by (auto simp: on_all_paths_def)
      then show False using n inevitable.target by metis
    next
      case True
      define k where "k = (LEAST k. cd_succs g (f k) = [])"
      have k: "cd_succs g (f k) = []" unfolding k_def using True by (rule LeastI_ex)
      have ne: "cd_succs g (f j) \<noteq> []" if "j < k" for j
        using that not_less_Least k_def by blast
      have n: "f j \<notin> inevitable g T" if "j \<le> k" for j using out ne that by auto
      have "\<forall>i < k. f (Suc i) \<in> set (cd_succs g (f i))"
        using n ne nxt by (auto simp: f_def)
      then have "fin_path g (map f [0..<Suc k])" using fin_path_iterate [of k f g 0] k by blast
      moreover have "hd (map f [0..<Suc k]) = s" by (simp add: f_def hd_map upt_conv_Cons del: upt_Suc)
      ultimately have "\<exists>x \<in> set (map f [0..<Suc k]). x \<in> T" using all unfolding on_all_paths_def by blast
      then obtain j where "j \<le> k" "f j \<in> T" by (auto simp: less_Suc_eq_le simp del: upt_Suc)
      then show False using n inevitable.target by metis
    qed
  qed
qed

text \<open>Non-termination sensitive control dependence: some successor of the predicate cannot
  avoid the node, another one can.\<close>

definition ntscd :: "CDGraph \<Rightarrow> node \<Rightarrow> node set" where
  "ntscd g t =
     {p. length (cd_succs g p) > 1 \<and> (\<exists>s \<in> set (cd_succs g p). on_all_paths g {t} s) \<and>
         (\<exists>s \<in> set (cd_succs g p). \<not> on_all_paths g {t} s)}"

end
