(* ===== verification/Ntscd.thy ===== *)
theory Ntscd
  imports CDGraphs
begin

text \<open>
  \<^verbatim>\<open>lib/ControlDependence/NTSCD.h\<close>: the classes \<open>NTSCD\<close> and \<open>NTSCD2\<close>. Both colour, for
  every target, the nodes from which the target cannot be avoided and then look for
  predicates with a coloured and an uncoloured successor. The \<open>unsigned short\<close> counters
  are 16-bit words. A \<open>std::set<CDNode *>\<close> is iterated in the order of the addresses of its
  elements, which the model does not know: the order is the parameter \<open>iter\<close>, and
  every statement holds for all of them.
\<close>

section \<open>Reading off the dependences\<close>

type_synonym cd_result = "(node \<Rightarrow> node set) \<times> (node \<Rightarrow> node set)"

definition has_both :: "CDGraph \<Rightarrow> (node \<Rightarrow> bool) \<Rightarrow> node \<Rightarrow> bool" where
  "has_both g col p =
     (foldl (\<lambda>b s. b \<or> col s) False (cd_succs g p) \<and> foldl (\<lambda>b s. b \<or> \<not> col s) False (cd_succs g p))"

definition record_deps :: "CDGraph \<Rightarrow> (node \<Rightarrow> bool) \<Rightarrow> node \<Rightarrow> cd_result \<Rightarrow> cd_result" where
  "record_deps g col nd R =
     (let new = Set.filter (has_both g col) (cd_predicates g) in
      ((fst R)(nd := fst R nd \<union> new),
       (\<lambda>p. if p \<in> new then insert nd (snd R p) else snd R p)))"

section \<open>NTSCD\<close>

record NTSCD_data =
  colored :: "node set"
  counter :: "node \<Rightarrow> 16 word"

definition ntscd_init :: "CDGraph \<Rightarrow> node \<Rightarrow> NTSCD_data \<Rightarrow> NTSCD_data" where
  "ntscd_init g t d =
     \<lparr>colored = insert t (colored d - set (cd_nodes g)),
      counter = (\<lambda>n. if n \<in> set (cd_nodes g) then of_nat (length (cd_succs g n)) else counter d n)\<rparr>"

definition ntscd_pred :: "NTSCD_data \<times> node QueueLIFO \<Rightarrow> node \<Rightarrow> NTSCD_data \<times> node QueueLIFO" where
  "ntscd_pred s p =
     (let d = (fst s)\<lparr>counter := (counter (fst s))(p := counter (fst s) p - 1)\<rparr> in
      if counter d p = 0 then (d\<lparr>colored := insert p (colored d)\<rparr>, lifo_push (snd s) p) else (d, snd s))"

partial_function (option) ntscd_loop :: "CDGraph \<Rightarrow> NTSCD_data \<Rightarrow> node QueueLIFO \<Rightarrow> NTSCD_data option" where
  "ntscd_loop g d q =
     (case lifo_pop q of
        None \<Rightarrow> Some d
      | Some (n, q') \<Rightarrow>
          (if n \<notin> colored d then None
           else (case foldl ntscd_pred (d, q') (cd_preds g n) of (d', q'') \<Rightarrow> ntscd_loop g d' q'')))"

declare ntscd_loop.simps [code]

definition ntscd_target :: "CDGraph \<Rightarrow> node \<Rightarrow> NTSCD_data \<Rightarrow> NTSCD_data option" where
  "ntscd_target g t d = ntscd_loop g (ntscd_init g t d) (lifo_push [] t)"

fun ntscd_targets :: "CDGraph \<Rightarrow> node list \<Rightarrow> NTSCD_data \<Rightarrow> cd_result \<Rightarrow> cd_result option" where
  "ntscd_targets g [] d R = Some R"
| "ntscd_targets g (nd # nds) d R =
     Option.bind (ntscd_target g nd d) (\<lambda>d'.
       ntscd_targets g nds d' (record_deps g (\<lambda>s. s \<in> colored d') nd R))"

definition ntscd_compute :: "CDGraph \<Rightarrow> cd_result option" where
  "ntscd_compute g =
     ntscd_targets g (cd_nodes g) \<lparr>colored = {}, counter = (\<lambda>_. 0)\<rparr> (\<lambda>_. {}, \<lambda>_. {})"

section \<open>NTSCD2\<close>

type_synonym colors = "node \<Rightarrow> nat"

definition ntscd2_node ::
  "CDGraph \<Rightarrow> node \<Rightarrow> (colors \<times> node set \<times> bool) option \<Rightarrow> node \<Rightarrow> (colors \<times> node set \<times> bool) option" where
  "ntscd2_node g t st nd =
     Option.bind st (\<lambda>(col, new_frontier, progress).
       if cd_succs g nd = [] then None
       else if list_all (\<lambda>s. col s = t) (cd_succs g nd)
       then (let col' = col(nd := t) in
             Some (col', foldl (\<lambda>F p. if col' p \<noteq> t then insert p F else F) new_frontier (cd_preds g nd), True))
       else Some (col, insert nd new_frontier, progress))"

definition ntscd2_round ::
  "(node set \<Rightarrow> node list) \<Rightarrow> CDGraph \<Rightarrow> node \<Rightarrow> colors \<Rightarrow> node set \<Rightarrow> (colors \<times> node set \<times> bool) option" where
  "ntscd2_round iter g t col frontier = foldl (ntscd2_node g t) (Some (col, {}, False)) (iter frontier)"

partial_function (option) ntscd2_loop ::
  "(node set \<Rightarrow> node list) \<Rightarrow> CDGraph \<Rightarrow> node \<Rightarrow> colors \<Rightarrow> node set \<Rightarrow> colors option" where
  "ntscd2_loop iter g t col frontier =
     Option.bind (ntscd2_round iter g t col frontier) (\<lambda>(col', frontier', progress).
       if progress then ntscd2_loop iter g t col' frontier' else Some col')"

declare ntscd2_loop.simps [code]

definition ntscd2_target :: "(node set \<Rightarrow> node list) \<Rightarrow> CDGraph \<Rightarrow> node \<Rightarrow> colors \<Rightarrow> colors option" where
  "ntscd2_target iter g t col =
     (let col' = col(t := t) in
      ntscd2_loop iter g t col'
        (foldl (\<lambda>F p. if col' p \<noteq> t then insert p F else F) {} (cd_preds g t)))"

fun ntscd2_targets ::
  "(node set \<Rightarrow> node list) \<Rightarrow> CDGraph \<Rightarrow> node list \<Rightarrow> colors \<Rightarrow> cd_result \<Rightarrow> cd_result option" where
  "ntscd2_targets iter g [] col R = Some R"
| "ntscd2_targets iter g (t # ts) col R =
     Option.bind (ntscd2_target iter g t col) (\<lambda>col'.
       ntscd2_targets iter g ts col' (record_deps g (\<lambda>s. col' s = t) t R))"

definition ntscd2_compute :: "(node set \<Rightarrow> node list) \<Rightarrow> CDGraph \<Rightarrow> cd_result option" where
  "ntscd2_compute iter g = ntscd2_targets iter g (cd_nodes g) (\<lambda>_. 0) (\<lambda>_. {}, \<lambda>_. {})"

section \<open>Dependences from a colouring\<close>

lemma foldl_or: "foldl (\<lambda>b s. b \<or> P s) c xs = (c \<or> (\<exists>s \<in> set xs. P s))"
  by (induction xs arbitrary: c) auto

lemma foldl_insert_if: "foldl (\<lambda>F p. if P p then insert p F else F) A xs = A \<union> {p \<in> set xs. P p}"
  by (induction xs arbitrary: A) auto

lemma has_both_iff:
  "has_both g col p = ((\<exists>s \<in> set (cd_succs g p). col s) \<and> (\<exists>s \<in> set (cd_succs g p). \<not> col s))"
  by (simp add: has_both_def foldl_or)

lemma inevitable_node:
  assumes "cdg_wf g" and "n \<in> inevitable g {t}" and "t \<in> set (cd_nodes g)"
  shows "n \<in> set (cd_nodes g)"
  using assms(2)
proof cases
  case all_succs
  then obtain m where "m \<in> set (cd_succs g n)" by (cases "cd_succs g n") auto
  then show ?thesis by (rule cdg_wfD(4) [OF assms(1)])
qed (use assms(3) in simp)

lemma has_both_ntscd:
  assumes "cdg_wf g" and "\<And>s. s \<in> set (cd_nodes g) \<Longrightarrow> col s = (s \<in> inevitable g {t})"
  shows "Set.filter (has_both g col) (cd_predicates g) = ntscd g t"
proof -
  have "col s = on_all_paths g {t} s" if "s \<in> set (cd_succs g p)" for s p
    using assms(2) [OF cdg_wfD(5) [OF assms(1) that]] by (simp add: inevitable_iff)
  then show ?thesis
    using cdg_wfD(6) [OF assms(1)] by (auto simp: ntscd_def has_both_iff)
qed

section \<open>The counters of NTSCD\<close>

text \<open>
  The ghost \<open>p\<close> counts how often a node was popped. \<open>popped_succs p n\<close> is then how often
  the counter of \<open>n\<close> was decremented.
\<close>

definition popped_succs :: "CDGraph \<Rightarrow> (node \<Rightarrow> nat) \<Rightarrow> node \<Rightarrow> nat" where
  "popped_succs g p n = (\<Sum>m \<in> set (cd_succs g n). p m)"

definition pushes :: "CDGraph \<Rightarrow> node set \<Rightarrow> (node \<Rightarrow> nat) \<Rightarrow> node \<Rightarrow> nat" where
  "pushes g T p n = (if n \<in> T then 1 else 0) +
     (if cd_succs g n \<noteq> [] \<and> length (cd_succs g n) \<le> popped_succs g p n then 1 else 0)"

definition avoidable :: "CDGraph \<Rightarrow> node \<Rightarrow> bool" where
  "avoidable g t = (\<not> (cd_succs g t \<noteq> [] \<and> set (cd_succs g t) \<subseteq> inevitable g {t}))"

definition ntscd_inv :: "CDGraph \<Rightarrow> node set \<Rightarrow> NTSCD_data \<Rightarrow> node list \<Rightarrow> (node \<Rightarrow> nat) \<Rightarrow> bool" where
  "ntscd_inv g T d q p =
     ((\<forall>n. cd_succs g n \<noteq> [] \<longrightarrow> counter d n = of_nat (length (cd_succs g n)) - of_nat (popped_succs g p n)) \<and>
      (\<forall>n. p n + count_list q n = pushes g T p n) \<and>
      (\<forall>n \<in> set (cd_nodes g). (n \<in> colored d) = (0 < pushes g T p n)) \<and>
      (\<forall>t. T = {t} \<longrightarrow> avoidable g t \<longrightarrow>
         (\<forall>n. pushes g T p n \<le> 1 \<and> (0 < pushes g T p n \<longrightarrow> n \<in> inevitable g {t}))))"

lemma ntscd_invD:
  assumes "ntscd_inv g T d q p"
  shows "cd_succs g n \<noteq> [] \<Longrightarrow> counter d n = of_nat (length (cd_succs g n)) - of_nat (popped_succs g p n)"
    and "p n + count_list q n = pushes g T p n"
    and "n \<in> set (cd_nodes g) \<Longrightarrow> (n \<in> colored d) = (0 < pushes g T p n)"
    and "T = {t} \<Longrightarrow> avoidable g t \<Longrightarrow> pushes g T p n \<le> 1"
    and "T = {t} \<Longrightarrow> avoidable g t \<Longrightarrow> 0 < pushes g T p n \<Longrightarrow> n \<in> inevitable g {t}"
  using assms unfolding ntscd_inv_def by blast+

lemma foldl_ntscd_pred:
  assumes "distinct ps"
  shows "foldl ntscd_pred (d, q) ps =
    (d\<lparr>counter := (\<lambda>n. if n \<in> set ps then counter d n - 1 else counter d n),
       colored := colored d \<union> {n \<in> set ps. counter d n = 1}\<rparr>,
     rev (filter (\<lambda>n. counter d n = 1) ps) @ q)"
  using assms
proof (induction ps arbitrary: d q)
  case (Cons a ps)
  have "counter d a - 1 = 0 \<longleftrightarrow> counter d a = 1" by simp
  with Cons show ?case
    by (cases "counter d a = 1")
      (auto simp: ntscd_pred_def Let_def lifo_push_def fun_eq_iff intro!: NTSCD_data.equality filter_cong)
qed simp

lemma pushes_le: "p n + count_list q n = pushes g T p n \<Longrightarrow> p n \<le> 2"
  by (auto simp: pushes_def split: if_splits)

lemma popped_succs_bound:
  assumes "cdg_wf g" and "\<And>n. p n \<le> 2"
  shows "popped_succs g p n \<le> 2 * length (cd_succs g n)"
proof -
  have "popped_succs g p n \<le> (\<Sum>m \<in> set (cd_succs g n). 2)"
    unfolding popped_succs_def by (rule sum_mono) (rule assms(2))
  then show ?thesis using cdg_wfD(1) [OF assms(1)] by (simp add: distinct_card)
qed

lemma counter_one:
  assumes "k < 65535" and "s \<le> 2 * k"
  shows "((of_nat k :: 16 word) - of_nat s = 1) = (s + 1 = k)"
proof
  assume "(of_nat k :: 16 word) - of_nat s = 1"
  then have "(of_nat k :: 16 word) = of_nat (s + 1)" by (simp add: algebra_simps)
  then have "k mod 65536 = (s + 1) mod 65536"
    unfolding word_of_nat_eq_iff by (simp add: take_bit_eq_mod)
  moreover have "k mod 65536 = k" using assms(1) by simp
  moreover have "(s + 1) mod 65536 = (if s + 1 < 65536 then s + 1 else s + 1 - 65536)"
    using assms by (simp add: mod_if)
  ultimately show "s + 1 = k" using assms by (simp split: if_splits)
next
  assume "s + 1 = k" then show "(of_nat k :: 16 word) - of_nat s = 1" by auto
qed

lemma sum_all_one_iff:
  assumes "finite A" and "\<And>x. x \<in> A \<Longrightarrow> f x \<le> (1 :: nat)" and "sum f A = card A" and "a \<in> A"
  shows "f a = 1"
proof (rule ccontr)
  assume "f a \<noteq> 1"
  then have "f a < 1" using assms(2,4) by force
  then have "sum f A < (\<Sum>x \<in> A. 1)" using assms by (intro sum_strict_mono_ex1) auto
  then show False using assms(3) by simp
qed

lemma count_list_distinct: "distinct xs \<Longrightarrow> count_list xs x = (if x \<in> set xs then 1 else 0)"
  by (induction xs) auto

lemma count_list_rev_filter:
  "distinct xs \<Longrightarrow> count_list (rev (filter P xs) @ q) x = (if x \<in> set xs \<and> P x then 1 else 0) + count_list q x"
  by (simp add: count_list_distinct)

lemma popped_succs_upd:
  "popped_succs g (p(m := p m + 1)) n = popped_succs g p n + (if m \<in> set (cd_succs g n) then 1 else 0)"
proof -
  have "popped_succs g (p(m := p m + 1)) n = (\<Sum>x \<in> set (cd_succs g n). p x + (if x = m then 1 else 0))"
    unfolding popped_succs_def by (rule sum.cong) auto
  then show ?thesis by (simp only: sum.distrib popped_succs_def) simp
qed

lemma ntscd_step:
  assumes wf: "cdg_wf g" and deg: "\<And>n. length (cd_succs g n) < 65535"
    and inv: "ntscd_inv g T d (m # q) p"
    and eq: "foldl ntscd_pred (d, q) (cd_preds g m) = (d', q')"
  shows "ntscd_inv g T d' q' (p(m := p m + 1))"
proof -
  let ?p = "p(m := p m + 1)"
  note I = ntscd_invD [OF inv]
  define hit where "hit n = (m \<in> set (cd_succs g n) \<and> popped_succs g p n + 1 = length (cd_succs g n))" for n
  have preds: "n \<in> set (cd_preds g m) \<longleftrightarrow> m \<in> set (cd_succs g n)" for n by (rule cdg_wfD(3) [OF wf])
  have dp: "distinct (cd_preds g m)" by (rule cdg_wfD(2) [OF wf])
  have bound: "popped_succs g p n \<le> 2 * length (cd_succs g n)" for n
    by (rule popped_succs_bound [OF wf pushes_le [OF I(2)]])
  have one: "n \<in> set (cd_preds g m) \<and> counter d n = 1 \<longleftrightarrow> hit n" for n
    unfolding preds hit_def using I(1) [of n] counter_one [OF deg bound] by fastforce
  have d': "d' = d\<lparr>counter := (\<lambda>n. if n \<in> set (cd_preds g m) then counter d n - 1 else counter d n),
       colored := colored d \<union> {n. hit n}\<rparr>"
    and q': "q' = rev (filter (\<lambda>n. counter d n = 1) (cd_preds g m)) @ q"
    using eq one by (auto simp: foldl_ntscd_pred [OF dp] intro!: NTSCD_data.equality)
  have pu: "pushes g T ?p n = pushes g T p n + (if hit n then 1 else 0)" for n
    unfolding pushes_def popped_succs_upd by (auto simp: hit_def)
  have sum: "?p n + count_list q' n = pushes g T ?p n" for n
  proof -
    have "count_list q' n = (if hit n then 1 else 0) + count_list q n"
      unfolding q' count_list_rev_filter [OF dp] using one [of n] by simp
    then show ?thesis unfolding pu using I(2) [of n] by auto
  qed
  have node: "n \<in> set (cd_nodes g)" if "hit n" for n
    using that cdg_wfD(4) [OF wf] by (auto simp: hit_def)
  have inev: "pushes g T ?p n \<le> 1 \<and> (0 < pushes g T ?p n \<longrightarrow> n \<in> inevitable g {t})" if T: "T = {t}" and av: "avoidable g t" for n t
  proof (cases "hit n")
    case True
    have le: "?p x \<le> 1" if "x \<in> set (cd_succs g n)" for x
      using I(2) [of x] I(4) [OF T av, of x] by auto
    have sum1: "(\<Sum>x \<in> set (cd_succs g n). ?p x) = card (set (cd_succs g n))"
      using True popped_succs_upd [of g p m n] cdg_wfD(1) [OF wf, of n]
      by (simp add: hit_def popped_succs_def distinct_card)
    have one': "?p x = 1" if "x \<in> set (cd_succs g n)" for x
      by (rule sum_all_one_iff [OF finite_set le sum1 that])
    have "x \<in> inevitable g {t}" if "x \<in> set (cd_succs g n)" for x
      using one' [OF that] I(2) [of x] I(5) [OF T av, of x] by (cases "x = m") auto
    then have all: "set (cd_succs g n) \<subseteq> inevitable g {t}" "cd_succs g n \<noteq> []" using True by (auto simp: hit_def)
    then have "n \<in> inevitable g {t}" by (auto intro: inevitable.all_succs)
    moreover have "n \<noteq> t" using all av by (auto simp: avoidable_def)
    ultimately show ?thesis using T by (simp add: pushes_def)
  next
    case False
    then show ?thesis unfolding pu using I(4,5) [OF T av] by simp
  qed
  show ?thesis
    unfolding ntscd_inv_def
  proof (intro conjI allI ballI impI)
    show "counter d' n = of_nat (length (cd_succs g n)) - of_nat (popped_succs g ?p n)" if "cd_succs g n \<noteq> []" for n
      unfolding popped_succs_upd using I(1) [OF that] by (simp add: d' preds)
    show "?p n + count_list q' n = pushes g T ?p n" for n by (rule sum)
    show "(n \<in> colored d') = (0 < pushes g T ?p n)" if "n \<in> set (cd_nodes g)" for n
      unfolding d' pu using I(3) [OF that] by simp
  qed (use inev in auto)
qed

lemma ntscd_loop_ok:
  assumes wf: "cdg_wf g" and deg: "\<And>n. length (cd_succs g n) < 65535" and t: "T \<subseteq> set (cd_nodes g)"
    and "ntscd_inv g T d q p"
  shows "\<exists>d' p'. ntscd_loop g d q = Some d' \<and> ntscd_inv g T d' [] p'"
  using assms(4)
proof (induction "\<Sum>n \<in> set (cd_nodes g). 2 - p n" arbitrary: d q p rule: less_induct)
  case less
  show ?case
  proof (cases q)
    case Nil
    then have "ntscd_loop g d q = Some d" by (subst ntscd_loop.simps) (simp add: lifo_pop_def)
    then show ?thesis using less.prems Nil by blast
  next
    case (Cons m q0)
    note I = ntscd_invD [OF less.prems]
    have pm: "p m + 1 \<le> pushes g T p m" using I(2) [of m] by (simp add: Cons)
    then have node: "m \<in> set (cd_nodes g)"
      using t cdg_wfD(4) [OF wf, of _ m]
      by (cases "cd_succs g m") (auto simp: pushes_def simp del: cd_nodes_iff split: if_splits)
    then have col: "m \<in> colored d" using I(3) pm by simp
    obtain d' q' where eq: "foldl ntscd_pred (d, q0) (cd_preds g m) = (d', q')" by fastforce
    have inv: "ntscd_inv g T d' q' (p(m := p m + 1))"
      by (rule ntscd_step [OF wf deg less.prems [unfolded Cons] eq])
    have "p m < 2" using pm by (auto simp: pushes_def split: if_splits)
    then have "(\<Sum>n \<in> set (cd_nodes g). 2 - (p(m := p m + 1)) n) < (\<Sum>n \<in> set (cd_nodes g). 2 - p n)"
      using node by (intro sum_strict_mono_ex1) auto
    from less.hyps [OF this inv] obtain d2 p2 where
      "ntscd_loop g d' q' = Some d2" "ntscd_inv g T d2 [] p2" by blast
    moreover have "ntscd_loop g d q = ntscd_loop g d' q'"
      using Cons col eq by (subst ntscd_loop.simps) (simp add: lifo_pop_def)
    ultimately show ?thesis by auto
  qed
qed

lemma ntscd_inv_init:
  assumes "cdg_wf g"
  shows "ntscd_inv g {t} (ntscd_init g t d) [t] (\<lambda>_. 0)"
proof -
  have "counter (ntscd_init g t d) n = of_nat (length (cd_succs g n))" if "cd_succs g n \<noteq> []" for n
  proof -
    obtain m where "m \<in> set (cd_succs g n)" using \<open>cd_succs g n \<noteq> []\<close> by (cases "cd_succs g n") auto
    from cdg_wfD(4) [OF assms this] show ?thesis by (simp add: ntscd_init_def)
  qed
  then show ?thesis
    by (auto simp: ntscd_inv_def pushes_def popped_succs_def ntscd_init_def inevitable_target)
qed

lemma ntscd_inv_final:
  assumes wf: "cdg_wf g" and inv: "ntscd_inv g T d [] p" and "n \<in> inevitable g T"
  shows "0 < pushes g T p n"
  using assms(3)
proof induction
  case (target t)
  then show ?case by (simp add: pushes_def)
next
  case (all_succs n)
  have "card (set (cd_succs g n)) \<le> popped_succs g p n"
  proof -
    have "1 \<le> p m" if "m \<in> set (cd_succs g n)" for m
      using all_succs(2) that ntscd_invD(2) [OF inv, of m] by auto
    then have "(\<Sum>m \<in> set (cd_succs g n). 1) \<le> popped_succs g p n"
      unfolding popped_succs_def by (rule sum_mono)
    then show ?thesis by simp
  qed
  then show ?case
    using all_succs(1) cdg_wfD(1) [OF wf] by (simp add: pushes_def distinct_card)
qed

lemma ntscd_target_ok:
  assumes wf: "cdg_wf g" and deg: "\<And>n. length (cd_succs g n) < 65535" and t: "t \<in> set (cd_nodes g)"
  shows "\<exists>d'. ntscd_target g t d = Some d' \<and>
    (\<forall>n \<in> inevitable g {t}. n \<in> colored d') \<and>
    (avoidable g t \<longrightarrow> (\<forall>n \<in> set (cd_nodes g). (n \<in> colored d') = (n \<in> inevitable g {t})))"
proof -
  obtain d' p where L: "ntscd_loop g (ntscd_init g t d) [t] = Some d'" "ntscd_inv g {t} d' [] p"
    using ntscd_loop_ok [OF wf deg _ ntscd_inv_init [OF wf], of t] t by blast
  note I = ntscd_invD [OF L(2)] and F = ntscd_inv_final [OF wf L(2)]
  have "\<forall>n \<in> inevitable g {t}. n \<in> colored d'"
    using I(3) F inevitable_node [OF wf _ t] by blast
  moreover have "\<forall>n \<in> set (cd_nodes g). (n \<in> colored d') = (n \<in> inevitable g {t})" if "avoidable g t"
    using I(3) I(5) [OF refl that] F by blast
  ultimately show ?thesis using L(1) by (simp add: ntscd_target_def lifo_push_def)
qed

text \<open>The results for a list of targets whose colourings read off as \<open>C\<close>.\<close>

definition results_of :: "node list \<Rightarrow> (node \<Rightarrow> node set) \<Rightarrow> cd_result \<Rightarrow> cd_result" where
  "results_of ts C R =
     ((\<lambda>t. if t \<in> set ts then fst R t \<union> C t else fst R t), (\<lambda>p. snd R p \<union> {t \<in> set ts. p \<in> C t}))"

lemma results_of_Nil [simp]: "results_of [] C R = R"
  by (cases R) (auto simp: results_of_def)

lemma results_of_record:
  assumes "t \<notin> set ts" and "C t = Set.filter (has_both g col) (cd_predicates g)"
  shows "results_of ts C (record_deps g col t R) = results_of (t # ts) C R"
  using assms by (auto simp: results_of_def record_deps_def Let_def fun_eq_iff)

lemma results_of_cong: "(\<And>t. t \<in> set ts \<Longrightarrow> C t = D t) \<Longrightarrow> results_of ts C R = results_of ts D R"
  by (auto simp: results_of_def fun_eq_iff)

lemma ntscd_targets_ok:
  assumes wf: "cdg_wf g" and deg: "\<And>n. length (cd_succs g n) < 65535"
    and "set ts \<subseteq> set (cd_nodes g)" and "distinct ts"
  shows "\<exists>C. ntscd_targets g ts d R = Some (results_of ts C R) \<and>
    (\<forall>t \<in> set ts. avoidable g t \<longrightarrow> C t = ntscd g t)"
  using assms(3,4)
proof (induction ts arbitrary: d R)
  case (Cons t ts)
  then have t: "t \<in> set (cd_nodes g)" by simp
  obtain d' where d': "ntscd_target g t d = Some d'"
    "avoidable g t \<longrightarrow> (\<forall>n \<in> set (cd_nodes g). (n \<in> colored d') = (n \<in> inevitable g {t}))"
    using ntscd_target_ok [OF wf deg t] by blast
  let ?new = "Set.filter (has_both g (\<lambda>s. s \<in> colored d')) (cd_predicates g)"
  have new: "avoidable g t \<longrightarrow> ?new = ntscd g t" using d'(2) by (intro impI has_both_ntscd [OF wf]) simp
  obtain C where C: "ntscd_targets g ts d' (record_deps g (\<lambda>s. s \<in> colored d') t R) =
      Some (results_of ts C (record_deps g (\<lambda>s. s \<in> colored d') t R))"
    "\<forall>t \<in> set ts. avoidable g t \<longrightarrow> C t = ntscd g t"
    using Cons.IH [of d' "record_deps g (\<lambda>s. s \<in> colored d') t R"] Cons.prems by auto
  have "results_of ts C (record_deps g (\<lambda>s. s \<in> colored d') t R) =
      results_of ts (C(t := ?new)) (record_deps g (\<lambda>s. s \<in> colored d') t R)"
    by (rule results_of_cong) (use Cons.prems(2) in auto)
  also have "\<dots> = results_of (t # ts) (C(t := ?new)) R"
    by (rule results_of_record) (use Cons.prems(2) in simp_all)
  finally have "results_of ts C (record_deps g (\<lambda>s. s \<in> colored d') t R) = results_of (t # ts) (C(t := ?new)) R" .
  then have "ntscd_targets g (t # ts) d R = Some (results_of (t # ts) (C(t := ?new)) R)"
    using d'(1) C(1) by simp
  moreover have "\<forall>u \<in> set (t # ts). avoidable g u \<longrightarrow> (C(t := ?new)) u = ntscd g u"
    using C(2) new Cons.prems(2) by auto
  ultimately show ?case by blast
qed simp

section \<open>The rounds of NTSCD2\<close>

definition frontier_inv :: "CDGraph \<Rightarrow> node \<Rightarrow> colors \<Rightarrow> node set \<Rightarrow> bool" where
  "frontier_inv g t col F =
     (col t = t \<and> t \<notin> F \<and>
      (\<forall>n \<in> set (cd_nodes g). col n = t \<longrightarrow> n \<in> inevitable g {t}) \<and>
      (\<forall>n \<in> set (cd_nodes g). col n = t \<longrightarrow> n \<noteq> t \<longrightarrow> (\<forall>s \<in> set (cd_succs g n). col s = t)) \<and>
      (\<forall>n. col n \<noteq> t \<longrightarrow> (\<exists>s \<in> set (cd_succs g n). col s = t) \<longrightarrow> n \<in> F) \<and>
      (\<forall>n \<in> F. cd_succs g n \<noteq> []))"

lemma frontier_invD:
  assumes "frontier_inv g t col F"
  shows "col t = t" and "t \<notin> F"
    and "n \<in> set (cd_nodes g) \<Longrightarrow> col n = t \<Longrightarrow> n \<in> inevitable g {t}"
    and "n \<in> set (cd_nodes g) \<Longrightarrow> col n = t \<Longrightarrow> n \<noteq> t \<Longrightarrow> s \<in> set (cd_succs g n) \<Longrightarrow> col s = t"
    and "col n \<noteq> t \<Longrightarrow> s \<in> set (cd_succs g n) \<Longrightarrow> col s = t \<Longrightarrow> n \<in> F"
    and "n \<in> F \<Longrightarrow> cd_succs g n \<noteq> []"
  using assms unfolding frontier_inv_def by blast+

definition uncolored :: "CDGraph \<Rightarrow> node \<Rightarrow> colors \<Rightarrow> node set" where
  "uncolored g t col = {n \<in> set (cd_nodes g). col n \<noteq> t}"

definition requeued :: "node \<Rightarrow> colors \<Rightarrow> node set \<Rightarrow> node set" where
  "requeued t col F = {n \<in> F. col n = t}"

text \<open>What one pass over \<open>ns\<close> does: \<open>F\<close> is the new frontier so far.\<close>

definition pass_post ::
  "CDGraph \<Rightarrow> node \<Rightarrow> node list \<Rightarrow> colors \<times> node set \<times> bool \<Rightarrow> colors \<times> node set \<times> bool \<Rightarrow> bool" where
  "pass_post g t ns s s' =
     (case (s, s') of ((col, F, pr), (col', F', pr')) \<Rightarrow>
       frontier_inv g t col' F' \<and> (\<forall>n. col' n = col n \<or> col' n = t) \<and>
       uncolored g t col' \<subseteq> uncolored g t col \<and>
       (uncolored g t col' = uncolored g t col \<longrightarrow>
          requeued t col' F' \<subseteq> requeued t col F \<and> (pr' \<longrightarrow> pr \<or> requeued t col (set ns) \<noteq> {})) \<and>
       (\<not> pr' \<longrightarrow> \<not> pr \<and> col' = col \<and> F' = F \<union> set ns \<and>
          (\<forall>n \<in> set ns. \<exists>s \<in> set (cd_succs g n). col s \<noteq> t)))"

lemma ntscd2_pass:
  assumes wf: "cdg_wf g" and "frontier_inv g t col (set ns \<union> F)"
  shows "\<exists>s'. foldl (ntscd2_node g t) (Some (col, F, pr)) ns = Some s' \<and> pass_post g t ns (col, F, pr) s'"
  using assms(2)
proof (induction ns arbitrary: col F pr)
  case Nil
  then show ?case by (auto simp: pass_post_def)
next
  case (Cons nd ns)
  have ne: "cd_succs g nd \<noteq> []" and nt: "nd \<noteq> t" using Cons.prems by (auto simp: frontier_inv_def)
  then obtain x where "x \<in> set (cd_succs g nd)" by (cases "cd_succs g nd") auto
  then have node: "nd \<in> set (cd_nodes g)" by (rule cdg_wfD(4) [OF wf])
  show ?case
  proof (cases "\<forall>s \<in> set (cd_succs g nd). col s = t")
    case True
    let ?col = "col(nd := t)"
    let ?F = "F \<union> {p \<in> set (cd_preds g nd). ?col p \<noteq> t}"
    have step: "ntscd2_node g t (Some (col, F, pr)) nd = Some (?col, ?F, True)"
      using True ne by (simp add: ntscd2_node_def list_all_iff Let_def foldl_insert_if)
    have inev: "nd \<in> inevitable g {t}"
    proof (rule inevitable.all_succs [OF ne], rule ballI)
      fix s assume s: "s \<in> set (cd_succs g nd)"
      then show "s \<in> inevitable g {t}"
        using True Cons.prems cdg_wfD(5) [OF wf s] by (auto simp: frontier_inv_def)
    qed
    note D = frontier_invD [OF Cons.prems]
    have pred: "n \<in> set (cd_preds g nd) \<longleftrightarrow> nd \<in> set (cd_succs g n)" for n by (rule cdg_wfD(3) [OF wf])
    have "frontier_inv g t ?col (set ns \<union> ?F)"
      unfolding frontier_inv_def
    proof (intro conjI allI ballI impI)
      show "?col t = t" using D(1) by simp
      show "t \<notin> set ns \<union> ?F" using D(1,2) by simp
      show "n \<in> inevitable g {t}" if "n \<in> set (cd_nodes g)" "?col n = t" for n
        using that D(3) inev by (cases "n = nd") simp_all
      show "?col s = t" if "n \<in> set (cd_nodes g)" "?col n = t" "n \<noteq> t" "s \<in> set (cd_succs g n)" for n s
      proof (cases "n = nd \<or> s = nd")
        case False
        then have "col n = t" using that(2) by simp
        from D(4) [OF that(1) this that(3,4)] False show ?thesis by simp
      next
        case T: True
        then show ?thesis using True that(4) by auto
      qed
      show "n \<in> set ns \<union> ?F" if "?col n \<noteq> t" "\<exists>s \<in> set (cd_succs g n). ?col s = t" for n
      proof -
        from that obtain s where s: "s \<in> set (cd_succs g n)" "?col s = t" by blast
        have n: "n \<noteq> nd" "col n \<noteq> t" using that(1) by (auto split: if_splits)
        show ?thesis using s n D(5) [OF n(2) s(1)] pred [of n] by (cases "s = nd") auto
      qed
      show "cd_succs g n \<noteq> []" if "n \<in> set ns \<union> ?F" for n
        using that D(6) [of n] pred [of n] by auto
    qed
    from Cons.IH [OF this, of True] obtain s' where
      s': "foldl (ntscd2_node g t) (Some (?col, ?F, True)) ns = Some s'"
      "pass_post g t ns (?col, ?F, True) s'" by blast
    obtain col' F' pr' where eq: "s' = (col', F', pr')" by (cases s')
    note IH = s' [unfolded eq]
    have unc: "uncolored g t ?col \<subseteq> uncolored g t col" by (auto simp: uncolored_def)
    have "pass_post g t (nd # ns) (col, F, pr) (col', F', pr')"
    proof (cases "col nd = t")
      case col: True
      then have "?col = col" by auto
      then show ?thesis using IH(2) col by (auto simp: pass_post_def requeued_def)
    next
      case False
      then have "nd \<in> uncolored g t col" "nd \<notin> uncolored g t ?col" using node by (auto simp: uncolored_def)
      moreover have P: "frontier_inv g t col' F'" "\<And>n. col' n = ?col n \<or> col' n = t"
        "uncolored g t col' \<subseteq> uncolored g t ?col" "pr'"
        using IH(2) unfolding pass_post_def split_conv by simp_all
      ultimately have "uncolored g t col' \<subset> uncolored g t col" using unc by blast
      moreover have "col' n = col n \<or> col' n = t" for n using P(2) [of n] by (auto split: if_splits)
      ultimately show ?thesis using P(1,4) by (simp add: pass_post_def psubset_eq)
    qed
    then show ?thesis using IH(1) step by auto
  next
    case False
    then have "\<not> list_all (\<lambda>s. col s = t) (cd_succs g nd)" by (simp add: list_all_iff)
    then have step: "ntscd2_node g t (Some (col, F, pr)) nd = Some (col, insert nd F, pr)"
      using ne by (simp add: ntscd2_node_def)
    have "col nd \<noteq> t" using False frontier_invD(4) [OF Cons.prems node _ nt] by blast
    have "frontier_inv g t col (set ns \<union> insert nd F)" using Cons.prems by simp
    from Cons.IH [OF this, of pr] obtain s' where
      IH: "foldl (ntscd2_node g t) (Some (col, insert nd F, pr)) ns = Some s'"
      "pass_post g t ns (col, insert nd F, pr) s'" by auto
    have "pass_post g t (nd # ns) (col, F, pr) s'"
      using IH(2) False \<open>col nd \<noteq> t\<close> by (cases s') (auto simp: pass_post_def requeued_def)
    then show ?thesis using IH(1) step by auto
  qed
qed

definition valid_iter :: "(node set \<Rightarrow> node list) \<Rightarrow> bool" where
  "valid_iter iter = (\<forall>F. finite F \<longrightarrow> set (iter F) = F \<and> distinct (iter F))"

lemma ntscd2_loop_ok:
  assumes wf: "cdg_wf g" and it: "valid_iter iter" and "frontier_inv g t col F"
  shows "\<exists>col'. ntscd2_loop iter g t col F = Some col' \<and>
    (\<forall>n \<in> set (cd_nodes g). (col' n = t) = (n \<in> inevitable g {t})) \<and> (\<forall>n. col' n = col n \<or> col' n = t)"
  using assms(3)
proof (induction "(card (uncolored g t col), card (requeued t col F))" arbitrary: col F rule: wf_induct_rule [OF wf_lex_prod [OF wf_less wf_less]])
  case 1
  have fin: "finite F" "finite (uncolored g t c)" for c
  proof -
    have "F \<subseteq> set (cd_nodes g)"
    proof
      fix n assume "n \<in> F"
      then have "cd_succs g n \<noteq> []" using "1.prems" by (auto simp: frontier_inv_def)
      then obtain x where "x \<in> set (cd_succs g n)" by (cases "cd_succs g n") auto
      then show "n \<in> set (cd_nodes g)" by (rule cdg_wfD(4) [OF wf])
    qed
    then show "finite F" "finite (uncolored g t c)" by (auto simp: uncolored_def intro: finite_subset)
  qed
  have sF: "set (iter F) = F" using it fin(1) by (simp add: valid_iter_def)
  obtain col' F' pr' where R: "ntscd2_round iter g t col F = Some (col', F', pr')"
    and P: "pass_post g t (iter F) (col, {}, False) (col', F', pr')"
    using ntscd2_pass [OF wf, of t col "iter F" "{}" False] "1.prems" sF
    by (auto simp: ntscd2_round_def)
  have inv: "frontier_inv g t col' F'" using P by (simp add: pass_post_def)
  show ?case
  proof (cases pr')
    case True
    have "card (uncolored g t col') < card (uncolored g t col) \<or>
      (card (uncolored g t col') = card (uncolored g t col) \<and> card (requeued t col' F') < card (requeued t col F))"
    proof (cases "uncolored g t col' = uncolored g t col")
      case eq: True
      then have "requeued t col' F' = {}" "requeued t col F \<noteq> {}"
        using P True sF by (auto simp: pass_post_def requeued_def)
      moreover have "finite (requeued t col F)" using fin(1) by (simp add: requeued_def)
      ultimately have "card (requeued t col' F') < card (requeued t col F)" by (simp add: card_gt_0_iff)
      then show ?thesis using eq by simp
    next
      case False
      then have "uncolored g t col' \<subset> uncolored g t col" using P by (auto simp: pass_post_def)
      then show ?thesis using psubset_card_mono [OF fin(2)] by blast
    qed
    then obtain c where c: "ntscd2_loop iter g t col' F' = Some c"
      "\<forall>n \<in> set (cd_nodes g). (c n = t) = (n \<in> inevitable g {t})" "\<forall>n. c n = col' n \<or> c n = t"
      using "1.hyps" [OF _ inv] by auto
    moreover have "ntscd2_loop iter g t col F = Some c"
      using R True c(1) by (subst ntscd2_loop.simps) simp
    moreover have "c n = col n \<or> c n = t" for n
    proof -
      have "col' n = col n \<or> col' n = t" using P by (simp add: pass_post_def)
      then show ?thesis using c(3) by metis
    qed
    ultimately show ?thesis by blast
  next
    case False
    then have E: "col' = col" "F' = F" "\<forall>n \<in> F. \<exists>s \<in> set (cd_succs g n). col s \<noteq> t"
      using P sF by (auto simp: pass_post_def)
    have "col n = t" if "n \<in> inevitable g {t}" for n
      using that
    proof induction
      case target
      then show ?case using "1.prems" by (simp add: frontier_inv_def)
    next
      case (all_succs n)
      then obtain s where "s \<in> set (cd_succs g n)" "col s = t" by (cases "cd_succs g n") auto
      then show ?case using frontier_invD(5) [OF "1.prems"] all_succs(2) E(3) by metis
    qed
    moreover have "ntscd2_loop iter g t col F = Some col"
      using R False E(1) by (subst ntscd2_loop.simps) simp
    ultimately show ?thesis using frontier_invD(3) [OF "1.prems"] by metis
  qed
qed

lemma ntscd2_target_ok:
  assumes wf: "cdg_wf g" and it: "valid_iter iter" and t: "t \<in> set (cd_nodes g)"
    and fresh: "\<And>n. n \<in> set (cd_nodes g) \<Longrightarrow> col n \<noteq> t"
  shows "\<exists>col'. ntscd2_target iter g t col = Some col' \<and>
    (\<forall>n \<in> set (cd_nodes g). (col' n = t) = (n \<in> inevitable g {t})) \<and> (\<forall>n. col' n = col n \<or> col' n = t)"
proof -
  let ?col = "col(t := t)"
  let ?F = "{p \<in> set (cd_preds g t). ?col p \<noteq> t}"
  have pred: "n \<in> set (cd_preds g t) \<longleftrightarrow> t \<in> set (cd_succs g n)" for n by (rule cdg_wfD(3) [OF wf])
  have eq: "?col n = t \<longleftrightarrow> n = t" if "n \<in> set (cd_nodes g)" for n using fresh that by simp
  have "frontier_inv g t ?col ?F"
    unfolding frontier_inv_def
  proof (intro conjI allI ballI impI)
    show "n \<in> inevitable g {t}" if "n \<in> set (cd_nodes g)" "?col n = t" for n
      using that eq inevitable_target by metis
    show "?col s = t" if "n \<in> set (cd_nodes g)" "?col n = t" "n \<noteq> t" for n s
      using that eq by blast
    show "n \<in> ?F" if "?col n \<noteq> t" "\<exists>s \<in> set (cd_succs g n). ?col s = t" for n
    proof -
      from that(2) obtain s where s: "s \<in> set (cd_succs g n)" "?col s = t" by blast
      with eq [OF cdg_wfD(5) [OF wf s(1)]] have "s = t" by simp
      with s that(1) pred show ?thesis by simp
    qed
    show "cd_succs g n \<noteq> []" if "n \<in> ?F" for n using that pred [of n] by auto
  qed simp_all
  from ntscd2_loop_ok [OF wf it this] obtain col' where col':
    "ntscd2_loop iter g t ?col ?F = Some col'"
    "\<forall>n \<in> set (cd_nodes g). (col' n = t) = (n \<in> inevitable g {t})"
    "\<forall>n. col' n = ?col n \<or> col' n = t" by blast
  have "col' n = col n \<or> col' n = t" for n using col'(3) by (auto split: if_splits)
  with col'(1,2) show ?thesis by (simp add: ntscd2_target_def Let_def foldl_insert_if)
qed

lemma ntscd2_targets_ok:
  assumes wf: "cdg_wf g" and it: "valid_iter iter"
    and "set ts \<subseteq> set (cd_nodes g)" and "distinct ts"
    and "\<And>n t. n \<in> set (cd_nodes g) \<Longrightarrow> t \<in> set ts \<Longrightarrow> col n \<noteq> t"
  shows "ntscd2_targets iter g ts col R = Some (results_of ts (ntscd g) R)"
  using assms(3-5)
proof (induction ts arbitrary: col R)
  case (Cons t ts)
  obtain col' where col': "ntscd2_target iter g t col = Some col'"
    "\<forall>n \<in> set (cd_nodes g). (col' n = t) = (n \<in> inevitable g {t})" "\<forall>n. col' n = col n \<or> col' n = t"
    using ntscd2_target_ok [OF wf it, of t col] Cons.prems by auto
  have new: "ntscd g t = Set.filter (has_both g (\<lambda>s. col' s = t)) (cd_predicates g)"
    using col'(2) by (intro has_both_ntscd [OF wf, symmetric]) simp
  have "col' n \<noteq> u" if "n \<in> set (cd_nodes g)" "u \<in> set ts" for n u
    using that col'(3) Cons.prems(2,3) by (metis distinct.simps(2) list.set_intros(2))
  then have "ntscd2_targets iter g ts col' (record_deps g (\<lambda>s. col' s = t) t R) =
      Some (results_of ts (ntscd g) (record_deps g (\<lambda>s. col' s = t) t R))"
    using Cons by simp
  moreover have "results_of ts (ntscd g) (record_deps g (\<lambda>s. col' s = t) t R) = results_of (t # ts) (ntscd g) R"
    by (rule results_of_record) (use new Cons.prems(2) in simp_all)
  ultimately show ?case using col'(1) by simp
qed simp

lemma ntscd2_compute_ok:
  assumes "cdg_wf g" and "valid_iter iter"
  shows "ntscd2_compute iter g =
    Some (\<lambda>n. if n \<in> set (cd_nodes g) then ntscd g n else {}, \<lambda>p. {n \<in> set (cd_nodes g). p \<in> ntscd g n})"
  using ntscd2_targets_ok [OF assms subset_refl distinct_cd_nodes, of "\<lambda>_. 0"]
  by (auto simp: ntscd2_compute_def results_of_def fun_eq_iff)

section \<open>Properties\<close>

text \<open>C1: \<open>NTSCD2\<close> terminates on every well-formed graph and computes exactly the
  non-termination sensitive control dependence, whatever the order in which the frontier
  sets are iterated: \<open>CD\<close> maps a node to the predicates with a successor all of whose maximal
  paths meet the node and a successor with a maximal path that avoids it, \<open>revCD\<close> is the
  inverse of \<open>CD\<close>.\<close>

theorem ntscd2_correct:
  assumes "cdg_wf g" and "valid_iter iter"
  shows "ntscd2_compute iter g =
    Some (\<lambda>n. if n \<in> set (cd_nodes g) then ntscd g n else {}, \<lambda>p. {n \<in> set (cd_nodes g). p \<in> ntscd g n})"
  using assms by (rule ntscd2_compute_ok)

text \<open>C16: \<open>NTSCD\<close> terminates with no assertion failing on every well-formed graph with fewer than
  \<open>2 ^ 16 - 1\<close> successors per node, and its result for a node is exact whenever some maximal
  path can leave the node for good (or the node has no successors).\<close>

theorem ntscd_correct_if_avoidable:
  assumes "cdg_wf g" and "\<And>n. length (cd_succs g n) < 65535"
  shows "\<exists>CD revCD. ntscd_compute g = Some (CD, revCD) \<and>
    (\<forall>t \<in> set (cd_nodes g).
       cd_succs g t = [] \<or> (\<exists>s \<in> set (cd_succs g t). \<not> on_all_paths g {t} s) \<longrightarrow> CD t = ntscd g t)"
proof -
  obtain C where "ntscd_compute g = Some (results_of (cd_nodes g) C (\<lambda>_. {}, \<lambda>_. {}))"
    "\<forall>t \<in> set (cd_nodes g). avoidable g t \<longrightarrow> C t = ntscd g t"
    using ntscd_targets_ok [OF assms subset_refl distinct_cd_nodes] unfolding ntscd_compute_def by blast
  moreover have "avoidable g t"
    if "cd_succs g t = [] \<or> (\<exists>s \<in> set (cd_succs g t). \<not> on_all_paths g {t} s)" for t
    using that by (auto simp: avoidable_def inevitable_iff)
  ultimately show ?thesis by (auto simp: results_of_def)
qed

definition loop_graph :: CDGraph where
  "loop_graph =
     foldl (\<lambda>g (n, s). addNodeSuccessor g n s)
       (((snd \<circ> createNode) ^^ 5) cd_new)
       [(1, 2), (2, 1), (3, 1), (3, 4), (5, 1), (5, 3)]"

lemma loop_graph_succs [simp]:
  "cd_succs loop_graph = (\<lambda>_. [])(1 := [2], 2 := [1], 3 := [1, 4], 5 := [1, 3])"
  "cd_preds loop_graph = (\<lambda>_. [])(1 := [2, 3, 5], 2 := [1], 3 := [5], 4 := [3])"
  "cd_size loop_graph = 5" "cd_predicates loop_graph = {3, 5}"
  by (auto simp: loop_graph_def cd_new_def createNode_def addNodeSuccessor_def addSuccessor_def Let_def
      eval_nat_numeral fun_eq_iff)

lemma loop_graph_wf: "cdg_wf loop_graph"
  by (auto simp: cdg_wf_def split: if_splits)

theorem ntscd2_correct_witness:
  "\<exists>CD revCD. ntscd2_compute sorted_list_of_set loop_graph = Some (CD, revCD) \<and> CD 4 = ntscd loop_graph 4"
  using ntscd2_correct [OF loop_graph_wf, of sorted_list_of_set] by (simp add: valid_iter_def)

theorem ntscd_correct_if_avoidable_witness:
  "\<exists>CD revCD. ntscd_compute loop_graph = Some (CD, revCD) \<and> CD 4 = ntscd loop_graph 4"
  using ntscd_correct_if_avoidable [OF loop_graph_wf] by fastforce


text \<open>C17: when the node of which the dependents are computed lies on a cycle it cannot leave,
  \<open>NTSCD\<close> colours too many nodes, because the node is queued a second time: in the
  graph \<open>1 -> 2, 2 -> 1, 3 -> 1, 3 -> 4, 5 -> 1, 5 -> 3\<close> node \<open>1\<close> depends on \<open>5\<close> and \<open>NTSCD\<close>
  does not report it.\<close>

theorem ntscd_misses_dependence:
  "\<exists>CD revCD. ntscd_compute loop_graph = Some (CD, revCD) \<and> 5 \<in> ntscd loop_graph 1 \<and> 5 \<notin> CD 1"
proof -
  have i: "1 \<in> inevitable loop_graph {1}" by (rule inevitable_target)
  have four: "4 \<notin> inevitable loop_graph {1}"
    by (subst inevitable.simps) simp
  have n: "3 \<notin> inevitable loop_graph {1}"
    using four by (subst inevitable.simps) simp
  have "5 \<in> ntscd loop_graph 1"
    using i n by (simp add: ntscd_def inevitable_iff [symmetric])
  moreover have "map_option (\<lambda>(CD, r). 5 \<in> CD 1) (ntscd_compute loop_graph) = Some False"
    by code_simp
  ultimately show ?thesis by (cases "ntscd_compute loop_graph") auto
qed

end
