(* ===== verification/Ranganath.thy ===== *)
theory Ranganath
  imports Ntscd
begin

text \<open>
  \<^verbatim>\<open>lib/ControlDependence/NTSCD.h\<close>: the class \<open>NTSCDRanganath\<close>. \<open>S n p\<close> is the set of the
  symbols \<open>(p, m)\<close> that have reached \<open>n\<close>. The effect of the loops over the predicates does not
  depend on their order, so they are one update for all predicates at once. The work bag is the
  \<open>SetQueue\<close> over a FIFO queue.
\<close>

section \<open>The algorithm\<close>

type_synonym symbol = "node \<times> node"
type_synonym symbols = "node \<Rightarrow> node \<Rightarrow> symbol set"
type_synonym workbag = "(node, node QueueFIFO) SetQueue"

definition has_new :: "CDGraph \<Rightarrow> symbols \<Rightarrow> node set \<Rightarrow> node \<Rightarrow> node \<Rightarrow> bool" where
  "has_new g S skip n m = (Set.filter (\<lambda>p. p \<notin> skip \<and> \<not> S n p \<subseteq> S m p) (cd_predicates g) \<noteq> {})"

definition propagate :: "CDGraph \<Rightarrow> symbols \<Rightarrow> node set \<Rightarrow> node \<Rightarrow> node \<Rightarrow> symbols" where
  "propagate g S skip n m =
     S(m := (\<lambda>p. if p \<in> cd_predicates g \<and> p \<notin> skip then S m p \<union> S n p else S m p))"

definition move_symbols ::
  "CDGraph \<Rightarrow> node set \<Rightarrow> node \<Rightarrow> bool \<times> symbols \<times> workbag \<Rightarrow> node \<Rightarrow> bool \<times> symbols \<times> workbag" where
  "move_symbols g skip n st m =
     (case st of (changed, S, bag) \<Rightarrow>
        if has_new g S skip n m then (True, propagate g S skip n m, sq_push fifo_push bag m) else st)"

definition processNode ::
  "CDGraph \<Rightarrow> node \<Rightarrow> symbols \<times> workbag \<Rightarrow> bool \<times> symbols \<times> workbag" where
  "processNode g n st =
     (case getSingleSuccessor g n of
        Some s \<Rightarrow> if s \<noteq> n then move_symbols g {} n (False, st) s else (False, st)
      | None \<Rightarrow>
          if length (cd_succs g n) > 1
          then foldl (\<lambda>st m. if card (fst (snd st) m n) = length (cd_succs g n)
                             then move_symbols g {n} n st m else st) (False, st) (cd_nodes g)
          else (False, st))"

definition rg_init :: "(node set \<Rightarrow> node list) \<Rightarrow> CDGraph \<Rightarrow> symbols \<times> workbag" where
  "rg_init iter g =
     foldl (\<lambda>(S, bag) p.
        foldl (\<lambda>(S, bag) n. (S(n := (S n)(p := insert (p, n) (S n p))), sq_push fifo_push bag n))
          (S, bag) (cd_succs g p))
       (\<lambda>_ _. {}, ({}, [])) (iter (cd_predicates g))"

definition rg_pass :: "CDGraph \<Rightarrow> symbols \<times> workbag \<Rightarrow> bool \<times> symbols \<times> workbag" where
  "rg_pass g st =
     foldl (\<lambda>(changed, st) n. case processNode g n st of (c, st') \<Rightarrow> (changed \<or> c, st'))
       (False, st) (cd_nodes g)"

partial_function (option) rg_fixpoint :: "CDGraph \<Rightarrow> symbols \<times> workbag \<Rightarrow> (symbols \<times> workbag) option" where
  "rg_fixpoint g st =
     (case rg_pass g st of (changed, st') \<Rightarrow> if changed then rg_fixpoint g st' else Some st')"

partial_function (option) rg_worklist :: "CDGraph \<Rightarrow> symbols \<times> workbag \<Rightarrow> (symbols \<times> workbag) option" where
  "rg_worklist g st =
     (case sq_pop fifo_pop (snd st) of
        None \<Rightarrow> Some st
      | Some (n, bag) \<Rightarrow> rg_worklist g (snd (processNode g n (fst st, bag))))"

declare rg_fixpoint.simps [code] rg_worklist.simps [code]

definition rg_result :: "CDGraph \<Rightarrow> symbols \<Rightarrow> cd_result" where
  "rg_result g S =
     (let dep = (\<lambda>n p. 0 < card (S n p) \<and> card (S n p) < length (cd_succs g p)) in
      (\<lambda>n. if n \<in> set (cd_nodes g) then Set.filter (dep n) (cd_predicates g) else {},
       \<lambda>p. if p \<in> cd_predicates g then Set.filter (\<lambda>n. dep n p) (set (cd_nodes g)) else {}))"

definition ranganath_compute :: "(node set \<Rightarrow> node list) \<Rightarrow> CDGraph \<Rightarrow> bool \<Rightarrow> cd_result option" where
  "ranganath_compute iter g doFixpoint =
     map_option (\<lambda>st. rg_result g (fst st))
       (if doFixpoint then rg_fixpoint g (rg_init iter g) else rg_worklist g (rg_init iter g))"

section \<open>Invariant of the symbols\<close>

definition sym_ok :: "CDGraph \<Rightarrow> symbols \<Rightarrow> bool" where
  "sym_ok g S =
     ((\<forall>n p x. x \<in> S n p \<longrightarrow> fst x = p \<and> snd x \<in> set (cd_succs g p) \<and> p \<in> cd_predicates g \<and>
         snd x \<in> inevitable g {n} \<and> n \<in> set (cd_nodes g)) \<and>
      (\<forall>p \<in> cd_predicates g. \<forall>n \<in> set (cd_succs g p). (p, n) \<in> S n p))"

lemma sym_okD:
  assumes "sym_ok g S" and "x \<in> S n p"
  shows "fst x = p" and "snd x \<in> set (cd_succs g p)" and "p \<in> cd_predicates g"
    and "snd x \<in> inevitable g {n}" and "n \<in> set (cd_nodes g)"
  using assms unfolding sym_ok_def by blast+

definition sym_le :: "symbols \<Rightarrow> symbols \<Rightarrow> bool" where
  "sym_le S T = (\<forall>n p. S n p \<subseteq> T n p)"

lemma sym_le_refl [simp]: "sym_le S S"
  by (simp add: sym_le_def)

lemma sym_le_trans: "sym_le S T \<Longrightarrow> sym_le T U \<Longrightarrow> sym_le S U"
  unfolding sym_le_def by (meson subset_trans)

lemma sym_le_antisym: "sym_le S T \<Longrightarrow> sym_le T S \<Longrightarrow> S = T"
  unfolding sym_le_def by (intro ext subset_antisym) blast+

lemma inevitable_trans: "x \<in> inevitable g {n} \<Longrightarrow> n \<in> inevitable g {m} \<Longrightarrow> x \<in> inevitable g {m}"
  by (induction rule: inevitable.induct) (auto intro: inevitable.all_succs)

lemma propagate_le: "sym_le S (propagate g S skip n m)"
  by (auto simp: sym_le_def propagate_def)

lemma propagate_ok:
  assumes "sym_ok g S" and "n \<in> inevitable g {m}" and "m \<in> set (cd_nodes g)"
  shows "sym_ok g (propagate g S skip n m)"
  using assms inevitable_trans [OF _ assms(2)] unfolding sym_ok_def propagate_def
  by (auto split: if_splits)

definition moved :: "CDGraph \<Rightarrow> node set \<Rightarrow> symbols \<Rightarrow> node \<Rightarrow> node \<Rightarrow> bool" where
  "moved g skip S n m = (\<forall>p \<in> cd_predicates g. p \<notin> skip \<longrightarrow> S n p \<subseteq> S m p)"

text \<open>The postcondition of every step: symbols are only added, and \<open>changed\<close> is reported
  exactly when some were.\<close>

definition step_post :: "CDGraph \<Rightarrow> bool \<times> symbols \<times> workbag \<Rightarrow> bool \<times> symbols \<times> workbag \<Rightarrow> bool" where
  "step_post g s s' =
     (case (s, s') of ((c, S, _), (c', S', _)) \<Rightarrow>
        sym_ok g S' \<and> sym_le S S' \<and> (c' = (c \<or> S' \<noteq> S)))"

lemma step_post_refl: "sym_ok g (fst (snd s)) \<Longrightarrow> step_post g s s"
  by (auto simp: step_post_def split: prod.splits)

lemma step_post_trans: "step_post g s t \<Longrightarrow> step_post g t u \<Longrightarrow> step_post g s u"
  by (auto simp: step_post_def intro: sym_le_trans dest: sym_le_antisym split: prod.splits)

lemma move_symbols_post:
  assumes "sym_ok g (fst (snd st))" and "n \<in> inevitable g {m}" and "m \<in> set (cd_nodes g)"
  shows "step_post g st (move_symbols g skip n st m)"
    and "fst (snd (move_symbols g skip n st m)) = fst (snd st) \<Longrightarrow> moved g skip (fst (snd st)) n m"
proof -
  obtain c S bag where st: "st = (c, S, bag)" by (cases st)
  have eq: "has_new g S skip n m = (\<not> moved g skip S n m)" by (auto simp: has_new_def moved_def)
  have ne: "propagate g S skip n m \<noteq> S" if "\<not> moved g skip S n m"
  proof
    assume "propagate g S skip n m = S"
    then have eq: "propagate g S skip n m m p = S m p" for p by simp
    from that obtain p where p: "p \<in> cd_predicates g" "p \<notin> skip" "\<not> S n p \<subseteq> S m p"
      by (auto simp: moved_def)
    have "S m p \<union> S n p = S m p" using p(1,2) eq [of p] by (simp add: propagate_def)
    then show False using p(3) by blast
  qed
  show "step_post g st (move_symbols g skip n st m)"
    using propagate_ok [OF _ assms(2,3)] propagate_le assms(1) ne
    by (auto simp: st move_symbols_def step_post_def eq)
  show "fst (snd (move_symbols g skip n st m)) = fst (snd st) \<Longrightarrow> moved g skip (fst (snd st)) n m"
    using ne by (auto simp: st move_symbols_def eq split: if_splits)
qed

lemma foldl_step_post:
  assumes "\<And>s x. x \<in> set xs \<Longrightarrow> sym_ok g (fst (snd s)) \<Longrightarrow> step_post g s (f s x)"
    and "sym_ok g (fst (snd s))"
  shows "step_post g s (foldl f s xs) \<and>
    (fst (snd (foldl f s xs)) = fst (snd s) \<longrightarrow>
      (\<forall>x \<in> set xs. \<exists>t. fst (snd t) = fst (snd s) \<and> fst (snd (f t x)) = fst (snd s)))"
  using assms
proof (induction xs arbitrary: s)
  case Nil
  then show ?case by (simp add: step_post_refl)
next
  case (Cons x xs)
  have st: "step_post g s (f s x)" using Cons.prems by simp
  then have ok: "sym_ok g (fst (snd (f s x)))" by (auto simp: step_post_def split: prod.splits)
  have IH: "step_post g (f s x) (foldl f (f s x) xs)"
    "fst (snd (foldl f (f s x) xs)) = fst (snd (f s x)) \<longrightarrow>
      (\<forall>y \<in> set xs. \<exists>t. fst (snd t) = fst (snd (f s x)) \<and> fst (snd (f t y)) = fst (snd (f s x)))"
    using Cons.IH [OF _ ok] Cons.prems(1) by auto
  have same: "fst (snd (f s x)) = fst (snd s)" if "fst (snd (foldl f (f s x) xs)) = fst (snd s)"
    using st IH(1) that by (auto simp: step_post_def dest: sym_le_antisym split: prod.splits)
  have "\<exists>t. fst (snd t) = fst (snd s) \<and> fst (snd (f t y)) = fst (snd s)"
    if "y \<in> set (x # xs)" "fst (snd (foldl f (f s x) xs)) = fst (snd s)" for y
  proof (cases "y = x")
    case True
    then show ?thesis using same [OF that(2)] by blast
  next
    case False
    then show ?thesis using that IH(2) same [OF that(2)] by simp
  qed
  then show ?case
    using step_post_trans [OF st IH(1)] by simp
qed


text \<open>The rules of the algorithm hold at \<open>n\<close>.\<close>

definition closed_at :: "CDGraph \<Rightarrow> symbols \<Rightarrow> node \<Rightarrow> bool" where
  "closed_at g S n =
     ((\<forall>s. cd_succs g n = [s] \<longrightarrow> s \<noteq> n \<longrightarrow> moved g {} S n s) \<and>
      (length (cd_succs g n) > 1 \<longrightarrow>
        (\<forall>m \<in> set (cd_nodes g). card (S m n) = length (cd_succs g n) \<longrightarrow> moved g {n} S n m)))"

lemma sym_full:
  assumes wf: "cdg_wf g" and ok: "sym_ok g S" and "card (S m n) = length (cd_succs g n)"
    and "length (cd_succs g n) > 1"
  shows "n \<in> inevitable g {m}"
proof (rule inevitable.all_succs)
  show "cd_succs g n \<noteq> []" using assms(4) by auto
  have sub: "S m n \<subseteq> Pair n ` set (cd_succs g n)"
    using sym_okD(1,2) [OF ok, of _ m n] by (metis image_eqI prod.collapse subsetI)
  have "card (Pair n ` set (cd_succs g n)) = length (cd_succs g n)"
    using cdg_wfD(1) [OF wf, of n] by (simp add: card_image inj_on_def distinct_card)
  then have "S m n = Pair n ` set (cd_succs g n)"
    using card_subset_eq [OF _ sub] assms(3) by simp
  then show "\<forall>s \<in> set (cd_succs g n). s \<in> inevitable g {m}"
    using sym_okD(4) [OF ok, of "(n, _)" m n] by force
qed

lemma getSingleSuccessor_Some: "(getSingleSuccessor g n = Some s) = (cd_succs g n = [s])"
  by (cases "cd_succs g n" rule: rev_cases) (auto simp: getSingleSuccessor_def)

lemma processNode_post:
  assumes wf: "cdg_wf g" and ok: "sym_ok g S" and n: "n \<in> set (cd_nodes g)"
  shows "step_post g (False, S, bag) (processNode g n (S, bag))"
    and "fst (snd (processNode g n (S, bag))) = S \<Longrightarrow> closed_at g S n"
proof -
  have "step_post g (False, S, bag) (processNode g n (S, bag)) \<and>
    (fst (snd (processNode g n (S, bag))) = S \<longrightarrow> closed_at g S n)"
  proof (cases "getSingleSuccessor g n")
    case (Some s)
    then have succ: "cd_succs g n = [s]" by (simp add: getSingleSuccessor_Some)
    show ?thesis
    proof (cases "s = n")
      case True
      then show ?thesis using Some succ ok by (simp add: processNode_def closed_at_def step_post_refl)
    next
      case False
      have inv: "n \<in> inevitable g {s}" by (rule inevitable.all_succs) (simp_all add: succ inevitable_target)
      have s: "s \<in> set (cd_nodes g)" by (rule cdg_wfD(5) [OF wf, of _ n]) (simp add: succ)
      have eq: "processNode g n (S, bag) = move_symbols g {} n (False, S, bag) s"
        using Some False by (simp add: processNode_def)
      show ?thesis
        using move_symbols_post [OF _ inv s, of "(False, S, bag)" "{}"] ok
        by (simp add: eq closed_at_def succ)
    qed
  next
    case None
    then have no1: "cd_succs g n \<noteq> [s]" for s by (metis getSingleSuccessor_Some option.distinct(1))
    show ?thesis
    proof (cases "length (cd_succs g n) > 1")
      case False
      then show ?thesis using None ok by (simp add: processNode_def closed_at_def step_post_refl no1)
    next
      case True
      let ?f = "\<lambda>st m. if card (fst (snd st) m n) = length (cd_succs g n) then move_symbols g {n} n st m else st"
      have post: "step_post g st (?f st m)" if "m \<in> set (cd_nodes g)" "sym_ok g (fst (snd st))" for st m
        using move_symbols_post(1) [OF that(2) sym_full [OF wf that(2) _ True] that(1)] step_post_refl [OF that(2)]
        by simp
      have F: "step_post g (False, S, bag) (foldl ?f (False, S, bag) (cd_nodes g))"
        "fst (snd (foldl ?f (False, S, bag) (cd_nodes g))) = S \<longrightarrow>
         (\<forall>m \<in> set (cd_nodes g). \<exists>t. fst (snd t) = S \<and> fst (snd (?f t m)) = S)"
        using foldl_step_post [of "cd_nodes g" g ?f "(False, S, bag)"] post ok by auto
      have mv: "moved g {n} S n m"
        if m: "m \<in> set (cd_nodes g)" and c: "card (S m n) = length (cd_succs g n)"
          and t: "fst (snd t) = S" "fst (snd (?f t m)) = S" for m t
      proof -
        have "fst (snd (move_symbols g {n} n t m)) = fst (snd t)" using t c by simp
        from move_symbols_post(2) [OF _ sym_full [OF wf ok c True] m this] show ?thesis
          using t(1) ok by simp
      qed
      have eq: "processNode g n (S, bag) = foldl ?f (False, S, bag) (cd_nodes g)"
        using None True by (simp add: processNode_def)
      show ?thesis
        unfolding eq closed_at_def using F mv no1 by blast
    qed
  qed
  then show "step_post g (False, S, bag) (processNode g n (S, bag))"
    and "fst (snd (processNode g n (S, bag))) = S \<Longrightarrow> closed_at g S n" by blast+
qed


section \<open>The fixpoint\<close>

lemma rg_pass_post:
  assumes wf: "cdg_wf g" and ok: "sym_ok g (fst st)"
  shows "step_post g (False, st) (rg_pass g st)"
    and "fst (snd (rg_pass g st)) = fst st \<Longrightarrow> n \<in> set (cd_nodes g) \<Longrightarrow> closed_at g (fst st) n"
proof -
  let ?f = "\<lambda>(changed, st) n. case processNode g n st of (c, st') \<Rightarrow> (changed \<or> c, st')"
  have post: "step_post g s (?f s n)" if "n \<in> set (cd_nodes g)" "sym_ok g (fst (snd s))" for s n
    using processNode_post(1) [OF wf that(2,1), of "snd (snd s)"]
    by (auto simp: step_post_def split: prod.splits)
  have F: "step_post g (False, st) (foldl ?f (False, st) (cd_nodes g))"
    "fst (snd (foldl ?f (False, st) (cd_nodes g))) = fst st \<longrightarrow>
      (\<forall>n \<in> set (cd_nodes g). \<exists>t. fst (snd t) = fst st \<and> fst (snd (?f t n)) = fst st)"
    using foldl_step_post [of "cd_nodes g" g ?f "(False, st)"] post ok by auto
  show "step_post g (False, st) (rg_pass g st)" using F(1) by (simp add: rg_pass_def)
  show "closed_at g (fst st) n" if "fst (snd (rg_pass g st)) = fst st" "n \<in> set (cd_nodes g)"
  proof -
    have "\<exists>t. fst (snd t) = fst st \<and> fst (snd (?f t n)) = fst st"
      using F(2) that unfolding rg_pass_def by blast
    then obtain t where t: "fst (snd t) = fst st" "fst (snd (?f t n)) = fst st" by blast
    have "fst (snd (processNode g n (fst st, snd (snd t)))) = fst st"
      using t by (cases t) (auto split: prod.splits)
    then show ?thesis by (rule processNode_post(2) [OF wf ok that(2)])
  qed
qed

definition sym_count :: "CDGraph \<Rightarrow> symbols \<Rightarrow> nat" where
  "sym_count g S = card {(n, x) \<in> set (cd_nodes g) \<times> (set (cd_nodes g) \<times> set (cd_nodes g)). x \<in> S n (fst x)}"

lemma sym_count_less:
  assumes wf: "cdg_wf g" and "sym_ok g T" and "sym_le S T" and "T \<noteq> S"
  shows "sym_count g S < sym_count g T" and "sym_count g T \<le> cd_size g * (cd_size g * cd_size g)"
proof -
  let ?U = "set (cd_nodes g) \<times> (set (cd_nodes g) \<times> set (cd_nodes g))"
  let ?A = "\<lambda>S. {(n, x) \<in> ?U. x \<in> S n (fst x)}"
  obtain n p x where x: "x \<in> T n p" "x \<notin> S n p"
    using assms(3,4) sym_le_antisym unfolding sym_le_def by blast
  note D = sym_okD [OF assms(2) x(1)]
  have "(n, x) \<in> ?A T" "(n, x) \<notin> ?A S"
    using x D cdg_wfD(4,5) [OF wf D(2)] by (cases x; auto simp del: cd_nodes_iff)+
  moreover have "?A S \<subseteq> ?A T" using assms(3) unfolding sym_le_def by blast
  ultimately have "?A S \<subset> ?A T" by blast
  then show "sym_count g S < sym_count g T"
    unfolding sym_count_def by (rule psubset_card_mono [rotated]) (auto intro: finite_subset [of _ ?U])
  have "card (?A T) \<le> card ?U" by (rule card_mono) auto
  then show "sym_count g T \<le> cd_size g * (cd_size g * cd_size g)"
    unfolding sym_count_def card_cartesian_product card_cd_nodes .
qed

lemma rg_fixpoint_ok:
  assumes wf: "cdg_wf g" and "sym_ok g (fst st)"
  shows "\<exists>st'. rg_fixpoint g st = Some st' \<and> sym_ok g (fst st') \<and>
    (\<forall>n \<in> set (cd_nodes g). closed_at g (fst st') n)"
  using assms(2)
proof (induction "cd_size g * (cd_size g * cd_size g) - sym_count g (fst st)" arbitrary: st rule: less_induct)
  case less
  obtain c st' where P: "rg_pass g st = (c, st')" by (cases "rg_pass g st")
  note post = rg_pass_post [OF wf less.prems, unfolded P]
  have S: "sym_ok g (fst st')" "sym_le (fst st) (fst st')" "c = (fst st' \<noteq> fst st)"
    using post(1) by (auto simp: step_post_def split: prod.splits)
  show ?case
  proof (cases c)
    case True
    then have "sym_count g (fst st) < sym_count g (fst st')" "sym_count g (fst st') \<le> cd_size g * (cd_size g * cd_size g)"
      using sym_count_less [OF wf S(1,2)] S(3) by auto
    then obtain u where "rg_fixpoint g st' = Some u" "sym_ok g (fst u)"
      "\<forall>n \<in> set (cd_nodes g). closed_at g (fst u) n"
      using less.hyps [OF _ S(1)] by fastforce
    moreover have "rg_fixpoint g st = rg_fixpoint g st'" using P True by (subst rg_fixpoint.simps) simp
    ultimately show ?thesis by auto
  next
    case False
    then have "rg_fixpoint g st = Some st'" using P by (subst rg_fixpoint.simps) simp
    then show ?thesis using False S post(2) by simp
  qed
qed

lemma closed_inevitable:
  assumes wf: "cdg_wf g" and ok: "sym_ok g S" and cl: "\<forall>n \<in> set (cd_nodes g). closed_at g S n"
    and t: "t \<in> set (cd_nodes g)" and "x \<in> inevitable g {t}"
  shows "S x p \<subseteq> S t p"
  using assms(5)
proof (induction arbitrary: p)
  case (all_succs x)
  have "x \<in> inevitable g {t}" using all_succs(1,2) by (auto intro: inevitable.all_succs)
  then have xn: "x \<in> set (cd_nodes g)" by (rule inevitable_node [OF wf _ t])
  show ?case
  proof (cases "p \<in> cd_predicates g")
    case False
    then show ?thesis using sym_okD(3) [OF ok] by blast
  next
    case p: True
    show ?thesis
    proof (cases "length (cd_succs g x) > 1")
      case False
      with all_succs(1) obtain s where s: "cd_succs g x = [s]" by (cases "cd_succs g x") auto
      have "S x p \<subseteq> S s p" using cl xn s p by (cases "s = x") (auto simp: closed_at_def moved_def)
      then show ?thesis using all_succs(2) s by auto
    next
      case True
      then have xp: "x \<in> cd_predicates g" using cdg_wfD(6) [OF wf] by simp
      have pair: "(x, y) \<in> S t x" if "y \<in> set (cd_succs g x)" for y
        using all_succs(2) that ok xp unfolding sym_ok_def by blast
      have "S t x \<subseteq> Pair x ` set (cd_succs g x)"
        using sym_okD(1,2) [OF ok, of _ t x] by (metis image_eqI prod.collapse subsetI)
      then have eq: "S t x = Pair x ` set (cd_succs g x)" using pair by blast
      then have "card (S t x) = length (cd_succs g x)"
        using cdg_wfD(1) [OF wf, of x] by (simp add: card_image inj_on_def distinct_card)
      then have mv: "moved g {x} S x t" using cl xn True t by (simp add: closed_at_def)
      show ?thesis
      proof (cases "p = x")
        case False
        then show ?thesis using mv p by (simp add: moved_def)
      next
        case True
        have "S x x \<subseteq> Pair x ` set (cd_succs g x)"
          using sym_okD(1,2) [OF ok, of _ x x] by (metis image_eqI prod.collapse subsetI)
        then show ?thesis using True eq by simp
      qed
    qed
  qed
qed simp

lemma closed_symbols:
  assumes wf: "cdg_wf g" and ok: "sym_ok g S" and cl: "\<forall>n \<in> set (cd_nodes g). closed_at g S n"
    and t: "t \<in> set (cd_nodes g)" and p: "p \<in> cd_predicates g"
  shows "S t p = Pair p ` {m \<in> set (cd_succs g p). m \<in> inevitable g {t}}"
proof
  show "S t p \<subseteq> Pair p ` {m \<in> set (cd_succs g p). m \<in> inevitable g {t}}"
  proof
    fix x assume "x \<in> S t p"
    from sym_okD [OF ok this] show "x \<in> Pair p ` {m \<in> set (cd_succs g p). m \<in> inevitable g {t}}"
      by (cases x) auto
  qed
  show "Pair p ` {m \<in> set (cd_succs g p). m \<in> inevitable g {t}} \<subseteq> S t p"
    using closed_inevitable [OF wf ok cl t] ok p unfolding sym_ok_def by blast
qed

lemma card_subset_less: "finite B \<Longrightarrow> A \<subseteq> B \<Longrightarrow> (card A < card B) = (A \<noteq> B)"
  by (metis card_subset_eq nless_le psubset_card_mono psubset_eq)

lemma rg_init_ok:
  assumes wf: "cdg_wf g" and it: "set (iter (cd_predicates g)) = cd_predicates g"
  shows "sym_ok g (fst (rg_init iter g))"
proof -
  let ?in = "\<lambda>p st n. case st of (S, bag) \<Rightarrow>
      (S(n := (S n)(p := insert (p, n) (S n p))), sq_push fifo_push bag n)"
  have inner: "fst (foldl (?in p) st ns) n q = fst st n q \<union> (if q = p \<and> n \<in> set ns then {(p, n)} else {})"
    for p st ns n q
    by (induction ns arbitrary: st) (auto split: prod.splits)
  have outer: "fst (foldl (\<lambda>st p. foldl (?in p) st (cd_succs g p)) st ps) n q =
      fst st n q \<union> (if q \<in> set ps \<and> n \<in> set (cd_succs g q) then {(q, n)} else {})" for st ps n q
    by (induction ps arbitrary: st) (auto simp: inner)
  have eq: "fst (rg_init iter g) n q =
      (if q \<in> cd_predicates g \<and> n \<in> set (cd_succs g q) then {(q, n)} else {})" for n q
    using outer [of "(\<lambda>_ _. {}, ({}, []))" "iter (cd_predicates g)" n q] it
    by (simp add: rg_init_def case_prod_beta' cong: if_cong)
  show ?thesis
    unfolding sym_ok_def eq using cdg_wfD(5) [OF wf]
    by (auto simp: inevitable_target simp del: cd_nodes_iff split: if_splits)
qed

lemma ranganath_fixpoint_ok:
  assumes "cdg_wf g" and "valid_iter iter"
  shows "\<exists>CD revCD. ranganath_compute iter g True = Some (CD, revCD) \<and>
    (\<forall>n \<in> set (cd_nodes g). CD n = ntscd g n) \<and>
    (\<forall>p. revCD p = {n \<in> set (cd_nodes g). p \<in> ntscd g n})"
proof -
  have "cd_predicates g \<subseteq> set (cd_nodes g)"
  proof
    fix p assume "p \<in> cd_predicates g"
    then have "length (cd_succs g p) > 1" using cdg_wfD(6) [OF assms(1)] by simp
    then obtain s where "s \<in> set (cd_succs g p)" by (cases "cd_succs g p") auto
    then show "p \<in> set (cd_nodes g)" by (rule cdg_wfD(4) [OF assms(1)])
  qed
  then have "finite (cd_predicates g)" by (rule finite_subset) simp
  then have it: "set (iter (cd_predicates g)) = cd_predicates g"
    using assms(2) by (simp add: valid_iter_def)
  obtain st where F: "rg_fixpoint g (rg_init iter g) = Some st" "sym_ok g (fst st)"
    "\<forall>n \<in> set (cd_nodes g). closed_at g (fst st) n"
    using rg_fixpoint_ok [OF assms(1) rg_init_ok [of g iter, OF assms(1) it]] by blast
  let ?dep = "\<lambda>n p. 0 < card (fst st n p) \<and> card (fst st n p) < length (cd_succs g p)"
  have dep: "?dep n p \<longleftrightarrow> p \<in> ntscd g n" if n: "n \<in> set (cd_nodes g)" and p: "p \<in> cd_predicates g" for n p
  proof -
    let ?M = "{m \<in> set (cd_succs g p). m \<in> inevitable g {n}}"
    have c: "card (fst st n p) = card ?M"
      unfolding closed_symbols [OF assms(1) F(2,3) n p] by (rule card_image) (simp add: inj_on_def)
    have l: "length (cd_succs g p) = card (set (cd_succs g p))"
      using cdg_wfD(1) [OF assms(1), of p] by (simp add: distinct_card)
    have "card ?M < card (set (cd_succs g p)) \<longleftrightarrow> ?M \<noteq> set (cd_succs g p)"
      using card_subset_less [of "set (cd_succs g p)" ?M] by auto
    moreover have "0 < card ?M \<longleftrightarrow> ?M \<noteq> {}" by (simp add: card_gt_0_iff)
    ultimately have "?dep n p \<longleftrightarrow> ?M \<noteq> {} \<and> ?M \<noteq> set (cd_succs g p)" unfolding c l by simp
    also have "\<dots> \<longleftrightarrow> p \<in> ntscd g n"
      using p cdg_wfD(6) [OF assms(1)] by (auto simp: ntscd_def inevitable_iff)
    finally show ?thesis .
  qed
  have pred: "p \<in> cd_predicates g" if "p \<in> ntscd g n" for n p
    using that cdg_wfD(6) [OF assms(1)] by (simp add: ntscd_def)
  have "ranganath_compute iter g True = Some (rg_result g (fst st))"
    using F(1) by (simp add: ranganath_compute_def)
  moreover have "fst (rg_result g (fst st)) n = ntscd g n" if "n \<in> set (cd_nodes g)" for n
  proof -
    have "fst (rg_result g (fst st)) n = {p \<in> cd_predicates g. ?dep n p}"
      using that by (simp add: rg_result_def Let_def del: cd_nodes_iff)
    then show ?thesis using dep [OF that] pred by blast
  qed
  moreover have "snd (rg_result g (fst st)) p = {n \<in> set (cd_nodes g). p \<in> ntscd g n}" for p
  proof -
    have eq: "snd (rg_result g (fst st)) p =
        (if p \<in> cd_predicates g then {n \<in> set (cd_nodes g). ?dep n p} else {})"
      by (simp add: rg_result_def Let_def del: cd_nodes_iff)
    show ?thesis
    proof (cases "p \<in> cd_predicates g")
      case True
      have "{n \<in> set (cd_nodes g). ?dep n p} = {n \<in> set (cd_nodes g). p \<in> ntscd g n}"
        using dep [OF _ True] by blast
      then show ?thesis unfolding eq using True by (simp only: if_True)
    next
      case False
      then show ?thesis unfolding eq using pred by auto
    qed
  qed
  ultimately show ?thesis by (cases "rg_result g (fst st)") simp
qed

text \<open>C8: with the fixpoint switched on, the algorithm of Ranganath et al. terminates on every
  well-formed graph and its result is exact: both maps are those of the non-termination
  sensitive control dependence.\<close>

theorem ranganath_fixpoint_correct:
  assumes "cdg_wf g" and "valid_iter iter"
  shows "\<exists>CD revCD. ranganath_compute iter g True = Some (CD, revCD) \<and>
    (\<forall>n \<in> set (cd_nodes g). CD n = ntscd g n) \<and>
    (\<forall>p. revCD p = {n \<in> set (cd_nodes g). p \<in> ntscd g n})"
  using assms by (rule ranganath_fixpoint_ok)

text \<open>C9: the two exact algorithms agree. For any iteration orders of their sets \<open>NTSCD2\<close> and the fixpoint
  version of Ranganath et al. give every node the same dependences and the same reverse map.\<close>

theorem ntscd2_ranganath_equivalent:
  assumes "cdg_wf g" and "valid_iter iter" and "valid_iter iter'"
  shows "\<exists>CD CD' revCD. ntscd2_compute iter g = Some (CD, revCD) \<and>
    ranganath_compute iter' g True = Some (CD', revCD) \<and> (\<forall>n \<in> set (cd_nodes g). CD n = CD' n)"
proof -
  obtain CD' revCD where r: "ranganath_compute iter' g True = Some (CD', revCD)"
    "\<forall>n \<in> set (cd_nodes g). CD' n = ntscd g n" "\<forall>p. revCD p = {n \<in> set (cd_nodes g). p \<in> ntscd g n}"
    using ranganath_fixpoint_ok [OF assms(1,3)] by blast
  from r(3) have "revCD = (\<lambda>p. {n \<in> set (cd_nodes g). p \<in> ntscd g n})" by (simp add: fun_eq_iff del: cd_nodes_iff)
  then show ?thesis using r(1,2) ntscd2_compute_ok [OF assms(1,2)] by (auto simp del: cd_nodes_iff)
qed

theorem ranganath_fixpoint_correct_witness:
  "\<exists>CD revCD. ranganath_compute sorted_list_of_set loop_graph True = Some (CD, revCD) \<and>
     CD 1 = ntscd loop_graph 1"
  using ranganath_fixpoint_correct [OF loop_graph_wf, of sorted_list_of_set]
  by (fastforce simp: valid_iter_def)

theorem ntscd2_ranganath_equivalent_witness:
  "\<exists>CD CD' revCD. ntscd2_compute sorted_list_of_set loop_graph = Some (CD, revCD) \<and>
     ranganath_compute (\<lambda>X. rev (sorted_list_of_set X)) loop_graph True = Some (CD', revCD) \<and> CD 4 = CD' 4"
  using ntscd2_ranganath_equivalent [OF loop_graph_wf, of sorted_list_of_set "\<lambda>X. rev (sorted_list_of_set X)"]
  by (fastforce simp: valid_iter_def)

end
