(* ===== verification/Control_Closure.thy ===== *)
theory Control_Closure
  imports Ntscd
begin

text \<open>
  \<^verbatim>\<open>lib/ControlDependence/ControlClosure.h\<close>: the class \<open>StrongControlClosure\<close>. The call-back of
  \<open>foreachFirstReachable\<close> is modelled by the list of the nodes it is called with; \<open>gamma\<close> runs
  the loop of \<open>NTSCD\<close> from several targets; \<open>iter\<close> is the order in which a set of pointers is
  iterated.
\<close>

section \<open>The functions of the class\<close>

partial_function (option) first_loop ::
  "CDGraph \<Rightarrow> node set \<Rightarrow> (node, node QueueLIFO) SetQueue \<Rightarrow> node list option" where
  "first_loop g X Q =
     (case sq_pop lifo_pop Q of
        None \<Rightarrow> Some []
      | Some (cur, Q') \<Rightarrow>
          (if cur \<in> X then Option.bind (first_loop g X Q') (\<lambda>xs. Some (cur # xs))
           else first_loop g X (foldl (sq_push lifo_push) Q' (cd_succs g cur))))"

definition foreachFirstReachable :: "CDGraph \<Rightarrow> node set \<Rightarrow> node \<Rightarrow> node list option" where
  "foreachFirstReachable g X from = first_loop g X (foldl (sq_push lifo_push) ({}, []) (cd_succs g from))"

definition gamma :: "(node set \<Rightarrow> node list) \<Rightarrow> CDGraph \<Rightarrow> node set \<Rightarrow> node set option" where
  "gamma iter g targets =
     map_option (\<lambda>d. Set.filter (\<lambda>n. n \<notin> colored d) (set (cd_nodes g)))
       (ntscd_loop g
          \<lparr>colored = set (iter targets), counter = (\<lambda>n. of_nat (length (cd_succs g n)))\<rparr>
          (foldl lifo_push [] (iter targets)))"

definition theta :: "CDGraph \<Rightarrow> node set \<Rightarrow> node \<Rightarrow> node set option" where
  "theta g X n = (if n \<in> X then Some {n} else map_option set (foreachFirstReachable g X n))"

fun edge_to_add ::
  "(node set \<Rightarrow> node list) \<Rightarrow> CDGraph \<Rightarrow> node set \<Rightarrow> node \<Rightarrow> node list \<Rightarrow> bool option" where
  "edge_to_add iter g X p [] = Some False"
| "edge_to_add iter g X p (r # rs) =
     Option.bind (theta g X r) (\<lambda>th.
       if card th \<noteq> 1 then edge_to_add iter g X p rs
       else Option.bind (gamma iter g X) (\<lambda>gam.
         if r \<in> gam then edge_to_add iter g X p rs
         else Option.bind (theta g X p) (\<lambda>tp.
           if card tp < 2 \<and> p \<notin> gam then edge_to_add iter g X p rs else Some True)))"

partial_function (option) close_search ::
  "(node set \<Rightarrow> node list) \<Rightarrow> CDGraph \<Rightarrow> node set \<Rightarrow> (node, node QueueLIFO) SetQueue \<Rightarrow> node option option"
where
  "close_search iter g X Q =
     (case sq_pop lifo_pop Q of
        None \<Rightarrow> Some None
      | Some (p, Q') \<Rightarrow>
          Option.bind (edge_to_add iter g X p (cd_succs g p)) (\<lambda>found.
            if found then Some (Some p)
            else close_search iter g X (foldl (sq_push lifo_push) Q' (cd_succs g p))))"

definition close_start :: "(node set \<Rightarrow> node list) \<Rightarrow> CDGraph \<Rightarrow> node set \<Rightarrow> (node, node QueueLIFO) SetQueue" where
  "close_start iter g X =
     foldl (\<lambda>Q n. foldl (sq_push lifo_push) Q (cd_succs g n)) ({}, []) (iter X)"

partial_function (option) closeSet ::
  "(node set \<Rightarrow> node list) \<Rightarrow> CDGraph \<Rightarrow> node set \<Rightarrow> node set option" where
  "closeSet iter g X =
     Option.bind (close_search iter g X (close_start iter g X)) (\<lambda>toadd.
       case toadd of Some p \<Rightarrow> closeSet iter g (insert p X) | None \<Rightarrow> Some X)"

definition getClosure :: "(node set \<Rightarrow> node list) \<Rightarrow> CDGraph \<Rightarrow> node set \<Rightarrow> node list option" where
  "getClosure iter g nodes = map_option iter (closeSet iter g nodes)"

declare first_loop.simps [code] close_search.simps [code] closeSet.simps [code]

section \<open>Search with a set queue\<close>

text \<open>The nodes reachable from \<open>start\<close> by edges that do not leave a node of \<open>stop\<close>.\<close>

inductive_set reach :: "CDGraph \<Rightarrow> node set \<Rightarrow> node set \<Rightarrow> node set"
  for g :: CDGraph and stop start :: "node set" where
  start: "s \<in> start \<Longrightarrow> s \<in> reach g stop start"
| edge: "n \<in> reach g stop start \<Longrightarrow> n \<notin> stop \<Longrightarrow> s \<in> set (cd_succs g n) \<Longrightarrow> s \<in> reach g stop start"

lemma reach_nodes:
  assumes "cdg_wf g" and "start \<subseteq> set (cd_nodes g)" and "n \<in> reach g stop start"
  shows "n \<in> set (cd_nodes g)"
  using assms(3) by cases (use assms(2) cdg_wfD(5) [OF assms(1)] in blast)+

definition search_inv :: "CDGraph \<Rightarrow> node set \<Rightarrow> node set \<Rightarrow> (node, node QueueLIFO) SetQueue \<Rightarrow> bool" where
  "search_inv g stop start Q =
     (lifo.once Q \<and> start \<subseteq> fst Q \<and> fst Q \<subseteq> reach g stop start \<and>
      (\<forall>n \<in> fst Q - set (snd Q). n \<notin> stop \<longrightarrow> set (cd_succs g n) \<subseteq> fst Q))"

definition search_measure :: "CDGraph \<Rightarrow> (node, node QueueLIFO) SetQueue \<Rightarrow> nat" where
  "search_measure g Q = 2 * card (set (cd_nodes g) - fst Q) + card (set (snd Q))"

lemma search_start:
  "search_inv g stop (set xs) (foldl (sq_push lifo_push) ({}, []) xs)"
  using lifo.once_pushes [OF lifo.once_new, of xs]
  by (auto simp: search_inv_def intro: reach.start)

lemma search_step:
  assumes inv: "search_inv g stop start Q" and pop: "sq_pop lifo_pop Q = Some (n, Q')"
    and nodes: "start \<subseteq> set (cd_nodes g)" and wf: "cdg_wf g"
  shows "n \<in> reach g stop start" and "n \<in> set (snd Q)"
    and "n \<in> stop \<Longrightarrow> search_inv g stop start Q'"
    and "search_measure g Q' < search_measure g Q"
    and "n \<notin> stop \<Longrightarrow> search_inv g stop start (foldl (sq_push lifo_push) Q' (cd_succs g n))"
    and "search_measure g (foldl (sq_push lifo_push) Q' (cd_succs g n)) < search_measure g Q"
proof -
  have once: "lifo.once Q" using inv by (simp add: search_inv_def)
  note P = lifo.once_pop [OF once pop]
  note F = lifo.once_pushes [OF P(1), of "cd_succs g n"]
  have sub: "set (snd Q) \<subseteq> fst Q" using once by (simp add: lifo.once_def)
  have inQ: "n \<in> fst Q" using P(2,5) by simp
  show r: "n \<in> reach g stop start" using inv inQ by (auto simp: search_inv_def)
  show "n \<in> set (snd Q)" using P(3) by simp
  show "search_inv g stop start Q'" if "n \<in> stop"
    using inv that P(1-4) by (auto simp: search_inv_def)
  have "card (set (snd Q)) = Suc (card (set (snd Q')))" using P(3,4) by simp
  then show "search_measure g Q' < search_measure g Q" by (simp add: search_measure_def P(2))
  show "search_inv g stop start (foldl (sq_push lifo_push) Q' (cd_succs g n))" if "n \<notin> stop"
    unfolding search_inv_def
  proof (intro conjI ballI impI)
    let ?Q = "foldl (sq_push lifo_push) Q' (cd_succs g n)"
    show "lifo.once ?Q" by (rule F(1))
    show "start \<subseteq> fst ?Q" using inv P(2) F(2) by (auto simp: search_inv_def)
    show "fst ?Q \<subseteq> reach g stop start"
      using inv P(2) F(2) reach.edge [OF r that] by (auto simp: search_inv_def)
    show "set (cd_succs g m) \<subseteq> fst ?Q" if "m \<in> fst ?Q - set (snd ?Q)" "m \<notin> stop" for m
    proof (cases "m = n")
      case True
      then show ?thesis using F(2) by simp
    next
      case False
      then have "m \<in> fst Q - set (snd Q)" using that(1) F(2,3) P(2,3) by auto
      then show ?thesis using inv that(2) F(2) P(2) by (auto simp: search_inv_def)
    qed
  qed
  let ?new = "set (cd_succs g n) - fst Q"
  have new: "?new \<subseteq> set (cd_nodes g)" using cdg_wfD(5) [OF wf] by blast
  have c1: "card (set (cd_nodes g) - (fst Q \<union> set (cd_succs g n))) + card ?new = card (set (cd_nodes g) - fst Q)"
  proof -
    have "set (cd_nodes g) - fst Q = (set (cd_nodes g) - (fst Q \<union> set (cd_succs g n))) \<union> ?new" using new by blast
    moreover have "card ((set (cd_nodes g) - (fst Q \<union> set (cd_succs g n))) \<union> ?new) =
      card (set (cd_nodes g) - (fst Q \<union> set (cd_succs g n))) + card ?new"
      by (rule card_Un_disjoint) auto
    ultimately show ?thesis by simp
  qed
  have "card (set (snd Q') \<union> ?new) \<le> card (set (snd Q')) + card ?new" by (rule card_Un_le)
  then show "search_measure g (foldl (sq_push lifo_push) Q' (cd_succs g n)) < search_measure g Q"
    using c1 \<open>card (set (snd Q)) = Suc (card (set (snd Q')))\<close>
    unfolding search_measure_def F(2,3) P(2) by linarith
qed

lemma search_end:
  assumes "search_inv g stop start Q" and "sq_pop lifo_pop Q = None"
  shows "fst Q = reach g stop start"
proof
  have e: "set (snd Q) = {}"
    using assms lifo.sq_pop_None [of Q] by (simp add: search_inv_def)
  show "fst Q \<subseteq> reach g stop start" using assms(1) by (simp add: search_inv_def)
  show "reach g stop start \<subseteq> fst Q"
  proof
    fix n assume "n \<in> reach g stop start"
    then show "n \<in> fst Q"
      by induction (use assms(1) e in \<open>auto simp: search_inv_def\<close>)
  qed
qed

section \<open>First reachable nodes\<close>

definition first_reachable :: "CDGraph \<Rightarrow> node set \<Rightarrow> node \<Rightarrow> node set" where
  "first_reachable g X n = reach g X (set (cd_succs g n)) \<inter> X"

lemma first_loop_ok:
  assumes wf: "cdg_wf g" and st: "start \<subseteq> set (cd_nodes g)" and "search_inv g X start Q"
  shows "\<exists>xs. first_loop g X Q = Some xs \<and> distinct xs \<and>
    set xs = (reach g X start \<inter> X) - (fst Q - set (snd Q))"
  using assms(3)
proof (induction "search_measure g Q" arbitrary: Q rule: less_induct)
  case less
  show ?case
  proof (cases "sq_pop lifo_pop Q")
    case None
    have "set (snd Q) = {}" using less.prems None lifo.sq_pop_None [of Q] by (simp add: search_inv_def)
    moreover have "first_loop g X Q = Some []" using None by (subst first_loop.simps) simp
    ultimately show ?thesis using search_end [OF less.prems None] by auto
  next
    case (Some r)
    obtain n Q' where r: "r = (n, Q')" by (cases r)
    note pop = Some [unfolded r]
    have once: "lifo.once Q" using less.prems by (simp add: search_inv_def)
    note P = lifo.once_pop [OF once pop] and S = search_step [OF less.prems pop st wf]
    show ?thesis
    proof (cases "n \<in> X")
      case True
      obtain xs where xs: "first_loop g X Q' = Some xs" "distinct xs"
        "set xs = (reach g X start \<inter> X) - (fst Q' - set (snd Q'))"
        using less.hyps [OF S(4) S(3) [OF True]] by blast
      have "first_loop g X Q = Some (n # xs)" using pop True xs(1) by (subst first_loop.simps) simp
      moreover have "n \<notin> set xs" using xs(3) P by auto
      moreover have "set (n # xs) = (reach g X start \<inter> X) - (fst Q - set (snd Q))"
        using xs(3) P(2-5) S(1) True by auto
      ultimately show ?thesis using xs(2) by auto
    next
      case False
      let ?Q = "foldl (sq_push lifo_push) Q' (cd_succs g n)"
      obtain xs where xs: "first_loop g X ?Q = Some xs" "distinct xs"
        "set xs = (reach g X start \<inter> X) - (fst ?Q - set (snd ?Q))"
        using less.hyps [OF S(6) S(5) [OF False]] by blast
      have "first_loop g X Q = Some xs" using pop False xs(1) by (subst first_loop.simps) simp
      moreover have "fst ?Q - set (snd ?Q) = insert n (fst Q - set (snd Q))"
        using lifo.once_pushes(2,3) [OF P(1), of "cd_succs g n"] P(2-5) by auto
      ultimately show ?thesis using xs(2,3) False by auto
    qed
  qed
qed

lemma succs_nodes: "cdg_wf g \<Longrightarrow> set (cd_succs g n) \<subseteq> set (cd_nodes g)"
  using cdg_wfD(5) by blast

lemma first_reachable_ok:
  assumes "cdg_wf g"
  shows "\<exists>xs. foreachFirstReachable g X n = Some xs \<and> distinct xs \<and> set xs = first_reachable g X n"
proof -
  let ?Q = "foldl (sq_push lifo_push) ({}, []) (cd_succs g n)"
  have "fst ?Q - set (snd ?Q) = {}"
    using lifo.once_pushes(2,3) [OF lifo.once_new, of "cd_succs g n"] by simp
  with first_loop_ok [OF assms succs_nodes [OF assms] search_start, of X n] show ?thesis
    unfolding foreachFirstReachable_def first_reachable_def by (metis Diff_empty)
qed

definition theta_set :: "CDGraph \<Rightarrow> node set \<Rightarrow> node \<Rightarrow> node set" where
  "theta_set g X n = (if n \<in> X then {n} else first_reachable g X n)"

lemma theta_ok: "cdg_wf g \<Longrightarrow> theta g X n = Some (theta_set g X n)"
  using first_reachable_ok [of g X n] by (auto simp: theta_def theta_set_def)

section \<open>Uncoloured nodes\<close>

lemma set_foldl_lifo_push: "foldl lifo_push q xs = rev xs @ q"
  by (induction xs arbitrary: q) (simp_all add: lifo_push_def)

lemma gamma_ok:
  assumes wf: "cdg_wf g" and deg: "\<And>n. length (cd_succs g n) < 65535"
    and it: "valid_iter iter" and X: "X \<subseteq> set (cd_nodes g)"
  shows "\<exists>G. gamma iter g X = Some G \<and> G \<subseteq> set (cd_nodes g) \<and> G \<inter> inevitable g X = {}"
proof -
  let ?d = "\<lparr>colored = set (iter X), counter = (\<lambda>n. of_nat (length (cd_succs g n)))\<rparr>"
  have fin: "finite X" using X by (rule finite_subset) simp
  then have iX: "set (iter X) = X" "distinct (iter X)" using it by (simp_all add: valid_iter_def)
  have "ntscd_inv g X ?d (foldl lifo_push [] (iter X)) (\<lambda>_. 0)"
    unfolding ntscd_inv_def set_foldl_lifo_push using iX
    by (auto simp: pushes_def popped_succs_def count_list_distinct inevitable_target)
  from ntscd_loop_ok [OF wf deg X this] obtain d p where
    L: "ntscd_loop g ?d (foldl lifo_push [] (iter X)) = Some d" "ntscd_inv g X d [] p" by blast
  have "n \<in> colored d" if "n \<in> inevitable g X" "n \<in> set (cd_nodes g)" for n
    using ntscd_invD(3) [OF L(2) that(2)] ntscd_inv_final [OF wf L(2) that(1)] by simp
  with L(1) show ?thesis by (auto simp: gamma_def)
qed

section \<open>The closure\<close>

definition addable :: "(node set \<Rightarrow> node list) \<Rightarrow> CDGraph \<Rightarrow> node set \<Rightarrow> node \<Rightarrow> node \<Rightarrow> bool" where
  "addable iter g X p r =
     (card (theta_set g X r) = 1 \<and> (\<exists>G. gamma iter g X = Some G \<and> r \<notin> G \<and> (2 \<le> card (theta_set g X p) \<or> p \<in> G)))"

lemma edge_to_add_ok:
  assumes wf: "cdg_wf g" and G: "gamma iter g X = Some G"
  shows "edge_to_add iter g X p rs = Some (\<exists>r \<in> set rs. addable iter g X p r)"
  by (induction rs) (auto simp: theta_ok [OF wf] G addable_def not_less)

lemma close_search_ok:
  assumes wf: "cdg_wf g" and G: "gamma iter g X = Some G"
    and st: "start \<subseteq> set (cd_nodes g)" and "search_inv g {} start Q"
    and "\<forall>p \<in> fst Q - set (snd Q). \<forall>r \<in> set (cd_succs g p). \<not> addable iter g X p r"
  shows "\<exists>res. close_search iter g X Q = Some res \<and>
    (case res of
       Some p \<Rightarrow> p \<in> reach g {} start \<and> (\<exists>r \<in> set (cd_succs g p). addable iter g X p r)
     | None \<Rightarrow> \<forall>p \<in> reach g {} start. \<forall>r \<in> set (cd_succs g p). \<not> addable iter g X p r)"
  using assms(4,5)
proof (induction "search_measure g Q" arbitrary: Q rule: less_induct)
  case less
  show ?case
  proof (cases "sq_pop lifo_pop Q")
    case None
    have "set (snd Q) = {}" using less.prems None lifo.sq_pop_None [of Q] by (simp add: search_inv_def)
    moreover have "close_search iter g X Q = Some None" using None by (subst close_search.simps) simp
    ultimately show ?thesis using search_end [OF less.prems(1) None] less.prems(2) by simp
  next
    case (Some r)
    obtain n Q' where r: "r = (n, Q')" by (cases r)
    note pop = Some [unfolded r]
    have once: "lifo.once Q" using less.prems by (simp add: search_inv_def)
    note P = lifo.once_pop [OF once pop] and S = search_step [OF less.prems(1) pop st wf]
    show ?thesis
    proof (cases "\<exists>r \<in> set (cd_succs g n). addable iter g X n r")
      case True
      then have "close_search iter g X Q = Some (Some n)"
        using pop by (subst close_search.simps) (simp add: edge_to_add_ok [OF wf G])
      then show ?thesis using S(1) True by simp
    next
      case False
      let ?Q = "foldl (sq_push lifo_push) Q' (cd_succs g n)"
      have "fst ?Q - set (snd ?Q) = insert n (fst Q - set (snd Q))"
        using lifo.once_pushes(2,3) [OF P(1), of "cd_succs g n"] P(2-5) by auto
      then have nx: "\<forall>p \<in> fst ?Q - set (snd ?Q). \<forall>r \<in> set (cd_succs g p). \<not> addable iter g X p r"
        using less.prems(2) False by simp
      have "close_search iter g X Q = close_search iter g X ?Q"
        using pop False by (subst close_search.simps) (simp add: edge_to_add_ok [OF wf G])
      then show ?thesis using less.hyps [OF S(6) S(5) nx] by simp
    qed
  qed
qed

lemma close_start_eq:
  "close_start iter g X = foldl (sq_push lifo_push) ({}, []) (concat (map (cd_succs g) (iter X)))"
proof -
  have "foldl (\<lambda>Q n. foldl (sq_push lifo_push) Q (cd_succs g n)) Q ns =
      foldl (sq_push lifo_push) Q (concat (map (cd_succs g) ns))" for Q ns
    by (induction ns arbitrary: Q) simp_all
  then show ?thesis by (simp add: close_start_def)
qed

definition succs_of :: "CDGraph \<Rightarrow> node set \<Rightarrow> node set" where
  "succs_of g X = (\<Union>n \<in> X. set (cd_succs g n))"

lemma closeSet_ok:
  assumes wf: "cdg_wf g" and deg: "\<And>n. length (cd_succs g n) < 65535"
    and it: "valid_iter iter" and "X \<subseteq> set (cd_nodes g)"
  shows "\<exists>Y. closeSet iter g X = Some Y \<and> X \<subseteq> Y \<and> Y \<subseteq> set (cd_nodes g) \<and>
    (\<forall>p \<in> reach g {} (succs_of g Y). \<forall>r \<in> set (cd_succs g p). \<not> addable iter g Y p r)"
  using assms(4)
proof (induction "card (set (cd_nodes g) - X)" arbitrary: X rule: less_induct)
  case less
  obtain G where G: "gamma iter g X = Some G" "G \<inter> inevitable g X = {}"
    using gamma_ok [OF wf deg it less.prems] by blast
  let ?xs = "concat (map (cd_succs g) (iter X))"
  let ?Q = "foldl (sq_push lifo_push) ({}, []) ?xs"
  have fin: "finite X" using less.prems by (rule finite_subset) simp
  then have xs: "set ?xs = succs_of g X" using it by (simp add: valid_iter_def succs_of_def)
  have st: "set ?xs \<subseteq> set (cd_nodes g)" unfolding xs succs_of_def using succs_nodes [OF wf] by blast
  have "fst ?Q - set (snd ?Q) = {}"
    using lifo.once_pushes(2,3) [OF lifo.once_new, of ?xs] by simp
  then have nx: "\<forall>p \<in> fst ?Q - set (snd ?Q). \<forall>r \<in> set (cd_succs g p). \<not> addable iter g X p r" by blast
  obtain res where res: "close_search iter g X ?Q = Some res"
    "case res of
       Some p \<Rightarrow> p \<in> reach g {} (set ?xs) \<and> (\<exists>r \<in> set (cd_succs g p). addable iter g X p r)
     | None \<Rightarrow> \<forall>p \<in> reach g {} (set ?xs). \<forall>r \<in> set (cd_succs g p). \<not> addable iter g X p r"
    using close_search_ok [OF wf G(1) st search_start nx] by blast
  show ?case
  proof (cases res)
    case None
    then have "closeSet iter g X = Some X"
      using res(1) by (subst closeSet.simps) (simp add: close_start_eq)
    then show ?thesis using None res(2) less.prems unfolding xs by auto
  next
    case (Some p)
    then obtain r where p: "p \<in> reach g {} (set ?xs)" "addable iter g X p r" using res(2) by auto
    have node: "p \<in> set (cd_nodes g)" by (rule reach_nodes [OF wf st p(1)])
    have "p \<notin> X"
    proof
      assume "p \<in> X"
      then have one: "card (theta_set g X p) = 1" and inv: "p \<in> inevitable g X"
        by (simp_all add: theta_set_def inevitable.target)
      obtain G' where G': "gamma iter g X = Some G'" "2 \<le> card (theta_set g X p) \<or> p \<in> G'"
        using p(2) unfolding addable_def by blast
      have "G' = G" using G'(1) G(1) by (metis option.inject)
      with G'(2) one have "p \<in> G" by (metis numeral_le_one_iff semiring_norm(69))
      then show False using G(2) inv by blast
    qed
    then have "set (cd_nodes g) - insert p X \<subset> set (cd_nodes g) - X" using node by blast
    then have lt: "card (set (cd_nodes g) - insert p X) < card (set (cd_nodes g) - X)"
      by (rule psubset_card_mono [rotated]) simp
    have "insert p X \<subseteq> set (cd_nodes g)" using node less.prems by simp
    from less.hyps [OF lt this] obtain Y where Y: "closeSet iter g (insert p X) = Some Y"
      "insert p X \<subseteq> Y" "Y \<subseteq> set (cd_nodes g)"
      "\<forall>p \<in> reach g {} (succs_of g Y). \<forall>r \<in> set (cd_succs g p). \<not> addable iter g Y p r" by blast
    have "closeSet iter g X = Some Y"
      using res(1) Some Y(1) by (subst closeSet.simps) (simp add: close_start_eq)
    then show ?thesis using Y(2-4) by blast
  qed
qed

text \<open>\<open>foreachFirstReachable\<close> terminates and calls its function exactly once for each node
  of the set that is the first one of the set on some path from \<open>from\<close>.\<close>

theorem first_reachable_correct:
  assumes "cdg_wf g"
  shows "\<exists>xs. foreachFirstReachable g X n = Some xs \<and> distinct xs \<and>
    set xs = {m \<in> X. m \<in> reach g X (set (cd_succs g n))}"
  using first_reachable_ok [OF assms, of X n] by (auto simp: first_reachable_def)

theorem first_reachable_correct_witness:
  "\<exists>xs. foreachFirstReachable loop_graph {1, 4} 5 = Some xs \<and>
     set xs = {m \<in> {1, 4}. m \<in> reach loop_graph {1, 4} {1, 3}}"
  using first_reachable_correct [OF loop_graph_wf, of "{1, 4}" 5] by auto

text \<open>C18: \<open>closeSet\<close> terminates on well-formed graphs whose nodes have fewer than \<open>2 ^ 16 - 1\<close>
  successors, keeps the given nodes, adds only nodes of the graph, and stops only when no edge
  reachable from the set meets the three conditions of the algorithm any more.\<close>

theorem closeSet_closed:
  assumes "cdg_wf g" and "\<And>n. length (cd_succs g n) < 65535"
    and "valid_iter iter" and "X \<subseteq> set (cd_nodes g)"
  shows "\<exists>Y. closeSet iter g X = Some Y \<and> X \<subseteq> Y \<and> Y \<subseteq> set (cd_nodes g) \<and>
    (\<forall>p \<in> reach g {} (succs_of g Y). \<forall>r \<in> set (cd_succs g p). \<not> addable iter g Y p r)"
  by (rule closeSet_ok [OF assms])

theorem closeSet_closed_witness:
  "\<exists>Y. closeSet sorted_list_of_set loop_graph {1, 4} = Some Y \<and> {1, 4} \<subseteq> Y"
proof -
  have "valid_iter sorted_list_of_set" by (simp add: valid_iter_def)
  moreover have "{1, 4} \<subseteq> set (cd_nodes loop_graph)" by simp
  ultimately show ?thesis using closeSet_closed [OF loop_graph_wf, of sorted_list_of_set "{1, 4}"] by fastforce
qed

end
