(* ===== verification/Runtime.thy ===== *)
theory Runtime
  imports Ordered_Map "HOL-Library.List_Lexorder" "HOL-Library.Char_ord"
begin

text \<open>
  \<^verbatim>\<open>samples/common.h\<close>: the run-time library the instrumented programs are linked with, with
  transactions and preloading switched on. Addresses and \<open>uintptr_t\<close> are 64-bit words, \<open>int\<close>
  is a 32-bit word read as signed where C converts it. A preloading function returns the list
  of the addresses it reads, in order; a loop that does not end is \<open>None\<close>. The hardware
  (\<open>_xbegin\<close>, \<open>_xtest\<close>) is a parameter: the status of each attempt.
\<close>

unbundle bit_operations_syntax

section \<open>Touching a range of memory\<close>

definition lineOffMask :: "64 word" where
  "lineOffMask = 63"

partial_function (option) touch_loop :: "64 word \<Rightarrow> 64 word \<Rightarrow> 64 word list option" where
  "touch_loop addr uend =
     (if addr < uend then Option.bind (touch_loop (addr + 64) uend) (\<lambda>as. Some (addr # as)) else Some [])"

declare touch_loop.simps [code]

definition touch_range :: "64 word \<Rightarrow> 64 word \<Rightarrow> 64 word list option" where
  "touch_range st len = touch_loop (st AND NOT lineOffMask) (st + len)"

section \<open>The state of the library\<close>

record allocInst =
  a_size :: "32 word"
  a_stack :: "64 word list"

record mallocInst =
  m_size :: "32 word"
  m_len :: "32 word"
  m_array :: "nat \<Rightarrow> 64 word"

record runtime =
  rt_start :: "64 word"
  rt_length :: "64 word"
  funcMap :: "(string, 64 word \<times> 64 word) smap"
  txAttempts :: "32 word"
  txCommitted :: "32 word"
  allocMap :: "32 word \<Rightarrow> allocInst"
  mallocMap :: "32 word \<Rightarrow> mallocInst"

definition rt_init :: runtime where
  "rt_init = \<lparr>rt_start = 0, rt_length = 0, funcMap = [], txAttempts = 0, txCommitted = 0,
     allocMap = (\<lambda>_. \<lparr>a_size = 0, a_stack = []\<rparr>),
     mallocMap = (\<lambda>_. \<lparr>m_size = 0, m_len = 0, m_array = (\<lambda>_. 0)\<rparr>)\<rparr>"

section \<open>Preloading code\<close>

definition preloadInstAddr :: "runtime \<Rightarrow> 64 word list option" where
  "preloadInstAddr s = touch_range (rt_start s) (rt_length s)"

definition preloadInstAddr_name :: "string \<Rightarrow> runtime \<Rightarrow> (runtime \<times> 64 word list) option" where
  "preloadInstAddr_name fname s =
     (case map_of (funcMap s) fname of
        None \<Rightarrow> Some (s, [])
      | Some (st, len) \<Rightarrow>
          map_option (\<lambda>as. (s\<lparr>rt_start := st, rt_length := len\<rparr>, as)) (touch_range st len))"

definition preloadInstAddr_range :: "64 word \<Rightarrow> 64 word \<Rightarrow> 64 word list option" where
  "preloadInstAddr_range st len = touch_range st len"

fun preload_all :: "(string, 64 word \<times> 64 word) smap \<Rightarrow> runtime \<Rightarrow> (runtime \<times> 64 word list) option" where
  "preload_all [] s = Some (s, [])"
| "preload_all ((f, st, len) # m) s =
     Option.bind (touch_range st len) (\<lambda>as.
       map_option (\<lambda>(s', bs). (s', as @ bs)) (preload_all m (s\<lparr>rt_start := st, rt_length := len\<rparr>)))"

definition preloadInstAddrForCloak :: "runtime \<Rightarrow> (runtime \<times> 64 word list) option" where
  "preloadInstAddrForCloak s = preload_all (funcMap s) s"

text \<open>The table file: a name and what \<open>fscanf\<close> read for its start and length (\<open>None\<close> when a
  number cannot be read, which ends the program).\<close>

fun loadInputForSig :: "(string \<times> 64 word option \<times> 64 word option) list \<Rightarrow> runtime \<Rightarrow> runtime option" where
  "loadInputForSig [] s = Some s"
| "loadInputForSig ((f, st, len) # es) s =
     (case st of None \<Rightarrow> None
      | Some a \<Rightarrow> (case len of None \<Rightarrow> None
         | Some l \<Rightarrow> loadInputForSig es
             (s\<lparr>rt_start := a, rt_length := l, funcMap := smap_set f (a, l) (funcMap s)\<rparr>)))"

section \<open>Transactions\<close>

definition MAX_RETRIES :: nat where
  "MAX_RETRIES = 200"

definition XBEGIN_STARTED :: "32 word" where
  "XBEGIN_STARTED = NOT 0"

datatype tx_outcome = Started | Exited "32 word"

text \<open>\<open>xbegin i\<close> is the status of the \<open>i\<close>-th call of \<open>_xbegin\<close>.\<close>

function tx_loop :: "(nat \<Rightarrow> 32 word) \<Rightarrow> nat \<Rightarrow> nat \<Rightarrow> runtime \<Rightarrow> tx_outcome \<times> runtime" where
  "tx_loop xbegin i retries s =
     (if xbegin i = XBEGIN_STARTED then (Started, s)
      else (let s' = s\<lparr>txAttempts := txAttempts s + 1\<rparr> in
        if retries \<ge> MAX_RETRIES then (Exited (xbegin i), s')
        else tx_loop xbegin (i + 1) (retries + 1) s'))"
  by pat_completeness auto
termination by (relation "measure (\<lambda>(_, _, retries, _). MAX_RETRIES - retries)") auto

declare tx_loop.simps [simp del]

definition startTransaction :: "(nat \<Rightarrow> 32 word) \<Rightarrow> runtime \<Rightarrow> tx_outcome \<times> runtime" where
  "startTransaction xbegin s = tx_loop xbegin 0 0 (s\<lparr>txAttempts := txAttempts s + 1\<rparr>)"

definition endTransaction :: "bool \<Rightarrow> runtime \<Rightarrow> runtime" where
  "endTransaction xtest s = (if xtest then s\<lparr>txCommitted := txCommitted s + 1\<rparr> else s)"

section \<open>Preloading data\<close>

definition insertMallocSet :: "32 word \<Rightarrow> 32 word \<Rightarrow> 64 word \<Rightarrow> runtime \<Rightarrow> runtime" where
  "insertMallocSet idx sz pt s = s"

definition eraseMallocSet :: "32 word \<Rightarrow> 64 word \<Rightarrow> runtime \<Rightarrow> bool \<times> runtime" where
  "eraseMallocSet idx pt s = (True, s)"

fun touch_ranges :: "64 word list \<Rightarrow> 64 word \<Rightarrow> 64 word list option" where
  "touch_ranges [] sz = Some []"
| "touch_ranges (p # ps) sz =
     Option.bind (touch_range p sz) (\<lambda>as. map_option (\<lambda>bs. as @ bs) (touch_ranges ps sz))"

definition iterateMallocSet :: "32 word \<Rightarrow> runtime \<Rightarrow> 64 word list option" where
  "iterateMallocSet idx s =
     (let E = mallocMap s idx in
      touch_ranges (map (m_array E) [0..<nat (sint (m_len E))]) (scast (m_size E)))"

definition iterateGlobal :: "32 word \<Rightarrow> 64 word \<Rightarrow> 64 word list option" where
  "iterateGlobal sz pt = touch_range pt (scast sz)"

definition pushAllocStack :: "32 word \<Rightarrow> 64 word \<Rightarrow> 32 word \<Rightarrow> 64 word \<Rightarrow> runtime \<Rightarrow> runtime" where
  "pushAllocStack idx asz esz pt s =
     s\<lparr>allocMap := (allocMap s)(idx :=
         \<lparr>a_size = ucast ((scast esz :: 64 word) * asz), a_stack = a_stack (allocMap s idx) @ [pt]\<rparr>)\<rparr>"

definition iterateAllocStack :: "32 word \<Rightarrow> runtime \<Rightarrow> 64 word list option" where
  "iterateAllocStack idx s =
     touch_ranges (a_stack (allocMap s idx)) (scast (a_size (allocMap s idx)))"

definition popAllocStack :: "32 word \<Rightarrow> runtime \<Rightarrow> runtime" where
  "popAllocStack idx s =
     (if a_stack (allocMap s idx) \<noteq> []
      then s\<lparr>allocMap := (allocMap s)(idx := (allocMap s idx)\<lparr>a_stack := butlast (a_stack (allocMap s idx))\<rparr>)\<rparr>
      else s)"

section \<open>The lines of a range\<close>

definition line_of :: "64 word \<Rightarrow> 64 word" where
  "line_of x = x AND NOT lineOffMask"

lemma line_of_shift: "line_of x = push_bit 6 (drop_bit 6 x)"
proof (rule bit_eqI)
  fix n assume "possible_bit TYPE(64 word) n"
  moreover have eq: "lineOffMask = mask 6" by (simp add: lineOffMask_def mask_eq_exp_minus_1)
  ultimately show "bit (line_of x) n = bit (push_bit 6 (drop_bit 6 x)) n"
    unfolding line_of_def eq by (auto simp: bit_simps)
qed

lemma unat_line_of: "unat (line_of x) = 64 * (unat x div 64)"
proof -
  have lt: "unat x < 18446744073709551616" using unsigned_less [of x] by simp
  have "64 * (unat x div 64) \<le> unat x" by simp
  then have "64 * (unat x div 64) < 18446744073709551616" using lt by linarith
  moreover have "unat (line_of x) = take_bit 64 (64 * (unat x div 64))"
    unfolding line_of_shift unsigned_push_bit_eq unsigned_drop_bit_eq
    using lt by (simp add: push_bit_eq_mult drop_bit_eq_div mult.commute take_bit_nat_eq_self)
  ultimately show ?thesis by (simp add: take_bit_eq_mod)
qed

lemma word_of_unat: "of_nat (unat w) = (w :: 64 word)"
  by simp

lemma unat_small: "n < 18446744073709551616 \<Longrightarrow> unat (of_nat n :: 64 word) = n"
  by (simp add: unat_of_nat)

lemma ceil_line: "64 * k < (n :: nat) \<Longrightarrow> k < (n + 63) div 64"
  by linarith

lemma touch_loop_ok:
  assumes "64 dvd unat a" and "unat u \<le> 18446744073709551552"
  shows "touch_loop a u = Some (map (\<lambda>i. of_nat (64 * i)) [unat a div 64..<(unat u + 63) div 64])"
  using assms
proof (induction "unat u - unat a" arbitrary: a rule: less_induct)
  case less
  obtain k where k: "unat a = 64 * k" using less.prems(1) by (rule dvdE)
  show ?case
  proof (cases "a < u")
    case False
    then have "(unat u + 63) div 64 \<le> unat a div 64" using k by (simp add: word_less_nat_alt)
    then show ?thesis using False by (subst touch_loop.simps) simp
  next
    case True
    then have lt: "unat a < unat u" by (simp add: word_less_nat_alt)
    then have "k < 288230376151711743" using k less.prems(2) by linarith
    then have "unat a + 64 \<le> 18446744073709551552" using k by linarith
    then have s: "unat (a + 64) = unat a + 64" by (simp add: unat_word_ariths)
    have "unat u - unat (a + 64) < unat u - unat a" using s lt by linarith
    from less.hyps [OF this _ less.prems(2)] have
      IH: "touch_loop (a + 64) u = Some (map (\<lambda>i. of_nat (64 * i)) [Suc k..<(unat u + 63) div 64])"
      using s k by simp
    have "k < (unat u + 63) div 64" using lt k by (intro ceil_line) simp
    then have up: "[k..<(unat u + 63) div 64] = k # [Suc k..<(unat u + 63) div 64]" by (rule upt_conv_Cons)
    have a: "of_nat (64 * k) = a" by (simp only: k [symmetric] word_of_unat)
    have "touch_loop a u = Option.bind (touch_loop (a + 64) u) (\<lambda>as. Some (a # as))"
      using True by (subst touch_loop.simps) (simp only: if_True)
    also have "\<dots> = Some (a # map (\<lambda>i. of_nat (64 * i)) [Suc k..<(unat u + 63) div 64])"
      by (simp only: IH Option.bind.simps)
    also have "\<dots> = Some (map (\<lambda>i. of_nat (64 * i)) [k..<(unat u + 63) div 64])"
      by (simp only: up list.map a)
    finally show ?thesis using k by simp
  qed
qed

definition fits :: "64 word \<Rightarrow> 64 word \<Rightarrow> bool" where
  "fits p n = (0 < n \<and> unat p + unat n \<le> 18446744073709551552)"

lemma touch_range_ok:
  assumes "fits p n"
  shows "\<exists>as. touch_range p n = Some as \<and> sorted_wrt (<) as \<and>
    set as = {line_of x |x. p \<le> x \<and> x < p + n}"
proof -
  let ?l = "unat p div 64" and ?h = "(unat p + unat n + 63) div 64"
  let ?as = "map (\<lambda>i. (of_nat (64 * i) :: 64 word)) [?l..<?h]"
  have n: "0 < unat n" using assms by (simp add: fits_def word_less_nat_alt)
  have u: "unat (p + n) = unat p + unat n"
    using assms by (simp add: fits_def unat_word_ariths)
  have of: "unat (of_nat (64 * i) :: 64 word) = 64 * i" if "i < ?h" for i
  proof -
    have "64 * i < 18446744073709551616" using that assms by (simp add: fits_def) linarith
    then show ?thesis by (rule unat_small)
  qed
  have "touch_range p n = Some ?as"
    using touch_loop_ok [of "line_of p" "p + n"] assms
    by (simp add: touch_range_def line_of_def [symmetric] unat_line_of u fits_def add.assoc)
  moreover have "sorted_wrt (<) ?as"
    unfolding sorted_wrt_map
    by (rule sorted_wrt_mono_rel [OF _ sorted_wrt_upt])
      (use of in \<open>simp add: word_less_nat_alt\<close>)
  moreover have "set ?as = {line_of x |x. p \<le> x \<and> x < p + n}"
  proof (intro equalityI subsetI)
    fix a assume "a \<in> set ?as"
    then obtain i where i: "?l \<le> i" "i < ?h" "a = of_nat (64 * i)" by auto
    let ?x = "max (unat p) (64 * i)"
    have "?x < unat p + unat n" using i n by (simp add: max_def) linarith
    then have "?x < 18446744073709551616" using assms by (simp add: fits_def)
    then have x: "unat (of_nat ?x :: 64 word) = ?x" by (rule unat_small)
    have "?x div 64 = i" using i(1) by (auto simp: max_def)
    then have "line_of (of_nat ?x) = a"
      using of [OF i(2)] x by (simp add: word_unat_eq_iff unat_line_of i(3))
    moreover have "p \<le> of_nat ?x" "of_nat ?x < p + n"
      using x \<open>?x < unat p + unat n\<close> by (simp_all add: word_le_nat_alt word_less_nat_alt u)
    ultimately show "a \<in> {line_of x |x. p \<le> x \<and> x < p + n}" by blast
  next
    fix a assume "a \<in> {line_of x |x. p \<le> x \<and> x < p + n}"
    then obtain x where x: "a = line_of x" "unat p \<le> unat x" "unat x < unat p + unat n"
      by (auto simp: word_le_nat_alt word_less_nat_alt u)
    then have i: "?l \<le> unat x div 64" "unat x div 64 < ?h" by (auto intro: div_le_mono)
    moreover have "a = of_nat (64 * (unat x div 64))"
      using of [OF i(2)] by (simp add: x(1) word_unat_eq_iff unat_line_of)
    ultimately show "a \<in> set ?as" by auto
  qed
  ultimately show ?thesis by blast
qed

section \<open>Histories of the library\<close>

datatype rt_op =
    PushAlloc "32 word" "64 word" "32 word" "64 word"
  | PopAlloc "32 word"
  | InsertMalloc "32 word" "32 word" "64 word"
  | EraseMalloc "32 word" "64 word"

fun rt_exec :: "rt_op \<Rightarrow> runtime \<Rightarrow> runtime" where
  "rt_exec (PushAlloc idx asz esz pt) s = pushAllocStack idx asz esz pt s"
| "rt_exec (PopAlloc idx) s = popAllocStack idx s"
| "rt_exec (InsertMalloc idx sz pt) s = insertMallocSet idx sz pt s"
| "rt_exec (EraseMalloc idx pt) s = snd (eraseMallocSet idx pt s)"

definition rt_run :: "rt_op list \<Rightarrow> runtime \<Rightarrow> runtime" where
  "rt_run ops s = foldl (\<lambda>s op. rt_exec op s) s ops"

text \<open>The buffers of \<open>idx\<close> that are pushed and not popped yet.\<close>

fun live :: "32 word \<Rightarrow> rt_op list \<Rightarrow> 64 word list \<Rightarrow> 64 word list" where
  "live idx [] st = st"
| "live idx (PushAlloc i asz esz pt # ops) st = live idx ops (if i = idx then st @ [pt] else st)"
| "live idx (PopAlloc i # ops) st = live idx ops (if i = idx then butlast st else st)"
| "live idx (InsertMalloc i sz pt # ops) st = live idx ops st"
| "live idx (EraseMalloc i pt # ops) st = live idx ops st"

lemma rt_run_Cons [simp]: "rt_run (op # ops) s = rt_run ops (rt_exec op s)"
  by (simp add: rt_run_def)

lemma rt_run_Nil [simp]: "rt_run [] s = s"
  by (simp add: rt_run_def)

lemma run_stack: "a_stack (allocMap (rt_run ops s) idx) = live idx ops (a_stack (allocMap s idx))"
proof (induction ops arbitrary: s)
  case (Cons op ops)
  then show ?case
    by (cases op) (auto simp: pushAllocStack_def popAllocStack_def insertMallocSet_def eraseMallocSet_def)
qed simp

text \<open>The size \<open>pushAllocStack\<close> stores, and: every push of \<open>idx\<close> in a history stores \<open>sz\<close>.\<close>

fun same_size :: "32 word \<Rightarrow> 32 word \<Rightarrow> rt_op \<Rightarrow> bool" where
  "same_size idx sz (PushAlloc i asz esz pt) = (i = idx \<longrightarrow> ucast ((scast esz :: 64 word) * asz) = sz)"
| "same_size idx sz op = True"

lemma exec_size:
  assumes "same_size idx sz op" and "a_stack (allocMap s idx) \<noteq> [] \<longrightarrow> a_size (allocMap s idx) = sz"
  shows "a_stack (allocMap (rt_exec op s) idx) \<noteq> [] \<longrightarrow> a_size (allocMap (rt_exec op s) idx) = sz"
  using assms by (cases op) (auto simp: pushAllocStack_def popAllocStack_def insertMallocSet_def
        eraseMallocSet_def)

lemma run_size:
  assumes "list_all (same_size idx sz) ops"
    and "a_stack (allocMap s idx) \<noteq> [] \<longrightarrow> a_size (allocMap s idx) = sz"
  shows "a_stack (allocMap (rt_run ops s) idx) \<noteq> [] \<longrightarrow> a_size (allocMap (rt_run ops s) idx) = sz"
  using assms
proof (induction ops arbitrary: s)
  case (Cons op ops)
  have "a_stack (allocMap (rt_exec op s) idx) \<noteq> [] \<longrightarrow> a_size (allocMap (rt_exec op s) idx) = sz"
    using Cons.prems by (intro exec_size) simp_all
  from Cons.IH [OF _ this] show ?case using Cons.prems(1) by simp
qed simp

lemma touch_ranges_ok:
  assumes "\<forall>p \<in> set ps. fits p n"
  shows "\<exists>as. touch_ranges ps n = Some as \<and>
    set as = {line_of x |x p. p \<in> set ps \<and> p \<le> x \<and> x < p + n}"
  using assms
proof (induction ps)
  case (Cons p ps)
  obtain as where as: "touch_range p n = Some as" "set as = {line_of x |x. p \<le> x \<and> x < p + n}"
    using touch_range_ok [of p n] Cons.prems by auto
  obtain bs where bs: "touch_ranges ps n = Some bs"
    "set bs = {line_of x |x p. p \<in> set ps \<and> p \<le> x \<and> x < p + n}"
    using Cons by auto
  have "set (as @ bs) = {line_of x |x q. q \<in> set (p # ps) \<and> q \<le> x \<and> x < q + n}"
    using as(2) bs(2) by auto
  then show ?case using as(1) bs(1) by auto
qed simp

section \<open>Properties\<close>

text \<open>C33: preloading a non-empty range that does not reach the last line of the address space
  terminates and reads exactly one address in every 64-byte line the range touches, in
  increasing order, so that no byte of the range is left out.\<close>

theorem preload_covers_lines:
  assumes "0 < n" and "unat p + unat n \<le> 2 ^ 64 - 64"
  shows "\<exists>as. preloadInstAddr_range p n = Some as \<and> sorted_wrt (<) as \<and>
    set as = {x AND NOT lineOffMask |x. p \<le> x \<and> x < p + n}"
  using touch_range_ok [of p n] assms
  by (simp add: preloadInstAddr_range_def fits_def line_of_def)

theorem preload_covers_lines_witness:
  "\<exists>as. preloadInstAddr_range 0x103C 8 = Some as \<and> sorted_wrt (<) as \<and>
    set as = {x AND NOT lineOffMask |x. 0x103C \<le> x \<and> x < 0x103C + 8}"
  using preload_covers_lines [of 8 "0x103C"] by simp

text \<open>C34: after any history in which all buffers pushed for an index have the same size,
  \<open>iterateAllocStack\<close> reads every cache line of every live buffer of the index and no other
  line.\<close>

theorem alloc_stack_covers_live:
  assumes "list_all (same_size idx sz) ops"
    and "\<forall>p \<in> set (live idx ops []). 0 < (scast sz :: 64 word) \<and> unat p + unat (scast sz :: 64 word) \<le> 2 ^ 64 - 64"
  shows "\<exists>as. iterateAllocStack idx (rt_run ops rt_init) = Some as \<and>
    set as = {x AND NOT lineOffMask |x p. p \<in> set (live idx ops []) \<and> p \<le> x \<and> x < p + scast sz}"
proof -
  have st: "a_stack (allocMap (rt_run ops rt_init) idx) = live idx ops []"
    by (simp add: run_stack rt_init_def)
  show ?thesis
  proof (cases "live idx ops [] = []")
    case True
    then show ?thesis by (simp add: iterateAllocStack_def st)
  next
    case False
    have "a_size (allocMap (rt_run ops rt_init) idx) = sz"
      using run_size [OF assms(1), of rt_init] False st by (simp add: rt_init_def)
    then show ?thesis
      using touch_ranges_ok [of "live idx ops []" "scast sz"] assms(2)
      by (simp add: iterateAllocStack_def st fits_def line_of_def)
  qed
qed

theorem alloc_stack_covers_live_witness:
  "\<exists>as. iterateAllocStack 7 (rt_run [PushAlloc 7 16 4 0x1000, PushAlloc 8 1 4 0x3000, PushAlloc 7 16 4 0x1008] rt_init) = Some as \<and>
    set as = {x AND NOT lineOffMask |x p. p \<in> set [0x1000, 0x1008] \<and> p \<le> x \<and> x < p + scast (64 :: 32 word)}"
  using alloc_stack_covers_live [of 7 64 "[PushAlloc 7 16 4 0x1000, PushAlloc 8 1 4 0x3000, PushAlloc 7 16 4 0x1008]"]
  by simp

text \<open>One size is kept per index, the size of the last push, and a pop does not restore it:
  after a push of 128 bytes, a push of 64 bytes of the same index and a pop, the second line of
  the remaining buffer is not preloaded.\<close>

theorem alloc_size_not_restored:
  "let s = rt_run [PushAlloc 1 128 1 0x1000, PushAlloc 1 64 1 0x2000, PopAlloc 1] rt_init in
   live 1 [PushAlloc 1 128 1 0x1000, PushAlloc 1 64 1 0x2000, PopAlloc 1] [] = [0x1000] \<and>
   iterateAllocStack 1 s = Some [0x1000] \<and>
   preloadInstAddr_range 0x1000 128 = Some [0x1000, 0x1040]"
  by code_simp

text \<open>Memory from \<open>malloc\<close> is never preloaded: whatever the program registers and erases, and in
  whatever order, \<open>iterateMallocSet\<close> reads no address (the body of \<open>insertMallocSet\<close> is commented
  out).\<close>

theorem malloc_never_preloaded:
  "iterateMallocSet idx (rt_run ops rt_init) = Some []"
proof -
  have "mallocMap (rt_run ops s) = mallocMap s" for s
  proof (induction ops arbitrary: s)
    case (Cons op ops)
    then show ?case
      by (cases op) (auto simp: pushAllocStack_def popAllocStack_def insertMallocSet_def eraseMallocSet_def)
  qed simp
  then show ?thesis by (simp add: iterateMallocSet_def rt_init_def)
qed

section \<open>Transactions\<close>

lemma tx_loop_started:
  assumes "\<forall>j < n. xb (i + j) \<noteq> XBEGIN_STARTED" and "xb (i + n) = XBEGIN_STARTED" and "r + n \<le> MAX_RETRIES"
  shows "tx_loop xb i r s = (Started, s\<lparr>txAttempts := txAttempts s + of_nat n\<rparr>)"
  using assms
proof (induction n arbitrary: i r s)
  case 0
  then show ?case by (simp add: tx_loop.simps)
next
  case (Suc n)
  have ne: "xb i \<noteq> XBEGIN_STARTED" using Suc.prems(1) [rule_format, of 0] by simp
  have "\<forall>j < n. xb (Suc i + j) \<noteq> XBEGIN_STARTED" using Suc.prems(1) by (metis Suc_less_eq add_Suc_shift)
  then have "tx_loop xb (Suc i) (Suc r) (s\<lparr>txAttempts := txAttempts s + 1\<rparr>) =
      (Started, s\<lparr>txAttempts := txAttempts s + 1 + of_nat n\<rparr>)"
    using Suc.IH [of "Suc i" "Suc r" "s\<lparr>txAttempts := txAttempts s + 1\<rparr>"] Suc.prems(2,3) by simp
  then show ?case using ne Suc.prems(3)
    by (subst tx_loop.simps) (simp add: Let_def add.assoc)
qed

lemma tx_loop_exited:
  assumes "\<forall>j \<le> n. xb (i + j) \<noteq> XBEGIN_STARTED" and "r + n = MAX_RETRIES"
  shows "tx_loop xb i r s = (Exited (xb (i + n)), s\<lparr>txAttempts := txAttempts s + of_nat (Suc n)\<rparr>)"
  using assms
proof (induction n arbitrary: i r s)
  case 0
  then show ?case by (simp add: tx_loop.simps Let_def)
next
  case (Suc n)
  have ne: "xb i \<noteq> XBEGIN_STARTED" using Suc.prems(1) [rule_format, of 0] by simp
  have "\<forall>j \<le> n. xb (Suc i + j) \<noteq> XBEGIN_STARTED" using Suc.prems(1) by (metis Suc_le_mono add_Suc_shift)
  then have "tx_loop xb (Suc i) (Suc r) (s\<lparr>txAttempts := txAttempts s + 1\<rparr>) =
      (Exited (xb (Suc i + n)), s\<lparr>txAttempts := txAttempts s + 1 + of_nat (Suc n)\<rparr>)"
    using Suc.IH [of "Suc i" "Suc r" "s\<lparr>txAttempts := txAttempts s + 1\<rparr>"] Suc.prems(2) by simp
  then show ?case using ne Suc.prems(2)
    by (subst tx_loop.simps) (simp add: Let_def add.assoc)
qed

lemma filter_upt_first:
  assumes "n < N" and "P n" and "\<forall>j < n. \<not> P j"
  shows "filter P [0..<N] = n # filter P [Suc n..<N]"
proof -
  have "[0..<N] = [0..<n] @ n # [Suc n..<N]"
    using assms(1) upt_add_eq_append [of 0 n "N - n"] upt_conv_Cons [of n N] by simp
  then show ?thesis using assms(2,3) by (simp add: filter_empty_conv)
qed

text \<open>\<open>startTransaction\<close> returns to the program exactly when one of the first 201 attempts to
  begin a hardware transaction succeeds, and it has then counted the failed attempts and the
  successful one; otherwise it ends the program with the status of the last attempt.\<close>

theorem startTransaction_correct:
  "startTransaction xb s =
     (case filter (\<lambda>i. xb i = XBEGIN_STARTED) [0..<201] of
        n # _ \<Rightarrow> (Started, s\<lparr>txAttempts := txAttempts s + 1 + of_nat n\<rparr>)
      | [] \<Rightarrow> (Exited (xb 200), s\<lparr>txAttempts := txAttempts s + 202\<rparr>))"
proof (cases "\<exists>n < 201. xb n = XBEGIN_STARTED")
  case True
  define n where "n = (LEAST n. xb n = XBEGIN_STARTED)"
  obtain m where m: "m < 201" "xb m = XBEGIN_STARTED" using True by blast
  have n: "xb n = XBEGIN_STARTED" unfolding n_def using m(2) by (rule LeastI)
  have lt: "xb j \<noteq> XBEGIN_STARTED" if "j < n" for j using that not_less_Least unfolding n_def by blast
  have "n \<le> m" unfolding n_def using m(2) by (rule Least_le)
  then have n201: "n < 201" using m(1) by simp
  have "filter (\<lambda>i. xb i = XBEGIN_STARTED) [0..<201] =
      n # filter (\<lambda>i. xb i = XBEGIN_STARTED) [Suc n..<201]"
    using lt by (intro filter_upt_first [OF n201] n) blast
  moreover have "startTransaction xb s = (Started, s\<lparr>txAttempts := txAttempts s + 1 + of_nat n\<rparr>)"
    unfolding startTransaction_def using tx_loop_started [of n xb 0 0] lt n n201
    by (simp add: MAX_RETRIES_def)
  ultimately show ?thesis by (simp only: list.case)
next
  case False
  then have "\<forall>j \<le> 200. xb j \<noteq> XBEGIN_STARTED" by auto
  then have "startTransaction xb s = (Exited (xb 200), s\<lparr>txAttempts := txAttempts s + 202\<rparr>)"
    unfolding startTransaction_def using tx_loop_exited [of 200 xb 0 0] by (simp add: MAX_RETRIES_def)
  moreover have "filter (\<lambda>i. xb i = XBEGIN_STARTED) [0..<201] = []"
    unfolding filter_empty_conv set_upt using False by fastforce
  ultimately show ?thesis by (simp only: list.case)
qed

section \<open>Preloading by name\<close>

abbreviation table :: "(string \<times> 64 word \<times> 64 word) list \<Rightarrow> (string \<times> 64 word option \<times> 64 word option) list" where
  "table es \<equiv> map (\<lambda>(f, a, l). (f, Some a, Some l)) es"

lemma loadInput_map:
  "\<exists>s'. loadInputForSig (table es) s = Some s' \<and>
     map_of (funcMap s') f = (case map_of (rev es) f of Some p \<Rightarrow> Some p | None \<Rightarrow> map_of (funcMap s) f)"
proof (induction es arbitrary: s)
  case (Cons e es)
  obtain g a l where e: "e = (g, a, l)" by (cases e)
  show ?case using Cons.IH [of "s\<lparr>rt_start := a, rt_length := l, funcMap := smap_set g (a, l) (funcMap s)\<rparr>"]
    by (auto simp: e map_add_def split: option.splits)
qed simp

text \<open>After the table of the instrumented functions has been read, preloading a function by its
  name reads one address in every line of the code range the table's last entry for that name
  gives, and nothing for a name the table lacks.\<close>

theorem preload_by_name:
  assumes "\<forall>(g, a, l) \<in> set es. 0 < l \<and> unat a + unat l \<le> 2 ^ 64 - 64"
  shows "\<exists>s. loadInputForSig (table es) rt_init = Some s \<and>
    (case map_of (rev es) f of
       None \<Rightarrow> preloadInstAddr_name f s = Some (s, [])
     | Some (a, l) \<Rightarrow> \<exists>as. preloadInstAddr_name f s = Some (s\<lparr>rt_start := a, rt_length := l\<rparr>, as) \<and>
         sorted_wrt (<) as \<and> set as = {x AND NOT lineOffMask |x. a \<le> x \<and> x < a + l})"
proof -
  obtain s where s: "loadInputForSig (table es) rt_init = Some s"
    "map_of (funcMap s) f = map_of (rev es) f"
    using loadInput_map [of es rt_init f] by (auto simp: rt_init_def split: option.splits)
  show ?thesis
  proof (cases "map_of (rev es) f")
    case None
    then show ?thesis using s by (simp add: preloadInstAddr_name_def)
  next
    case (Some p)
    obtain a l where p: "p = (a, l)" by (cases p)
    have "(f, a, l) \<in> set es" using Some p map_of_SomeD [of "rev es" f] by simp
    then have "fits a l" using assms by (auto simp: fits_def)
    from touch_range_ok [OF this] obtain as where
      "touch_range a l = Some as" "sorted_wrt (<) as" "set as = {x AND NOT lineOffMask |x. a \<le> x \<and> x < a + l}"
      by (auto simp: line_of_def)
    then show ?thesis using s Some p by (auto simp: preloadInstAddr_name_def)
  qed
qed

theorem preload_by_name_witness:
  "\<exists>s. loadInputForSig (table [(''f'', 0x400, 100), (''g'', 0x800, 8)]) rt_init = Some s \<and>
    (\<exists>as. preloadInstAddr_name ''f'' s = Some (s\<lparr>rt_start := 0x400, rt_length := 100\<rparr>, as) \<and>
         sorted_wrt (<) as \<and> set as = {x AND NOT lineOffMask |x. 0x400 \<le> x \<and> x < 0x400 + 100})"
  using preload_by_name [of "[(''f'', 0x400, 100), (''g'', 0x800, 8)]" "''f''"] by simp

end
