(* ===== verification/Cape_IR.thy ===== *)
theory Cape_IR
  imports Prelude "HOL-Library.Monad_Syntax" "HOL-Library.Word" "HOL-Library.Char_ord" "HOL-Library.List_Lexorder"
begin

text \<open>
  The data \<^verbatim>\<open>include/dg/Slicing.h\<close> works on. Objects are numbered, a set of pointers is
  iterated in the order of the numbers. The dependence graph (\<open>graph\<close>) is only read; what LLVM and
  the pointer analysis know of the program (\<open>ir\<close>) is a parameter; the state (\<open>cape\<close>) holds
  the slice ids of nodes, blocks and graphs, the buffer ids, the work list of the walk, and the
  instructions of every LLVM block, to which the calls of the run-time library are added. \<open>None\<close>
  stands for an assertion that fails, a null pointer that is dereferenced and a loop that
  does not end.
\<close>

section \<open>The program\<close>

text \<open>The calls that are inserted; an instruction is one of the program or an inserted call.\<close>

datatype val = VInst nat | VFun nat | VGlob nat | VConst "64 word" | VOther nat

datatype rtcall =
    C_start | C_end
  | C_preload string
  | C_iter_alloc "32 word" | C_iter_malloc "32 word" | C_iter_global "32 word" nat
  | C_push_alloc "32 word" val "32 word" nat
  | C_pop_alloc "32 word"
  | C_insert_malloc "32 word" "32 word" nat
  | C_erase_malloc "32 word" val

datatype inst = Orig nat | Ins nat rtcall

datatype opcode = PHI | Br bool | Load | Store | Alloca | CallI "nat option" | Ret | OtherOp

record ir =
  opc :: "nat \<Rightarrow> opcode"
  parent :: "nat \<Rightarrow> nat"
  opnd :: "nat \<Rightarrow> nat \<Rightarrow> val"
  ib_fun :: "nat \<Rightarrow> nat"
  n_funs :: nat
  f_name :: "nat \<Rightarrow> string"
  f_blocks :: "nat \<Rightarrow> nat list"
  rt_fun :: "string \<Rightarrow> nat"
  gv_secret :: "nat \<Rightarrow> bool"
  gv_name :: "nat \<Rightarrow> string"
  gv_size :: "nat \<Rightarrow> 32 word"
  ai_array_size :: "nat \<Rightarrow> val"
  ai_size :: "nat \<Rightarrow> 32 word"
  points_to :: "val \<Rightarrow> nat list"
  ps_value :: "nat \<Rightarrow> val option"

record graph =
  g_key :: "nat \<Rightarrow> val"
  g_block :: "nat \<Rightarrow> nat option"
  g_dg :: "nat \<Rightarrow> nat option"
  g_control :: "nat \<Rightarrow> nat list"
  g_rev_control :: "nat \<Rightarrow> nat list"
  g_data :: "nat \<Rightarrow> nat list"
  g_rev_data :: "nat \<Rightarrow> nat list"
  g_use :: "nat \<Rightarrow> nat list"
  g_user :: "nat \<Rightarrow> nat list"
  g_interf :: "nat \<Rightarrow> nat list"
  g_rev_interf :: "nat \<Rightarrow> nat list"
  b_nodes :: "nat \<Rightarrow> nat list"
  b_succs :: "nat \<Rightarrow> nat list"
  b_preds :: "nat \<Rightarrow> nat list"
  b_cd :: "nat \<Rightarrow> nat list"
  b_revcd :: "nat \<Rightarrow> nat list"
  b_pdf :: "nat \<Rightarrow> nat list"
  b_idom :: "nat \<Rightarrow> nat option"
  b_ipdom :: "nat \<Rightarrow> nat option"
  dg_entry :: "nat \<Rightarrow> nat option"
  dg_node :: "nat \<Rightarrow> val \<Rightarrow> nat option"

record cape =
  sl_node :: "nat \<Rightarrow> 32 word"
  sl_block :: "nat \<Rightarrow> 64 word"
  sl_dg :: "nat \<Rightarrow> 64 word"
  buf :: "nat \<Rightarrow> 32 word"
  allocId :: "32 word"
  funcs :: "nat \<Rightarrow> string set"
  code :: "nat \<Rightarrow> inst list"
  fresh :: nat
  lastwalk :: "nat \<Rightarrow> 32 word"
  run_id :: "32 word"
  w_queue :: "nat list"
  n_parent :: "nat \<Rightarrow> nat option"
  markedBlocks :: "nat set"

section \<open>Nodes, blocks and instructions\<close>

definition firstNode :: "graph \<Rightarrow> nat \<Rightarrow> nat option" where
  "firstNode G b = (case b_nodes G b of [] \<Rightarrow> None | n # _ \<Rightarrow> Some n)"

definition lastNode :: "graph \<Rightarrow> nat \<Rightarrow> nat option" where
  "lastNode G b = (if b_nodes G b = [] then None else Some (last (b_nodes G b)))"

fun as_inst :: "val \<Rightarrow> nat option" where
  "as_inst (VInst i) = Some i"
| "as_inst _ = None"

fun is_fun :: "val \<Rightarrow> bool" where
  "is_fun (VFun f) = True"
| "is_fun _ = False"

fun rt_name :: "rtcall \<Rightarrow> string" where
  "rt_name C_start = ''_Z16startTransactionv''"
| "rt_name C_end = ''_Z14endTransactionv''"
| "rt_name (C_preload _) = ''_Z15preloadInstAddrPc''"
| "rt_name (C_iter_alloc _) = ''_Z17iterateAllocStacki''"
| "rt_name (C_iter_malloc _) = ''_Z16iterateMallocSeti''"
| "rt_name (C_iter_global _ _) = ''_Z13iterateGlobaliPv''"
| "rt_name (C_push_alloc _ _ _ _) = ''_Z14pushAllocStackiliPv''"
| "rt_name (C_pop_alloc _) = ''_Z13popAllocStacki''"
| "rt_name (C_insert_malloc _ _ _) = ''_Z15insertMallocSetiiPv''"
| "rt_name (C_erase_malloc _ _) = ''_Z14eraseMallocSetiPv''"

fun op_of :: "ir \<Rightarrow> inst \<Rightarrow> opcode" where
  "op_of I (Orig n) = opc I n"
| "op_of I (Ins _ c) = CallI (Some (rt_fun I (rt_name c)))"

fun callee :: "opcode \<Rightarrow> nat option" where
  "callee (CallI f) = f"
| "callee _ = None"

fun contains :: "string \<Rightarrow> string \<Rightarrow> bool" where
  "contains sub [] = (sub = [])"
| "contains sub (c # cs) = (take (length sub) (c # cs) = sub \<or> contains sub cs)"

text \<open>\<open>getNextNode\<close> and the loop that skips the \<open>\<phi>\<close>-instructions.\<close>

definition at_inst :: "inst \<Rightarrow> inst list \<Rightarrow> inst list" where
  "at_inst i is = dropWhile (\<lambda>j. j \<noteq> i) is"

definition after_inst :: "inst \<Rightarrow> inst list \<Rightarrow> inst list" where
  "after_inst i is = tl (at_inst i is)"

fun skip_phi :: "ir \<Rightarrow> inst list \<Rightarrow> inst option" where
  "skip_phi I [] = None"
| "skip_phi I (i # is) = (if op_of I i = PHI then skip_phi I is else Some i)"

definition non_phi :: "ir \<Rightarrow> nat \<Rightarrow> cape \<Rightarrow> inst option" where
  "non_phi I i s = skip_phi I (at_inst (Orig i) (code s (parent I i)))"

section \<open>Adding calls\<close>

definition insert_before :: "nat \<Rightarrow> inst \<Rightarrow> rtcall \<Rightarrow> cape \<Rightarrow> cape" where
  "insert_before b i c s =
     s\<lparr>code := (code s)(b := takeWhile (\<lambda>j. j \<noteq> i) (code s b) @ Ins (fresh s) c # at_inst i (code s b)),
       fresh := fresh s + 1\<rparr>"

fun insert_calls :: "nat \<Rightarrow> inst \<Rightarrow> rtcall list \<Rightarrow> cape \<Rightarrow> cape" where
  "insert_calls b i [] s = s"
| "insert_calls b i (c # cs) s = insert_calls b i cs (insert_before b i c s)"

fun number :: "nat \<Rightarrow> rtcall list \<Rightarrow> inst list" where
  "number k [] = []"
| "number k (c # cs) = Ins k c # number (Suc k) cs"

definition code_wf :: "cape \<Rightarrow> bool" where
  "code_wf s = ((\<forall>b. distinct (code s b)) \<and> (\<forall>b k c. Ins k c \<in> set (code s b) \<longrightarrow> k < fresh s))"

lemma at_split:
  assumes "i \<notin> set ys"
  shows "takeWhile (\<lambda>j. j \<noteq> i) (ys @ i # zs) = ys" and "at_inst i (ys @ i # zs) = i # zs"
    and "after_inst i (ys @ i # zs) = zs"
  using assms by (induction ys) (auto simp: at_inst_def after_inst_def)

lemma at_inst_in: "i \<in> set is \<Longrightarrow> at_inst i is = i # after_inst i is"
  by (induction "is") (auto simp: at_inst_def after_inst_def)

lemma split_at: "takeWhile (\<lambda>j. j \<noteq> i) is @ at_inst i is = is"
  by (simp add: at_inst_def)

lemma insert_before_simps [simp]:
  "sl_node (insert_before b i c s) = sl_node s" "sl_block (insert_before b i c s) = sl_block s"
  "sl_dg (insert_before b i c s) = sl_dg s" "buf (insert_before b i c s) = buf s"
  "allocId (insert_before b i c s) = allocId s" "funcs (insert_before b i c s) = funcs s"
  "lastwalk (insert_before b i c s) = lastwalk s" "w_queue (insert_before b i c s) = w_queue s"
  "fresh (insert_before b i c s) = Suc (fresh s)"
  "run_id (insert_before b i c s) = run_id s" "n_parent (insert_before b i c s) = n_parent s"
  "markedBlocks (insert_before b i c s) = markedBlocks s"
  by (simp_all add: insert_before_def)

lemma insert_calls_simps [simp]:
  "sl_node (insert_calls b i cs s) = sl_node s" "sl_block (insert_calls b i cs s) = sl_block s"
  "sl_dg (insert_calls b i cs s) = sl_dg s" "buf (insert_calls b i cs s) = buf s"
  "allocId (insert_calls b i cs s) = allocId s" "funcs (insert_calls b i cs s) = funcs s"
  "lastwalk (insert_calls b i cs s) = lastwalk s" "w_queue (insert_calls b i cs s) = w_queue s"
  "run_id (insert_calls b i cs s) = run_id s" "n_parent (insert_calls b i cs s) = n_parent s"
  "markedBlocks (insert_calls b i cs s) = markedBlocks s"
  "fresh (insert_calls b i cs s) = fresh s + length cs"
  by (induction cs arbitrary: s) simp_all

lemma insert_calls_append:
  "insert_calls b i (cs @ ds) s = insert_calls b i ds (insert_calls b i cs s)"
  by (induction cs arbitrary: s) simp_all

lemma number_append: "number k (cs @ ds) = number k cs @ number (k + length cs) ds"
  by (induction cs arbitrary: k) simp_all

lemma in_number: "Ins j c \<in> set (number k cs) \<Longrightarrow> k \<le> j \<and> j < k + length cs \<and> c \<in> set cs"
  by (induction cs arbitrary: k) fastforce+

lemma no_orig_number [simp]: "Orig i \<notin> set (number k cs)"
  by (induction cs arbitrary: k) auto

lemma distinct_number: "distinct (number k cs)"
proof (induction cs arbitrary: k)
  case (Cons c cs)
  then show ?case using in_number [of k c "Suc k" cs] by auto
qed simp

text \<open>Calls inserted before an instruction of the block stand right before it, in order.\<close>

lemma insert_calls_code:
  assumes "i \<in> set (code s b)" and "code_wf s"
  shows "code (insert_calls b i cs s) =
    (code s)(b := takeWhile (\<lambda>j. j \<noteq> i) (code s b) @ number (fresh s) cs @ at_inst i (code s b))"
proof -
  have main: "code (insert_calls b i cs s) =
      (code s)(b := takeWhile (\<lambda>j. j \<noteq> i) (code s b) @ number (fresh s) cs @ at_inst i (code s b))"
    if "i \<in> set (code s b)" "\<forall>k c. i = Ins k c \<longrightarrow> k < fresh s" for s
    using that
  proof (induction cs arbitrary: s)
    case Nil
    then show ?case by (auto simp: split_at)
  next
    case (Cons c cs)
    let ?s = "insert_before b i c s"
    have ne: "Ins (fresh s) c \<noteq> i" using Cons.prems(2) by auto
    obtain ys zs where sp: "code s b = ys @ i # zs" "i \<notin> set ys"
      using split_list_first [OF Cons.prems(1)] by blast
    have c: "code ?s b = (ys @ [Ins (fresh s) c]) @ i # zs"
      by (simp add: insert_before_def sp(1) at_split [OF sp(2)])
    have n: "i \<notin> set (ys @ [Ins (fresh s) c])" using ne sp(2) by auto
    have t: "takeWhile (\<lambda>j. j \<noteq> i) (code ?s b) = takeWhile (\<lambda>j. j \<noteq> i) (code s b) @ [Ins (fresh s) c]"
      unfolding c sp(1) at_split(1) [OF n] at_split(1) [OF sp(2)] by (rule refl)
    have d: "at_inst i (code ?s b) = at_inst i (code s b)"
      unfolding c sp(1) at_split(2) [OF n] at_split(2) [OF sp(2)] by (rule refl)
    have "i \<in> set (code ?s b)" by (simp add: c)
    moreover have "\<forall>k c. i = Ins k c \<longrightarrow> k < fresh ?s" using Cons.prems(2) by auto
    ultimately have "code (insert_calls b i cs ?s) = (code ?s)(b :=
        takeWhile (\<lambda>j. j \<noteq> i) (code ?s b) @ number (fresh ?s) cs @ at_inst i (code ?s b))"
      by (rule Cons.IH)
    moreover have "(code ?s)(b := x) = (code s)(b := x)" for x by (simp add: insert_before_def)
    ultimately show ?case by (simp only: t d insert_calls.simps number.simps insert_before_simps append_assoc
          append.simps)
  qed
  have "\<forall>k c. i = Ins k c \<longrightarrow> k < fresh s" using assms unfolding code_wf_def by blast
  with assms(1) show ?thesis by (rule main)
qed

lemma code_wf_insert:
  assumes "code_wf s"
  shows "code_wf (insert_before b i c s)"
proof -
  have d: "distinct (code s b)" for b using assms by (simp add: code_wf_def)
  have f: "Ins k c \<in> set (code s b) \<Longrightarrow> k < fresh s" for b k c using assms unfolding code_wf_def by blast
  let ?t = "takeWhile (\<lambda>j. j \<noteq> i) (code s b)" and ?a = "at_inst i (code s b)"
  have sp: "set (code s b) = set ?t \<union> set ?a" using arg_cong [OF split_at, of set i "code s b"] by simp
  have "distinct (?t @ ?a)" by (simp only: split_at d)
  moreover have "Ins (fresh s) c \<notin> set ?t \<union> set ?a" using f [of "fresh s" c b] sp by blast
  ultimately have 1: "distinct (code (insert_before b i c s) b)" by (auto simp: insert_before_def)
  have 2: "code (insert_before b i c s) b' = code s b'" if "b' \<noteq> b" for b'
    using that by (simp add: insert_before_def)
  have "k < Suc (fresh s)" if "Ins k c' \<in> set (code (insert_before b i c s) b)" for k c'
  proof -
    have "Ins k c' \<in> set (code s b) \<or> k = fresh s" using that sp by (auto simp: insert_before_def)
    then show ?thesis using f [of k c' b] by auto
  qed
  then have "k < Suc (fresh s)" if "Ins k c' \<in> set (code (insert_before b i c s) b')" for k c' b'
    using that f [of k c' b'] 2 [of b'] by (cases "b' = b") auto
  moreover have "distinct (code (insert_before b i c s) b')" for b'
    using 1 2 [of b'] d [of b'] by (cases "b' = b") auto
  ultimately show ?thesis unfolding code_wf_def by simp
qed

lemma code_wf_insert_calls: "code_wf s \<Longrightarrow> code_wf (insert_calls b i cs s)"
  by (induction cs arbitrary: s) (auto intro: code_wf_insert)

lemma set_insert_before:
  "set (code s b') \<subseteq> set (code (insert_before b i c s) b')"
  using split_at [of i "code s b"] set_append [of "takeWhile (\<lambda>j. j \<noteq> i) (code s b)" "at_inst i (code s b)"]
  by (auto simp: insert_before_def)

lemma set_insert_calls: "set (code s b') \<subseteq> set (code (insert_calls b i cs s) b')"
  by (induction cs arbitrary: s) (use set_insert_before in \<open>fastforce+\<close>)

end
