(* ===== verification/Cape_Loops.thy ===== *)
theory Cape_Loops
  imports Cape_IR
begin

text \<open>
  The loops of \<^verbatim>\<open>include/dg/Slicing.h\<close>: \<open>collectLoopBlks\<close> collects the blocks of a back edge,
  \<open>getBrLoopBlocks\<close> looks for a back edge from the block of a branch up the dominator tree,
  \<open>isCondExit\<close> asks whether a block leaves the loop.
\<close>

section \<open>Definitions\<close>

fun push_new :: "nat list \<Rightarrow> nat set \<times> nat list \<Rightarrow> nat set \<times> nat list" where
  "push_new [] (myset, st) = (myset, st)"
| "push_new (p # ps) (myset, st) =
     push_new ps (if p \<in> myset then (myset, st) else (insert p myset, p # st))"

partial_function (option) collect_loop :: "graph \<Rightarrow> nat set \<Rightarrow> nat list \<Rightarrow> nat set option" where
  "collect_loop G myset mystack =
     (case mystack of [] \<Rightarrow> Some myset
      | cur # st \<Rightarrow> (case push_new (b_preds G cur) (myset, st) of
          (myset', st') \<Rightarrow> collect_loop G myset' st'))"

declare collect_loop.simps [code]

definition collectLoopBlks :: "graph \<Rightarrow> nat \<Rightarrow> nat \<Rightarrow> nat set option" where
  "collectLoopBlks G header hpred = collect_loop G {header, hpred} [hpred]"

text \<open>Is \<open>blk\<close> a proper ancestor of \<open>cur\<close> in the dominator tree?\<close>

partial_function (option) idom_reaches :: "graph \<Rightarrow> nat \<Rightarrow> nat \<Rightarrow> bool option" where
  "idom_reaches G blk cur =
     (case b_idom G cur of None \<Rightarrow> Some False
      | Some d \<Rightarrow> if d = blk then Some True else idom_reaches G blk d)"

declare idom_reaches.simps [code]

fun first_backedge :: "graph \<Rightarrow> nat \<Rightarrow> nat list \<Rightarrow> nat option option" where
  "first_backedge G blk [] = Some None"
| "first_backedge G blk (p # ps) =
     Option.bind (idom_reaches G blk p) (\<lambda>r.
       if r then Some (Some p) else first_backedge G blk ps)"

text \<open>The result is the header and the set \<open>ret\<close>, or \<open>None\<close> when \<open>ret\<close> stays empty.\<close>

partial_function (option) br_loop :: "graph \<Rightarrow> nat \<Rightarrow> nat \<Rightarrow> (nat \<times> nat set) option option" where
  "br_loop G brBlk blk =
     Option.bind (first_backedge G blk (b_preds G blk)) (\<lambda>r.
       case r of
         Some pred \<Rightarrow> Option.bind (collectLoopBlks G blk pred) (\<lambda>sset.
           Some (if brBlk \<in> sset then Some (blk, sset) else None))
       | None \<Rightarrow> (case b_idom G blk of None \<Rightarrow> Some None | Some d \<Rightarrow> br_loop G brBlk d))"

declare br_loop.simps [code]

definition getBrLoopBlocks :: "graph \<Rightarrow> nat \<Rightarrow> (nat \<times> nat set) option option" where
  "getBrLoopBlocks G brBlk = br_loop G brBlk brBlk"

definition isCondExit :: "graph \<Rightarrow> nat \<Rightarrow> nat set \<Rightarrow> bool" where
  "isCondExit G bb loop = list_ex (\<lambda>t. t \<notin> loop) (b_succs G bb)"

section \<open>The blocks of a back edge\<close>

definition back_step :: "graph \<Rightarrow> nat \<Rightarrow> (nat \<times> nat) set" where
  "back_step G h = {(y, x). x \<in> set (b_preds G y) \<and> x \<noteq> h}"

lemma back_stepI: "x \<in> set (b_preds G y) \<Longrightarrow> x \<noteq> h \<Longrightarrow> (y, x) \<in> back_step G h"
  by (simp add: back_step_def)

definition blocks_wf :: "graph \<Rightarrow> nat set \<Rightarrow> bool" where
  "blocks_wf G B = (finite B \<and> (\<forall>b \<in> B. set (b_preds G b) \<subseteq> B))"

lemma push_new_ok:
  assumes "push_new ps (S, st) = (S', st')"
  shows "S' = S \<union> set ps" and "\<exists>new. st' = new @ st \<and> set new = set ps - S \<and> distinct new"
  using assms
proof (induction ps arbitrary: S st)
  case (Cons p ps)
  {
    case 1
    then show ?case using Cons.IH(1) by (cases "p \<in> S") auto
  next
    case 2
    show ?case
    proof (cases "p \<in> S")
      case True
      then have "\<exists>new. st' = new @ st \<and> set new = set ps - S \<and> distinct new" using Cons.IH(2) 2 by simp
      then show ?thesis using True by (simp add: insert_Diff_if)
    next
      case False
      then obtain new where "st' = new @ p # st" "set new = set ps - insert p S" "distinct new"
        using Cons.IH(2) [of "insert p S" "p # st"] 2 by auto
      then show ?thesis using False by (intro exI [of _ "new @ [p]"]) auto
    qed
  }
qed auto

text \<open>Invariant: what is collected is reachable backwards, and the predecessors of everything that
  is no longer on the stack are collected.\<close>

definition collect_inv :: "graph \<Rightarrow> nat \<Rightarrow> nat \<Rightarrow> nat set \<Rightarrow> nat set \<Rightarrow> nat list \<Rightarrow> bool" where
  "collect_inv G h p B S st = (S \<subseteq> B \<and> set st \<subseteq> S \<and> h \<in> S \<and> p \<in> S \<and>
     (\<forall>b \<in> set st. (p, b) \<in> (back_step G h)\<^sup>*) \<and>
     (\<forall>b \<in> S. b = h \<or> (p, b) \<in> (back_step G h)\<^sup>*) \<and>
     (\<forall>b \<in> S - set st. b = h \<and> b \<noteq> p \<or> set (b_preds G b) \<subseteq> S))"

lemma collect_inv_step:
  assumes inv: "collect_inv G h p B S (cur # st)" and wf: "blocks_wf G B"
    and new: "S' = S \<union> set (b_preds G cur)" "st' = new @ st" "set new = set (b_preds G cur) - S"
  shows "collect_inv G h p B S' st'"
proof -
  note i = inv [unfolded collect_inv_def]
  have cur: "(p, cur) \<in> (back_step G h)\<^sup>*" "cur \<in> B" using i by auto
  have preds: "set (b_preds G cur) \<subseteq> B" using cur(2) wf by (auto simp: blocks_wf_def)
  have reach: "(p, b) \<in> (back_step G h)\<^sup>*" if "b \<in> set (b_preds G cur)" "b \<noteq> h" for b
    using cur(1) back_stepI [OF that] by (rule rtrancl_into_rtrancl)
  have 1: "S' \<subseteq> B" "set st' \<subseteq> S'" "h \<in> S'" "p \<in> S'" using i preds new by auto
  have 2: "\<forall>b \<in> set st'. (p, b) \<in> (back_step G h)\<^sup>*" using i new reach by auto
  have 3: "\<forall>b \<in> S'. b = h \<or> (p, b) \<in> (back_step G h)\<^sup>*" using i new(1) reach by blast
  have "b = h \<and> b \<noteq> p \<or> set (b_preds G b) \<subseteq> S'" if b: "b \<in> S' - set st'" for b
  proof (cases "b = cur")
    case True
    then show ?thesis using new(1) by simp
  next
    case False
    then have "b \<in> S - set (cur # st)" using b new by auto
    then show ?thesis using i new(1) by blast
  qed
  with 1 2 3 show ?thesis unfolding collect_inv_def by blast
qed

lemma collect_loop_ok:
  assumes "collect_inv G h p B S st" and "blocks_wf G B" and "distinct st"
  shows "\<exists>S'. collect_loop G S st = Some S' \<and> collect_inv G h p B S' []"
  using assms
proof (induction "card (B - S) + card (B - S) + length st" arbitrary: S st rule: less_induct)
  case less
  show ?case
  proof (cases st)
    case Nil
    then show ?thesis using less.prems(1) by (subst collect_loop.simps) simp
  next
    case (Cons cur st0)
    obtain S' st' where pn: "push_new (b_preds G cur) (S, st0) = (S', st')" by fastforce
    note S' = push_new_ok(1) [OF pn]
    obtain new where new: "st' = new @ st0" "set new = set (b_preds G cur) - S" "distinct new"
      using push_new_ok(2) [OF pn] by blast
    have inv: "collect_inv G h p B S' st'"
      using collect_inv_step [OF _ less.prems(2) S' new(1,2)] less.prems(1) Cons by simp
    have sub: "S \<subseteq> B" "set st \<subseteq> S" using less.prems(1) by (simp_all add: collect_inv_def)
    have fin: "finite B" using less.prems(2) by (simp add: blocks_wf_def)
    have "set new \<subseteq> B - S" using inv new S' unfolding collect_inv_def by blast
    moreover have "B - S' = (B - S) - set new" using S' new(2) by auto
    ultimately have "card (B - S') = card (B - S) - card (set new)" "card (set new) \<le> card (B - S)"
      using fin by (simp_all add: card_Diff_subset card_mono)
    then have "card (B - S') + length new = card (B - S)" using new(3) by (simp add: distinct_card)
    then have dec: "card (B - S') + card (B - S') + length st' < card (B - S) + card (B - S) + length st"
      using new(1) Cons by simp
    have "distinct st'" using less.prems(3) Cons new sub by auto
    from less.hyps [OF dec inv less.prems(2) this]
    show ?thesis using pn Cons by (subst collect_loop.simps) simp
  qed
qed

lemma collect_inv_reach:
  assumes inv: "collect_inv G h p B S []" and "(p, b) \<in> (back_step G h)\<^sup>*"
  shows "b \<in> S"
  using assms(2)
proof (induction rule: rtrancl_induct)
  case base
  then show ?case using inv by (simp add: collect_inv_def)
next
  case (step y z)
  then have z: "z \<in> set (b_preds G y)" "z \<noteq> h" by (simp_all add: back_step_def)
  have "y = p \<or> y \<noteq> h" using step.hyps(1) by (cases rule: rtrancl.cases) (auto simp: back_step_def)
  then have "set (b_preds G y) \<subseteq> S" using inv step.IH unfolding collect_inv_def by auto
  then show ?case using z by blast
qed

lemma collectLoopBlks_ok:
  assumes "blocks_wf G B" and "h \<in> B" and "p \<in> B"
  shows "collectLoopBlks G h p = Some (insert h {b. (p, b) \<in> (back_step G h)\<^sup>*})"
proof -
  have "collect_inv G h p B {h, p} [p]" using assms by (auto simp: collect_inv_def)
  then obtain S where S: "collect_loop G {h, p} [p] = Some S" "collect_inv G h p B S []"
    using collect_loop_ok [of G h p B "{h, p}" "[p]"] assms(1) by auto
  have "S = insert h {b. (p, b) \<in> (back_step G h)\<^sup>*}"
  proof
    show "S \<subseteq> insert h {b. (p, b) \<in> (back_step G h)\<^sup>*}" using S(2) by (auto simp: collect_inv_def)
    show "insert h {b. (p, b) \<in> (back_step G h)\<^sup>*} \<subseteq> S"
      using collect_inv_reach [OF S(2)] S(2) by (auto simp: collect_inv_def)
  qed
  then show ?thesis using S(1) by (simp add: collectLoopBlks_def)
qed

section \<open>Up the dominator tree\<close>

definition idom_rel :: "graph \<Rightarrow> (nat \<times> nat) set" where
  "idom_rel G = {(d, b). b_idom G b = Some d}"

text \<open>The dominator tree: parents have a smaller depth.\<close>

definition idom_tree :: "graph \<Rightarrow> (nat \<Rightarrow> nat) \<Rightarrow> bool" where
  "idom_tree G depth = (\<forall>b d. b_idom G b = Some d \<longrightarrow> depth d < depth b)"

lemma idom_reaches_ok:
  assumes "idom_tree G depth"
  shows "idom_reaches G blk cur = Some ((blk, cur) \<in> (idom_rel G)\<^sup>+)"
proof (induction "depth cur" arbitrary: cur rule: less_induct)
  case less
  show ?case
  proof (cases "b_idom G cur")
    case None
    then have "(blk, cur) \<notin> (idom_rel G)\<^sup>+" by (auto elim: tranclE simp: idom_rel_def)
    then show ?thesis using None by (subst idom_reaches.simps) simp
  next
    case (Some d)
    have step: "(blk, cur) \<in> (idom_rel G)\<^sup>+ \<longleftrightarrow> blk = d \<or> (blk, d) \<in> (idom_rel G)\<^sup>+"
      using Some by (auto elim: tranclE intro: trancl_into_trancl simp: idom_rel_def)
    have "depth d < depth cur" using assms Some by (simp add: idom_tree_def)
    from less.hyps [OF this] show ?thesis using Some step by (subst idom_reaches.simps) auto
  qed
qed

lemma first_backedge_ok:
  assumes "idom_tree G depth"
  shows "first_backedge G blk ps = Some (List.find (\<lambda>p. (blk, p) \<in> (idom_rel G)\<^sup>+) ps)"
  by (induction ps) (simp_all add: idom_reaches_ok [OF assms])

definition backedge :: "graph \<Rightarrow> nat \<Rightarrow> nat option" where
  "backedge G blk = List.find (\<lambda>p. (blk, p) \<in> (idom_rel G)\<^sup>+) (b_preds G blk)"

definition loop_of :: "graph \<Rightarrow> nat \<Rightarrow> nat \<Rightarrow> nat set" where
  "loop_of G h p = insert h {b. (p, b) \<in> (back_step G h)\<^sup>*}"

lemma br_loop_ok:
  assumes tree: "idom_tree G depth" and wf: "blocks_wf G B" and idB: "\<forall>b d. b \<in> B \<longrightarrow> b_idom G b = Some d \<longrightarrow> d \<in> B"
    and "blk \<in> B"
  shows "\<exists>r. br_loop G br blk = Some r \<and>
    (case r of
       Some (h, L) \<Rightarrow> (h, blk) \<in> (idom_rel G)\<^sup>* \<and> (\<exists>p. backedge G h = Some p \<and> L = loop_of G h p) \<and> br \<in> L \<and>
         (\<forall>d. (d, blk) \<in> (idom_rel G)\<^sup>* \<and> (h, d) \<in> (idom_rel G)\<^sup>+ \<longrightarrow> backedge G d = None)
     | None \<Rightarrow> (\<forall>d. (d, blk) \<in> (idom_rel G)\<^sup>* \<longrightarrow> backedge G d = None) \<or>
         (\<exists>h p. (h, blk) \<in> (idom_rel G)\<^sup>* \<and> backedge G h = Some p \<and> br \<notin> loop_of G h p \<and>
           (\<forall>d. (d, blk) \<in> (idom_rel G)\<^sup>* \<and> (h, d) \<in> (idom_rel G)\<^sup>+ \<longrightarrow> backedge G d = None)))"
  using \<open>blk \<in> B\<close>
proof (induction "depth blk" arbitrary: blk rule: less_induct)
  case less
  have irr: "(d, d) \<notin> (idom_rel G)\<^sup>+" for d
  proof -
    have "(a, b) \<in> (idom_rel G)\<^sup>+ \<Longrightarrow> depth a < depth b" for a b
      by (induction rule: trancl_induct) (use tree in \<open>auto simp: idom_tree_def idom_rel_def intro: less_trans\<close>)
    then show ?thesis by blast
  qed
  have fb: "first_backedge G blk (b_preds G blk) = Some (backedge G blk)"
    unfolding backedge_def by (rule first_backedge_ok [OF tree])
  show ?case
  proof (cases "backedge G blk")
    case (Some p)
    have "p \<in> set (b_preds G blk)" using Some unfolding backedge_def by (auto simp: find_Some_iff)
    then have "p \<in> B" using wf less.prems by (auto simp: blocks_wf_def)
    then have c: "collectLoopBlks G blk p = Some (loop_of G blk p)"
      unfolding loop_of_def using collectLoopBlks_ok [OF wf less.prems] by simp
    have none: "\<forall>d. (d, blk) \<in> (idom_rel G)\<^sup>* \<and> (blk, d) \<in> (idom_rel G)\<^sup>+ \<longrightarrow> backedge G d = None"
      using irr by (meson rtrancl_trancl_trancl)
    have "br_loop G br blk = Some (if br \<in> loop_of G blk p then Some (blk, loop_of G blk p) else None)"
      using Some c by (subst br_loop.simps) (simp add: fb)
    then show ?thesis using Some none by auto
  next
    case None
    show ?thesis
    proof (cases "b_idom G blk")
      case id: None
      have "br_loop G br blk = Some None" using None id by (subst br_loop.simps) (simp add: fb)
      moreover have "d = blk" if "(d, blk) \<in> (idom_rel G)\<^sup>*" for d
        using that id by (auto elim: rtranclE simp: idom_rel_def)
      ultimately show ?thesis using None by auto
    next
      case (Some d)
      have st: "(d, blk) \<in> idom_rel G" using Some by (simp add: idom_rel_def)
      have up: "(x, blk) \<in> (idom_rel G)\<^sup>* \<longleftrightarrow> x = blk \<or> (x, d) \<in> (idom_rel G)\<^sup>*" for x
        using Some st by (auto elim: rtranclE intro: rtrancl_into_rtrancl simp: idom_rel_def)
      have br: "br_loop G br blk = br_loop G br d" using None Some by (subst br_loop.simps) (simp add: fb)
      have "depth d < depth blk" "d \<in> B" using tree Some idB less.prems by (auto simp: idom_tree_def)
      from less.hyps [OF this] obtain r where r: "br_loop G br d = Some r" "case r of
         Some (h, L) \<Rightarrow> (h, d) \<in> (idom_rel G)\<^sup>* \<and> (\<exists>p. backedge G h = Some p \<and> L = loop_of G h p) \<and> br \<in> L \<and>
           (\<forall>e. (e, d) \<in> (idom_rel G)\<^sup>* \<and> (h, e) \<in> (idom_rel G)\<^sup>+ \<longrightarrow> backedge G e = None)
       | None \<Rightarrow> (\<forall>e. (e, d) \<in> (idom_rel G)\<^sup>* \<longrightarrow> backedge G e = None) \<or>
           (\<exists>h p. (h, d) \<in> (idom_rel G)\<^sup>* \<and> backedge G h = Some p \<and> br \<notin> loop_of G h p \<and>
             (\<forall>e. (e, d) \<in> (idom_rel G)\<^sup>* \<and> (h, e) \<in> (idom_rel G)\<^sup>+ \<longrightarrow> backedge G e = None))" by blast
      show ?thesis
      proof (cases r)
        case rN: None
        then show ?thesis using r None up by (auto simp: br)
      next
        case (Some hl)
        then show ?thesis using r None up by (auto simp: br)
      qed
    qed
  qed
qed

section \<open>Properties\<close>

definition graph0 :: graph where
  "graph0 = \<lparr>g_key = (\<lambda>_. VOther 0), g_block = (\<lambda>_. None), g_dg = (\<lambda>_. None), g_control = (\<lambda>_. []),
     g_rev_control = (\<lambda>_. []), g_data = (\<lambda>_. []), g_rev_data = (\<lambda>_. []), g_use = (\<lambda>_. []),
     g_user = (\<lambda>_. []), g_interf = (\<lambda>_. []), g_rev_interf = (\<lambda>_. []), b_nodes = (\<lambda>_. []),
     b_succs = (\<lambda>_. []), b_preds = (\<lambda>_. []), b_cd = (\<lambda>_. []), b_revcd = (\<lambda>_. []), b_pdf = (\<lambda>_. []),
     b_idom = (\<lambda>_. None), b_ipdom = (\<lambda>_. None), dg_entry = (\<lambda>_. None), dg_node = (\<lambda>_ _. None)\<rparr>"

text \<open>Two nested loops: the inner one has the blocks 2 and 3, the outer one 1 to 4, and block 4
  leaves the outer loop to block 5.\<close>

definition nested_loops :: graph where
  "nested_loops = graph0\<lparr>
     b_succs := (\<lambda>b. if b = 0 then [1] else if b = 1 then [2] else if b = 2 then [3, 4]
       else if b = 3 then [2] else if b = 4 then [1, 5] else []),
     b_preds := (\<lambda>b. if b = 1 then [0, 4] else if b = 2 then [1, 3] else if b = 3 then [2]
       else if b = 4 then [2] else if b = 5 then [4] else []),
     b_idom := (\<lambda>b. if b = 1 then Some 0 else if b = 2 then Some 1 else if b = 3 then Some 2
       else if b = 4 then Some 2 else if b = 5 then Some 4 else None)\<rparr>"

lemma nested_loops_wf:
  "blocks_wf nested_loops {0, 1, 2, 3, 4, 5}" "idom_tree nested_loops (\<lambda>b. b)"
  "\<forall>b d. b \<in> {0, 1, 2, 3, 4, 5} \<longrightarrow> b_idom nested_loops b = Some d \<longrightarrow> d \<in> {0, 1, 2, 3, 4, 5}"
  by (auto simp: nested_loops_def blocks_wf_def idom_tree_def split: if_splits)

text \<open>\<open>collectLoopBlks\<close> terminates, and for a back edge from \<open>p\<close> to the header \<open>h\<close> it returns
  exactly the natural loop: the header and every block from which \<open>p\<close> can be reached against
  the edges without passing through the header.\<close>

theorem collectLoopBlks_natural_loop:
  assumes "finite B" and "\<forall>b \<in> B. set (b_preds G b) \<subseteq> B" and "h \<in> B" and "p \<in> B"
  shows "collectLoopBlks G h p =
    Some (insert h {b. (p, b) \<in> {(y, x). x \<in> set (b_preds G y) \<and> x \<noteq> h}\<^sup>*})"
  using collectLoopBlks_ok [of G B h p] assms by (simp add: blocks_wf_def back_step_def)

theorem collectLoopBlks_natural_loop_witness:
  "collectLoopBlks nested_loops 1 4 =
    Some (insert 1 {b. (4, b) \<in> {(y, x). x \<in> set (b_preds nested_loops y) \<and> x \<noteq> 1}\<^sup>*}) \<and>
   collectLoopBlks nested_loops 1 4 = Some {1, 2, 3, 4}"
proof
  show "collectLoopBlks nested_loops 1 4 =
    Some (insert 1 {b. (4, b) \<in> {(y, x). x \<in> set (b_preds nested_loops y) \<and> x \<noteq> 1}\<^sup>*})"
    by (rule collectLoopBlks_natural_loop [of "{0, 1, 2, 3, 4, 5}"])
      (use nested_loops_wf(1) in \<open>auto simp: blocks_wf_def\<close>)
  show "collectLoopBlks nested_loops 1 4 = Some {1, 2, 3, 4}" by code_simp
qed

text \<open>C13: \<open>getBrLoopBlocks\<close> terminates on every finite graph with a dominator tree. If it returns a
  loop then the header dominates the branch block, the loop is the natural loop of the first
  back edge to the header and contains the branch block, and no dominator in between has a back
  edge; if it returns nothing, then the dominators of the block have no back edge, or the loop
  of the nearest dominator that has one does not contain the block.\<close>

theorem getBrLoopBlocks_correct:
  assumes "idom_tree G depth" and "blocks_wf G B"
    and "\<forall>b d. b \<in> B \<longrightarrow> b_idom G b = Some d \<longrightarrow> d \<in> B" and "br \<in> B"
  shows "\<exists>r. getBrLoopBlocks G br = Some r \<and>
    (case r of
       Some (h, L) \<Rightarrow> (h, br) \<in> (idom_rel G)\<^sup>* \<and> (\<exists>p. backedge G h = Some p \<and> L = loop_of G h p) \<and> br \<in> L \<and>
         (\<forall>d. (d, br) \<in> (idom_rel G)\<^sup>* \<and> (h, d) \<in> (idom_rel G)\<^sup>+ \<longrightarrow> backedge G d = None)
     | None \<Rightarrow> (\<forall>d. (d, br) \<in> (idom_rel G)\<^sup>* \<longrightarrow> backedge G d = None) \<or>
         (\<exists>h p. (h, br) \<in> (idom_rel G)\<^sup>* \<and> backedge G h = Some p \<and> br \<notin> loop_of G h p \<and>
           (\<forall>d. (d, br) \<in> (idom_rel G)\<^sup>* \<and> (h, d) \<in> (idom_rel G)\<^sup>+ \<longrightarrow> backedge G d = None)))"
  unfolding getBrLoopBlocks_def using assms by (rule br_loop_ok)

theorem getBrLoopBlocks_correct_witness:
  "\<exists>h L. getBrLoopBlocks nested_loops 3 = Some (Some (h, L)) \<and>
    (h, 3) \<in> (idom_rel nested_loops)\<^sup>* \<and> (\<exists>p. backedge nested_loops h = Some p \<and> L = loop_of nested_loops h p) \<and> 3 \<in> L"
proof -
  have "getBrLoopBlocks nested_loops 3 = Some (Some (2, {2, 3}))" by code_simp
  then show ?thesis
    using getBrLoopBlocks_correct [OF nested_loops_wf(2,1,3), of 3] by auto
qed


end
