(* ===== verification/Cape_Preload.thy ===== *)
theory Cape_Preload
  imports Cape_Loops
begin

text \<open>
  Preloading the code of a transaction (\<open>preloadBB\<close>, \<open>preloadBlockCode\<close>,
  \<open>preloadTransactionCode\<close> of \<^verbatim>\<open>include/dg/Slicing.h\<close>): a call that preloads the code of a
  function is added before the branch for every function the region calls, directly or not.
  The recursion of \<open>preloadBB\<close> is written with its stack: \<open>T_blk\<close> is a block that is to be
  scanned, \<open>T_at\<close> and \<open>T_after\<close> an iterator inside a block.
\<close>

section \<open>Scanning the code\<close>

datatype pl_task = T_blk nat | T_at nat inst | T_after nat inst

definition dbg_name :: "string \<Rightarrow> bool" where
  "dbg_name n = contains ''llvm.dbg.'' n"

text \<open>The called function if its name is new.\<close>

definition new_callee :: "ir \<Rightarrow> nat \<Rightarrow> inst \<Rightarrow> cape \<Rightarrow> nat option" where
  "new_callee I nd i s =
     (case callee (op_of I i) of None \<Rightarrow> None
      | Some f \<Rightarrow> if \<not> dbg_name (f_name I f) \<and> f_name I f \<notin> funcs s nd then Some f else None)"

definition add_preload :: "ir \<Rightarrow> nat \<Rightarrow> nat \<Rightarrow> string \<Rightarrow> cape \<Rightarrow> cape" where
  "add_preload I nd tx name s =
     (let s' = s\<lparr>funcs := (funcs s)(nd := insert name (funcs s nd))\<rparr> in
      insert_before (parent I tx) (Orig tx) (C_preload name) s')"

text \<open>\<open>nd\<close> is the node that owns the set of names, \<open>tx\<close> the instruction before which calls are added.\<close>

partial_function (option) preload_tasks :: "ir \<Rightarrow> nat \<Rightarrow> nat \<Rightarrow> pl_task list \<Rightarrow> cape \<Rightarrow> cape option" where
  "preload_tasks I nd tx tasks s =
     (case tasks of [] \<Rightarrow> Some s
      | t # ts \<Rightarrow> (case t of
          T_blk b \<Rightarrow> (case code s b of [] \<Rightarrow> preload_tasks I nd tx ts s
            | i # _ \<Rightarrow> preload_tasks I nd tx (T_at b i # ts) s)
        | T_at b i \<Rightarrow> (case new_callee I nd i s of
              None \<Rightarrow> preload_tasks I nd tx (T_after b i # ts) s
            | Some f \<Rightarrow> preload_tasks I nd tx (map T_blk (f_blocks I f) @ T_after b i # ts)
                 (add_preload I nd tx (f_name I f) s))
        | T_after b i \<Rightarrow> (case after_inst i (code s b) of [] \<Rightarrow> preload_tasks I nd tx ts s
            | j # _ \<Rightarrow> preload_tasks I nd tx (T_at b j # ts) s)))"

declare preload_tasks.simps [code]

definition preloadBB :: "ir \<Rightarrow> nat \<Rightarrow> nat \<Rightarrow> nat \<Rightarrow> cape \<Rightarrow> cape option" where
  "preloadBB I nd tx b s = preload_tasks I nd tx [T_blk b] s"

definition key_inst :: "graph \<Rightarrow> nat \<Rightarrow> nat option" where
  "key_inst G n = as_inst (g_key G n)"

text \<open>The LLVM block of a block of the dependence graph: the parent of its first instruction.\<close>

definition ir_block :: "ir \<Rightarrow> graph \<Rightarrow> nat \<Rightarrow> nat option" where
  "ir_block I G bb = map_option (parent I) (Option.bind (firstNode G bb) (key_inst G))"

definition preloadBlockCode :: "ir \<Rightarrow> graph \<Rightarrow> nat \<Rightarrow> nat \<Rightarrow> nat \<Rightarrow> cape \<Rightarrow> cape option" where
  "preloadBlockCode I G nd tx bb s = Option.bind (ir_block I G bb) (\<lambda>b. preloadBB I nd tx b s)"

section \<open>The blocks of the region\<close>

text \<open>The loop over the marked nodes of a block only reads the opcode of their instructions.\<close>

definition nodes_readable :: "graph \<Rightarrow> nat \<Rightarrow> cape \<Rightarrow> bool" where
  "nodes_readable G bb s = list_all (\<lambda>n. sl_node s n = 0 \<or> key_inst G n \<noteq> None) (b_nodes G bb)"

definition set_block :: "nat \<Rightarrow> 64 word \<Rightarrow> cape \<Rightarrow> cape" where
  "set_block bb sid s = s\<lparr>sl_block := (sl_block s)(bb := sid)\<rparr>"

definition visit_block :: "ir \<Rightarrow> graph \<Rightarrow> nat \<Rightarrow> nat \<Rightarrow> nat \<Rightarrow> cape \<Rightarrow> cape option" where
  "visit_block I G nd tx cur s =
     (if sl_block s cur \<noteq> 777
      then Option.bind (preloadBlockCode I G nd tx cur (set_block cur 777 s)) (\<lambda>s'.
        if nodes_readable G cur s' then Some s' else None)
      else Some s)"

fun push_back :: "nat list \<Rightarrow> nat set \<times> nat list \<Rightarrow> nat set \<times> nat list" where
  "push_back [] (myset, que) = (myset, que)"
| "push_back (b # bs) (myset, que) =
     push_back bs (if b \<in> myset then (myset, que) else (insert b myset, que @ [b]))"

partial_function (option) region_loop ::
    "ir \<Rightarrow> graph \<Rightarrow> nat \<Rightarrow> nat \<Rightarrow> nat set \<Rightarrow> nat list \<Rightarrow> cape \<Rightarrow> cape option" where
  "region_loop I G nd tx myset que s =
     (case que of [] \<Rightarrow> Some s
      | cur # que' \<Rightarrow> Option.bind (visit_block I G nd tx cur s) (\<lambda>s'.
          case push_back (b_succs G cur) (myset, que') of
            (myset', que'') \<Rightarrow> region_loop I G nd tx myset' que'' s'))"

declare region_loop.simps [code]

definition preloadTransactionCode :: "ir \<Rightarrow> graph \<Rightarrow> nat \<Rightarrow> nat \<Rightarrow> cape \<Rightarrow> cape option" where
  "preloadTransactionCode I G start end s =
     (if start = end then None
      else if sl_block s start = 777 then Some s
      else Option.bind (lastNode G start) (\<lambda>nd. Option.bind (key_inst G nd) (\<lambda>tx.
        Option.bind (ir_block I G start) (\<lambda>b.
          let name = f_name I (ib_fun I b);
              s1 = (if \<not> dbg_name name \<and> name \<notin> funcs s nd then add_preload I nd tx name s else s)
          in region_loop I G nd tx {start, end} [start] (set_block start 777 s1)))))"

section \<open>Functions that are preloaded\<close>

text \<open>All functions a call can name.\<close>

definition ir_wf :: "ir \<Rightarrow> cape \<Rightarrow> bool" where
  "ir_wf I s = (code_wf s \<and> (\<forall>n. rt_fun I n < n_funs I) \<and>
     (\<forall>b n f. Orig n \<in> set (code s b) \<longrightarrow> callee (opc I n) = Some f \<longrightarrow> f < n_funs I))"

definition names_left :: "ir \<Rightarrow> nat \<Rightarrow> cape \<Rightarrow> nat" where
  "names_left I nd s = card (f_name I ` {..<n_funs I} - funcs s nd)"

text \<open>The calls of an instruction list are preloaded.\<close>

definition covered :: "ir \<Rightarrow> string set \<Rightarrow> inst list \<Rightarrow> bool" where
  "covered I F is = (\<forall>i \<in> set is. \<forall>f. callee (op_of I i) = Some f \<longrightarrow> dbg_name (f_name I f) \<or> f_name I f \<in> F)"

fun task_code :: "cape \<Rightarrow> pl_task \<Rightarrow> inst list" where
  "task_code s (T_blk b) = code s b"
| "task_code s (T_at b i) = i # after_inst i (code s b)"
| "task_code s (T_after b i) = after_inst i (code s b)"

fun task_size :: "cape \<Rightarrow> pl_task \<Rightarrow> nat" where
  "task_size s (T_blk b) = 2 * length (code s b) + 1"
| "task_size s (T_at b i) = 2 * length (after_inst i (code s b)) + 2"
| "task_size s (T_after b i) = 2 * length (after_inst i (code s b)) + 1"

fun task_ok :: "cape \<Rightarrow> pl_task \<Rightarrow> bool" where
  "task_ok s (T_blk b) = True"
| "task_ok s (T_at b i) = (i \<in> set (code s b))"
| "task_ok s (T_after b i) = (i \<in> set (code s b))"

text \<open>What scanning does: the names \<open>new\<close> are added, one call for each.\<close>

definition with_preloads :: "ir \<Rightarrow> nat \<Rightarrow> nat \<Rightarrow> string list \<Rightarrow> cape \<Rightarrow> cape" where
  "with_preloads I nd tx new s =
     (insert_calls (parent I tx) (Orig tx) (map C_preload new) s)\<lparr>funcs := (funcs s)(nd := funcs s nd \<union> set new)\<rparr>"

lemma with_preloads_Nil [simp]: "with_preloads I nd tx [] s = s"
  by (simp add: with_preloads_def)

lemma insert_before_funcs:
  "insert_before b i c (s\<lparr>funcs := F\<rparr>) = (insert_before b i c s)\<lparr>funcs := F\<rparr>"
  by (simp add: insert_before_def)

lemma insert_calls_funcs:
  "insert_calls b i cs (s\<lparr>funcs := F\<rparr>) = (insert_calls b i cs s)\<lparr>funcs := F\<rparr>"
  by (induction cs arbitrary: s) (simp_all add: insert_before_funcs)

lemma add_preload_with: "add_preload I nd tx name s = with_preloads I nd tx [name] s"
  by (simp add: add_preload_def with_preloads_def insert_before_funcs)

lemma with_preloads_append:
  "with_preloads I nd tx ms (with_preloads I nd tx ns s) = with_preloads I nd tx (ns @ ms) s"
  by (simp add: with_preloads_def insert_calls_append insert_calls_funcs Un_assoc)

lemma with_preloads_funcs [simp]:
  "funcs (with_preloads I nd tx new s) = (funcs s)(nd := funcs s nd \<union> set new)"
  by (simp add: with_preloads_def)

lemma with_preloads_simps [simp]:
  "sl_node (with_preloads I nd tx new s) = sl_node s" "sl_block (with_preloads I nd tx new s) = sl_block s"
  "code (with_preloads I nd tx new s) = code (insert_calls (parent I tx) (Orig tx) (map C_preload new) s)"
  "fresh (with_preloads I nd tx new s) = fresh s + length new"
  by (simp_all add: with_preloads_def)

lemma with_preloads_code: "set (code s b) \<subseteq> set (code (with_preloads I nd tx new s) b)"
  by (simp add: set_insert_calls)

lemma code_wf_funcs [simp]: "code_wf (s\<lparr>funcs := F\<rparr>) = code_wf s"
  by (simp add: code_wf_def)

lemma code_wf_with_preloads: "code_wf s \<Longrightarrow> code_wf (with_preloads I nd tx new s)"
  by (simp add: with_preloads_def code_wf_insert_calls)

lemma set_insert_before_eq:
  "set (code (insert_before b i c s) b') = set (code s b') \<union> (if b' = b then {Ins (fresh s) c} else {})"
  using arg_cong [OF split_at, of set i "code s b"] by (auto simp: insert_before_def)

lemma orig_insert_before [simp]:
  "Orig n \<in> set (code (insert_before b i c s) b') \<longleftrightarrow> Orig n \<in> set (code s b')"
  by (simp add: set_insert_before_eq)

lemma orig_insert_calls [simp]:
  "Orig n \<in> set (code (insert_calls b i cs s) b') \<longleftrightarrow> Orig n \<in> set (code s b')"
  by (induction cs arbitrary: s) simp_all

lemma ir_wf_with_preloads: "ir_wf I s \<Longrightarrow> ir_wf I (with_preloads I nd tx new s)"
  by (simp add: ir_wf_def code_wf_with_preloads)

lemma covered_mono: "covered I F is \<Longrightarrow> F \<subseteq> F' \<Longrightarrow> covered I F' is"
  by (auto simp: covered_def)

lemma covered_subset: "covered I F js \<Longrightarrow> set is \<subseteq> set js \<Longrightarrow> covered I F is"
  by (auto simp: covered_def)

lemma covered_append [simp]: "covered I F (is @ js) \<longleftrightarrow> covered I F is \<and> covered I F js"
  by (auto simp: covered_def)

lemma covered_Cons:
  "covered I F (i # is) \<longleftrightarrow> (\<forall>f. callee (op_of I i) = Some f \<longrightarrow> dbg_name (f_name I f) \<or> f_name I f \<in> F) \<and> covered I F is"
  by (simp add: covered_def)

lemma after_inst_Cons: "after_inst i (x # xs) = (if x = i then xs else after_inst i xs)"
  by (simp add: after_inst_def at_inst_def)

lemma at_inst_Cons: "at_inst i (x # xs) = (if x = i then x # xs else at_inst i xs)"
  by (simp add: at_inst_def)

lemma after_inst_insert:
  "n \<noteq> i \<Longrightarrow> set (after_inst i xs) \<subseteq> set (after_inst i (takeWhile (\<lambda>k. k \<noteq> j) xs @ n # at_inst j xs))"
proof (induction xs)
  case Nil
  then show ?case by (simp add: after_inst_def at_inst_def)
next
  case (Cons x xs)
  have "set xs = set (takeWhile (\<lambda>k. k \<noteq> j) xs) \<union> set (at_inst j xs)"
    using arg_cong [OF split_at, of set j xs] by simp
  then show ?case using Cons by (auto simp: after_inst_Cons at_inst_Cons)
qed

lemma after_inst_insert_before:
  assumes "i \<in> set (code s b)" and "code_wf s"
  shows "set (after_inst i (code s b)) \<subseteq> set (after_inst i (code (insert_before b' j c s) b))"
proof (cases "b = b'")
  case True
  have "Ins (fresh s) c \<noteq> i" using assms unfolding code_wf_def by blast
  then show ?thesis using after_inst_insert [of "Ins (fresh s) c" i "code s b" j] True
    by (simp add: insert_before_def)
qed (simp add: insert_before_def)

lemma after_inst_next:
  assumes "after_inst i xs = j # ys" and "distinct xs"
  shows "after_inst j xs = ys" and "j \<in> set xs"
  using assms
proof (induction xs)
  case (Cons x xs)
  {
    case 1
    then show ?case using Cons by (auto simp: after_inst_Cons split: if_splits)
  next
    case 2
    then show ?case using Cons by (auto simp: after_inst_Cons split: if_splits)
  }
qed (simp_all add: after_inst_def at_inst_def)

section \<open>Scanning covers the region\<close>

definition scan_post :: "ir \<Rightarrow> nat \<Rightarrow> nat \<Rightarrow> pl_task list \<Rightarrow> cape \<Rightarrow> string list \<Rightarrow> bool" where
  "scan_post I nd tx ts s new =
     ((\<forall>t \<in> set ts. covered I (funcs s nd \<union> set new) (task_code s t)) \<and>
      distinct new \<and> set new \<inter> funcs s nd = {} \<and> (\<forall>n \<in> set new. \<not> dbg_name n) \<and>
      (\<forall>n \<in> set new. \<exists>f < n_funs I. f_name I f = n \<and>
         (\<forall>b \<in> set (f_blocks I f). covered I (funcs s nd \<union> set new) (code s b))))"

lemma scan_post_Cons:
  "scan_post I nd tx ts s new \<Longrightarrow> covered I (funcs s nd \<union> set new) (task_code s t) \<Longrightarrow>
   scan_post I nd tx (t # ts) s new"
  by (simp add: scan_post_def)

lemma scan_post_tail:
  "scan_post I nd tx (t' # ts) s new \<Longrightarrow> covered I (funcs s nd \<union> set new) (task_code s t) \<Longrightarrow>
   scan_post I nd tx (t # ts) s new"
  by (simp add: scan_post_def)

lemma callee_lt:
  assumes "ir_wf I s" and "i \<in> set (code s b)" and "callee (op_of I i) = Some f"
  shows "f < n_funs I"
  using assms by (cases i) (auto simp: ir_wf_def)

lemma names_left_less:
  assumes "f < n_funs I" and "f_name I f \<notin> funcs s nd"
  shows "names_left I nd (with_preloads I nd tx [f_name I f] s) < names_left I nd s"
proof -
  have "f_name I ` {..<n_funs I} - insert (f_name I f) (funcs s nd) \<subset> f_name I ` {..<n_funs I} - funcs s nd"
    using assms by blast
  then show ?thesis unfolding names_left_def by (simp add: psubset_card_mono insert_def [symmetric])
qed

lemma task_code_with_preload:
  assumes "task_ok s t" and "code_wf s"
  shows "set (task_code s t) \<subseteq> set (task_code (with_preloads I nd tx [n] s) t)"
  using assms after_inst_insert_before [of _ s _ "parent I tx" "Orig tx" "C_preload n"]
    set_insert_before [of s _ "parent I tx" "Orig tx" "C_preload n"]
  by (cases t) auto

lemma task_ok_with_preload:
  "task_ok s t \<Longrightarrow> task_ok (with_preloads I nd tx [n] s) t"
  using set_insert_before [of s _ "parent I tx" "Orig tx" "C_preload n"] by (cases t) auto

lemma scan_post_new:
  assumes wf: "ir_wf I s" and ok: "\<forall>t \<in> set (T_at b i # ts). task_ok s t"
    and f: "new_callee I nd i s = Some f"
    and post: "scan_post I nd tx (map T_blk (f_blocks I f) @ T_after b i # ts) (with_preloads I nd tx [f_name I f] s) new"
  shows "scan_post I nd tx (T_at b i # ts) s (f_name I f # new)"
proof -
  let ?s = "with_preloads I nd tx [f_name I f] s" and ?F = "funcs s nd \<union> set (f_name I f # new)"
  have cw: "code_wf s" using wf by (simp add: ir_wf_def)
  have F: "funcs ?s nd \<union> set new = ?F" by auto
  have c: "callee (op_of I i) = Some f" "\<not> dbg_name (f_name I f)" "f_name I f \<notin> funcs s nd"
    using f by (auto simp: new_callee_def split: option.splits if_splits)
  have lt: "f < n_funs I" using callee_lt [OF wf _ c(1)] ok by auto
  note p = post [unfolded scan_post_def F]
  have mono: "covered I ?F (task_code s t)" if "t \<in> set ts \<or> t = T_after b i" for t
  proof (rule covered_subset)
    show "covered I ?F (task_code ?s t)" using p that by auto
    have "task_ok s t" using ok that by auto
    then show "set (task_code s t) \<subseteq> set (task_code ?s t)" using cw by (rule task_code_with_preload)
  qed
  have blk: "covered I ?F (code s x)" if "covered I ?F (code ?s x)" for x
    using that covered_subset with_preloads_code by blast
  have "covered I ?F (i # after_inst i (code s b))"
    using mono [of "T_after b i"] c(1) by (simp add: covered_Cons)
  then have 1: "\<forall>t \<in> set (T_at b i # ts). covered I ?F (task_code s t)" using mono by simp
  have 2: "distinct (f_name I f # new)" "set (f_name I f # new) \<inter> funcs s nd = {}"
    "\<forall>n \<in> set (f_name I f # new). \<not> dbg_name n" using p c by auto
  have "covered I ?F (task_code ?s (T_blk x))" if "x \<in> set (f_blocks I f)" for x
    using p that unfolding set_append set_map by blast
  then have "\<forall>x \<in> set (f_blocks I f). covered I ?F (code s x)" using blk unfolding task_code.simps by blast
  moreover have "\<forall>n \<in> set new. \<exists>g < n_funs I. f_name I g = n \<and> (\<forall>x \<in> set (f_blocks I g). covered I ?F (code s x))"
    using p blk by meson
  ultimately have 3: "\<forall>n \<in> set (f_name I f # new). \<exists>g < n_funs I. f_name I g = n \<and>
      (\<forall>x \<in> set (f_blocks I g). covered I ?F (code s x))" using lt by auto
  show ?thesis unfolding scan_post_def using 1 2 3 by blast
qed

lemma preload_tasks_ok:
  assumes "ir_wf I s" and "\<forall>t \<in> set ts. task_ok s t"
  shows "\<exists>new. preload_tasks I nd tx ts s = Some (with_preloads I nd tx new s) \<and> scan_post I nd tx ts s new"
  using assms
proof (induction "(names_left I nd s, sum_list (map (task_size s) ts))" arbitrary: s ts
    rule: wf_induct_rule [OF wf_lex_prod [OF wf_less_than wf_less_than]])
  case (1 s ts)
  have d: "distinct (code s b)" for b using "1.prems"(1) by (simp add: ir_wf_def code_wf_def)
  have IH: "\<exists>new. preload_tasks I nd tx ts' s = Some (with_preloads I nd tx new s) \<and> scan_post I nd tx ts' s new"
    if "sum_list (map (task_size s) ts') < sum_list (map (task_size s) ts)" "\<forall>t \<in> set ts'. task_ok s t" for ts'
    using "1.hyps" [of s ts'] "1.prems"(1) that by simp
  show ?case
  proof (cases ts)
    case Nil
    then have "preload_tasks I nd tx ts s = Some (with_preloads I nd tx [] s)" by (subst preload_tasks.simps) simp
    then show ?thesis using Nil by (intro exI [of _ "[]"]) (simp add: scan_post_def)
  next
    case (Cons t us)
    show ?thesis
    proof (cases t)
      case (T_blk b)
      show ?thesis
      proof (cases "code s b")
        case Nil
        have "preload_tasks I nd tx ts s = preload_tasks I nd tx us s"
          using Cons T_blk Nil by (subst preload_tasks.simps) simp
        moreover obtain new where "preload_tasks I nd tx us s = Some (with_preloads I nd tx new s)"
          "scan_post I nd tx us s new" using IH [of us] "1.prems"(2) Cons T_blk by auto
        ultimately show ?thesis using Cons T_blk Nil by (auto intro!: scan_post_Cons simp: covered_def)
      next
        case code: (Cons i il)
        have "preload_tasks I nd tx ts s = preload_tasks I nd tx (T_at b i # us) s"
          using Cons T_blk code by (subst preload_tasks.simps) simp
        moreover obtain new where "preload_tasks I nd tx (T_at b i # us) s = Some (with_preloads I nd tx new s)"
          "scan_post I nd tx (T_at b i # us) s new"
          using IH [of "T_at b i # us"] "1.prems"(2) Cons T_blk code by (auto simp: after_inst_Cons)
        ultimately show ?thesis using Cons T_blk code
          by (auto intro!: scan_post_tail simp: scan_post_def after_inst_Cons)
      qed
    next
      case (T_after b i)
      show ?thesis
      proof (cases "after_inst i (code s b)")
        case Nil
        have "preload_tasks I nd tx ts s = preload_tasks I nd tx us s"
          using Cons T_after Nil by (subst preload_tasks.simps) simp
        moreover obtain new where "preload_tasks I nd tx us s = Some (with_preloads I nd tx new s)"
          "scan_post I nd tx us s new" using IH [of us] "1.prems"(2) Cons T_after by auto
        ultimately show ?thesis using Cons T_after Nil by (auto intro!: scan_post_Cons simp: covered_def)
      next
        case code: (Cons j js)
        note nx = after_inst_next [OF code d]
        have "preload_tasks I nd tx ts s = preload_tasks I nd tx (T_at b j # us) s"
          using Cons T_after code by (subst preload_tasks.simps) simp
        moreover obtain new where "preload_tasks I nd tx (T_at b j # us) s = Some (with_preloads I nd tx new s)"
          "scan_post I nd tx (T_at b j # us) s new"
          using IH [of "T_at b j # us"] "1.prems"(2) Cons T_after code nx by auto
        ultimately show ?thesis using Cons T_after code nx
          by (auto intro!: scan_post_tail simp: scan_post_def)
      qed
    next
      case (T_at b i)
      show ?thesis
      proof (cases "new_callee I nd i s")
        case None
        have "preload_tasks I nd tx ts s = preload_tasks I nd tx (T_after b i # us) s"
          using Cons T_at None by (subst preload_tasks.simps) simp
        moreover obtain new where "preload_tasks I nd tx (T_after b i # us) s = Some (with_preloads I nd tx new s)"
          "scan_post I nd tx (T_after b i # us) s new"
          using IH [of "T_after b i # us"] "1.prems"(2) Cons T_at by auto
        moreover have "dbg_name (f_name I f) \<or> f_name I f \<in> funcs s nd" if "callee (op_of I i) = Some f" for f
          using None that by (auto simp: new_callee_def split: if_splits)
        ultimately show ?thesis using Cons T_at
          by (auto intro!: scan_post_tail simp: covered_Cons scan_post_def)
      next
        case (Some f)
        let ?s = "with_preloads I nd tx [f_name I f] s" and ?ts = "map T_blk (f_blocks I f) @ T_after b i # us"
        have step: "preload_tasks I nd tx ts s = preload_tasks I nd tx ?ts ?s"
          using Cons T_at Some by (subst preload_tasks.simps) (simp add: add_preload_with)
        have c: "callee (op_of I i) = Some f" "f_name I f \<notin> funcs s nd"
          using Some by (auto simp: new_callee_def split: option.splits if_splits)
        have lt: "f < n_funs I" using callee_lt [OF "1.prems"(1) _ c(1)] "1.prems"(2) Cons T_at by auto
        have ok: "\<forall>t \<in> set ?ts. task_ok ?s t"
          using "1.prems"(2) task_ok_with_preload [of s] Cons T_at
          by (metis (no_types, lifting) UnE list.set_intros(1,2) set_ConsD set_append set_map image_iff task_ok.simps)
        have "((names_left I nd ?s, sum_list (map (task_size ?s) ?ts)),
            (names_left I nd s, sum_list (map (task_size s) ts))) \<in> less_than <*lex*> less_than"
          using names_left_less [OF lt c(2)] by simp
        then obtain new where "preload_tasks I nd tx ?ts ?s = Some (with_preloads I nd tx new ?s)"
          "scan_post I nd tx ?ts ?s new"
          using "1.hyps" [of ?s ?ts] ir_wf_with_preloads [OF "1.prems"(1)] ok by blast
        then show ?thesis
          using scan_post_new [where ts = us, OF "1.prems"(1) _ Some] "1.prems"(2) Cons T_at step
          by (auto simp: with_preloads_append)
      qed
    qed
  qed
qed

section \<open>The region of a transaction\<close>

definition mark_fun :: "nat set \<Rightarrow> (nat \<Rightarrow> 64 word) \<Rightarrow> nat \<Rightarrow> 64 word" where
  "mark_fun W f b = (if b \<in> W then 777 else f b)"

definition mark_blocks :: "nat set \<Rightarrow> cape \<Rightarrow> cape" where
  "mark_blocks W s = s\<lparr>sl_block := mark_fun W (sl_block s)\<rparr>"

lemma mark_fun_mark_fun [simp]: "mark_fun V (mark_fun W f) = mark_fun (W \<union> V) f"
  by (auto simp: mark_fun_def)

lemma mark_fun_empty [simp]: "mark_fun {} f = f"
  by (auto simp: mark_fun_def)

lemma mark_blocks_simps [simp]:
  "code (mark_blocks W s) = code s" "funcs (mark_blocks W s) = funcs s" "sl_node (mark_blocks W s) = sl_node s"
  "fresh (mark_blocks W s) = fresh s"
  "sl_block (mark_blocks W s) b = (if b \<in> W then 777 else sl_block s b)"
  by (simp_all add: mark_blocks_def mark_fun_def)

lemma insert_before_mark: "insert_before b i c (mark_blocks W s) = mark_blocks W (insert_before b i c s)"
  by (simp add: insert_before_def mark_blocks_def)

lemma insert_calls_mark: "insert_calls b i cs (mark_blocks W s) = mark_blocks W (insert_calls b i cs s)"
  by (induction cs arbitrary: s) (simp_all add: insert_before_mark)

lemma with_preloads_mark:
  "with_preloads I nd tx new (mark_blocks W s) = mark_blocks W (with_preloads I nd tx new s)"
  by (simp add: with_preloads_def insert_calls_mark) (simp add: mark_blocks_def)

lemma mark_blocks_mark: "mark_blocks V (mark_blocks W s) = mark_blocks (W \<union> V) s"
  by (simp add: mark_blocks_def)

lemma mark_blocks_empty [simp]: "mark_blocks {} s = s"
  by (simp add: mark_blocks_def)

lemma mark_blocks_marked:
  assumes "sl_block s b = 777"
  shows "mark_blocks {b} s = s"
proof -
  have "mark_fun {b} (sl_block s) = sl_block s" using assms by (auto simp: mark_fun_def)
  then show ?thesis by (simp add: mark_blocks_def)
qed

lemma set_block_mark: "set_block b 777 s = mark_blocks {b} s"
proof -
  have "(sl_block s)(b := 777) = mark_fun {b} (sl_block s)" by (auto simp: mark_fun_def)
  then show ?thesis by (simp add: set_block_def mark_blocks_def)
qed

lemma ir_wf_mark [simp]: "ir_wf I (mark_blocks W s) = ir_wf I s"
  by (simp add: ir_wf_def code_wf_def)

lemma scan_post_mark [simp]: "scan_post I nd tx [] (mark_blocks W s) new = scan_post I nd tx [] s new"
  by (simp add: scan_post_def)

lemma scan_post_compose:
  assumes "scan_post I nd tx [] s ms" and "scan_post I nd tx [] (with_preloads I nd tx ms s) ns"
  shows "scan_post I nd tx [] s (ms @ ns)"
proof -
  have F: "funcs (with_preloads I nd tx ms s) nd \<union> set ns = funcs s nd \<union> set (ms @ ns)" by auto
  have blk: "covered I F (code s x)" if "covered I F (code (with_preloads I nd tx ms s) x)" for F x
    using that covered_subset with_preloads_code by blast
  have mono: "covered I (funcs s nd \<union> set (ms @ ns)) (code s x)" if "covered I (funcs s nd \<union> set ms) (code s x)" for x
    using that by (rule covered_mono) auto
  note a = assms(1) [unfolded scan_post_def] and b = assms(2) [unfolded scan_post_def F]
  have "\<forall>n \<in> set (ms @ ns). \<exists>f < n_funs I. f_name I f = n \<and>
         (\<forall>b \<in> set (f_blocks I f). covered I (funcs s nd \<union> set (ms @ ns)) (code s b))"
  proof
    fix n assume "n \<in> set (ms @ ns)"
    then consider "n \<in> set ms" | "n \<in> set ns" by auto
    then show "\<exists>f < n_funs I. f_name I f = n \<and>
         (\<forall>b \<in> set (f_blocks I f). covered I (funcs s nd \<union> set (ms @ ns)) (code s b))"
    proof cases
      case 1
      then show ?thesis using a mono by meson
    next
      case 2
      then show ?thesis using b blk by meson
    qed
  qed
  then show ?thesis unfolding scan_post_def using a b by auto
qed

lemma visit_block_ok:
  assumes "ir_wf I s" and "sl_block s cur \<noteq> 777 \<longrightarrow> ir_block I G cur \<noteq> None \<and> nodes_readable G cur s"
  shows "\<exists>new. visit_block I G nd tx cur s = Some (mark_blocks {cur} (with_preloads I nd tx new s)) \<and>
    scan_post I nd tx [] s new \<and>
    (\<forall>b. sl_block s cur \<noteq> 777 \<longrightarrow> ir_block I G cur = Some b \<longrightarrow> covered I (funcs s nd \<union> set new) (code s b))"
proof (cases "sl_block s cur = 777")
  case True
  then show ?thesis
    by (intro exI [of _ "[]"]) (simp add: visit_block_def mark_blocks_marked scan_post_def)
next
  case False
  then obtain b where b: "ir_block I G cur = Some b" and rd: "nodes_readable G cur s" using assms(2) by auto
  have "ir_wf I (mark_blocks {cur} s)" using assms(1) by simp
  then obtain new where new: "preload_tasks I nd tx [T_blk b] (mark_blocks {cur} s) =
      Some (with_preloads I nd tx new (mark_blocks {cur} s))"
    "scan_post I nd tx [T_blk b] (mark_blocks {cur} s) new"
    using preload_tasks_ok [of I "mark_blocks {cur} s" "[T_blk b]" nd tx] by auto
  have "nodes_readable G cur (mark_blocks {cur} (with_preloads I nd tx new s))"
    using rd by (simp add: nodes_readable_def)
  then have "visit_block I G nd tx cur s = Some (mark_blocks {cur} (with_preloads I nd tx new s))"
    using False b new(1) by (simp add: visit_block_def preloadBlockCode_def preloadBB_def set_block_mark with_preloads_mark)
  then show ?thesis using new(2) b by (intro exI [of _ new]) (simp add: scan_post_def)
qed

lemma push_back_ok:
  assumes "push_back bs (S, que) = (S', que')"
  shows "S' = S \<union> set bs" and "\<exists>new. que' = que @ new \<and> set new = set bs - S \<and> distinct new"
  using assms
proof (induction bs arbitrary: S que)
  case (Cons b bs)
  {
    case 1
    then show ?case using Cons.IH(1) by (cases "b \<in> S") auto
  next
    case 2
    show ?case
    proof (cases "b \<in> S")
      case True
      then have "\<exists>new. que' = que @ new \<and> set new = set bs - S \<and> distinct new" using Cons.IH(2) 2 by simp
      then show ?thesis using True by (simp add: insert_Diff_if)
    next
      case False
      then obtain new where "que' = (que @ [b]) @ new" "set new = set bs - insert b S" "distinct new"
        using Cons.IH(2) [of "insert b S" "que @ [b]"] 2 by auto
      then show ?thesis using False by (intro exI [of _ "b # new"]) auto
    qed
  }
qed auto

definition region_step :: "graph \<Rightarrow> nat \<Rightarrow> (nat \<times> nat) set" where
  "region_step G end = {(x, y). y \<in> set (b_succs G x) \<and> y \<noteq> end}"

definition region :: "graph \<Rightarrow> nat \<Rightarrow> nat \<Rightarrow> nat set" where
  "region G start end = {b. (start, b) \<in> (region_step G end)\<^sup>*}"

definition region_wf :: "ir \<Rightarrow> graph \<Rightarrow> nat set \<Rightarrow> cape \<Rightarrow> bool" where
  "region_wf I G R s = (finite R \<and>
     (\<forall>b \<in> R. sl_block s b \<noteq> 777 \<longrightarrow> ir_block I G b \<noteq> None \<and> nodes_readable G b s))"

text \<open>What the region's preloading has done once the blocks \<open>W\<close> are visited.\<close>

definition region_post :: "ir \<Rightarrow> graph \<Rightarrow> nat \<Rightarrow> nat \<Rightarrow> nat set \<Rightarrow> cape \<Rightarrow> string list \<Rightarrow> bool" where
  "region_post I G nd tx W s new = (scan_post I nd tx [] s new \<and>
     (\<forall>bb \<in> W. \<forall>b. sl_block s bb \<noteq> 777 \<longrightarrow> ir_block I G bb = Some b \<longrightarrow>
        covered I (funcs s nd \<union> set new) (code s b)))"

lemma region_post_compose:
  assumes v: "scan_post I nd tx [] s ms"
      "\<forall>b. sl_block s cur \<noteq> 777 \<longrightarrow> ir_block I G cur = Some b \<longrightarrow> covered I (funcs s nd \<union> set ms) (code s b)"
    and r: "region_post I G nd tx W (mark_blocks {cur} (with_preloads I nd tx ms s)) ns"
  shows "region_post I G nd tx (insert cur W) s (ms @ ns)"
proof -
  have F: "funcs (mark_blocks {cur} (with_preloads I nd tx ms s)) nd \<union> set ns = funcs s nd \<union> set (ms @ ns)" by auto
  note r' = r [unfolded region_post_def F]
  have "scan_post I nd tx [] s (ms @ ns)" using v(1) r' scan_post_compose by simp
  moreover have "covered I (funcs s nd \<union> set (ms @ ns)) (code s b)"
    if "bb \<in> insert cur W" "sl_block s bb \<noteq> 777" "ir_block I G bb = Some b" for bb b
  proof (cases "bb = cur")
    case True
    then have "covered I (funcs s nd \<union> set ms) (code s b)" using v(2) that by blast
    then show ?thesis by (rule covered_mono) auto
  next
    case False
    then have "covered I (funcs s nd \<union> set (ms @ ns)) (code (with_preloads I nd tx ms s) b)"
      using r' that by auto
    then show ?thesis by (rule covered_subset) (rule with_preloads_code)
  qed
  ultimately show ?thesis unfolding region_post_def by blast
qed

lemma region_loop_ok:
  assumes "ir_wf I s" and "region_wf I G R s" and "set que \<subseteq> R" and "set que \<subseteq> V" and "distinct que"
    and "\<forall>b \<in> R. \<forall>x \<in> set (b_succs G b). x \<in> R \<or> x = end" and "end \<in> V"
    and "\<forall>b \<in> set que. (start, b) \<in> (region_step G end)\<^sup>*"
  shows "\<exists>W new. region_loop I G nd tx V que s = Some (mark_blocks W (with_preloads I nd tx new s)) \<and>
    region_post I G nd tx W s new \<and> set que \<subseteq> W \<and> (\<forall>b \<in> W. set (b_succs G b) \<subseteq> W \<union> V) \<and>
    (\<forall>b \<in> W. (start, b) \<in> (region_step G end)\<^sup>*)"
  using assms
proof (induction "card (R - V) + length que" arbitrary: V que s rule: less_induct)
  case less
  show ?case
  proof (cases que)
    case Nil
    then have "region_loop I G nd tx V que s = Some (mark_blocks {} (with_preloads I nd tx [] s))"
      by (subst region_loop.simps) simp
    then show ?thesis using Nil
      by (intro exI [of _ "{}"] exI [of _ "[]"]) (simp add: region_post_def scan_post_def)
  next
    case (Cons cur que0)
    have cR: "cur \<in> R" using less.prems(3) Cons by simp
    obtain ms where ms: "visit_block I G nd tx cur s = Some (mark_blocks {cur} (with_preloads I nd tx ms s))"
      "scan_post I nd tx [] s ms"
      "\<forall>b. sl_block s cur \<noteq> 777 \<longrightarrow> ir_block I G cur = Some b \<longrightarrow> covered I (funcs s nd \<union> set ms) (code s b)"
      using visit_block_ok [OF less.prems(1), of cur G nd tx] less.prems(2) cR by (auto simp: region_wf_def)
    let ?s = "mark_blocks {cur} (with_preloads I nd tx ms s)"
    obtain V' que' where pb: "push_back (b_succs G cur) (V, que0) = (V', que')" by fastforce
    note V' = push_back_ok(1) [OF pb]
    obtain new where new: "que' = que0 @ new" "set new = set (b_succs G cur) - V" "distinct new"
      using push_back_ok(2) [OF pb] by blast
    have fin: "finite R" using less.prems(2) by (simp add: region_wf_def)
    have newR: "set new \<subseteq> R - V" using new(2) less.prems(6,7) cR by blast
    have "R - V' = (R - V) - set new" using V' new(2) by auto
    then have "card (R - V') = card (R - V) - card (set new)" "card (set new) \<le> card (R - V)"
      using fin newR by (simp_all add: card_Diff_subset card_mono)
    then have dec: "card (R - V') + length que' < card (R - V) + length que"
      using new(1,3) Cons by (simp add: distinct_card)
    have wf: "ir_wf I ?s" using less.prems(1) by (simp add: ir_wf_with_preloads)
    have rwf: "region_wf I G R ?s" using less.prems(2) by (auto simp: region_wf_def nodes_readable_def)
    have q: "set que' \<subseteq> R" "set que' \<subseteq> V'" "distinct que'" "end \<in> V'"
      using less.prems(3,4,5,7) Cons new newR V' by auto
    have cr: "(start, cur) \<in> (region_step G end)\<^sup>*" using less.prems(8) Cons by simp
    have qr: "\<forall>b \<in> set que'. (start, b) \<in> (region_step G end)\<^sup>*"
    proof
      fix b assume "b \<in> set que'"
      then consider "b \<in> set que0" | "b \<in> set (b_succs G cur)" "b \<noteq> end" using new less.prems(7) by auto
      then show "(start, b) \<in> (region_step G end)\<^sup>*"
      proof cases
        case 1
        then show ?thesis using less.prems(8) Cons by simp
      next
        case 2
        then have "(cur, b) \<in> region_step G end" by (simp add: region_step_def)
        with cr show ?thesis by (rule rtrancl_into_rtrancl)
      qed
    qed
    obtain W ns where W: "region_loop I G nd tx V' que' ?s = Some (mark_blocks W (with_preloads I nd tx ns ?s))"
      "region_post I G nd tx W ?s ns" "set que' \<subseteq> W" "\<forall>b \<in> W. set (b_succs G b) \<subseteq> W \<union> V'"
      "\<forall>b \<in> W. (start, b) \<in> (region_step G end)\<^sup>*"
      using less.hyps [OF dec wf rwf q(1,2,3) less.prems(6) q(4) qr] by blast
    have "region_loop I G nd tx V que s = Some (mark_blocks (insert cur W) (with_preloads I nd tx (ms @ ns) s))"
      using Cons ms(1) pb W(1)
      by (subst region_loop.simps) (simp add: with_preloads_mark mark_blocks_mark with_preloads_append)
    moreover have "region_post I G nd tx (insert cur W) s (ms @ ns)"
      using ms(2,3) W(2) by (rule region_post_compose)
    moreover have "set que \<subseteq> insert cur W" using W(3) new(1) Cons by auto
    moreover have "\<forall>b \<in> insert cur W. set (b_succs G b) \<subseteq> insert cur W \<union> V"
    proof -
      have sc: "set (b_succs G cur) \<subseteq> W \<union> V" using W(3) new(1,2) by auto
      then have "W \<union> V' \<subseteq> insert cur W \<union> V" using V' by auto
      then show ?thesis using W(4) sc by (intro ballI) (erule insertE, blast, blast)
    qed
    moreover have "\<forall>b \<in> insert cur W. (start, b) \<in> (region_step G end)\<^sup>*" using W(5) cr by blast
    ultimately show ?thesis by blast
  qed
qed

lemma region_closed:
  assumes "start \<in> W" and "\<forall>b \<in> W. set (b_succs G b) \<subseteq> W \<union> {start, end}"
    and "\<forall>b \<in> W. (start, b) \<in> (region_step G end)\<^sup>*"
  shows "W = region G start end"
proof
  show "W \<subseteq> region G start end" using assms(3) by (auto simp: region_def)
  have "b \<in> W" if "(start, b) \<in> (region_step G end)\<^sup>*" for b
    using that by (induction rule: rtrancl_induct) (use assms(1,2) in \<open>auto simp: region_step_def\<close>)
  then show "region G start end \<subseteq> W" by (auto simp: region_def)
qed

lemma region_start [simp]: "start \<in> region G start end"
  by (simp add: region_def)

lemma region_succs: "b \<in> region G start end \<Longrightarrow> x \<in> set (b_succs G b) \<Longrightarrow> x \<in> region G start end \<or> x = end"
  by (auto simp: region_def region_step_def intro: rtrancl_into_rtrancl)

definition head_names :: "ir \<Rightarrow> nat \<Rightarrow> nat \<Rightarrow> cape \<Rightarrow> string list" where
  "head_names I nd b s = (let name = f_name I (ib_fun I b) in
     if \<not> dbg_name name \<and> name \<notin> funcs s nd then [name] else [])"

lemma preloadTransactionCode_steps:
  assumes "start \<noteq> end" and "sl_block s start \<noteq> 777" and "lastNode G start = Some nd"
    and "key_inst G nd = Some tx" and "ir_block I G start = Some b0"
  shows "preloadTransactionCode I G start end s =
    region_loop I G nd tx {start, end} [start] (mark_blocks {start} (with_preloads I nd tx (head_names I nd b0 s) s))"
  using assms by (simp add: preloadTransactionCode_def Let_def add_preload_with set_block_mark head_names_def)

lemma preloadTransactionCode_ok:
  assumes wf: "ir_wf I s" and ne: "start \<noteq> end" "sl_block s start \<noteq> 777"
    and nd: "lastNode G start = Some nd" "key_inst G nd = Some tx" "ir_block I G start = Some b0"
    and reg: "region_wf I G (region G start end) s"
  shows "\<exists>new. preloadTransactionCode I G start end s = Some (mark_blocks (region G start end) (with_preloads I nd tx new s)) \<and>
    distinct new \<and> set new \<inter> funcs s nd = {} \<and> (\<forall>n \<in> set new. \<not> dbg_name n) \<and>
    covered I (funcs s nd \<union> set new) [] \<and>
    set (head_names I nd b0 s) \<subseteq> set new \<and>
    (\<forall>bb \<in> region G start end - {start}. \<forall>b. sl_block s bb \<noteq> 777 \<longrightarrow> ir_block I G bb = Some b \<longrightarrow>
       covered I (funcs s nd \<union> set new) (code s b)) \<and>
    (\<forall>n \<in> set new - set (head_names I nd b0 s). \<exists>f < n_funs I. f_name I f = n \<and>
       (\<forall>b \<in> set (f_blocks I f). covered I (funcs s nd \<union> set new) (code s b)))"
proof -
  let ?h = "head_names I nd b0 s" and ?R = "region G start end"
  let ?s = "mark_blocks {start} (with_preloads I nd tx ?h s)"
  have "ir_wf I ?s" using wf by (simp add: ir_wf_with_preloads)
  moreover have "region_wf I G ?R ?s" using reg by (auto simp: region_wf_def nodes_readable_def)
  moreover have "\<forall>b \<in> ?R. \<forall>x \<in> set (b_succs G b). x \<in> ?R \<or> x = end" using region_succs by blast
  ultimately obtain W new where W: "region_loop I G nd tx {start, end} [start] ?s = Some (mark_blocks W (with_preloads I nd tx new ?s))"
    "region_post I G nd tx W ?s new" "start \<in> W" "\<forall>b \<in> W. set (b_succs G b) \<subseteq> W \<union> {start, end}"
    "\<forall>b \<in> W. (start, b) \<in> (region_step G end)\<^sup>*"
    using region_loop_ok [of I ?s G ?R "[start]" "{start, end}" "end" start nd tx] by auto
  have WR: "W = ?R" using W(3,4,5) by (rule region_closed)
  have eq: "preloadTransactionCode I G start end s = Some (mark_blocks ?R (with_preloads I nd tx (?h @ new) s))"
    using W(1) WR insert_absorb [OF region_start]
    by (simp add: preloadTransactionCode_steps [OF ne nd] with_preloads_mark mark_blocks_mark with_preloads_append)
  have F: "funcs ?s nd \<union> set new = funcs s nd \<union> set (?h @ new)" by auto
  have blk: "covered I F (code s x)" if "covered I F (code ?s x)" for F x
    using that covered_subset with_preloads_code by (metis mark_blocks_simps(1))
  note p = W(2) [unfolded region_post_def scan_post_def F WR]
  have "distinct (?h @ new)" using p by (auto simp: head_names_def Let_def)
  moreover have "set (?h @ new) \<inter> funcs s nd = {}" using p by (auto simp: head_names_def Let_def)
  moreover have "\<forall>n \<in> set (?h @ new). \<not> dbg_name n" using p by (auto simp: head_names_def Let_def)
  moreover have "covered I (funcs s nd \<union> set (?h @ new)) (code s b)"
    if "bb \<in> ?R - {start}" "sl_block s bb \<noteq> 777" "ir_block I G bb = Some b" for bb b
    using that p by (intro blk) auto
  moreover have "\<exists>f < n_funs I. f_name I f = n \<and> (\<forall>b \<in> set (f_blocks I f). covered I (funcs s nd \<union> set (?h @ new)) (code s b))"
    if "n \<in> set (?h @ new) - set ?h" for n
  proof -
    have "n \<in> set new" using that by auto
    then show ?thesis using p blk by meson
  qed
  ultimately show ?thesis using eq by (intro exI [of _ "?h @ new"]) (auto simp: covered_def)
qed

section \<open>Properties\<close>

text \<open>A program of three functions: the branch 10 of \<open>main\<close> guards block 1, which calls \<open>f\<close>; \<open>f\<close>
  calls \<open>g\<close> and \<open>g\<close> calls \<open>f\<close>. Function 3 stands for the run-time library.\<close>

definition ex_ir :: ir where
  "ex_ir = \<lparr>opc = (\<lambda>i. if i = 10 \<or> i = 12 then Br True else if i = 11 \<or> i = 16 then CallI (Some 1)
       else if i = 14 then CallI (Some 2) else Ret),
     parent = (\<lambda>i. if i = 10 then 0 else if i = 11 \<or> i = 12 then 1 else if i = 13 then 2
       else if i = 14 \<or> i = 15 then 3 else 4),
     opnd = (\<lambda>_ _. VOther 0), ib_fun = (\<lambda>b. if b < 3 then 0 else b - 2), n_funs = 4,
     f_name = (\<lambda>f. if f = 0 then ''main'' else if f = 1 then ''f'' else if f = 2 then ''g'' else ''rt''),
     f_blocks = (\<lambda>f. if f = 0 then [0, 1, 2] else if f = 1 then [3] else if f = 2 then [4] else []),
     rt_fun = (\<lambda>_. 3), gv_secret = (\<lambda>_. False), gv_name = (\<lambda>_. ''''), gv_size = (\<lambda>_. 4),
     ai_array_size = (\<lambda>_. VConst 1), ai_size = (\<lambda>_. 4), points_to = (\<lambda>_. []), ps_value = (\<lambda>_. None)\<rparr>"

definition ex_graph :: graph where
  "ex_graph = graph0\<lparr>g_key := VInst,
     g_block := (\<lambda>n. if n = 10 then Some 0 else if n = 11 \<or> n = 12 then Some 1 else if n = 13 then Some 2 else None),
     b_nodes := (\<lambda>b. if b = 0 then [10] else if b = 1 then [11, 12] else if b = 2 then [13] else []),
     b_succs := (\<lambda>b. if b = 0 then [1, 2] else if b = 1 then [2] else []),
     b_preds := (\<lambda>b. if b = 1 then [0] else if b = 2 then [0, 1] else []),
     b_idom := (\<lambda>b. if b = 1 \<or> b = 2 then Some 0 else None),
     b_ipdom := (\<lambda>b. if b = 0 \<or> b = 1 then Some 2 else None)\<rparr>"

definition ex_code :: "nat \<Rightarrow> inst list" where
  "ex_code b = (if b = 0 then [Orig 10] else if b = 1 then [Orig 11, Orig 12] else if b = 2 then [Orig 13]
     else if b = 3 then [Orig 14, Orig 15] else if b = 4 then [Orig 16, Orig 17] else [])"

definition cape0 :: "(nat \<Rightarrow> inst list) \<Rightarrow> cape" where
  "cape0 c = \<lparr>sl_node = (\<lambda>_. 0), sl_block = (\<lambda>_. 0), sl_dg = (\<lambda>_. 0), buf = (\<lambda>_. 0), allocId = 0,
     funcs = (\<lambda>_. {''_Z15preloadInstAddrPc''}), code = c, fresh = 0, lastwalk = (\<lambda>_. 0), run_id = 0,
     w_queue = [], n_parent = (\<lambda>_. None), markedBlocks = {}\<rparr>"

lemma ex_wf: "ir_wf ex_ir (cape0 ex_code)"
  by (auto simp: ir_wf_def code_wf_def cape0_def ex_code_def ex_ir_def split: if_splits)

lemma ex_region_sub: "region ex_graph 0 2 \<subseteq> {0, 1}"
proof
  fix b assume "b \<in> region ex_graph 0 2"
  then have "(0, b) \<in> (region_step ex_graph 2)\<^sup>*" by (simp add: region_def)
  then show "b \<in> {0, 1}"
    by (induction rule: rtrancl_induct) (auto simp: region_step_def ex_graph_def split: if_splits)
qed

lemma ex_region_wf: "region_wf ex_ir ex_graph (region ex_graph 0 2) (cape0 ex_code)"
  using ex_region_sub finite_subset [OF ex_region_sub]
  by (auto simp: region_wf_def ir_block_def firstNode_def key_inst_def nodes_readable_def ex_graph_def
      ex_ir_def cape0_def)



end
