(* ===== verification/Cape_Transactions.thy ===== *)
theory Cape_Transactions
  imports Cape_Preload Ordered_Map
begin

text \<open>
  Placing transactions and preloads (\<^verbatim>\<open>include/dg/Slicing.h\<close>): the begin and end of a
  transaction around a branch or a loop, the preloads of the data, and the searches that find the
  highest branch an access depends on.
\<close>

section \<open>Definitions\<close>

text \<open>The data to preload: \<open>std::set\<close>s, iterated in increasing order.\<close>

record accs =
  x_allocs :: "32 word list"
  x_mallocs :: "32 word list"
  x_globals :: "nat list"

definition no_accs :: accs where
  "no_accs = \<lparr>x_allocs = [], x_mallocs = [], x_globals = []\<rparr>"

definition nothing_to_preload :: "accs \<Rightarrow> bool" where
  "nothing_to_preload X = (x_allocs X = [] \<and> x_mallocs X = [] \<and> x_globals X = [])"

definition set_node :: "nat \<Rightarrow> 32 word \<Rightarrow> cape \<Rightarrow> cape" where
  "set_node n sid s = s\<lparr>sl_node := (sl_node s)(n := sid)\<rparr>"

definition is_br :: "ir \<Rightarrow> inst \<Rightarrow> bool" where
  "is_br I i = (case op_of I i of Br _ \<Rightarrow> True | _ \<Rightarrow> False)"

definition addTransactionStart :: "nat \<Rightarrow> inst \<Rightarrow> cape \<Rightarrow> cape" where
  "addTransactionStart b i s = insert_before b i C_start s"

text \<open>The end of the transaction is added before the first instruction from \<open>n\<close> on that is no
  \<open>\<phi>\<close>-instruction.\<close>

definition add_end :: "ir \<Rightarrow> graph \<Rightarrow> nat \<Rightarrow> cape \<Rightarrow> cape option" where
  "add_end I G n s =
     Option.bind (key_inst G n) (\<lambda>i. Option.bind (non_phi I i s) (\<lambda>j.
       Some (insert_before (parent I i) j C_end s)))"

definition addTransactionEnd :: "ir \<Rightarrow> graph \<Rightarrow> nat \<Rightarrow> bool \<Rightarrow> cape \<Rightarrow> cape option" where
  "addTransactionEnd I G BB isBr s =
     Option.bind (b_ipdom G BB) (\<lambda>S.
       case (if isBr then firstNode G S else lastNode G BB) of
         None \<Rightarrow> Some s
       | Some first \<Rightarrow> Option.bind (add_end I G first s) (\<lambda>s'.
           if isBr then preloadTransactionCode I G BB S s' else Some s'))"

partial_function (option) leave_loop :: "graph \<Rightarrow> nat set \<Rightarrow> nat \<Rightarrow> nat option" where
  "leave_loop G loop b =
     (case b_ipdom G b of None \<Rightarrow> None
      | Some d \<Rightarrow> if d \<notin> loop then Some d else leave_loop G loop d)"

declare leave_loop.simps [code]

definition addTransactionEndForLoop ::
    "ir \<Rightarrow> graph \<Rightarrow> nat \<Rightarrow> nat set \<Rightarrow> 32 word \<Rightarrow> cape \<Rightarrow> cape option" where
  "addTransactionEndForLoop I G preh loop sid s =
     Option.bind (leave_loop G loop preh) (\<lambda>curB.
       Option.bind (if sl_block s curB \<noteq> ucast sid
                    then Option.bind (firstNode G curB) (\<lambda>first. add_end I G first (set_block curB (ucast sid) s))
                    else Some s)
         (preloadTransactionCode I G preh curB))"

fun checkAddressDependency :: "graph \<Rightarrow> nat list \<Rightarrow> val \<Rightarrow> 32 word \<Rightarrow> cape \<Rightarrow> bool \<times> cape" where
  "checkAddressDependency G [] addr sid s = (False, s)"
| "checkAddressDependency G (n # ns) addr sid s =
     (if sl_node s n = 0 \<or> sl_node s n = sid - 1 then checkAddressDependency G ns addr sid s
      else if as_inst (g_key G n) \<noteq> None \<and> g_key G n = addr then (True, set_node n sid s)
      else checkAddressDependency G ns addr sid s)"

definition preload_calls :: "ir \<Rightarrow> accs \<Rightarrow> rtcall list" where
  "preload_calls I X = map C_iter_alloc (x_allocs X) @ map C_iter_malloc (x_mallocs X) @
     map (\<lambda>g. C_iter_global (gv_size I g) g) (x_globals X)"

definition addPreLoad :: "ir \<Rightarrow> nat \<Rightarrow> inst \<Rightarrow> accs \<Rightarrow> cape \<Rightarrow> cape" where
  "addPreLoad I b i X s = insert_calls b i (preload_calls I X) s"

definition processHighestBr :: "ir \<Rightarrow> graph \<Rightarrow> nat \<Rightarrow> 32 word \<Rightarrow> accs \<Rightarrow> cape \<Rightarrow> cape option" where
  "processHighestBr I G bn sid X s =
     Option.bind (key_inst G bn) (\<lambda>i0. Option.bind (non_phi I i0 s) (\<lambda>i. Option.bind (g_block G bn) (\<lambda>CD.
       let b = parent I i0 in
       if sl_block s CD \<noteq> ucast sid \<and> sl_block s CD \<noteq> 777
       then if nothing_to_preload X then Some s
            else Option.bind (addTransactionEnd I G CD (is_br I i)
                   (addTransactionStart b i (set_block CD (ucast sid) s)))
                 (\<lambda>s'. Some (addPreLoad I b i X s'))
       else Some (addPreLoad I b i X s))))"

definition placeTransForLoop ::
    "ir \<Rightarrow> graph \<Rightarrow> nat \<Rightarrow> nat set \<Rightarrow> 32 word \<Rightarrow> accs \<Rightarrow> cape \<Rightarrow> cape option" where
  "placeTransForLoop I G bn blks sid X s =
     Option.bind (g_block G bn) (\<lambda>CD. Option.bind (b_idom G CD) (\<lambda>S. Option.bind (lastNode G S) (\<lambda>node.
       if sl_node s node \<noteq> 888
       then if nothing_to_preload X then Some s
            else Option.bind (key_inst G node) (\<lambda>i.
              Option.bind (addTransactionEndForLoop I G S blks sid
                  (addTransactionStart (parent I i) (Orig i) (set_node node 888 s)))
                (\<lambda>s'. Some (addPreLoad I (parent I i) (Orig i) X s')))
       else Option.bind (key_inst G node) (\<lambda>i. Some (addPreLoad I (parent I i) (Orig i) X s)))))"

text \<open>A dependence that is ignored: the node lies in the same dependence graph.\<close>

definition same_dg :: "graph \<Rightarrow> nat option \<Rightarrow> nat \<Rightarrow> bool" where
  "same_dg G dg n = (\<not> is_fun (g_key G n) \<and>
     (case dg of None \<Rightarrow> False | Some d \<Rightarrow> dg_node G d (g_key G n) \<noteq> None))"

text \<open>\<open>HB BB ND\<close> is a call of \<open>processBBlockIDomsAndNodeRevCDs\<close>, \<open>HL dg ns\<close> one of its two loops
  over the nodes a node of the graph \<open>dg\<close> is control dependent on.\<close>

datatype hb_task = HB "nat option" "nat option" | HL "nat option" "nat list"

definition br_of :: "ir \<Rightarrow> graph \<Rightarrow> nat \<Rightarrow> cape \<Rightarrow> bool" where
  "br_of I G n s = (case key_inst G n of None \<Rightarrow> False | Some i \<Rightarrow> is_br I (Orig i))"

definition marked_block :: "cape \<Rightarrow> nat option \<Rightarrow> bool" where
  "marked_block s BB = (case BB of None \<Rightarrow> False | Some b \<Rightarrow> sl_block s b \<noteq> 0)"

definition hb_final :: "ir \<Rightarrow> graph \<Rightarrow> 32 word \<Rightarrow> accs \<Rightarrow> nat option \<Rightarrow> cape \<Rightarrow> (bool \<times> cape) option" where
  "hb_final I G sid X CD s =
     (case CD of None \<Rightarrow> Some (False, s)
      | Some c \<Rightarrow>
          if sl_block s c = 0 then Some (False, s)
          else (case lastNode G c of None \<Rightarrow> Some (False, s)
            | Some la \<Rightarrow>
                if sl_node s la = 0 \<or> \<not> br_of I G la s then Some (False, s)
                else Option.bind (processHighestBr I G la sid X s) (\<lambda>s'. Some (True, s'))))"

partial_function (option) hb ::
    "ir \<Rightarrow> graph \<Rightarrow> 32 word \<Rightarrow> accs \<Rightarrow> hb_task \<Rightarrow> cape \<Rightarrow> (bool \<times> cape) option" where
  "hb I G sid X t s =
     (case t of
        HL dg ns \<Rightarrow>
          (case ns of [] \<Rightarrow> Some (False, s)
           | n # ns' \<Rightarrow>
               if same_dg G dg n then hb I G sid X (HL dg ns') s
               else Option.bind (hb I G sid X (HB (g_block G n) (Some n)) s) (\<lambda>r.
                 if fst r then Some r else hb I G sid X (HL dg ns') (snd r)))
      | HB BB ND \<Rightarrow>
          (let CD = (if marked_block s BB then b_idom G (the BB) else None) in
           Option.bind (if marked_block s CD then hb I G sid X (HB CD None) s else Some (False, s)) (\<lambda>r1.
             if fst r1 then Some r1 else
             Option.bind (if marked_block s BB
               then (case firstNode G (the BB) of None \<Rightarrow> Some (False, snd r1)
                 | Some inst \<Rightarrow> hb I G sid X (HL (g_dg G inst) (g_rev_control G inst)) (snd r1))
               else Some (False, snd r1)) (\<lambda>r2.
                 if fst r2 then Some r2 else
                 Option.bind (case ND of None \<Rightarrow> Some (False, snd r2)
                   | Some nd \<Rightarrow> if sl_node (snd r2) nd = 0 then Some (False, snd r2)
                       else hb I G sid X (HL (g_dg G nd) (g_rev_control G nd)) (snd r2)) (\<lambda>r3.
                     if fst r3 then Some r3 else hb_final I G sid X CD (snd r3))))))"

declare hb.simps [code]

definition processBBlockIDomsAndNodeRevCDs ::
    "ir \<Rightarrow> graph \<Rightarrow> nat option \<Rightarrow> nat option \<Rightarrow> 32 word \<Rightarrow> accs \<Rightarrow> cape \<Rightarrow> (bool \<times> cape) option" where
  "processBBlockIDomsAndNodeRevCDs I G BB ND sid X s = hb I G sid X (HB BB ND) s"

text \<open>The loop over the blocks \<open>BB\<close> is control dependent on; \<open>loop\<close> is \<open>Some blks\<close> when \<open>isLoop\<close>.\<close>

fun revcd_loop ::
    "ir \<Rightarrow> graph \<Rightarrow> nat set option \<Rightarrow> 32 word \<Rightarrow> accs \<Rightarrow> nat list \<Rightarrow> cape \<Rightarrow> (bool \<times> cape) option" where
  "revcd_loop I G loop sid X [] s = Some (False, s)"
| "revcd_loop I G loop sid X (CD # CDs) s =
     (if sl_block s CD = 0 \<or> (case loop of None \<Rightarrow> False | Some blks \<Rightarrow> CD \<in> blks)
      then revcd_loop I G loop sid X CDs s
      else (case lastNode G CD of None \<Rightarrow> revcd_loop I G loop sid X CDs s
        | Some la \<Rightarrow>
            if sl_node s la = 0 \<or> \<not> br_of I G la s then revcd_loop I G loop sid X CDs s
            else Option.bind (processBBlockIDomsAndNodeRevCDs I G (Some CD) None sid X s) (\<lambda>(r, s1).
              if r then Some (True, s1)
              else Option.bind (processHighestBr I G la sid X s1) (\<lambda>s2. Some (True, s2)))))"

definition processBBlockRevCDs ::
    "ir \<Rightarrow> graph \<Rightarrow> nat set option \<Rightarrow> bool \<Rightarrow> nat option \<Rightarrow> 32 word \<Rightarrow> accs \<Rightarrow> cape \<Rightarrow> (bool \<times> cape) option" where
  "processBBlockRevCDs I G loop addDep BB sid X s =
     (case BB of None \<Rightarrow> Some (False, s)
      | Some bb \<Rightarrow>
          Option.bind (revcd_loop I G loop sid X (b_revcd G bb) s) (\<lambda>(r1, s1).
            if r1 then Some (True, s1) else
            Option.bind (firstNode G bb) (\<lambda>inst.
              Option.bind (hb I G sid X (HL (g_dg G inst) (g_rev_control G inst)) s1) (\<lambda>(r2, s2).
                if r2 then Some (True, s2) else
                Option.bind (case loop of
                    Some blks \<Rightarrow> placeTransForLoop I G inst blks sid X s2
                  | None \<Rightarrow> if addDep then processHighestBr I G inst sid X s2 else Some s2)
                  (\<lambda>s3. Some (False, s3))))))"


section \<open>One placement per search\<close>

text \<open>What a search that succeeds has done: one call of \<open>processHighestBr\<close>, on the branch at the
  end of a marked block.\<close>

definition placed_at :: "ir \<Rightarrow> graph \<Rightarrow> 32 word \<Rightarrow> accs \<Rightarrow> cape \<Rightarrow> cape \<Rightarrow> bool" where
  "placed_at I G sid X s s' = (\<exists>c n. sl_block s c \<noteq> 0 \<and> lastNode G c = Some n \<and> sl_node s n \<noteq> 0 \<and>
     br_of I G n s \<and> processHighestBr I G n sid X s = Some s')"

definition one_placement :: "ir \<Rightarrow> graph \<Rightarrow> 32 word \<Rightarrow> accs \<Rightarrow> cape \<Rightarrow> bool \<times> cape \<Rightarrow> bool" where
  "one_placement I G sid X s r = (if fst r then placed_at I G sid X s (snd r) else snd r = s)"

lemma one_placement_simps [simp]:
  "one_placement I G sid X s (False, s)"
  "one_placement I G sid X s (True, s') = placed_at I G sid X s s'"
  by (simp_all add: one_placement_def)

lemma one_placement_seq:
  assumes "one_placement I G sid X s r" and "\<not> fst r \<Longrightarrow> one_placement I G sid X (snd r) r'"
  shows "one_placement I G sid X s (if fst r then r else r')"
  using assms by (auto simp: one_placement_def split: if_splits)

lemma hb_final_one:
  assumes "hb_final I G sid X CD s = Some r"
  shows "one_placement I G sid X s r"
  using assms by (auto simp: hb_final_def placed_at_def bind_eq_Some_conv split: option.splits if_splits) blast

lemma hb_one:
  assumes "hb I G sid X t s = Some r"
  shows "one_placement I G sid X s r"
proof (rule hb.raw_induct [OF _ assms], goal_cases)
  case (1 rec I G sid X t s r)
  note IH = 1(1) and eq = 1(2)
  show ?case
  proof (cases t)
    case (HL dg ns)
    show ?thesis
    proof (cases ns)
      case Nil
      then show ?thesis using eq HL by auto
    next
      case (Cons n ns')
      show ?thesis
      proof (cases "same_dg G dg n")
        case True
        then show ?thesis using eq HL Cons IH by auto
      next
        case False
        then obtain r1 where r1: "rec I G sid X (HB (g_block G n) (Some n)) s = Some r1"
          "(if fst r1 then Some r1 else rec I G sid X (HL dg ns') (snd r1)) = Some r"
          using eq HL Cons by (auto simp: bind_eq_Some_conv)
        then show ?thesis using IH [OF r1(1)] IH [of I G sid X "HL dg ns'" "snd r1" r]
          by (auto simp: one_placement_def split: if_splits)
      qed
    qed
  next
    case (HB BB ND)
    let ?CD = "if marked_block s BB then b_idom G (the BB) else None"
    obtain r1 where r1: "(if marked_block s ?CD then rec I G sid X (HB ?CD None) s else Some (False, s)) = Some r1"
      and k1: "(if fst r1 then Some r1 else
         Option.bind (if marked_block s BB
           then (case firstNode G (the BB) of None \<Rightarrow> Some (False, snd r1)
             | Some inst \<Rightarrow> rec I G sid X (HL (g_dg G inst) (g_rev_control G inst)) (snd r1))
           else Some (False, snd r1)) (\<lambda>r2.
             if fst r2 then Some r2 else
             Option.bind (case ND of None \<Rightarrow> Some (False, snd r2)
               | Some nd \<Rightarrow> if sl_node (snd r2) nd = 0 then Some (False, snd r2)
                   else rec I G sid X (HL (g_dg G nd) (g_rev_control G nd)) (snd r2)) (\<lambda>r3.
                 if fst r3 then Some r3 else hb_final I G sid X ?CD (snd r3)))) = Some r"
      using eq HB by (auto simp: bind_eq_Some_conv Let_def)
    have o1: "one_placement I G sid X s r1" using r1 IH by (auto split: if_splits)
    show ?thesis
    proof (cases "fst r1")
      case True
      then show ?thesis using o1 k1 by simp
    next
      case False
      then have s1: "snd r1 = s" using o1 by (simp add: one_placement_def)
      obtain r2 where r2: "(if marked_block s BB
           then (case firstNode G (the BB) of None \<Rightarrow> Some (False, s)
             | Some inst \<Rightarrow> rec I G sid X (HL (g_dg G inst) (g_rev_control G inst)) s)
           else Some (False, s)) = Some r2"
        and k2: "(if fst r2 then Some r2 else
             Option.bind (case ND of None \<Rightarrow> Some (False, snd r2)
               | Some nd \<Rightarrow> if sl_node (snd r2) nd = 0 then Some (False, snd r2)
                   else rec I G sid X (HL (g_dg G nd) (g_rev_control G nd)) (snd r2)) (\<lambda>r3.
                 if fst r3 then Some r3 else hb_final I G sid X ?CD (snd r3))) = Some r"
        using k1 False unfolding s1 by (auto simp: bind_eq_Some_conv)
      have o2: "one_placement I G sid X s r2" using r2 IH by (auto split: if_splits option.splits)
      show ?thesis
      proof (cases "fst r2")
        case True
        then show ?thesis using o2 k2 by simp
      next
        case False
        then have s2: "snd r2 = s" using o2 by (simp add: one_placement_def)
        obtain r3 where r3: "(case ND of None \<Rightarrow> Some (False, s)
               | Some nd \<Rightarrow> if sl_node s nd = 0 then Some (False, s)
                   else rec I G sid X (HL (g_dg G nd) (g_rev_control G nd)) s) = Some r3"
          and k3: "(if fst r3 then Some r3 else hb_final I G sid X ?CD (snd r3)) = Some r"
          using k2 False unfolding s2 by (auto simp: bind_eq_Some_conv)
        have o3: "one_placement I G sid X s r3" using r3 IH by (auto split: if_splits option.splits)
        show ?thesis
        proof (cases "fst r3")
          case True
          then show ?thesis using o3 k3 by simp
        next
          case False
          then have "snd r3 = s" using o3 by (simp add: one_placement_def)
          then show ?thesis using k3 False hb_final_one by simp
        qed
      qed
    qed
  qed
qed

lemma revcd_loop_one:
  "revcd_loop I G loop sid X CDs s = Some r \<Longrightarrow> one_placement I G sid X s r"
proof (induction CDs)
  case (Cons CD CDs)
  show ?case
  proof (cases "sl_block s CD = 0 \<or> (case loop of None \<Rightarrow> False | Some blks \<Rightarrow> CD \<in> blks)")
    case True
    then show ?thesis using Cons by simp
  next
    case False
    then show ?thesis
    proof (cases "lastNode G CD")
      case None
      then show ?thesis using Cons False by simp
    next
      case (Some la)
      show ?thesis
      proof (cases "sl_node s la = 0 \<or> \<not> br_of I G la s")
        case True
        then show ?thesis using Cons False Some by (cases "sl_node s la = 0") simp_all
      next
        case ok: False
        obtain r1 s1 where r1: "hb I G sid X (HB (Some CD) None) s = Some (r1, s1)"
          "(if r1 then Some (True, s1) else Option.bind (processHighestBr I G la sid X s1) (\<lambda>s2. Some (True, s2))) = Some r"
          using Cons.prems False Some ok
          by (auto simp: bind_eq_Some_conv processBBlockIDomsAndNodeRevCDs_def)
        note o = hb_one [OF r1(1)]
        show ?thesis
        proof (cases r1)
          case True
          then show ?thesis using o r1(2) by auto
        next
          case rf: False
          then have "s1 = s" using o by (simp add: one_placement_def)
          moreover obtain s2 where "processHighestBr I G la sid X s1 = Some s2" "r = (True, s2)"
            using r1(2) rf by (auto simp: bind_eq_Some_conv)
          ultimately show ?thesis using False Some ok by (auto simp: placed_at_def)
        qed
      qed
    qed
  qed
qed auto

lemma processBBlockRevCDs_cases:
  assumes "processBBlockRevCDs I G loop addDep (Some bb) sid X s = Some (r, s')"
  shows "if r then placed_at I G sid X s s'
    else (\<exists>inst. firstNode G bb = Some inst \<and>
      (case loop of Some blks \<Rightarrow> placeTransForLoop I G inst blks sid X s = Some s'
        | None \<Rightarrow> if addDep then processHighestBr I G inst sid X s = Some s' else s' = s))"
proof -
  obtain r1 s1 where r1: "revcd_loop I G loop sid X (b_revcd G bb) s = Some (r1, s1)"
    and k1: "(if r1 then Some (True, s1) else
            Option.bind (firstNode G bb) (\<lambda>inst.
              Option.bind (hb I G sid X (HL (g_dg G inst) (g_rev_control G inst)) s1) (\<lambda>(r2, s2).
                if r2 then Some (True, s2) else
                Option.bind (case loop of
                    Some blks \<Rightarrow> placeTransForLoop I G inst blks sid X s2
                  | None \<Rightarrow> if addDep then processHighestBr I G inst sid X s2 else Some s2)
                  (\<lambda>s3. Some (False, s3))))) = Some (r, s')"
    using assms by (auto simp: processBBlockRevCDs_def bind_eq_Some_conv)
  note o1 = revcd_loop_one [OF r1]
  show ?thesis
  proof (cases r1)
    case True
    then show ?thesis using o1 k1 by auto
  next
    case False
    then have s1: "s1 = s" using o1 by (simp add: one_placement_def)
    obtain inst r2 s2 where f: "firstNode G bb = Some inst"
      and h: "hb I G sid X (HL (g_dg G inst) (g_rev_control G inst)) s = Some (r2, s2)"
      and k2: "(if r2 then Some (True, s2) else
                Option.bind (case loop of
                    Some blks \<Rightarrow> placeTransForLoop I G inst blks sid X s2
                  | None \<Rightarrow> if addDep then processHighestBr I G inst sid X s2 else Some s2)
                  (\<lambda>s3. Some (False, s3))) = Some (r, s')"
      using k1 False s1 by (auto simp: bind_eq_Some_conv)
    note o2 = hb_one [OF h]
    show ?thesis
    proof (cases r2)
      case True
      then show ?thesis using o2 k2 by auto
    next
      case False
      then have "s2 = s" using o2 by (simp add: one_placement_def)
      then show ?thesis using k2 False f by (cases loop) (auto simp: bind_eq_Some_conv split: if_splits)
    qed
  qed
qed


section \<open>A transaction around a branch\<close>

lemma skip_phi_in: "skip_phi I is = Some i \<Longrightarrow> i \<in> set is"
  by (induction "is") (auto split: if_splits)

lemma at_inst_sub: "set (at_inst i is) \<subseteq> set is"
  unfolding at_inst_def by (rule set_dropWhileD [THEN subsetI])

lemma non_phi_in: "non_phi I i s = Some j \<Longrightarrow> j \<in> set (code s (parent I i))"
  unfolding non_phi_def using skip_phi_in at_inst_sub by blast

lemma non_phi_br:
  assumes "Orig i \<in> set (code s (parent I i))" and "opc I i = Br c"
  shows "non_phi I i s = Some (Orig i)"
  using assms by (simp add: non_phi_def at_inst_in)

lemma insert_before_one:
  assumes "i \<in> set (code s b)" and "code_wf s"
  shows "code (insert_before b i c s) =
    (code s)(b := takeWhile (\<lambda>j. j \<noteq> i) (code s b) @ Ins (fresh s) c # at_inst i (code s b))"
  by (simp add: insert_before_def)

lemma code_after_head:
  assumes "Orig i \<in> set (code s b)" and "code_wf s"
    and "code s' b = takeWhile (\<lambda>j. j \<noteq> Orig i) (code s b) @ Ins k c # at_inst (Orig i) (code s b)"
  shows "takeWhile (\<lambda>j. j \<noteq> Orig i) (code s' b) = takeWhile (\<lambda>j. j \<noteq> Orig i) (code s b) @ [Ins k c]"
    and "at_inst (Orig i) (code s' b) = at_inst (Orig i) (code s b)"
proof -
  obtain ys zs where sp: "code s b = ys @ Orig i # zs" "Orig i \<notin> set ys"
    using split_list_first [OF assms(1)] by blast
  have n: "Orig i \<notin> set (ys @ [Ins k c])" using sp(2) by simp
  have "code s' b = (ys @ [Ins k c]) @ Orig i # zs" using assms(3) sp(1) at_split [OF sp(2), of zs] by simp
  then show "takeWhile (\<lambda>j. j \<noteq> Orig i) (code s' b) = takeWhile (\<lambda>j. j \<noteq> Orig i) (code s b) @ [Ins k c]"
    "at_inst (Orig i) (code s' b) = at_inst (Orig i) (code s b)"
    using at_split(1,2) [OF n, of zs] at_split(1,2) [OF sp(2), of zs] sp(1) by simp_all
qed

lemma addPreLoad_with_preloads:
  "code (addPreLoad I (parent I tx) (Orig tx) X (mark_blocks W (with_preloads I nd tx new s))) =
   code (insert_calls (parent I tx) (Orig tx) (map C_preload new @ preload_calls I X) s)"
  by (simp add: addPreLoad_def with_preloads_def insert_calls_mark insert_calls_funcs insert_calls_append)

lemma ir_wf_insert_before: "ir_wf I s \<Longrightarrow> ir_wf I (insert_before b i c s)"
  by (simp add: ir_wf_def code_wf_insert)

lemma ir_wf_set_block [simp]: "ir_wf I (set_block b sid s) = ir_wf I s"
  by (simp add: ir_wf_def code_wf_def set_block_def)

lemma set_block_simps [simp]:
  "code (set_block b sid s) = code s" "fresh (set_block b sid s) = fresh s" "sl_node (set_block b sid s) = sl_node s"
  "funcs (set_block b sid s) = funcs s" "sl_block (set_block b sid s) = (sl_block s)(b := sid)"
  by (simp_all add: set_block_def)

lemma non_phi_cong: "code s' (parent I i) = code s (parent I i) \<Longrightarrow> non_phi I i s' = non_phi I i s"
  by (simp add: non_phi_def)

lemma ucast_777: "ucast (sid :: 32 word) = (777 :: 64 word) \<longleftrightarrow> sid = 777"
  by transfer (auto simp: take_bit_int_eq_self_iff take_bit_take_bit)

text \<open>A branch block that can get a transaction: its terminator \<open>bn\<close> is the branch instruction
  \<open>i\<close>, its immediate post-dominator \<open>S\<close> is another LLVM block, where the end goes before \<open>e\<close>.\<close>

definition br_block :: "ir \<Rightarrow> graph \<Rightarrow> cape \<Rightarrow> nat \<Rightarrow> nat \<Rightarrow> nat \<Rightarrow> nat \<Rightarrow> nat \<Rightarrow> inst \<Rightarrow> bool" where
  "br_block I G s bn i CD S f e =
     (key_inst G bn = Some i \<and> (\<exists>c. opc I i = Br c) \<and> Orig i \<in> set (code s (parent I i)) \<and>
      g_block G bn = Some CD \<and> lastNode G CD = Some bn \<and> ir_block I G CD = Some (parent I i) \<and>
      b_ipdom G CD = Some S \<and> S \<noteq> CD \<and> firstNode G S = Some f \<and>
      (\<exists>j. key_inst G f = Some j \<and> non_phi I j s = Some e \<and> parent I j \<noteq> parent I i) \<and>
      region_wf I G (region G CD S) s)"

lemma processHighestBr_new:
  assumes wf: "ir_wf I s" and br: "br_block I G s bn i CD S f e"
    and sid: "sl_block s CD \<noteq> ucast sid" "sl_block s CD \<noteq> 777" "sid \<noteq> 777"
    and X: "\<not> nothing_to_preload X" and j: "key_inst G f = Some j"
  shows "\<exists>new s'. processHighestBr I G bn sid X s = Some s' \<and>
    code s' (parent I i) = takeWhile (\<lambda>k. k \<noteq> Orig i) (code s (parent I i)) @ Ins (fresh s) C_start #
      number (fresh s + 2) (map C_preload new @ preload_calls I X) @ at_inst (Orig i) (code s (parent I i)) \<and>
    code s' (parent I j) = takeWhile (\<lambda>k. k \<noteq> e) (code s (parent I j)) @ Ins (fresh s + 1) C_end #
      at_inst e (code s (parent I j)) \<and>
    (\<forall>b. b \<noteq> parent I i \<longrightarrow> b \<noteq> parent I j \<longrightarrow> code s' b = code s b) \<and>
    (\<forall>b. sl_block s' b = (if b \<in> region G CD S then 777 else sl_block s b)) \<and>
    (\<forall>bb \<in> region G CD S - {CD}. \<forall>b. sl_block s bb \<noteq> 777 \<longrightarrow> ir_block I G bb = Some b \<longrightarrow>
       covered I (funcs s bn \<union> set new) (code s b))"
proof -
  note b = br [unfolded br_block_def]
  let ?b = "parent I i" and ?bj = "parent I j"
  have cw: "code_wf s" using wf by (simp add: ir_wf_def)
  have oi: "Orig i \<in> set (code s ?b)" "key_inst G bn = Some i" "g_block G bn = Some CD" using b by blast+
  have isbr: "is_br I (Orig i)" "non_phi I i s = Some (Orig i)" using b non_phi_br by (auto simp: is_br_def)
  have e: "non_phi I j s = Some e" "?bj \<noteq> ?b" using b j by auto
  have u: "ucast sid \<noteq> (777 :: 64 word)" using sid(3) by (simp add: ucast_777)
  define s1 where "s1 = insert_before ?b (Orig i) C_start (set_block CD (ucast sid) s)"
  define s2 where "s2 = insert_before ?bj e C_end s1"
  have wf1: "ir_wf I s1" unfolding s1_def using wf by (simp add: ir_wf_insert_before)
  have c1: "code s1 ?b = takeWhile (\<lambda>k. k \<noteq> Orig i) (code s ?b) @ Ins (fresh s) C_start # at_inst (Orig i) (code s ?b)"
    "b' \<noteq> ?b \<Longrightarrow> code s1 b' = code s b'" for b' by (simp_all add: s1_def insert_before_def)
  have np: "non_phi I j s1 = Some e" using non_phi_cong [of s1 I j s] c1(2) [of ?bj] e by simp
  have end1: "addTransactionEnd I G CD True s1 = preloadTransactionCode I G CD S s2"
    using b j np by (simp add: addTransactionEnd_def add_end_def s2_def)
  have wf2: "ir_wf I s2" unfolding s2_def using wf1 by (rule ir_wf_insert_before)
  have c2: "code s2 ?bj = takeWhile (\<lambda>k. k \<noteq> e) (code s ?bj) @ Ins (fresh s + 1) C_end # at_inst e (code s ?bj)"
    "b' \<noteq> ?bj \<Longrightarrow> code s2 b' = code s1 b'" for b'
    using c1(2) [of ?bj] e(2) by (simp_all add: s2_def insert_before_def s1_def)
  have sl2: "sl_block s2 = (sl_block s)(CD := ucast sid)" "funcs s2 = funcs s" "fresh s2 = fresh s + 2"
    by (simp_all add: s2_def s1_def)
  have rw: "region_wf I G (region G CD S) s2"
    using b sid(2) region_start [of CD G S] by (auto simp: region_wf_def nodes_readable_def s2_def s1_def)
  have pre: "CD \<noteq> S" "sl_block s2 CD \<noteq> 777" "lastNode G CD = Some bn" "ir_block I G CD = Some ?b"
    using b u by (auto simp: sl2)
  obtain new where new: "preloadTransactionCode I G CD S s2 = Some (mark_blocks (region G CD S) (with_preloads I bn i new s2))"
    "\<forall>bb \<in> region G CD S - {CD}. \<forall>b. sl_block s2 bb \<noteq> 777 \<longrightarrow> ir_block I G bb = Some b \<longrightarrow>
       covered I (funcs s2 bn \<union> set new) (code s2 b)"
    using preloadTransactionCode_ok [OF wf2 pre(1,2,3) oi(2) pre(4) rw] by blast
  let ?s' = "addPreLoad I ?b (Orig i) X (mark_blocks (region G CD S) (with_preloads I bn i new s2))"
  have run: "processHighestBr I G bn sid X s = Some ?s'"
    using oi isbr sid(1,2) X end1 new(1) by (simp add: processHighestBr_def Let_def addTransactionStart_def s1_def)
  have oi2: "Orig i \<in> set (code s2 ?b)" using oi(1) by (simp add: s2_def s1_def)
  have cb: "code s2 ?b = takeWhile (\<lambda>k. k \<noteq> Orig i) (code s ?b) @ Ins (fresh s) C_start # at_inst (Orig i) (code s ?b)"
    using c1(1) c2(2) [of ?b] e(2) by simp
  note h = code_after_head [OF oi(1) cw cb]
  have code: "code ?s' = (code s2)(?b := takeWhile (\<lambda>k. k \<noteq> Orig i) (code s ?b) @ Ins (fresh s) C_start #
      number (fresh s + 2) (map C_preload new @ preload_calls I X) @ at_inst (Orig i) (code s ?b))"
    using insert_calls_code [OF oi2, of "map C_preload new @ preload_calls I X"] wf2 h
    by (simp add: addPreLoad_with_preloads ir_wf_def sl2(3))
  have slb: "sl_block ?s' b = (if b \<in> region G CD S then 777 else sl_block s b)" for b
    by (auto simp: addPreLoad_def sl2(1))
  have sub: "set (code s b) \<subseteq> set (code s2 b)" for b
  proof -
    have "set (code (set_block CD (ucast sid) s) b) \<subseteq> set (code s1 b)" unfolding s1_def by (rule set_insert_before)
    moreover have "set (code s1 b) \<subseteq> set (code s2 b)" unfolding s2_def by (rule set_insert_before)
    ultimately show ?thesis by simp
  qed
  have cov: "covered I (funcs s bn \<union> set new) (code s b)"
    if "bb \<in> region G CD S - {CD}" "sl_block s bb \<noteq> 777" "ir_block I G bb = Some b" for bb b
    using covered_subset [OF _ sub] new(2) that by (auto simp: sl2)
  show ?thesis
    using run code slb cov c2 c1(2) e(2)
    by (intro exI [of _ new] exI [of _ ?s']) auto
qed

lemma processHighestBr_again:
  assumes "key_inst G bn = Some i" and "opc I i = Br c" and "Orig i \<in> set (code s (parent I i))"
    and "g_block G bn = Some CD" and "sl_block s CD = ucast sid \<or> sl_block s CD = 777"
  shows "processHighestBr I G bn sid X s = Some (addPreLoad I (parent I i) (Orig i) X s)"
  using assms non_phi_br [OF assms(3,2)] by (auto simp: processHighestBr_def)

section \<open>Termination of the search\<close>

text \<open>An acyclic call structure: dominators, and the nodes of other graphs a node is control
  dependent on, have a smaller rank.\<close>

definition up_ranked :: "graph \<Rightarrow> (nat \<Rightarrow> nat) \<Rightarrow> (nat \<Rightarrow> nat) \<Rightarrow> bool" where
  "up_ranked G rb rn =
     ((\<forall>b d. b_idom G b = Some d \<longrightarrow> rb d < rb b) \<and>
      (\<forall>b m. firstNode G b = Some m \<longrightarrow> rn m \<le> rb b) \<and>
      (\<forall>m n. n \<in> set (g_rev_control G m) \<longrightarrow> \<not> same_dg G (g_dg G m) n \<longrightarrow>
         rn n < rn m \<and> (\<forall>b. g_block G n = Some b \<longrightarrow> rb b < rn m)))"

definition hb_rank :: "(nat \<Rightarrow> nat) \<Rightarrow> (nat \<Rightarrow> nat) \<Rightarrow> nat option \<Rightarrow> nat option \<Rightarrow> nat" where
  "hb_rank rb rn BB ND = max (case BB of None \<Rightarrow> 0 | Some b \<Rightarrow> rb b + 1) (case ND of None \<Rightarrow> 0 | Some n \<Rightarrow> rn n + 1)"

text \<open>The branches a search can end at have a placement.\<close>

definition placeable :: "ir \<Rightarrow> graph \<Rightarrow> 32 word \<Rightarrow> accs \<Rightarrow> cape \<Rightarrow> bool" where
  "placeable I G sid X s = (\<forall>c n. lastNode G c = Some n \<longrightarrow> br_of I G n s \<longrightarrow> processHighestBr I G n sid X s \<noteq> None)"

lemma hb_HL_total:
  assumes "\<And>n. n \<in> set ns \<Longrightarrow> \<not> same_dg G dg n \<Longrightarrow> hb I G sid X (HB (g_block G n) (Some n)) s \<noteq> None"
  shows "hb I G sid X (HL dg ns) s \<noteq> None"
  using assms
proof (induction ns)
  case Nil
  then show ?case by (subst hb.simps) simp
next
  case (Cons n ns)
  show ?case
  proof (cases "same_dg G dg n")
    case True
    then show ?thesis using Cons by (subst hb.simps) simp
  next
    case False
    then obtain r where r: "hb I G sid X (HB (g_block G n) (Some n)) s = Some r" using Cons.prems [of n] by auto
    have "snd r = s" if "\<not> fst r" using hb_one [OF r] that by (simp add: one_placement_def)
    then show ?thesis using Cons False r by (subst hb.simps) auto
  qed
qed

lemma hb_not_found: "hb I G sid X t s = Some r \<Longrightarrow> \<not> fst r \<Longrightarrow> snd r = s"
  using hb_one [of I G sid X t s r] by (simp add: one_placement_def)

lemma hb_HB_total:
  assumes rk: "up_ranked G rb rn" and pl: "placeable I G sid X s"
  shows "hb I G sid X (HB BB ND) s \<noteq> None"
proof (induction "hb_rank rb rn BB ND" arbitrary: BB ND rule: less_induct)
  case less
  define CD where CD_def: "CD = (if marked_block s BB then b_idom G (the BB) else None)"
  note rk' = rk [unfolded up_ranked_def]
  have loop: "hb I G sid X (HL (g_dg G m) (g_rev_control G m)) s \<noteq> None" if "rn m < hb_rank rb rn BB ND" for m
  proof (rule hb_HL_total)
    fix n assume n: "n \<in> set (g_rev_control G m)" "\<not> same_dg G (g_dg G m) n"
    then have "rn n < rn m" "\<forall>b. g_block G n = Some b \<longrightarrow> rb b < rn m" using rk' by blast+
    then have "hb_rank rb rn (g_block G n) (Some n) < hb_rank rb rn BB ND"
      using that by (auto simp: hb_rank_def split: option.splits)
    then show "hb I G sid X (HB (g_block G n) (Some n)) s \<noteq> None" by (rule less.hyps)
  qed
  have "(if marked_block s CD then hb I G sid X (HB CD None) s else Some (False, s)) \<noteq> None"
  proof (cases "marked_block s CD")
    case True
    then obtain b d where "BB = Some b" "CD = Some d" "b_idom G b = Some d"
      by (auto simp: CD_def marked_block_def split: option.splits if_splits)
    then have "hb_rank rb rn CD None < hb_rank rb rn BB ND" using rk' by (fastforce simp: hb_rank_def)
    from less.hyps [OF this] show ?thesis using True by (simp only: if_True simp_thms)
  qed simp
  then obtain r1 where r1: "(if marked_block s CD then hb I G sid X (HB CD None) s else Some (False, s)) = Some r1"
    by blast
  have s1: "snd r1 = s" if "\<not> fst r1"
    using r1 that hb_not_found by (auto split: if_splits)
  have "(if marked_block s BB then (case firstNode G (the BB) of None \<Rightarrow> Some (False, s)
      | Some inst \<Rightarrow> hb I G sid X (HL (g_dg G inst) (g_rev_control G inst)) s) else Some (False, s)) \<noteq> None"
  proof (cases "marked_block s BB \<and> firstNode G (the BB) \<noteq> None")
    case True
    then obtain b m where b: "BB = Some b" "firstNode G b = Some m"
      by (auto simp: marked_block_def split: option.splits)
    then have "rn m < hb_rank rb rn BB ND" using rk' by (fastforce simp: hb_rank_def)
    then show ?thesis using loop b True by auto
  qed auto
  then obtain r2 where r2: "(if marked_block s BB then (case firstNode G (the BB) of None \<Rightarrow> Some (False, s)
      | Some inst \<Rightarrow> hb I G sid X (HL (g_dg G inst) (g_rev_control G inst)) s) else Some (False, s)) = Some r2"
    by blast
  have s2: "snd r2 = s" if "\<not> fst r2"
    using r2 that hb_not_found by (auto split: if_splits option.splits)
  have "(case ND of None \<Rightarrow> Some (False, s) | Some nd \<Rightarrow> if sl_node s nd = 0 then Some (False, s)
      else hb I G sid X (HL (g_dg G nd) (g_rev_control G nd)) s) \<noteq> None"
  proof (cases ND)
    case (Some nd)
    then have "rn nd < hb_rank rb rn BB ND" by (simp add: hb_rank_def)
    then show ?thesis using loop Some by auto
  qed simp
  then obtain r3 where r3: "(case ND of None \<Rightarrow> Some (False, s) | Some nd \<Rightarrow> if sl_node s nd = 0 then Some (False, s)
      else hb I G sid X (HL (g_dg G nd) (g_rev_control G nd)) s) = Some r3"
    by blast
  have s3: "snd r3 = s" if "\<not> fst r3"
    using r3 that hb_not_found by (auto split: if_splits option.splits)
  have fin: "hb_final I G sid X CD s \<noteq> None"
  proof
    assume "hb_final I G sid X CD s = None"
    then show False using pl by (fastforce simp: hb_final_def placeable_def bind_eq_None_conv split: option.splits if_splits)
  qed
  have "hb I G sid X (HB BB ND) s =
      (if fst r1 then Some r1 else if fst r2 then Some r2 else if fst r3 then Some r3 else hb_final I G sid X CD s)"
  proof (cases "fst r1")
    case True
    then show ?thesis using r1 by (subst hb.simps) (simp only: hb_task.case Let_def CD_def [symmetric] Option.bind.simps if_True)
  next
    case f1: False
    show ?thesis
    proof (cases "fst r2")
      case True
      then show ?thesis using r1 r2 f1 s1 [OF f1]
        by (subst hb.simps) (simp only: hb_task.case Let_def CD_def [symmetric] Option.bind.simps if_True if_False)
    next
      case f2: False
      show ?thesis using r1 r2 r3 f1 f2 s1 [OF f1] s2 [OF f2] s3
        by (subst hb.simps, cases "fst r3")
          (simp_all only: hb_task.case Let_def CD_def [symmetric] Option.bind.simps if_True if_False simp_thms)
    qed
  qed
  then show ?case using fin by (simp split: if_split)
qed


section \<open>Properties\<close>

lemma processHighestBr_placed:
  assumes "br_block I G s bn i CD S f e" and "key_inst G f = Some j"
  shows "\<exists>c. opc I i = Br c" "Orig i \<in> set (code s (parent I i))" "g_block G bn = Some CD" "key_inst G bn = Some i"
  using assms by (auto simp: br_block_def)

text \<open>C4: \<open>processHighestBr\<close> on a branch block that has no transaction yet (and something to preload)
  begins the transaction directly before the branch, followed by the preloads of the code the
  region calls and of the data, ends it at the immediate post-dominator, changes no other block's
  code, and marks exactly the blocks in between. Called again for the block it only adds the
  preloads of the data before the branch: a branch never gets a second transaction.\<close>

theorem processHighestBr_transaction:
  assumes "ir_wf I s" and "br_block I G s bn i CD S f e" and "key_inst G f = Some j"
    and "\<not> nothing_to_preload X" and "sid \<noteq> 777"
  shows "if sl_block s CD = ucast sid \<or> sl_block s CD = 777
    then processHighestBr I G bn sid X s =
      Some (insert_calls (parent I i) (Orig i) (preload_calls I X) s)
    else \<exists>new s'. processHighestBr I G bn sid X s = Some s' \<and>
      code s' (parent I i) = takeWhile (\<lambda>k. k \<noteq> Orig i) (code s (parent I i)) @ Ins (fresh s) C_start #
        number (fresh s + 2) (map C_preload new @ preload_calls I X) @ at_inst (Orig i) (code s (parent I i)) \<and>
      code s' (parent I j) = takeWhile (\<lambda>k. k \<noteq> e) (code s (parent I j)) @ Ins (fresh s + 1) C_end #
        at_inst e (code s (parent I j)) \<and>
      (\<forall>b. b \<noteq> parent I i \<longrightarrow> b \<noteq> parent I j \<longrightarrow> code s' b = code s b) \<and>
      (\<forall>b. sl_block s' b = (if b \<in> region G CD S then 777 else sl_block s b)) \<and>
      (\<forall>bb \<in> region G CD S - {CD}. \<forall>b. sl_block s bb \<noteq> 777 \<longrightarrow> ir_block I G bb = Some b \<longrightarrow>
         covered I (funcs s bn \<union> set new) (code s b))"
proof (cases "sl_block s CD = ucast sid \<or> sl_block s CD = 777")
  case True
  obtain c where "opc I i = Br c" using processHighestBr_placed(1) [OF assms(2,3)] by blast
  then show ?thesis using processHighestBr_again [OF _ _ _ _ True] processHighestBr_placed [OF assms(2,3)] True
    by (simp add: addPreLoad_def)
next
  case False
  then have n: "sl_block s CD \<noteq> ucast sid" "sl_block s CD \<noteq> 777" by blast+
  show ?thesis using processHighestBr_new [OF assms(1,2) n assms(5,4,3)] False by simp
qed

lemma ex_br_block: "br_block ex_ir ex_graph (cape0 ex_code) 10 10 0 2 13 (Orig 13)"
proof -
  have "key_inst ex_graph 10 = Some 10" "opc ex_ir 10 = Br True" "Orig 10 \<in> set (code (cape0 ex_code) (parent ex_ir 10))"
    "g_block ex_graph 10 = Some 0" "lastNode ex_graph 0 = Some 10" "ir_block ex_ir ex_graph 0 = Some (parent ex_ir 10)"
    "b_ipdom ex_graph 0 = Some 2" "firstNode ex_graph 2 = Some 13" "key_inst ex_graph 13 = Some 13"
    "non_phi ex_ir 13 (cape0 ex_code) = Some (Orig 13)" "parent ex_ir 13 \<noteq> parent ex_ir 10"
    by (simp_all add: non_phi_def lastNode_def firstNode_def key_inst_def ir_block_def ex_graph_def ex_ir_def
        cape0_def ex_code_def at_inst_def)
  then show ?thesis unfolding br_block_def using ex_region_wf by auto
qed

text \<open>The transaction of the example, evaluated, and the theorem at the same call.\<close>

theorem processHighestBr_transaction_witness:
  "(\<exists>new s'. processHighestBr ex_ir ex_graph 10 5 (no_accs\<lparr>x_allocs := [1]\<rparr>) (cape0 ex_code) = Some s' \<and>
      code s' 0 = Ins 0 C_start # number 2 (map C_preload new @ [C_iter_alloc 1]) @ [Orig 10] \<and>
      code s' 2 = [Ins 1 C_end, Orig 13]) \<and>
   map_option (\<lambda>s. code s 0) (processHighestBr ex_ir ex_graph 10 5 (no_accs\<lparr>x_allocs := [1]\<rparr>) (cape0 ex_code)) =
     Some [Ins 0 C_start, Ins 2 (C_preload ''main''), Ins 3 (C_preload ''f''), Ins 4 (C_preload ''g''),
       Ins 5 (C_iter_alloc 1), Orig 10]"
proof
  have k: "key_inst ex_graph 13 = Some 13" by (simp add: key_inst_def ex_graph_def)
  have x: "\<not> nothing_to_preload (no_accs\<lparr>x_allocs := [1]\<rparr>)" "(5 :: 32 word) \<noteq> 777"
    by (simp_all add: nothing_to_preload_def no_accs_def)
  have c: "code (cape0 ex_code) 0 = [Orig 10]" "code (cape0 ex_code) 2 = [Orig 13]" "fresh (cape0 ex_code) = 0"
    "sl_block (cape0 ex_code) 0 = 0" "parent ex_ir 10 = 0" "parent ex_ir 13 = 2"
    by (simp_all add: cape0_def ex_code_def ex_ir_def)
  have n: "\<not> (sl_block (cape0 ex_code) 0 = ucast (5 :: 32 word) \<or> sl_block (cape0 ex_code) 0 = 777)" by (simp add: c)
  obtain new s' where t: "processHighestBr ex_ir ex_graph 10 5 (no_accs\<lparr>x_allocs := [1]\<rparr>) (cape0 ex_code) = Some s'"
    "code s' (parent ex_ir 10) = takeWhile (\<lambda>k. k \<noteq> Orig 10) (code (cape0 ex_code) (parent ex_ir 10)) @
      Ins (fresh (cape0 ex_code)) C_start # number (fresh (cape0 ex_code) + 2)
        (map C_preload new @ preload_calls ex_ir (no_accs\<lparr>x_allocs := [1]\<rparr>)) @
      at_inst (Orig 10) (code (cape0 ex_code) (parent ex_ir 10))"
    "code s' (parent ex_ir 13) = takeWhile (\<lambda>k. k \<noteq> Orig 13) (code (cape0 ex_code) (parent ex_ir 13)) @
      Ins (fresh (cape0 ex_code) + 1) C_end # at_inst (Orig 13) (code (cape0 ex_code) (parent ex_ir 13))"
    using processHighestBr_transaction [OF ex_wf ex_br_block k x] unfolding if_not_P [OF n] by blast
  have "preload_calls ex_ir (no_accs\<lparr>x_allocs := [1]\<rparr>) = [C_iter_alloc 1]"
    by (simp add: preload_calls_def no_accs_def)
  then have "code s' 0 = Ins 0 C_start # number 2 (map C_preload new @ [C_iter_alloc 1]) @ [Orig 10]"
    "code s' 2 = [Ins 1 C_end, Orig 13]" using t(2,3) c by (simp_all only: at_inst_def) (simp_all add: numeral_2_eq_2)
  with t(1) show "\<exists>new s'. processHighestBr ex_ir ex_graph 10 5 (no_accs\<lparr>x_allocs := [1]\<rparr>) (cape0 ex_code) = Some s' \<and>
      code s' 0 = Ins 0 C_start # number 2 (map C_preload new @ [C_iter_alloc 1]) @ [Orig 10] \<and>
      code s' 2 = [Ins 1 C_end, Orig 13]" by blast
  show "map_option (\<lambda>s. code s 0) (processHighestBr ex_ir ex_graph 10 5 (no_accs\<lparr>x_allocs := [1]\<rparr>) (cape0 ex_code)) =
     Some [Ins 0 C_start, Ins 2 (C_preload ''main''), Ins 3 (C_preload ''f''), Ins 4 (C_preload ''g''),
       Ins 5 (C_iter_alloc 1), Orig 10]"
    by code_simp
qed



text \<open>C11: the search for the highest branch ends for every program in which the dominators and the
  calls between dependence graphs are acyclic, provided the branches it can end at have a
  post-dominator to close the transaction at.\<close>

theorem search_terminates:
  assumes "\<forall>b d. b_idom G b = Some d \<longrightarrow> rb d < (rb b :: nat)" and "\<forall>b m. firstNode G b = Some m \<longrightarrow> rn m \<le> rb b"
    and "\<forall>m n. n \<in> set (g_rev_control G m) \<longrightarrow> \<not> same_dg G (g_dg G m) n \<longrightarrow>
         rn n < rn m \<and> (\<forall>b. g_block G n = Some b \<longrightarrow> rb b < rn m)"
    and "\<forall>c n. lastNode G c = Some n \<longrightarrow> br_of I G n s \<longrightarrow> processHighestBr I G n sid X s \<noteq> None"
  shows "\<exists>r s'. processBBlockIDomsAndNodeRevCDs I G BB ND sid X s = Some (r, s')"
proof -
  have "up_ranked G rb rn" unfolding up_ranked_def using assms(1-3) by blast
  moreover have "placeable I G sid X s" unfolding placeable_def using assms(4) by blast
  ultimately have "hb I G sid X (HB BB ND) s \<noteq> None" by (rule hb_HB_total)
  then show ?thesis by (auto simp: processBBlockIDomsAndNodeRevCDs_def)
qed

theorem search_terminates_witness:
  "\<exists>r s'. processBBlockIDomsAndNodeRevCDs ex_ir (ex_graph\<lparr>g_rev_control := (\<lambda>n. if n = 11 then [3] else [])\<rparr>)
     (Some 1) (Some 11) 5 no_accs (cape0 ex_code) = Some (r, s')"
proof (rule search_terminates [where rb = "\<lambda>b. 13 + b" and rn = "\<lambda>n. n"])
  let ?G = "ex_graph\<lparr>g_rev_control := (\<lambda>n. if n = 11 then [3] else [])\<rparr>"
  show "\<forall>b d. b_idom ?G b = Some d \<longrightarrow> 13 + d < 13 + b" by (simp add: ex_graph_def)
  show "\<forall>b m. firstNode ?G b = Some m \<longrightarrow> m \<le> 13 + b" by (simp add: firstNode_def ex_graph_def)
  show "\<forall>m n. n \<in> set (g_rev_control ?G m) \<longrightarrow> \<not> same_dg ?G (g_dg ?G m) n \<longrightarrow>
         n < m \<and> (\<forall>b. g_block ?G n = Some b \<longrightarrow> 13 + b < m)" by (simp add: ex_graph_def)
  show "\<forall>c n. lastNode ?G c = Some n \<longrightarrow> br_of ex_ir ?G n (cape0 ex_code) \<longrightarrow>
      processHighestBr ex_ir ?G n 5 no_accs (cape0 ex_code) \<noteq> None"
  proof (intro allI impI)
    fix c n assume "lastNode ?G c = Some n" "br_of ex_ir ?G n (cape0 ex_code)"
    then have "n = 10 \<or> n = 12" by (auto simp: lastNode_def ex_graph_def br_of_def key_inst_def is_br_def ex_ir_def split: if_splits)
    then show "processHighestBr ex_ir ?G n 5 no_accs (cape0 ex_code) \<noteq> None"
      by (auto simp: processHighestBr_def key_inst_def non_phi_def ex_graph_def ex_ir_def cape0_def ex_code_def
          at_inst_def nothing_to_preload_def no_accs_def)
  qed
qed

text \<open>Two functions that call each other: node 5 is a call in \<open>f\<close> (graph 7, block 5) of \<open>g\<close>,
  node 6 a call in \<open>g\<close> (graph 8, block 6) of \<open>f\<close>, 3 and 4 are the entry nodes.\<close>

definition rec_graph :: graph where
  "rec_graph = graph0\<lparr>g_key := (\<lambda>n. if n = 5 \<or> n = 6 then VInst n else VFun n),
     g_block := (\<lambda>n. if n = 5 then Some 5 else if n = 6 then Some 6 else None),
     g_dg := (\<lambda>n. if n = 5 \<or> n = 3 then Some 7 else Some 8),
     g_rev_control := (\<lambda>n. if n = 5 then [3] else if n = 6 then [4] else if n = 3 then [6] else if n = 4 then [5] else []),
     b_nodes := (\<lambda>b. if b = 5 then [5] else if b = 6 then [6] else []),
     dg_node := (\<lambda>d v. if d = 7 \<and> v = VInst 5 then Some 5 else if d = 8 \<and> v = VInst 6 then Some 6 else None)\<rparr>"

fun rec_task :: "hb_task \<Rightarrow> bool" where
  "rec_task (HB (Some b) (Some n)) = (b = n \<and> (n = 5 \<or> n = 6))"
| "rec_task (HB None (Some n)) = (n = 3 \<or> n = 4)"
| "rec_task (HL dg ns) = (dg = Some 7 \<and> (ns = [3] \<or> ns = [6]) \<or> dg = Some 8 \<and> (ns = [4] \<or> ns = [5]))"
| "rec_task _ = False"

lemma rec_diverges:
  assumes "hb I G sid X t s = Some r"
  shows "G = rec_graph \<longrightarrow> (\<forall>n. sl_node s n = 1) \<longrightarrow> (\<forall>b. sl_block s b = 1) \<longrightarrow> \<not> rec_task t"
proof (rule hb.raw_induct [OF _ assms], goal_cases)
  case (1 rec I G sid X t s r)
  show ?case
  proof (intro impI notI)
    assume G: "G = rec_graph" and sl: "\<forall>n. sl_node s n = 1" "\<forall>b. sl_block s b = 1" and t: "rec_task t"
    have no: "rec I G sid X t' s = None" if "rec_task t'" for t'
      using 1(1) [of I G sid X t' s] G sl that by (cases "rec I G sid X t' s") auto
    have g: "\<not> same_dg G (Some 7) 3" "\<not> same_dg G (Some 7) 6" "\<not> same_dg G (Some 8) 4" "\<not> same_dg G (Some 8) 5"
      "g_block G 5 = Some 5" "g_block G 6 = Some 6" "g_block G 3 = None" "g_block G 4 = None"
      "b_idom G b = None" "firstNode G 5 = Some 5" "firstNode G 6 = Some 6"
      "g_dg G 5 = Some 7" "g_dg G 6 = Some 8" "g_dg G 3 = Some 7" "g_dg G 4 = Some 8"
      "g_rev_control G 5 = [3]" "g_rev_control G 6 = [4]" "g_rev_control G 3 = [6]" "g_rev_control G 4 = [5]" for b
      by (simp_all add: G rec_graph_def same_dg_def graph0_def firstNode_def)
    consider "t = HB (Some 5) (Some 5)" | "t = HB (Some 6) (Some 6)" | "t = HB None (Some 3)" | "t = HB None (Some 4)"
      | "t = HL (Some 7) [3]" | "t = HL (Some 7) [6]" | "t = HL (Some 8) [4]" | "t = HL (Some 8) [5]"
      using t by (cases t rule: rec_task.cases) auto
    then show False
      by cases (use 1(2) in \<open>simp_all add: g no sl marked_block_def Let_def\<close>)
  qed
qed

text \<open>C12: with two marked functions that call each other and no sensitive branch on the way, the
  search goes around the two call sites for ever: it has no visited set, and does not return.\<close>

theorem search_diverges_on_recursion:
  "processBBlockIDomsAndNodeRevCDs I rec_graph (Some 5) (Some 5) sid X
     ((cape0 c)\<lparr>sl_node := (\<lambda>_. 1), sl_block := (\<lambda>_. 1)\<rparr>) = None"
proof -
  let ?s = "(cape0 c)\<lparr>sl_node := (\<lambda>_. 1), sl_block := (\<lambda>_. 1)\<rparr>"
  have False if "hb I rec_graph sid X (HB (Some 5) (Some 5)) ?s = Some r" for r
    using rec_diverges [OF that] by simp
  then show ?thesis unfolding processBBlockIDomsAndNodeRevCDs_def
    by (cases "hb I rec_graph sid X (HB (Some 5) (Some 5)) ?s") auto
qed

text \<open>\<open>checkAddressDependency\<close> finds the first node of the list whose value is the address and
  that is secret dependent (marked, and not with the id below), gives exactly that node the new id
  and reports success; if there is none, nothing changes.\<close>

theorem checkAddressDependency_correct:
  "checkAddressDependency G ns addr sid s =
     (case List.find (\<lambda>n. sl_node s n \<noteq> 0 \<and> sl_node s n \<noteq> sid - 1 \<and> as_inst (g_key G n) \<noteq> None \<and> g_key G n = addr) ns of
        None \<Rightarrow> (False, s)
      | Some n \<Rightarrow> (True, s\<lparr>sl_node := (sl_node s)(n := sid)\<rparr>))"
  by (induction ns) (auto simp: set_node_def split: option.splits)

end
