(* ===== verification/Cape_Mark.thy ===== *)
theory Cape_Mark
  imports Cape_Transactions
begin

text \<open>
  \<open>markSlice\<close> and \<open>handlePreloadingForSensitiveAccesses\<close> of \<^verbatim>\<open>include/dg/Slicing.h\<close>: what is
  done with each node a walk visits. Pass 0 marks the nodes that depend on the secret, pass 1
  handles loops that a secret can leave, pass 2 the accesses to memory. The casts that the
  IR builder adds for the arguments of a call are not modelled.
\<close>

section \<open>The work list of a walk\<close>

definition enqueue :: "nat \<Rightarrow> cape \<Rightarrow> cape" where
  "enqueue n s =
     (if lastwalk s n = run_id s then s
      else s\<lparr>lastwalk := (lastwalk s)(n := run_id s), w_queue := w_queue s @ [n]\<rparr>)"

fun enqueue_all :: "nat list \<Rightarrow> cape \<Rightarrow> cape" where
  "enqueue_all [] s = s"
| "enqueue_all (n # ns) s = enqueue_all ns (enqueue n s)"

section \<open>Objects that are preloaded\<close>

definition malloc_call :: "ir \<Rightarrow> nat \<Rightarrow> bool" where
  "malloc_call I i = (case callee (opc I i) of None \<Rightarrow> False | Some f \<Rightarrow> f_name I f = ''malloc'')"

fun getConstantValue :: "val \<Rightarrow> 64 word" where
  "getConstantValue (VConst c) = (if c = - 1 then 0 else c)"
| "getConstantValue _ = 0"

text \<open>The instruction after \<open>i\<close>, or \<open>i\<close> when it is the last of its block.\<close>

definition insert_point :: "ir \<Rightarrow> nat \<Rightarrow> cape \<Rightarrow> inst" where
  "insert_point I i s = (case after_inst (Orig i) (code s (parent I i)) of [] \<Rightarrow> Orig i | j # _ \<Rightarrow> j)"

definition new_buffer :: "nat \<Rightarrow> cape \<Rightarrow> cape" where
  "new_buffer ps s = s\<lparr>allocId := allocId s + 1, buf := (buf s)(ps := allocId s + 1)\<rparr>"

fun find_ret :: "ir \<Rightarrow> cape \<Rightarrow> nat list \<Rightarrow> (nat \<times> inst) option" where
  "find_ret I s [] = None"
| "find_ret I s (b # bs) =
     (case List.find (\<lambda>i. op_of I i = Ret) (code s b) of Some i \<Rightarrow> Some (b, i) | None \<Rightarrow> find_ret I s bs)"

definition getFuncRet :: "ir \<Rightarrow> nat \<Rightarrow> cape \<Rightarrow> (nat \<times> inst) option" where
  "getFuncRet I f s = find_ret I s (f_blocks I f)"

definition buffer_alloca :: "ir \<Rightarrow> nat \<Rightarrow> nat \<Rightarrow> cape \<Rightarrow> cape" where
  "buffer_alloca I ps i s =
     (let s1 = new_buffer ps s;
          s2 = insert_before (parent I i) (insert_point I i s1)
                 (C_push_alloc (buf s1 ps) (ai_array_size I i) (ai_size I i) i) s1
      in case getFuncRet I (ib_fun I (parent I i)) s2 of
           None \<Rightarrow> s2
         | Some (b, r) \<Rightarrow> insert_before b r (C_pop_alloc (buf s1 ps)) s2)"

definition buffer_malloc :: "ir \<Rightarrow> nat \<Rightarrow> nat \<Rightarrow> cape \<Rightarrow> cape" where
  "buffer_malloc I ps i s =
     (let s1 = new_buffer ps s in
      insert_before (parent I i) (insert_point I i s1)
        (C_insert_malloc (buf s1 ps) (ucast (getConstantValue (opnd I i 0))) i) s1)"

text \<open>One object a pointer may point to. The first component of the result says that the function
  returns at once (a secret or a string constant is accessed).\<close>

definition hp_target ::
    "ir \<Rightarrow> graph \<Rightarrow> nat option \<Rightarrow> 32 word \<Rightarrow> nat \<Rightarrow> accs \<Rightarrow> cape \<Rightarrow> (bool \<times> accs \<times> cape) option" where
  "hp_target I G dg sid ps X s =
     (case ps_value I ps of
        Some (VGlob g) \<Rightarrow>
          if contains ''ecc_sets'' (gv_name I g) then Some (False, X, s)
          else if gv_secret I g \<or> contains ''.str.'' (gv_name I g) then Some (True, X, s)
          else Some (False, X\<lparr>x_globals := sset_insert g (x_globals X)\<rparr>, s)
      | Some (VInst i) \<Rightarrow>
          if opc I i = Alloca then
            Option.bind dg (\<lambda>d. case dg_node G d (VInst i) of
                Some g \<Rightarrow> Some (False, X, set_node g (sid + 2) s)
              | None \<Rightarrow>
                  let s' = (if buf s ps = 0 then buffer_alloca I ps i s else s)
                  in Some (False, X\<lparr>x_allocs := sset_insert (buf s' ps) (x_allocs X)\<rparr>, s'))
          else if malloc_call I i then
            Option.bind dg (\<lambda>d.
              let s1 = (case dg_node G d (VInst i) of Some g \<Rightarrow> set_node g (sid + 2) s | None \<Rightarrow> s);
                  s2 = (if buf s1 ps = 0 then buffer_malloc I ps i s1 else s1)
              in Some (False, X\<lparr>x_mallocs := sset_insert (buf s2 ps) (x_mallocs X)\<rparr>, s2))
          else Some (False, X, s)
      | _ \<Rightarrow> Some (False, X, s))"

fun hp_targets ::
    "ir \<Rightarrow> graph \<Rightarrow> nat option \<Rightarrow> 32 word \<Rightarrow> nat list \<Rightarrow> accs \<Rightarrow> cape \<Rightarrow> (bool \<times> accs \<times> cape) option" where
  "hp_targets I G dg sid [] X s = Some (False, X, s)"
| "hp_targets I G dg sid (ps # pss) X s =
     Option.bind (hp_target I G dg sid ps X s) (\<lambda>(stop, X', s').
       if stop then Some (True, X', s') else hp_targets I G dg sid pss X' s')"

fun hp_operands ::
    "ir \<Rightarrow> graph \<Rightarrow> nat option \<Rightarrow> nat \<Rightarrow> 32 word \<Rightarrow> nat list \<Rightarrow> accs \<Rightarrow> cape \<Rightarrow> (accs \<times> cape) option" where
  "hp_operands I G dg i sid [] X s = Some (X, s)"
| "hp_operands I G dg i sid (k # ks) X s =
     Option.bind (hp_targets I G dg sid (points_to I (opnd I i k)) X s) (\<lambda>(stop, X', s').
       if stop then Some (X', s') else hp_operands I G dg i sid ks X' s')"

definition handlePreloadingForSensitiveAccesses ::
    "ir \<Rightarrow> graph \<Rightarrow> nat \<Rightarrow> nat \<Rightarrow> 32 word \<Rightarrow> nat \<Rightarrow> accs \<Rightarrow> cape \<Rightarrow> (accs \<times> cape) option" where
  "handlePreloadingForSensitiveAccesses I G n i sid opIdx X s =
     hp_operands I G (g_dg G n) i sid (if opIdx \<le> 1 then [opIdx] else [0, 1]) X s"

section \<open>Marking\<close>

definition points_to_secret :: "ir \<Rightarrow> val \<Rightarrow> bool" where
  "points_to_secret I v = list_ex (\<lambda>ps. case ps_value I ps of Some (VGlob g) \<Rightarrow> gv_secret I g | _ \<Rightarrow> False) (points_to I v)"

definition addr_operand :: "opcode \<Rightarrow> nat option" where
  "addr_operand c = (case c of Load \<Rightarrow> Some 0 | Store \<Rightarrow> Some 1 | _ \<Rightarrow> None)"

text \<open>The loop a branch block leaves, if it is a conditional exit of one.\<close>

definition exit_loop :: "graph \<Rightarrow> nat option \<Rightarrow> (nat \<times> nat set) option option" where
  "exit_loop G BB =
     (case BB of None \<Rightarrow> Some None
      | Some b \<Rightarrow> Option.bind (getBrLoopBlocks G b) (\<lambda>r.
          Some (case r of None \<Rightarrow> None
            | Some (h, blks) \<Rightarrow> if b \<in> blks \<and> isCondExit G b blks then Some (h, blks) else None)))"

definition loop_nodes :: "graph \<Rightarrow> nat set \<Rightarrow> nat list" where
  "loop_nodes G blks = concat (map (b_nodes G) (sorted_list_of_set blks))"

definition mark_node :: "graph \<Rightarrow> bool \<Rightarrow> nat \<Rightarrow> 32 word \<Rightarrow> cape \<Rightarrow> cape option" where
  "mark_node G fwd n sid s =
     (let s1 = set_node n sid s;
          s2 = (case g_block G n of None \<Rightarrow> s1
            | Some B \<Rightarrow> (let t = set_block B (ucast sid) s1 in
                if fwd then t\<lparr>markedBlocks := insert B (markedBlocks t)\<rparr> else t))
      in case g_dg G n of None \<Rightarrow> Some s2
         | Some d \<Rightarrow>
             let s3 = s2\<lparr>sl_dg := (sl_dg s2)(d := ucast sid)\<rparr> in
             if fwd then Some s3 else Option.bind (dg_entry G d) (\<lambda>e. Some (enqueue e s3)))"

definition cond_branch :: "ir \<Rightarrow> graph \<Rightarrow> nat \<Rightarrow> bool" where
  "cond_branch I G n = (case key_inst G n of Some i \<Rightarrow> opc I i = Br True | None \<Rightarrow> False)"

definition mark_pass0 :: "ir \<Rightarrow> graph \<Rightarrow> bool \<Rightarrow> 32 word \<Rightarrow> nat \<Rightarrow> cape \<Rightarrow> (bool \<times> cape) option" where
  "mark_pass0 I G fwd sid n s =
     (if sl_node s n \<noteq> 0 then Some (False, s)
      else
        Option.bind (case key_inst G n of
            None \<Rightarrow> Some (False, s)
          | Some i \<Rightarrow> (case addr_operand (opc I i) of
                Some k \<Rightarrow> Some (points_to_secret I (opnd I i k), s)
              | None \<Rightarrow>
                  if is_br I (Orig i) then
                    Option.bind (exit_loop G (g_block G n)) (\<lambda>r. Some (False, case r of
                        None \<Rightarrow> s
                      | Some (h, blks) \<Rightarrow> enqueue_all (filter (\<lambda>m. sl_node s m = 0) (loop_nodes G blks)) s))
                  else Some (False, s))) (\<lambda>(stop, s1).
          if stop then Some (False, s1)
          else Option.bind (mark_node G fwd n sid s1) (\<lambda>s2. Some (cond_branch I G n, s2))))"

text \<open>The address dependences looked for in pass 2, in order, until one is found.\<close>

fun check_deps :: "graph \<Rightarrow> nat \<Rightarrow> val list \<Rightarrow> 32 word \<Rightarrow> cape \<Rightarrow> bool \<times> cape" where
  "check_deps G n [] sid s = (False, s)"
| "check_deps G n (v # vs) sid s =
     (case checkAddressDependency G (g_rev_data G n) v sid s of
        (True, s') \<Rightarrow> (True, s')
      | (False, s') \<Rightarrow> (case checkAddressDependency G (g_user G n) v sid s' of
            (True, s'') \<Rightarrow> (True, s'')
          | (False, s'') \<Rightarrow> check_deps G n vs sid s''))"

definition place_access ::
    "ir \<Rightarrow> graph \<Rightarrow> nat \<Rightarrow> nat \<Rightarrow> 32 word \<Rightarrow> nat \<Rightarrow> val list \<Rightarrow> cape \<Rightarrow> cape option" where
  "place_access I G n i sid opIdx addrs s =
     Option.bind (handlePreloadingForSensitiveAccesses I G n i sid opIdx no_accs (set_node n (sid + 1) s)) (\<lambda>(X, s1).
       let (addDep, s2) = check_deps G n addrs (sid + 3) s1 in
       Option.bind (processBBlockRevCDs I G None addDep (g_block G n) (sid + 4) X s2) (\<lambda>(r, s3). Some s3))"

fun loop_accesses :: "ir \<Rightarrow> graph \<Rightarrow> 32 word \<Rightarrow> nat list \<Rightarrow> accs \<Rightarrow> cape \<Rightarrow> (accs \<times> cape) option" where
  "loop_accesses I G sid [] X s = Some (X, s)"
| "loop_accesses I G sid (m # ms) X s =
     Option.bind (key_inst G m) (\<lambda>i.
       Option.bind (case addr_operand (opc I i) of
           Some k \<Rightarrow> handlePreloadingForSensitiveAccesses I G m i sid k X s
         | None \<Rightarrow> Some (X, s)) (\<lambda>(X', s').
         loop_accesses I G sid ms X' (set_node m 0 s')))"

definition mark_loop :: "ir \<Rightarrow> graph \<Rightarrow> 32 word \<Rightarrow> nat \<Rightarrow> cape \<Rightarrow> cape option" where
  "mark_loop I G sid n s =
     Option.bind (exit_loop G (g_block G n)) (\<lambda>r. case r of
       None \<Rightarrow> Some s
     | Some (h, blks) \<Rightarrow>
         Option.bind (loop_accesses I G sid (loop_nodes G blks) no_accs s) (\<lambda>(X, s').
           Option.bind (processBBlockRevCDs I G (Some blks) False (Some h) (sid + 4) X s') (\<lambda>(r, s''). Some s'')))"

definition mark_call :: "ir \<Rightarrow> graph \<Rightarrow> 32 word \<Rightarrow> nat \<Rightarrow> nat \<Rightarrow> cape \<Rightarrow> cape option" where
  "mark_call I G sid n i s =
     (case callee (opc I i) of
        None \<Rightarrow> Some s
      | Some f \<Rightarrow>
          if f_name I f = ''llvm.memcpy.p0i8.p0i8.i64'' then place_access I G n i sid 9 [opnd I i 0, opnd I i 1] s
          else if f_name I f = ''llvm.memset.p0i8.i64'' then place_access I G n i sid 0 [opnd I i 0] s
          else Some s)"

definition is_call :: "opcode \<Rightarrow> bool" where
  "is_call c = (case c of CallI _ \<Rightarrow> True | _ \<Rightarrow> False)"

definition slice_base :: "32 word \<Rightarrow> 32 word" where
  "slice_base sl = (sl - 1) * 5 + 1"

definition markSlice ::
    "ir \<Rightarrow> graph \<Rightarrow> bool \<Rightarrow> 32 word \<Rightarrow> nat \<Rightarrow> nat \<Rightarrow> cape \<Rightarrow> (bool \<times> cape) option" where
  "markSlice I G fwd sl pass n s =
     (let sid = slice_base sl in
      if pass = 0 then mark_pass0 I G fwd sid n s
      else (case key_inst G n of None \<Rightarrow> Some (True, s)
        | Some i \<Rightarrow>
            if sl_node s n = 0 then Some (True, s)
            else Option.bind
              (if pass = 2 \<and> addr_operand (opc I i) \<noteq> None
               then place_access I G n i sid (the (addr_operand (opc I i))) [opnd I i (the (addr_operand (opc I i)))] s
               else if pass = 1 \<and> is_br I (Orig i) then mark_loop I G sid n s
               else if is_call (opc I i) \<and> pass = 2 then mark_call I G sid n i s
               else Some s)
              (\<lambda>s'. Some (True, s'))))"

section \<open>Freed objects\<close>

fun free_targets :: "ir \<Rightarrow> nat \<Rightarrow> nat list \<Rightarrow> cape \<Rightarrow> cape" where
  "free_targets I ci [] s = s"
| "free_targets I ci (ps # pss) s =
     free_targets I ci pss
       (case ps_value I ps of
          Some (VInst m) \<Rightarrow>
            if malloc_call I m \<and> buf s ps \<noteq> 0
            then insert_before (parent I ci) (Orig ci) (C_erase_malloc (buf s ps) (opnd I ci 0)) s else s
        | _ \<Rightarrow> s)"

fun handleFreeFunc :: "ir \<Rightarrow> nat list \<Rightarrow> cape \<Rightarrow> cape" where
  "handleFreeFunc I [] s = s"
| "handleFreeFunc I (ci # cis) s =
     handleFreeFunc I cis
       (case callee (opc I ci) of
          Some f \<Rightarrow> if f_name I f = ''free'' then free_targets I ci (points_to I (opnd I ci 0)) s else s
        | None \<Rightarrow> s)"

end
