(* ===== verification/Cape_Walk.thy ===== *)
theory Cape_Walk
  imports Cape_Mark
begin

text \<open>
  \<^verbatim>\<open>include/dg/legacy/NodesWalk.h\<close>: the walk over the dependence graph with its rules for calls
  and returns, and the slicer's \<open>mark\<close> (\<^verbatim>\<open>include/dg/Slicing.h\<close>), which runs \<open>markSlice\<close> on every
  node of a walk. The work list is a FIFO queue in the state; a node is queued once per run.
\<close>

section \<open>Options and edges\<close>

definition NODES_WALK_CD :: "32 word" where "NODES_WALK_CD = 2"
definition NODES_WALK_DD :: "32 word" where "NODES_WALK_DD = 4"
definition NODES_WALK_REV_CD :: "32 word" where "NODES_WALK_REV_CD = 8"
definition NODES_WALK_REV_DD :: "32 word" where "NODES_WALK_REV_DD = 16"
definition NODES_WALK_USE :: "32 word" where "NODES_WALK_USE = 32"
definition NODES_WALK_USER :: "32 word" where "NODES_WALK_USER = 64"
definition NODES_WALK_ID :: "32 word" where "NODES_WALK_ID = 128"
definition NODES_WALK_REV_ID :: "32 word" where "NODES_WALK_REV_ID = 256"
definition NODES_WALK_BB_CFG :: "32 word" where "NODES_WALK_BB_CFG = 512"
definition NODES_WALK_BB_REV_CFG :: "32 word" where "NODES_WALK_BB_REV_CFG = 1024"
definition NODES_WALK_BB_POSTDOM_FRONTIERS :: "32 word" where "NODES_WALK_BB_POSTDOM_FRONTIERS = 4096"

lemmas walk_flags = NODES_WALK_CD_def NODES_WALK_DD_def NODES_WALK_REV_CD_def NODES_WALK_REV_DD_def
  NODES_WALK_USE_def NODES_WALK_USER_def NODES_WALK_ID_def NODES_WALK_REV_ID_def
  NODES_WALK_BB_CFG_def NODES_WALK_BB_REV_CFG_def NODES_WALK_BB_POSTDOM_FRONTIERS_def

unbundle bit_operations_syntax

definition has_flag :: "32 word \<Rightarrow> 32 word \<Rightarrow> bool" where
  "has_flag opts f = (opts AND f \<noteq> 0)"

datatype edge_kind = E_CD | E_DD | E_USE | E_USER | E_ID | E_BBCD

section \<open>Following the edges of a node\<close>

definition key_call :: "ir \<Rightarrow> graph \<Rightarrow> nat \<Rightarrow> bool" where
  "key_call I G n = (case key_inst G n of Some i \<Rightarrow> is_call (opc I i) | None \<Rightarrow> False)"

definition key_ret :: "ir \<Rightarrow> graph \<Rightarrow> nat \<Rightarrow> bool" where
  "key_ret I G n = (case key_inst G n of Some i \<Rightarrow> opc I i = Ret | None \<Rightarrow> False)"

text \<open>A store of a value that may be the address of a secret.\<close>

definition stores_secret_addr :: "ir \<Rightarrow> graph \<Rightarrow> nat \<Rightarrow> bool" where
  "stores_secret_addr I G n =
     (case key_inst G n of Some i \<Rightarrow> opc I i = Store \<and> points_to_secret I (opnd I i 0) | None \<Rightarrow> False)"

text \<open>An edge back to a call site is followed only to the call site the function was last entered
  from.\<close>

definition unmatched_call :: "ir \<Rightarrow> graph \<Rightarrow> edge_kind \<Rightarrow> nat \<Rightarrow> nat \<Rightarrow> cape \<Rightarrow> bool" where
  "unmatched_call I G rt n cur s =
     (key_call I G cur \<and>
      (if key_call I G n then False
       else if is_fun (g_key G n) then
         rt = E_USE \<and> (case n_parent s n of Some p \<Rightarrow> p \<noteq> cur | None \<Rightarrow> False)
       else if key_ret I G n then
         (rt = E_USE \<or> rt = E_DD) \<and>
         (case Option.bind (g_dg G n) (dg_entry G) of
            Some fnd \<Rightarrow> (case n_parent s fnd of Some p \<Rightarrow> p \<noteq> cur | None \<Rightarrow> False)
          | None \<Rightarrow> False)
       else False))"

definition skip_edge :: "ir \<Rightarrow> graph \<Rightarrow> edge_kind \<Rightarrow> nat \<Rightarrow> nat \<Rightarrow> cape \<Rightarrow> bool" where
  "skip_edge I G rt n cur s =
     (unmatched_call I G rt n cur s \<or>
      ((rt = E_DD \<or> rt = E_USE) \<and>
       ((key_call I G cur \<and> \<not> key_ret I G n \<and> \<not> is_fun (g_key G n)) \<or> stores_secret_addr I G cur)))"

definition set_parent :: "ir \<Rightarrow> graph \<Rightarrow> edge_kind \<Rightarrow> nat \<Rightarrow> nat \<Rightarrow> cape \<Rightarrow> cape" where
  "set_parent I G rt n cur s =
     (if key_call I G n \<and> rt = E_CD \<and> is_fun (g_key G cur)
      then s\<lparr>n_parent := (n_parent s)(cur := Some n)\<rparr> else s)"

fun processEdges :: "ir \<Rightarrow> graph \<Rightarrow> edge_kind \<Rightarrow> nat \<Rightarrow> nat list \<Rightarrow> cape \<Rightarrow> cape" where
  "processEdges I G rt n [] s = s"
| "processEdges I G rt n (cur # ns) s =
     (let s1 = set_parent I G rt n cur s in
      processEdges I G rt n ns (if skip_edge I G rt n cur s1 then s1 else enqueue cur s1))"

definition processBBlockCDs :: "ir \<Rightarrow> graph \<Rightarrow> nat \<Rightarrow> cape \<Rightarrow> cape" where
  "processBBlockCDs I G n s =
     (case g_block G n of None \<Rightarrow> s
      | Some BB \<Rightarrow> foldl (\<lambda>s CD. processEdges I G E_BBCD n (b_nodes G CD) s) s (b_cd G BB))"

text \<open>The first or last nodes of the blocks related to the node's block; an empty one is a null
  pointer that is queued.\<close>

fun enqueue_some :: "nat option list \<Rightarrow> cape \<Rightarrow> cape option" where
  "enqueue_some [] s = Some s"
| "enqueue_some (m # ms) s = (case m of None \<Rightarrow> None | Some n \<Rightarrow> enqueue_some ms (enqueue n s))"

definition block_ends :: "graph \<Rightarrow> (nat \<Rightarrow> nat option) \<Rightarrow> (nat \<Rightarrow> nat list) \<Rightarrow> nat \<Rightarrow> nat option list" where
  "block_ends G e bs n = (case g_block G n of None \<Rightarrow> [] | Some BB \<Rightarrow> map e (bs BB))"

definition processBBlockRevCDs_walk :: "graph \<Rightarrow> nat \<Rightarrow> cape \<Rightarrow> cape option" where
  "processBBlockRevCDs_walk G n s = enqueue_some (block_ends G (lastNode G) (b_revcd G) n) s"

definition processBBlockCFG :: "graph \<Rightarrow> nat \<Rightarrow> cape \<Rightarrow> cape option" where
  "processBBlockCFG G n s = enqueue_some (block_ends G (firstNode G) (b_succs G) n) s"

definition processBBlockRevCFG :: "graph \<Rightarrow> nat \<Rightarrow> cape \<Rightarrow> cape option" where
  "processBBlockRevCFG G n s = enqueue_some (block_ends G (lastNode G) (b_preds G) n) s"

definition processBBlockPostDomFrontieres :: "graph \<Rightarrow> nat \<Rightarrow> cape \<Rightarrow> cape option" where
  "processBBlockPostDomFrontieres G n s = enqueue_some (block_ends G (lastNode G) (b_pdf G) n) s"

definition when_flag :: "32 word \<Rightarrow> 32 word \<Rightarrow> (cape \<Rightarrow> cape option) \<Rightarrow> cape \<Rightarrow> cape option" where
  "when_flag opts f g s = (if has_flag opts f then g s else Some s)"

definition walk_edges :: "ir \<Rightarrow> graph \<Rightarrow> 32 word \<Rightarrow> nat \<Rightarrow> bool \<Rightarrow> cape \<Rightarrow> cape option" where
  "walk_edges I G opts n marked s =
     (if opts = 0 then Some s else do {
        s \<leftarrow> when_flag opts NODES_WALK_CD (\<lambda>s.
          let s' = processEdges I G E_CD n (g_control G n) s in
          Some (if marked then processBBlockCDs I G n s' else s')) s;
        s \<leftarrow> when_flag opts NODES_WALK_REV_CD (\<lambda>s.
          processBBlockRevCDs_walk G n (enqueue_all (g_rev_control G n) s)) s;
        s \<leftarrow> when_flag opts NODES_WALK_DD (\<lambda>s. Some (processEdges I G E_DD n (g_data G n) s)) s;
        s \<leftarrow> when_flag opts NODES_WALK_REV_DD (\<lambda>s. Some (enqueue_all (g_rev_data G n) s)) s;
        s \<leftarrow> when_flag opts NODES_WALK_USE (\<lambda>s. Some (processEdges I G E_USE n (g_use G n) s)) s;
        s \<leftarrow> when_flag opts NODES_WALK_USER (\<lambda>s. Some (processEdges I G E_USER n (g_user G n) s)) s;
        s \<leftarrow> when_flag opts NODES_WALK_ID (\<lambda>s. Some (processEdges I G E_ID n (g_interf G n) s)) s;
        s \<leftarrow> when_flag opts NODES_WALK_REV_ID (\<lambda>s. Some (enqueue_all (g_rev_interf G n) s)) s;
        s \<leftarrow> when_flag opts NODES_WALK_BB_CFG (processBBlockCFG G n) s;
        s \<leftarrow> when_flag opts NODES_WALK_BB_REV_CFG (processBBlockRevCFG G n) s;
        when_flag opts NODES_WALK_BB_POSTDOM_FRONTIERS (processBBlockPostDomFrontieres G n) s
      })"

section \<open>The walk\<close>

partial_function (option) walk_loop ::
    "ir \<Rightarrow> graph \<Rightarrow> 32 word \<Rightarrow> (nat \<Rightarrow> cape \<Rightarrow> (bool \<times> cape) option) \<Rightarrow> cape \<Rightarrow> cape option" where
  "walk_loop I G opts func s =
     (case w_queue s of [] \<Rightarrow> Some s
      | n # q \<Rightarrow> Option.bind (func n (s\<lparr>w_queue := q\<rparr>)) (\<lambda>r.
          Option.bind (walk_edges I G opts n (fst r) (snd r)) (\<lambda>s'. walk_loop I G opts func s')))"

declare walk_loop.simps [code]

definition walk ::
    "ir \<Rightarrow> graph \<Rightarrow> 32 word \<Rightarrow> nat list \<Rightarrow> (nat \<Rightarrow> cape \<Rightarrow> (bool \<times> cape) option) \<Rightarrow> cape \<Rightarrow> cape option" where
  "walk I G opts entry func s =
     (let s1 = s\<lparr>run_id := run_id s + 1\<rparr> in
      if entry = [] then None else walk_loop I G opts func (enqueue_all entry s1))"

section \<open>Marking\<close>

definition mark_options :: "bool \<Rightarrow> 32 word" where
  "mark_options fwd =
     (if fwd then NODES_WALK_CD OR NODES_WALK_DD OR NODES_WALK_USE OR NODES_WALK_ID
      else NODES_WALK_REV_CD OR NODES_WALK_REV_DD OR NODES_WALK_USER OR NODES_WALK_ID OR NODES_WALK_REV_ID)"

text \<open>\<open>WalkAndMark::mark\<close>: the buffer ids continue from \<open>buff_id\<close> and the last one is returned, both
  as 16-bit numbers.\<close>

definition mark_walk ::
    "ir \<Rightarrow> graph \<Rightarrow> bool \<Rightarrow> nat list \<Rightarrow> 32 word \<Rightarrow> nat \<Rightarrow> 16 word \<Rightarrow> cape \<Rightarrow> (16 word \<times> cape) option" where
  "mark_walk I G fwd start sl pass buff_id s =
     Option.bind (walk I G (mark_options fwd) start (markSlice I G fwd sl pass)
         (s\<lparr>allocId := ucast buff_id, markedBlocks := {}\<rparr>))
       (\<lambda>s'. Some (ucast (allocId s'), s'))"

text \<open>\<open>Slicer::mark\<close> of a pass.\<close>

definition slicer_mark ::
    "ir \<Rightarrow> graph \<Rightarrow> nat \<Rightarrow> 32 word \<Rightarrow> bool \<Rightarrow> nat \<Rightarrow> 16 word \<Rightarrow> nat list \<Rightarrow> cape \<Rightarrow> (16 word \<times> cape) option" where
  "slicer_mark I G start sl_id fwd pass buff_id frees s =
     Option.bind (mark_walk I G fwd [start] (if sl_id = 0 then 1 else sl_id) pass buff_id s) (\<lambda>(b, s').
       Some (b, if pass = 2 then handleFreeFunc I frees s' else s'))"


section \<open>What a walk reaches\<close>

definition visited :: "cape \<Rightarrow> nat \<Rightarrow> bool" where
  "visited s n = (lastwalk s n = run_id s)"

text \<open>The work list only grows, by nodes not visited before.\<close>

definition grows :: "cape \<Rightarrow> cape \<Rightarrow> bool" where
  "grows s s' = (run_id s' = run_id s \<and> (\<exists>new. w_queue s' = w_queue s @ new \<and> distinct new \<and>
     (\<forall>n \<in> set new. \<not> visited s n) \<and> (\<forall>n. visited s' n = (visited s n \<or> n \<in> set new))))"

lemma growsI: "run_id s' = run_id s \<Longrightarrow> w_queue s' = w_queue s @ new \<Longrightarrow> distinct new \<Longrightarrow>
    (\<And>n. n \<in> set new \<Longrightarrow> \<not> visited s n) \<Longrightarrow>
    (\<And>n. visited s' n = (visited s n \<or> n \<in> set new)) \<Longrightarrow> grows s s'"
  by (auto simp: grows_def)

lemma grows_same:
  assumes "run_id s' = run_id s" "w_queue s' = w_queue s" "lastwalk s' = lastwalk s"
  shows "grows s s'"
  by (rule growsI [of _ _ "[]"]) (use assms in \<open>simp_all add: visited_def\<close>)

lemma grows_refl [simp]: "grows s s"
  by (rule grows_same) simp_all

lemma grows_trans:
  assumes "grows s t" and "grows t u"
  shows "grows s u"
proof -
  obtain a where a: "w_queue t = w_queue s @ a" "\<forall>n. visited t n = (visited s n \<or> n \<in> set a)" "run_id t = run_id s"
    "distinct a" "\<forall>n \<in> set a. \<not> visited s n"
    using assms(1) by (auto simp: grows_def)
  obtain b where b: "w_queue u = w_queue t @ b" "\<forall>n. visited u n = (visited t n \<or> n \<in> set b)" "run_id u = run_id t"
    "distinct b" "\<forall>n \<in> set b. \<not> visited t n"
    using assms(2) by (auto simp: grows_def)
  show ?thesis by (rule growsI [of _ _ "a @ b"]) (use a b in auto)
qed

lemma grows_visited: "grows s s' \<Longrightarrow> visited s n \<Longrightarrow> visited s' n"
  by (auto simp: grows_def)

lemma enqueue_grows [simp]: "grows s (enqueue n s)"
proof (cases "lastwalk s n = run_id s")
  case True
  then show ?thesis by (simp add: enqueue_def)
next
  case False
  then show ?thesis by (intro growsI [of _ _ "[n]"]) (auto simp: enqueue_def visited_def)
qed

lemma enqueue_visited [simp]: "visited (enqueue n s) n"
  by (simp add: enqueue_def visited_def)

lemma enqueue_marks [simp]: "sl_node (enqueue n s) = sl_node s"
  by (simp add: enqueue_def)

lemma enqueue_all_grows [simp]: "grows s (enqueue_all ns s)"
  by (induction ns arbitrary: s) (auto intro: grows_trans [OF enqueue_grows])

lemma enqueue_all_marks [simp]: "sl_node (enqueue_all ns s) = sl_node s"
  by (induction ns arbitrary: s) simp_all

lemma enqueue_all_visited: "n \<in> set ns \<Longrightarrow> visited (enqueue_all ns s) n"
proof (induction ns arbitrary: s)
  case (Cons m ns)
  then show ?case using grows_visited [OF enqueue_all_grows enqueue_visited] by auto
qed simp

lemma set_parent_grows [simp]: "grows s (set_parent I G rt n cur s)"
  by (rule grows_same) (simp_all add: set_parent_def)

lemma set_parent_marks [simp]: "sl_node (set_parent I G rt n cur s) = sl_node s"
  by (simp add: set_parent_def)

lemma processEdges_grows [simp]: "grows s (processEdges I G rt n ns s)"
proof (induction ns arbitrary: s)
  case (Cons m ns)
  show ?case
    by (simp add: Let_def) (metis Cons.IH enqueue_grows grows_trans set_parent_grows)
qed simp

lemma processEdges_marks [simp]: "sl_node (processEdges I G rt n ns s) = sl_node s"
  by (induction ns arbitrary: s) (simp_all add: Let_def)

text \<open>Edges that are never skipped.\<close>

definition free_edge :: "ir \<Rightarrow> graph \<Rightarrow> edge_kind \<Rightarrow> nat \<Rightarrow> bool" where
  "free_edge I G rt m = (\<not> key_call I G m \<and> (rt = E_DD \<or> rt = E_USE \<longrightarrow> \<not> stores_secret_addr I G m))"

lemma free_edge_not_skipped: "free_edge I G rt m \<Longrightarrow> \<not> skip_edge I G rt n m s"
  by (auto simp: free_edge_def skip_edge_def unmatched_call_def)

lemma processEdges_visited: "m \<in> set ns \<Longrightarrow> free_edge I G rt m \<Longrightarrow> visited (processEdges I G rt n ns s) m"
proof (induction ns arbitrary: s)
  case (Cons a ns)
  show ?case
  proof (cases "m \<in> set ns")
    case True
    then show ?thesis using Cons by (simp add: Let_def)
  next
    case False
    then have "\<not> skip_edge I G rt n a (set_parent I G rt n a s)" "m = a"
      using Cons.prems free_edge_not_skipped by auto
    then show ?thesis using grows_visited [OF processEdges_grows enqueue_visited] by (simp add: Let_def)
  qed
qed simp

lemma enqueue_some_grows: "enqueue_some ms s = Some s' \<Longrightarrow> grows s s' \<and> sl_node s' = sl_node s"
proof (induction ms arbitrary: s)
  case (Cons m ms)
  then obtain n where "m = Some n" "enqueue_some ms (enqueue n s) = Some s'" by (auto split: option.splits)
  then show ?case using Cons.IH [of "enqueue n s"] grows_trans [OF enqueue_grows] by auto
qed simp

lemma foldl_edges_grows:
  "grows s (foldl (\<lambda>s CD. processEdges I G E_BBCD n (b_nodes G CD) s) s bs) \<and>
   sl_node (foldl (\<lambda>s CD. processEdges I G E_BBCD n (b_nodes G CD) s) s bs) = sl_node s"
proof (induction bs arbitrary: s)
  case (Cons b bs)
  let ?t = "processEdges I G E_BBCD n (b_nodes G b) s"
  show ?case using Cons.IH [of ?t] grows_trans [OF processEdges_grows, of I G E_BBCD n "b_nodes G b" s] by simp
qed simp

lemma foldl_edges_visited:
  assumes "m \<in> set (b_nodes G CD)" and "CD \<in> set bs" and "\<not> key_call I G m"
  shows "visited (foldl (\<lambda>s CD. processEdges I G E_BBCD n (b_nodes G CD) s) s bs) m"
  using assms(2)
proof (induction bs arbitrary: s)
  case (Cons b bs)
  show ?case
  proof (cases "CD \<in> set bs")
    case False
    then have "b = CD" using Cons.prems by simp
    moreover have "visited (processEdges I G E_BBCD n (b_nodes G CD) s) m"
      using assms by (intro processEdges_visited) (auto simp: free_edge_def)
    ultimately show ?thesis
      using grows_visited [OF foldl_edges_grows [THEN conjunct1], of "processEdges I G E_BBCD n (b_nodes G CD) s" m]
      by simp
  qed (use Cons.IH in simp)
qed simp

lemma processBBlockCDs_grows: "grows s (processBBlockCDs I G n s) \<and> sl_node (processBBlockCDs I G n s) = sl_node s"
  using foldl_edges_grows by (auto simp: processBBlockCDs_def split: option.splits)

text \<open>The nodes the edges of \<open>n\<close> lead to by edges that are never skipped.\<close>

definition targets :: "ir \<Rightarrow> graph \<Rightarrow> 32 word \<Rightarrow> nat \<Rightarrow> nat set" where
  "targets I G opts n =
     {m. has_flag opts NODES_WALK_CD \<and> m \<in> set (g_control G n) \<and> free_edge I G E_CD m \<or>
         has_flag opts NODES_WALK_DD \<and> m \<in> set (g_data G n) \<and> free_edge I G E_DD m \<or>
         has_flag opts NODES_WALK_USE \<and> m \<in> set (g_use G n) \<and> free_edge I G E_USE m \<or>
         has_flag opts NODES_WALK_ID \<and> m \<in> set (g_interf G n) \<and> free_edge I G E_ID m}"

definition block_targets :: "ir \<Rightarrow> graph \<Rightarrow> nat \<Rightarrow> nat set" where
  "block_targets I G n =
     {m. \<exists>BB CD. g_block G n = Some BB \<and> CD \<in> set (b_cd G BB) \<and> m \<in> set (b_nodes G CD) \<and> \<not> key_call I G m}"

lemma when_flag_step:
  assumes "when_flag opts f g s = Some s'"
    and "\<And>t. g s = Some t \<Longrightarrow> grows s t \<and> sl_node t = sl_node s"
  shows "grows s s' \<and> sl_node s' = sl_node s"
  using assms by (auto simp: when_flag_def split: if_splits)

lemma walk_edges_ok:
  assumes "walk_edges I G opts n marked s = Some s'"
  shows "grows s s' \<and> sl_node s' = sl_node s \<and> (\<forall>m \<in> targets I G opts n. opts \<noteq> 0 \<longrightarrow> visited s' m) \<and>
    (has_flag opts NODES_WALK_CD \<and> marked \<longrightarrow> opts \<noteq> 0 \<longrightarrow> (\<forall>m \<in> block_targets I G n. visited s' m))"
proof (cases "opts = 0")
  case True
  then show ?thesis using assms by (simp add: walk_edges_def)
next
  case False
  let ?gr = "\<lambda>s t. grows s t \<and> sl_node t = sl_node s"
  obtain s1 s2 s3 s4 s5 s6 s7 s8 s9 s10 where
    w: "when_flag opts NODES_WALK_CD (\<lambda>s. let s' = processEdges I G E_CD n (g_control G n) s in
          Some (if marked then processBBlockCDs I G n s' else s')) s = Some s1"
      "when_flag opts NODES_WALK_REV_CD (\<lambda>s. processBBlockRevCDs_walk G n (enqueue_all (g_rev_control G n) s)) s1 = Some s2"
      "when_flag opts NODES_WALK_DD (\<lambda>s. Some (processEdges I G E_DD n (g_data G n) s)) s2 = Some s3"
      "when_flag opts NODES_WALK_REV_DD (\<lambda>s. Some (enqueue_all (g_rev_data G n) s)) s3 = Some s4"
      "when_flag opts NODES_WALK_USE (\<lambda>s. Some (processEdges I G E_USE n (g_use G n) s)) s4 = Some s5"
      "when_flag opts NODES_WALK_USER (\<lambda>s. Some (processEdges I G E_USER n (g_user G n) s)) s5 = Some s6"
      "when_flag opts NODES_WALK_ID (\<lambda>s. Some (processEdges I G E_ID n (g_interf G n) s)) s6 = Some s7"
      "when_flag opts NODES_WALK_REV_ID (\<lambda>s. Some (enqueue_all (g_rev_interf G n) s)) s7 = Some s8"
      "when_flag opts NODES_WALK_BB_CFG (processBBlockCFG G n) s8 = Some s9"
      "when_flag opts NODES_WALK_BB_REV_CFG (processBBlockRevCFG G n) s9 = Some s10"
      "when_flag opts NODES_WALK_BB_POSTDOM_FRONTIERS (processBBlockPostDomFrontieres G n) s10 = Some s'"
    using assms False by (auto simp: walk_edges_def bind_eq_Some_conv)
  have g1: "?gr s s1"
    by (rule when_flag_step [OF w(1)])
      (auto simp: Let_def processBBlockCDs_grows
        intro: grows_trans [OF processEdges_grows processBBlockCDs_grows [THEN conjunct1]])
  have g2: "?gr s1 s2"
    by (rule when_flag_step [OF w(2)])
      (auto simp: processBBlockRevCDs_walk_def dest!: enqueue_some_grows intro: grows_trans [OF enqueue_all_grows])
  have g3: "?gr s2 s3" by (rule when_flag_step [OF w(3)]) auto
  have g4: "?gr s3 s4" by (rule when_flag_step [OF w(4)]) auto
  have g5: "?gr s4 s5" by (rule when_flag_step [OF w(5)]) auto
  have g6: "?gr s5 s6" by (rule when_flag_step [OF w(6)]) auto
  have g7: "?gr s6 s7" by (rule when_flag_step [OF w(7)]) auto
  have g8: "?gr s7 s8" by (rule when_flag_step [OF w(8)]) auto
  have g9: "?gr s8 s9"
    by (rule when_flag_step [OF w(9)]) (auto simp: processBBlockCFG_def dest: enqueue_some_grows)
  have g10: "?gr s9 s10"
    by (rule when_flag_step [OF w(10)]) (auto simp: processBBlockRevCFG_def dest: enqueue_some_grows)
  have g11: "?gr s10 s'"
    by (rule when_flag_step [OF w(11)]) (auto simp: processBBlockPostDomFrontieres_def dest: enqueue_some_grows)
  have t7: "grows s7 s'" using g8 g9 g10 g11 grows_trans by blast
  have t5: "grows s5 s'" using g6 g7 t7 grows_trans by blast
  have t3: "grows s3 s'" using g4 g5 t5 grows_trans by blast
  have t1: "grows s1 s'" using g2 g3 t3 grows_trans by blast
  have all: "grows s s'" using g1 t1 grows_trans by blast
  have sl: "sl_node s' = sl_node s" using g1 g2 g3 g4 g5 g6 g7 g8 g9 g10 g11 by simp
  have vis: "visited s' m" if "m \<in> targets I G opts n" for m
  proof -
    from that consider "has_flag opts NODES_WALK_CD" "m \<in> set (g_control G n)" "free_edge I G E_CD m"
      | "has_flag opts NODES_WALK_DD" "m \<in> set (g_data G n)" "free_edge I G E_DD m"
      | "has_flag opts NODES_WALK_USE" "m \<in> set (g_use G n)" "free_edge I G E_USE m"
      | "has_flag opts NODES_WALK_ID" "m \<in> set (g_interf G n)" "free_edge I G E_ID m"
      unfolding targets_def by blast
    then show ?thesis
    proof cases
      case 1
      have "visited (processEdges I G E_CD n (g_control G n) s) m" using 1(2,3) by (rule processEdges_visited)
      moreover have "grows (processEdges I G E_CD n (g_control G n) s) s1"
        using w(1) 1(1) processBBlockCDs_grows by (auto simp: when_flag_def Let_def)
      ultimately show ?thesis using t1 grows_visited by blast
    next
      case 2
      then have "visited s3 m" using w(3) processEdges_visited by (auto simp: when_flag_def)
      then show ?thesis using t3 grows_visited by blast
    next
      case 3
      then have "visited s5 m" using w(5) processEdges_visited by (auto simp: when_flag_def)
      then show ?thesis using t5 grows_visited by blast
    next
      case 4
      then have "visited s7 m" using w(7) processEdges_visited by (auto simp: when_flag_def)
      then show ?thesis using t7 grows_visited by blast
    qed
  qed
  have "visited s' m" if fl: "has_flag opts NODES_WALK_CD" "marked" and bt: "m \<in> block_targets I G n" for m
  proof -
    obtain BB CD where b: "g_block G n = Some BB" "CD \<in> set (b_cd G BB)" "m \<in> set (b_nodes G CD)" "\<not> key_call I G m"
      using bt by (auto simp: block_targets_def)
    have "visited s1 m" using w(1) fl b(1) foldl_edges_visited [OF b(3,2,4)]
      by (auto simp: when_flag_def Let_def processBBlockCDs_def)
    then show ?thesis using t1 grows_visited by blast
  qed
  then show ?thesis using all sl vis by blast
qed


section \<open>The interface of a node's handler\<close>

text \<open>What the walk needs of the function it calls on a node: it only adds to the work list, keeps
  what the nodes still to come rely on (\<open>pre\<close>), and what it establishes for its node (\<open>handled\<close>) is
  not lost by later calls and edges; \<open>le\<close> orders the states by what is kept.\<close>

locale node_walk =
  fixes I :: ir and G :: graph and opts :: "32 word" and func :: "nat \<Rightarrow> cape \<Rightarrow> (bool \<times> cape) option"
    and pre :: "nat \<Rightarrow> cape \<Rightarrow> bool" and handled :: "nat \<Rightarrow> bool \<Rightarrow> cape \<Rightarrow> bool"
    and le :: "cape \<Rightarrow> cape \<Rightarrow> bool"
  assumes func_grows: "func n s = Some (m, s') \<Longrightarrow> grows s s'"
    and func_le: "func n s = Some (m, s') \<Longrightarrow> le s s'"
    and func_pre: "func n s = Some (m, s') \<Longrightarrow> pre x s \<Longrightarrow> x \<noteq> n \<Longrightarrow> pre x s'"
    and func_handled: "func n s = Some (m, s') \<Longrightarrow> pre n s \<Longrightarrow> handled n m s'"
    and handled_le: "handled n m s \<Longrightarrow> le s s' \<Longrightarrow> handled n m s'"
    and marks_le: "sl_node s' = sl_node s \<Longrightarrow> le s s'"
    and marks_pre: "sl_node s' = sl_node s \<Longrightarrow> pre x s \<Longrightarrow> pre x s'"
begin

text \<open>A node whose edges have been followed.\<close>

definition finished :: "cape \<Rightarrow> nat \<Rightarrow> bool" where
  "finished s n = (\<exists>m. handled n m s \<and> (opts \<noteq> 0 \<longrightarrow> (\<forall>x \<in> targets I G opts n. visited s x) \<and>
     (m \<and> has_flag opts NODES_WALK_CD \<longrightarrow> (\<forall>x \<in> block_targets I G n. visited s x))))"

lemma finished_mono: "finished s n \<Longrightarrow> (\<forall>x. visited s x \<longrightarrow> visited s' x) \<Longrightarrow> le s s' \<Longrightarrow> finished s' n"
  unfolding finished_def using handled_le by blast

text \<open>Invariant: the work list has no repetition, its nodes are visited, a visited node is queued or
  finished, and the nodes still to come satisfy \<open>pre\<close>.\<close>

definition walk_inv :: "cape \<Rightarrow> bool" where
  "walk_inv s = (distinct (w_queue s) \<and> (\<forall>n \<in> set (w_queue s). visited s n) \<and>
     (\<forall>n. visited s n \<longrightarrow> n \<in> set (w_queue s) \<or> finished s n) \<and>
     (\<forall>n. n \<in> set (w_queue s) \<or> \<not> visited s n \<longrightarrow> pre n s))"

lemma walk_step:
  assumes inv: "walk_inv s" and q: "w_queue s = n # q"
    and f: "func n (s\<lparr>w_queue := q\<rparr>) = Some (m, u)" and w: "walk_edges I G opts n m u = Some v"
  shows "walk_inv v" and "\<forall>x. visited s x \<longrightarrow> visited v x"
    and "\<exists>new. w_queue v = q @ new \<and> distinct new \<and> (\<forall>x \<in> set new. \<not> visited s x) \<and>
      (\<forall>x. visited v x = (visited s x \<or> x \<in> set new))"
proof -
  let ?t = "s\<lparr>w_queue := q\<rparr>"
  have e: "grows u v" "sl_node v = sl_node u" "\<forall>x \<in> targets I G opts n. opts \<noteq> 0 \<longrightarrow> visited v x"
    "has_flag opts NODES_WALK_CD \<and> m \<longrightarrow> opts \<noteq> 0 \<longrightarrow> (\<forall>x \<in> block_targets I G n. visited v x)"
    using walk_edges_ok [OF w] by blast+
  have vt: "visited ?t x = visited s x" for x by (simp add: visited_def)
  have "grows ?t v" using func_grows [OF f] e(1) by (rule grows_trans)
  then show g: "\<exists>new. w_queue v = q @ new \<and> distinct new \<and> (\<forall>x \<in> set new. \<not> visited s x) \<and>
      (\<forall>x. visited v x = (visited s x \<or> x \<in> set new))"
    by (simp add: grows_def vt)
  then show vis: "\<forall>x. visited s x \<longrightarrow> visited v x" by blast
  obtain new where new: "w_queue v = q @ new" "distinct new" "\<forall>x \<in> set new. \<not> visited s x"
    "\<forall>x. visited v x = (visited s x \<or> x \<in> set new)" using g by blast
  note i = inv [unfolded walk_inv_def q]
  have pre_t: "pre n ?t" using i marks_pre [of ?t s n] by simp
  have "handled n m v" using func_handled [OF f pre_t] marks_le [OF e(2)] by (rule handled_le)
  then have fin_n: "finished v n" unfolding finished_def using e(3,4) by blast
  have fin: "finished v x" if "finished s x" for x
  proof -
    have 1: "finished ?t x" using that by (rule finished_mono) (simp_all add: visited_def marks_le)
    have vu: "\<forall>x. visited ?t x \<longrightarrow> visited u x" "\<forall>x. visited u x \<longrightarrow> visited v x"
      using func_grows [OF f] e(1) grows_visited by blast+
    have 2: "finished u x" by (rule finished_mono [OF 1 vu(1) func_le [OF f]])
    show ?thesis by (rule finished_mono [OF 2 vu(2) marks_le [OF e(2)]])
  qed
  have pre: "pre x v" if "x \<in> set q \<or> \<not> visited s x" for x
  proof -
    have "x \<noteq> n" using that i by auto
    moreover have "pre x ?t" using that i marks_pre [of ?t s x] by auto
    ultimately have "pre x u" by (rule func_pre [OF f, rotated])
    with e(2) show ?thesis by (rule marks_pre)
  qed
  show "walk_inv v" unfolding walk_inv_def
  proof (intro conjI allI impI ballI)
    show "distinct (w_queue v)" using i new by auto
    show "visited v x" if "x \<in> set (w_queue v)" for x using that i new by auto
    show "x \<in> set (w_queue v) \<or> finished v x" if "visited v x" for x
      using that i new fin fin_n by auto
    show "pre x v" if "x \<in> set (w_queue v) \<or> \<not> visited v x" for x
      using that new pre by auto
  qed
qed

lemma walk_loop_closed:
  assumes "walk_loop I G opts func s = Some s'" and "walk_inv s"
  shows "walk_inv s' \<and> w_queue s' = [] \<and> (\<forall>n. visited s n \<longrightarrow> visited s' n)"
proof -
  have "F = func \<longrightarrow> J = I \<longrightarrow> H = G \<longrightarrow> o' = opts \<longrightarrow> walk_inv s \<longrightarrow>
      walk_inv s' \<and> w_queue s' = [] \<and> (\<forall>n. visited s n \<longrightarrow> visited s' n)"
    if "walk_loop J H o' F s = Some s'" for J H o' F s s'
  proof (rule walk_loop.raw_induct [OF _ that], goal_cases)
    case (1 rec J H o' F s s')
    show ?case
    proof (intro impI)
      assume eqs: "F = func" "J = I" "H = G" "o' = opts" and inv: "walk_inv s"
      show "walk_inv s' \<and> w_queue s' = [] \<and> (\<forall>n. visited s n \<longrightarrow> visited s' n)"
      proof (cases "w_queue s")
        case Nil
        then show ?thesis using 1(2) inv by simp
      next
        case (Cons n q)
        obtain m u v where f: "func n (s\<lparr>w_queue := q\<rparr>) = Some (m, u)" and w: "walk_edges I G opts n m u = Some v"
          and r: "rec I G opts func v = Some s'"
          using 1(2) Cons eqs by (auto simp: bind_eq_Some_conv)
        note st = walk_step [OF inv Cons f w]
        then show ?thesis using 1(1) r by blast
      qed
    qed
  qed
  then show ?thesis using assms by blast
qed

lemma walk_start:
  assumes "w_queue s = []" and "\<forall>n. lastwalk s n \<noteq> run_id s + 1" and "\<forall>n. pre n s"
  shows "walk_inv (enqueue_all entry (s\<lparr>run_id := run_id s + 1\<rparr>))"
proof -
  let ?t = "s\<lparr>run_id := run_id s + 1\<rparr>" and ?s = "enqueue_all entry (s\<lparr>run_id := run_id s + 1\<rparr>)"
  have "grows ?t ?s" by simp
  then obtain new where "w_queue ?s = new" "\<forall>n. visited ?s n = (n \<in> set new)" "distinct new"
    using assms(1,2) by (auto simp: grows_def visited_def)
  moreover have "pre n ?s" for n using assms(3) marks_pre [of ?s s n] by simp
  ultimately show ?thesis by (simp add: walk_inv_def)
qed

lemma walk_closed:
  assumes "walk I G opts entry func s = Some s'" and "w_queue s = []"
    and "\<forall>n. lastwalk s n \<noteq> run_id s + 1" and "\<forall>n. pre n s"
  shows "(\<forall>n. visited s' n \<longrightarrow> finished s' n) \<and> (\<forall>n \<in> set entry. visited s' n)"
proof -
  let ?s = "enqueue_all entry (s\<lparr>run_id := run_id s + 1\<rparr>)"
  have run: "walk_loop I G opts func ?s = Some s'" using assms(1) by (simp add: walk_def Let_def split: if_splits)
  from walk_loop_closed [OF run walk_start [OF assms(2-4)]] show ?thesis
    using enqueue_all_visited by (auto simp: walk_inv_def)
qed

text \<open>On a finite set of nodes the walk ends.\<close>

lemma walk_loop_total:
  assumes "finite N" and "walk_inv s" and "\<forall>n. visited s n \<longrightarrow> n \<in> N"
    and total: "\<And>n s. n \<in> N \<Longrightarrow> \<exists>m s'. func n s = Some (m, s') \<and> (\<forall>x. visited s' x \<longrightarrow> visited s x \<or> x \<in> N)"
    and edges: "\<And>n m s. n \<in> N \<Longrightarrow> \<exists>s'. walk_edges I G opts n m s = Some s' \<and> (\<forall>x. visited s' x \<longrightarrow> visited s x \<or> x \<in> N)"
  shows "\<exists>s'. walk_loop I G opts func s = Some s'"
  using assms(2,3)
proof (induction "card {n \<in> N. \<not> visited s n} + length (w_queue s)" arbitrary: s rule: less_induct)
  case less
  show ?case
  proof (cases "w_queue s")
    case Nil
    then show ?thesis by (subst walk_loop.simps) simp
  next
    case (Cons n q)
    have nN: "n \<in> N" using less.prems Cons by (auto simp: walk_inv_def)
    obtain m u where f: "func n (s\<lparr>w_queue := q\<rparr>) = Some (m, u)" "\<forall>x. visited u x \<longrightarrow> visited s x \<or> x \<in> N"
      using total [OF nN, of "s\<lparr>w_queue := q\<rparr>"] by (auto simp: visited_def)
    obtain v where w: "walk_edges I G opts n m u = Some v" "\<forall>x. visited v x \<longrightarrow> visited u x \<or> x \<in> N"
      using edges [OF nN] by blast
    note st = walk_step [OF less.prems(1) Cons f(1) w(1)]
    obtain new where new: "w_queue v = q @ new" "distinct new" "\<forall>x \<in> set new. \<not> visited s x"
      "\<forall>x. visited v x = (visited s x \<or> x \<in> set new)" using st(3) by blast
    have vN: "\<forall>x. visited v x \<longrightarrow> x \<in> N" using w(2) f(2) less.prems(2) by blast
    have sub: "set new \<subseteq> {x \<in> N. \<not> visited s x}" using vN new by auto
    have "{x \<in> N. \<not> visited v x} = {x \<in> N. \<not> visited s x} - set new" using new(4) by auto
    then have "card {x \<in> N. \<not> visited v x} + length new = card {x \<in> N. \<not> visited s x}"
      using sub assms(1) new(2) card_mono [OF _ sub] by (simp add: card_Diff_subset distinct_card)
    then have "card {x \<in> N. \<not> visited v x} + length (w_queue v) < card {x \<in> N. \<not> visited s x} + length (w_queue s)"
      using new(1) Cons by simp
    from less.hyps [OF this st(1) vN] show ?thesis
      using Cons f(1) w(1) by (subst walk_loop.simps) simp
  qed
qed

end

section \<open>Marking what depends on the secret\<close>

text \<open>The accesses to the secret itself, which pass 0 leaves unmarked.\<close>

definition secret_access :: "ir \<Rightarrow> graph \<Rightarrow> nat \<Rightarrow> bool" where
  "secret_access I G n = (case key_inst G n of None \<Rightarrow> False
     | Some i \<Rightarrow> (case addr_operand (opc I i) of Some k \<Rightarrow> points_to_secret I (opnd I i k) | None \<Rightarrow> False))"

definition pass0_pre :: "32 word \<Rightarrow> nat \<Rightarrow> cape \<Rightarrow> bool" where
  "pass0_pre sl n s = (slice_base sl \<noteq> 0 \<longrightarrow> sl_node s n = 0)"

definition pass0_handled :: "ir \<Rightarrow> graph \<Rightarrow> 32 word \<Rightarrow> nat \<Rightarrow> bool \<Rightarrow> cape \<Rightarrow> bool" where
  "pass0_handled I G sl n m s = (slice_base sl \<noteq> 0 \<longrightarrow>
     secret_access I G n \<or> sl_node s n \<noteq> 0 \<and> m = cond_branch I G n)"

definition keeps_marks :: "32 word \<Rightarrow> cape \<Rightarrow> cape \<Rightarrow> bool" where
  "keeps_marks sl s s' = (slice_base sl \<noteq> 0 \<longrightarrow> (\<forall>n. sl_node s n \<noteq> 0 \<longrightarrow> sl_node s' n \<noteq> 0))"

lemma set_node_grows [simp]: "grows s (set_node n sid s)"
  by (rule grows_same) (simp_all add: set_node_def)

lemma mark_node_effect:
  assumes "mark_node G fwd n sid s = Some s'"
  shows "grows s s' \<and> sl_node s' = (sl_node s)(n := sid)"
proof -
  have e: "grows s (enqueue m t)" if "grows s t" for m t using that by (rule grows_trans) simp
  show ?thesis
    using assms unfolding mark_node_def Let_def set_node_def set_block_def
    by (auto split: option.splits if_splits simp: bind_eq_Some_conv intro!: e grows_same)
qed

lemma mark_pass0_effect:
  assumes "mark_pass0 I G fwd sid n s = Some (m, s')" and "sl_node s n = 0"
  shows "grows s s' \<and> (sl_node s' = sl_node s \<and> secret_access I G n \<or>
    sl_node s' = (sl_node s)(n := sid) \<and> m = cond_branch I G n)"
proof -
  obtain stop s1 where h: "(case key_inst G n of
            None \<Rightarrow> Some (False, s)
          | Some i \<Rightarrow> (case addr_operand (opc I i) of
                Some k \<Rightarrow> Some (points_to_secret I (opnd I i k), s)
              | None \<Rightarrow>
                  if is_br I (Orig i) then
                    Option.bind (exit_loop G (g_block G n)) (\<lambda>r. Some (False, case r of
                        None \<Rightarrow> s
                      | Some (h, blks) \<Rightarrow> enqueue_all (filter (\<lambda>m. sl_node s m = 0) (loop_nodes G blks)) s))
                  else Some (False, s))) = Some (stop, s1)"
    and k: "(if stop then Some (False, s1)
          else Option.bind (mark_node G fwd n sid s1) (\<lambda>s2. Some (cond_branch I G n, s2))) = Some (m, s')"
    using assms by (auto simp: mark_pass0_def bind_eq_Some_conv)
  have s1: "grows s s1 \<and> sl_node s1 = sl_node s \<and> (stop \<longrightarrow> secret_access I G n)"
    using h by (auto simp: bind_eq_Some_conv secret_access_def split: option.splits if_splits)
  show ?thesis
  proof (cases stop)
    case True
    then show ?thesis using k s1 by auto
  next
    case False
    then obtain s2 where "mark_node G fwd n sid s1 = Some s2" "s' = s2" "m = cond_branch I G n"
      using k by (auto simp: bind_eq_Some_conv)
    then show ?thesis using mark_node_effect [of G fwd n sid s1 s2] s1 grows_trans by auto
  qed
qed

lemma mark_pass0_marked: "sl_node s n \<noteq> 0 \<Longrightarrow> mark_pass0 I G fwd sid n s = Some (False, s)"
  by (simp add: mark_pass0_def)

interpretation pass0: node_walk I G opts "markSlice I G fwd sl 0" "pass0_pre sl" "pass0_handled I G sl" "keeps_marks sl"
  for I G opts fwd sl
proof
  fix n s m s'
  assume f: "markSlice I G fwd sl 0 n s = Some (m, s')"
  then have p: "mark_pass0 I G fwd (slice_base sl) n s = Some (m, s')" by (simp add: markSlice_def Let_def)
  have e: "grows s s' \<and> (sl_node s n = 0 \<longrightarrow> sl_node s' = sl_node s \<and> secret_access I G n \<or>
    sl_node s' = (sl_node s)(n := slice_base sl) \<and> m = cond_branch I G n) \<and> (sl_node s n \<noteq> 0 \<longrightarrow> s' = s)"
    using mark_pass0_effect [OF p] mark_pass0_marked [of s n I G fwd "slice_base sl"] p by (cases "sl_node s n = 0") auto
  show "grows s s'" using e by blast
  show "keeps_marks sl s s'" using e by (cases "sl_node s n = 0") (auto simp: keeps_marks_def split: if_splits)
  show "pass0_pre sl x s'" if "pass0_pre sl x s" "x \<noteq> n" for x
    using e that by (cases "sl_node s n = 0") (auto simp: pass0_pre_def)
  show "pass0_handled I G sl n m s'" if "pass0_pre sl n s"
    using e that fun_upd_same [of "sl_node s" n "slice_base sl"]
    by (cases "sl_node s n = 0") (auto simp: pass0_handled_def pass0_pre_def simp del: fun_upd_same)
qed (auto simp: pass0_handled_def keeps_marks_def pass0_pre_def)


section \<open>Marking ends\<close>

lemma enqueue_visited_only: "visited (enqueue n s) x \<longleftrightarrow> visited s x \<or> x = n"
  by (auto simp: enqueue_def visited_def)

lemma enqueue_all_visited_only: "visited (enqueue_all ns s) x \<longleftrightarrow> visited s x \<or> x \<in> set ns"
  by (induction ns arbitrary: s) (auto simp: enqueue_visited_only)

lemma set_parent_visited [simp]: "visited (set_parent I G rt n cur s) x = visited s x"
  by (simp add: set_parent_def visited_def)

lemma processEdges_visited_only: "visited (processEdges I G rt n ns s) x \<Longrightarrow> visited s x \<or> x \<in> set ns"
proof (induction ns arbitrary: s)
  case (Cons m ns)
  then show ?case by (auto simp: Let_def enqueue_visited_only split: if_splits dest!: Cons.IH)
qed simp

lemma foldl_edges_visited_only:
  "visited (foldl (\<lambda>s CD. processEdges I G E_BBCD n (b_nodes G CD) s) s bs) x \<Longrightarrow>
   visited s x \<or> (\<exists>b \<in> set bs. x \<in> set (b_nodes G b))"
proof (induction bs arbitrary: s)
  case (Cons b bs)
  then show ?case using processEdges_visited_only by fastforce
qed simp

lemma forward_flags:
  "has_flag (mark_options True) NODES_WALK_CD" "has_flag (mark_options True) NODES_WALK_DD"
  "has_flag (mark_options True) NODES_WALK_USE" "has_flag (mark_options True) NODES_WALK_ID"
  "\<not> has_flag (mark_options True) NODES_WALK_REV_CD" "\<not> has_flag (mark_options True) NODES_WALK_REV_DD"
  "\<not> has_flag (mark_options True) NODES_WALK_USER" "\<not> has_flag (mark_options True) NODES_WALK_REV_ID"
  "\<not> has_flag (mark_options True) NODES_WALK_BB_CFG" "\<not> has_flag (mark_options True) NODES_WALK_BB_REV_CFG"
  "\<not> has_flag (mark_options True) NODES_WALK_BB_POSTDOM_FRONTIERS" "mark_options True \<noteq> 0"
  by (simp_all add: has_flag_def mark_options_def walk_flags)

text \<open>The finite part of the graph a walk stays in.\<close>

definition graph_wf :: "graph \<Rightarrow> nat set \<Rightarrow> nat set \<Rightarrow> (nat \<Rightarrow> nat) \<Rightarrow> bool" where
  "graph_wf G N B depth =
     (finite N \<and> blocks_wf G B \<and> idom_tree G depth \<and>
      (\<forall>b d. b \<in> B \<longrightarrow> b_idom G b = Some d \<longrightarrow> d \<in> B) \<and>
      (\<forall>n \<in> N. set (g_control G n) \<union> set (g_data G n) \<union> set (g_use G n) \<union> set (g_interf G n) \<subseteq> N) \<and>
      (\<forall>n \<in> N. \<forall>b. g_block G n = Some b \<longrightarrow> b \<in> B) \<and>
      (\<forall>b \<in> B. set (b_nodes G b) \<subseteq> N \<and> set (b_cd G b) \<subseteq> B))"

lemma walk_edges_forward:
  assumes wf: "graph_wf G N B depth" and n: "n \<in> N"
  shows "\<exists>s'. walk_edges I G (mark_options True) n m s = Some s' \<and> (\<forall>x. visited s' x \<longrightarrow> visited s x \<or> x \<in> N)"
proof -
  note w = wf [unfolded graph_wf_def]
  let ?a = "processEdges I G E_CD n (g_control G n) s"
  let ?b = "if m then processBBlockCDs I G n ?a else ?a"
  let ?s' = "processEdges I G E_ID n (g_interf G n) (processEdges I G E_USE n (g_use G n)
      (processEdges I G E_DD n (g_data G n) ?b))"
  have run: "walk_edges I G (mark_options True) n m s = Some ?s'"
    by (simp add: walk_edges_def when_flag_def forward_flags Let_def)
  have nN: "set (g_control G n) \<subseteq> N" "set (g_data G n) \<subseteq> N" "set (g_use G n) \<subseteq> N" "set (g_interf G n) \<subseteq> N"
    using w n by blast+
  have a: "visited s x \<or> x \<in> N" if "visited ?a x" for x using processEdges_visited_only [OF that] nN(1) by blast
  have cds: "visited s x \<or> x \<in> N" if "visited (processBBlockCDs I G n ?a) x" for x
  proof (cases "g_block G n")
    case None
    then show ?thesis using that a by (simp add: processBBlockCDs_def)
  next
    case (Some BB)
    then have "visited ?a x \<or> (\<exists>b \<in> set (b_cd G BB). x \<in> set (b_nodes G b))"
      using that foldl_edges_visited_only [of I G n ?a "b_cd G BB" x] by (simp add: processBBlockCDs_def)
    moreover have "set (b_cd G BB) \<subseteq> B" using w n Some by blast
    moreover have "\<forall>b \<in> B. set (b_nodes G b) \<subseteq> N" using w by blast
    ultimately show ?thesis using a by blast
  qed
  have b: "visited s x \<or> x \<in> N" if "visited ?b x" for x using that a cds by (auto split: if_splits)
  have "visited s x \<or> x \<in> N" if "visited ?s' x" for x
  proof -
    have "visited ?b x \<or> x \<in> N"
      using that processEdges_visited_only nN(2,3,4) by (meson subsetD)
    then show ?thesis using b by blast
  qed
  then show ?thesis using run by blast
qed

lemma loop_of_sub:
  assumes "blocks_wf G B" and "h \<in> B" and "p \<in> B"
  shows "loop_of G h p \<subseteq> B"
proof -
  have "b \<in> B" if "(p, b) \<in> (back_step G h)\<^sup>*" for b
    using that by (induction rule: rtrancl_induct) (use assms in \<open>auto simp: blocks_wf_def back_step_def\<close>)
  then show ?thesis using assms(2) by (auto simp: loop_of_def)
qed

lemma idom_in:
  assumes "\<forall>b d. b \<in> B \<longrightarrow> b_idom G b = Some d \<longrightarrow> d \<in> B" and "(h, b) \<in> (idom_rel G)\<^sup>*" and "b \<in> B"
  shows "h \<in> B"
  using assms(2,3)
proof (induction rule: rtrancl_induct)
  case (step y z)
  then show ?case using assms(1) by (auto simp: idom_rel_def)
qed simp

lemma exit_loop_total:
  assumes wf: "graph_wf G N B depth" and "\<forall>b. bb = Some b \<longrightarrow> b \<in> B"
  shows "\<exists>r. exit_loop G bb = Some r \<and> (\<forall>h blks. r = Some (h, blks) \<longrightarrow> blks \<subseteq> B)"
proof (cases bb)
  case None
  then show ?thesis by (simp add: exit_loop_def)
next
  case (Some b)
  note w = wf [unfolded graph_wf_def]
  have bB: "b \<in> B" using assms(2) Some by blast
  have id: "\<forall>b d. b \<in> B \<longrightarrow> b_idom G b = Some d \<longrightarrow> d \<in> B" "idom_tree G depth" "blocks_wf G B" using w by blast+
  obtain r where r: "getBrLoopBlocks G b = Some r" "case r of
       Some (h, L) \<Rightarrow> (h, b) \<in> (idom_rel G)\<^sup>* \<and> (\<exists>p. backedge G h = Some p \<and> L = loop_of G h p) | None \<Rightarrow> True"
    using br_loop_ok [OF id(2,3,1) bB, of b] unfolding getBrLoopBlocks_def
    by (auto split: option.splits prod.splits)
  have "blks \<subseteq> B" if hl: "r = Some (h, blks)" for h blks
  proof -
    obtain p where p: "(h, b) \<in> (idom_rel G)\<^sup>*" "backedge G h = Some p" "blks = loop_of G h p" using r(2) hl by auto
    have hB: "h \<in> B" using idom_in [OF id(1) p(1) bB] .
    have "p \<in> set (b_preds G h)" using p(2) unfolding backedge_def by (auto simp: find_Some_iff)
    then have "p \<in> B" using id(3) hB by (auto simp: blocks_wf_def)
    then show ?thesis using loop_of_sub [OF id(3) hB] p(3) by blast
  qed
  then show ?thesis using r(1) Some
    by (cases r) (auto simp: exit_loop_def split: if_splits)
qed

lemma mark_pass0_total:
  assumes wf: "graph_wf G N B depth" and n: "n \<in> N"
  shows "\<exists>m s'. markSlice I G True sl 0 n s = Some (m, s') \<and> (\<forall>x. visited s' x \<longrightarrow> visited s x \<or> x \<in> N)"
proof (cases "sl_node s n = 0")
  case False
  then show ?thesis by (auto simp: markSlice_def mark_pass0_def Let_def)
next
  case True
  note w = wf [unfolded graph_wf_def]
  have bl: "\<forall>b. g_block G n = Some b \<longrightarrow> b \<in> B" using w n by blast
  obtain r where r: "exit_loop G (g_block G n) = Some r" "\<forall>h blks. r = Some (h, blks) \<longrightarrow> blks \<subseteq> B"
    using exit_loop_total [OF wf bl] by blast
  have nodes: "set (loop_nodes G blks) \<subseteq> N" if "r = Some (h, blks)" for h blks
  proof -
    have sub: "blks \<subseteq> B" using r(2) that by blast
    then have "finite blks" using w by (auto simp: blocks_wf_def intro: finite_subset)
    then show ?thesis using sub w by (auto simp: loop_nodes_def)
  qed
  have h: "\<exists>stop s1. (case key_inst G n of
            None \<Rightarrow> Some (False, s)
          | Some i \<Rightarrow> (case addr_operand (opc I i) of
                Some k \<Rightarrow> Some (points_to_secret I (opnd I i k), s)
              | None \<Rightarrow>
                  if is_br I (Orig i) then
                    Option.bind (exit_loop G (g_block G n)) (\<lambda>r. Some (False, case r of
                        None \<Rightarrow> s
                      | Some (h, blks) \<Rightarrow> enqueue_all (filter (\<lambda>m. sl_node s m = 0) (loop_nodes G blks)) s))
                  else Some (False, s))) = Some (stop, s1) \<and> (\<forall>x. visited s1 x \<longrightarrow> visited s x \<or> x \<in> N)"
    using r(1) nodes
    by (auto simp: enqueue_all_visited_only split: option.splits)
  have mk: "\<exists>s2. mark_node G True n sid s1 = Some s2 \<and> (\<forall>x. visited s2 x = visited s1 x)" for sid s1
    by (auto simp: mark_node_def Let_def set_node_def set_block_def visited_def split: option.splits)
  obtain stop s1 where hs: "mark_pass0 I G True (slice_base sl) n s =
      (if stop then Some (False, s1)
          else Option.bind (mark_node G True n (slice_base sl) s1) (\<lambda>s2. Some (cond_branch I G n, s2)))"
    "\<forall>x. visited s1 x \<longrightarrow> visited s x \<or> x \<in> N"
    using h True by (auto simp: mark_pass0_def)
  obtain s2 where "mark_node G True n (slice_base sl) s1 = Some s2" "\<forall>x. visited s2 x = visited s1 x"
    using mk by blast
  then show ?thesis using hs by (cases stop) (auto simp: markSlice_def Let_def)
qed

definition depends :: "ir \<Rightarrow> graph \<Rightarrow> (nat \<times> nat) set" where
  "depends I G = {(n, m). m \<in> targets I G (mark_options True) n \<or> cond_branch I G n \<and> m \<in> block_targets I G n}"

lemma secret_access_no_branch: "secret_access I G n \<Longrightarrow> \<not> cond_branch I G n"
  by (auto simp: secret_access_def cond_branch_def addr_operand_def split: option.splits opcode.splits)

lemma pass0_closed:
  assumes wf: "graph_wf G N B depth" and start: "start \<noteq> []" "set start \<subseteq> N"
    and init: "w_queue s = []" "\<forall>n. lastwalk s n \<noteq> run_id s + 1" "\<forall>n. sl_node s n = 0" "slice_base sl \<noteq> 0"
  shows "\<exists>s'. walk I G (mark_options True) start (markSlice I G True sl 0) s = Some s' \<and>
    (\<forall>a \<in> set start. \<forall>n. (a, n) \<in> (depends I G)\<^sup>* \<longrightarrow> sl_node s' n \<noteq> 0 \<or> secret_access I G n)"
proof -
  let ?s = "enqueue_all start (s\<lparr>run_id := run_id s + 1\<rparr>)"
  have pre: "\<forall>n. pass0_pre sl n s" using init(3) by (simp add: pass0_pre_def)
  have inv: "node_walk.walk_inv I G (mark_options True) (pass0_pre sl) (pass0_handled I G sl) ?s"
    by (rule pass0.walk_start [OF init(1,2) pre])
  have "\<not> visited (s\<lparr>run_id := run_id s + 1\<rparr>) n" for n using init(2) by (simp add: visited_def)
  then have vis: "\<forall>n. visited ?s n \<longrightarrow> n \<in> N" using start(2) by (auto simp: enqueue_all_visited_only)
  have fin: "finite N" using wf by (simp add: graph_wf_def)
  have tot: "\<exists>m t'. markSlice I G True sl 0 n t = Some (m, t') \<and> (\<forall>x. visited t' x \<longrightarrow> visited t x \<or> x \<in> N)"
    if "n \<in> N" for n t using mark_pass0_total [OF wf that] .
  have edg: "\<exists>t'. walk_edges I G (mark_options True) n m t = Some t' \<and> (\<forall>x. visited t' x \<longrightarrow> visited t x \<or> x \<in> N)"
    if "n \<in> N" for n m t using walk_edges_forward [OF wf that] .
  obtain s' where "walk_loop I G (mark_options True) (markSlice I G True sl 0) ?s = Some s'"
    using pass0.walk_loop_total [OF fin inv vis tot edg] by blast
  then have run: "walk I G (mark_options True) start (markSlice I G True sl 0) s = Some s'"
    using start(1) by (simp add: walk_def Let_def)
  note cl = pass0.walk_closed [OF run init(1,2) pre]
  have "visited s' n" if "a \<in> set start" "(a, n) \<in> (depends I G)\<^sup>*" for a n
    using that(2)
  proof (induction rule: rtrancl_induct)
    case base
    then show ?case using cl that(1) by blast
  next
    case (step y z)
    then obtain m where m: "pass0_handled I G sl y m s'" "\<forall>x \<in> targets I G (mark_options True) y. visited s' x"
      "m \<longrightarrow> (\<forall>x \<in> block_targets I G y. visited s' x)"
      using cl pass0.finished_def forward_flags by blast
    have "m" if "cond_branch I G y"
      using m(1) that secret_access_no_branch init(4) unfolding pass0_handled_def by blast
    then show ?case using step.hyps(2) m(2,3) by (auto simp: depends_def)
  qed
  moreover have "sl_node s' n \<noteq> 0 \<or> secret_access I G n" if "visited s' n" for n
    using cl that init(4) unfolding pass0.finished_def pass0_handled_def by blast
  ultimately show ?thesis using run by blast
qed


section \<open>Properties\<close>


text \<open>The example: the branch 10 controls block 1.\<close>

definition walk_graph :: graph where
  "walk_graph = ex_graph\<lparr>b_cd := (\<lambda>b. if b = 0 then [1] else []), b_revcd := (\<lambda>b. if b = 1 then [0] else [])\<rparr>"


section \<open>Buffer ids\<close>

text \<open>Every buffered object has an id of its own, not above the last one given out.\<close>

definition buf_wf :: "cape \<Rightarrow> bool" where
  "buf_wf s = ((\<forall>p. buf s p \<le> allocId s) \<and> (\<forall>p q. buf s p = buf s q \<longrightarrow> buf s p \<noteq> 0 \<longrightarrow> p = q))"

lemma new_buffer_wf:
  assumes "buf_wf s" and "unat (allocId s) + 1 < 2 ^ 32"
  shows "buf_wf (new_buffer p s)" and "buf (new_buffer p s) p \<noteq> 0"
    and "unat (allocId (new_buffer p s)) = unat (allocId s) + 1"
proof -
  let ?a = "allocId s"
  have u: "unat (?a + 1) = unat ?a + 1" using assms(2) by (simp add: unat_word_ariths)
  then have lt: "?a < ?a + 1" by (simp add: word_less_nat_alt)
  then have nz: "?a + 1 \<noteq> 0" by auto
  have le: "buf s q < ?a + 1" for q
  proof -
    have "buf s q \<le> ?a" using assms(1) by (simp add: buf_wf_def)
    then show ?thesis using lt by (rule le_less_trans)
  qed
  show "buf_wf (new_buffer p s)"
    unfolding buf_wf_def new_buffer_def using assms(1) le le [THEN less_imp_neq] le [THEN less_imp_le]
    by (auto simp: buf_wf_def) (metis)+
  show "buf (new_buffer p s) p \<noteq> 0" "unat (allocId (new_buffer p s)) = unat ?a + 1"
    using nz u by (simp_all add: new_buffer_def)
qed

definition ids_of :: "cape \<Rightarrow> 32 word set" where
  "ids_of s = {buf s p |p. buf s p \<noteq> 0}"

definition accs_ok :: "accs \<Rightarrow> cape \<Rightarrow> bool" where
  "accs_ok X s = (set (x_allocs X) \<subseteq> ids_of s \<and> set (x_mallocs X) \<subseteq> ids_of s)"

text \<open>\<open>s'\<close> has given out at most \<open>k\<close> ids more than \<open>s\<close>, and changed none.\<close>

definition buf_step :: "nat \<Rightarrow> cape \<Rightarrow> cape \<Rightarrow> bool" where
  "buf_step k s s' = (unat (allocId s') \<le> unat (allocId s) + k \<and>
     (\<forall>p. buf s p \<noteq> 0 \<longrightarrow> buf s' p = buf s p) \<and> (buf_wf s \<longrightarrow> unat (allocId s) + k < 2 ^ 32 \<longrightarrow> buf_wf s'))"

lemma buf_step_refl [simp]: "buf_step k s s"
  by (simp add: buf_step_def)

lemma buf_step_trans: "buf_step j s t \<Longrightarrow> buf_step k t u \<Longrightarrow> buf_step (j + k) s u"
  unfolding buf_step_def by (intro conjI impI allI) (linarith, metis, linarith?)


lemma new_buffer_step: "buf s p = 0 \<Longrightarrow> buf_step 1 s (new_buffer p s)"
proof -
  assume z: "buf s p = 0"
  have "unat (allocId s + 1) \<le> unat (allocId s) + 1" by (metis add.commute unat_1 unat_plus_if' le_add2 le_diff_conv2 nat_le_linear trans_le_add1 diff_le_self)
  then show ?thesis using z new_buffer_wf(1) by (auto simp: buf_step_def new_buffer_def)
qed

lemma buf_step_cong: "buf t = buf s' \<Longrightarrow> allocId t = allocId s' \<Longrightarrow> buf_step k s s' \<Longrightarrow> buf_step k s t"
  by (simp add: buf_step_def buf_wf_def)

lemma buffer_alloca_buf: "buf (buffer_alloca I p i s) = buf (new_buffer p s)" "allocId (buffer_alloca I p i s) = allocId (new_buffer p s)"
  by (simp_all add: buffer_alloca_def Let_def split: option.split)

lemma buffer_malloc_buf: "buf (buffer_malloc I p i s) = buf (new_buffer p s)" "allocId (buffer_malloc I p i s) = allocId (new_buffer p s)"
  by (simp_all add: buffer_malloc_def Let_def)

lemma set_node_buf [simp]: "buf (set_node n sid s) = buf s" "allocId (set_node n sid s) = allocId s"
  by (simp_all add: set_node_def)

lemma ids_of_step: "buf_step k s s' \<Longrightarrow> ids_of s \<subseteq> ids_of s'"
proof
  fix b assume st: "buf_step k s s'" and "b \<in> ids_of s"
  then obtain p where p: "b = buf s p" "buf s p \<noteq> 0" by (auto simp: ids_of_def)
  then have "buf s' p = b" using st by (simp add: buf_step_def)
  then show "b \<in> ids_of s'" unfolding ids_of_def using p by (intro CollectI exI [of _ p]) simp
qed

lemma accs_ok_step: "accs_ok X s \<Longrightarrow> buf_step k s s' \<Longrightarrow> accs_ok X s'"
  using ids_of_step by (fastforce simp: accs_ok_def)

definition ids_fit :: "nat \<Rightarrow> cape \<Rightarrow> bool" where
  "ids_fit k s = (buf_wf s \<and> unat (allocId s) + k < 2 ^ 32)"

lemma ids_fit_step: "buf_step j s s' \<Longrightarrow> ids_fit (j + k) s \<Longrightarrow> ids_fit k s'"
  by (auto simp: ids_fit_def buf_step_def)

text \<open>After an object has been buffered if it was not, it has an id.\<close>

lemma buffered_ok:
  assumes "buf s1 = buf s" "allocId s1 = allocId s" "ids_fit 1 s"
    and "buf t = (if buf s p = 0 then buf (new_buffer p s1) else buf s1)"
    and "allocId t = (if buf s p = 0 then allocId (new_buffer p s1) else allocId s1)"
  shows "buf_step 1 s t \<and> buf t p \<in> ids_of t"
proof (cases "buf s p = 0")
  case True
  have b: "buf (new_buffer p s1) = buf (new_buffer p s)" "allocId (new_buffer p s1) = allocId (new_buffer p s)"
    using assms(1,2) by (simp_all add: new_buffer_def)
  have "buf (new_buffer p s) p \<noteq> 0" using new_buffer_wf(2) assms(3) by (simp add: ids_fit_def)
  then show ?thesis using buf_step_cong [OF _ _ new_buffer_step [OF True], of t] assms(4,5) True b
    by (auto simp: ids_of_def)
next
  case False
  then show ?thesis using assms buf_step_cong [OF _ _ buf_step_refl, of t s] by (auto simp: ids_of_def)
qed

lemma accs_ok_allocs: "accs_ok X t \<Longrightarrow> b \<in> ids_of t \<Longrightarrow> accs_ok (X\<lparr>x_allocs := sset_insert b (x_allocs X)\<rparr>) t"
  by (simp add: accs_ok_def)

lemma accs_ok_mallocs: "accs_ok X t \<Longrightarrow> b \<in> ids_of t \<Longrightarrow> accs_ok (X\<lparr>x_mallocs := sset_insert b (x_mallocs X)\<rparr>) t"
  by (simp add: accs_ok_def)

lemma hp_target_ids:
  assumes "hp_target I G dg sid p X s = Some (stop, X', s')" and "ids_fit 1 s" and "accs_ok X s"
  shows "buf_step 1 s s' \<and> accs_ok X' s'"
proof -
  have none: "buf_step 1 s s' \<and> accs_ok X' s'" if "s' = s" "X' = X \<or> (\<exists>g. X' = X\<lparr>x_globals := g\<rparr>)"
    using that assms(3) by (auto simp: accs_ok_def)
  consider (inst) i where "ps_value I p = Some (VInst i)" | (other) "\<nexists>i. ps_value I p = Some (VInst i)" by blast
  then show ?thesis
  proof cases
    case other
    then show ?thesis using assms(1) none by (auto simp: hp_target_def split: option.splits val.splits if_splits)
  next
    case inst
    show ?thesis
    proof (cases "opc I i = Alloca")
      case True
      then obtain d where d: "dg = Some d" using assms(1) inst by (cases dg) (auto simp: hp_target_def)
      show ?thesis
      proof (cases "dg_node G d (VInst i)")
        case (Some g)
        then have "s' = set_node g (sid + 2) s" "X' = X" using assms(1) inst True d by (auto simp: hp_target_def)
        then show ?thesis using assms(3) buf_step_cong [OF _ _ buf_step_refl, of s' s 1] by (simp add: accs_ok_def ids_of_def)
      next
        case None
        let ?t = "if buf s p = 0 then buffer_alloca I p i s else s"
        have r: "s' = ?t" "X' = X\<lparr>x_allocs := sset_insert (buf ?t p) (x_allocs X)\<rparr>"
          using assms(1) inst True d None by (auto simp: hp_target_def Let_def)
        have "buf_step 1 s ?t \<and> buf ?t p \<in> ids_of ?t"
          by (rule buffered_ok [OF refl refl assms(2)]) (simp_all add: buffer_alloca_buf)
        then show ?thesis using r accs_ok_allocs accs_ok_step [OF assms(3)] by blast
      qed
    next
      case na: False
      show ?thesis
      proof (cases "malloc_call I i")
        case True
        then obtain d where d: "dg = Some d" using assms(1) inst na by (cases dg) (auto simp: hp_target_def)
        let ?s1 = "case dg_node G d (VInst i) of Some g \<Rightarrow> set_node g (sid + 2) s | None \<Rightarrow> s"
        let ?t = "if buf ?s1 p = 0 then buffer_malloc I p i ?s1 else ?s1"
        have s1: "buf ?s1 = buf s" "allocId ?s1 = allocId s" by (simp_all split: option.split)
        have r: "s' = ?t" "X' = X\<lparr>x_mallocs := sset_insert (buf ?t p) (x_mallocs X)\<rparr>"
          using assms(1) inst True na d by (auto simp: hp_target_def Let_def)
        have "buf_step 1 s ?t \<and> buf ?t p \<in> ids_of ?t"
          by (rule buffered_ok [OF s1 assms(2)]) (simp_all add: buffer_malloc_buf s1)
        then show ?thesis using r accs_ok_mallocs accs_ok_step [OF assms(3)] by blast
      next
        case False
        then show ?thesis using assms(1) inst na none by (auto simp: hp_target_def)
      qed
    qed
  qed
qed

lemma hp_targets_ids:
  assumes "hp_targets I G dg sid ps X s = Some (stop, X', s')" and "ids_fit (length ps) s" and "accs_ok X s"
  shows "buf_step (length ps) s s' \<and> accs_ok X' s'"
  using assms
proof (induction ps arbitrary: X s)
  case (Cons p ps)
  obtain st X1 s1 where t: "hp_target I G dg sid p X s = Some (st, X1, s1)"
    "(if st then Some (True, X1, s1) else hp_targets I G dg sid ps X1 s1) = Some (stop, X', s')"
    using Cons.prems(1) by (auto simp: bind_eq_Some_conv)
  have "ids_fit 1 s" using Cons.prems(2) by (auto simp: ids_fit_def)
  from hp_target_ids [OF t(1) this Cons.prems(3)] have s1: "buf_step 1 s s1" "accs_ok X1 s1" by blast+
  have fit: "ids_fit (length ps) s1" using ids_fit_step [OF s1(1), of "length ps"] Cons.prems(2) by simp
  show ?case
  proof (cases st)
    case True
    then show ?thesis using t(2) s1 buf_step_trans [OF s1(1) buf_step_refl, of "length ps"] by simp
  next
    case False
    then have "hp_targets I G dg sid ps X1 s1 = Some (stop, X', s')" using t(2) by simp
    from Cons.IH [OF this fit s1(2)] show ?thesis using buf_step_trans [OF s1(1), of "length ps" s'] by simp
  qed
qed auto

lemma hp_operands_ids:
  assumes "hp_operands I G dg i sid ks X s = Some (X', s')" and "accs_ok X s"
    and "ids_fit (sum_list (map (\<lambda>k. length (points_to I (opnd I i k))) ks)) s"
  shows "buf_step (sum_list (map (\<lambda>k. length (points_to I (opnd I i k))) ks)) s s' \<and> accs_ok X' s'"
  using assms
proof (induction ks arbitrary: X s)
  case (Cons k ks)
  let ?n = "length (points_to I (opnd I i k))" and ?m = "sum_list (map (\<lambda>k. length (points_to I (opnd I i k))) ks)"
  obtain st X1 s1 where t: "hp_targets I G dg sid (points_to I (opnd I i k)) X s = Some (st, X1, s1)"
    "(if st then Some (X1, s1) else hp_operands I G dg i sid ks X1 s1) = Some (X', s')"
    using Cons.prems(1) by (auto simp: bind_eq_Some_conv)
  have "ids_fit ?n s" using Cons.prems(3) by (auto simp: ids_fit_def)
  from hp_targets_ids [OF t(1) this Cons.prems(2)] have s1: "buf_step ?n s s1" "accs_ok X1 s1" by blast+
  have fit: "ids_fit ?m s1" using ids_fit_step [OF s1(1), of ?m] Cons.prems(3) by simp
  show ?case
  proof (cases st)
    case True
    then show ?thesis using t(2) s1 buf_step_trans [OF s1(1) buf_step_refl, of ?m] by simp
  next
    case False
    then have "hp_operands I G dg i sid ks X1 s1 = Some (X', s')" using t(2) by simp
    from Cons.IH [OF this s1(2) fit] show ?thesis using buf_step_trans [OF s1(1), of ?m s'] by simp
  qed
qed auto


text \<open>An access through a pointer to two objects, of another function and of the heap.\<close>

definition heap_ir :: ir where
  "heap_ir = ex_ir\<lparr>opc := (\<lambda>i. if i = 20 then Load else if i = 21 then Alloca else if i = 22 then CallI (Some 5)
       else if i = 23 \<or> i = 24 then Ret else OtherOp),
     f_name := (\<lambda>f. if f = 5 then ''malloc'' else ''h''), ib_fun := (\<lambda>_. 6), f_blocks := (\<lambda>_. [3, 4]),
     parent := (\<lambda>i. if i = 24 then 4 else 3), points_to := (\<lambda>_. [1, 2]),
     ps_value := (\<lambda>p. if p = 1 then Some (VInst 21) else Some (VInst 22))\<rparr>"

definition heap_state :: cape where
  "heap_state = cape0 (\<lambda>b. if b = 3 then map Orig [21, 22, 23] else if b = 4 then [Orig 24] else [])"


text \<open>\<open>popAllocStack\<close> is called before one return only: in a function with two returns the stack
  of the buffer is not popped when the second one is taken.\<close>

theorem pop_at_one_return_only:
  "map_option (\<lambda>(X, s). (code s 3, code s 4))
     (handlePreloadingForSensitiveAccesses heap_ir (graph0\<lparr>g_dg := (\<lambda>_. Some 0)\<rparr>) 20 20 1 0 no_accs heap_state) =
   Some ([Orig 21, Ins 0 (C_push_alloc 1 (VConst 1) 4 21), Orig 22, Ins 2 (C_insert_malloc 2 0 22),
          Ins 1 (C_pop_alloc 1), Orig 23],
         [Orig 24])"
  by code_simp

end
