(* ===== verification/Cape_Code.thy ===== *)
theory Cape_Code
  imports Cape_Walk "HOL-Library.Sublist"
begin

text \<open>
  What the slicer of \<^verbatim>\<open>include/dg/Slicing.h\<close> does to the code: every operation only adds calls of the
  run-time library, in front of an instruction of the block. \<open>adds I F s s'\<close> is the contract all operations
  share (\<open>F\<close> are the instructions the graph, the pointer analysis and the list of calls name);
  it is proved for one operation after the other, up to a whole pass of \<open>mark\<close>.
\<close>

section \<open>The contract\<close>

fun is_prog :: "inst \<Rightarrow> bool" where
  "is_prog (Orig _) = True"
| "is_prog (Ins _ _) = False"

definition code_ok :: "ir \<Rightarrow> nat set \<Rightarrow> cape \<Rightarrow> bool" where
  "code_ok I F s = (code_wf s \<and> (\<forall>i \<in> F. Orig i \<in> set (code s (parent I i))))"

definition keeps_code :: "(nat \<Rightarrow> inst list) \<Rightarrow> (nat \<Rightarrow> inst list) \<Rightarrow> bool" where
  "keeps_code c c' = (\<forall>b. subseq (c b) (c' b) \<and> filter is_prog (c' b) = filter is_prog (c b) \<and>
     (c b \<noteq> [] \<longrightarrow> last (c' b) = last (c b)))"

definition adds :: "ir \<Rightarrow> nat set \<Rightarrow> cape \<Rightarrow> cape \<Rightarrow> bool" where
  "adds I F s s' = (code_ok I F s \<longrightarrow> code_ok I F s' \<and> keeps_code (code s) (code s'))"

lemma keeps_code_refl [simp]: "keeps_code c c"
  by (simp add: keeps_code_def)

lemma keeps_code_trans: "keeps_code c d \<Longrightarrow> keeps_code d e \<Longrightarrow> keeps_code c e"
  unfolding keeps_code_def
proof (intro allI)
  fix b
  assume 1: "\<forall>b. subseq (c b) (d b) \<and> filter is_prog (d b) = filter is_prog (c b) \<and> (c b \<noteq> [] \<longrightarrow> last (d b) = last (c b))"
    and 2: "\<forall>b. subseq (d b) (e b) \<and> filter is_prog (e b) = filter is_prog (d b) \<and> (d b \<noteq> [] \<longrightarrow> last (e b) = last (d b))"
  have "d b \<noteq> []" if "c b \<noteq> []" using 1 [rule_format, of b] that by auto
  then show "subseq (c b) (e b) \<and> filter is_prog (e b) = filter is_prog (c b) \<and> (c b \<noteq> [] \<longrightarrow> last (e b) = last (c b))"
    using 1 [rule_format, of b] 2 [rule_format, of b] subseq_order.order_trans [of "c b" "d b" "e b"] by simp
qed

lemma keeps_code_in: "keeps_code c c' \<Longrightarrow> i \<in> set (c b) \<Longrightarrow> i \<in> set (c' b)"
proof -
  assume "keeps_code c c'" and i: "i \<in> set (c b)"
  then have "subseq (c b) (c' b)" by (simp add: keeps_code_def)
  then obtain j where "j \<in> set (c' b)" "i = j" using i by (rule list_emb_set)
  then show "i \<in> set (c' b)" by simp
qed

lemma adds_refl [simp]: "adds I F s s"
  by (simp add: adds_def)

lemma adds_trans: "adds I F s t \<Longrightarrow> adds I F t u \<Longrightarrow> adds I F s u"
  unfolding adds_def using keeps_code_trans by blast

lemma adds_same:
  assumes "adds I F s t" and "code t' = code t" and "fresh t' = fresh t"
  shows "adds I F s t'"
  using assms by (simp add: adds_def code_ok_def code_wf_def)

lemma insert_before_keeps:
  assumes "i \<in> set (code s b)"
  shows "keeps_code (code s) (code (insert_before b i c s))"
proof -
  let ?t = "takeWhile (\<lambda>j. j \<noteq> i) (code s b)" and ?a = "at_inst i (code s b)"
  have a: "?a \<noteq> []" using at_inst_in [OF assms] by simp
  have sp: "code s b = ?t @ ?a" by (simp add: split_at)
  have "subseq ?a (Ins (fresh s) c # ?a)" by (rule list_emb_Cons) simp
  with subseq_order.order_refl have "subseq (?t @ ?a) (?t @ Ins (fresh s) c # ?a)" by (rule list_emb_append_mono)
  moreover have "filter is_prog (?t @ Ins (fresh s) c # ?a) = filter is_prog (?t @ ?a)" by simp
  moreover have "last (?t @ Ins (fresh s) c # ?a) = last (?t @ ?a)" using a by simp
  ultimately show ?thesis unfolding keeps_code_def sp [symmetric] by (simp add: insert_before_def)
qed

lemma adds_insert:
  assumes "adds I F s t" and "i \<in> set (code s b)"
  shows "adds I F s (insert_before b i c t)"
  unfolding adds_def
proof
  assume "code_ok I F s"
  then have t: "code_ok I F t" "keeps_code (code s) (code t)" using assms(1) by (auto simp: adds_def)
  have k: "keeps_code (code t) (code (insert_before b i c t))"
    using keeps_code_in [OF t(2) assms(2)] by (rule insert_before_keeps)
  moreover have "code_ok I F (insert_before b i c t)"
    using t(1) code_wf_insert keeps_code_in [OF k] by (auto simp: code_ok_def)
  ultimately show "code_ok I F (insert_before b i c t) \<and> keeps_code (code s) (code (insert_before b i c t))"
    using t(2) keeps_code_trans by blast
qed

lemma adds_insert_orig:
  assumes "adds I F s t" and "k \<in> F"
  shows "adds I F s (insert_before (parent I k) (Orig k) c t)"
proof (cases "code_ok I F s")
  case True
  then have "Orig k \<in> set (code s (parent I k))" using assms(2) by (simp add: code_ok_def)
  with assms(1) show ?thesis by (rule adds_insert)
qed (simp add: adds_def)

lemma adds_insert_calls:
  "adds I F s t \<Longrightarrow> i \<in> set (code s b) \<Longrightarrow> adds I F s (insert_calls b i cs t)"
  by (induction cs arbitrary: t) (auto intro: adds_insert)

lemma adds_insert_calls_orig:
  "adds I F s t \<Longrightarrow> k \<in> F \<Longrightarrow> adds I F s (insert_calls (parent I k) (Orig k) cs t)"
  by (induction cs arbitrary: t) (auto intro: adds_insert_orig)

text \<open>The instructions the graph and the pointer analysis name.\<close>

definition names_insts :: "ir \<Rightarrow> graph \<Rightarrow> nat set \<Rightarrow> bool" where
  "names_insts I G F = ((\<forall>n i. key_inst G n = Some i \<longrightarrow> i \<in> F) \<and> (\<forall>ps i. ps_value I ps = Some (VInst i) \<longrightarrow> i \<in> F))"

lemma names_key: "names_insts I G F \<Longrightarrow> key_inst G n = Some i \<Longrightarrow> i \<in> F"
  by (simp add: names_insts_def)

lemma names_ps: "names_insts I G F \<Longrightarrow> ps_value I ps = Some (VInst i) \<Longrightarrow> i \<in> F"
  by (simp add: names_insts_def)

text \<open>Changes of the slice ids.\<close>

lemma code_set_node [simp]: "code (set_node n x s) = code s" "fresh (set_node n x s) = fresh s"
  by (simp_all add: set_node_def)

lemma code_set_block [simp]: "code (set_block n x s) = code s" "fresh (set_block n x s) = fresh s"
  by (simp_all add: set_block_def)

lemma code_enqueue [simp]: "code (enqueue n s) = code s" "fresh (enqueue n s) = fresh s"
  by (simp_all add: enqueue_def)

lemma code_enqueue_all [simp]: "code (enqueue_all ns s) = code s" "fresh (enqueue_all ns s) = fresh s"
  by (induction ns arbitrary: s) simp_all

section \<open>Preloading code\<close>

lemma add_preload_adds:
  assumes "adds I F s t" and "tx \<in> F"
  shows "adds I F s (add_preload I nd tx name t)"
proof -
  have "adds I F s (t\<lparr>funcs := (funcs t)(nd := insert name (funcs t nd))\<rparr>)" by (rule adds_same [OF assms(1)]) simp_all
  then show ?thesis unfolding add_preload_def Let_def by (rule adds_insert_orig [OF _ assms(2)])
qed

lemma preload_tasks_adds:
  assumes "preload_tasks I nd tx ts s = Some s'" and "tx \<in> F"
  shows "adds I F s s'"
proof -
  have "tx \<in> F \<longrightarrow> adds I F s s'"
  proof (rule preload_tasks.raw_induct [OF _ assms(1)], goal_cases)
    case (1 rec I nd tx ts s s')
    show ?case
    proof
      assume F: "tx \<in> F"
      have IH: "adds I F u v" if "rec I nd tx us u = Some v" for us u v using 1(1) [OF that] F by blast
      show "adds I F s s'"
        using 1(2) by (auto split: list.splits pl_task.splits option.splits intro: IH
            intro: adds_trans [OF add_preload_adds [OF adds_refl F]] dest!: IH)
    qed
  qed
  then show ?thesis using assms(2) by blast
qed

lemma visit_block_adds:
  assumes "visit_block I G nd tx cur s = Some s'" and "tx \<in> F"
  shows "adds I F s s'"
proof (cases "sl_block s cur = 777")
  case True
  then show ?thesis using assms(1) by (simp add: visit_block_def)
next
  case False
  then obtain b where "preload_tasks I nd tx [T_blk b] (set_block cur 777 s) = Some s'"
    using assms(1) by (auto simp: visit_block_def preloadBlockCode_def preloadBB_def bind_eq_Some_conv split: if_splits)
  then have "adds I F (set_block cur 777 s) s'" using assms(2) by (rule preload_tasks_adds)
  moreover have "adds I F s (set_block cur 777 s)" by (rule adds_same [OF adds_refl]) simp_all
  ultimately show ?thesis by (rule adds_trans [rotated])
qed

lemma region_loop_adds:
  assumes "region_loop I G nd tx M q s = Some s'" and "tx \<in> F"
  shows "adds I F s s'"
proof -
  have "tx \<in> F \<longrightarrow> adds I F s s'"
  proof (rule region_loop.raw_induct [OF _ assms(1)], goal_cases)
    case (1 rec I G nd tx M q s s')
    show ?case
    proof
      assume F: "tx \<in> F"
      show "adds I F s s'"
      proof (cases q)
        case Nil
        then show ?thesis using 1(2) by simp
      next
        case (Cons cur q')
        then obtain t where t: "visit_block I G nd tx cur s = Some t"
          and r: "(case push_back (b_succs G cur) (M, q') of (M', q'') \<Rightarrow> rec I G nd tx M' q'' t) = Some s'"
          using 1(2) by (auto simp: bind_eq_Some_conv)
        have "adds I F t s'" using r 1(1) F by (auto split: prod.splits)
        with visit_block_adds [OF t F] show ?thesis by (rule adds_trans)
      qed
    qed
  qed
  then show ?thesis using assms(2) by blast
qed

lemma preloadTransactionCode_adds:
  assumes "preloadTransactionCode I G start end s = Some s'" and nm: "names_insts I G F"
  shows "adds I F s s'"
proof (cases "sl_block s start = 777")
  case True
  then show ?thesis using assms(1) by (simp add: preloadTransactionCode_def split: if_splits)
next
  case False
  then obtain nd tx b u where tx: "key_inst G nd = Some tx"
    and u: "u = s \<or> u = add_preload I nd tx (f_name I (ib_fun I b)) s"
    and r: "region_loop I G nd tx {start, end} [start] (set_block start 777 u) = Some s'"
    using assms(1) by (auto simp: preloadTransactionCode_def bind_eq_Some_conv Let_def split: if_splits)
  have F: "tx \<in> F" using nm tx by (rule names_key)
  have "adds I F s u" using u add_preload_adds [OF adds_refl F] by auto
  then have "adds I F s (set_block start 777 u)" by (rule adds_same) simp_all
  then show ?thesis using region_loop_adds [OF r F] by (rule adds_trans)
qed

section \<open>Placing transactions\<close>

lemma add_end_adds: "add_end I G n s = Some s' \<Longrightarrow> adds I F s s'"
  by (auto simp: add_end_def bind_eq_Some_conv intro!: adds_insert dest: non_phi_in)

lemma addTransactionEnd_adds:
  assumes "addTransactionEnd I G BB isBr s = Some s'" and nm: "names_insts I G F"
  shows "adds I F s s'"
  using assms(1) add_end_adds preloadTransactionCode_adds [OF _ nm] adds_trans
  by (auto simp: addTransactionEnd_def bind_eq_Some_conv split: option.splits if_splits) blast+

lemma addTransactionEndForLoop_adds:
  assumes "addTransactionEndForLoop I G preh loop sid s = Some s'" and nm: "names_insts I G F"
  shows "adds I F s s'"
proof -
  obtain curB t where t: "(if sl_block s curB \<noteq> ucast sid
        then Option.bind (firstNode G curB) (\<lambda>first. add_end I G first (set_block curB (ucast sid) s)) else Some s) = Some t"
    and r: "preloadTransactionCode I G preh curB t = Some s'"
    using assms(1) by (auto simp: addTransactionEndForLoop_def bind_eq_Some_conv)
  have "adds I F s (set_block curB (ucast sid) s)" by (rule adds_same [OF adds_refl]) simp_all
  then have "adds I F s t" using t add_end_adds adds_trans by (auto simp: bind_eq_Some_conv split: if_splits)
  then show ?thesis using preloadTransactionCode_adds [OF r nm] by (rule adds_trans)
qed

lemma checkAddressDependency_adds: "adds I F s (snd (checkAddressDependency G ns addr sid s))"
  by (induction ns) (auto intro: adds_same [OF adds_refl])

lemma processHighestBr_adds:
  assumes "processHighestBr I G bn sid X s = Some s'" and nm: "names_insts I G F"
  shows "adds I F s s'"
proof -
  obtain i0 i CD where i: "key_inst G bn = Some i0" "non_phi I i0 s = Some i" "g_block G bn = Some CD"
    and r: "(if sl_block s CD \<noteq> ucast sid \<and> sl_block s CD \<noteq> 777
       then if nothing_to_preload X then Some s
            else Option.bind (addTransactionEnd I G CD (is_br I i)
                   (addTransactionStart (parent I i0) i (set_block CD (ucast sid) s)))
                 (\<lambda>s'. Some (addPreLoad I (parent I i0) i X s'))
       else Some (addPreLoad I (parent I i0) i X s)) = Some s'"
    using assms(1) by (auto simp: processHighestBr_def bind_eq_Some_conv Let_def)
  have i_in: "i \<in> set (code s (parent I i0))" using i(2) by (rule non_phi_in)
  let ?t = "addTransactionStart (parent I i0) i (set_block CD (ucast sid) s)"
  have "adds I F s (set_block CD (ucast sid) s)" by (rule adds_same [OF adds_refl]) simp_all
  then have t: "adds I F s ?t" unfolding addTransactionStart_def by (rule adds_insert [OF _ i_in])
  have "adds I F s u" if "addTransactionEnd I G CD (is_br I i) ?t = Some u" for u
    using t addTransactionEnd_adds [OF that nm] by (rule adds_trans)
  then show ?thesis using r adds_insert_calls [OF _ i_in] adds_refl
    by (auto simp: addPreLoad_def bind_eq_Some_conv split: if_splits)
qed

lemma placeTransForLoop_adds:
  assumes "placeTransForLoop I G bn blks sid X s = Some s'" and nm: "names_insts I G F"
  shows "adds I F s s'"
proof -
  have pre: "adds I F s (addPreLoad I (parent I i) (Orig i) X t)" if "adds I F s t" "key_inst G n = Some i" for t i n
    unfolding addPreLoad_def using that(1) names_key [OF nm that(2)] by (rule adds_insert_calls_orig)
  have start: "adds I F s (addTransactionStart (parent I i) (Orig i) (set_node n 888 s))" if "key_inst G n = Some i" for i n
    unfolding addTransactionStart_def
    by (rule adds_insert_orig [OF adds_same [OF adds_refl] names_key [OF nm that]]) simp_all
  show ?thesis using assms(1)
    by (auto simp: placeTransForLoop_def bind_eq_Some_conv split: if_splits
        intro: pre adds_trans [OF start addTransactionEndForLoop_adds [OF _ nm]])
qed

lemma one_placement_adds:
  assumes "one_placement I G sid X s r" and "names_insts I G F"
  shows "adds I F s (snd r)"
  using assms processHighestBr_adds by (auto simp: one_placement_def placed_at_def split: if_splits)

lemma revcd_loop_adds:
  assumes "revcd_loop I G loop sid X CDs s = Some r" and nm: "names_insts I G F"
  shows "adds I F s (snd r)"
  using assms(1)
proof (induction CDs arbitrary: s)
  case (Cons CD CDs)
  have br: "adds I F s t" if "processBBlockIDomsAndNodeRevCDs I G (Some CD) None sid X s = Some (b, t)" for b t
    using one_placement_adds [OF hb_one nm] that unfolding processBBlockIDomsAndNodeRevCDs_def by fastforce
  show ?case using Cons.prems Cons.IH
    by (auto simp: bind_eq_Some_conv split: if_splits option.splits
        dest!: br processHighestBr_adds [OF _ nm] intro: adds_trans)
qed auto

lemma processBBlockRevCDs_adds:
  assumes "processBBlockRevCDs I G loop addDep BB sid X s = Some (r, s')" and nm: "names_insts I G F"
  shows "adds I F s s'"
proof (cases BB)
  case None
  then show ?thesis using assms(1) by (simp add: processBBlockRevCDs_def)
next
  case (Some bb)
  then obtain r1 s1 where r1: "revcd_loop I G loop sid X (b_revcd G bb) s = Some (r1, s1)"
    and k: "(if r1 then Some (True, s1) else
       Option.bind (firstNode G bb) (\<lambda>inst.
         Option.bind (hb I G sid X (HL (g_dg G inst) (g_rev_control G inst)) s1) (\<lambda>(r2, s2).
           if r2 then Some (True, s2) else
           Option.bind (case loop of Some blks \<Rightarrow> placeTransForLoop I G inst blks sid X s2
             | None \<Rightarrow> if addDep then processHighestBr I G inst sid X s2 else Some s2)
             (\<lambda>s3. Some (False, s3))))) = Some (r, s')"
    using assms(1) by (auto simp: processBBlockRevCDs_def bind_eq_Some_conv)
  have a1: "adds I F s s1" using revcd_loop_adds [OF r1 nm] by simp
  show ?thesis
  proof (cases r1)
    case True
    then show ?thesis using a1 k by simp
  next
    case False
    then obtain inst r2 s2 where h: "hb I G sid X (HL (g_dg G inst) (g_rev_control G inst)) s1 = Some (r2, s2)"
      and k2: "(if r2 then Some (True, s2) else
           Option.bind (case loop of Some blks \<Rightarrow> placeTransForLoop I G inst blks sid X s2
             | None \<Rightarrow> if addDep then processHighestBr I G inst sid X s2 else Some s2)
             (\<lambda>s3. Some (False, s3))) = Some (r, s')"
      using k by (auto simp: bind_eq_Some_conv)
    have "adds I F s1 s2" using one_placement_adds [OF hb_one [OF h] nm] by simp
    with a1 have a2: "adds I F s s2" by (rule adds_trans)
    have "adds I F s2 s'" using k2 placeTransForLoop_adds [OF _ nm] processHighestBr_adds [OF _ nm]
      by (auto simp: bind_eq_Some_conv split: if_splits option.splits)
    with a2 show ?thesis by (rule adds_trans)
  qed
qed

section \<open>Marking a node\<close>

lemma new_buffer_adds: "adds I F s (new_buffer ps s)"
  by (rule adds_same [OF adds_refl]) (simp_all add: new_buffer_def)

lemma insert_point_adds:
  assumes "adds I F s t" and "code t = code s" and "i \<in> F"
  shows "adds I F s (insert_before (parent I i) (insert_point I i t) c t)"
proof (cases "after_inst (Orig i) (code t (parent I i))")
  case Nil
  then show ?thesis using adds_insert_orig [OF assms(1,3)] by (simp add: insert_point_def)
next
  case (Cons j js)
  have "j \<in> set (after_inst (Orig i) (code t (parent I i)))" using Cons by simp
  then have "j \<in> set (code s (parent I i))" unfolding after_inst_def at_inst_def assms(2)
    by (metis list.sel(2) list.set_sel(2) set_dropWhileD)
  then show ?thesis using adds_insert [OF assms(1)] Cons by (simp add: insert_point_def)
qed

lemma find_ret_in: "find_ret I s bs = Some (b, r) \<Longrightarrow> r \<in> set (code s b)"
  by (induction bs) (auto split: option.splits simp: find_Some_iff)

lemma buffer_alloca_adds:
  assumes "i \<in> F"
  shows "adds I F s (buffer_alloca I ps i s)"
proof -
  let ?s1 = "new_buffer ps s"
  let ?s2 = "insert_before (parent I i) (insert_point I i ?s1)
     (C_push_alloc (buf ?s1 ps) (ai_array_size I i) (ai_size I i) i) ?s1"
  have "adds I F s ?s2" by (rule insert_point_adds [OF new_buffer_adds _ assms]) (simp add: new_buffer_def)
  moreover have "adds I F ?s2 (insert_before b r c ?s2)" if "getFuncRet I f ?s2 = Some (b, r)" for f b r c
    using that find_ret_in [of I ?s2] unfolding getFuncRet_def by (intro adds_insert adds_refl)
  ultimately show ?thesis using adds_trans by (auto simp: buffer_alloca_def Let_def split: option.splits)
qed

lemma buffer_malloc_adds:
  assumes "i \<in> F"
  shows "adds I F s (buffer_malloc I ps i s)"
  unfolding buffer_malloc_def Let_def
  by (rule insert_point_adds [OF new_buffer_adds _ assms]) (simp add: new_buffer_def)

lemma hp_target_adds:
  assumes "hp_target I G dg sid ps X s = Some (stop, X', s')" and nm: "names_insts I G F"
  shows "adds I F s s'"
proof -
  have set: "adds I F s (set_node n x s)" for n x s by (rule adds_same [OF adds_refl]) simp_all
  show ?thesis
    using assms(1) names_ps [OF nm, of ps] buffer_alloca_adds [of _ F I s ps] buffer_malloc_adds [of _ F I s ps]
      adds_trans [OF set buffer_malloc_adds]
    by (auto simp: hp_target_def bind_eq_Some_conv Let_def set
        split: option.splits val.splits if_splits)
qed

lemma hp_targets_adds:
  assumes "hp_targets I G dg sid pss X s = Some (stop, X', s')" and nm: "names_insts I G F"
  shows "adds I F s s'"
  using assms(1)
  by (induction pss arbitrary: X s)
    (auto simp: bind_eq_Some_conv split: if_splits dest!: hp_target_adds [OF _ nm] intro: adds_trans)

lemma hp_operands_adds:
  assumes "hp_operands I G dg i sid ks X s = Some (X', s')" and nm: "names_insts I G F"
  shows "adds I F s s'"
  using assms(1)
  by (induction ks arbitrary: X s)
    (auto simp: bind_eq_Some_conv split: if_splits dest!: hp_targets_adds [OF _ nm] intro: adds_trans)

lemma handlePreloading_adds:
  assumes "handlePreloadingForSensitiveAccesses I G n i sid opIdx X s = Some (X', s')" and "names_insts I G F"
  shows "adds I F s s'"
  using assms unfolding handlePreloadingForSensitiveAccesses_def by (rule hp_operands_adds)

lemma check_deps_adds: "adds I F s (snd (check_deps G n vs sid s))"
proof (induction vs arbitrary: s)
  case (Cons v vs)
  have c: "adds I F s t" if "checkAddressDependency G ns v sid s = (b, t)" for ns b t s
    using checkAddressDependency_adds [of I F s G ns v sid] that by simp
  show ?case using Cons c adds_trans by (auto split: prod.splits bool.splits) blast+
qed simp

lemma place_access_adds:
  assumes "place_access I G n i sid opIdx addrs s = Some s'" and nm: "names_insts I G F"
  shows "adds I F s s'"
proof -
  obtain X s1 where
    h: "handlePreloadingForSensitiveAccesses I G n i sid opIdx no_accs (set_node n (sid + 1) s) = Some (X, s1)"
    and k: "(let (addDep, s2) = check_deps G n addrs (sid + 3) s1 in
       Option.bind (processBBlockRevCDs I G None addDep (g_block G n) (sid + 4) X s2) (\<lambda>(r, s3). Some s3)) = Some s'"
    using assms(1) by (auto simp: place_access_def bind_eq_Some_conv)
  obtain addDep s2 where d: "check_deps G n addrs (sid + 3) s1 = (addDep, s2)" by fastforce
  obtain r where p: "processBBlockRevCDs I G None addDep (g_block G n) (sid + 4) X s2 = Some (r, s')"
    using k by (auto simp: d bind_eq_Some_conv)
  have "adds I F s (set_node n (sid + 1) s)" by (rule adds_same [OF adds_refl]) simp_all
  then have 1: "adds I F s s1" using handlePreloading_adds [OF h nm] by (rule adds_trans)
  have 2: "adds I F s1 s2" using check_deps_adds [of I F s1] d by (metis snd_conv)
  show ?thesis using adds_trans [OF adds_trans [OF 1 2] processBBlockRevCDs_adds [OF p nm]] .
qed

lemma loop_accesses_adds:
  assumes "loop_accesses I G sid ms X s = Some (X', s')" and nm: "names_insts I G F"
  shows "adds I F s s'"
  using assms(1)
proof (induction ms arbitrary: X s)
  case (Cons m ms)
  then obtain i Y t where t: "(case addr_operand (opc I i) of
      Some k \<Rightarrow> handlePreloadingForSensitiveAccesses I G m i sid k X s | None \<Rightarrow> Some (X, s)) = Some (Y, t)"
    and r: "loop_accesses I G sid ms Y (set_node m 0 t) = Some (X', s')"
    by (auto simp: bind_eq_Some_conv)
  have "adds I F s t" using t handlePreloading_adds [OF _ nm] by (auto split: option.splits)
  then have "adds I F s (set_node m 0 t)" by (rule adds_same) simp_all
  then show ?case using Cons.IH [OF r] by (rule adds_trans)
qed simp

lemma mark_loop_adds:
  assumes "mark_loop I G sid n s = Some s'" and nm: "names_insts I G F"
  shows "adds I F s s'"
  using assms(1) loop_accesses_adds [OF _ nm] processBBlockRevCDs_adds [OF _ nm] adds_trans
  by (auto simp: mark_loop_def bind_eq_Some_conv split: option.splits prod.splits) blast

lemma mark_call_adds:
  assumes "mark_call I G sid n i s = Some s'" and nm: "names_insts I G F"
  shows "adds I F s s'"
  using assms(1) place_access_adds [OF _ nm] by (auto simp: mark_call_def split: option.splits if_splits)

lemma mark_node_same:
  assumes "mark_node G fwd n sid s = Some s'"
  shows "code s' = code s" "fresh s' = fresh s"
  using assms by (auto simp: mark_node_def Let_def bind_eq_Some_conv split: option.splits if_splits)

lemma mark_pass0_same:
  assumes "mark_pass0 I G fwd sid n s = Some (m, s')"
  shows "code s' = code s" "fresh s' = fresh s"
  using assms mark_node_same
  by (auto simp: mark_pass0_def bind_eq_Some_conv split: option.splits if_splits)

lemma markSlice_adds:
  assumes "markSlice I G fwd sl pass n s = Some (m, s')" and nm: "names_insts I G F"
  shows "adds I F s s'"
proof (cases "pass = 0")
  case True
  then show ?thesis using assms(1) mark_pass0_same adds_same [OF adds_refl] unfolding markSlice_def Let_def by auto
next
  case False
  then show ?thesis using assms(1) place_access_adds [OF _ nm] mark_loop_adds [OF _ nm] mark_call_adds [OF _ nm]
    by (auto simp: markSlice_def Let_def bind_eq_Some_conv split: option.splits if_splits)
qed

section \<open>A walk\<close>

lemma set_parent_same [simp]:
  "code (set_parent I G rt n cur s) = code s" "fresh (set_parent I G rt n cur s) = fresh s"
  by (simp_all add: set_parent_def)

lemma processEdges_same [simp]:
  "code (processEdges I G rt n ns s) = code s" "fresh (processEdges I G rt n ns s) = fresh s"
  by (induction ns arbitrary: s) (simp_all add: Let_def)

lemma foldl_edges_same:
  "code (foldl (\<lambda>s CD. processEdges I G E_BBCD n (b_nodes G CD) s) s bs) = code s \<and>
   fresh (foldl (\<lambda>s CD. processEdges I G E_BBCD n (b_nodes G CD) s) s bs) = fresh s"
  by (induction bs arbitrary: s) simp_all

lemma processBBlockCDs_same [simp]:
  "code (processBBlockCDs I G n s) = code s" "fresh (processBBlockCDs I G n s) = fresh s"
  by (simp_all add: processBBlockCDs_def foldl_edges_same split: option.splits)

lemma enqueue_some_same: "enqueue_some ms s = Some t \<Longrightarrow> code t = code s \<and> fresh t = fresh s"
  by (induction ms arbitrary: s) (fastforce split: option.splits)+

lemma when_flag_same:
  assumes "when_flag opts f g s = Some t" and "\<And>s t. g s = Some t \<Longrightarrow> code t = code s \<and> fresh t = fresh s"
  shows "code t = code s \<and> fresh t = fresh s"
  using assms by (auto simp: when_flag_def split: if_splits)

lemma walk_edges_same:
  assumes "walk_edges I G opts n marked s = Some s'"
  shows "code s' = code s \<and> fresh s' = fresh s"
proof (cases "opts = 0")
  case True
  then show ?thesis using assms by (simp add: walk_edges_def)
next
  case False
  obtain s1 s2 s3 s4 s5 s6 s7 s8 s9 s10 where
    w: "when_flag opts NODES_WALK_CD (\<lambda>s. let s' = processEdges I G E_CD n (g_control G n) s in
          Some (if marked then processBBlockCDs I G n s' else s')) s = Some s1"
      "when_flag opts NODES_WALK_REV_CD (\<lambda>s. processBBlockRevCDs_walk G n (enqueue_all (g_rev_control G n) s)) s1 = Some s2"
      "when_flag opts NODES_WALK_DD (\<lambda>s. Some (processEdges I G E_DD n (g_data G n) s)) s2 = Some s3"
      "when_flag opts NODES_WALK_REV_DD (\<lambda>s. Some (enqueue_all (g_rev_data G n) s)) s3 = Some s4"
      "when_flag opts NODES_WALK_USE (\<lambda>s. Some (processEdges I G E_USE n (g_use G n) s)) s4 = Some s5"
      "when_flag opts NODES_WALK_USER (\<lambda>s. Some (processEdges I G E_USER n (g_user G n) s)) s5 = Some s6"
      "when_flag opts NODES_WALK_ID (\<lambda>s. Some (processEdges I G E_ID n (g_interf G n) s)) s6 = Some s7"
      "when_flag opts NODES_WALK_REV_ID (\<lambda>s. Some (enqueue_all (g_rev_interf G n) s)) s7 = Some s8"
      "when_flag opts NODES_WALK_BB_CFG (processBBlockCFG G n) s8 = Some s9"
      "when_flag opts NODES_WALK_BB_REV_CFG (processBBlockRevCFG G n) s9 = Some s10"
      "when_flag opts NODES_WALK_BB_POSTDOM_FRONTIERS (processBBlockPostDomFrontieres G n) s10 = Some s'"
    using assms False by (auto simp: walk_edges_def bind_eq_Some_conv)
  note same = w [THEN when_flag_same]
  have "code s2 = code s1 \<and> fresh s2 = fresh s1"
    by (rule same(2)) (auto simp: processBBlockRevCDs_walk_def dest!: enqueue_some_same)
  moreover have "code s9 = code s8 \<and> fresh s9 = fresh s8"
    by (rule same(9)) (auto simp: processBBlockCFG_def dest!: enqueue_some_same)
  moreover have "code s10 = code s9 \<and> fresh s10 = fresh s9"
    by (rule same(10)) (auto simp: processBBlockRevCFG_def dest!: enqueue_some_same)
  moreover have "code s' = code s10 \<and> fresh s' = fresh s10"
    by (rule same(11)) (auto simp: processBBlockPostDomFrontieres_def dest!: enqueue_some_same)
  moreover have "code s1 = code s \<and> fresh s1 = fresh s" by (rule same(1)) (auto simp: Let_def)
  moreover have "code s3 = code s2 \<and> fresh s3 = fresh s2" by (rule same(3)) auto
  moreover have "code s4 = code s3 \<and> fresh s4 = fresh s3" by (rule same(4)) auto
  moreover have "code s5 = code s4 \<and> fresh s5 = fresh s4" by (rule same(5)) auto
  moreover have "code s6 = code s5 \<and> fresh s6 = fresh s5" by (rule same(6)) auto
  moreover have "code s7 = code s6 \<and> fresh s7 = fresh s6" by (rule same(7)) auto
  moreover have "code s8 = code s7 \<and> fresh s8 = fresh s7" by (rule same(8)) auto
  ultimately show ?thesis by simp
qed

lemma walk_loop_adds:
  assumes "walk_loop I G opts func s = Some s'"
    and "\<And>n s m t. func n s = Some (m, t) \<Longrightarrow> adds I F s t"
  shows "adds I F s s'"
proof -
  have "J = I \<longrightarrow> f = func \<longrightarrow> adds I F s s'" if "walk_loop J H o' f s = Some s'" for J H o' f s s'
  proof (rule walk_loop.raw_induct [OF _ that], goal_cases)
    case (1 rec J H o' f s s')
    show ?case
    proof (intro impI)
      assume eqs: "J = I" "f = func"
      show "adds I F s s'"
      proof (cases "w_queue s")
        case Nil
        then show ?thesis using 1(2) by simp
      next
        case (Cons n q)
        obtain m u v where f: "func n (s\<lparr>w_queue := q\<rparr>) = Some (m, u)" and w: "walk_edges I H o' n m u = Some v"
          and r: "rec I H o' func v = Some s'"
          using 1(2) Cons eqs by (auto simp: bind_eq_Some_conv)
        have "adds I F s (s\<lparr>w_queue := q\<rparr>)" by (rule adds_same [OF adds_refl]) simp_all
        then have "adds I F s u" using assms(2) [OF f] by (rule adds_trans)
        then have "adds I F s v" by (rule adds_same) (use walk_edges_same [OF w] in simp_all)
        moreover have "adds I F v s'" using 1(1) [OF r] by blast
        ultimately show ?thesis by (rule adds_trans)
      qed
    qed
  qed
  then show ?thesis using assms(1) by blast
qed

lemma mark_walk_adds:
  assumes "mark_walk I G fwd start sl pass b s = Some (b', s')" and nm: "names_insts I G F"
  shows "adds I F s s'"
proof -
  let ?t = "enqueue_all start (s\<lparr>allocId := ucast b, markedBlocks := {}, run_id := run_id s + 1\<rparr>)"
  have "walk_loop I G (mark_options fwd) (markSlice I G fwd sl pass) ?t = Some s'"
    using assms(1) by (auto simp: mark_walk_def walk_def bind_eq_Some_conv Let_def split: if_splits)
  then have "adds I F ?t s'" by (rule walk_loop_adds) (rule markSlice_adds [OF _ nm])
  moreover have "adds I F s ?t" by (rule adds_same [OF adds_refl]) simp_all
  ultimately show ?thesis using adds_trans by blast
qed

lemma free_targets_adds: "ci \<in> F \<Longrightarrow> adds I F s (free_targets I ci pss s)"
proof (induction pss arbitrary: s)
  case (Cons ps pss)
  then show ?case using adds_trans [OF adds_insert_orig [OF adds_refl Cons.prems] Cons.IH]
    by (auto split: option.splits val.splits)
qed simp

lemma handleFreeFunc_adds: "set cis \<subseteq> F \<Longrightarrow> adds I F s (handleFreeFunc I cis s)"
proof (induction cis arbitrary: s)
  case (Cons ci cis)
  then show ?case using adds_trans [OF free_targets_adds [of ci F] Cons.IH]
    by (auto split: option.splits)
qed simp

lemma slicer_mark_adds:
  assumes "slicer_mark I G start sl fwd pass b frees s = Some (b', s')" and nm: "names_insts I G F"
    and "set frees \<subseteq> F"
  shows "adds I F s s'"
  using assms(1)
  by (auto simp: slicer_mark_def bind_eq_Some_conv split: if_splits dest!: mark_walk_adds [OF _ nm]
      intro: adds_trans [OF _ handleFreeFunc_adds [OF assms(3)]])

section \<open>Properties\<close>

lemma as_inst_Some: "as_inst v = Some i \<longleftrightarrow> v = VInst i"
  by (cases v) auto


text \<open>Pass 2 on the access of \<open>heap_ir\<close>.\<close>

definition heap_graph :: graph where
  "heap_graph = graph0\<lparr>g_key := (\<lambda>n. if n = 20 then VInst 20 else VOther n), g_dg := (\<lambda>_. Some 0)\<rparr>"

definition heap_code :: "nat \<Rightarrow> inst list" where
  "heap_code b = (if b = 3 then map Orig [21, 22, 20, 23] else if b = 4 then [Orig 24] else [])"


end
