(* ===== verification/Dep_Nodes.thy ===== *)
theory Dep_Nodes
  imports Prelude "HOL-Library.Product_Lexorder"
begin

text \<open>
  The nodes of the dependence graph (\<^verbatim>\<open>include/dg/Node.h\<close>): four kinds of edges, each kept in a
  container of the source and in a reverse container of the target. Nodes are numbers, the
  containers are sets iterated in increasing order (\<^verbatim>\<open>include/dg/ADT/DGContainer.h\<close>). The
  operations assert that an edge and its reverse are there together; \<open>None\<close> is a failed assertion.
\<close>

section \<open>Edges\<close>

datatype kind = K_CD | K_DD | K_USE | K_ID

record nodes =
  outs :: "kind \<Rightarrow> nat \<Rightarrow> nat set"
  ins :: "kind \<Rightarrow> nat \<Rightarrow> nat set"

definition upd2 :: "('k \<Rightarrow> 'a \<Rightarrow> 'b) \<Rightarrow> 'k \<Rightarrow> 'a \<Rightarrow> 'b \<Rightarrow> 'k \<Rightarrow> 'a \<Rightarrow> 'b" where
  "upd2 f k a v = f(k := (f k)(a := v))"

lemma upd2_apply [simp]: "upd2 f k a v k' a' = (if k' = k \<and> a' = a then v else f k' a')"
  by (simp add: upd2_def)

definition addBidirectionalEdge :: "kind \<Rightarrow> nat \<Rightarrow> nat \<Rightarrow> nodes \<Rightarrow> (bool \<times> nodes) option" where
  "addBidirectionalEdge k a b s =
     (let ret1 = (a \<notin> ins s k b); ret2 = (b \<notin> outs s k a) in
      if ret1 = ret2
      then Some (ret2, s\<lparr>ins := upd2 (ins s) k b (insert a (ins s k b)),
                         outs := upd2 (outs s) k a (insert b (outs s k a))\<rparr>)
      else None)"

definition removeBidirectionalEdge :: "kind \<Rightarrow> nat \<Rightarrow> nat \<Rightarrow> nodes \<Rightarrow> (bool \<times> nodes) option" where
  "removeBidirectionalEdge k a b s =
     (let ret1 = (a \<in> ins s k b); ret2 = (b \<in> outs s k a) in
      if ret1 = ret2
      then Some (ret1, s\<lparr>ins := upd2 (ins s) k b (ins s k b - {a}),
                         outs := upd2 (outs s) k a (outs s k a - {b})\<rparr>)
      else None)"

definition addControlDependence :: "nat \<Rightarrow> nat \<Rightarrow> nodes \<Rightarrow> (bool \<times> nodes) option" where
  "addControlDependence = addBidirectionalEdge K_CD"

definition addDataDependence :: "nat \<Rightarrow> nat \<Rightarrow> nodes \<Rightarrow> (bool \<times> nodes) option" where
  "addDataDependence = addBidirectionalEdge K_DD"

definition addUseDependence :: "nat \<Rightarrow> nat \<Rightarrow> nodes \<Rightarrow> (bool \<times> nodes) option" where
  "addUseDependence = addBidirectionalEdge K_USE"

definition addInterferenceDependence :: "nat \<Rightarrow> nat \<Rightarrow> nodes \<Rightarrow> (bool \<times> nodes) option" where
  "addInterferenceDependence = addBidirectionalEdge K_ID"

section \<open>Removing the edges of a node\<close>

partial_function (option) removeOutcoming :: "kind \<Rightarrow> nat \<Rightarrow> nodes \<Rightarrow> nodes option" where
  "removeOutcoming k n s =
     (if outs s k n = {} then Some s
      else Option.bind (removeBidirectionalEdge k n (Min (outs s k n)) s) (\<lambda>(r, s').
        removeOutcoming k n s'))"

partial_function (option) removeIncoming :: "kind \<Rightarrow> nat \<Rightarrow> nodes \<Rightarrow> nodes option" where
  "removeIncoming k n s =
     (if ins s k n = {} then Some s
      else Option.bind (removeBidirectionalEdge k (Min (ins s k n)) n s) (\<lambda>(r, s').
        removeIncoming k n s'))"

declare removeOutcoming.simps [code] removeIncoming.simps [code]

definition removeEdges :: "kind \<Rightarrow> nat \<Rightarrow> nodes \<Rightarrow> nodes option" where
  "removeEdges k n s = Option.bind (removeOutcoming k n s) (removeIncoming k n)"

definition removeCDs :: "nat \<Rightarrow> nodes \<Rightarrow> nodes option" where
  "removeCDs = removeEdges K_CD"

definition removeDDs :: "nat \<Rightarrow> nodes \<Rightarrow> nodes option" where
  "removeDDs = removeEdges K_DD"

definition removeUses :: "nat \<Rightarrow> nodes \<Rightarrow> nodes option" where
  "removeUses = removeEdges K_USE"

text \<open>The part of \<open>isolate\<close> that concerns the edges.\<close>

definition isolate_edges :: "nat \<Rightarrow> nodes \<Rightarrow> nodes option" where
  "isolate_edges n s =
     Option.bind (removeDDs n s) (\<lambda>s. Option.bind (removeUses n s) (removeCDs n))"

section \<open>The invariant\<close>

definition edges_wf :: "nodes \<Rightarrow> bool" where
  "edges_wf s = ((\<forall>k a b. b \<in> outs s k a \<longleftrightarrow> a \<in> ins s k b) \<and> (\<forall>k a. finite (outs s k a) \<and> finite (ins s k a)))"

text \<open>The abstract graph: a set of labelled edges.\<close>

definition edge_set :: "nodes \<Rightarrow> (kind \<times> nat \<times> nat) set" where
  "edge_set s = {(k, a, b). b \<in> outs s k a}"

lemma edges_wfD: "edges_wf s \<Longrightarrow> b \<in> outs s k a \<longleftrightarrow> a \<in> ins s k b"
  by (simp add: edges_wf_def)

lemma edges_wf_finite: "edges_wf s \<Longrightarrow> finite (outs s k a)" "edges_wf s \<Longrightarrow> finite (ins s k a)"
  by (simp_all add: edges_wf_def)

lemma addEdge_ok:
  assumes "edges_wf s"
  shows "\<exists>s'. addBidirectionalEdge k a b s = Some ((k, a, b) \<notin> edge_set s, s') \<and> edges_wf s' \<and>
    edge_set s' = insert (k, a, b) (edge_set s)"
proof -
  let ?s' = "s\<lparr>ins := upd2 (ins s) k b (insert a (ins s k b)), outs := upd2 (outs s) k a (insert b (outs s k a))\<rparr>"
  have "addBidirectionalEdge k a b s = Some ((k, a, b) \<notin> edge_set s, ?s')"
    using edges_wfD [OF assms] by (simp add: addBidirectionalEdge_def edge_set_def Let_def)
  moreover have "edges_wf ?s'" using assms by (auto simp: edges_wf_def)
  moreover have "edge_set ?s' = insert (k, a, b) (edge_set s)" by (auto simp: edge_set_def split: if_splits)
  ultimately show ?thesis by blast
qed

lemma removeEdge_ok:
  assumes "edges_wf s"
  shows "\<exists>s'. removeBidirectionalEdge k a b s = Some ((k, a, b) \<in> edge_set s, s') \<and> edges_wf s' \<and>
    edge_set s' = edge_set s - {(k, a, b)} \<and>
    outs s' = upd2 (outs s) k a (outs s k a - {b}) \<and> ins s' = upd2 (ins s) k b (ins s k b - {a})"
proof -
  let ?s' = "s\<lparr>ins := upd2 (ins s) k b (ins s k b - {a}), outs := upd2 (outs s) k a (outs s k a - {b})\<rparr>"
  have "removeBidirectionalEdge k a b s = Some ((k, a, b) \<in> edge_set s, ?s')"
    using edges_wfD [OF assms] by (simp add: removeBidirectionalEdge_def edge_set_def Let_def)
  moreover have "edges_wf ?s'" using assms by (auto simp: edges_wf_def)
  moreover have "edge_set ?s' = edge_set s - {(k, a, b)}" by (auto simp: edge_set_def split: if_splits)
  ultimately show ?thesis by auto
qed

lemma removeOutcoming_ok:
  assumes "edges_wf s"
  shows "\<exists>s'. removeOutcoming k n s = Some s' \<and> edges_wf s' \<and> edge_set s' = {e \<in> edge_set s. \<not> (\<exists>b. e = (k, n, b))}"
  using assms
proof (induction "card (outs s k n)" arbitrary: s rule: less_induct)
  case less
  show ?case
  proof (cases "outs s k n = {}")
    case True
    then have "edge_set s = {e \<in> edge_set s. \<not> (\<exists>b. e = (k, n, b))}" by (auto simp: edge_set_def)
    then show ?thesis using True less.prems by (subst removeOutcoming.simps) simp
  next
    case False
    let ?b = "Min (outs s k n)"
    have fin: "finite (outs s k n)" using less.prems by (rule edges_wf_finite)
    obtain s1 where s1: "removeBidirectionalEdge k n ?b s = Some ((k, n, ?b) \<in> edge_set s, s1)" "edges_wf s1"
      "edge_set s1 = edge_set s - {(k, n, ?b)}" "outs s1 = upd2 (outs s) k n (outs s k n - {?b})"
      using removeEdge_ok [OF less.prems] by blast
    have "?b \<in> outs s k n" using fin False by (rule Min_in)
    from card_Diff1_less [OF fin this] have "card (outs s1 k n) < card (outs s k n)" by (simp only: s1(4) upd2_apply simp_thms if_True)
    from less.hyps [OF this s1(2)] obtain s' where
      s': "removeOutcoming k n s1 = Some s'" "edges_wf s'" "edge_set s' = {e \<in> edge_set s1. \<not> (\<exists>b. e = (k, n, b))}" by blast
    have "removeOutcoming k n s = Some s'" using False s1(1) s'(1) by (subst removeOutcoming.simps) simp
    moreover have "edge_set s' = {e \<in> edge_set s. \<not> (\<exists>b. e = (k, n, b))}" using s'(3) s1(3) by auto
    ultimately show ?thesis using s'(2) by blast
  qed
qed

lemma removeIncoming_ok:
  assumes "edges_wf s"
  shows "\<exists>s'. removeIncoming k n s = Some s' \<and> edges_wf s' \<and> edge_set s' = {e \<in> edge_set s. \<not> (\<exists>a. e = (k, a, n))}"
  using assms
proof (induction "card (ins s k n)" arbitrary: s rule: less_induct)
  case less
  show ?case
  proof (cases "ins s k n = {}")
    case True
    then have "edge_set s = {e \<in> edge_set s. \<not> (\<exists>a. e = (k, a, n))}"
      using edges_wfD [OF less.prems] by (auto simp: edge_set_def)
    then show ?thesis using True less.prems by (subst removeIncoming.simps) simp
  next
    case False
    let ?a = "Min (ins s k n)"
    have fin: "finite (ins s k n)" using less.prems by (rule edges_wf_finite)
    obtain s1 where s1: "removeBidirectionalEdge k ?a n s = Some ((k, ?a, n) \<in> edge_set s, s1)" "edges_wf s1"
      "edge_set s1 = edge_set s - {(k, ?a, n)}" "ins s1 = upd2 (ins s) k n (ins s k n - {?a})"
      using removeEdge_ok [OF less.prems] by blast
    have "?a \<in> ins s k n" using fin False by (rule Min_in)
    from card_Diff1_less [OF fin this] have "card (ins s1 k n) < card (ins s k n)" by (simp only: s1(4) upd2_apply simp_thms if_True)
    from less.hyps [OF this s1(2)] obtain s' where
      s': "removeIncoming k n s1 = Some s'" "edges_wf s'" "edge_set s' = {e \<in> edge_set s1. \<not> (\<exists>a. e = (k, a, n))}" by blast
    have "removeIncoming k n s = Some s'" using False s1(1) s'(1) by (subst removeIncoming.simps) simp
    moreover have "edge_set s' = {e \<in> edge_set s. \<not> (\<exists>a. e = (k, a, n))}" using s'(3) s1(3) by auto
    ultimately show ?thesis using s'(2) by blast
  qed
qed

lemma removeEdges_ok:
  assumes "edges_wf s"
  shows "\<exists>s'. removeEdges k n s = Some s' \<and> edges_wf s' \<and>
    edge_set s' = {(k', a, b) \<in> edge_set s. k' \<noteq> k \<or> a \<noteq> n \<and> b \<noteq> n}"
proof -
  obtain s1 where s1: "removeOutcoming k n s = Some s1" "edges_wf s1"
    "edge_set s1 = {e \<in> edge_set s. \<not> (\<exists>b. e = (k, n, b))}" using removeOutcoming_ok [OF assms] by blast
  obtain s2 where s2: "removeIncoming k n s1 = Some s2" "edges_wf s2"
    "edge_set s2 = {e \<in> edge_set s1. \<not> (\<exists>a. e = (k, a, n))}" using removeIncoming_ok [OF s1(2)] by blast
  have "edge_set s2 = {(k', a, b) \<in> edge_set s. k' \<noteq> k \<or> a \<noteq> n \<and> b \<noteq> n}" using s1(3) s2(3) by auto
  then show ?thesis using s1(1) s2(1,2) by (auto simp: removeEdges_def)
qed

section \<open>Properties\<close>

text \<open>A history of edge operations, and the same history on a set of labelled edges.\<close>

datatype edge_op = AddEdge kind nat nat | RemoveEdge kind nat nat | RemoveAll kind nat

fun edge_exec :: "edge_op \<Rightarrow> nodes \<Rightarrow> nodes option" where
  "edge_exec (AddEdge k a b) s = map_option snd (addBidirectionalEdge k a b s)"
| "edge_exec (RemoveEdge k a b) s = map_option snd (removeBidirectionalEdge k a b s)"
| "edge_exec (RemoveAll k n) s = removeEdges k n s"

fun edge_spec :: "edge_op \<Rightarrow> (kind \<times> nat \<times> nat) set \<Rightarrow> (kind \<times> nat \<times> nat) set" where
  "edge_spec (AddEdge k a b) E = insert (k, a, b) E"
| "edge_spec (RemoveEdge k a b) E = E - {(k, a, b)}"
| "edge_spec (RemoveAll k n) E = {(k', a, b) \<in> E. k' \<noteq> k \<or> a \<noteq> n \<and> b \<noteq> n}"

fun edge_run :: "edge_op list \<Rightarrow> nodes \<Rightarrow> nodes option" where
  "edge_run [] s = Some s"
| "edge_run (op # ops) s = Option.bind (edge_exec op s) (edge_run ops)"

definition no_edges :: nodes where
  "no_edges = \<lparr>outs = (\<lambda>_ _. {}), ins = (\<lambda>_ _. {})\<rparr>"

lemma edge_exec_ok:
  assumes "edges_wf s"
  shows "\<exists>s'. edge_exec op s = Some s' \<and> edges_wf s' \<and> edge_set s' = edge_spec op (edge_set s)"
proof (cases op)
  case (AddEdge k a b)
  then show ?thesis using addEdge_ok [OF assms, of k a b] by auto
next
  case (RemoveEdge k a b)
  then show ?thesis using removeEdge_ok [OF assms, of k a b] by auto
next
  case (RemoveAll k n)
  then show ?thesis using removeEdges_ok [OF assms, of k n] by auto
qed

lemma edge_run_ok:
  "edges_wf s \<Longrightarrow> \<exists>s'. edge_run ops s = Some s' \<and> edges_wf s' \<and> edge_set s' = fold edge_spec ops (edge_set s)"
proof (induction ops arbitrary: s)
  case (Cons op ops)
  then show ?case using edge_exec_ok [of s op] by fastforce
qed simp

text \<open>C32: in every history of the edge operations no assertion fails, every edge is in the container
  of its source exactly when it is in the reverse container of its target, and the edges are
  those a plain set of labelled edges has after the same history.\<close>

theorem edges_refine_set:
  "\<exists>s. edge_run ops no_edges = Some s \<and> (\<forall>k a b. b \<in> outs s k a \<longleftrightarrow> a \<in> ins s k b) \<and>
    (\<forall>k a b. b \<in> outs s k a \<longleftrightarrow> (k, a, b) \<in> fold edge_spec ops {})"
proof -
  have "edges_wf no_edges" "edge_set no_edges = {}" by (simp_all add: edges_wf_def edge_set_def no_edges_def)
  then obtain s where s: "edge_run ops no_edges = Some s" "edges_wf s" "edge_set s = fold edge_spec ops {}"
    using edge_run_ok [of no_edges ops] by auto
  have "b \<in> outs s k a \<longleftrightarrow> (k, a, b) \<in> edge_set s" for k a b by (simp add: edge_set_def)
  then show ?thesis using s edges_wfD [OF s(2)] by auto
qed

text \<open>Isolating a node removes all its control, data and use edges in both directions, fails no
  assertion and changes no other edge; its interference edges stay, although the node is removed
  and deleted next.\<close>

theorem isolate_edges_correct:
  assumes "\<forall>k a b. b \<in> outs s k a \<longleftrightarrow> a \<in> ins s k b" and "\<forall>k a. finite (outs s k a) \<and> finite (ins s k a)"
  shows "\<exists>s'. isolate_edges n s = Some s' \<and>
    (\<forall>k a b. b \<in> outs s' k a \<longleftrightarrow> b \<in> outs s k a \<and> (k = K_ID \<or> a \<noteq> n \<and> b \<noteq> n)) \<and>
    (\<forall>k a b. b \<in> outs s' k a \<longleftrightarrow> a \<in> ins s' k b)"
proof -
  have wf: "edges_wf s" using assms by (simp add: edges_wf_def)
  obtain s1 where s1: "removeDDs n s = Some s1" "edges_wf s1"
    "edge_set s1 = {(k', a, b) \<in> edge_set s. k' \<noteq> K_DD \<or> a \<noteq> n \<and> b \<noteq> n}"
    using removeEdges_ok [OF wf] unfolding removeDDs_def by blast
  obtain s2 where s2: "removeUses n s1 = Some s2" "edges_wf s2"
    "edge_set s2 = {(k', a, b) \<in> edge_set s1. k' \<noteq> K_USE \<or> a \<noteq> n \<and> b \<noteq> n}"
    using removeEdges_ok [OF s1(2)] unfolding removeUses_def by blast
  obtain s3 where s3: "removeCDs n s2 = Some s3" "edges_wf s3"
    "edge_set s3 = {(k', a, b) \<in> edge_set s2. k' \<noteq> K_CD \<or> a \<noteq> n \<and> b \<noteq> n}"
    using removeEdges_ok [OF s2(2)] unfolding removeCDs_def by blast
  have "edge_set s3 = {(k, a, b) \<in> edge_set s. k = K_ID \<or> a \<noteq> n \<and> b \<noteq> n}"
  proof -
    have "e \<in> edge_set s3 \<longleftrightarrow> e \<in> {(k, a, b) \<in> edge_set s. k = K_ID \<or> a \<noteq> n \<and> b \<noteq> n}" for e
      by (cases e; cases "fst e") (auto simp: s3(3) s2(3) s1(3))
    then show ?thesis by blast
  qed
  then have "b \<in> outs s3 k a \<longleftrightarrow> b \<in> outs s k a \<and> (k = K_ID \<or> a \<noteq> n \<and> b \<noteq> n)" for k a b
    by (auto simp: edge_set_def set_eq_iff)
  then show ?thesis using s1(1) s2(1) s3(1) edges_wfD [OF s3(2)] by (auto simp: isolate_edges_def)
qed

theorem isolate_edges_correct_witness:
  "let s = \<lparr>outs = (\<lambda>k a. if a = 1 then {1, 2} else {}), ins = (\<lambda>k a. if a = 1 \<or> a = 2 then {1} else {})\<rparr> in
   \<exists>s'. isolate_edges 2 s = Some s' \<and> 2 \<in> outs s' K_ID 1 \<and> 2 \<notin> outs s' K_CD 1 \<and> 1 \<in> outs s' K_DD 1"
proof -
  let ?s = "\<lparr>outs = (\<lambda>k a. if a = 1 then {1, 2} else {}), ins = (\<lambda>k a. if a = 1 \<or> a = 2 then {1} else {})\<rparr> :: nodes"
  have "\<forall>k a b. b \<in> outs ?s k a \<longleftrightarrow> a \<in> ins ?s k b" "\<forall>k a. finite (outs ?s k a) \<and> finite (ins ?s k a)" by auto
  from isolate_edges_correct [OF this, of 2] obtain s' where "isolate_edges 2 ?s = Some s'"
    "\<forall>k a b. b \<in> outs s' k a \<longleftrightarrow> b \<in> outs ?s k a \<and> (k = K_ID \<or> a \<noteq> 2 \<and> b \<noteq> 2)" by blast
  then show ?thesis by (auto simp: Let_def)
qed

end
