(* ===== verification/BBlocks.thy ===== *)
theory BBlocks
  imports Prelude "HOL-Library.Product_Lexorder" "HOL-Library.Word"
begin

text \<open>
  The control-flow graph of basic blocks (\<^verbatim>\<open>include/dg/BBlock.h\<close>): a block keeps the set of its
  labelled successor edges and the set of its predecessors, and the blocks it controls and is
  controlled by. Blocks are numbers; sets are iterated in increasing order.
\<close>

section \<open>Blocks\<close>

type_synonym bedge = "nat \<times> 8 word"

record bbs =
  bb_nodes :: "nat \<Rightarrow> nat list"
  nextBBs :: "nat \<Rightarrow> bedge set"
  prevBBs :: "nat \<Rightarrow> nat set"
  controlDeps :: "nat \<Rightarrow> nat set"
  revControlDeps :: "nat \<Rightarrow> nat set"
  ipostdom :: "nat \<Rightarrow> nat option"
  idom :: "nat \<Rightarrow> nat option"
  pd_children :: "nat \<Rightarrow> nat set"
  d_children :: "nat \<Rightarrow> nat set"
  callSites :: "nat \<Rightarrow> nat set"

definition edge_eq :: "bedge \<Rightarrow> bedge \<Rightarrow> bool" where
  "edge_eq e f = (fst e = fst f \<and> snd e = snd f)"

definition edge_neq :: "bedge \<Rightarrow> bedge \<Rightarrow> bool" where
  "edge_neq e f = edge_eq e f"

definition edge_less :: "bedge \<Rightarrow> bedge \<Rightarrow> bool" where
  "edge_less e f = (if fst e = fst f then snd e < snd f else fst e < fst f)"

definition bb_addSuccessor :: "nat \<Rightarrow> bedge \<Rightarrow> bbs \<Rightarrow> bool \<times> bbs" where
  "bb_addSuccessor b e s =
     (e \<notin> nextBBs s b,
      s\<lparr>nextBBs := (nextBBs s)(b := insert e (nextBBs s b)),
        prevBBs := (prevBBs s)(fst e := insert b (prevBBs s (fst e)))\<rparr>)"

definition bb_addSuccessors :: "nat \<Rightarrow> bedge list \<Rightarrow> bbs \<Rightarrow> bbs" where
  "bb_addSuccessors b es s = foldl (\<lambda>s e. snd (bb_addSuccessor b e s)) s es"

definition removeSuccessors :: "nat \<Rightarrow> bbs \<Rightarrow> bbs" where
  "removeSuccessors b s =
     (let s1 = foldl (\<lambda>s e. s\<lparr>prevBBs := (prevBBs s)(fst e := prevBBs s (fst e) - {b})\<rparr>) s
                 (sorted_list_of_set (nextBBs s b))
      in s1\<lparr>nextBBs := (nextBBs s1)(b := {})\<rparr>)"

definition removeSuccessor :: "nat \<Rightarrow> bedge \<Rightarrow> bbs \<Rightarrow> bbs" where
  "removeSuccessor b e s =
     s\<lparr>prevBBs := (prevBBs s)(fst e := prevBBs s (fst e) - {b}),
       nextBBs := (nextBBs s)(b := nextBBs s b - {e})\<rparr>"

definition removeSuccessorsTarget :: "nat \<Rightarrow> nat \<Rightarrow> bbs \<Rightarrow> nat \<times> bbs" where
  "removeSuccessorsTarget b t s =
     (card {e \<in> nextBBs s b. fst e = t},
      s\<lparr>nextBBs := (nextBBs s)(b := {e \<in> nextBBs s b. fst e \<noteq> t})\<rparr>)"

text \<open>\<open>erase\<close> is given the edge to the block with the default label 0.\<close>

definition removePredecessors :: "nat \<Rightarrow> bbs \<Rightarrow> bbs" where
  "removePredecessors b s =
     (let s1 = foldl (\<lambda>s p. s\<lparr>nextBBs := (nextBBs s)(p := nextBBs s p - {(b, 0)})\<rparr>) s
                 (sorted_list_of_set (prevBBs s b))
      in s1\<lparr>prevBBs := (prevBBs s1)(b := {})\<rparr>)"

definition hasSelfLoop :: "nat \<Rightarrow> bbs \<Rightarrow> bool" where
  "hasSelfLoop b s = ((b, 0) \<in> nextBBs s b)"

definition successorsAreSame :: "nat \<Rightarrow> bbs \<Rightarrow> bool" where
  "successorsAreSame b s =
     (case map fst (sorted_list_of_set (nextBBs s b)) of [] \<Rightarrow> True | t # ts \<Rightarrow> list_all (\<lambda>u. u = t) ts)"

definition bb_addControlDependence :: "nat \<Rightarrow> nat \<Rightarrow> bbs \<Rightarrow> (bool \<times> bbs) option" where
  "bb_addControlDependence b c s =
     (let ret = (c \<notin> controlDeps s b); ret2 = (b \<notin> revControlDeps s c) in
      if ret = ret2
      then Some (ret, s\<lparr>controlDeps := (controlDeps s)(b := insert c (controlDeps s b)),
                        revControlDeps := (revControlDeps s)(c := insert b (revControlDeps s c))\<rparr>)
      else None)"

definition bb_setIPostDom :: "nat \<Rightarrow> nat \<Rightarrow> bbs \<Rightarrow> bbs option" where
  "bb_setIPostDom b p s =
     (if ipostdom s b \<noteq> None then None
      else Some (s\<lparr>ipostdom := (ipostdom s)(b := Some p), pd_children := (pd_children s)(p := insert b (pd_children s p))\<rparr>))"

definition bb_setIDom :: "nat \<Rightarrow> nat \<Rightarrow> bbs \<Rightarrow> bbs option" where
  "bb_setIDom b p s =
     (if idom s b \<noteq> None then None
      else Some (s\<lparr>idom := (idom s)(b := Some p), d_children := (d_children s)(p := insert b (d_children s p))\<rparr>))"

definition bb_append_node :: "nat \<Rightarrow> nat \<Rightarrow> bbs \<Rightarrow> bbs" where
  "bb_append_node b n s = s\<lparr>bb_nodes := (bb_nodes s)(b := bb_nodes s b @ [n])\<rparr>"

definition bb_prepend_node :: "nat \<Rightarrow> nat \<Rightarrow> bbs \<Rightarrow> bbs" where
  "bb_prepend_node b n s = s\<lparr>bb_nodes := (bb_nodes s)(b := n # bb_nodes s b)\<rparr>"

definition bb_removeNode :: "nat \<Rightarrow> nat \<Rightarrow> bbs \<Rightarrow> bbs" where
  "bb_removeNode b n s = s\<lparr>bb_nodes := (bb_nodes s)(b := filter (\<lambda>m. m \<noteq> n) (bb_nodes s b))\<rparr>"

definition bb_getFirstNode :: "nat \<Rightarrow> bbs \<Rightarrow> nat option" where
  "bb_getFirstNode b s = (case bb_nodes s b of [] \<Rightarrow> None | n # _ \<Rightarrow> Some n)"

definition bb_getLastNode :: "nat \<Rightarrow> bbs \<Rightarrow> nat option" where
  "bb_getLastNode b s = (if bb_nodes s b = [] then None else Some (last (bb_nodes s b)))"

section \<open>Isolating a block\<close>

text \<open>One predecessor is connected to the successors of \<open>b\<close>; the new edges have the label of the
  edge to \<open>b\<close>.\<close>

definition bypass_edges :: "nat \<Rightarrow> nat \<Rightarrow> bbs \<Rightarrow> bedge set" where
  "bypass_edges b p s =
     (\<lambda>(e, f). (fst f, snd e)) ` ({e \<in> nextBBs s p. fst e = b} \<times> {f \<in> nextBBs s b. fst f \<noteq> b})"

definition bypass :: "nat \<Rightarrow> nat \<Rightarrow> bbs \<Rightarrow> bbs" where
  "bypass b p s =
     (let new_edges = bypass_edges b p s;
          s1 = s\<lparr>nextBBs := (nextBBs s)(p := {e \<in> nextBBs s p. fst e \<noteq> b})\<rparr>
      in bb_addSuccessors p (sorted_list_of_set new_edges) s1)"

definition erase_deps :: "nat \<Rightarrow> bbs \<Rightarrow> bbs" where
  "erase_deps b s =
     (let s1 = foldl (\<lambda>s c. if c = b then s else s\<lparr>revControlDeps := (revControlDeps s)(c := revControlDeps s c - {b})\<rparr>) s
                 (sorted_list_of_set (controlDeps s b));
          s2 = foldl (\<lambda>s c. if c = b then s else s\<lparr>controlDeps := (controlDeps s)(c := controlDeps s c - {b})\<rparr>) s1
                 (sorted_list_of_set (revControlDeps s1 b))
      in s2\<lparr>revControlDeps := (revControlDeps s2)(b := {}), controlDeps := (controlDeps s2)(b := {})\<rparr>)"

definition bb_isolate :: "nat \<Rightarrow> bbs \<Rightarrow> bbs" where
  "bb_isolate b s =
     (let s1 = foldl (\<lambda>s p. bypass b p s) s (sorted_list_of_set (prevBBs s b));
          s2 = removeSuccessors b s1;
          s3 = s2\<lparr>prevBBs := (prevBBs s2)(b := {})\<rparr>
      in erase_deps b s3)"

section \<open>Well-formed control-flow graphs\<close>

definition cfg_wf :: "bbs \<Rightarrow> bool" where
  "cfg_wf s = ((\<forall>a b. a \<in> prevBBs s b \<longleftrightarrow> (\<exists>l. (b, l) \<in> nextBBs s a)) \<and>
     (\<forall>a. finite (nextBBs s a) \<and> finite (prevBBs s a)) \<and>
     (\<forall>a b. b \<in> controlDeps s a \<longleftrightarrow> a \<in> revControlDeps s b) \<and>
     (\<forall>a. finite (controlDeps s a) \<and> finite (revControlDeps s a)))"

lemma cfg_wf_prev: "cfg_wf s \<Longrightarrow> a \<in> prevBBs s b \<longleftrightarrow> (\<exists>l. (b, l) \<in> nextBBs s a)"
  by (simp add: cfg_wf_def)

lemma cfg_wf_fin: "cfg_wf s \<Longrightarrow> finite (nextBBs s a)" "cfg_wf s \<Longrightarrow> finite (prevBBs s a)"
  "cfg_wf s \<Longrightarrow> finite (controlDeps s a)" "cfg_wf s \<Longrightarrow> finite (revControlDeps s a)"
  by (simp_all add: cfg_wf_def)

lemma bb_addSuccessor_wf: "cfg_wf s \<Longrightarrow> cfg_wf (snd (bb_addSuccessor b e s))"
  by (cases e) (auto simp: cfg_wf_def bb_addSuccessor_def split: if_splits)

lemma addSuccessors_eq:
  "nextBBs (bb_addSuccessors b es s) = (nextBBs s)(b := nextBBs s b \<union> set es)"
  "x \<in> prevBBs (bb_addSuccessors b es s) t \<longleftrightarrow> x \<in> prevBBs s t \<or> x = b \<and> t \<in> fst ` set es"
  "controlDeps (bb_addSuccessors b es s) = controlDeps s"
  "revControlDeps (bb_addSuccessors b es s) = revControlDeps s"
  by (induction es arbitrary: s) (auto simp: bb_addSuccessors_def bb_addSuccessor_def)

text \<open>The successors of a predecessor of the isolated block when it is done: its own without the
  block, and every other successor of the block with the label of each of its edges to the block.\<close>

definition bypass_targets :: "nat \<Rightarrow> bbs \<Rightarrow> nat set" where
  "bypass_targets b s = fst ` nextBBs s b - {b}"

definition bypassed :: "nat \<Rightarrow> nat set \<Rightarrow> bedge set \<Rightarrow> bedge set" where
  "bypassed b T E = {e \<in> E. fst e \<noteq> b} \<union> {(t, l). (b, l) \<in> E \<and> t \<in> T}"

lemma bypass_edges_eq: "bypass_edges b p s = {(t, l). (b, l) \<in> nextBBs s p \<and> t \<in> bypass_targets b s}"
  by (force simp: bypass_edges_def bypass_targets_def)

lemma bypass_edges_list:
  "finite (nextBBs s p) \<Longrightarrow> finite (nextBBs s b) \<Longrightarrow>
    set (sorted_list_of_set (bypass_edges b p s)) = bypass_edges b p s"
  by (simp add: bypass_edges_def)

lemma bypass_next:
  assumes "finite (nextBBs s p)" "finite (nextBBs s b)"
  shows "nextBBs (bypass b p s) = (nextBBs s)(p := bypassed b (bypass_targets b s) (nextBBs s p))"
  using bypass_edges_list [OF assms] by (simp add: bypass_def Let_def addSuccessors_eq bypassed_def bypass_edges_eq)

lemma bypass_prev:
  assumes "finite (nextBBs s p)" "finite (nextBBs s b)"
  shows "x \<in> prevBBs (bypass b p s) t \<longleftrightarrow> x \<in> prevBBs s t \<or> x = p \<and> (\<exists>l. (t, l) \<in> bypass_edges b p s)"
  using bypass_edges_list [OF assms] by (force simp: bypass_def Let_def addSuccessors_eq image_iff)

lemma bypass_deps: "controlDeps (bypass b p s) = controlDeps s" "revControlDeps (bypass b p s) = revControlDeps s"
  by (simp_all add: bypass_def Let_def addSuccessors_eq)

lemma bypassed_idem: "b \<notin> T \<Longrightarrow> bypassed b T (bypassed b T E) = bypassed b T E"
  by (auto simp: bypassed_def)

lemma bypassed_none: "\<forall>l. (b, l) \<notin> E \<Longrightarrow> bypassed b T E = E"
  by (auto simp: bypassed_def)

lemma bypass_targets_bypass:
  assumes "finite (nextBBs s p)" "finite (nextBBs s b)"
  shows "bypass_targets b (bypass b p s) = bypass_targets b s"
  by (force simp: bypass_targets_def bypass_next [OF assms] bypassed_def)

lemma finite_bypassed:
  assumes "finite E" "finite T"
  shows "finite (bypassed b T E)"
proof -
  have "bypassed b T E \<subseteq> E \<union> T \<times> snd ` E" by (force simp: bypassed_def)
  then show ?thesis using assms by (meson finite_SigmaI finite_Un finite_imageI finite_subset)
qed

text \<open>The state after the predecessors \<open>ps\<close> have been reconnected.\<close>

lemma isolate_loop:
  fixes b s
  assumes wf: "cfg_wf s"
  defines "T \<equiv> bypass_targets b s"
  shows "nextBBs (foldl (\<lambda>s p. bypass b p s) s ps) =
      (\<lambda>p. if p \<in> set ps then bypassed b T (nextBBs s p) else nextBBs s p) \<and>
    bypass_targets b (foldl (\<lambda>s p. bypass b p s) s ps) = T \<and>
    (\<forall>x t. t \<noteq> b \<longrightarrow> x \<in> prevBBs (foldl (\<lambda>s p. bypass b p s) s ps) t \<longleftrightarrow>
      (\<exists>l. (t, l) \<in> nextBBs (foldl (\<lambda>s p. bypass b p s) s ps) x)) \<and>
    (\<forall>t. prevBBs (foldl (\<lambda>s p. bypass b p s) s ps) t \<subseteq> prevBBs s t \<union> set ps)"
proof (induction ps rule: rev_induct)
  case Nil
  then show ?case using cfg_wf_prev [OF wf] by (simp add: T_def)
next
  case (snoc p ps)
  define u where "u = foldl (\<lambda>s p. bypass b p s) s ps"
  from snoc have IH: "nextBBs u = (\<lambda>p. if p \<in> set ps then bypassed b T (nextBBs s p) else nextBBs s p)"
    "bypass_targets b u = T" "\<And>x t. t \<noteq> b \<Longrightarrow> x \<in> prevBBs u t \<longleftrightarrow> (\<exists>l. (t, l) \<in> nextBBs u x)"
    "\<And>t. prevBBs u t \<subseteq> prevBBs s t \<union> set ps"
    by (auto simp: u_def)
  have fT: "finite T" using cfg_wf_fin(1) [OF wf] by (simp add: T_def bypass_targets_def)
  have fin: "finite (nextBBs u a)" for a using finite_bypassed [OF cfg_wf_fin(1) [OF wf] fT] cfg_wf_fin(1) [OF wf] by (simp add: IH(1))
  have bT: "b \<notin> T" by (simp add: T_def bypass_targets_def)
  have n: "nextBBs (bypass b p u) = (nextBBs u)(p := bypassed b T (nextBBs u p))"
    by (simp only: bypass_next [OF fin fin] IH(2))
  have 1: "nextBBs (bypass b p u) = (\<lambda>q. if q \<in> set (ps @ [p]) then bypassed b T (nextBBs s q) else nextBBs s q)"
    by (simp add: n IH(1) fun_eq_iff bypassed_idem [OF bT])
  have 3: "x \<in> prevBBs (bypass b p u) t \<longleftrightarrow> (\<exists>l. (t, l) \<in> nextBBs (bypass b p u) x)" if "t \<noteq> b" for x t
    using that by (auto simp: n bypass_prev [OF fin fin] IH(2,3) bypass_edges_eq bypassed_def)
  have 4: "prevBBs (bypass b p u) t \<subseteq> prevBBs s t \<union> set (ps @ [p])" for t
    using IH(4) [of t] by (auto simp: bypass_prev [OF fin fin])
  show ?case using 1 3 4 bypass_targets_bypass [OF fin fin] by (simp add: u_def [symmetric] IH(2))
qed

lemma isolate_loop_deps:
  "controlDeps (foldl (\<lambda>s p. bypass b p s) s ps) = controlDeps s"
  "revControlDeps (foldl (\<lambda>s p. bypass b p s) s ps) = revControlDeps s"
  by (induction ps rule: rev_induct) (simp_all add: bypass_deps)

text \<open>The other loops.\<close>

lemma removeSuccessors_loop:
  "nextBBs (foldl (\<lambda>s e. s\<lparr>prevBBs := (prevBBs s)(fst e := prevBBs s (fst e) - {b})\<rparr>) s es) = nextBBs s \<and>
   controlDeps (foldl (\<lambda>s e. s\<lparr>prevBBs := (prevBBs s)(fst e := prevBBs s (fst e) - {b})\<rparr>) s es) = controlDeps s \<and>
   revControlDeps (foldl (\<lambda>s e. s\<lparr>prevBBs := (prevBBs s)(fst e := prevBBs s (fst e) - {b})\<rparr>) s es) = revControlDeps s \<and>
   prevBBs (foldl (\<lambda>s e. s\<lparr>prevBBs := (prevBBs s)(fst e := prevBBs s (fst e) - {b})\<rparr>) s es) =
     (\<lambda>t. if t \<in> fst ` set es then prevBBs s t - {b} else prevBBs s t)"
  by (induction es arbitrary: s) (auto simp: fun_eq_iff)

lemma removeSuccessors_eq:
  assumes "finite (nextBBs s b)"
  shows "nextBBs (removeSuccessors b s) = (nextBBs s)(b := {})"
    "prevBBs (removeSuccessors b s) = (\<lambda>t. if t \<in> fst ` nextBBs s b then prevBBs s t - {b} else prevBBs s t)"
    "controlDeps (removeSuccessors b s) = controlDeps s" "revControlDeps (removeSuccessors b s) = revControlDeps s"
  using removeSuccessors_loop [of b s "sorted_list_of_set (nextBBs s b)"] assms
  by (simp_all add: removeSuccessors_def Let_def fun_eq_iff)

lemma erase_deps_loops:
  "foldl (\<lambda>s c. if c = b then s else s\<lparr>revControlDeps := (revControlDeps s)(c := revControlDeps s c - {b})\<rparr>) s cs =
    s\<lparr>revControlDeps := (\<lambda>c. if c \<noteq> b \<and> c \<in> set cs then revControlDeps s c - {b} else revControlDeps s c)\<rparr>"
  "foldl (\<lambda>s c. if c = b then s else s\<lparr>controlDeps := (controlDeps s)(c := controlDeps s c - {b})\<rparr>) s cs =
    s\<lparr>controlDeps := (\<lambda>c. if c \<noteq> b \<and> c \<in> set cs then controlDeps s c - {b} else controlDeps s c)\<rparr>"
  by (induction cs arbitrary: s) (auto simp: fun_eq_iff)

lemma erase_deps_eq:
  assumes "\<And>a c. c \<in> controlDeps s a \<longleftrightarrow> a \<in> revControlDeps s c"
    and "\<And>a. finite (controlDeps s a)" "\<And>a. finite (revControlDeps s a)"
  shows "nextBBs (erase_deps b s) = nextBBs s" "prevBBs (erase_deps b s) = prevBBs s"
    "controlDeps (erase_deps b s) a = (if a = b then {} else controlDeps s a - {b})"
    "revControlDeps (erase_deps b s) a = (if a = b then {} else revControlDeps s a - {b})"
  using assms by (auto simp: erase_deps_def erase_deps_loops Let_def)

section \<open>Properties\<close>

text \<open>C31: \<open>isolate\<close> keeps the graph consistent (an edge and its reverse, a control dependence and its
  reverse are there together), leaves the block with no edge and no dependence, connects every
  other predecessor to all other successors of the block with the label of its edge to the
  block, and removes only the dependences of the block.\<close>

theorem bb_isolate_correct:
  assumes wf: "cfg_wf s"
  shows "cfg_wf (bb_isolate b s) \<and> nextBBs (bb_isolate b s) b = {} \<and> prevBBs (bb_isolate b s) b = {} \<and>
    (\<forall>p t l. p \<noteq> b \<longrightarrow> (t, l) \<in> nextBBs (bb_isolate b s) p \<longleftrightarrow>
      t \<noteq> b \<and> ((t, l) \<in> nextBBs s p \<or> (b, l) \<in> nextBBs s p \<and> (\<exists>m. (t, m) \<in> nextBBs s b))) \<and>
    (\<forall>a. controlDeps (bb_isolate b s) a = (if a = b then {} else controlDeps s a - {b}))"
proof -
  define ps where "ps = sorted_list_of_set (prevBBs s b)"
  define s1 where "s1 = foldl (\<lambda>s p. bypass b p s) s ps"
  define s2 where "s2 = removeSuccessors b s1"
  define s3 where "s3 = s2\<lparr>prevBBs := (prevBBs s2)(b := {})\<rparr>"
  define T where "T = bypass_targets b s"
  have ps: "set ps = prevBBs s b" using cfg_wf_fin(2) [OF wf] by (simp add: ps_def)
  note loop = isolate_loop [OF wf, of b ps, folded s1_def T_def]
  have T: "finite T" "b \<notin> T" using cfg_wf_fin(1) [OF wf] by (simp_all add: T_def bypass_targets_def)
  have n1: "nextBBs s1 p = bypassed b T (nextBBs s p)" for p
    using loop ps bypassed_none [of b "nextBBs s p" T] cfg_wf_prev [OF wf, of p b] by auto
  have fin1: "finite (nextBBs s1 p)" for p unfolding n1 by (rule finite_bypassed [OF cfg_wf_fin(1) [OF wf] T(1)])
  have p1: "x \<in> prevBBs s1 t \<longleftrightarrow> (\<exists>l. (t, l) \<in> nextBBs s1 x)" if "t \<noteq> b" for x t using loop that by blast
  have fp1: "finite (prevBBs s1 t)" for t
    using loop cfg_wf_fin(2) [OF wf] ps by (metis finite_Un finite_subset)
  have b1: "e \<in> nextBBs s1 p \<Longrightarrow> fst e \<noteq> b" for e p using T(2) by (auto simp: n1 bypassed_def)
  note r = removeSuccessors_eq [OF fin1, of b, folded s2_def]
  have deps: "controlDeps s3 = controlDeps s" "revControlDeps s3 = revControlDeps s"
    by (simp_all add: s3_def r s1_def isolate_loop_deps)
  have n3: "nextBBs s3 = (nextBBs s1)(b := {})" by (simp add: s3_def r)
  have p3: "x \<in> prevBBs s3 t \<longleftrightarrow> (\<exists>l. (t, l) \<in> nextBBs s3 x)" for x t
    using p1 [of t x] b1 by (cases "t = b") (force simp: s3_def r n3 split: if_splits)+
  have fp3: "finite (prevBBs s3 t)" for t using fp1 by (simp add: s3_def r)
  have iso: "bb_isolate b s = erase_deps b s3"
    by (simp add: bb_isolate_def Let_def s3_def s2_def s1_def ps_def)
  have dep_wf: "c \<in> controlDeps s a \<longleftrightarrow> a \<in> revControlDeps s c" for a c using wf by (simp add: cfg_wf_def)
  note e = erase_deps_eq [of s3 b, unfolded deps, OF dep_wf cfg_wf_fin(3) [OF wf] cfg_wf_fin(4) [OF wf], folded iso]
  have fin3: "finite (nextBBs s3 a)" for a using fin1 by (simp add: n3)
  have "cfg_wf (bb_isolate b s)"
    unfolding cfg_wf_def e using p3 fp3 fin3 dep_wf cfg_wf_fin(3,4) [OF wf] by auto
  moreover have "nextBBs (bb_isolate b s) b = {}" "prevBBs (bb_isolate b s) b = {}"
    by (simp_all add: e n3) (simp add: s3_def)
  moreover have "(t, l) \<in> nextBBs (bb_isolate b s) p \<longleftrightarrow>
      t \<noteq> b \<and> ((t, l) \<in> nextBBs s p \<or> (b, l) \<in> nextBBs s p \<and> (\<exists>m. (t, m) \<in> nextBBs s b))" if "p \<noteq> b" for p t l
    using that by (force simp: e n3 n1 bypassed_def T_def bypass_targets_def)
  ultimately show ?thesis by (auto simp: e)
qed

definition diamond :: bbs where
  "diamond = \<lparr>bb_nodes = (\<lambda>_. []),
     nextBBs = (\<lambda>b. if b = 0 then {(1, 0), (2, 1)} else if b = 1 then {(3, 0), (1, 1)} else if b = 2 then {(3, 0)} else {}),
     prevBBs = (\<lambda>b. if b = 1 then {0, 1} else if b = 2 then {0} else if b = 3 then {1, 2} else {}),
     controlDeps = (\<lambda>b. if b = 0 then {1, 2} else {}), revControlDeps = (\<lambda>b. if b = 1 \<or> b = 2 then {0} else {}),
     ipostdom = (\<lambda>_. None), idom = (\<lambda>_. None), pd_children = (\<lambda>_. {}), d_children = (\<lambda>_. {}), callSites = (\<lambda>_. {})\<rparr>"

lemma diamond_wf: "cfg_wf diamond"
  by (auto simp: cfg_wf_def diamond_def)

theorem bb_isolate_correct_witness:
  "cfg_wf (bb_isolate 1 diamond) \<and> (3, 0) \<in> nextBBs (bb_isolate 1 diamond) 0 \<and> (2, 1) \<in> nextBBs (bb_isolate 1 diamond) 0 \<and>
    (1, 0) \<notin> nextBBs (bb_isolate 1 diamond) 0 \<and> controlDeps (bb_isolate 1 diamond) 0 = {2}"
  using bb_isolate_correct [OF diamond_wf, of 1] by (auto simp: diamond_def)

lemma removeSuccessor_wf_iff:
  assumes wf: "cfg_wf s"
  shows "cfg_wf (removeSuccessor b (t, l) s) \<longleftrightarrow> (\<forall>m. m \<noteq> l \<longrightarrow> (t, m) \<notin> nextBBs s b)"
proof
  assume "cfg_wf (removeSuccessor b (t, l) s)"
  from cfg_wf_prev [OF this, of b t] show "\<forall>m. m \<noteq> l \<longrightarrow> (t, m) \<notin> nextBBs s b"
    by (auto simp: removeSuccessor_def)
next
  assume "\<forall>m. m \<noteq> l \<longrightarrow> (t, m) \<notin> nextBBs s b"
  then show "cfg_wf (removeSuccessor b (t, l) s)"
    using wf unfolding cfg_wf_def removeSuccessor_def by auto
qed

lemma removeSuccessorsTarget_wf_iff:
  assumes wf: "cfg_wf s"
  shows "cfg_wf (snd (removeSuccessorsTarget b t s)) \<longleftrightarrow> (\<forall>m. (t, m) \<notin> nextBBs s b)"
proof
  assume "cfg_wf (snd (removeSuccessorsTarget b t s))"
  from cfg_wf_prev [OF this, of b t] show "\<forall>m. (t, m) \<notin> nextBBs s b"
    using cfg_wf_prev [OF wf, of b t] by (auto simp: removeSuccessorsTarget_def)
next
  assume "\<forall>m. (t, m) \<notin> nextBBs s b"
  then have "{e \<in> nextBBs s b. fst e \<noteq> t} = nextBBs s b" by auto
  then show "cfg_wf (snd (removeSuccessorsTarget b t s))"
    using wf by (simp add: removeSuccessorsTarget_def cfg_wf_def)
qed

lemma removePredecessors_loop:
  "foldl (\<lambda>s p. s\<lparr>nextBBs := (nextBBs s)(p := nextBBs s p - {(b, 0)})\<rparr>) s ps =
    s\<lparr>nextBBs := (\<lambda>p. if p \<in> set ps then nextBBs s p - {(b, 0)} else nextBBs s p)\<rparr>"
  by (induction ps arbitrary: s) (auto simp: fun_eq_iff)

lemma removePredecessors_eq:
  assumes wf: "cfg_wf s"
  shows "nextBBs (removePredecessors b s) = (\<lambda>p. nextBBs s p - {(b, 0)})"
    "prevBBs (removePredecessors b s) = (prevBBs s)(b := {})"
    "controlDeps (removePredecessors b s) = controlDeps s" "revControlDeps (removePredecessors b s) = revControlDeps s"
  using cfg_wf_prev [OF wf, of _ b] cfg_wf_fin(2) [OF wf, of b]
  by (auto simp: removePredecessors_def removePredecessors_loop fun_eq_iff)

lemma removePredecessors_wf_iff:
  assumes wf: "cfg_wf s"
  shows "cfg_wf (removePredecessors b s) \<longleftrightarrow> (\<forall>p m. (b, m) \<in> nextBBs s p \<longrightarrow> m = 0)"
proof
  assume "cfg_wf (removePredecessors b s)"
  from cfg_wf_prev [OF this, of _ b] show "\<forall>p m. (b, m) \<in> nextBBs s p \<longrightarrow> m = 0"
    by (auto simp: removePredecessors_eq [OF wf])
next
  assume "\<forall>p m. (b, m) \<in> nextBBs s p \<longrightarrow> m = 0"
  then show "cfg_wf (removePredecessors b s)"
    using wf unfolding cfg_wf_def removePredecessors_eq [OF wf] by auto
qed

text \<open>When the other ways to remove edges keep the graph consistent. \<open>removeSuccessor\<close> forgets
  the predecessor although a parallel edge with another label stays, \<open>removeSuccessors\<close> for one
  target never removes the reverse edge, and \<open>removePredecessors\<close> removes only edges labelled 0.\<close>

theorem bb_removals_consistent_iff:
  assumes "cfg_wf s"
  shows "(cfg_wf (removeSuccessor b (t, l) s) \<longleftrightarrow> (\<forall>m. m \<noteq> l \<longrightarrow> (t, m) \<notin> nextBBs s b)) \<and>
    (cfg_wf (snd (removeSuccessorsTarget b t s)) \<longleftrightarrow> (\<forall>m. (t, m) \<notin> nextBBs s b)) \<and>
    (cfg_wf (removePredecessors b s) \<longleftrightarrow> (\<forall>p m. (b, m) \<in> nextBBs s p \<longrightarrow> m = 0))"
  using removeSuccessor_wf_iff [OF assms] removeSuccessorsTarget_wf_iff [OF assms]
    removePredecessors_wf_iff [OF assms] by blast

theorem bb_removals_consistent_iff_witness:
  "cfg_wf (removeSuccessor 0 (1, 0) diamond) \<and> \<not> cfg_wf (snd (removeSuccessorsTarget 0 2 diamond)) \<and>
    \<not> cfg_wf (removePredecessors 2 diamond) \<and> cfg_wf (removePredecessors 3 diamond)"
proof -
  have next_edges: "(t, l) \<in> nextBBs diamond p \<longleftrightarrow>
      (p, t, l) \<in> {(0, 1, 0), (0, 2, 1), (1, 3, 0), (1, 1, 1), (2, 3, 0)}" for p t l
    by (auto simp: diamond_def)
  have "cfg_wf (removeSuccessor 0 (1, 0) diamond)"
    using bb_removals_consistent_iff [OF diamond_wf, of 0 1 0] by (simp add: next_edges)
  moreover have "\<not> cfg_wf (snd (removeSuccessorsTarget 0 2 diamond))"
    using bb_removals_consistent_iff [OF diamond_wf, of 0 2 0] by (simp add: next_edges)
  moreover have "\<not> cfg_wf (removePredecessors 2 diamond)"
    using bb_removals_consistent_iff [OF diamond_wf, of 2 0 0] by (simp add: next_edges)
  moreover have "cfg_wf (removePredecessors 3 diamond)"
    using bb_removals_consistent_iff [OF diamond_wf, of 3 0 0] by (simp add: next_edges)
  ultimately show ?thesis by blast
qed

end
