(* ===== verification/Points_To.thy ===== *)
theory Points_To
  imports Offsets Bitsets "HOL-Library.Product_Lexorder"
begin

text \<open>
  Points-to sets (\<^verbatim>\<open>include/dg/PointerAnalysis/Pointer.h\<close>, \<^verbatim>\<open>PointsToSets/\<close>): what a points-to set
  promises, as a set of pointers, and the contract the implementations are proved to keep. A
  pointer is a target (the number of a \<open>PSNode\<close>, 0 for the null pointer) and an offset; the order of
  pointers is the lexicographic one. Some classes number targets or pointers in static tables
  shared by all their objects: every operation is given the table and returns it.
\<close>

section \<open>Pointers\<close>

type_synonym ptr = "nat \<times> Offset"

definition any_offset :: "ptr \<Rightarrow> ptr" where
  "any_offset p = (fst p, getUnknown)"

section \<open>The abstract set\<close>

text \<open>Adding a pointer with unknown offset replaces all pointers to the target; a pointer to a target
  that is there with unknown offset is not added.\<close>

definition spec_add :: "ptr \<Rightarrow> ptr set \<Rightarrow> ptr set" where
  "spec_add p S =
     (if any_offset p \<in> S then S
      else if isUnknown (snd p) then insert p {q \<in> S. fst q \<noteq> fst p}
      else insert p S)"

definition spec_may :: "ptr \<Rightarrow> ptr set \<Rightarrow> bool" where
  "spec_may p S = (p \<in> S \<or> any_offset p \<in> S)"

section \<open>Operations\<close>

record ('g, 's) pts_ops =
  o_ids :: 'g
  o_empty :: 's
  o_add :: "ptr \<Rightarrow> 'g \<Rightarrow> 's \<Rightarrow> (bool \<times> 'g \<times> 's) option"
  o_unite :: "'s \<Rightarrow> 's \<Rightarrow> bool \<times> 's"
  o_remove :: "ptr \<Rightarrow> 'g \<Rightarrow> 's \<Rightarrow> (bool \<times> 'g \<times> 's) option"
  o_removeAny :: "nat \<Rightarrow> 'g \<Rightarrow> 's \<Rightarrow> (bool \<times> 'g \<times> 's) option"
  o_clear :: "'s \<Rightarrow> 's"
  o_pointsTo :: "ptr \<Rightarrow> 'g \<Rightarrow> 's \<Rightarrow> bool \<times> 'g"
  o_mayPointTo :: "ptr \<Rightarrow> 'g \<Rightarrow> 's \<Rightarrow> bool \<times> 'g"
  o_mustPointTo :: "ptr \<Rightarrow> 'g \<Rightarrow> 's \<Rightarrow> (bool \<times> 'g) option"
  o_pointsToTarget :: "nat \<Rightarrow> 'g \<Rightarrow> 's \<Rightarrow> bool \<times> 'g"
  o_isSingleton :: "'s \<Rightarrow> bool"
  o_isEmpty :: "'s \<Rightarrow> bool"
  o_size :: "'s \<Rightarrow> nat"
  o_elems :: "'g \<Rightarrow> 's \<Rightarrow> ptr list option"

text \<open>A program that uses several sets, and what it observes. The result of \<open>remove\<close> is not observed: the
  classes do not agree on it.\<close>

datatype pts_op =
    Add nat ptr | Unite nat nat | RemoveAny nat nat | Clear nat | Swap nat nat
  | PointsTo nat ptr | MayPointTo nat ptr | PointsToTarget nat nat | IsEmpty nat | SizeOf nat | Elems nat
  | Remove nat ptr | IsSingleton nat | MustPointTo nat ptr

datatype obs = Answer bool | Count nat | Ptrs "ptr set" | Done

fun pts_exec :: "('g, 's) pts_ops \<Rightarrow> pts_op \<Rightarrow> 'g \<times> (nat \<Rightarrow> 's) \<Rightarrow> (obs \<times> 'g \<times> (nat \<Rightarrow> 's)) option" where
  "pts_exec M (Add x p) (g, v) = 
     map_option (\<lambda>(c, g', s'). (Answer c, g', v(x := s'))) (o_add M p g (v x))"
| "pts_exec M (Unite x y) (g, v) = (case o_unite M (v x) (v y) of (c, s') \<Rightarrow> Some (Answer c, g, v(x := s')))"
| "pts_exec M (RemoveAny x t) (g, v) =
     map_option (\<lambda>(c, g', s'). (Answer c, g', v(x := s'))) (o_removeAny M t g (v x))"
| "pts_exec M (Clear x) (g, v) = Some (Done, g, v(x := o_clear M (v x)))"
| "pts_exec M (Swap x y) (g, v) = Some (Done, g, v(x := v y, y := v x))"
| "pts_exec M (PointsTo x p) (g, v) = (case o_pointsTo M p g (v x) of (b, g') \<Rightarrow> Some (Answer b, g', v))"
| "pts_exec M (MayPointTo x p) (g, v) = (case o_mayPointTo M p g (v x) of (b, g') \<Rightarrow> Some (Answer b, g', v))"
| "pts_exec M (PointsToTarget x t) (g, v) = (case o_pointsToTarget M t g (v x) of (b, g') \<Rightarrow> Some (Answer b, g', v))"
| "pts_exec M (IsEmpty x) (g, v) = Some (Answer (o_isEmpty M (v x)), g, v)"
| "pts_exec M (SizeOf x) (g, v) = Some (Count (o_size M (v x)), g, v)"
| "pts_exec M (Elems x) (g, v) = map_option (\<lambda>ps. (Ptrs (set ps), g, v)) (o_elems M g (v x))"
| "pts_exec M (Remove x p) (g, v) =
     map_option (\<lambda>(c, g', s'). (Done, g', v(x := s'))) (o_remove M p g (v x))"
| "pts_exec M (IsSingleton x) (g, v) = Some (Answer (o_isSingleton M (v x)), g, v)"
| "pts_exec M (MustPointTo x p) (g, v) = map_option (\<lambda>(b, g'). (Answer b, g', v)) (o_mustPointTo M p g (v x))"

fun pts_run :: "('g, 's) pts_ops \<Rightarrow> pts_op list \<Rightarrow> 'g \<times> (nat \<Rightarrow> 's) \<Rightarrow> obs list option" where
  "pts_run M [] gv = Some []"
| "pts_run M (op # ops) gv = Option.bind (pts_exec M op gv) (\<lambda>(r, gv'). map_option ((#) r) (pts_run M ops gv'))"

definition pts_observe :: "('g, 's) pts_ops \<Rightarrow> pts_op list \<Rightarrow> obs list option" where
  "pts_observe M ops = pts_run M ops (o_ids M, \<lambda>_. o_empty M)"

text \<open>The same on sets of pointers; \<open>None\<close> is the assertion of \<open>mustPointTo\<close>.\<close>

fun spec_exec :: "pts_op \<Rightarrow> (nat \<Rightarrow> ptr set) \<Rightarrow> (obs \<times> (nat \<Rightarrow> ptr set)) option" where
  "spec_exec (Add x p) v = Some (Answer (spec_add p (v x) \<noteq> v x), v(x := spec_add p (v x)))"
| "spec_exec (Unite x y) v = Some (Answer (\<not> v y \<subseteq> v x), v(x := v x \<union> v y))"
| "spec_exec (RemoveAny x t) v = Some (Answer (\<exists>p \<in> v x. fst p = t), v(x := {p \<in> v x. fst p \<noteq> t}))"
| "spec_exec (Clear x) v = Some (Done, v(x := {}))"
| "spec_exec (Swap x y) v = Some (Done, v(x := v y, y := v x))"
| "spec_exec (PointsTo x p) v = Some (Answer (p \<in> v x), v)"
| "spec_exec (MayPointTo x p) v = Some (Answer (spec_may p (v x)), v)"
| "spec_exec (PointsToTarget x t) v = Some (Answer (\<exists>p \<in> v x. fst p = t), v)"
| "spec_exec (IsEmpty x) v = Some (Answer (v x = {}), v)"
| "spec_exec (SizeOf x) v = Some (Count (card (v x)), v)"
| "spec_exec (Elems x) v = Some (Ptrs (v x), v)"
| "spec_exec (Remove x p) v = Some (Done, v(x := v x - {p}))"
| "spec_exec (IsSingleton x) v = Some (Answer (card (v x) = 1), v)"
| "spec_exec (MustPointTo x p) v = (if isUnknown (snd p) then None else Some (Answer (v x = {p}), v))"

fun spec_run :: "pts_op list \<Rightarrow> (nat \<Rightarrow> ptr set) \<Rightarrow> obs list option" where
  "spec_run [] v = Some []"
| "spec_run (op # ops) v = Option.bind (spec_exec op v) (\<lambda>(r, v'). map_option ((#) r) (spec_run ops v'))"

text \<open>The sets at the end of a program.\<close>

fun pts_final :: "('g, 's) pts_ops \<Rightarrow> pts_op list \<Rightarrow> 'g \<times> (nat \<Rightarrow> 's) \<Rightarrow> ('g \<times> (nat \<Rightarrow> 's)) option" where
  "pts_final M [] gv = Some gv"
| "pts_final M (op # ops) gv = Option.bind (pts_exec M op gv) (\<lambda>(_, gv'). pts_final M ops gv')"

fun spec_final :: "pts_op list \<Rightarrow> (nat \<Rightarrow> ptr set) \<Rightarrow> (nat \<Rightarrow> ptr set) option" where
  "spec_final [] v = Some v"
| "spec_final (op # ops) v = Option.bind (spec_exec op v) (\<lambda>(_, v'). spec_final ops v')"

section \<open>The contract\<close>

text \<open>\<open>used g\<close> ids have been given; an operation gives at most three. Tables only grow (\<open>gle\<close>), and
  sets keep their meaning when they do. \<open>supports\<close> says which operations a class implements as the
  abstract set does.\<close>

definition max_ids :: nat where
  "max_ids = 2 ^ 57"

locale points_to_set =
  fixes M :: "('g, 's) pts_ops" and used :: "'g \<Rightarrow> nat" and gle :: "'g \<Rightarrow> 'g \<Rightarrow> bool"
    and inv :: "'g \<Rightarrow> 's \<Rightarrow> bool" and \<alpha> :: "'g \<Rightarrow> 's \<Rightarrow> ptr set" and supports :: "pts_op \<Rightarrow> bool"
  assumes ids0: "gle (o_ids M) (o_ids M)" "used (o_ids M) = 0"
    and empty_ok: "gle g g \<Longrightarrow> inv g (o_empty M) \<and> \<alpha> g (o_empty M) = {}"
    and gle_wf: "gle g g' \<Longrightarrow> gle g g \<and> gle g' g'"
    and gle_trans: "gle g g' \<Longrightarrow> gle g' g'' \<Longrightarrow> gle g g''"
    and gle_keeps: "gle g g' \<Longrightarrow> inv g s \<Longrightarrow> inv g' s \<and> \<alpha> g' s = \<alpha> g s"
    and add_ok: "gle g g \<Longrightarrow> used g + 3 \<le> max_ids \<Longrightarrow> inv g s \<Longrightarrow>
      \<exists>g' s'. o_add M p g s = Some (spec_add p (\<alpha> g s) \<noteq> \<alpha> g s, g', s') \<and>
        gle g g' \<and> used g' \<le> used g + 3 \<and> inv g' s' \<and> \<alpha> g' s' = spec_add p (\<alpha> g s)"
    and unite_ok: "gle g g \<Longrightarrow> inv g s \<Longrightarrow> inv g r \<Longrightarrow> o_unite M s r = (c, s') \<Longrightarrow>
      inv g s' \<and> \<alpha> g s' = \<alpha> g s \<union> \<alpha> g r \<and> c = (\<not> \<alpha> g r \<subseteq> \<alpha> g s)"
    and removeAny_ok: "supports (RemoveAny x t) \<Longrightarrow> gle g g \<Longrightarrow> used g + 3 \<le> max_ids \<Longrightarrow> inv g s \<Longrightarrow>
      \<exists>g' s'. o_removeAny M t g s = Some (\<exists>p \<in> \<alpha> g s. fst p = t, g', s') \<and>
        gle g g' \<and> used g' \<le> used g + 3 \<and> inv g' s' \<and> \<alpha> g' s' = {p \<in> \<alpha> g s. fst p \<noteq> t}"
    and clear_ok: "gle g g \<Longrightarrow> inv g s \<Longrightarrow> inv g (o_clear M s) \<and> \<alpha> g (o_clear M s) = {}"
    and pointsTo_ok: "gle g g \<Longrightarrow> used g + 1 \<le> max_ids \<Longrightarrow> inv g s \<Longrightarrow> o_pointsTo M p g s = (b, g') \<Longrightarrow>
      gle g g' \<and> used g' \<le> used g + 1 \<and> b = (p \<in> \<alpha> g s)"
    and mayPointTo_def: "o_mayPointTo M p g s = (let (b, g') = o_pointsTo M p g s in
      if b then (True, g') else o_pointsTo M (any_offset p) g' s)"
    and target_ok: "gle g g \<Longrightarrow> used g + 3 \<le> max_ids \<Longrightarrow> inv g s \<Longrightarrow> o_pointsToTarget M t g s = (b, g') \<Longrightarrow>
      gle g g' \<and> used g' \<le> used g + 3 \<and> b = (\<exists>p \<in> \<alpha> g s. fst p = t)"
    and isEmpty_ok: "gle g g \<Longrightarrow> inv g s \<Longrightarrow> o_isEmpty M s = (\<alpha> g s = {})"
    and size_ok: "gle g g \<Longrightarrow> inv g s \<Longrightarrow> o_size M s = card (\<alpha> g s)"
    and elems_ok: "gle g g \<Longrightarrow> inv g s \<Longrightarrow> \<exists>ps. o_elems M g s = Some ps \<and> set ps = \<alpha> g s"
    and remove_ok: "supports (Remove x p) \<Longrightarrow> gle g g \<Longrightarrow> used g + 3 \<le> max_ids \<Longrightarrow> inv g s \<Longrightarrow>
      \<exists>c g' s'. o_remove M p g s = Some (c, g', s') \<and> gle g g' \<and> used g' \<le> used g + 3 \<and>
        inv g' s' \<and> \<alpha> g' s' = \<alpha> g s - {p}"
    and singleton_ok: "supports (IsSingleton x) \<Longrightarrow> gle g g \<Longrightarrow> inv g s \<Longrightarrow> o_isSingleton M s = (card (\<alpha> g s) = 1)"
    and must_def: "supports (MustPointTo x p) \<Longrightarrow> o_mustPointTo M p g s = (if isUnknown (snd p) then None
      else let (b, g') = o_pointsTo M p g s in Some (b \<and> o_isSingleton M s, g'))"
    and must_singleton: "supports (MustPointTo x p) \<Longrightarrow> supports (IsSingleton x)"
begin

lemma may_ok:
  assumes "gle g g" "used g + 3 \<le> max_ids" "inv g s" "o_mayPointTo M p g s = (b, g')"
  shows "gle g g' \<and> used g' \<le> used g + 3 \<and> b = spec_may p (\<alpha> g s)"
proof -
  obtain b1 g1 where 1: "o_pointsTo M p g s = (b1, g1)" by fastforce
  have p1: "gle g g1" "used g1 \<le> used g + 1" "b1 = (p \<in> \<alpha> g s)" using pointsTo_ok [OF assms(1) _ assms(3) 1] assms(2) by auto
  show ?thesis
  proof (cases b1)
    case True
    then show ?thesis using assms(4) 1 p1 by (simp add: mayPointTo_def spec_may_def)
  next
    case False
    have k: "gle g1 g1" "inv g1 s" "\<alpha> g1 s = \<alpha> g s" using gle_wf [OF p1(1)] gle_keeps [OF p1(1) assms(3)] by auto
    have 2: "o_pointsTo M (any_offset p) g1 s = (b, g')" using assms(4) 1 False by (simp add: mayPointTo_def)
    have "gle g1 g'" "used g' \<le> used g1 + 1" "b = (any_offset p \<in> \<alpha> g s)"
      using pointsTo_ok [OF k(1) _ k(2) 2] p1(2) assms(2) k(3) by auto
    then show ?thesis using p1 False gle_trans by (auto simp: spec_may_def)
  qed
qed

text \<open>The states of a program on the sets and of the same program on the abstract sets.\<close>

definition pts_rel :: "nat \<Rightarrow> 'g \<times> (nat \<Rightarrow> 's) \<Rightarrow> (nat \<Rightarrow> ptr set) \<Rightarrow> bool" where
  "pts_rel k gv S = (case gv of (g, v) \<Rightarrow> gle g g \<and> used g \<le> 3 * k \<and> (\<forall>x. inv g (v x) \<and> \<alpha> g (v x) = S x))"

lemma pts_relI:
  assumes "pts_rel k (g, v) S" and "gle g g'" and "used g' \<le> used g + 3" and "inv g' s'" and "\<alpha> g' s' = T"
  shows "pts_rel (Suc k) (g', v(x := s')) (S(x := T))"
  using assms gle_keeps gle_wf by (auto simp: pts_rel_def)

lemma pts_rel_ids:
  assumes "pts_rel k (g, v) S" and "gle g g'" and "used g' \<le> used g + 3"
  shows "pts_rel (Suc k) (g', v) S"
  using assms gle_keeps gle_wf by (auto simp: pts_rel_def)

lemma pts_rel_set:
  assumes "pts_rel k (g, v) S" and "inv g s'" and "\<alpha> g s' = T"
  shows "pts_rel (Suc k) (g, v(x := s')) (S(x := T))"
  using assms by (auto simp: pts_rel_def)

lemma pts_rel_Suc: "pts_rel k gv S \<Longrightarrow> pts_rel (Suc k) gv S"
  by (auto simp: pts_rel_def split: prod.splits)

lemma exec_ok:
  assumes rel: "pts_rel k (g, v) S" and room: "3 * k + 3 \<le> max_ids" and sup: "supports op"
  shows "(pts_exec M op (g, v) = None \<and> spec_exec op S = None) \<or>
    (\<exists>r gv' S'. pts_exec M op (g, v) = Some (r, gv') \<and> spec_exec op S = Some (r, S') \<and> pts_rel (Suc k) gv' S')"
proof -
  have g: "gle g g" "used g + 3 \<le> max_ids" and v: "inv g (v x)" "\<alpha> g (v x) = S x" for x
    using rel room by (auto simp: pts_rel_def)
  show ?thesis
  proof (cases op)
    case (Add x p)
    from add_ok [OF g v(1) [of x], of p] show ?thesis using Add pts_relI [OF rel] by (fastforce simp: v(2))
  next
    case (Unite x y)
    obtain c s' where a: "o_unite M (v x) (v y) = (c, s')" by fastforce
    from unite_ok [OF g(1) v(1) v(1) a] show ?thesis using Unite a pts_rel_set [OF rel] by (auto simp: v(2))
  next
    case (RemoveAny x t)
    from removeAny_ok [OF _ g v(1) [of x], of x t] sup show ?thesis using RemoveAny pts_relI [OF rel] by (fastforce simp: v(2))
  next
    case (Clear x)
    then show ?thesis using clear_ok [OF g(1) v(1)] pts_rel_set [OF rel] by auto
  next
    case (Swap x y)
    then show ?thesis using rel by (auto simp: pts_rel_def)
  next
    case (PointsTo x p)
    obtain b g' where a: "o_pointsTo M p g (v x) = (b, g')" by fastforce
    have "gle g g' \<and> used g' \<le> used g + 1 \<and> b = (p \<in> S x)" using pointsTo_ok [OF g(1) _ v(1) a] g(2) by (simp add: v(2))
    then show ?thesis using PointsTo a pts_rel_ids [OF rel, of g'] by auto
  next
    case (MayPointTo x p)
    obtain b g' where a: "o_mayPointTo M p g (v x) = (b, g')" by fastforce
    from may_ok [OF g v(1) a] show ?thesis using MayPointTo a pts_rel_ids [OF rel, of g'] by (auto simp: v(2))
  next
    case (PointsToTarget x t)
    obtain b g' where a: "o_pointsToTarget M t g (v x) = (b, g')" by fastforce
    from target_ok [OF g v(1) a] show ?thesis using PointsToTarget a pts_rel_ids [OF rel, of g'] by (auto simp: v(2))
  next
    case (IsEmpty x)
    then show ?thesis using isEmpty_ok [OF g(1) v(1)] pts_rel_Suc [OF rel] by (simp add: v(2))
  next
    case (SizeOf x)
    then show ?thesis using size_ok [OF g(1) v(1)] pts_rel_Suc [OF rel] by (simp add: v(2))
  next
    case (Elems x)
    then show ?thesis using elems_ok [OF g(1) v(1) [of x]] pts_rel_Suc [OF rel] by (auto simp: v(2))
  next
    case (Remove x p)
    from remove_ok [OF _ g v(1) [of x], of x p] sup show ?thesis using Remove pts_relI [OF rel] by (fastforce simp: v(2))
  next
    case (IsSingleton x)
    then show ?thesis using singleton_ok [OF _ g(1) v(1), of x] sup pts_rel_Suc [OF rel] by (simp add: v(2))
  next
    case (MustPointTo x p)
    show ?thesis
    proof (cases "isUnknown (snd p)")
      case True
      then show ?thesis using MustPointTo sup by (simp add: must_def)
    next
      case False
      obtain b g' where a: "o_pointsTo M p g (v x) = (b, g')" by fastforce
      have 1: "gle g g' \<and> used g' \<le> used g + 1 \<and> b = (p \<in> S x)" using pointsTo_ok [OF g(1) _ v(1) a] g(2) by (simp add: v(2))
      have "(p \<in> S x \<and> o_isSingleton M (v x)) = (S x = {p})"
        using singleton_ok [OF _ g(1) v(1) [of x], of x] must_singleton [of x p] sup MustPointTo by (auto simp: v(2) card_1_singleton_iff)
      then show ?thesis using MustPointTo False a 1 pts_rel_ids [OF rel, of g'] by (auto simp: must_def [OF sup [unfolded MustPointTo]])
    qed
  qed
qed

lemma rel_start: "pts_rel 0 (o_ids M, \<lambda>_. o_empty M) (\<lambda>_. {})"
  using ids0 empty_ok by (simp add: pts_rel_def)

lemma run_ok:
  "pts_rel k gv S \<Longrightarrow> 3 * (k + length ops) \<le> max_ids \<Longrightarrow> list_all supports ops \<Longrightarrow>
    pts_run M ops gv = spec_run ops S"
proof (induction ops arbitrary: k gv S)
  case (Cons op ops)
  obtain g v where gv: "gv = (g, v)" by (cases gv)
  have room: "3 * k + 3 \<le> max_ids" and sup: "supports op" using Cons.prems(2,3) by simp_all
  from exec_ok [OF Cons.prems(1) [unfolded gv] room sup, folded gv] show ?case
  proof (elim disjE exE conjE)
    fix r gv' S' assume "pts_exec M op gv = Some (r, gv')" "spec_exec op S = Some (r, S')" "pts_rel (Suc k) gv' S'"
    then show ?thesis using Cons.IH [of "Suc k" gv' S'] Cons.prems(2,3) by simp
  qed simp
qed simp

lemma observe_ok:
  "3 * length ops \<le> max_ids \<Longrightarrow> list_all supports ops \<Longrightarrow> pts_observe M ops = spec_run ops (\<lambda>_. {})"
  unfolding pts_observe_def using run_ok [OF rel_start] by simp

end

end
