(* ===== verification/Points_To_Sets.thy ===== *)
theory Points_To_Sets
  imports Points_To
begin

text \<open>
  The points-to sets without tables: \<^verbatim>\<open>SimplePointsToSet.h\<close>, a set of pointers, and
  \<^verbatim>\<open>OffsetsSetPointsToSet.h\<close>, a map from targets to the set of their offsets.
\<close>

section \<open>SimplePointsToSet\<close>

type_synonym simple_pts = "ptr list"

definition simple_has :: "ptr \<Rightarrow> simple_pts \<Rightarrow> bool" where
  "simple_has p s = (p \<in> set s)"

definition simple_addWithUnknownOffset :: "nat \<Rightarrow> simple_pts \<Rightarrow> bool \<times> simple_pts" where
  "simple_addWithUnknownOffset t s =
     (if simple_has (t, getUnknown) s then (False, s)
      else let tmp = filter (\<lambda>q. fst q \<noteq> t) s in
        ((t, getUnknown) \<notin> set tmp, sset_insert (t, getUnknown) tmp))"

definition simple_add :: "ptr \<Rightarrow> simple_pts \<Rightarrow> bool \<times> simple_pts" where
  "simple_add p s =
     (if isUnknown (snd p) then simple_addWithUnknownOffset (fst p) s
      else if simple_has (any_offset p) s then (False, s)
      else (p \<notin> set s, sset_insert p s))"

definition simple_unite :: "simple_pts \<Rightarrow> simple_pts \<Rightarrow> bool \<times> simple_pts" where
  "simple_unite s rhs = foldl (\<lambda>(c, s) p. (c \<or> p \<notin> set s, sset_insert p s)) (False, s) rhs"

definition simple_adds :: "ptr list \<Rightarrow> simple_pts \<Rightarrow> bool \<times> simple_pts" where
  "simple_adds ps s = foldl (\<lambda>(c, s) p. case simple_add p s of (c', s') \<Rightarrow> (c \<or> c', s')) (False, s) ps"

definition simple_remove :: "ptr \<Rightarrow> simple_pts \<Rightarrow> bool \<times> simple_pts" where
  "simple_remove p s = (p \<in> set s, filter (\<lambda>q. q \<noteq> p) s)"

definition simple_pointsToTarget :: "nat \<Rightarrow> simple_pts \<Rightarrow> bool" where
  "simple_pointsToTarget t s = list_ex (\<lambda>q. fst q = t) s"

definition simple_removeAny :: "nat \<Rightarrow> simple_pts \<Rightarrow> (bool \<times> simple_pts) option" where
  "simple_removeAny t s =
     (if simple_pointsToTarget t s
      then let tmp = snd (simple_adds (filter (\<lambda>q. fst q \<noteq> t) s) []) in
        if length tmp < length s then Some (True, tmp) else None
      else Some (False, s))"

definition simple_mayPointTo :: "ptr \<Rightarrow> simple_pts \<Rightarrow> bool" where
  "simple_mayPointTo p s = (simple_has p s \<or> simple_has (any_offset p) s)"

definition simple_isSingleton :: "simple_pts \<Rightarrow> bool" where
  "simple_isSingleton s = (length s = 1)"

definition simple_mustPointTo :: "ptr \<Rightarrow> simple_pts \<Rightarrow> bool option" where
  "simple_mustPointTo p s =
     (if isUnknown (snd p) then None else Some (simple_has p s \<and> simple_isSingleton s))"

definition simple_ops :: "(unit, simple_pts) pts_ops" where
  "simple_ops = \<lparr>o_ids = (), o_empty = [],
     o_add = (\<lambda>p g s. case simple_add p s of (c, s') \<Rightarrow> Some (c, g, s')), o_unite = simple_unite,
     o_remove = (\<lambda>p g s. case simple_remove p s of (c, s') \<Rightarrow> Some (c, g, s')),
     o_removeAny = (\<lambda>t g s. map_option (\<lambda>(c, s'). (c, g, s')) (simple_removeAny t s)), o_clear = (\<lambda>_. []),
     o_pointsTo = (\<lambda>p g s. (simple_has p s, g)), o_mayPointTo = (\<lambda>p g s. (simple_mayPointTo p s, g)),
     o_mustPointTo = (\<lambda>p g s. map_option (\<lambda>b. (b, g)) (simple_mustPointTo p s)),
     o_pointsToTarget = (\<lambda>t g s. (simple_pointsToTarget t s, g)), o_isSingleton = simple_isSingleton,
     o_isEmpty = (\<lambda>s. s = []), o_size = length, o_elems = (\<lambda>g s. Some s)\<rparr>"

lemma getUnknown_isUnknown: "isUnknown x \<longleftrightarrow> x = getUnknown"
  by (cases x) (simp add: isUnknown_def getUnknown_def)

lemma any_offset_eq: "(any_offset p = p) = isUnknown (snd p)"
  by (cases p) (auto simp: any_offset_def getUnknown_isUnknown)

lemma simple_add_ok:
  assumes "sorted_wrt (<) s"
  shows "sorted_wrt (<) (snd (simple_add p s)) \<and> set (snd (simple_add p s)) = spec_add p (set s) \<and>
    fst (simple_add p s) = (spec_add p (set s) \<noteq> set s)"
  using assms
  by (cases p) (auto simp: simple_add_def simple_addWithUnknownOffset_def simple_has_def spec_add_def any_offset_def
      getUnknown_isUnknown Let_def sorted_wrt_filter)

lemma simple_unite_ok:
  assumes "sorted_wrt (<) s"
  shows "sorted_wrt (<) (snd (simple_unite s r)) \<and> set (snd (simple_unite s r)) = set s \<union> set r \<and>
    fst (simple_unite s r) = (\<not> set r \<subseteq> set s)"
proof -
  have "sorted_wrt (<) (snd (foldl (\<lambda>(c, s) p. (c \<or> p \<notin> set s, sset_insert p s)) (c, s) r)) \<and>
      set (snd (foldl (\<lambda>(c, s) p. (c \<or> p \<notin> set s, sset_insert p s)) (c, s) r)) = set s \<union> set r \<and>
      fst (foldl (\<lambda>(c, s) p. (c \<or> p \<notin> set s, sset_insert p s)) (c, s) r) = (c \<or> \<not> set r \<subseteq> set s)" for c
    using assms by (induction r arbitrary: c s) auto
  then show ?thesis unfolding simple_unite_def by simp
qed

lemma sorted_card: "sorted_wrt (<) s \<Longrightarrow> card (set s) = length s" for s :: "ptr list"
  by (simp add: strict_sorted_iff distinct_card)

fun no_removeAny :: "pts_op \<Rightarrow> bool" where
  "no_removeAny (RemoveAny _ _) = False"
| "no_removeAny _ = True"

interpretation simple: points_to_set simple_ops "\<lambda>_. 0" "\<lambda>_ _. True" "\<lambda>_. sorted_wrt (<)" "\<lambda>_. set" no_removeAny
proof (unfold_locales, goal_cases)
  case (7 g s p)
  then show ?case using simple_add_ok [of s p] by (cases "simple_add p s") (auto simp: simple_ops_def)
next
  case (8 g s r c s')
  then show ?case using simple_unite_ok [of s r] by (auto simp: simple_ops_def)
qed (auto simp: simple_ops_def simple_has_def simple_mayPointTo_def simple_pointsToTarget_def list_ex_iff
    simple_remove_def sorted_wrt_filter simple_isSingleton_def sorted_card simple_mustPointTo_def)

section \<open>OffsetsSetPointsToSet\<close>

type_synonym offsets_pts = "(nat, SparseBitvector) smap"

definition ofs_addWithUnknownOffset :: "nat \<Rightarrow> offsets_pts \<Rightarrow> bool \<times> offsets_pts" where
  "ofs_addWithUnknownOffset t s =
     (case map_of s t of
        Some b \<Rightarrow>
          if sbv_get b UNKNOWN then (False, s)
          else (True, smap_set t (snd (sbv_set [] UNKNOWN)) s)
      | None \<Rightarrow> (case sbv_set [] UNKNOWN of (prev, b) \<Rightarrow> (\<not> prev, smap_set t b s)))"

definition ofs_add :: "ptr \<Rightarrow> offsets_pts \<Rightarrow> bool \<times> offsets_pts" where
  "ofs_add p s =
     (if isUnknown (snd p) then ofs_addWithUnknownOffset (fst p) s
      else case map_of s (fst p) of
        None \<Rightarrow> (True, smap_set (fst p) (sbv_singleton (off (snd p))) s)
      | Some b \<Rightarrow>
          if sbv_get b UNKNOWN then (False, s)
          else (case sbv_set b (off (snd p)) of (prev, b') \<Rightarrow> (\<not> prev, smap_set (fst p) b' s)))"

definition ofs_unite_one :: "bool \<times> offsets_pts \<Rightarrow> nat \<times> SparseBitvector \<Rightarrow> bool \<times> offsets_pts" where
  "ofs_unite_one cs it =
     (case sbv_union (case map_of (snd cs) (fst it) of None \<Rightarrow> [] | Some b \<Rightarrow> b) (snd it) of
        (c', b') \<Rightarrow> (fst cs \<or> c', smap_set (fst it) b' (snd cs)))"

definition ofs_unite :: "offsets_pts \<Rightarrow> offsets_pts \<Rightarrow> bool \<times> offsets_pts" where
  "ofs_unite s rhs = foldl ofs_unite_one (False, s) rhs"

definition ofs_adds :: "ptr list \<Rightarrow> offsets_pts \<Rightarrow> bool \<times> offsets_pts" where
  "ofs_adds ps s = foldl (\<lambda>(c, s) p. case ofs_add p s of (c', s') \<Rightarrow> (c \<or> c', s')) (False, s) ps"

definition ofs_remove :: "ptr \<Rightarrow> offsets_pts \<Rightarrow> bool \<times> offsets_pts" where
  "ofs_remove p s =
     (case map_of s (fst p) of
        None \<Rightarrow> (False, s)
      | Some b \<Rightarrow> (case sbv_unset b (off (snd p)) of (c, b') \<Rightarrow> (c, smap_set (fst p) b' s)))"

definition ofs_removeAny :: "nat \<Rightarrow> offsets_pts \<Rightarrow> bool \<times> offsets_pts" where
  "ofs_removeAny t s = (if map_of s t = None then (False, s) else (True, smap_erase t s))"

definition ofs_pointsTo :: "ptr \<Rightarrow> offsets_pts \<Rightarrow> bool" where
  "ofs_pointsTo p s = (case map_of s (fst p) of None \<Rightarrow> False | Some b \<Rightarrow> sbv_get b (off (snd p)))"

definition ofs_mayPointTo :: "ptr \<Rightarrow> offsets_pts \<Rightarrow> bool" where
  "ofs_mayPointTo p s = (ofs_pointsTo p s \<or> ofs_pointsTo (any_offset p) s)"

definition ofs_isSingleton :: "offsets_pts \<Rightarrow> bool" where
  "ofs_isSingleton s = (length s = 1)"

definition ofs_mustPointTo :: "ptr \<Rightarrow> offsets_pts \<Rightarrow> bool option" where
  "ofs_mustPointTo p s = (if isUnknown (snd p) then None else Some (ofs_pointsTo p s \<and> ofs_isSingleton s))"

definition ofs_pointsToTarget :: "nat \<Rightarrow> offsets_pts \<Rightarrow> bool" where
  "ofs_pointsToTarget t s = (map_of s t \<noteq> None)"

definition ofs_size :: "offsets_pts \<Rightarrow> nat" where
  "ofs_size s = sum_list (map (\<lambda>(_, b). sbv_size b) s)"

text \<open>The iterator reads the first bit of every bit vector it comes to: an empty one is an error.\<close>

definition ofs_elems :: "offsets_pts \<Rightarrow> ptr list option" where
  "ofs_elems s =
     (if list_ex (\<lambda>(_, b). b = []) s then None
      else Some (concat (map (\<lambda>(t, b). map (\<lambda>i. (t, Offset i)) (sbv_elems b)) s)))"

definition offsets_ops :: "(unit, offsets_pts) pts_ops" where
  "offsets_ops = \<lparr>o_ids = (), o_empty = [],
     o_add = (\<lambda>p g s. case ofs_add p s of (c, s') \<Rightarrow> Some (c, g, s')), o_unite = ofs_unite,
     o_remove = (\<lambda>p g s. case ofs_remove p s of (c, s') \<Rightarrow> Some (c, g, s')),
     o_removeAny = (\<lambda>t g s. case ofs_removeAny t s of (c, s') \<Rightarrow> Some (c, g, s')), o_clear = (\<lambda>_. []),
     o_pointsTo = (\<lambda>p g s. (ofs_pointsTo p s, g)), o_mayPointTo = (\<lambda>p g s. (ofs_mayPointTo p s, g)),
     o_mustPointTo = (\<lambda>p g s. map_option (\<lambda>b. (b, g)) (ofs_mustPointTo p s)),
     o_pointsToTarget = (\<lambda>t g s. (ofs_pointsToTarget t s, g)), o_isSingleton = ofs_isSingleton,
     o_isEmpty = (\<lambda>s. s = []), o_size = ofs_size, o_elems = (\<lambda>g s. ofs_elems s)\<rparr>"

definition ofs_inv :: "offsets_pts \<Rightarrow> bool" where
  "ofs_inv s = (smap_wf s \<and> (\<forall>t b. map_of s t = Some b \<longrightarrow> sbv_wf b \<and> b \<noteq> []))"

definition ofs_abs :: "offsets_pts \<Rightarrow> ptr set" where
  "ofs_abs s = {p. ofs_pointsTo p s}"

lemma ofs_invD:
  assumes "ofs_inv s"
  shows "smap_wf s" and "map_of s t = Some b \<Longrightarrow> sbv_wf b" and "map_of s t = Some b \<Longrightarrow> b \<noteq> []"
    and "(t, b) \<in> set s \<Longrightarrow> map_of s t = Some b"
  using assms unfolding ofs_inv_def by (blast, blast, blast, simp add: map_of_in_set)

lemma ofs_inv_set: "ofs_inv s \<Longrightarrow> sbv_wf b \<Longrightarrow> b \<noteq> [] \<Longrightarrow> ofs_inv (smap_set t b s)"
  by (simp add: ofs_inv_def)

lemma ofs_abs_set: "ofs_abs (smap_set t b s) = {p \<in> ofs_abs s. fst p \<noteq> t} \<union> {p. fst p = t \<and> sbv_get b (off (snd p))}"
  by (auto simp: ofs_abs_def ofs_pointsTo_def)

lemma sbv_nonempty: "sbv_wf b \<Longrightarrow> b \<noteq> [] \<longleftrightarrow> (\<exists>i. sbv_get b i)"
  using sbv_empty_iff [of b] by (auto simp: sbv_empty_def sbv_abs_def)

lemma sbv_set_nonempty: "sbv_wf b \<Longrightarrow> snd (sbv_set b i) \<noteq> []"
  using sbv_nonempty [OF sbv_wf_set] by (auto simp: sbv_get_set)

lemma sbv_get_empty [simp]: "\<not> sbv_get [] i"
  by (simp add: sbv_get_def)

lemma off_eq_UNKNOWN: "off o1 = UNKNOWN \<longleftrightarrow> o1 = getUnknown"
  by (cases o1) (simp add: getUnknown_def)

lemma off_getUnknown [simp]: "off getUnknown = UNKNOWN"
  by (simp add: getUnknown_def)

lemma off_eq: "off a = off b \<longleftrightarrow> a = b"
  by (cases a; cases b) simp

lemma ofs_add_ok:
  assumes "ofs_inv s"
  shows "ofs_inv (snd (ofs_add p s)) \<and> ofs_abs (snd (ofs_add p s)) = spec_add p (ofs_abs s) \<and>
    fst (ofs_add p s) = (spec_add p (ofs_abs s) \<noteq> ofs_abs s)"
proof (cases "any_offset p \<in> ofs_abs s")
  case True
  then obtain b where b: "map_of s (fst p) = Some b" "sbv_get b UNKNOWN"
    by (auto simp: ofs_abs_def ofs_pointsTo_def any_offset_def split: option.splits)
  then show ?thesis using True assms by (simp add: ofs_add_def ofs_addWithUnknownOffset_def spec_add_def)
next
  case new: False
  then have nb: "map_of s (fst p) = Some b \<Longrightarrow> \<not> sbv_get b UNKNOWN" for b
    by (auto simp: ofs_abs_def ofs_pointsTo_def any_offset_def)
  have wf: "map_of s (fst p) = Some b \<Longrightarrow> sbv_wf b" for b using assms by (simp add: ofs_inv_def)
  show ?thesis
  proof (cases "isUnknown (snd p)")
    case True
    have e: "ofs_add p s = (True, smap_set (fst p) (snd (sbv_set [] UNKNOWN)) s)"
      using True nb by (auto simp: ofs_add_def ofs_addWithUnknownOffset_def sbv_set_prev split: option.splits prod.splits)
        (metis fst_conv sbv_get_empty sbv_set_prev snd_conv)+
    have "{q. fst q = fst p \<and> sbv_get (snd (sbv_set [] UNKNOWN)) (off (snd q))} = {p}"
      using True by (cases p) (auto simp: sbv_get_set off_eq_UNKNOWN getUnknown_isUnknown)
    then have "ofs_abs (snd (ofs_add p s)) = spec_add p (ofs_abs s)" using True new
      by (auto simp: e ofs_abs_set spec_add_def)
    moreover have "p \<notin> ofs_abs s" using new True any_offset_eq by metis
    ultimately show ?thesis using True new ofs_inv_set [OF assms] sbv_set_nonempty [of "[]"] sbv_wf_set [of "[]"]
      by (auto simp: e spec_add_def)
  next
    case False
    define b where "b = (case map_of s (fst p) of None \<Rightarrow> [] | Some b \<Rightarrow> b)"
    have b: "sbv_wf b" "\<And>i. sbv_get b i = ((fst p, Offset i) \<in> ofs_abs s)"
      using wf by (auto simp: b_def ofs_abs_def ofs_pointsTo_def split: option.splits)
    have e: "ofs_add p s = (\<not> sbv_get b (off (snd p)), smap_set (fst p) (snd (sbv_set b (off (snd p)))) s)"
      using False nb by (auto simp: ofs_add_def b_def sbv_set_prev [symmetric] sbv_singleton_def split: option.splits prod.splits)
        (metis fst_conv sbv_get_empty sbv_set_prev)
    have "{q. fst q = fst p \<and> sbv_get (snd (sbv_set b (off (snd p)))) (off (snd q))} =
        insert p {q \<in> ofs_abs s. fst q = fst p}"
      by (cases p) (auto simp: sbv_get_set b(2) off_eq)
    then have "ofs_abs (snd (ofs_add p s)) = spec_add p (ofs_abs s)" using False new
      by (auto simp: e ofs_abs_set spec_add_def)
    moreover have "fst (ofs_add p s) = (p \<notin> ofs_abs s)" using b(2) [of "off (snd p)"] by (simp add: e)
    ultimately show ?thesis using False new ofs_inv_set [OF assms] sbv_set_nonempty [OF b(1)] sbv_wf_set [OF b(1)]
      by (auto simp: e spec_add_def)
  qed
qed

lemma ofs_unite_one_ok:
  assumes "ofs_inv (snd cs)" and "sbv_wf b" and "b \<noteq> []"
  shows "ofs_inv (snd (ofs_unite_one cs (t, b))) \<and>
    ofs_abs (snd (ofs_unite_one cs (t, b))) = ofs_abs (snd cs) \<union> {p. fst p = t \<and> sbv_get b (off (snd p))} \<and>
    fst (ofs_unite_one cs (t, b)) = (fst cs \<or> \<not> {p. fst p = t \<and> sbv_get b (off (snd p))} \<subseteq> ofs_abs (snd cs))"
proof -
  define o1 where "o1 = (case map_of (snd cs) t of None \<Rightarrow> [] | Some b \<Rightarrow> b)"
  have o1: "sbv_wf o1" "sbv_get o1 i = ((t, Offset i) \<in> ofs_abs (snd cs))" for i
    using assms(1) by (auto simp: o1_def ofs_inv_def ofs_abs_def ofs_pointsTo_def split: option.splits)
  have u: "ofs_unite_one cs (t, b) = (fst cs \<or> fst (sbv_union o1 b), smap_set t (snd (sbv_union o1 b)) (snd cs))"
    by (simp add: ofs_unite_one_def o1_def split: prod.splits)
  have wf: "sbv_wf (snd (sbv_union o1 b))" using o1(1) assms(2) by (rule sbv_wf_union)
  have get: "sbv_get (snd (sbv_union o1 b)) i = (sbv_get o1 i \<or> sbv_get b i)" for i using assms(2) by (rule sbv_get_union)
  have ne: "snd (sbv_union o1 b) \<noteq> []" using sbv_nonempty [OF wf] sbv_nonempty [OF assms(2)] assms(3) get by auto
  have mem: "(t, Offset (off y)) = (t, y)" for y by (cases y) simp
  have "(snd (sbv_union o1 b) = o1) = (\<forall>i. sbv_get b i \<longrightarrow> sbv_get o1 i)"
  proof
    assume "snd (sbv_union o1 b) = o1"
    then show "\<forall>i. sbv_get b i \<longrightarrow> sbv_get o1 i" using get by metis
  next
    assume "\<forall>i. sbv_get b i \<longrightarrow> sbv_get o1 i"
    then have "sbv_get (snd (sbv_union o1 b)) i = sbv_get o1 i" for i using get by blast
    then show "snd (sbv_union o1 b) = o1" by (rule sbv_ext [OF wf o1(1)])
  qed
  then have "fst (sbv_union o1 b) = (\<not> (\<forall>i. sbv_get b i \<longrightarrow> sbv_get o1 i))"
    unfolding sbv_union_changed [OF o1(1) assms(2)] by simp
  also have "\<dots> = (\<not> {p. fst p = t \<and> sbv_get b (off (snd p))} \<subseteq> ofs_abs (snd cs))"
  proof -
    have "{p. fst p = t \<and> sbv_get b (off (snd p))} \<subseteq> ofs_abs (snd cs) \<longleftrightarrow>
        (\<forall>i. sbv_get b i \<longrightarrow> (t, Offset i) \<in> ofs_abs (snd cs))"
    proof
      assume l: "{p. fst p = t \<and> sbv_get b (off (snd p))} \<subseteq> ofs_abs (snd cs)"
      show "\<forall>i. sbv_get b i \<longrightarrow> (t, Offset i) \<in> ofs_abs (snd cs)"
      proof (intro allI impI)
        fix i assume "sbv_get b i"
        then have "(t, Offset i) \<in> {p. fst p = t \<and> sbv_get b (off (snd p))}" by simp
        with l show "(t, Offset i) \<in> ofs_abs (snd cs)" by blast
      qed
    next
      assume r: "\<forall>i. sbv_get b i \<longrightarrow> (t, Offset i) \<in> ofs_abs (snd cs)"
      show "{p. fst p = t \<and> sbv_get b (off (snd p))} \<subseteq> ofs_abs (snd cs)"
      proof clarify
        fix u y assume "sbv_get b (off (snd (u, y)))" "t = fst (u, y)"
        with r have "(u, Offset (off y)) \<in> ofs_abs (snd cs)" by auto
        then show "(u, y) \<in> ofs_abs (snd cs)" by simp
      qed
    qed
    then show ?thesis by (simp add: o1(2))
  qed
  finally have ch: "fst (sbv_union o1 b) = (\<not> {p. fst p = t \<and> sbv_get b (off (snd p))} \<subseteq> ofs_abs (snd cs))" .
  have "ofs_abs (snd (ofs_unite_one cs (t, b))) = ofs_abs (snd cs) \<union> {p. fst p = t \<and> sbv_get b (off (snd p))}"
    by (auto simp: u ofs_abs_set get o1(2) mem)
  then show ?thesis using ch ofs_inv_set [OF assms(1) wf ne] by (simp add: u)
qed

lemma ofs_unite_ok:
  assumes "ofs_inv s" and "ofs_inv r"
  shows "ofs_inv (snd (ofs_unite s r)) \<and> ofs_abs (snd (ofs_unite s r)) = ofs_abs s \<union> ofs_abs r \<and>
    fst (ofs_unite s r) = (\<not> ofs_abs r \<subseteq> ofs_abs s)"
proof -
  have fold: "ofs_inv (snd (foldl ofs_unite_one cs r)) \<and>
      ofs_abs (snd (foldl ofs_unite_one cs r)) = ofs_abs (snd cs) \<union> {p. \<exists>b. (fst p, b) \<in> set r \<and> sbv_get b (off (snd p))} \<and>
      fst (foldl ofs_unite_one cs r) =
        (fst cs \<or> \<not> {p. \<exists>b. (fst p, b) \<in> set r \<and> sbv_get b (off (snd p))} \<subseteq> ofs_abs (snd cs))"
    if "ofs_inv (snd cs)" "\<forall>(t, b) \<in> set r. sbv_wf b \<and> b \<noteq> []" for cs r
    using that
  proof (induction r arbitrary: cs)
    case (Cons tb r)
    obtain t b where tb: "tb = (t, b)" by (cases tb)
    have "sbv_wf b" "b \<noteq> []" using Cons.prems(2) tb by auto
    note one = ofs_unite_one_ok [OF Cons.prems(1) this, of t, folded tb]
    have "\<forall>(t, b) \<in> set r. sbv_wf b \<and> b \<noteq> []" using Cons.prems(2) by simp
    note IH = Cons.IH [OF one [THEN conjunct1] this]
    have split: "{p. \<exists>b. (fst p, b) \<in> set (tb # r) \<and> sbv_get b (off (snd p))} =
        {p. fst p = t \<and> sbv_get b (off (snd p))} \<union> {p. \<exists>b. (fst p, b) \<in> set r \<and> sbv_get b (off (snd p))}"
      by (auto simp: tb)
    show ?case using IH one unfolding split by auto
  qed auto
  have wf: "\<forall>(t, b) \<in> set r. sbv_wf b \<and> b \<noteq> []" using ofs_invD [OF assms(2)] by blast
  have abs: "{p. \<exists>b. (fst p, b) \<in> set r \<and> sbv_get b (off (snd p))} = ofs_abs r"
    using assms(2) by (auto simp: ofs_abs_def ofs_pointsTo_def ofs_inv_def map_of_in_set [symmetric] split: option.splits)
  show ?thesis using fold [of "(False, s)", OF _ wf] assms(1) by (simp add: ofs_unite_def abs)
qed

lemma ofs_targets: "ofs_inv s \<Longrightarrow> map_of s t \<noteq> None \<longleftrightarrow> (\<exists>p \<in> ofs_abs s. fst p = t)"
proof
  assume i: "ofs_inv s" "map_of s t \<noteq> None"
  then obtain b where b: "map_of s t = Some b" by blast
  then have "map_of s t = Some b" "sbv_wf b" "b \<noteq> []" using ofs_invD [OF i(1)] by blast+
  moreover from this obtain i where "sbv_get b i" using sbv_nonempty by blast
  ultimately have "(t, Offset i) \<in> ofs_abs s" by (simp add: ofs_abs_def ofs_pointsTo_def)
  then show "\<exists>p \<in> ofs_abs s. fst p = t" by force
qed (auto simp: ofs_abs_def ofs_pointsTo_def split: option.splits)

lemma ofs_size_ok: "ofs_inv s \<Longrightarrow> ofs_size s = card (ofs_abs s) \<and> finite (ofs_abs s)"
proof (induction s)
  case Nil
  then show ?case by (simp add: ofs_size_def ofs_abs_def ofs_pointsTo_def)
next
  case (Cons tb s)
  obtain t b where tb: "tb = (t, b)" by (cases tb)
  have wf: "smap_wf ((t, b) # s)" and b: "sbv_wf b"
    using ofs_invD(1) [OF Cons.prems] ofs_invD(2) [OF Cons.prems, of t b] tb by simp_all
  have t: "map_of s t = None" using wf by (auto simp: smap_wf_Cons map_of_eq_None)
  have inv: "ofs_inv s" unfolding ofs_inv_def
  proof (intro conjI allI impI)
    show "smap_wf s" using wf by (simp add: smap_wf_Cons)
    fix u c assume "map_of s u = Some c"
    then have "map_of (tb # s) u = Some c" using t tb by auto
    then show "sbv_wf c" "c \<noteq> []" using ofs_invD [OF Cons.prems] by blast+
  qed
  have abs: "ofs_abs (tb # s) = (\<lambda>i. (t, Offset i)) ` sbv_abs b \<union> ofs_abs s"
  proof -
    have "(u, y) \<in> ofs_abs (tb # s) \<longleftrightarrow> (u, y) \<in> (\<lambda>i. (t, Offset i)) ` sbv_abs b \<union> ofs_abs s" for u y
      using t by (cases y) (auto simp: ofs_abs_def ofs_pointsTo_def tb sbv_abs_def image_iff split: option.splits)
    then show ?thesis by auto
  qed
  have disj: "(\<lambda>i. (t, Offset i)) ` sbv_abs b \<inter> ofs_abs s = {}" using t by (auto simp: ofs_abs_def ofs_pointsTo_def)
  have "card ((\<lambda>i. (t, Offset i)) ` sbv_abs b) = sbv_size b"
    using sbv_size_card [OF b] by (simp add: card_image inj_on_def)
  moreover have "finite (sbv_abs b)" by simp
  ultimately show ?case unfolding abs using Cons.IH [OF inv] disj
    by (simp add: card_Un_disjoint ofs_size_def tb)
qed

lemma ofs_elems_ok: "ofs_inv s \<Longrightarrow> \<exists>ps. ofs_elems s = Some ps \<and> set ps = ofs_abs s"
proof -
  assume inv: "ofs_inv s"
  have m: "(t, b) \<in> set s \<longleftrightarrow> map_of s t = Some b" for t b using inv by (simp add: ofs_inv_def map_of_in_set)
  have ne: "\<not> list_ex (\<lambda>(_, b). b = []) s" using ofs_invD(3) [OF inv] by (fastforce simp: list_ex_iff m)
  have wf: "map_of s t = Some b \<Longrightarrow> set (sbv_elems b) = sbv_abs b" for t b
    using ofs_invD(2) [OF inv] set_sbv_elems by blast
  have "(t, y) \<in> set (concat (map (\<lambda>(t, b). map (\<lambda>i. (t, Offset i)) (sbv_elems b)) s)) \<longleftrightarrow> (t, y) \<in> ofs_abs s" for t y
    by (cases y) (force simp: m wf ofs_abs_def ofs_pointsTo_def sbv_abs_def split: option.splits)
  then have "set (concat (map (\<lambda>(t, b). map (\<lambda>i. (t, Offset i)) (sbv_elems b)) s)) = ofs_abs s"
    by (intro set_eqI) (metis surj_pair)
  then show ?thesis using ne by (simp add: ofs_elems_def)
qed

lemma ofs_removeAny_ok:
  assumes "ofs_inv s"
  shows "ofs_inv (snd (ofs_removeAny t s)) \<and> ofs_abs (snd (ofs_removeAny t s)) = {p \<in> ofs_abs s. fst p \<noteq> t} \<and>
    fst (ofs_removeAny t s) = (\<exists>p \<in> ofs_abs s. fst p = t)"
  using assms ofs_targets [OF assms, of t]
  by (auto simp: ofs_removeAny_def ofs_inv_def ofs_abs_def ofs_pointsTo_def)

fun targets_op :: "pts_op \<Rightarrow> bool" where
  "targets_op (Remove _ _) = False"
| "targets_op (IsSingleton _) = False"
| "targets_op (MustPointTo _ _) = False"
| "targets_op _ = True"

interpretation offsets: points_to_set offsets_ops "\<lambda>_. 0" "\<lambda>_ _. True" "\<lambda>_. ofs_inv" "\<lambda>_. ofs_abs" targets_op
proof (unfold_locales, goal_cases)
  case (7 g s p)
  then show ?case using ofs_add_ok [of s p] by (cases "ofs_add p s") (auto simp: offsets_ops_def)
next
  case (8 g s r c s')
  then show ?case using ofs_unite_ok [of s r] by (auto simp: offsets_ops_def)
next
  case (9 x t g s)
  then have "ofs_inv s" by simp
  from ofs_removeAny_ok [OF this, of t] show ?case
    by (cases "ofs_removeAny t s") (simp add: offsets_ops_def)
next
  case (12 p g s)
  then show ?case by (simp add: offsets_ops_def ofs_mayPointTo_def)
next
  case (13 g s t b g')
  then show ?case using ofs_targets [of s t] by (auto simp: offsets_ops_def ofs_pointsToTarget_def)
next
  case (14 g s)
  have "s = [] \<longleftrightarrow> (\<forall>t. map_of s t = None)" by (metis map_of_eq_empty_iff)
  moreover have "ofs_abs [] = {}" by (simp add: ofs_abs_def ofs_pointsTo_def)
  ultimately show ?case using ofs_targets [of s] 14 by (auto simp: offsets_ops_def)
next
  case (15 g s)
  then show ?case by (simp add: offsets_ops_def ofs_size_ok)
next
  case (16 g s)
  then show ?case by (simp add: offsets_ops_def ofs_elems_ok)
qed (simp_all add: offsets_ops_def ofs_inv_def ofs_abs_def ofs_pointsTo_def)

end
