(* ===== verification/Points_To_Bits.thy ===== *)
theory Points_To_Bits
  imports Points_To_Sets
begin

text \<open>
  The points-to sets in a bit vector. A static table numbers the pointers
  (\<^verbatim>\<open>PointerIdPointsToSet.h\<close>, \<^verbatim>\<open>AlignedPointerIdPointsToSet.h\<close>) or the targets
  (\<^verbatim>\<open>SmallOffsetsPointsToSet.h\<close>, \<^verbatim>\<open>AlignedSmallOffsetsPointsToSet.h\<close>), and a pointer is the bit at the
  position the table gives it. Three of the classes keep the pointers that have no position in a second
  set; their code is the same but for the position of a pointer, the loop that removes a target from the
  bit vector and the one that looks for it there, and so is the model's.
\<close>

section \<open>The table of numbers\<close>

type_synonym 'k idtab = "('k, 64 word) smap \<times> 'k list"

definition get_id :: "'k::linorder \<Rightarrow> 'k idtab \<Rightarrow> 64 word \<times> 'k idtab" where
  "get_id k T =
     (case map_of (fst T) k of
        Some i \<Rightarrow> (i, T)
      | None \<Rightarrow> (let i = of_nat (length (fst T)) + 1 in (i, smap_emplace k i (fst T), snd T @ [k])))"

definition key_of :: "'k idtab \<Rightarrow> 64 word \<Rightarrow> 'k option" where
  "key_of T i = (let n = unat (i - 1) in if n < length (snd T) then Some (snd T ! n) else None)"

definition idtab_wf :: "'k::linorder idtab \<Rightarrow> bool" where
  "idtab_wf T = (smap_wf (fst T) \<and> distinct (snd T) \<and> length (fst T) = length (snd T) \<and>
     length (snd T) \<le> max_ids \<and>
     (\<forall>k i. map_of (fst T) k = Some i \<longleftrightarrow> (\<exists>n < length (snd T). snd T ! n = k \<and> i = of_nat n + 1)))"

definition idtab_used :: "'k idtab \<Rightarrow> nat" where
  "idtab_used T = length (snd T)"

definition idtab_le :: "'k::linorder idtab \<Rightarrow> 'k idtab \<Rightarrow> bool" where
  "idtab_le T U = (idtab_wf T \<and> idtab_wf U \<and> (\<exists>ks. snd U = snd T @ ks))"

lemma idtab_wfD:
  assumes "idtab_wf T"
  shows "smap_wf (fst T)" and "distinct (snd T)" and "length (fst T) = length (snd T)"
    and "length (snd T) \<le> max_ids"
    and "map_of (fst T) k = Some i \<longleftrightarrow> (\<exists>n < length (snd T). snd T ! n = k \<and> i = of_nat n + 1)"
  using assms unfolding idtab_wf_def by blast+

lemma length_smap_set_new: "map_of m k = None \<Longrightarrow> length (smap_set k v m) = Suc (length m)"
  by (induction k v m rule: smap_set.induct) (auto split: if_splits)

lemma unat_id: "n < 2 ^ 57 \<Longrightarrow> unat (of_nat n :: 64 word) = n"
  by (simp add: unat_of_nat)

lemma key_of_id:
  assumes "idtab_wf T" and "key_of T i = Some k"
  shows "map_of (fst T) k = Some i" and "\<exists>n < length (snd T). snd T ! n = k \<and> i = of_nat n + 1"
proof -
  let ?n = "unat (i - 1)"
  have n: "?n < length (snd T)" "snd T ! ?n = k" using assms(2) by (auto simp: key_of_def Let_def split: if_splits)
  have "i = of_nat ?n + 1" by simp
  with n show "\<exists>n < length (snd T). snd T ! n = k \<and> i = of_nat n + 1" by blast
  then show "map_of (fst T) k = Some i" using idtab_wfD(5) [OF assms(1)] by blast
qed

lemma id_key_of:
  assumes "idtab_wf T" and "map_of (fst T) k = Some i"
  shows "key_of T i = Some k"
proof -
  obtain n where n: "n < length (snd T)" "snd T ! n = k" "i = of_nat n + 1"
    using assms(2) unfolding idtab_wfD(5) [OF assms(1)] by blast
  have "unat (i - 1) = n" using n(1,3) idtab_wfD(4) [OF assms(1)] by (simp add: max_ids_def unat_id)
  then show ?thesis using n by (simp add: key_of_def)
qed

lemma get_id_ok:
  assumes "idtab_wf T" and "idtab_used T + 1 \<le> max_ids" and "get_id k T = (i, T')"
  shows "idtab_le T T' \<and> idtab_used T' \<le> idtab_used T + 1 \<and> map_of (fst T') k = Some i \<and> key_of T' i = Some k"
proof (cases "map_of (fst T) k")
  case (Some j)
  then have "i = j" "T' = T" using assms(3) by (auto simp: get_id_def)
  then show ?thesis using Some assms(1) id_key_of [OF assms(1) Some] by (simp add: idtab_le_def)
next
  case None
  note wf = idtab_wfD [OF assms(1)]
  have i: "i = of_nat (length (snd T)) + 1" and T': "fst T' = smap_set k i (fst T)" "snd T' = snd T @ [k]"
    using assms(3) None wf(3) by (auto simp: get_id_def Let_def smap_emplace_def)
  have new: "k \<notin> set (snd T)"
  proof
    assume "k \<in> set (snd T)"
    then obtain n where "n < length (snd T)" "snd T ! n = k" by (auto simp: in_set_conv_nth)
    then have "map_of (fst T) k = Some (of_nat n + 1)" using wf(5) by blast
    then show False using None by simp
  qed
  have "map_of (fst T') l = Some j \<longleftrightarrow> (\<exists>n < length (snd T'). snd T' ! n = l \<and> j = of_nat n + 1)" for l j
  proof (cases "l = k")
    case True
    then show ?thesis using new i
      by (auto simp: T' nth_append less_Suc_eq in_set_conv_nth split: if_splits)
  next
    case False
    then show ?thesis using wf(5) [of l j] by (auto simp: T' nth_append less_Suc_eq)
  qed
  then have wf': "idtab_wf T'" unfolding idtab_wf_def
    using wf(1,2,3) new None assms(2) by (auto simp: T' idtab_used_def length_smap_set_new)
  have m: "map_of (fst T') k = Some i" by (simp add: T')
  show ?thesis using assms(1) wf' m id_key_of [OF wf' m] by (auto simp: idtab_le_def idtab_used_def T')
qed

lemma idtab_le_wf: "idtab_le T U \<Longrightarrow> idtab_le T T \<and> idtab_le U U" "idtab_le T T = idtab_wf T"
  by (auto simp: idtab_le_def)

lemma idtab_le_trans: "idtab_le T U \<Longrightarrow> idtab_le U V \<Longrightarrow> idtab_le T V"
  by (auto simp: idtab_le_def)

lemma key_of_le: "idtab_le T U \<Longrightarrow> key_of T i = Some k \<Longrightarrow> key_of U i = Some k"
  by (auto simp: key_of_def idtab_le_def Let_def nth_append split: if_splits)

lemma idtab_empty: "idtab_wf ([], [])" "idtab_used ([], []) = 0"
  by (simp_all add: idtab_wf_def idtab_used_def)

section \<open>A bit vector and a second set\<close>

text \<open>What the classes do not have in common: \<open>isOffsetValid\<close>, \<open>getPosition\<close> (\<open>getPointerID\<close>), the
  dereferenced iterator over the bit vector, the loops of \<open>removeAny\<close> and \<open>pointsToTarget\<close> over it, and
  whether no bit is set is asked by \<open>empty()\<close> or by \<open>size() == 0\<close>.\<close>

record 'g placing =
  pl_ids :: 'g
  pl_valid :: "ptr \<Rightarrow> bool"
  pl_pos :: "ptr \<Rightarrow> 'g \<Rightarrow> 64 word \<times> 'g"
  pl_ptr :: "'g \<Rightarrow> 64 word \<Rightarrow> ptr option"
  pl_removeAny :: "nat \<Rightarrow> 'g \<Rightarrow> SparseBitvector \<Rightarrow> (bool \<times> 'g \<times> SparseBitvector) option"
  pl_target :: "nat \<Rightarrow> 'g \<Rightarrow> SparseBitvector \<Rightarrow> bool \<times> 'g"
  pl_none :: "SparseBitvector \<Rightarrow> bool"

type_synonym bits_pts = "SparseBitvector \<times> ptr list"

definition bv_put :: "'g placing \<Rightarrow> ptr \<Rightarrow> 'g \<Rightarrow> SparseBitvector \<Rightarrow> bool \<times> 'g \<times> SparseBitvector" where
  "bv_put L p g b = (case pl_pos L p g of (i, g') \<Rightarrow> case sbv_set b i of (prev, b') \<Rightarrow> (\<not> prev, g', b'))"

definition bv_drop :: "'g placing \<Rightarrow> ptr \<Rightarrow> 'g \<Rightarrow> SparseBitvector \<Rightarrow> bool \<times> 'g \<times> SparseBitvector" where
  "bv_drop L p g b = (case pl_pos L p g of (i, g') \<Rightarrow> case sbv_unset b i of (c, b') \<Rightarrow> (c, g', b'))"

definition bv_pointsTo :: "'g placing \<Rightarrow> ptr \<Rightarrow> 'g \<Rightarrow> bits_pts \<Rightarrow> bool \<times> 'g" where
  "bv_pointsTo L p g s =
     (if pl_valid L p then (case pl_pos L p g of (i, g') \<Rightarrow> (sbv_get (fst s) i, g'))
      else (p \<in> set (snd s), g))"

definition bv_removeAny :: "'g placing \<Rightarrow> nat \<Rightarrow> 'g \<Rightarrow> bits_pts \<Rightarrow> (bool \<times> 'g \<times> bits_pts) option" where
  "bv_removeAny L t g s =
     map_option (\<lambda>(c, g', b). (c \<or> list_ex (\<lambda>q. fst q = t) (snd s), g', b, filter (\<lambda>q. fst q \<noteq> t) (snd s)))
       (pl_removeAny L t g (fst s))"

definition bv_addWithUnknownOffset :: "'g placing \<Rightarrow> nat \<Rightarrow> 'g \<Rightarrow> bits_pts \<Rightarrow> (bool \<times> 'g \<times> bits_pts) option" where
  "bv_addWithUnknownOffset L t g s =
     map_option (\<lambda>(_, g', b, ov). case bv_put L (t, getUnknown) g' b of (c, g'', b') \<Rightarrow> (c, g'', b', ov))
       (bv_removeAny L t g s)"

definition bv_add :: "'g placing \<Rightarrow> ptr \<Rightarrow> 'g \<Rightarrow> bits_pts \<Rightarrow> (bool \<times> 'g \<times> bits_pts) option" where
  "bv_add L p g s =
     (case bv_pointsTo L (any_offset p) g s of (there, g') \<Rightarrow>
        if there then Some (False, g', s)
        else if isUnknown (snd p) then bv_addWithUnknownOffset L (fst p) g' s
        else if pl_valid L p then (case bv_put L p g' (fst s) of (c, g'', b) \<Rightarrow> Some (c, g'', b, snd s))
        else Some (p \<notin> set (snd s), g', fst s, sset_insert p (snd s)))"

definition bv_unite :: "bits_pts \<Rightarrow> bits_pts \<Rightarrow> bool \<times> bits_pts" where
  "bv_unite s r =
     (case sbv_union (fst s) (fst r) of (c, b) \<Rightarrow> case simple_unite (snd s) (snd r) of (c', ov) \<Rightarrow> (c \<or> c', b, ov))"

definition bv_remove :: "'g placing \<Rightarrow> ptr \<Rightarrow> 'g \<Rightarrow> bits_pts \<Rightarrow> bool \<times> 'g \<times> bits_pts" where
  "bv_remove L p g s =
     (if pl_valid L p then (case bv_drop L p g (fst s) of (c, g', b) \<Rightarrow> (c, g', b, snd s))
      else (p \<in> set (snd s), g, fst s, filter (\<lambda>q. q \<noteq> p) (snd s)))"

definition bv_mayPointTo :: "'g placing \<Rightarrow> ptr \<Rightarrow> 'g \<Rightarrow> bits_pts \<Rightarrow> bool \<times> 'g" where
  "bv_mayPointTo L p g s =
     (case bv_pointsTo L p g s of (b, g') \<Rightarrow> if b then (True, g') else bv_pointsTo L (any_offset p) g' s)"

definition bv_isSingleton :: "'g placing \<Rightarrow> bits_pts \<Rightarrow> bool" where
  "bv_isSingleton L s = (sbv_size (fst s) = 1 \<and> snd s = [] \<or> pl_none L (fst s) \<and> length (snd s) = 1)"

definition bv_mustPointTo :: "'g placing \<Rightarrow> ptr \<Rightarrow> 'g \<Rightarrow> bits_pts \<Rightarrow> (bool \<times> 'g) option" where
  "bv_mustPointTo L p g s =
     (if isUnknown (snd p) then None
      else case bv_pointsTo L p g s of (b, g') \<Rightarrow> Some (b \<and> bv_isSingleton L s, g'))"

definition bv_pointsToTarget :: "'g placing \<Rightarrow> nat \<Rightarrow> 'g \<Rightarrow> bits_pts \<Rightarrow> bool \<times> 'g" where
  "bv_pointsToTarget L t g s =
     (case pl_target L t g (fst s) of (b, g') \<Rightarrow> (b \<or> list_ex (\<lambda>q. fst q = t) (snd s), g'))"

definition bv_isEmpty :: "'g placing \<Rightarrow> bits_pts \<Rightarrow> bool" where
  "bv_isEmpty L s = (pl_none L (fst s) \<and> snd s = [])"

definition bv_size :: "bits_pts \<Rightarrow> nat" where
  "bv_size s = sbv_size (fst s) + length (snd s)"

text \<open>The iterator: the bit vector first, then the second set; an index out of \<open>idVector\<close> is an error.\<close>

definition bv_elems :: "'g placing \<Rightarrow> 'g \<Rightarrow> bits_pts \<Rightarrow> ptr list option" where
  "bv_elems L g s = map_option (\<lambda>ps. ps @ snd s) (those (map (pl_ptr L g) (sbv_elems (fst s))))"

definition bv_ops :: "'g placing \<Rightarrow> ('g, bits_pts) pts_ops" where
  "bv_ops L = \<lparr>o_ids = pl_ids L, o_empty = ([], []), o_add = bv_add L, o_unite = bv_unite,
     o_remove = (\<lambda>p g s. Some (bv_remove L p g s)), o_removeAny = bv_removeAny L, o_clear = (\<lambda>_. ([], [])),
     o_pointsTo = bv_pointsTo L, o_mayPointTo = bv_mayPointTo L, o_mustPointTo = bv_mustPointTo L,
     o_pointsToTarget = bv_pointsToTarget L, o_isSingleton = bv_isSingleton L, o_isEmpty = bv_isEmpty L,
     o_size = bv_size, o_elems = bv_elems L\<rparr>"

section \<open>What a placing promises\<close>

definition bits_ok :: "'g placing \<Rightarrow> 'g \<Rightarrow> SparseBitvector \<Rightarrow> bool" where
  "bits_ok L g b = (sbv_wf b \<and> (\<forall>i. sbv_get b i \<longrightarrow> (\<exists>p. pl_ptr L g i = Some p \<and> pl_valid L p)))"

definition bits_ptrs :: "'g placing \<Rightarrow> 'g \<Rightarrow> SparseBitvector \<Rightarrow> ptr set" where
  "bits_ptrs L g b = {p. \<exists>i. sbv_get b i \<and> pl_ptr L g i = Some p}"

definition bv_inv :: "'g placing \<Rightarrow> 'g \<Rightarrow> bits_pts \<Rightarrow> bool" where
  "bv_inv L g s = (bits_ok L g (fst s) \<and> sorted_wrt (<) (snd s) \<and> (\<forall>p \<in> set (snd s). \<not> pl_valid L p))"

definition bv_abs :: "'g placing \<Rightarrow> 'g \<Rightarrow> bits_pts \<Rightarrow> ptr set" where
  "bv_abs L g s = bits_ptrs L g (fst s) \<union> set (snd s)"

locale placing_ok =
  fixes L :: "'g placing" and used :: "'g \<Rightarrow> nat" and gle :: "'g \<Rightarrow> 'g \<Rightarrow> bool"
  assumes ids0: "gle (pl_ids L) (pl_ids L)" "used (pl_ids L) = 0"
    and gle_wf: "gle g g' \<Longrightarrow> gle g g \<and> gle g' g'"
    and gle_trans: "gle g g' \<Longrightarrow> gle g' g'' \<Longrightarrow> gle g g''"
    and unknown_valid: "isUnknown (snd p) \<Longrightarrow> pl_valid L p"
    and pos_ok: "gle g g \<Longrightarrow> used g + 1 \<le> max_ids \<Longrightarrow> pl_valid L p \<Longrightarrow> pl_pos L p g = (i, g') \<Longrightarrow>
      gle g g' \<and> used g' \<le> used g + 1 \<and> pl_ptr L g' i = Some p"
    and ptr_inj: "gle g g \<Longrightarrow> pl_ptr L g i = Some p \<Longrightarrow> pl_ptr L g j = Some p \<Longrightarrow> i = j"
    and ptr_mono: "gle g g' \<Longrightarrow> pl_ptr L g i = Some p \<Longrightarrow> pl_ptr L g' i = Some p"
    and none_ok: "sbv_wf b \<Longrightarrow> pl_none L b = (b = [])"
    and removeAny_ok: "gle g g \<Longrightarrow> used g + 1 \<le> max_ids \<Longrightarrow> bits_ok L g b \<Longrightarrow>
      \<exists>g' b'. pl_removeAny L t g b = Some (\<exists>p \<in> bits_ptrs L g b. fst p = t, g', b') \<and> gle g g' \<and>
        used g' \<le> used g + 1 \<and> sbv_wf b' \<and>
        (\<forall>i. sbv_get b' i \<longleftrightarrow> sbv_get b i \<and> (\<forall>p. pl_ptr L g i = Some p \<longrightarrow> fst p \<noteq> t))"
    and target_ok: "gle g g \<Longrightarrow> used g + 1 \<le> max_ids \<Longrightarrow> bits_ok L g b \<Longrightarrow> pl_target L t g b = (c, g') \<Longrightarrow>
      gle g g' \<and> used g' \<le> used g + 1 \<and> c = (\<exists>p \<in> bits_ptrs L g b. fst p = t)"
begin

lemma bits_okE:
  assumes "bits_ok L g b" and "sbv_get b i"
  obtains p where "pl_ptr L g i = Some p" and "pl_valid L p"
  using assms unfolding bits_ok_def by blast

lemma bits_ptrs_get:
  assumes "gle g g" and "pl_ptr L g i = Some p"
  shows "(p \<in> bits_ptrs L g b) = sbv_get b i"
  unfolding bits_ptrs_def using assms(2) ptr_inj [OF assms] by blast

lemma bits_keep:
  assumes "gle g g'" and "bits_ok L g b"
  shows "bits_ok L g' b \<and> bits_ptrs L g' b = bits_ptrs L g b"
proof -
  have "pl_ptr L g' i = Some p \<longleftrightarrow> pl_ptr L g i = Some p" if "sbv_get b i" for i p
    using that assms(2) ptr_mono [OF assms(1)] by (fastforce simp: bits_ok_def)
  then show ?thesis using assms(2) by (auto simp: bits_ok_def bits_ptrs_def)
qed

lemma get_pos:
  assumes "gle g g" "used g + 1 \<le> max_ids" "bits_ok L g b" "pl_valid L p" "pl_pos L p g = (i, g')"
  shows "sbv_get b i = (p \<in> bits_ptrs L g b)"
proof -
  have g': "gle g g'" "pl_ptr L g' i = Some p" using pos_ok [OF assms(1,2,4,5)] by auto
  have "(p \<in> bits_ptrs L g' b) = sbv_get b i" using gle_wf [OF g'(1)] bits_ptrs_get g'(2) by blast
  then show ?thesis using bits_keep [OF g'(1) assms(3)] by simp
qed

lemma put_ok:
  assumes "gle g g" "used g + 1 \<le> max_ids" "bits_ok L g b" "pl_valid L p" "bv_put L p g b = (c, g', b')"
  shows "gle g g' \<and> used g' \<le> used g + 1 \<and> bits_ok L g' b' \<and> bits_ptrs L g' b' = insert p (bits_ptrs L g b) \<and>
    c = (p \<notin> bits_ptrs L g b)"
proof -
  obtain i where i: "pl_pos L p g = (i, g')" and b': "b' = snd (sbv_set b i)" and c: "c = (\<not> fst (sbv_set b i))"
    using assms(5) by (auto simp: bv_put_def split: prod.splits)
  note pos = pos_ok [OF assms(1,2,4) i]
  have k: "bits_ok L g' b" "bits_ptrs L g' b = bits_ptrs L g b" using bits_keep [OF _ assms(3)] pos by blast+
  have "sbv_wf b'" using k(1) by (simp add: bits_ok_def b' sbv_wf_set)
  moreover have "\<exists>q. pl_ptr L g' j = Some q \<and> pl_valid L q" if "sbv_get b' j" for j
    using that k(1) pos assms(4) unfolding bits_ok_def b' sbv_get_set by blast
  ultimately have "bits_ok L g' b'" by (simp only: bits_ok_def) blast
  moreover have "bits_ptrs L g' b' = insert p (bits_ptrs L g b)"
    unfolding k(2) [symmetric] using pos by (auto simp: bits_ptrs_def b' sbv_get_set)
  ultimately show ?thesis using pos c get_pos [OF assms(1-4) i] by (simp add: sbv_set_prev)
qed

lemma drop_ok:
  assumes "gle g g" "used g + 1 \<le> max_ids" "bits_ok L g b" "pl_valid L p" "bv_drop L p g b = (c, g', b')"
  shows "gle g g' \<and> used g' \<le> used g + 1 \<and> bits_ok L g' b' \<and> bits_ptrs L g' b' = bits_ptrs L g b - {p}"
proof -
  obtain i where i: "pl_pos L p g = (i, g')" and b': "b' = snd (sbv_unset b i)"
    using assms(5) by (auto simp: bv_drop_def split: prod.splits)
  note pos = pos_ok [OF assms(1,2,4) i]
  have k: "bits_ok L g' b" "bits_ptrs L g' b = bits_ptrs L g b" using bits_keep [OF _ assms(3)] pos by blast+
  have "bits_ok L g' b'" using k(1) by (simp add: bits_ok_def b' sbv_wf_unset sbv_get_unset)
  moreover have "bits_ptrs L g' b' = bits_ptrs L g' b - {p}"
  proof -
    have g': "gle g' g'" "pl_ptr L g' i = Some p" using pos gle_wf by blast+
    have "pl_ptr L g' j = Some q \<Longrightarrow> (j \<noteq> i) = (q \<noteq> p)" for j q
      by (metis option.inject ptr_inj [OF g'(1)] g'(2))
    then show ?thesis unfolding bits_ptrs_def b' sbv_get_unset by (intro set_eqI) (simp, metis)
  qed
  ultimately show ?thesis using pos k(2) by simp
qed

lemma removeAny_bits:
  assumes "gle g g" "used g + 1 \<le> max_ids" "bits_ok L g b"
  shows "\<exists>g' b'. pl_removeAny L t g b = Some (\<exists>p \<in> bits_ptrs L g b. fst p = t, g', b') \<and> gle g g' \<and>
    used g' \<le> used g + 1 \<and> bits_ok L g' b' \<and> bits_ptrs L g' b' = {p \<in> bits_ptrs L g b. fst p \<noteq> t}"
proof -
  obtain g' b' where r: "pl_removeAny L t g b = Some (\<exists>p \<in> bits_ptrs L g b. fst p = t, g', b')"
    "gle g g'" "used g' \<le> used g + 1" "sbv_wf b'"
    "\<And>i. sbv_get b' i \<longleftrightarrow> sbv_get b i \<and> (\<forall>p. pl_ptr L g i = Some p \<longrightarrow> fst p \<noteq> t)"
    using removeAny_ok [OF assms, of t] by blast
  have "bits_ok L g b'" using assms(3) r(4,5) by (auto simp: bits_ok_def)
  moreover have "bits_ptrs L g b' = {p \<in> bits_ptrs L g b. fst p \<noteq> t}" using r(5) by (auto simp: bits_ptrs_def)
  ultimately show ?thesis using r bits_keep [OF r(2)] by auto
qed

lemma union_bits:
  assumes "gle g g" "bits_ok L g b" "bits_ok L g d"
  shows "bits_ok L g (snd (sbv_union b d)) \<and> bits_ptrs L g (snd (sbv_union b d)) = bits_ptrs L g b \<union> bits_ptrs L g d \<and>
    fst (sbv_union b d) = (\<not> bits_ptrs L g d \<subseteq> bits_ptrs L g b)"
proof -
  have wf: "sbv_wf b" "sbv_wf d" using assms by (simp_all add: bits_ok_def)
  have get: "sbv_get (snd (sbv_union b d)) i = (sbv_get b i \<or> sbv_get d i)" for i using wf(2) by (rule sbv_get_union)
  have ok: "bits_ok L g (snd (sbv_union b d))" using assms(2,3) wf by (auto simp: bits_ok_def get sbv_wf_union)
  have ptrs: "bits_ptrs L g (snd (sbv_union b d)) = bits_ptrs L g b \<union> bits_ptrs L g d" by (auto simp: bits_ptrs_def get)
  have "(\<forall>i. sbv_get d i \<longrightarrow> sbv_get b i) = (bits_ptrs L g d \<subseteq> bits_ptrs L g b)"
  proof
    assume l: "\<forall>i. sbv_get d i \<longrightarrow> sbv_get b i"
    then show "bits_ptrs L g d \<subseteq> bits_ptrs L g b" unfolding bits_ptrs_def by blast
  next
    assume r: "bits_ptrs L g d \<subseteq> bits_ptrs L g b"
    show "\<forall>i. sbv_get d i \<longrightarrow> sbv_get b i"
    proof (intro allI impI)
      fix i assume i: "sbv_get d i"
      with assms(3) obtain p where "pl_ptr L g i = Some p" by (rule bits_okE)
      then show "sbv_get b i" using r i bits_ptrs_get [OF assms(1)] by blast
    qed
  qed
  moreover have "(snd (sbv_union b d) = b) = (\<forall>i. sbv_get d i \<longrightarrow> sbv_get b i)"
    using sbv_ext [OF sbv_wf_union [OF wf] wf(1)] get by metis
  ultimately show ?thesis using ok ptrs sbv_union_changed [OF wf] by simp
qed

lemma size_bits:
  assumes "gle g g" "bits_ok L g b"
  shows "finite (bits_ptrs L g b) \<and> card (bits_ptrs L g b) = sbv_size b"
proof -
  have wf: "sbv_wf b" using assms(2) by (simp add: bits_ok_def)
  have eq: "bits_ptrs L g b = (\<lambda>i. the (pl_ptr L g i)) ` sbv_abs b"
  proof (intro set_eqI iffI)
    fix p assume "p \<in> bits_ptrs L g b"
    then obtain i where "sbv_get b i" "pl_ptr L g i = Some p" unfolding bits_ptrs_def by blast
    then show "p \<in> (\<lambda>i. the (pl_ptr L g i)) ` sbv_abs b" by (intro image_eqI [of _ _ i]) simp_all
  next
    fix p assume "p \<in> (\<lambda>i. the (pl_ptr L g i)) ` sbv_abs b"
    then obtain i where i: "sbv_get b i" "p = the (pl_ptr L g i)" by auto
    obtain q where "pl_ptr L g i = Some q" using assms(2) i(1) by (rule bits_okE)
    with i show "p \<in> bits_ptrs L g b" by (simp only: bits_ptrs_def mem_Collect_eq option.sel) blast
  qed
  have inj: "inj_on (\<lambda>i. the (pl_ptr L g i)) (sbv_abs b)"
  proof (rule inj_onI)
    fix i j assume ij: "i \<in> sbv_abs b" "j \<in> sbv_abs b" "the (pl_ptr L g i) = the (pl_ptr L g j)"
    obtain p where p: "pl_ptr L g i = Some p" by (rule bits_okE [OF assms(2) ij(1) [unfolded sbv_mem]])
    obtain q where q: "pl_ptr L g j = Some q" by (rule bits_okE [OF assms(2) ij(2) [unfolded sbv_mem]])
    have "pl_ptr L g j = Some p" using p q ij(3) by simp
    then show "i = j" by (rule ptr_inj [OF assms(1) p])
  qed
  have "finite (sbv_abs b)" by simp
  then show ?thesis unfolding eq card_image [OF inj] sbv_size_card [OF wf] by (simp only: finite_imageI)
qed

lemma elems_bits:
  assumes "bits_ok L g b"
  shows "\<exists>ps. those (map (pl_ptr L g) (sbv_elems b)) = Some ps \<and> set ps = bits_ptrs L g b"
proof -
  have those: "\<exists>ps. those (map f is) = Some ps \<and> set ps = {p. \<exists>i \<in> set is. f i = Some p}"
    if "\<forall>i \<in> set is. \<exists>p. f i = Some p" for f :: "64 word \<Rightarrow> ptr option" and "is"
    using that by (induction "is") auto
  have "set (sbv_elems b) = {i. sbv_get b i}" using assms set_sbv_elems by (simp add: bits_ok_def sbv_abs_def)
  moreover have "\<exists>p. pl_ptr L g i = Some p" if "sbv_get b i" for i using assms that by (auto elim: bits_okE)
  ultimately show ?thesis using those [of "sbv_elems b" "pl_ptr L g"] by (simp add: bits_ptrs_def)
qed

lemma empty_bits: "bits_ok L g b \<Longrightarrow> pl_none L b = (bits_ptrs L g b = {})"
proof -
  assume b: "bits_ok L g b"
  then have "b = [] \<longleftrightarrow> (\<forall>i. \<not> sbv_get b i)" using sbv_nonempty [of b] by (auto simp: bits_ok_def)
  then show ?thesis using b none_ok by (auto simp: bits_ok_def bits_ptrs_def)
qed

text \<open>The pair keeps the contract of a points-to set.\<close>

lemma bv_invD:
  assumes "bv_inv L g s"
  shows "bits_ok L g (fst s)" and "sorted_wrt (<) (snd s)" and "p \<in> set (snd s) \<Longrightarrow> \<not> pl_valid L p"
  using assms unfolding bv_inv_def by blast+

lemma bits_ptrs_valid: "bits_ok L g b \<Longrightarrow> p \<in> bits_ptrs L g b \<Longrightarrow> pl_valid L p"
  unfolding bits_ok_def bits_ptrs_def by auto

lemma bv_abs_split:
  assumes "bv_inv L g s"
  shows "pl_valid L p \<Longrightarrow> (p \<in> bv_abs L g s) = (p \<in> bits_ptrs L g (fst s))"
    and "\<not> pl_valid L p \<Longrightarrow> (p \<in> bv_abs L g s) = (p \<in> set (snd s))"
  unfolding bv_abs_def using bv_invD [OF assms] bits_ptrs_valid by blast+

lemma bv_pointsTo_ok:
  assumes "gle g g" "used g + 1 \<le> max_ids" "bv_inv L g s" "bv_pointsTo L p g s = (c, g')"
  shows "gle g g' \<and> used g' \<le> used g + 1 \<and> c = (p \<in> bv_abs L g s)"
proof (cases "pl_valid L p")
  case True
  obtain i where i: "pl_pos L p g = (i, g')" "c = sbv_get (fst s) i"
    using assms(4) True by (auto simp: bv_pointsTo_def split: prod.splits)
  show ?thesis using pos_ok [OF assms(1,2) True i(1)] get_pos [OF assms(1,2) bv_invD(1) [OF assms(3)] True i(1)] i(2)
      bv_abs_split(1) [OF assms(3) True] by simp
next
  case False
  then show ?thesis using assms(1,4) bv_abs_split(2) [OF assms(3) False] by (simp add: bv_pointsTo_def)
qed

lemma bv_keep:
  assumes "gle g g'" "bv_inv L g s"
  shows "bv_inv L g' s \<and> bv_abs L g' s = bv_abs L g s"
  using bits_keep [OF assms(1)] assms(2) by (simp add: bv_inv_def bv_abs_def)

lemma bv_removeAny_ok:
  assumes "gle g g" "used g + 1 \<le> max_ids" "bv_inv L g s"
  shows "\<exists>g' s'. bv_removeAny L t g s = Some (\<exists>p \<in> bv_abs L g s. fst p = t, g', s') \<and> gle g g' \<and>
    used g' \<le> used g + 1 \<and> bv_inv L g' s' \<and> bv_abs L g' s' = {p \<in> bv_abs L g s. fst p \<noteq> t}"
proof -
  obtain g' b' where r: "pl_removeAny L t g (fst s) = Some (\<exists>p \<in> bits_ptrs L g (fst s). fst p = t, g', b')"
    "gle g g'" "used g' \<le> used g + 1" "bits_ok L g' b'" "bits_ptrs L g' b' = {p \<in> bits_ptrs L g (fst s). fst p \<noteq> t}"
    using removeAny_bits [OF assms(1,2) bv_invD(1) [OF assms(3)], of t] by blast
  have c: "((\<exists>p \<in> bits_ptrs L g (fst s). fst p = t) \<or> list_ex (\<lambda>q. fst q = t) (snd s)) = (\<exists>p \<in> bv_abs L g s. fst p = t)"
    unfolding list_ex_iff bv_abs_def by blast
  have "bv_inv L g' (b', filter (\<lambda>q. fst q \<noteq> t) (snd s))" using r(4) assms(3) by (simp add: bv_inv_def sorted_wrt_filter)
  moreover have "bv_abs L g' (b', filter (\<lambda>q. fst q \<noteq> t) (snd s)) = {p \<in> bv_abs L g s. fst p \<noteq> t}"
    unfolding bv_abs_def fst_conv snd_conv r(5) by auto
  ultimately show ?thesis using r(1,2,3) by (simp add: bv_removeAny_def c)
qed

lemma bv_put_ok:
  assumes "gle g g" "used g + 1 \<le> max_ids" "bv_inv L g s" "pl_valid L p" "bv_put L p g (fst s) = (c, g', b')"
  shows "gle g g' \<and> used g' \<le> used g + 1 \<and> bv_inv L g' (b', snd s) \<and>
    bv_abs L g' (b', snd s) = insert p (bv_abs L g s) \<and> c = (p \<notin> bv_abs L g s)"
  using put_ok [OF assms(1,2) bv_invD(1) [OF assms(3)] assms(4,5)] assms(3) bv_abs_split(1) [OF assms(3,4)]
  by (simp add: bv_inv_def bv_abs_def)

lemma bv_addWithUnknownOffset_ok:
  assumes "gle g g" "used g + 2 \<le> max_ids" "bv_inv L g s"
  shows "\<exists>g' s'. bv_addWithUnknownOffset L t g s = Some (True, g', s') \<and> gle g g' \<and> used g' \<le> used g + 2 \<and>
    bv_inv L g' s' \<and> bv_abs L g' s' = insert (t, getUnknown) {p \<in> bv_abs L g s. fst p \<noteq> t}"
proof -
  have u1: "used g + 1 \<le> max_ids" using assms(2) by simp
  obtain g1 s1 where 1: "bv_removeAny L t g s = Some (\<exists>p \<in> bv_abs L g s. fst p = t, g1, s1)"
    "gle g g1" "used g1 \<le> used g + 1" "bv_inv L g1 s1" "bv_abs L g1 s1 = {p \<in> bv_abs L g s. fst p \<noteq> t}"
    using bv_removeAny_ok [OF assms(1) u1 assms(3), of t] by blast
  obtain c g' b' where 2: "bv_put L (t, getUnknown) g1 (fst s1) = (c, g', b')" by (metis surj_pair)
  have g1: "gle g1 g1" "used g1 + 1 \<le> max_ids" "pl_valid L (t, getUnknown)"
    using gle_wf [OF 1(2)] 1(3) assms(2) unknown_valid [of "(t, getUnknown)"] getUnknown_isUnknown by auto
  note p = bv_put_ok [OF g1(1,2) 1(4) g1(3) 2]
  have "bv_addWithUnknownOffset L t g s = Some (c, g', b', snd s1)"
    using 2 by (cases s1) (simp add: bv_addWithUnknownOffset_def 1(1))
  moreover have c using p 1(5) by simp
  ultimately show ?thesis using p 1(2,3,5) gle_trans by auto
qed

lemma bv_add_ok:
  assumes "gle g g" "used g + 3 \<le> max_ids" "bv_inv L g s"
  shows "\<exists>g' s'. bv_add L p g s = Some (spec_add p (bv_abs L g s) \<noteq> bv_abs L g s, g', s') \<and> gle g g' \<and>
    used g' \<le> used g + 3 \<and> bv_inv L g' s' \<and> bv_abs L g' s' = spec_add p (bv_abs L g s)"
proof -
  obtain there g1 where h: "bv_pointsTo L (any_offset p) g s = (there, g1)" by fastforce
  have 1: "gle g g1" "used g1 \<le> used g + 1" "there = (any_offset p \<in> bv_abs L g s)"
    using bv_pointsTo_ok [OF assms(1) _ assms(3) h] assms(2) by simp_all
  have g1: "gle g1 g1" "used g1 + 2 \<le> max_ids" "used g1 + 1 \<le> max_ids" "bv_inv L g1 s" "bv_abs L g1 s = bv_abs L g s"
    using gle_wf [OF 1(1)] 1(2) assms(2) bv_keep [OF 1(1) assms(3)] by auto
  consider (old) there | (unknown) "\<not> there" "isUnknown (snd p)" | (bit) "\<not> there" "\<not> isUnknown (snd p)" "pl_valid L p"
    | (second) "\<not> there" "\<not> isUnknown (snd p)" "\<not> pl_valid L p" by blast
  then show ?thesis
  proof cases
    case old
    then show ?thesis using 1 g1 by (auto simp: bv_add_def h spec_add_def)
  next
    case unknown
    have p: "(fst p, getUnknown) = p" using unknown(2) any_offset_eq by (simp add: any_offset_def)
    have new: "p \<notin> bv_abs L g s" using unknown any_offset_eq 1(3) by metis
    from bv_addWithUnknownOffset_ok [OF g1(1,2,4), of "fst p"]
    obtain g' s' where a: "bv_addWithUnknownOffset L (fst p) g1 s = Some (True, g', s')" "gle g1 g'" "used g' \<le> used g1 + 2"
      "bv_inv L g' s'" "bv_abs L g' s' = insert p {q \<in> bv_abs L g s. fst q \<noteq> fst p}" unfolding p g1(5) by blast
    have "spec_add p (bv_abs L g s) = insert p {q \<in> bv_abs L g s. fst q \<noteq> fst p}"
      using unknown 1(3) by (simp add: spec_add_def)
    then show ?thesis using a unknown new 1(1,2) gle_trans [OF 1(1) a(2)] by (auto simp: bv_add_def h)
  next
    case bit
    obtain c g' b' where a: "bv_put L p g1 (fst s) = (c, g', b')" by (metis surj_pair)
    have "spec_add p (bv_abs L g s) = insert p (bv_abs L g s)" using bit 1(3) by (simp add: spec_add_def)
    then show ?thesis using bv_put_ok [OF g1(1,3,4) bit(3) a] bit a g1(5) 1(1,2) gle_trans by (auto simp: bv_add_def h)
  next
    case second
    have "spec_add p (bv_abs L g s) = insert p (bv_abs L g s)" using second 1(3) by (simp add: spec_add_def)
    moreover have "bv_inv L g1 (fst s, sset_insert p (snd s))" using g1(4) second(3) by (simp add: bv_inv_def)
    moreover have "bv_abs L g1 (fst s, sset_insert p (snd s)) = insert p (bv_abs L g s)"
      unfolding g1(5) [symmetric] by (simp add: bv_abs_def)
    moreover have "(p \<notin> set (snd s)) = (insert p (bv_abs L g s) \<noteq> bv_abs L g s)"
      using bv_abs_split(2) [OF assms(3) second(3)] by auto
    ultimately show ?thesis using second 1(1,2) by (simp add: bv_add_def h)
  qed
qed

lemma bv_unite_ok:
  assumes "gle g g" "bv_inv L g s" "bv_inv L g r"
  shows "bv_inv L g (snd (bv_unite s r)) \<and> bv_abs L g (snd (bv_unite s r)) = bv_abs L g s \<union> bv_abs L g r \<and>
    fst (bv_unite s r) = (\<not> bv_abs L g r \<subseteq> bv_abs L g s)"
proof -
  note b = union_bits [OF assms(1) bv_invD(1) [OF assms(2)] bv_invD(1) [OF assms(3)]]
  note ov = simple_unite_ok [OF bv_invD(2) [OF assms(2)], of "snd r"]
  have e: "bv_unite s r = (fst (sbv_union (fst s) (fst r)) \<or> fst (simple_unite (snd s) (snd r)),
      snd (sbv_union (fst s) (fst r)), snd (simple_unite (snd s) (snd r)))"
    by (simp add: bv_unite_def split: prod.splits)
  have "bv_abs L g r \<subseteq> bv_abs L g s \<longleftrightarrow>
      bits_ptrs L g (fst r) \<subseteq> bits_ptrs L g (fst s) \<and> set (snd r) \<subseteq> set (snd s)"
    unfolding bv_abs_def using bits_ptrs_valid bv_invD [OF assms(2)] bv_invD [OF assms(3)] by blast
  moreover have "bv_inv L g (snd (bv_unite s r))"
    unfolding bv_inv_def e snd_conv fst_conv using b ov bv_invD(3) [OF assms(2)] bv_invD(3) [OF assms(3)] by blast
  moreover have "bv_abs L g (snd (bv_unite s r)) = bv_abs L g s \<union> bv_abs L g r"
    unfolding bv_abs_def e snd_conv fst_conv using b ov by blast
  ultimately show ?thesis using b ov by (simp add: e)
qed

lemma bv_disjoint: "bv_inv L g s \<Longrightarrow> bits_ptrs L g (fst s) \<inter> set (snd s) = {}"
  using bits_ptrs_valid bv_invD by blast

lemma bv_size_ok: "gle g g \<Longrightarrow> bv_inv L g s \<Longrightarrow> bv_size s = card (bv_abs L g s)"
  using size_bits [OF _ bv_invD(1)] bv_disjoint sorted_card [OF bv_invD(2)]
  by (simp add: bv_size_def bv_abs_def card_Un_disjoint)

lemma bv_isEmpty_ok: "bv_inv L g s \<Longrightarrow> bv_isEmpty L s = (bv_abs L g s = {})"
  using empty_bits [OF bv_invD(1)] by (simp add: bv_isEmpty_def bv_abs_def)

lemma bv_isSingleton_ok:
  assumes "gle g g" "bv_inv L g s"
  shows "bv_isSingleton L s = (card (bv_abs L g s) = 1)"
proof -
  note b = size_bits [OF assms(1) bv_invD(1) [OF assms(2)]]
  have "pl_none L (fst s) = (sbv_size (fst s) = 0)" using b empty_bits [OF bv_invD(1) [OF assms(2)]] by auto
  then show ?thesis unfolding bv_size_ok [OF assms, symmetric] bv_isSingleton_def bv_size_def
    by (cases "sbv_size (fst s)"; cases "snd s") auto
qed

lemma bv_remove_ok:
  assumes "gle g g" "used g + 1 \<le> max_ids" "bv_inv L g s"
  shows "\<exists>c g' s'. bv_remove L p g s = (c, g', s') \<and> gle g g' \<and> used g' \<le> used g + 1 \<and> bv_inv L g' s' \<and>
    bv_abs L g' s' = bv_abs L g s - {p}"
proof (cases "pl_valid L p")
  case True
  obtain c g' b' where a: "bv_drop L p g (fst s) = (c, g', b')" by (metis surj_pair)
  note d = drop_ok [OF assms(1,2) bv_invD(1) [OF assms(3)] True a]
  have "p \<notin> set (snd s)" using True bv_invD(3) [OF assms(3)] by blast
  then have "bv_abs L g' (b', snd s) = bv_abs L g s - {p}" using d by (auto simp: bv_abs_def)
  moreover have "bv_inv L g' (b', snd s)" using d assms(3) by (simp add: bv_inv_def)
  ultimately show ?thesis using d True a by (simp add: bv_remove_def)
next
  case False
  have "p \<notin> bits_ptrs L g (fst s)" using False bits_ptrs_valid [OF bv_invD(1) [OF assms(3)]] by blast
  then have "bv_abs L g (fst s, filter (\<lambda>q. q \<noteq> p) (snd s)) = bv_abs L g s - {p}" unfolding bv_abs_def by auto
  moreover have "bv_inv L g (fst s, filter (\<lambda>q. q \<noteq> p) (snd s))"
    using assms(3) by (simp add: bv_inv_def sorted_wrt_filter)
  ultimately show ?thesis using False assms(1) by (simp add: bv_remove_def)
qed

lemma bv_target_ok:
  assumes "gle g g" "used g + 1 \<le> max_ids" "bv_inv L g s" "bv_pointsToTarget L t g s = (c, g')"
  shows "gle g g' \<and> used g' \<le> used g + 1 \<and> c = (\<exists>p \<in> bv_abs L g s. fst p = t)"
proof -
  obtain c1 where a: "pl_target L t g (fst s) = (c1, g')" and c: "c = (c1 \<or> list_ex (\<lambda>q. fst q = t) (snd s))"
    using assms(4) by (auto simp: bv_pointsToTarget_def split: prod.splits)
  show ?thesis using target_ok [OF assms(1,2) bv_invD(1) [OF assms(3)] a]
    unfolding c list_ex_iff bv_abs_def by blast
qed

lemma bv_elems_ok:
  assumes "bv_inv L g s"
  shows "\<exists>ps. bv_elems L g s = Some ps \<and> set ps = bv_abs L g s"
  using elems_bits [OF bv_invD(1) [OF assms]] by (auto simp only: bv_elems_def option.map set_append bv_abs_def)

lemma start_ok: "bv_inv L g ([], []) \<and> bv_abs L g ([], []) = {}"
  by (simp add: bv_inv_def bv_abs_def bits_ok_def bits_ptrs_def)

end

sublocale placing_ok \<subseteq> pts: points_to_set "bv_ops L" used gle "bv_inv L" "bv_abs L" "\<lambda>_. True"
proof (unfold_locales, goal_cases)
  case (4 g g')
  then show ?case by (rule gle_wf)
next
  case (5 g g' g'')
  then show ?case by (rule gle_trans)
next
  case (6 g g' s)
  then show ?case by (rule bv_keep)
next
  case (7 g s p)
  then show ?case using bv_add_ok [of g s p] by (simp add: bv_ops_def)
next
  case (8 g s r c s')
  then show ?case using bv_unite_ok [of g s r] by (simp add: bv_ops_def)
next
  case (9 x t g s)
  have "used g + 1 \<le> max_ids" using 9 by simp
  from bv_removeAny_ok [OF 9(2) this 9(4), of t] show ?case
    by (simp only: bv_ops_def pts_ops.simps) (meson add_le_mono1 le_add_same_cancel1 le_trans nat_add_left_cancel_le numeral_le_iff one_le_numeral)
next
  case (11 g s p b g')
  then show ?case using bv_pointsTo_ok [of g s p b g'] by (simp add: bv_ops_def)
next
  case (12 p g s)
  then show ?case by (simp add: bv_ops_def bv_mayPointTo_def split: prod.splits)
next
  case (13 g s t b g')
  have "used g + 1 \<le> max_ids" using 13 by simp
  then show ?case using bv_target_ok [of g s t b g'] 13 by (simp add: bv_ops_def)
next
  case (14 g s)
  then show ?case using bv_isEmpty_ok [of g s] by (simp add: bv_ops_def)
next
  case (15 g s)
  then show ?case using bv_size_ok [of g s] by (simp add: bv_ops_def)
next
  case (16 g s)
  then show ?case using bv_elems_ok [of g s] by (simp add: bv_ops_def)
next
  case (17 x p g s)
  have "used g + 1 \<le> max_ids" using 17 by simp
  from bv_remove_ok [OF 17(2) this 17(4), of p]
  obtain c g' s' where "bv_remove L p g s = (c, g', s')" "gle g g'" "used g' \<le> used g + 1" "bv_inv L g' s'"
    "bv_abs L g' s' = bv_abs L g s - {p}" by blast
  then show ?case by (simp add: bv_ops_def)
next
  case (18 x g s)
  then show ?case using bv_isSingleton_ok [of g s] by (simp add: bv_ops_def)
next
  case (19 x p g s)
  then show ?case by (simp add: bv_ops_def bv_mustPointTo_def split: prod.splits)
qed (simp_all add: bv_ops_def start_ok ids0)

end
