(* ===== verification/Points_To_Classes.thy ===== *)
theory Points_To_Classes
  imports Points_To_Bits
begin

text \<open>
  The classes that keep their pointers in a bit vector, as placings of \<open>Points_To_Bits\<close>, and the
  approximating class \<^verbatim>\<open>SeparateOffsetsPointsToSet.h\<close>. \<^verbatim>\<open>PointerIdPointsToSet.h\<close> has no second set.
\<close>

section \<open>Numbered pointers\<close>

definition pid_toRemove :: "nat \<Rightarrow> ptr idtab \<Rightarrow> SparseBitvector \<Rightarrow> 64 word list option" where
  "pid_toRemove t T b =
     (if list_ex (\<lambda>i. key_of T i = None) (sbv_elems b) then None
      else Some (filter (\<lambda>i. fst (the (key_of T i)) = t) (sbv_elems b)))"

definition pid_removeAny :: "nat \<Rightarrow> ptr idtab \<Rightarrow> SparseBitvector \<Rightarrow> (bool \<times> ptr idtab \<times> SparseBitvector) option" where
  "pid_removeAny t T b =
     map_option (\<lambda>is. (is \<noteq> [], T, foldl (\<lambda>b i. snd (sbv_unset b i)) b is)) (pid_toRemove t T b)"

definition pid_target :: "nat \<Rightarrow> ptr idtab \<Rightarrow> SparseBitvector \<Rightarrow> bool \<times> ptr idtab" where
  "pid_target t T b = (list_ex (\<lambda>(p, i). fst p = t \<and> sbv_get b i) (fst T), T)"

definition apid_valid :: "ptr \<Rightarrow> bool" where
  "apid_valid p = (isUnknown (snd p) \<or> off (snd p) mod 4 = 0)"

definition numbered :: "(ptr \<Rightarrow> bool) \<Rightarrow> ptr idtab placing" where
  "numbered valid = \<lparr>pl_ids = ([], []), pl_valid = valid, pl_pos = get_id, pl_ptr = key_of,
     pl_removeAny = pid_removeAny, pl_target = pid_target, pl_none = sbv_empty\<rparr>"

lemma sbv_unset_all:
  "sbv_wf S \<Longrightarrow> sbv_wf (foldl (\<lambda>b i. snd (sbv_unset b i)) S is) \<and>
    (\<forall>j. sbv_get (foldl (\<lambda>b i. snd (sbv_unset b i)) S is) j = (sbv_get S j \<and> j \<notin> set is))"
  by (induction "is" arbitrary: S) (auto simp: sbv_wf_unset sbv_get_unset)

lemma pid_removeAny_ok:
  assumes "sbv_wf b" and "\<And>i. sbv_get b i \<Longrightarrow> \<exists>p. key_of T i = Some p"
  shows "\<exists>b'. pid_removeAny t T b = Some (\<exists>i p. sbv_get b i \<and> key_of T i = Some p \<and> fst p = t, T, b') \<and> sbv_wf b' \<and>
    (\<forall>i. sbv_get b' i \<longleftrightarrow> sbv_get b i \<and> (\<forall>p. key_of T i = Some p \<longrightarrow> fst p \<noteq> t))"
proof -
  let ?is = "filter (\<lambda>i. fst (the (key_of T i)) = t) (sbv_elems b)"
  have el: "set (sbv_elems b) = {i. sbv_get b i}" using set_sbv_elems [OF assms(1)] by (simp add: sbv_abs_def)
  have "\<not> list_ex (\<lambda>i. key_of T i = None) (sbv_elems b)" using assms(2) by (force simp: list_ex_iff el)
  then have r: "pid_removeAny t T b = Some (?is \<noteq> [], T, foldl (\<lambda>b i. snd (sbv_unset b i)) b ?is)"
    by (simp add: pid_removeAny_def pid_toRemove_def)
  have "(?is \<noteq> []) = (\<exists>i p. sbv_get b i \<and> key_of T i = Some p \<and> fst p = t)"
    using assms(2) by (fastforce simp: filter_empty_conv el)
  moreover have "sbv_get (foldl (\<lambda>b i. snd (sbv_unset b i)) b ?is) i \<longleftrightarrow>
      sbv_get b i \<and> (\<forall>p. key_of T i = Some p \<longrightarrow> fst p \<noteq> t)" for i
  proof -
    have "sbv_get (foldl (\<lambda>b i. snd (sbv_unset b i)) b ?is) i = (sbv_get b i \<and> i \<notin> set ?is)"
      using sbv_unset_all [OF assms(1)] by blast
    moreover have "i \<in> set ?is \<longleftrightarrow> sbv_get b i \<and> fst (the (key_of T i)) = t" by (simp add: el)
    ultimately show ?thesis using assms(2) [of i] by fastforce
  qed
  ultimately show ?thesis unfolding r using sbv_unset_all [OF assms(1), of ?is]
    by (intro exI [of _ "foldl (\<lambda>b i. snd (sbv_unset b i)) b ?is"]) (simp only: simp_thms)
qed

lemma pid_target_ok:
  assumes "idtab_wf T" and "\<And>i. sbv_get b i \<Longrightarrow> \<exists>p. key_of T i = Some p"
  shows "fst (pid_target t T b) = (\<exists>i p. sbv_get b i \<and> key_of T i = Some p \<and> fst p = t)"
proof -
  have "(p, i) \<in> set (fst T) \<longleftrightarrow> key_of T i = Some p" for p i
    using map_of_in_set [OF idtab_wfD(1) [OF assms(1)]] key_of_id(1) [OF assms(1)] id_key_of [OF assms(1)] by metis
  then show ?thesis by (fastforce simp: pid_target_def list_ex_iff)
qed

lemma numbered_bits: "bits_ok (numbered v) T b \<Longrightarrow> sbv_wf b \<and> (\<forall>i. sbv_get b i \<longrightarrow> (\<exists>p. key_of T i = Some p))"
  unfolding bits_ok_def numbered_def by fastforce

lemma numbered_ptrs: "(\<exists>p \<in> bits_ptrs (numbered v) T b. fst p = t) = (\<exists>i p. sbv_get b i \<and> key_of T i = Some p \<and> fst p = t)"
  unfolding bits_ptrs_def numbered_def by auto

lemma numbered_ok:
  assumes "\<And>p. isUnknown (snd p) \<Longrightarrow> v p"
  shows "placing_ok (numbered v) idtab_used idtab_le"
proof (unfold_locales, goal_cases)
  case (3 g g')
  then show ?case by (rule idtab_le_wf)
next
  case (4 g g' g'')
  then show ?case by (rule idtab_le_trans)
next
  case (6 g p i g')
  then show ?case using get_id_ok [of g p i g'] by (simp add: numbered_def idtab_le_def)
next
  case (7 g i p j)
  then show ?case using key_of_id(1) [of g i p] key_of_id(1) [of g j p] by (simp add: numbered_def idtab_le_wf(2))
next
  case (8 g g' i p)
  then show ?case using key_of_le [of g g' i p] by (simp add: numbered_def)
next
  case (10 g b t)
  have "sbv_wf b" "\<And>i. sbv_get b i \<Longrightarrow> \<exists>p. key_of g i = Some p" using numbered_bits [OF 10(3)] by blast+
  from pid_removeAny_ok [OF this, of t]
  obtain b' where "pid_removeAny t g b = Some (\<exists>i p. sbv_get b i \<and> key_of g i = Some p \<and> fst p = t, g, b')" "sbv_wf b'"
    "\<forall>i. sbv_get b' i \<longleftrightarrow> sbv_get b i \<and> (\<forall>p. key_of g i = Some p \<longrightarrow> fst p \<noteq> t)" by blast
  then show ?case unfolding numbered_ptrs using 10(1) by (intro exI [of _ g] exI [of _ b']) (simp add: numbered_def)
next
  case (11 g b t c g')
  have "\<And>i. sbv_get b i \<Longrightarrow> \<exists>p. key_of g i = Some p" using numbered_bits [OF 11(3)] by blast
  from pid_target_ok [OF _ this, where t = t] 11(1,4) show ?case unfolding numbered_ptrs
    by (auto simp: numbered_def pid_target_def idtab_le_def)
qed (simp_all add: assms numbered_def sbv_empty_def idtab_empty idtab_le_wf(2))

definition apid_ops :: "(ptr idtab, bits_pts) pts_ops" where
  "apid_ops = bv_ops (numbered apid_valid)"

interpretation apid: placing_ok "numbered apid_valid" idtab_used idtab_le
  by (rule numbered_ok) (simp add: apid_valid_def)

section \<open>PointerIdPointsToSet\<close>

definition pid_set :: "ptr \<Rightarrow> ptr idtab \<Rightarrow> SparseBitvector \<Rightarrow> bool \<times> ptr idtab \<times> SparseBitvector" where
  "pid_set p T b = (case get_id p T of (i, T') \<Rightarrow> case sbv_set b i of (prev, b') \<Rightarrow> (\<not> prev, T', b'))"

definition pid_pointsTo :: "ptr \<Rightarrow> ptr idtab \<Rightarrow> SparseBitvector \<Rightarrow> bool \<times> ptr idtab" where
  "pid_pointsTo p T b = (case get_id p T of (i, T') \<Rightarrow> (sbv_get b i, T'))"

definition pid_addWithUnknownOffset :: "nat \<Rightarrow> ptr idtab \<Rightarrow> SparseBitvector \<Rightarrow> (bool \<times> ptr idtab \<times> SparseBitvector) option" where
  "pid_addWithUnknownOffset t T b =
     map_option (\<lambda>(_, T', b'). pid_set (t, getUnknown) T' b') (pid_removeAny t T b)"

definition pid_add :: "ptr \<Rightarrow> ptr idtab \<Rightarrow> SparseBitvector \<Rightarrow> (bool \<times> ptr idtab \<times> SparseBitvector) option" where
  "pid_add p T b =
     (case pid_pointsTo (any_offset p) T b of (there, T') \<Rightarrow>
        if there then Some (False, T', b)
        else if isUnknown (snd p) then pid_addWithUnknownOffset (fst p) T' b
        else Some (pid_set p T' b))"

definition pid_remove :: "ptr \<Rightarrow> ptr idtab \<Rightarrow> SparseBitvector \<Rightarrow> bool \<times> ptr idtab \<times> SparseBitvector" where
  "pid_remove p T b = (case get_id p T of (i, T') \<Rightarrow> case sbv_unset b i of (c, b') \<Rightarrow> (c, T', b'))"

definition pid_mayPointTo :: "ptr \<Rightarrow> ptr idtab \<Rightarrow> SparseBitvector \<Rightarrow> bool \<times> ptr idtab" where
  "pid_mayPointTo p T b =
     (case pid_pointsTo p T b of (r, T') \<Rightarrow> if r then (True, T') else pid_pointsTo (any_offset p) T' b)"

definition pid_isSingleton :: "SparseBitvector \<Rightarrow> bool" where
  "pid_isSingleton b = (sbv_size b = 1)"

definition pid_mustPointTo :: "ptr \<Rightarrow> ptr idtab \<Rightarrow> SparseBitvector \<Rightarrow> (bool \<times> ptr idtab) option" where
  "pid_mustPointTo p T b =
     (if isUnknown (snd p) then None
      else case pid_pointsTo p T b of (r, T') \<Rightarrow> Some (r \<and> pid_isSingleton b, T'))"

definition pid_elems :: "ptr idtab \<Rightarrow> SparseBitvector \<Rightarrow> ptr list option" where
  "pid_elems T b = those (map (key_of T) (sbv_elems b))"

definition pid_ops :: "(ptr idtab, SparseBitvector) pts_ops" where
  "pid_ops = \<lparr>o_ids = ([], []), o_empty = [], o_add = pid_add, o_unite = sbv_union,
     o_remove = (\<lambda>p T b. Some (pid_remove p T b)), o_removeAny = pid_removeAny, o_clear = (\<lambda>_. []),
     o_pointsTo = pid_pointsTo, o_mayPointTo = pid_mayPointTo, o_mustPointTo = pid_mustPointTo,
     o_pointsToTarget = pid_target, o_isSingleton = pid_isSingleton, o_isEmpty = sbv_empty,
     o_size = sbv_size, o_elems = pid_elems\<rparr>"

text \<open>It is a placing that has a position for every pointer, whose second set stays empty.\<close>

definition all_valid :: "ptr \<Rightarrow> bool" where
  "all_valid p = True"

interpretation allv: placing_ok "numbered all_valid" idtab_used idtab_le
  by (rule numbered_ok) (simp add: all_valid_def)

lemma allv_second: "bv_inv (numbered all_valid) T s \<Longrightarrow> snd s = []"
  using bv_inv_def [of "numbered all_valid" T s] by (cases s; cases "snd s") (auto simp: numbered_def all_valid_def)

lemma pid_set_bv: "bv_put (numbered v) p T b = pid_set p T b"
  by (simp add: bv_put_def pid_set_def numbered_def)

lemma pid_pointsTo_bv: "bv_pointsTo (numbered all_valid) p T (b, []) = pid_pointsTo p T b"
  by (simp add: bv_pointsTo_def pid_pointsTo_def numbered_def all_valid_def)

lemma pid_removeAny_bv: "bv_removeAny (numbered v) t T (b, []) = map_option (\<lambda>(c, T', b'). (c, T', b', [])) (pid_removeAny t T b)"
  by (simp add: bv_removeAny_def numbered_def)

lemma pid_add_bv: "bv_add (numbered all_valid) p T (b, []) = map_option (\<lambda>(c, T', b'). (c, T', b', [])) (pid_add p T b)"
proof -
  have u: "bv_addWithUnknownOffset (numbered all_valid) t T b =
      map_option (\<lambda>(c, T', b'). (c, T', b', [])) (pid_addWithUnknownOffset t T (fst b))" if "snd b = []" for t T b
    using that by (cases b; cases "pid_removeAny t T (fst b)") (auto simp: bv_addWithUnknownOffset_def
        pid_addWithUnknownOffset_def pid_removeAny_bv pid_set_bv split: prod.splits)
  have "pl_valid (numbered all_valid) p" by (simp add: numbered_def all_valid_def)
  then show ?thesis by (simp add: bv_add_def pid_add_def pid_pointsTo_bv u pid_set_bv split: prod.splits)
qed

lemma pid_remove_bv: "bv_remove (numbered all_valid) p T (b, []) = (case pid_remove p T b of (c, T', b') \<Rightarrow> (c, T', b', []))"
  by (simp add: bv_remove_def bv_drop_def pid_remove_def numbered_def all_valid_def split: prod.splits)

interpretation pid: points_to_set pid_ops idtab_used idtab_le "\<lambda>T b. bv_inv (numbered all_valid) T (b, [])"
  "\<lambda>T b. bv_abs (numbered all_valid) T (b, [])" "\<lambda>_. True"
proof (unfold_locales, goal_cases)
  case (4 g g')
  then show ?case by (rule idtab_le_wf)
next
  case (5 g g' g'')
  then show ?case by (rule idtab_le_trans)
next
  case (6 g g' s)
  then show ?case by (rule allv.bv_keep)
next
  case (7 T b p)
  from allv.bv_add_ok [OF 7, of p] obtain T' s' where
    r: "bv_add (numbered all_valid) p T (b, []) =
         Some (spec_add p (bv_abs (numbered all_valid) T (b, [])) \<noteq> bv_abs (numbered all_valid) T (b, []), T', s')"
      "idtab_le T T'" "idtab_used T' \<le> idtab_used T + 3" "bv_inv (numbered all_valid) T' s'"
      "bv_abs (numbered all_valid) T' s' = spec_add p (bv_abs (numbered all_valid) T (b, []))" by blast
  have "s' = (fst s', [])" using allv_second [OF r(4)] by (cases s') simp
  then show ?case using r unfolding pid_add_bv by (cases s') (auto simp: pid_ops_def)
next
  case (8 T b d c b')
  then show ?case using allv.bv_unite_ok [of T "(b, [])" "(d, [])"] by (simp add: pid_ops_def bv_unite_def simple_unite_def)
next
  case (9 x t T b)
  have "idtab_used T + 1 \<le> max_ids" using 9 by simp
  from allv.bv_removeAny_ok [OF 9(2) this 9(4), of t] obtain T' s' where
    r: "bv_removeAny (numbered all_valid) t T (b, []) = Some (\<exists>p \<in> bv_abs (numbered all_valid) T (b, []). fst p = t, T', s')"
      "idtab_le T T'" "idtab_used T' \<le> idtab_used T + 1" "bv_inv (numbered all_valid) T' s'"
      "bv_abs (numbered all_valid) T' s' = {p \<in> bv_abs (numbered all_valid) T (b, []). fst p \<noteq> t}" by blast
  have "s' = (fst s', [])" using allv_second [OF r(4)] by (cases s') simp
  then show ?case using r unfolding pid_removeAny_bv by (cases s') (auto simp: pid_ops_def)
next
  case (11 T b p c T')
  then show ?case using allv.bv_pointsTo_ok [of T "(b, [])" p c T'] by (simp add: pid_ops_def pid_pointsTo_bv)
next
  case (12 p T b)
  then show ?case by (simp add: pid_ops_def pid_mayPointTo_def split: prod.splits)
next
  case (13 T b t c T')
  have "idtab_used T + 1 \<le> max_ids" using 13 by simp
  moreover have "bv_pointsToTarget (numbered all_valid) t T (b, []) = pid_target t T b"
    by (simp add: bv_pointsToTarget_def numbered_def split: prod.splits)
  ultimately show ?case using allv.bv_target_ok [of T "(b, [])" t c T'] 13 by (simp add: pid_ops_def)
next
  case (14 T b)
  then show ?case using allv.bv_isEmpty_ok [of T "(b, [])"] by (simp add: pid_ops_def bv_isEmpty_def numbered_def)
next
  case (15 T b)
  then show ?case using allv.bv_size_ok [of T "(b, [])"] by (simp add: pid_ops_def bv_size_def)
next
  case (16 T b)
  then show ?case using allv.bv_elems_ok [of T "(b, [])"]
    by (simp add: pid_ops_def bv_elems_def pid_elems_def numbered_def option.map_id0 [unfolded id_def])
next
  case (17 x p T b)
  have "idtab_used T + 1 \<le> max_ids" using 17 by simp
  from allv.bv_remove_ok [OF 17(2) this 17(4), of p] obtain c T' s' where
    r: "bv_remove (numbered all_valid) p T (b, []) = (c, T', s')" "idtab_le T T'" "idtab_used T' \<le> idtab_used T + 1"
      "bv_inv (numbered all_valid) T' s'"
      "bv_abs (numbered all_valid) T' s' = bv_abs (numbered all_valid) T (b, []) - {p}" by blast
  have "s' = (fst s', [])" using allv_second [OF r(4)] by (cases s') simp
  then show ?case using r unfolding pid_remove_bv by (cases s') (auto simp: pid_ops_def split: prod.splits)
next
  case (18 x T b)
  then show ?case using allv.bv_isSingleton_ok [of T "(b, [])"] by (simp add: pid_ops_def bv_isSingleton_def pid_isSingleton_def)
next
  case (19 x p T b)
  then show ?case by (simp add: pid_ops_def pid_mustPointTo_def split: prod.splits)
qed (simp_all add: pid_ops_def allv.start_ok idtab_empty idtab_le_wf(2))

section \<open>Numbered targets\<close>

definition node_pos :: "nat \<Rightarrow> nat idtab \<Rightarrow> 64 word \<times> nat idtab" where
  "node_pos t T = (case get_id t T of (i, T') \<Rightarrow> ((i - 1) * 64, T'))"

definition slot_pos :: "(Offset \<Rightarrow> 64 word) \<Rightarrow> ptr \<Rightarrow> nat idtab \<Rightarrow> 64 word \<times> nat idtab" where
  "slot_pos slot p T = (case node_pos (fst p) T of (k, T') \<Rightarrow> (k + slot (snd p), T'))"

text \<open>The indices of the loops \<open>for (i = position; i < position + 64; i++)\<close>.\<close>

definition slot_range :: "64 word \<Rightarrow> 64 word list" where
  "slot_range k = (if k < k + 64 then map (\<lambda>n. k + of_nat n) [0..<64] else [])"

definition slot_removeAny :: "nat \<Rightarrow> nat idtab \<Rightarrow> SparseBitvector \<Rightarrow> (bool \<times> nat idtab \<times> SparseBitvector) option" where
  "slot_removeAny t T b =
     (case node_pos t T of (k, T') \<Rightarrow>
        case foldl (\<lambda>(c, b) i. case sbv_unset b i of (c', b') \<Rightarrow> (c \<or> c', b')) (False, b) (slot_range k) of
          (c, b') \<Rightarrow> Some (c, T', b'))"

definition slot_target :: "nat \<Rightarrow> nat idtab \<Rightarrow> SparseBitvector \<Rightarrow> bool \<times> nat idtab" where
  "slot_target t T b = (case node_pos t T of (k, T') \<Rightarrow> (list_ex (sbv_get b) (slot_range k), T'))"

definition slot_ptr :: "(64 word \<Rightarrow> Offset) \<Rightarrow> nat idtab \<Rightarrow> 64 word \<Rightarrow> ptr option" where
  "slot_ptr unslot T i =
     (let s = i mod 64; n = (i - s) div 64 + 1 in map_option (\<lambda>t. (t, unslot s)) (key_of T n))"

definition slots :: "(ptr \<Rightarrow> bool) \<Rightarrow> (Offset \<Rightarrow> 64 word) \<Rightarrow> (64 word \<Rightarrow> Offset) \<Rightarrow> nat idtab placing" where
  "slots valid slot unslot = \<lparr>pl_ids = ([], []), pl_valid = valid, pl_pos = slot_pos slot,
     pl_ptr = slot_ptr unslot, pl_removeAny = slot_removeAny, pl_target = slot_target,
     pl_none = (\<lambda>b. sbv_size b = 0)\<rparr>"

text \<open>\<^verbatim>\<open>SmallOffsetsPointsToSet.h\<close>: offsets up to 62 have a bit of their own, bit 63 is the unknown one.\<close>

definition small_valid :: "ptr \<Rightarrow> bool" where
  "small_valid p = (isUnknown (snd p) \<or> off (snd p) \<le> 62)"

definition small_slot :: "Offset \<Rightarrow> 64 word" where
  "small_slot f = (if isUnknown f then 63 else off f)"

definition small_unslot :: "64 word \<Rightarrow> Offset" where
  "small_unslot s = (if s = 63 then getUnknown else Offset s)"

definition small_ops :: "(nat idtab, bits_pts) pts_ops" where
  "small_ops = bv_ops (slots small_valid small_slot small_unslot)"

text \<open>\<^verbatim>\<open>AlignedSmallOffsetsPointsToSet.h\<close>: multiples of 4 up to \<open>62 * 4\<close>.\<close>

definition aso_valid :: "ptr \<Rightarrow> bool" where
  "aso_valid p = (isUnknown (snd p) \<or> off (snd p) \<le> 62 * 4 \<and> off (snd p) mod 4 = 0)"

definition aso_slot :: "Offset \<Rightarrow> 64 word" where
  "aso_slot f = (if isUnknown f then 63 else off f div 4)"

definition aso_unslot :: "64 word \<Rightarrow> Offset" where
  "aso_unslot s = (if s = 63 then getUnknown else Offset (s * 4))"

definition aso_ops :: "(nat idtab, bits_pts) pts_ops" where
  "aso_ops = bv_ops (slots aso_valid aso_slot aso_unslot)"

subsection \<open>Positions\<close>

lemma unat_node: "n < 2 ^ 57 \<Longrightarrow> unat (of_nat n * 64 :: 64 word) = 64 * n"
  by (simp add: unat_word_ariths unat_of_nat)

lemma unat_word_mod: "unat (i mod 64 :: 64 word) = unat i mod 64"
  by (simp add: unat_mod)

lemma slot_number: "unat ((i - i mod 64) div 64 :: 64 word) = unat i div 64"
proof -
  have "i mod 64 \<le> i" by (simp add: word_le_nat_alt unat_word_mod)
  then have "unat (i - i mod 64) = unat i - unat i mod 64" by (simp add: unat_sub unat_word_mod)
  then show ?thesis by (simp add: unat_div minus_mod_eq_div_mult)
qed

lemma slot_ptr_nth: "slot_ptr unslot T i =
    (if unat i div 64 < length (snd T) then Some (snd T ! (unat i div 64), unslot (i mod 64)) else None)"
  by (simp add: slot_ptr_def Let_def key_of_def slot_number)

lemma node_pos_ok:
  assumes "idtab_wf T" and "idtab_used T + 1 \<le> max_ids" and "node_pos t T = (k, T')"
  shows "idtab_le T T' \<and> idtab_used T' \<le> idtab_used T + 1 \<and>
    (\<exists>n < length (snd T'). snd T' ! n = t \<and> k = of_nat n * 64 \<and> n < 2 ^ 57)"
proof -
  obtain i where i: "get_id t T = (i, T')" "k = (i - 1) * 64" using assms(3) by (auto simp: node_pos_def split: prod.splits)
  note id = get_id_ok [OF assms(1,2) i(1)]
  have wf: "idtab_wf T'" using id by (simp add: idtab_le_def)
  obtain n where n: "n < length (snd T')" "snd T' ! n = t" "i = of_nat n + 1" using key_of_id(2) [OF wf] id by blast
  have "n < 2 ^ 57" using n(1) idtab_wfD(4) [OF wf] by (simp add: max_ids_def)
  then show ?thesis using id n i(2) by auto
qed

lemma node_slot:
  assumes "n < 2 ^ 57" and "s < (64 :: 64 word)"
  shows "unat (of_nat n * 64 + s) = 64 * n + unat s"
proof -
  have "unat s < 64" using assms(2) by (simp add: word_less_nat_alt)
  then show ?thesis using unat_node [OF assms(1)] assms(1) by (subst unat_add_lem [THEN iffD1]) auto
qed

lemma node_slot_div:
  assumes "n < 2 ^ 57" and "s < (64 :: 64 word)"
  shows "unat (of_nat n * 64 + s) div 64 = n" and "(of_nat n * 64 + s) mod 64 = s"
proof -
  have s: "unat s < 64" using assms(2) by (simp add: word_less_nat_alt)
  show "unat (of_nat n * 64 + s) div 64 = n" using node_slot [OF assms] s by simp
  have "unat ((of_nat n * 64 + s) mod 64) = unat s" using node_slot [OF assms] s by (simp add: unat_word_mod)
  then show "(of_nat n * 64 + s) mod 64 = s" by (simp add: word_unat_eq_iff)
qed

lemma set_slot_range:
  assumes "n < 2 ^ 57"
  shows "i \<in> set (slot_range (of_nat n * 64)) \<longleftrightarrow> unat i div 64 = n"
proof -
  have k: "unat (of_nat n * 64 :: 64 word) = 64 * n" by (rule unat_node [OF assms])
  have "unat (of_nat n * 64 + 64 :: 64 word) = 64 * n + 64" using k assms by (subst unat_add_lem [THEN iffD1]) auto
  then have "(of_nat n * 64 :: 64 word) < of_nat n * 64 + 64" using k by (simp add: word_less_nat_alt)
  then have r: "set (slot_range (of_nat n * 64)) = (\<lambda>m. of_nat n * 64 + of_nat m) ` {0..<64}" by (simp add: slot_range_def)
  have lt: "(of_nat m :: 64 word) < 64" if "m < 64" for m using that by (simp add: word_less_nat_alt unat_of_nat)
  show ?thesis
  proof
    assume "i \<in> set (slot_range (of_nat n * 64))"
    then obtain m where "m < 64" "i = of_nat n * 64 + of_nat m" unfolding r by auto
    then show "unat i div 64 = n" using node_slot_div(1) [OF assms lt] by blast
  next
    assume i: "unat i div 64 = n"
    have "unat (of_nat n * 64 + of_nat (unat i mod 64) :: 64 word) = 64 * n + unat i mod 64"
      using node_slot [OF assms lt [of "unat i mod 64"]] by (simp add: unat_of_nat)
    also have "\<dots> = unat i" using i by auto
    finally have "i = of_nat n * 64 + of_nat (unat i mod 64)" by (simp add: word_unat_eq_iff)
    then show "i \<in> set (slot_range (of_nat n * 64))" unfolding r by (intro image_eqI [of _ _ "unat i mod 64"]) simp_all
  qed
qed

lemma sbv_unset_found: "fst (sbv_unset S i) = (map_of S (shift_of i) \<noteq> None)"
  by (simp add: sbv_unset_def Let_def split: option.split)

lemma map_of_sbv_unset: "map_of (snd (sbv_unset S i)) k \<noteq> None \<Longrightarrow> map_of S k \<noteq> None"
  by (auto simp: sbv_unset_def Let_def split: option.splits if_splits)

text \<open>The 64 positions of a target are one bucket of the bit vector, and \<open>unset\<close> reports any bucket it finds.\<close>

lemma unset_bucket:
  assumes "\<forall>i \<in> set is. shift_of i = k" and "is \<noteq> []"
  shows "fst (foldl (\<lambda>(c, b) i. case sbv_unset b i of (c', b') \<Rightarrow> (c \<or> c', b')) (c, S) is) = (c \<or> map_of S k \<noteq> None)"
  using assms
proof (induction "is" arbitrary: c S)
  case (Cons i "is")
  have i: "shift_of i = k" and r: "\<forall>i \<in> set is. shift_of i = k" using Cons.prems(1) by simp_all
  show ?case
  proof (cases "is = []")
    case True
    then show ?thesis using sbv_unset_found [of S i] i by (simp add: case_prod_beta)
  next
    case False
    have "foldl (\<lambda>(c, b) i. case sbv_unset b i of (c', b') \<Rightarrow> (c \<or> c', b')) (c, S) (i # is) =
        foldl (\<lambda>(c, b) i. case sbv_unset b i of (c', b') \<Rightarrow> (c \<or> c', b')) (c \<or> map_of S k \<noteq> None, snd (sbv_unset S i)) is"
      using sbv_unset_found [of S i] i by (simp add: case_prod_beta)
    then show ?thesis using Cons.IH [OF r False, of "c \<or> map_of S k \<noteq> None" "snd (sbv_unset S i)"]
      map_of_sbv_unset [of S i k] by auto
  qed
qed simp

lemma unset_fold_snd:
  "snd (foldl (\<lambda>(c, b) i. case sbv_unset b i of (c', b') \<Rightarrow> (c \<or> c', b')) (c, S) is) = foldl (\<lambda>b i. snd (sbv_unset b i)) S is"
  by (induction "is" arbitrary: c S) (auto split: prod.split)

lemma slot_shift:
  assumes "n < 2 ^ 57" and "unat i div 64 = n"
  shows "shift_of i = of_nat n * 64"
proof -
  have "unat (shift_of i) = 64 * n" using assms(2) by (simp add: unat_shift_of minus_mod_eq_mult_div)
  then show ?thesis using unat_node [OF assms(1)] by (simp add: word_unat_eq_iff)
qed

lemma slot_bucket:
  assumes "sbv_wf S" and "n < 2 ^ 57"
  shows "map_of S (of_nat n * 64) \<noteq> None \<longleftrightarrow> (\<exists>i. unat i div 64 = n \<and> sbv_get S i)"
proof
  assume "map_of S (of_nat n * 64) \<noteq> None"
  then obtain w where w: "map_of S (of_nat n * 64) = Some w" by blast
  have k: "unat (of_nat n * 64 :: 64 word) mod 64 = 0" using unat_node [OF assms(2)] by simp
  have "w \<noteq> 0" "\<forall>m < 64. bit w m = sbv_get S (of_nat n * 64 + of_nat m)" using sbv_bucket_get [OF assms(1) k] w by blast+
  then obtain m where m: "m < 64" "sbv_get S (of_nat n * 64 + of_nat m)" by (auto simp: word64_eq_0_iff)
  have "(of_nat m :: 64 word) < 64" using m(1) by (simp add: word_less_nat_alt unat_of_nat)
  then show "\<exists>i. unat i div 64 = n \<and> sbv_get S i" using node_slot_div(1) [OF assms(2)] m(2) by blast
next
  assume "\<exists>i. unat i div 64 = n \<and> sbv_get S i"
  then obtain i where i: "unat i div 64 = n" "sbv_get S i" by blast
  then show "map_of S (of_nat n * 64) \<noteq> None" using slot_shift [OF assms(2) i(1)] by (auto simp: sbv_get_def split: option.splits)
qed

lemma slot_removeAny_ok:
  assumes "idtab_wf T" and "idtab_used T + 1 \<le> max_ids" and "sbv_wf b"
  shows "\<exists>T' b' n. slot_removeAny t T b = Some (\<exists>i. unat i div 64 = n \<and> sbv_get b i, T', b') \<and> idtab_le T T' \<and>
    idtab_used T' \<le> idtab_used T + 1 \<and> sbv_wf b' \<and> n < length (snd T') \<and> snd T' ! n = t \<and>
    (\<forall>i. sbv_get b' i \<longleftrightarrow> sbv_get b i \<and> unat i div 64 \<noteq> n)"
proof -
  obtain k T' where k: "node_pos t T = (k, T')" by (metis surj_pair)
  obtain n where n: "n < length (snd T')" "snd T' ! n = t" "k = of_nat n * 64" "n < 2 ^ 57"
    using node_pos_ok [OF assms(1,2) k] by blast
  let ?f = "foldl (\<lambda>(c, b) i. case sbv_unset b i of (c', b') \<Rightarrow> (c \<or> c', b')) (False, b) (slot_range k)"
  have range: "i \<in> set (slot_range k) \<longleftrightarrow> unat i div 64 = n" for i using set_slot_range [OF n(4)] n(3) by simp
  have "unat k div 64 = n" using unat_node [OF n(4)] n(3) by simp
  then have "k \<in> set (slot_range k)" using range by blast
  then have "slot_range k \<noteq> []" by auto
  moreover have "\<forall>i \<in> set (slot_range k). shift_of i = of_nat n * 64" using slot_shift [OF n(4)] range by blast
  ultimately have "fst ?f = (False \<or> map_of b (of_nat n * 64) \<noteq> None)" by (intro unset_bucket)
  then have c: "fst ?f = (\<exists>i. unat i div 64 = n \<and> sbv_get b i)"
    unfolding slot_bucket [OF assms(3) n(4)] by (simp only: simp_thms)
  have s: "sbv_wf (snd ?f)" "\<And>i. sbv_get (snd ?f) i \<longleftrightarrow> sbv_get b i \<and> unat i div 64 \<noteq> n"
    unfolding unset_fold_snd using sbv_unset_all [OF assms(3), of "slot_range k"] range by blast+
  have "slot_removeAny t T b = Some (fst ?f, T', snd ?f)" by (simp add: slot_removeAny_def k split: prod.split)
  then have r: "slot_removeAny t T b = Some (\<exists>i. unat i div 64 = n \<and> sbv_get b i, T', snd ?f)" unfolding c .
  show ?thesis
    using node_pos_ok [OF assms(1,2) k] by (intro exI conjI) (rule r | rule s n(1,2) | simp only: s(2) simp_thms)+
qed

lemma slot_target_ok:
  assumes "idtab_wf T" and "idtab_used T + 1 \<le> max_ids" and "slot_target t T b = (c, T')"
  shows "idtab_le T T' \<and> idtab_used T' \<le> idtab_used T + 1 \<and>
    (\<exists>n < length (snd T'). snd T' ! n = t \<and> c = (\<exists>i. unat i div 64 = n \<and> sbv_get b i))"
proof -
  obtain k where k: "node_pos t T = (k, T')" and c: "c = list_ex (sbv_get b) (slot_range k)"
    using assms(3) by (auto simp: slot_target_def split: prod.splits)
  note np = node_pos_ok [OF assms(1,2) k]
  obtain n where n: "n < length (snd T')" "snd T' ! n = t" "k = of_nat n * 64" "n < 2 ^ 57" using np by blast
  have "c = (\<exists>i. unat i div 64 = n \<and> sbv_get b i)" using set_slot_range [OF n(4)] n(3) by (auto simp: c list_ex_iff)
  then show ?thesis using np n(1,2) by blast
qed

subsection \<open>The placings\<close>

locale slot_code =
  fixes valid :: "ptr \<Rightarrow> bool" and slot :: "Offset \<Rightarrow> 64 word" and unslot :: "64 word \<Rightarrow> Offset"
  assumes unknown: "isUnknown (snd p) \<Longrightarrow> valid p"
    and slot_lt: "valid p \<Longrightarrow> slot (snd p) < 64"
    and unslot: "valid p \<Longrightarrow> unslot (slot (snd p)) = snd p"
    and inj: "s < 64 \<Longrightarrow> r < 64 \<Longrightarrow> unslot s = unslot r \<Longrightarrow> s = r"
begin

lemma target_of_ptr:
  assumes "idtab_wf T" and "n < length (snd T)" and "snd T ! n = t" and "slot_ptr unslot T i = Some p"
  shows "fst p = t \<longleftrightarrow> unat i div 64 = n"
  using assms idtab_wfD(2) [OF assms(1)] by (auto simp: slot_ptr_nth nth_eq_iff_index_eq split: if_splits)

lemma slot_ptr_le: "idtab_le T U \<Longrightarrow> slot_ptr unslot T i = Some p \<Longrightarrow> slot_ptr unslot U i = Some p"
  by (auto simp: slot_ptr_nth idtab_le_def nth_append split: if_splits)

lemma bits_target:
  assumes "idtab_le T T'" and "bits_ok (slots valid slot unslot) T b" and "n < length (snd T')" and "snd T' ! n = t"
  shows "(\<exists>p \<in> bits_ptrs (slots valid slot unslot) T b. fst p = t) = (\<exists>i. unat i div 64 = n \<and> sbv_get b i)"
    and "sbv_get b i \<Longrightarrow> (\<forall>p. slot_ptr unslot T i = Some p \<longrightarrow> fst p \<noteq> t) = (unat i div 64 \<noteq> n)"
proof -
  have wf: "idtab_wf T'" using assms(1) by (simp add: idtab_le_def)
  have ex: "\<exists>p. slot_ptr unslot T i = Some p" if "sbv_get b i" for i
    using assms(2) that by (fastforce simp: bits_ok_def slots_def)
  have tg: "fst p = t \<longleftrightarrow> unat i div 64 = n" if "slot_ptr unslot T i = Some p" for i p
    using target_of_ptr [OF wf assms(3,4) slot_ptr_le [OF assms(1) that]] .
  show "(\<exists>p \<in> bits_ptrs (slots valid slot unslot) T b. fst p = t) = (\<exists>i. unat i div 64 = n \<and> sbv_get b i)"
    unfolding bits_ptrs_def slots_def placing.simps mem_Collect_eq Bex_def using ex tg by metis
  show "sbv_get b i \<Longrightarrow> (\<forall>p. slot_ptr unslot T i = Some p \<longrightarrow> fst p \<noteq> t) = (unat i div 64 \<noteq> n)"
    using ex tg by metis
qed

lemma slots_pos:
  assumes "idtab_wf T" "idtab_used T + 1 \<le> max_ids" "valid p" "slot_pos slot p T = (i, T')"
  shows "idtab_le T T' \<and> idtab_used T' \<le> idtab_used T + 1 \<and> slot_ptr unslot T' i = Some p"
proof -
  obtain k where k: "node_pos (fst p) T = (k, T')" "i = k + slot (snd p)"
    using assms(4) by (auto simp: slot_pos_def split: prod.splits)
  note np = node_pos_ok [OF assms(1,2) k(1)]
  obtain n where n: "n < length (snd T')" "snd T' ! n = fst p" "k = of_nat n * 64" "n < 2 ^ 57" using np by blast
  have "slot_ptr unslot T' i = Some p"
    using n(1,2) node_slot_div [OF n(4) slot_lt [OF assms(3)]] unslot [OF assms(3)] by (simp add: slot_ptr_nth k(2) n(3))
  then show ?thesis using np by blast
qed

lemma slots_ptr_inj:
  assumes "idtab_wf T" "slot_ptr unslot T i = Some p" "slot_ptr unslot T j = Some p"
  shows "i = j"
proof -
  have "unat i div 64 = unat j div 64" "unslot (i mod 64) = unslot (j mod 64)"
    using assms(2,3) idtab_wfD(2) [OF assms(1)] by (auto simp: slot_ptr_nth nth_eq_iff_index_eq split: if_splits)
  moreover have lt: "i mod 64 < 64" "j mod 64 < (64 :: 64 word)" by (simp_all add: word_less_nat_alt unat_word_mod)
  ultimately have "unat i div 64 = unat j div 64" "unat (i mod 64) = unat (j mod 64)" using inj [OF lt] by simp_all
  then have "unat i = unat j" unfolding unat_word_mod by (metis div_mult_mod_eq)
  then show ?thesis by (simp add: word_unat_eq_iff)
qed

end

sublocale slot_code \<subseteq> pl: placing_ok "slots valid slot unslot" idtab_used idtab_le
proof (unfold_locales, goal_cases)
  case (3 g g')
  then show ?case by (rule idtab_le_wf)
next
  case (4 g g' g'')
  then show ?case by (rule idtab_le_trans)
next
  case (5 p)
  then show ?case using unknown by (simp add: slots_def)
next
  case (6 g p i g')
  then show ?case using slots_pos [of g p i g'] by (simp add: slots_def idtab_le_wf(2))
next
  case (7 g i p j)
  then show ?case using slots_ptr_inj [of g i p j] by (simp add: slots_def idtab_le_wf(2))
next
  case (8 g g' i p)
  then show ?case using slot_ptr_le [of g g' i p] by (simp add: slots_def)
next
  case (9 b)
  then show ?case using sbv_size_card [OF 9] sbv_empty_iff [OF 9] by (simp add: slots_def sbv_empty_def)
next
  case (10 g b t)
  have wf: "idtab_wf g" "sbv_wf b" using 10 by (simp_all add: idtab_le_wf(2) bits_ok_def)
  obtain T' b' n where r: "slot_removeAny t g b = Some (\<exists>i. unat i div 64 = n \<and> sbv_get b i, T', b')" "idtab_le g T'"
    "idtab_used T' \<le> idtab_used g + 1" "sbv_wf b'" "n < length (snd T')" "snd T' ! n = t"
    "\<forall>i. sbv_get b' i \<longleftrightarrow> sbv_get b i \<and> unat i div 64 \<noteq> n"
    using slot_removeAny_ok [OF wf(1) 10(2) wf(2)] by blast
  note bt = bits_target [OF r(2) 10(3) r(5,6)]
  show ?case
  proof (intro exI conjI)
    show "pl_removeAny (slots valid slot unslot) t g b =
        Some (\<exists>p \<in> bits_ptrs (slots valid slot unslot) g b. fst p = t, T', b')"
      unfolding bt(1) using r(1) by (simp add: slots_def)
    show "\<forall>i. sbv_get b' i \<longleftrightarrow> sbv_get b i \<and> (\<forall>p. pl_ptr (slots valid slot unslot) g i = Some p \<longrightarrow> fst p \<noteq> t)"
      using r(7) bt(2) unfolding slots_def placing.simps by blast
  qed (use r in simp_all)
next
  case (11 g b t c g')
  have wf: "idtab_wf g" using 11 by (simp add: idtab_le_wf(2))
  have "slot_target t g b = (c, g')" using 11(4) by (simp add: slots_def)
  from slot_target_ok [OF wf 11(2) this] obtain n where
    r: "idtab_le g g'" "idtab_used g' \<le> idtab_used g + 1" "n < length (snd g')" "snd g' ! n = t"
      "c = (\<exists>i. unat i div 64 = n \<and> sbv_get b i)" by blast
  show ?case using r bits_target(1) [OF r(1) 11(3) r(3,4)] by simp
qed (simp_all add: slots_def idtab_empty idtab_le_wf(2))

interpretation small: slot_code small_valid small_slot small_unslot
proof (unfold_locales, goal_cases)
  case (2 p)
  then show ?case by (auto simp: small_valid_def small_slot_def word_le_nat_alt word_less_nat_alt split: if_splits)
next
  case (3 p)
  then show ?case by (cases p) (auto simp: small_valid_def small_slot_def small_unslot_def getUnknown_isUnknown off_eq)
next
  case (4 s r)
  then show ?case by (auto simp: small_unslot_def getUnknown_def UNKNOWN_def split: if_splits)
qed (simp add: small_valid_def)

lemma aligned_word:
  assumes "f \<le> 62 * 4" and "f mod 4 = (0 :: 64 word)"
  shows "f div 4 < 63" and "f div 4 * 4 = f"
proof -
  have "unat f \<le> 248" "unat f mod 4 = 0" using assms by (simp_all add: word_le_nat_alt word_unat_eq_iff unat_mod)
  then show "f div 4 < 63" by (auto simp: word_less_nat_alt unat_div)
  show "f div 4 * 4 = f" using assms(2) by (metis add.right_neutral div_mult_mod_eq)
qed

interpretation aso: slot_code aso_valid aso_slot aso_unslot
proof (unfold_locales, goal_cases)
  case (2 p)
  show ?case
  proof (cases "isUnknown (snd p)")
    case False
    then have "off (snd p) \<le> 62 * 4" "off (snd p) mod 4 = 0" using 2 by (simp_all only: aso_valid_def simp_thms)
    then have "off (snd p) div 4 < 63" by (rule aligned_word(1))
    also have "(63 :: 64 word) < 64" by simp
    finally show ?thesis using False by (simp add: aso_slot_def)
  qed (simp add: aso_slot_def)
next
  case (3 p)
  show ?case
  proof (cases "isUnknown (snd p)")
    case False
    then have a: "off (snd p) \<le> 62 * 4" "off (snd p) mod 4 = 0" using 3 by (simp_all only: aso_valid_def simp_thms)
    have "off (snd p) div 4 \<noteq> 63" using aligned_word(1) [OF a] by (rule less_imp_neq)
    then show ?thesis using False aligned_word(2) [OF a] by (simp only: aso_slot_def aso_unslot_def if_False Offset.collapse)
  qed (simp add: aso_slot_def aso_unslot_def getUnknown_isUnknown)
next
  case (4 s r)
  have m: "unat (w * 4) = 4 * unat w" if "w < 64" for w :: "64 word"
    using that by (simp add: word_less_nat_alt unat_word_ariths)
  have u: "w * 4 \<noteq> UNKNOWN" if "w < 64" for w :: "64 word"
  proof
    assume "w * 4 = UNKNOWN"
    then have "4 * unat w = 18446744073709551615" using m [OF that] unat_UNKNOWN by simp
    then show False using that by (simp add: word_less_nat_alt)
  qed
  show ?case using 4 u m [OF 4(1)] m [OF 4(2)]
    by (auto simp: aso_unslot_def getUnknown_def word_unat_eq_iff split: if_splits)
qed (simp add: aso_valid_def)

end
