(* ===== verification/Points_To_Separate.thy ===== *)
theory Points_To_Separate
  imports Points_To_Classes
begin

text \<open>
  \<^verbatim>\<open>SeparateOffsetsPointsToSet.h\<close>: one bit vector of numbered targets and one of offsets, so that a
  set means every target with every offset. It does not refine the abstract set; it over-approximates
  it: every pointer of the abstract set may be pointed to. \<open>remove\<close> and \<open>removeAny\<close> abort.
\<close>

section \<open>The class\<close>

record sep_pts =
  sp_nodes :: SparseBitvector
  sp_offsets :: SparseBitvector

definition sep_add :: "ptr \<Rightarrow> nat idtab \<Rightarrow> sep_pts \<Rightarrow> bool \<times> nat idtab \<times> sep_pts" where
  "sep_add p T s =
     (if sbv_get (sp_offsets s) UNKNOWN
      then (case get_id (fst p) T of (i, T') \<Rightarrow> case sbv_set (sp_nodes s) i of (prev, n) \<Rightarrow>
              (\<not> prev, T', s\<lparr>sp_nodes := n\<rparr>))
      else (let f = (if isUnknown (snd p) then [] else sp_offsets s) in
              case get_id (fst p) T of (i, T') \<Rightarrow> case sbv_set (sp_nodes s) i of (prev, n) \<Rightarrow>
              case sbv_set f (off (snd p)) of (prev', f') \<Rightarrow>
                (\<not> prev' \<or> \<not> prev, T', \<lparr>sp_nodes = n, sp_offsets = f'\<rparr>)))"

definition sep_unite :: "sep_pts \<Rightarrow> sep_pts \<Rightarrow> bool \<times> sep_pts" where
  "sep_unite s r =
     (case sbv_union (sp_nodes s) (sp_nodes r) of (c, n) \<Rightarrow>
        case sbv_union (sp_offsets s) (sp_offsets r) of (c', f) \<Rightarrow> (c' \<or> c, \<lparr>sp_nodes = n, sp_offsets = f\<rparr>))"

definition sep_pointsTo :: "ptr \<Rightarrow> nat idtab \<Rightarrow> sep_pts \<Rightarrow> bool \<times> nat idtab" where
  "sep_pointsTo p T s =
     (case get_id (fst p) T of (i, T') \<Rightarrow> (sbv_get (sp_nodes s) i \<and> sbv_get (sp_offsets s) (off (snd p)), T'))"

definition sep_mayPointTo :: "ptr \<Rightarrow> nat idtab \<Rightarrow> sep_pts \<Rightarrow> bool \<times> nat idtab" where
  "sep_mayPointTo p T s =
     (case sep_pointsTo p T s of (b, T') \<Rightarrow> if b then (True, T') else sep_pointsTo (any_offset p) T' s)"

definition sep_mustPointTo :: "ptr \<Rightarrow> nat idtab \<Rightarrow> sep_pts \<Rightarrow> bool \<times> nat idtab" where
  "sep_mustPointTo p T s =
     (if sbv_size (sp_nodes s) = 1 \<or> sbv_size (sp_offsets s) = 1 then sep_pointsTo p T s else (False, T))"

definition sep_pointsToTarget :: "nat \<Rightarrow> nat idtab \<Rightarrow> sep_pts \<Rightarrow> bool \<times> nat idtab" where
  "sep_pointsToTarget t T s = (case get_id t T of (i, T') \<Rightarrow> (sbv_get (sp_nodes s) i, T'))"

definition sep_isSingleton :: "sep_pts \<Rightarrow> bool" where
  "sep_isSingleton s = (sbv_size (sp_nodes s) = 1 \<and> sbv_size (sp_offsets s) = 1)"

definition sep_isEmpty :: "sep_pts \<Rightarrow> bool" where
  "sep_isEmpty s = (sbv_empty (sp_nodes s) \<and> sbv_empty (sp_offsets s))"

definition sep_size :: "sep_pts \<Rightarrow> nat" where
  "sep_size s = sbv_size (sp_nodes s) * sbv_size (sp_offsets s)"

text \<open>The iterator pairs every target with every offset; with targets but no offset it reads the end.\<close>

definition sep_elems :: "nat idtab \<Rightarrow> sep_pts \<Rightarrow> ptr list option" where
  "sep_elems T s =
     (if sp_nodes s \<noteq> [] \<and> sp_offsets s = [] then None
      else map_option (\<lambda>ts. concat (map (\<lambda>t. map (\<lambda>f. (t, Offset f)) (sbv_elems (sp_offsets s))) ts))
        (those (map (key_of T) (sbv_elems (sp_nodes s)))))"

definition sep_ops :: "(nat idtab, sep_pts) pts_ops" where
  "sep_ops = \<lparr>o_ids = ([], []), o_empty = \<lparr>sp_nodes = [], sp_offsets = []\<rparr>,
     o_add = (\<lambda>p T s. Some (sep_add p T s)), o_unite = sep_unite,
     o_remove = (\<lambda>_ _ _. None), o_removeAny = (\<lambda>_ _ _. None), o_clear = (\<lambda>_. \<lparr>sp_nodes = [], sp_offsets = []\<rparr>),
     o_pointsTo = sep_pointsTo, o_mayPointTo = sep_mayPointTo,
     o_mustPointTo = (\<lambda>p T s. Some (sep_mustPointTo p T s)), o_pointsToTarget = sep_pointsToTarget,
     o_isSingleton = sep_isSingleton, o_isEmpty = sep_isEmpty, o_size = sep_size, o_elems = sep_elems\<rparr>"

section \<open>What a set means\<close>

definition sep_targets :: "nat idtab \<Rightarrow> sep_pts \<Rightarrow> nat set" where
  "sep_targets T s = {t. \<exists>i. sbv_get (sp_nodes s) i \<and> key_of T i = Some t}"

definition sep_inv :: "nat idtab \<Rightarrow> sep_pts \<Rightarrow> bool" where
  "sep_inv T s = (sbv_wf (sp_nodes s) \<and> sbv_wf (sp_offsets s) \<and>
     (\<forall>i. sbv_get (sp_nodes s) i \<longrightarrow> (\<exists>t. key_of T i = Some t)))"

text \<open>The set covers the pointers of \<open>S\<close>.\<close>

definition sep_covers :: "nat idtab \<Rightarrow> sep_pts \<Rightarrow> ptr set \<Rightarrow> bool" where
  "sep_covers T s S = (\<forall>p \<in> S. fst p \<in> sep_targets T s \<and>
     (sbv_get (sp_offsets s) (off (snd p)) \<or> sbv_get (sp_offsets s) UNKNOWN))"

lemma sep_keep:
  assumes "idtab_le T T'" and "sep_inv T s"
  shows "sep_inv T' s \<and> sep_targets T' s = sep_targets T s"
proof -
  have "key_of T' i = Some t \<longleftrightarrow> key_of T i = Some t" if "sbv_get (sp_nodes s) i" for i t
    using that assms(2) key_of_le [OF assms(1)] unfolding sep_inv_def by (metis option.inject)
  then show ?thesis using assms(2) by (auto simp: sep_inv_def sep_targets_def)
qed

lemma sep_get_node:
  assumes "idtab_wf T" "idtab_used T + 1 \<le> max_ids" "sep_inv T s" "get_id t T = (i, T')"
  shows "sbv_get (sp_nodes s) i = (t \<in> sep_targets T s)"
proof -
  note id = get_id_ok [OF assms(1,2,4)]
  have "t \<in> sep_targets T' s \<longleftrightarrow> sbv_get (sp_nodes s) i"
  proof
    assume "t \<in> sep_targets T' s"
    then obtain j where j: "sbv_get (sp_nodes s) j" "key_of T' j = Some t" by (auto simp: sep_targets_def)
    have "idtab_wf T'" using id by (simp add: idtab_le_def)
    then have "map_of (fst T') t = Some j" using j(2) by (rule key_of_id(1))
    then have "j = i" using id by simp
    then show "sbv_get (sp_nodes s) i" using j(1) by simp
  qed (use id in \<open>auto simp: sep_targets_def\<close>)
  then show ?thesis using sep_keep [of T T' s] id assms(3) by simp
qed

lemma sep_pointsTo_ok:
  assumes "idtab_wf T" "idtab_used T + 1 \<le> max_ids" "sep_inv T s" "sep_pointsTo p T s = (b, T')"
  shows "idtab_le T T' \<and> idtab_used T' \<le> idtab_used T + 1 \<and>
    b = (fst p \<in> sep_targets T s \<and> sbv_get (sp_offsets s) (off (snd p)))"
proof -
  obtain i where i: "get_id (fst p) T = (i, T')" "b = (sbv_get (sp_nodes s) i \<and> sbv_get (sp_offsets s) (off (snd p)))"
    using assms(4) by (auto simp: sep_pointsTo_def split: prod.splits)
  show ?thesis using get_id_ok [OF assms(1,2) i(1)] sep_get_node [OF assms(1-3) i(1)] i(2) by simp
qed

lemma sep_mayPointTo_ok:
  assumes "idtab_wf T" "idtab_used T + 2 \<le> max_ids" "sep_inv T s" "sep_mayPointTo p T s = (b, T')"
  shows "idtab_le T T' \<and> idtab_used T' \<le> idtab_used T + 2 \<and>
    b = (fst p \<in> sep_targets T s \<and> (sbv_get (sp_offsets s) (off (snd p)) \<or> sbv_get (sp_offsets s) UNKNOWN))"
proof -
  obtain b1 T1 where 1: "sep_pointsTo p T s = (b1, T1)" by (metis surj_pair)
  have u: "idtab_used T + 1 \<le> max_ids" using assms(2) by simp
  note p1 = sep_pointsTo_ok [OF assms(1) u assms(3) 1]
  show ?thesis
  proof (cases b1)
    case True
    then show ?thesis using assms(4) p1 by (simp add: sep_mayPointTo_def 1)
  next
    case False
    have k: "idtab_wf T1" "idtab_used T1 + 1 \<le> max_ids" "sep_inv T1 s" "sep_targets T1 s = sep_targets T s"
      using p1 assms(2) sep_keep [of T T1 s] assms(3) by (auto simp: idtab_le_def)
    have 2: "sep_pointsTo (any_offset p) T1 s = (b, T')" using assms(4) False by (simp add: sep_mayPointTo_def 1)
    show ?thesis using sep_pointsTo_ok [OF k(1-3) 2] p1 False idtab_le_trans [of T T1 T'] k(4)
      by (auto simp: any_offset_def)
  qed
qed

lemma sep_add_node:
  assumes "idtab_wf T" "idtab_used T + 1 \<le> max_ids" "sep_inv T s" "get_id t T = (i, T')" "sbv_wf f"
  shows "sep_inv T' \<lparr>sp_nodes = snd (sbv_set (sp_nodes s) i), sp_offsets = f\<rparr> \<and>
    sep_targets T' \<lparr>sp_nodes = snd (sbv_set (sp_nodes s) i), sp_offsets = f\<rparr> = insert t (sep_targets T s)"
proof -
  note id = get_id_ok [OF assms(1,2,4)]
  have k: "sep_inv T' s" "sep_targets T' s = sep_targets T s" using sep_keep [of T T' s] id assms(3) by simp_all
  show ?thesis unfolding k(2) [symmetric] using k(1) assms(5) id
    by (auto simp: sep_inv_def sep_targets_def sbv_get_set sbv_wf_set)
qed

lemma sep_add_ok:
  assumes "idtab_wf T" "idtab_used T + 1 \<le> max_ids" "sep_inv T s" "sep_add p T s = (c, T', s')" "sep_covers T s S"
  shows "idtab_le T T' \<and> idtab_used T' \<le> idtab_used T + 1 \<and> sep_inv T' s' \<and> sep_covers T' s' (spec_add p S)"
proof -
  obtain i where i: "get_id (fst p) T = (i, T')" using assms(4) by (auto simp: sep_add_def Let_def split: prod.splits if_splits)
  note id = get_id_ok [OF assms(1,2) i]
  define f where "f = (if sbv_get (sp_offsets s) UNKNOWN then sp_offsets s
    else snd (sbv_set (if isUnknown (snd p) then [] else sp_offsets s) (off (snd p))))"
  have s': "s' = \<lparr>sp_nodes = snd (sbv_set (sp_nodes s) i), sp_offsets = f\<rparr>"
    using assms(4) i by (auto simp: sep_add_def f_def Let_def split: prod.splits if_splits)
  have wf: "sbv_wf f" using assms(3) by (auto simp: f_def sep_inv_def sbv_wf_set)
  note n = sep_add_node [OF assms(1-3) i wf, folded s']
  have "sbv_get f (off (snd q)) \<or> sbv_get f UNKNOWN" if "q = p \<or> sbv_get (sp_offsets s) (off (snd q)) \<or> sbv_get (sp_offsets s) UNKNOWN" for q
    using that by (auto simp: f_def sbv_get_set isUnknown_def)
  then have "sep_covers T' s' (insert p S)" using assms(5) n unfolding sep_covers_def by (auto simp: s')
  then have "sep_covers T' s' (spec_add p S)" by (auto simp: spec_add_def sep_covers_def)
  then show ?thesis using id n by blast
qed

lemma sep_unite_ok:
  assumes "sep_inv T s" "sep_inv T r" "sep_unite s r = (c, s')" "sep_covers T s S" "sep_covers T r R"
  shows "sep_inv T s' \<and> sep_covers T s' (S \<union> R)"
proof -
  have s': "sp_nodes s' = snd (sbv_union (sp_nodes s) (sp_nodes r))" "sp_offsets s' = snd (sbv_union (sp_offsets s) (sp_offsets r))"
    using assms(3) by (auto simp: sep_unite_def split: prod.splits)
  have wf: "sbv_wf (sp_nodes s)" "sbv_wf (sp_nodes r)" "sbv_wf (sp_offsets s)" "sbv_wf (sp_offsets r)"
    using assms(1,2) by (simp_all add: sep_inv_def)
  have get: "sbv_get (sp_nodes s') i = (sbv_get (sp_nodes s) i \<or> sbv_get (sp_nodes r) i)"
    "sbv_get (sp_offsets s') i = (sbv_get (sp_offsets s) i \<or> sbv_get (sp_offsets r) i)" for i
    using sbv_get_union wf by (simp_all add: s')
  have "sep_inv T s'" using assms(1,2) wf by (auto simp: sep_inv_def get) (simp_all add: s' sbv_wf_union)
  moreover have "sep_targets T s' = sep_targets T s \<union> sep_targets T r" by (auto simp: sep_targets_def get)
  ultimately show ?thesis using assms(4,5) by (auto simp: sep_covers_def get)
qed

section \<open>Programs\<close>

text \<open>Operations that build sets, and queries that give an answer.\<close>

fun sep_op :: "pts_op \<Rightarrow> bool" where
  "sep_op (Remove _ _) = False"
| "sep_op (RemoveAny _ _) = False"
| "sep_op (MustPointTo _ _) = False"
| "sep_op (Elems _) = False"
| "sep_op _ = True"

definition sep_rel :: "nat \<Rightarrow> nat idtab \<times> (nat \<Rightarrow> sep_pts) \<Rightarrow> (nat \<Rightarrow> ptr set) \<Rightarrow> bool" where
  "sep_rel k Tv S = (idtab_wf (fst Tv) \<and> idtab_used (fst Tv) \<le> 2 * k \<and>
     (\<forall>x. sep_inv (fst Tv) (snd Tv x) \<and> sep_covers (fst Tv) (snd Tv x) (S x)))"

lemma sep_rel_le:
  assumes "sep_rel k (T, v) S" and "idtab_le T T'" and "idtab_used T' \<le> idtab_used T + 2"
  shows "sep_rel (Suc k) (T', v) S"
  using assms sep_keep [OF assms(2)] by (auto simp: sep_rel_def sep_covers_def idtab_le_def)

lemma sep_rel_upd:
  assumes "sep_rel k (T, v) S" and "sep_inv T s" and "sep_covers T s R"
  shows "sep_rel k (T, v(x := s)) (S(x := R))"
  using assms by (auto simp: sep_rel_def)

lemma sep_exec_ok:
  assumes rel: "sep_rel k (T, v) S" and room: "2 * k + 2 \<le> max_ids" and op: "sep_op op"
  shows "\<exists>r r' Tv' S'. pts_exec sep_ops op (T, v) = Some (r, Tv') \<and> spec_exec op S = Some (r', S') \<and> sep_rel (Suc k) Tv' S'"
proof -
  have wf: "idtab_wf T" "idtab_used T + 2 \<le> max_ids" "idtab_used T + 1 \<le> max_ids" "idtab_le T T"
    and v: "\<And>x. sep_inv T (v x)" "\<And>x. sep_covers T (v x) (S x)"
    using rel room by (auto simp: sep_rel_def idtab_le_def)
  show ?thesis using op
  proof (cases op)
    case (Add x p)
    obtain c T' s' where a: "sep_add p T (v x) = (c, T', s')" by (metis surj_pair)
    note ok = sep_add_ok [OF wf(1,3) v(1) a v(2)]
    have "sep_rel (Suc k) (T', v(x := s')) (S(x := spec_add p (S x)))"
      using sep_rel_upd [OF sep_rel_le [OF rel, of T']] ok by simp
    then show ?thesis using Add a by (simp add: sep_ops_def)
  next
    case (Unite x y)
    obtain c s' where a: "sep_unite (v x) (v y) = (c, s')" by fastforce
    have "sep_rel (Suc k) (T, v(x := s')) (S(x := S x \<union> S y))"
      using sep_rel_upd [OF sep_rel_le [OF rel wf(4)]] sep_unite_ok [OF v(1) v(1) a v(2) v(2)] by simp
    then show ?thesis using Unite a by (simp add: sep_ops_def)
  next
    case (Clear x)
    have "sep_rel (Suc k) (T, v(x := \<lparr>sp_nodes = [], sp_offsets = []\<rparr>)) (S(x := {}))"
      using sep_rel_upd [OF sep_rel_le [OF rel wf(4)]] by (simp add: sep_inv_def sep_covers_def)
    then show ?thesis using Clear by (simp add: sep_ops_def)
  next
    case (Swap x y)
    then show ?thesis using sep_rel_le [OF rel wf(4)] by (simp add: sep_rel_def)
  next
    case (PointsTo x p)
    obtain b T' where a: "sep_pointsTo p T (v x) = (b, T')" by (metis surj_pair)
    then show ?thesis using PointsTo sep_rel_le [OF rel, of T'] sep_pointsTo_ok [OF wf(1,3) v(1) a] by (simp add: sep_ops_def)
  next
    case (MayPointTo x p)
    obtain b T' where a: "sep_mayPointTo p T (v x) = (b, T')" by (metis surj_pair)
    then show ?thesis using MayPointTo sep_rel_le [OF rel, of T'] sep_mayPointTo_ok [OF wf(1,2) v(1) a] by (simp add: sep_ops_def)
  next
    case (PointsToTarget x t)
    obtain i T' where a: "get_id t T = (i, T')" by (metis surj_pair)
    then show ?thesis using PointsToTarget sep_rel_le [OF rel, of T'] get_id_ok [OF wf(1,3) a]
      by (simp add: sep_ops_def sep_pointsToTarget_def)
  qed (use sep_rel_le [OF rel wf(4)] in simp_all)
qed

lemma sep_final_ok:
  "sep_rel k Tv S \<Longrightarrow> 2 * (k + length ops) \<le> max_ids \<Longrightarrow> list_all sep_op ops \<Longrightarrow>
    \<exists>Tv' S'. pts_final sep_ops ops Tv = Some Tv' \<and> spec_final ops S = Some S' \<and> sep_rel (k + length ops) Tv' S'"
proof (induction ops arbitrary: k Tv S)
  case (Cons op ops)
  obtain T v where Tv: "Tv = (T, v)" by (cases Tv)
  have room: "2 * k + 2 \<le> max_ids" and op: "sep_op op" using Cons.prems(2,3) by simp_all
  from sep_exec_ok [OF Cons.prems(1) [unfolded Tv] room op, folded Tv] show ?case
  proof (elim exE conjE)
    fix r r' Tv' S'
    assume "pts_exec sep_ops op Tv = Some (r, Tv')" "spec_exec op S = Some (r', S')" "sep_rel (Suc k) Tv' S'"
    then show ?thesis using Cons.IH [of "Suc k" Tv' S'] Cons.prems(2,3) by simp
  qed
qed simp

lemma sep_start: "sep_rel 0 (([], []), \<lambda>_. \<lparr>sp_nodes = [], sp_offsets = []\<rparr>) (\<lambda>_. {})"
  by (simp add: sep_rel_def sep_inv_def sep_covers_def idtab_empty)

section \<open>Properties\<close>

text \<open>
  C19: a program on any number of points-to sets observes on the four bit-vector classes
  \<open>PointerIdPointsToSet\<close>, \<open>AlignedPointerIdPointsToSet\<close>, \<open>SmallOffsetsPointsToSet\<close> and
  \<open>AlignedSmallOffsetsPointsToSet\<close> exactly what it observes on sets of pointers, for every sequence of
  the operations of the interface (add, union, remove, removal of a target, clear, swap, membership, may
  and must point to, singleton, emptiness, size, iteration), as long as the shared table of numbers
  does not run out.
\<close>

theorem bit_classes_refine_set:
  assumes "3 * length ops \<le> max_ids"
  shows "pts_observe pid_ops ops = spec_run ops (\<lambda>_. {}) \<and> pts_observe apid_ops ops = spec_run ops (\<lambda>_. {}) \<and>
    pts_observe small_ops ops = spec_run ops (\<lambda>_. {}) \<and> pts_observe aso_ops ops = spec_run ops (\<lambda>_. {})"
proof -
  have all: "list_all (\<lambda>_. True) ops" by (simp add: list_all_iff)
  show ?thesis unfolding apid_ops_def small_ops_def aso_ops_def
    using pid.observe_ok [OF assms all] apid.pts.observe_ok [OF assms all] small.pl.pts.observe_ok [OF assms all]
      aso.pl.pts.observe_ok [OF assms all] by blast
qed

theorem bit_classes_refine_set_witness:
  "pts_observe small_ops [Add 0 (1, Offset 70), Add 0 (1, Offset 4), SizeOf 0, Remove 0 (1, Offset 4),
     MustPointTo 0 (1, Offset 70)] =
   Some [Answer True, Answer True, Count 2, Done, Answer True]"
proof -
  have "spec_run [Add 0 (1, Offset 70), Add 0 (1, Offset 4), SizeOf 0, Remove 0 (1, Offset 4),
     MustPointTo 0 (1, Offset 70)] (\<lambda>_. {}) =
     Some [Answer True, Answer True, Count 2, Done, Answer True]"
    by (simp add: spec_add_def any_offset_def isUnknown_def getUnknown_def UNKNOWN_def)
  then show ?thesis using bit_classes_refine_set [THEN conjunct2, THEN conjunct2, THEN conjunct1, of
      "[Add 0 (1, Offset 70), Add 0 (1, Offset 4), SizeOf 0, Remove 0 (1, Offset 4),
     MustPointTo 0 (1, Offset 70)]"] by (simp add: max_ids_def)
qed

text \<open>
  C20: so does \<open>SimplePointsToSet\<close> on programs that do not use \<open>removeAny\<close>, and \<open>OffsetsSetPointsToSet\<close> on
  programs that do not use \<open>remove\<close>, \<open>isSingleton\<close> and \<open>mustPointTo\<close>.
\<close>

theorem plain_classes_refine_set:
  assumes "3 * length ops \<le> max_ids"
  shows "(list_all no_removeAny ops \<longrightarrow> pts_observe simple_ops ops = spec_run ops (\<lambda>_. {})) \<and>
    (list_all targets_op ops \<longrightarrow> pts_observe offsets_ops ops = spec_run ops (\<lambda>_. {}))"
  using simple.observe_ok [OF assms] offsets.observe_ok [OF assms] by blast

theorem plain_classes_refine_set_witness:
  "pts_observe offsets_ops [Add 0 (1, Offset 8), Unite 1 0, RemoveAny 1 1, IsEmpty 1, SizeOf 0] =
   Some [Answer True, Answer True, Answer True, Answer True, Count 1]"
proof -
  have "spec_run [Add 0 (1, Offset 8), Unite 1 0, RemoveAny 1 1, IsEmpty 1, SizeOf 0] (\<lambda>_. {}) =
     Some [Answer True, Answer True, Answer True, Answer True, Count 1]"
    by (simp add: spec_add_def any_offset_def isUnknown_def getUnknown_def UNKNOWN_def)
  then show ?thesis using plain_classes_refine_set [of "[Add 0 (1, Offset 8), Unite 1 0, RemoveAny 1 1, IsEmpty 1, SizeOf 0]"]
    by (simp add: max_ids_def)
qed

text \<open>
  C21: \<open>SeparateOffsetsPointsToSet\<close> over-approximates: after any sequence of additions, unions, clears,
  swaps and queries that the table has room for, every pointer of the abstract set may be pointed to.
\<close>

theorem sep_over_approximates:
  assumes "2 * length ops + 2 \<le> max_ids" and "list_all sep_op ops"
  shows "\<exists>T v S. pts_final sep_ops ops (o_ids sep_ops, \<lambda>_. o_empty sep_ops) = Some (T, v) \<and>
    spec_final ops (\<lambda>_. {}) = Some S \<and> (\<forall>x. \<forall>p \<in> S x. fst (o_mayPointTo sep_ops p T (v x)))"
proof -
  have len: "2 * (0 + length ops) \<le> max_ids" using assms(1) by simp
  obtain T v S where f: "pts_final sep_ops ops (([], []), \<lambda>_. \<lparr>sp_nodes = [], sp_offsets = []\<rparr>) = Some (T, v)"
    "spec_final ops (\<lambda>_. {}) = Some S" "sep_rel (0 + length ops) (T, v) S"
    using sep_final_ok [OF sep_start len assms(2)] by auto
  have T: "idtab_wf T" "idtab_used T + 2 \<le> max_ids" "\<And>x. sep_inv T (v x)" "\<And>x. sep_covers T (v x) (S x)"
    using f(3) assms(1) by (simp_all add: sep_rel_def)
  have "fst (sep_mayPointTo p T (v x))" if "p \<in> S x" for x p
    using sep_mayPointTo_ok [OF T(1,2) T(3)] T(4) [of x] that unfolding sep_covers_def by (metis prod.collapse)
  then show ?thesis using f(1,2) by (simp add: sep_ops_def)
qed

theorem sep_over_approximates_witness:
  "\<exists>T v. pts_final sep_ops [Add 0 (1, Offset 0), Add 0 (2, Offset 8)] (o_ids sep_ops, \<lambda>_. o_empty sep_ops) = Some (T, v) \<and>
    fst (o_mayPointTo sep_ops (2, Offset 8) T (v 0))"
proof -
  have "spec_final [Add 0 (1, Offset 0), Add 0 (2, Offset 8)] (\<lambda>_. {}) = Some ((\<lambda>_. {})(0 := {(2, Offset 8), (1, Offset 0)}))"
    by (simp add: spec_add_def any_offset_def isUnknown_def getUnknown_def UNKNOWN_def)
  then show ?thesis using sep_over_approximates [of "[Add 0 (1, Offset 0), Add 0 (2, Offset 8)]"]
    by (force simp: max_ids_def)
qed


end
