(* ===== verification/Pointer_Graph.thy ===== *)
theory Pointer_Graph
  imports Points_To_Sets
begin

text \<open>
  The pointer graph and the flow-insensitive pointer analysis on it (\<^verbatim>\<open>include/dg/PointerAnalysis/PSNode.h\<close>,
  \<^verbatim>\<open>PointerGraph.h\<close>, \<^verbatim>\<open>MemoryObject.h\<close>, \<^verbatim>\<open>PointerAnalysis.h\<close>, \<^verbatim>\<open>PointerAnalysisFI.h\<close>,
  \<^verbatim>\<open>lib/PointerAnalysis/PointerAnalysis.cpp\<close>). Nodes are numbers; 0, 1 and 2 are the nodes of null, unknown and
  invalidated memory. What the construction of the graph fixes is \<open>pgraph\<close>, what the analysis changes is
  \<open>pta\<close>. A points-to set is the sorted list of its pointers; \<open>iter\<close> is the order in which the class in use
  iterates over it (by the number of the pointer). A memory object that has not been created is one without pointers.
  The handlers of calls through pointers, forks and joins belong to the builder of the graph and are parameters;
  \<open>error\<close> and \<open>errorEmptyPointsTo\<close>, which no analysis overrides, return false.
\<close>

section \<open>Nodes\<close>

datatype PSNodeType =
    PS_ALLOC | PS_LOAD | PS_STORE | PS_GEP | PS_PHI | PS_CAST | PS_FUNCTION | PS_CALL | PS_CALL_FUNCPTR
  | PS_CALL_RETURN | PS_ENTRY | PS_RETURN | PS_FORK | PS_JOIN | PS_INVALIDATE_LOCALS | PS_FREE
  | PS_INVALIDATE_OBJECT | PS_CONSTANT | PS_NOOP | PS_MEMCPY | PS_NULL_ADDR | PS_UNKNOWN_MEM | PS_INVALIDATED

record psnode =
  n_type :: PSNodeType
  n_operands :: "nat list"
  n_size :: "64 word"
  n_len :: Offset
  n_heap :: bool
  n_global :: bool

record pgraph =
  pg_node :: "nat \<Rightarrow> psnode"
  pg_root :: nat
  pg_globals :: "nat list"
  pg_loops :: "nat list list"

type_synonym mobject = "(Offset, simple_pts) smap"

record pta =
  p_pts :: "nat \<Rightarrow> simple_pts"
  p_mem :: "nat \<Rightarrow> mobject"
  p_zero :: "nat \<Rightarrow> bool"
  p_gep :: "nat \<Rightarrow> Offset"
  p_succ :: "nat \<Rightarrow> nat list"
  p_callees :: "nat \<Rightarrow> nat list"
  p_rets :: "nat \<Rightarrow> nat list"

record penv =
  e_fieldSensitivity :: Offset
  e_invalidateNodes :: bool
  e_preprocessGeps :: bool
  e_maxIterations :: nat
  e_iter :: "simple_pts \<Rightarrow> ptr list"
  e_call :: "nat \<Rightarrow> nat \<Rightarrow> pta \<Rightarrow> pta"
  e_fork :: "nat \<Rightarrow> nat \<Rightarrow> pta \<Rightarrow> pta"
  e_join :: "nat \<Rightarrow> pta \<Rightarrow> bool \<times> pta"

abbreviation ntype :: "pgraph \<Rightarrow> nat \<Rightarrow> PSNodeType" where
  "ntype G n \<equiv> n_type (pg_node G n)"

definition NULLPTR :: nat where
  "NULLPTR = 0"

definition UNKNOWN_MEMORY :: nat where
  "UNKNOWN_MEMORY = 1"

definition INVALIDATED :: nat where
  "INVALIDATED = 2"

definition UnknownPointer :: ptr where
  "UnknownPointer = (UNKNOWN_MEMORY, getUnknown)"

definition NullPointer :: ptr where
  "NullPointer = (NULLPTR, Offset 0)"

definition isValidPtr :: "ptr \<Rightarrow> bool" where
  "isValidPtr p = (fst p \<noteq> NULLPTR \<and> fst p \<noteq> UNKNOWN_MEMORY)"

definition canBeDereferenced :: "pgraph \<Rightarrow> ptr \<Rightarrow> bool" where
  "canBeDereferenced G p =
     (if \<not> isValidPtr p \<or> fst p = INVALIDATED \<or> fst p = UNKNOWN_MEMORY then False
      else ntype G (fst p) \<noteq> PS_FUNCTION)"

definition getOperand :: "pgraph \<Rightarrow> nat \<Rightarrow> nat \<Rightarrow> nat option" where
  "getOperand G n i = (if i < length (n_operands (pg_node G n)) then Some (n_operands (pg_node G n) ! i) else None)"

section \<open>Adding pointers\<close>

definition addPtr :: "nat \<Rightarrow> ptr \<Rightarrow> pta \<Rightarrow> bool \<times> pta" where
  "addPtr n p s = (case simple_add p (p_pts s n) of (c, S) \<Rightarrow> (c, s\<lparr>p_pts := (p_pts s)(n := S)\<rparr>))"

definition addPts :: "nat \<Rightarrow> simple_pts \<Rightarrow> pta \<Rightarrow> bool \<times> pta" where
  "addPts n T s = (case simple_unite (p_pts s n) T of (c, S) \<Rightarrow> (c, s\<lparr>p_pts := (p_pts s)(n := S)\<rparr>))"

definition mo_get :: "mobject \<Rightarrow> Offset \<Rightarrow> simple_pts" where
  "mo_get m f = (case map_of m f of None \<Rightarrow> [] | Some S \<Rightarrow> S)"

definition mo_addPtr :: "nat \<Rightarrow> Offset \<Rightarrow> ptr \<Rightarrow> pta \<Rightarrow> bool \<times> pta" where
  "mo_addPtr d f p s =
     (case simple_add p (mo_get (p_mem s d) f) of (c, S) \<Rightarrow>
        (c, s\<lparr>p_mem := (p_mem s)(d := smap_set f S (p_mem s d))\<rparr>))"

definition mo_addPts :: "nat \<Rightarrow> Offset \<Rightarrow> simple_pts \<Rightarrow> pta \<Rightarrow> bool \<times> pta" where
  "mo_addPts d f T s =
     (if T = [] then (False, s)
      else case simple_unite (mo_get (p_mem s d) f) T of (c, S) \<Rightarrow>
        (c, s\<lparr>p_mem := (p_mem s)(d := smap_set f S (p_mem s d))\<rparr>))"

text \<open>\<open>changed |= ...\<close>, in a loop and in sequence.\<close>

fun each :: "('a \<Rightarrow> 's \<Rightarrow> (bool \<times> 's) option) \<Rightarrow> 'a list \<Rightarrow> 's \<Rightarrow> (bool \<times> 's) option" where
  "each f [] s = Some (False, s)"
| "each f (x # xs) s = Option.bind (f x s) (\<lambda>(c, s'). map_option (\<lambda>(c', s''). (c \<or> c', s'')) (each f xs s'))"

definition both :: "('s \<Rightarrow> (bool \<times> 's) option) \<Rightarrow> ('s \<Rightarrow> (bool \<times> 's) option) \<Rightarrow> 's \<Rightarrow> (bool \<times> 's) option" where
  "both f g s = Option.bind (f s) (\<lambda>(c, s'). map_option (\<lambda>(c', s''). (c \<or> c', s'')) (g s'))"

section \<open>Processing a node\<close>

definition getMemoryObjects :: "pgraph \<Rightarrow> penv \<Rightarrow> ptr \<Rightarrow> pta \<Rightarrow> nat list option" where
  "getMemoryObjects G e p s =
     Option.bind
       (if ntype G (fst p) = PS_CAST \<or> ntype G (fst p) = PS_GEP then getOperand G (fst p) 0
        else if ntype G (fst p) = PS_CONSTANT
        then (if length (p_pts s (fst p)) = 1 then Some (fst (hd (p_pts s (fst p)))) else None)
        else Some (fst p))
       (\<lambda>n. if ntype G n = PS_FUNCTION then Some []
            else if ntype G n = PS_ALLOC \<or> ntype G n = PS_UNKNOWN_MEM then Some [n] else None)"

definition load_empty :: "nat \<Rightarrow> nat \<Rightarrow> pta \<Rightarrow> bool \<times> pta" where
  "load_empty n target s = (if p_zero s target then addPtr n NullPointer s else (False, s))"

definition load_object :: "nat \<Rightarrow> ptr \<Rightarrow> nat list \<Rightarrow> nat \<Rightarrow> pta \<Rightarrow> (bool \<times> pta) option" where
  "load_object n p objects d =
     (if isUnknown (snd p)
      then both (\<lambda>s. Some (if p_mem s d = [] then load_empty n (fst p) s else (False, s)))
             (\<lambda>s. each (\<lambda>(_, S) s. Some (addPts n S s)) (p_mem s d) s)
      else both (\<lambda>s. Some (case map_of (p_mem s d) (snd p) of
               None \<Rightarrow> load_empty n (fst p) s | Some S \<Rightarrow> addPts n S s))
             (\<lambda>s. Some (case map_of (p_mem s d) getUnknown of None \<Rightarrow> (False, s) | Some S \<Rightarrow> addPts n S s)))"

definition load_pointer :: "pgraph \<Rightarrow> penv \<Rightarrow> nat \<Rightarrow> ptr \<Rightarrow> pta \<Rightarrow> (bool \<times> pta) option" where
  "load_pointer G e n p s =
     (if fst p = UNKNOWN_MEMORY then Some (addPtr n UnknownPointer s)
      else if \<not> canBeDereferenced G p then Some (False, s)
      else Option.bind (getMemoryObjects G e p s) (\<lambda>objects.
        if ntype G (fst p) \<noteq> PS_ALLOC then None
        else if objects = [] then Some (load_empty n (fst p) s)
        else each (load_object n p objects) objects s))"

definition processLoad :: "pgraph \<Rightarrow> penv \<Rightarrow> nat \<Rightarrow> pta \<Rightarrow> (bool \<times> pta) option" where
  "processLoad G e n s =
     Option.bind (getOperand G n 0) (\<lambda>operand.
       if p_pts s operand = [] then Some (False, s)
       else each (load_pointer G e n) (e_iter e (p_pts s operand)) s)"

definition gep_offset :: "pgraph \<Rightarrow> penv \<Rightarrow> ptr \<Rightarrow> Offset \<Rightarrow> Offset" where
  "gep_offset G e p f =
     (let new_offset = (if isUnknown (snd p) \<or> isUnknown f then UNKNOWN else off (snd p) + off f) in
      if (new_offset = 0 \<or> new_offset < n_size (pg_node G (fst p))) \<and> new_offset < off (e_fieldSensitivity e)
      then Offset new_offset else getUnknown)"

definition processGep :: "pgraph \<Rightarrow> penv \<Rightarrow> nat \<Rightarrow> pta \<Rightarrow> (bool \<times> pta) option" where
  "processGep G e n s =
     Option.bind (getOperand G n 0) (\<lambda>src.
       each (\<lambda>p s. Some (addPtr n (fst p, gep_offset G e p (p_gep s n)) s)) (e_iter e (p_pts s src)) s)"

definition store_pointer :: "pgraph \<Rightarrow> penv \<Rightarrow> nat \<Rightarrow> ptr \<Rightarrow> pta \<Rightarrow> (bool \<times> pta) option" where
  "store_pointer G e value p s =
     (if \<not> canBeDereferenced G p then Some (False, s)
      else Option.bind (getMemoryObjects G e p s) (\<lambda>objects.
        each (\<lambda>d s. Some (mo_addPts d (snd p) (p_pts s value) s)) objects s))"

definition processStore :: "pgraph \<Rightarrow> penv \<Rightarrow> nat \<Rightarrow> pta \<Rightarrow> (bool \<times> pta) option" where
  "processStore G e n s =
     Option.bind (getOperand G n 1) (\<lambda>dest. Option.bind (getOperand G n 0) (\<lambda>value.
       each (store_pointer G e value) (e_iter e (p_pts s dest)) s))"

definition processPhi :: "pgraph \<Rightarrow> nat \<Rightarrow> pta \<Rightarrow> (bool \<times> pta) option" where
  "processPhi G n s = each (\<lambda>op s. Some (addPts n (p_pts s op) s)) (n_operands (pg_node G n)) s"

definition call_return_invalidate :: "pgraph \<Rightarrow> penv \<Rightarrow> nat \<Rightarrow> pta \<Rightarrow> (bool \<times> pta) option" where
  "call_return_invalidate G e n s =
     (if e_invalidateNodes e
      then each (\<lambda>op s. each (\<lambda>p s.
             if \<not> canBeDereferenced G p then Some (False, s)
             else if ntype G (fst p) \<noteq> PS_ALLOC then None
             else if \<not> n_heap (pg_node G (fst p)) \<and> \<not> n_global (pg_node G (fst p))
             then Some (addPtr n (INVALIDATED, Offset 0) s)
             else Some (False, s)) (e_iter e (p_pts s op)) s) (n_operands (pg_node G n)) s
      else Some (False, s))"

text \<open>Calls and forks through a pointer: the handler runs when the pointer is new.\<close>

definition call_pointer :: "pgraph \<Rightarrow> penv \<Rightarrow> (nat \<Rightarrow> nat \<Rightarrow> pta \<Rightarrow> pta) \<Rightarrow> nat \<Rightarrow> ptr \<Rightarrow> pta \<Rightarrow> (bool \<times> pta) option" where
  "call_pointer G e handler n p s =
     (if \<not> e_invalidateNodes e \<and> ntype G (fst p) \<noteq> PS_FUNCTION then Some (False, s)
      else case addPtr n p s of (c, s') \<Rightarrow>
        if c \<and> isValidPtr p \<and> fst p \<noteq> INVALIDATED then Some (True, handler n (fst p) s') else Some (c, s'))"

definition processCall :: "pgraph \<Rightarrow> penv \<Rightarrow> (nat \<Rightarrow> nat \<Rightarrow> pta \<Rightarrow> pta) \<Rightarrow> nat \<Rightarrow> pta \<Rightarrow> (bool \<times> pta) option" where
  "processCall G e handler n s =
     Option.bind (getOperand G n 0) (\<lambda>op. each (call_pointer G e handler n) (e_iter e (p_pts s op)) s)"

end
