(* ===== verification/Pointer_Run.thy ===== *)
theory Pointer_Run
  imports Pointer_Graph
begin

text \<open>
  The rest of \<^verbatim>\<open>PointerAnalysis.cpp\<close>: copying memory, the switch over the node types, the traversal of the
  graph (\<^verbatim>\<open>PointerGraph.h\<close>, \<^verbatim>\<open>NodesWalk.h\<close>, \<^verbatim>\<open>BFS.h\<close>) and the iteration to the end of \<open>run\<close>.
\<close>

section \<open>Copying memory\<close>

definition next_entry :: "mobject \<Rightarrow> Offset option \<Rightarrow> (Offset \<times> simple_pts) option" where
  "next_entry m cur = (case cur of None \<Rightarrow> List.find (\<lambda>_. True) m | Some k \<Rightarrow> List.find (\<lambda>(a, _). k < a) m)"

definition copied :: "Offset \<Rightarrow> Offset \<Rightarrow> Offset \<Rightarrow> bool" where
  "copied srcOffset len k =
     (isUnknown k \<or> isUnknown srcOffset \<or>
      srcOffset \<le> k \<and> (isUnknown len \<or> off k - off srcOffset < off len))"

definition dest_offset :: "pgraph \<Rightarrow> penv \<Rightarrow> nat \<Rightarrow> Offset \<Rightarrow> Offset \<Rightarrow> Offset \<Rightarrow> Offset" where
  "dest_offset G e d srcOffset destOffset k =
     (if \<not> isUnknown k \<and> \<not> isUnknown srcOffset \<and> \<not> isUnknown destOffset
      then (if UNKNOWN - off destOffset \<le> off k - off srcOffset then getUnknown
            else let newOff = off k - off srcOffset + off destOffset in
              if n_size (pg_node G d) \<le> newOff \<or> off (e_fieldSensitivity e) \<le> newOff then getUnknown
              else Offset newOff)
      else getUnknown)"

text \<open>The loop over the offsets of the source object goes on in the map as it is after every step: the source
  may be the destination.\<close>

lemma find_greater: "List.find (\<lambda>(a, _). k < a) m = Some (k', S) \<Longrightarrow> k < (k' :: Offset)"
  by (auto simp: find_Some_iff)

function copy_object :: "pgraph \<Rightarrow> penv \<Rightarrow> ptr \<Rightarrow> ptr \<Rightarrow> Offset \<Rightarrow> nat \<Rightarrow> nat \<Rightarrow> Offset option \<Rightarrow> pta \<Rightarrow> bool \<times> pta" where
  "copy_object G e sp dp len d so cur s =
     (case next_entry (p_mem s so) cur of
        None \<Rightarrow> (False, s)
      | Some (k, S) \<Rightarrow>
          (case (if copied (snd sp) len k then mo_addPts d (dest_offset G e d (snd sp) (snd dp) k) S s else (False, s)) of
             (c, s') \<Rightarrow> case copy_object G e sp dp len d so (Some k) s' of (c', s'') \<Rightarrow> (c \<or> c', s'')))"
  by pat_completeness auto
termination
proof (relation "measure (\<lambda>(_, _, _, _, _, _, _, cur, _). case cur of None \<Rightarrow> 2 ^ 64 | Some k \<Rightarrow> 2 ^ 64 - 1 - unat (off k))",
    goal_cases)
  case (2 G e sp dp len d so cur s kS k S c s')
  have lt: "unat (off k) < 2 ^ 64" using unsigned_less [of "off k"] by simp
  show ?case
  proof (cases cur)
    case (Some j)
    then have "List.find (\<lambda>(a, _). j < a) (p_mem s so) = Some (k, S)" using 2 by (simp add: next_entry_def)
    then have "j < k" by (rule find_greater)
    then have "unat (off j) < unat (off k)" by (simp add: less_Offset_def word_less_nat_alt)
    then show ?thesis using Some lt by simp
  qed simp
qed simp

declare copy_object.simps [simp del]

definition copies_null :: "pgraph \<Rightarrow> nat \<Rightarrow> nat \<Rightarrow> ptr \<Rightarrow> Offset \<Rightarrow> bool" where
  "copies_null G src dst sp len =
     (\<not> (n_size (pg_node G src) \<noteq> UNKNOWN \<and> n_size (pg_node G src) = n_size (pg_node G dst) \<and>
         off len = n_size (pg_node G src) \<and> off (snd sp) = 0))"

definition memcpy_objects :: "pgraph \<Rightarrow> penv \<Rightarrow> nat list \<Rightarrow> nat list \<Rightarrow> ptr \<Rightarrow> ptr \<Rightarrow> Offset \<Rightarrow> pta \<Rightarrow> (bool \<times> pta) option" where
  "memcpy_objects G e srcs dsts sp dp len s =
     (if off len = 0 \<or> ntype G (fst sp) \<noteq> PS_ALLOC \<or> ntype G (fst dp) \<noteq> PS_ALLOC then None
      else let zero = p_zero s (fst sp); null = copies_null G (fst sp) (fst dp) sp len;
               s' = (if zero \<and> \<not> null then s\<lparr>p_zero := (p_zero s)(fst dp := True)\<rparr> else s) in
        each (\<lambda>d. both
            (\<lambda>s. Some (if zero \<and> null then mo_addPtr d getUnknown NullPointer s else (False, s)))
            (each (\<lambda>so s. Some (copy_object G e sp dp len d so None s)) srcs)) dsts s')"

definition memcpy_dest :: "pgraph \<Rightarrow> penv \<Rightarrow> nat list \<Rightarrow> ptr \<Rightarrow> Offset \<Rightarrow> ptr \<Rightarrow> pta \<Rightarrow> (bool \<times> pta) option" where
  "memcpy_dest G e srcs sp len dp s =
     (if \<not> canBeDereferenced G dp then Some (False, s)
      else Option.bind (getMemoryObjects G e dp s) (\<lambda>dsts.
        if dsts = [] then None else memcpy_objects G e srcs dsts sp dp len s))"

definition memcpy_source :: "pgraph \<Rightarrow> penv \<Rightarrow> nat \<Rightarrow> nat \<Rightarrow> ptr \<Rightarrow> pta \<Rightarrow> (bool \<times> pta) option" where
  "memcpy_source G e n dest sp s =
     (if \<not> canBeDereferenced G sp then Some (False, s)
      else Option.bind (getMemoryObjects G e sp s) (\<lambda>srcs.
        if srcs = [] then None
        else each (memcpy_dest G e srcs sp (n_len (pg_node G n))) (e_iter e (p_pts s dest)) s))"

definition processMemcpy :: "pgraph \<Rightarrow> penv \<Rightarrow> nat \<Rightarrow> pta \<Rightarrow> (bool \<times> pta) option" where
  "processMemcpy G e n s =
     Option.bind (getOperand G n 0) (\<lambda>src. Option.bind (getOperand G n 1) (\<lambda>dest.
       each (memcpy_source G e n dest) (e_iter e (p_pts s src)) s))"

section \<open>The switch\<close>

definition pta_processNode :: "pgraph \<Rightarrow> penv \<Rightarrow> nat \<Rightarrow> pta \<Rightarrow> (bool \<times> pta) option" where
  "pta_processNode G e n s =
     (case ntype G n of
        PS_LOAD \<Rightarrow> processLoad G e n s
      | PS_STORE \<Rightarrow> processStore G e n s
      | PS_INVALIDATE_OBJECT \<Rightarrow> Some (False, s)
      | PS_FREE \<Rightarrow> Some (False, s)
      | PS_INVALIDATE_LOCALS \<Rightarrow>
          Option.bind (getOperand G n 0) (\<lambda>op. if length (p_succ s op) = 1 then Some (False, s) else None)
      | PS_GEP \<Rightarrow> processGep G e n s
      | PS_CAST \<Rightarrow> Option.bind (getOperand G n 0) (\<lambda>op. Some (addPts n (p_pts s op) s))
      | PS_CONSTANT \<Rightarrow> if length (p_pts s n) = 1 then Some (False, s) else None
      | PS_CALL_RETURN \<Rightarrow> both (call_return_invalidate G e n) (processPhi G n) s
      | PS_RETURN \<Rightarrow> processPhi G n s
      | PS_PHI \<Rightarrow> processPhi G n s
      | PS_CALL_FUNCPTR \<Rightarrow> processCall G e (e_call e) n s
      | PS_FORK \<Rightarrow> processCall G e (e_fork e) n s
      | PS_JOIN \<Rightarrow> Some (e_join e n s)
      | PS_MEMCPY \<Rightarrow> processMemcpy G e n s
      | PS_ALLOC \<Rightarrow> if p_pts s n = [(n, Offset 0)] then Some (False, s) else None
      | PS_FUNCTION \<Rightarrow> if p_pts s n = [(n, Offset 0)] then Some (False, s) else None
      | PS_CALL \<Rightarrow> Some (False, s)
      | PS_ENTRY \<Rightarrow> Some (False, s)
      | PS_NOOP \<Rightarrow> Some (False, s)
      | _ \<Rightarrow> None)"

section \<open>The nodes of the graph in breadth-first order\<close>

text \<open>\<open>EdgeChooser\<close>: a call goes to its callees and a return to its return sites when there are any.\<close>

definition edges_of :: "pgraph \<Rightarrow> pta \<Rightarrow> nat \<Rightarrow> nat list" where
  "edges_of G s n =
     (if (ntype G n = PS_CALL \<or> ntype G n = PS_CALL_FUNCPTR) \<and> p_callees s n \<noteq> [] then p_callees s n
      else if ntype G n = PS_RETURN \<and> p_rets s n \<noteq> [] then p_rets s n
      else p_succ s n)"

fun dispatch :: "nat list \<Rightarrow> nat list \<times> nat list \<Rightarrow> nat list \<times> nat list" where
  "dispatch [] qv = qv"
| "dispatch (n # ns) qv = dispatch ns (if n \<in> set (snd qv) then qv else (fst qv @ [n], n # snd qv))"

partial_function (option) bfs_run :: "(nat \<Rightarrow> nat list) \<Rightarrow> nat list \<Rightarrow> nat list \<Rightarrow> nat list \<Rightarrow> nat list option" where
  "bfs_run E queue visited cont =
     (case queue of
        [] \<Rightarrow> Some cont
      | n # q \<Rightarrow> (case dispatch (E n) (q, visited) of (q', v') \<Rightarrow> bfs_run E q' v' (cont @ [n])))"

definition getNodes :: "pgraph \<Rightarrow> pta \<Rightarrow> nat list \<Rightarrow> nat list option" where
  "getNodes G s start = bfs_run (edges_of G s) start (rev start) []"

section \<open>Running the analysis\<close>

fun iteration :: "pgraph \<Rightarrow> penv \<Rightarrow> nat list \<Rightarrow> pta \<Rightarrow> (nat list \<times> pta) option" where
  "iteration G e [] s = Some ([], s)"
| "iteration G e (n # ns) s =
     Option.bind (pta_processNode G e n s) (\<lambda>(enq, s').
       map_option (\<lambda>(changed, s''). (if enq then n # changed else changed, s'')) (iteration G e ns s'))"

definition queue_changed :: "pgraph \<Rightarrow> nat list \<Rightarrow> pta \<Rightarrow> nat list option" where
  "queue_changed G changed s =
     (if changed = [] then Some []
      else Option.bind (getNodes G s changed) (\<lambda>ns. if length changed \<le> length ns then Some ns else None))"

definition preprocessGEPs :: "pgraph \<Rightarrow> pta \<Rightarrow> pta" where
  "preprocessGEPs G s =
     s\<lparr>p_gep := foldl (\<lambda>g n. if ntype G n = PS_GEP then g(n := getUnknown) else g) (p_gep s) (concat (pg_loops G))\<rparr>"

definition preprocess :: "pgraph \<Rightarrow> penv \<Rightarrow> pta \<Rightarrow> pta" where
  "preprocess G e s = (if e_preprocessGeps e then preprocessGEPs G s else s)"

definition sanityCheck :: "pgraph \<Rightarrow> pta \<Rightarrow> unit option" where
  "sanityCheck G s =
     Option.bind (assert_opt (p_pts s NULLPTR = [NullPointer] \<and> p_pts s UNKNOWN_MEMORY = [UnknownPointer] \<and>
       p_pts s INVALIDATED = [])) (\<lambda>_. Option.bind (getNodes G s [pg_root G]) (\<lambda>ns.
         assert_opt (list_all (\<lambda>n. ntype G n = PS_ALLOC \<longrightarrow> p_pts s n = [(n, Offset 0)]) ns)))"

definition setToEmpty :: "pgraph \<Rightarrow> nat list \<Rightarrow> pta \<Rightarrow> pta" where
  "setToEmpty G ns s =
     s\<lparr>p_pts := foldl (\<lambda>p n. if ntype G n \<noteq> PS_ALLOC \<and> ntype G n \<noteq> PS_CONSTANT then p(n := []) else p) (p_pts s) ns\<rparr>"

text \<open>The loop, with the number of iterations done.\<close>

partial_function (option) fixpoint :: "pgraph \<Rightarrow> penv \<Rightarrow> nat \<Rightarrow> nat list \<Rightarrow> pta \<Rightarrow> (nat \<times> pta) option" where
  "fixpoint G e n to_process s =
     (if 0 < e_maxIterations e \<and> e_maxIterations e < n then Some (n, setToEmpty G to_process s)
      else Option.bind (iteration G e to_process s) (\<lambda>(changed, s').
        Option.bind (queue_changed G changed s') (\<lambda>ns.
          if ns = [] then Some (Suc n, s') else fixpoint G e (Suc n) ns s')))"

definition process_globals :: "pgraph \<Rightarrow> penv \<Rightarrow> pta \<Rightarrow> pta option" where
  "process_globals G e s =
     Option.bind (iteration G e (pg_globals G) s) (\<lambda>(_, s').
       Option.bind (iteration G e (pg_globals G) s') (\<lambda>(changed, s''). if changed = [] then Some s'' else None))"

definition pta_run :: "pgraph \<Rightarrow> penv \<Rightarrow> pta \<Rightarrow> (bool \<times> pta) option" where
  "pta_run G e s =
     Option.bind (sanityCheck G (preprocess G e s)) (\<lambda>_.
     Option.bind (process_globals G e (preprocess G e s)) (\<lambda>s1.
     Option.bind (getNodes G s1 [pg_root G]) (\<lambda>ns.
     Option.bind (fixpoint G e 0 ns s1) (\<lambda>(n, s2).
     Option.bind (sanityCheck G s2) (\<lambda>_.
       Some (0 < e_maxIterations e \<longrightarrow> n \<le> e_maxIterations e, s2))))))"

end
