(* ===== verification/Pointer_Growth.thy ===== *)
theory Pointer_Growth
  imports Pointer_Run
begin

text \<open>
  That the analysis ends: processing a node never fails an assertion on a well-formed graph, and every
  change it reports makes the sets of the nodes and of the memory heavier, where the weight of a set counts a
  pointer with unknown offset more than all the known offsets of its target it replaces.
\<close>

section \<open>The weight of a set\<close>

definition pts_weight :: "simple_pts \<Rightarrow> nat" where
  "pts_weight S = 2 ^ 64 * card {t. (t, getUnknown) \<in> set S} + card (set S)"

lemma finite_unknowns [simp]: "finite {t. (t, getUnknown) \<in> set S}"
  by (rule finite_subset [of _ "fst ` set S"]) force+

lemma pts_weight_mono: "set S \<subseteq> set S' \<Longrightarrow> pts_weight S \<le> pts_weight S'"
  unfolding pts_weight_def by (intro add_mono mult_le_mono2 card_mono) auto

lemma pts_weight_strict: "set S \<subset> set S' \<Longrightarrow> pts_weight S < pts_weight S'"
  unfolding pts_weight_def by (intro add_le_less_mono mult_le_mono2 card_mono psubset_card_mono) auto

lemma UNIV_Offset: "(UNIV :: Offset set) = range Offset"
  by (auto intro: Offset.exhaust)

instance Offset :: finite
proof
  have "finite (range Offset)" by (rule finite_imageI) simp
  then show "finite (UNIV :: Offset set)" by (simp only: UNIV_Offset)
qed

lemma card_Offset: "card (UNIV :: Offset set) = 2 ^ 64"
proof -
  have "card (range Offset) = card (UNIV :: 64 word set)" by (rule card_image) (simp add: inj_on_def)
  then show ?thesis by (simp add: UNIV_Offset card_word)
qed

lemma target_card:
  assumes "(t, getUnknown) \<notin> set S"
  shows "card {q \<in> set S. fst q = t} < 2 ^ 64"
proof -
  have "{q \<in> set S. fst q = t} \<subseteq> Pair t ` (UNIV - {getUnknown})" using assms by auto
  then have "card {q \<in> set S. fst q = t} \<le> card (Pair t ` (UNIV - {getUnknown}))" by (intro card_mono) auto
  also have "\<dots> = card (UNIV - {getUnknown})" by (rule card_image) (simp add: inj_on_def)
  also have "\<dots> < 2 ^ 64" by (simp add: card_Diff_singleton card_Offset)
  finally show ?thesis .
qed

lemma simple_add_weight:
  assumes "sorted_wrt (<) S"
  shows "pts_weight S + (if fst (simple_add p S) then 1 else 0) \<le> pts_weight (snd (simple_add p S)) \<and>
    (\<not> fst (simple_add p S) \<longrightarrow> snd (simple_add p S) = S)"
proof -
  let ?S' = "snd (simple_add p S)"
  have ok: "sorted_wrt (<) ?S'" "set ?S' = spec_add p (set S)" "fst (simple_add p S) = (set ?S' \<noteq> set S)"
    using simple_add_ok [OF assms, of p] by simp_all
  have eq: "?S' = S" if "\<not> fst (simple_add p S)"
  proof (rule sorted_distinct_set_unique)
    show "set ?S' = set S" using that ok(3) by simp
  qed (use ok(1) assms in \<open>simp_all add: strict_sorted_iff\<close>)
  have "pts_weight S < pts_weight ?S'" if ch: "fst (simple_add p S)"
  proof -
    have ne: "set ?S' \<noteq> set S" using ch ok(3) by simp
    have new: "any_offset p \<notin> set S"
    proof
      assume "any_offset p \<in> set S"
      then have "spec_add p (set S) = set S" by (simp only: spec_add_def if_True)
      then show False using ne ok(2) by simp
    qed
    show ?thesis
    proof (cases "isUnknown (snd p)")
      case False
      then have "set ?S' = insert p (set S)" using ok(2) new by (simp only: spec_add_def if_False)
      then have "set S \<subset> set ?S'" using ne by blast
      then show ?thesis by (rule pts_weight_strict)
    next
      case True
      obtain t where p: "p = (t, getUnknown)" using True by (cases p) (simp add: getUnknown_isUnknown)
      have S': "set ?S' = insert p {q \<in> set S. fst q \<noteq> t}" 
        using True new ok(2) by (simp only: spec_add_def if_True if_False p fst_conv)
      have t: "(t, getUnknown) \<notin> set S" using new by (simp add: p any_offset_def)
      have "{u. (u, getUnknown) \<in> set ?S'} = insert t {u. (u, getUnknown) \<in> set S}" unfolding S' using t p by auto
      then have unk: "card {u. (u, getUnknown) \<in> set ?S'} = Suc (card {u. (u, getUnknown) \<in> set S})" using t by simp
      have "set S = {q \<in> set S. fst q = t} \<union> {q \<in> set S. fst q \<noteq> t}" by auto
      then have "card (set S) \<le> card {q \<in> set S. fst q = t} + card {q \<in> set S. fst q \<noteq> t}"
        using card_Un_le [of "{q \<in> set S. fst q = t}" "{q \<in> set S. fst q \<noteq> t}"] by (simp only:)
      moreover have "card {q \<in> set S. fst q \<noteq> t} \<le> card (set ?S')" unfolding S' by (intro card_mono) auto
      ultimately have "card (set S) < 2 ^ 64 + card (set ?S')" using target_card [OF t] by linarith
      then show ?thesis unfolding pts_weight_def unk by simp
    qed
  qed
  then show ?thesis using eq by (cases "fst (simple_add p S)") auto
qed

lemma simple_unite_weight:
  assumes "sorted_wrt (<) S"
  shows "pts_weight S + (if fst (simple_unite S T) then 1 else 0) \<le> pts_weight (snd (simple_unite S T)) \<and>
    (\<not> fst (simple_unite S T) \<longrightarrow> snd (simple_unite S T) = S)"
proof -
  let ?S' = "snd (simple_unite S T)"
  have ok: "sorted_wrt (<) ?S'" "set ?S' = set S \<union> set T" "fst (simple_unite S T) = (\<not> set T \<subseteq> set S)"
    using simple_unite_ok [OF assms, of T] by simp_all
  have "?S' = S" if "\<not> fst (simple_unite S T)"
  proof (rule sorted_distinct_set_unique)
    show "set ?S' = set S" using that ok(2,3) by blast
  qed (use ok(1) assms in \<open>simp_all add: strict_sorted_iff\<close>)
  moreover have "pts_weight S < pts_weight ?S'" if "fst (simple_unite S T)"
    using that ok by (intro pts_weight_strict) auto
  ultimately show ?thesis by (cases "fst (simple_unite S T)") auto
qed

lemma pts_weight_bound:
  assumes "finite T" and "fst ` set S \<subseteq> T"
  shows "pts_weight S \<le> 2 ^ 65 * card T"
proof -
  have "card {t. (t, getUnknown) \<in> set S} \<le> card T" using assms by (intro card_mono) force+
  moreover have "card (set S) \<le> card (T \<times> (UNIV :: Offset set))" using assms by (intro card_mono) auto
  ultimately show ?thesis unfolding pts_weight_def card_cartesian_product card_Offset by simp
qed

section \<open>Well-formed graphs and states\<close>

definition special :: "nat set" where
  "special = {NULLPTR, UNKNOWN_MEMORY, INVALIDATED}"

text \<open>\<open>N\<close> are the nodes that are processed, \<open>T\<close> the allocations and functions that are pointed to. A node that
  iterates over the set of its operand and adds to its own is not its own operand: the loops of the model go over the set
  as it was before.\<close>

definition node_wf :: "pgraph \<Rightarrow> nat \<Rightarrow> bool" where
  "node_wf G n =
     (case ntype G n of
        PS_NULL_ADDR \<Rightarrow> False | PS_UNKNOWN_MEM \<Rightarrow> False | PS_INVALIDATED \<Rightarrow> False
      | PS_LOAD \<Rightarrow> n_operands (pg_node G n) \<noteq> [] \<and> n \<notin> set (n_operands (pg_node G n))
      | PS_GEP \<Rightarrow> n_operands (pg_node G n) \<noteq> [] \<and> n \<notin> set (n_operands (pg_node G n))
      | PS_CALL_FUNCPTR \<Rightarrow> n_operands (pg_node G n) \<noteq> [] \<and> n \<notin> set (n_operands (pg_node G n))
      | PS_FORK \<Rightarrow> n_operands (pg_node G n) \<noteq> [] \<and> n \<notin> set (n_operands (pg_node G n))
      | PS_CAST \<Rightarrow> n_operands (pg_node G n) \<noteq> []
      | PS_INVALIDATE_LOCALS \<Rightarrow> n_operands (pg_node G n) \<noteq> []
      | PS_STORE \<Rightarrow> 2 \<le> length (n_operands (pg_node G n))
      | PS_MEMCPY \<Rightarrow> 2 \<le> length (n_operands (pg_node G n)) \<and> off (n_len (pg_node G n)) \<noteq> 0
      | _ \<Rightarrow> True)"

definition pg_wf :: "pgraph \<Rightarrow> nat set \<Rightarrow> nat set \<Rightarrow> bool" where
  "pg_wf G N T = (finite N \<and> finite T \<and> N \<inter> special = {} \<and> T \<inter> special = {} \<and> pg_root G \<in> N \<and>
     ntype G NULLPTR = PS_NULL_ADDR \<and> ntype G UNKNOWN_MEMORY = PS_UNKNOWN_MEM \<and>
     ntype G INVALIDATED = PS_INVALIDATED \<and> (\<forall>n \<in> N. node_wf G n) \<and> (\<forall>t \<in> T. ntype G t = PS_ALLOC \<or> ntype G t = PS_FUNCTION))"

definition ptrs_wf :: "nat set \<Rightarrow> simple_pts \<Rightarrow> bool" where
  "ptrs_wf T S = (sorted_wrt (<) S \<and> fst ` set S \<subseteq> T \<union> special)"

definition edges_wf :: "pgraph \<Rightarrow> nat set \<Rightarrow> pta \<Rightarrow> bool" where
  "edges_wf G N s = ((\<forall>n \<in> N. set (edges_of G s n) \<subseteq> N) \<and>
     (\<forall>n \<in> N. ntype G n = PS_INVALIDATE_LOCALS \<longrightarrow> length (p_succ s (hd (n_operands (pg_node G n)))) = 1))"

definition fixed_wf :: "pgraph \<Rightarrow> nat set \<Rightarrow> pta \<Rightarrow> bool" where
  "fixed_wf G N s = (p_pts s NULLPTR = [NullPointer] \<and> p_pts s UNKNOWN_MEMORY = [UnknownPointer] \<and>
     p_pts s INVALIDATED = [] \<and>
     (\<forall>n \<in> N. ntype G n = PS_ALLOC \<or> ntype G n = PS_FUNCTION \<longrightarrow> p_pts s n = [(n, Offset 0)]) \<and>
     (\<forall>n \<in> N. ntype G n = PS_CONSTANT \<longrightarrow> length (p_pts s n) = 1))"

definition pta_wf :: "pgraph \<Rightarrow> nat set \<Rightarrow> nat set \<Rightarrow> pta \<Rightarrow> bool" where
  "pta_wf G N T s = (edges_wf G N s \<and> fixed_wf G N s \<and> (\<forall>n. ptrs_wf T (p_pts s n)) \<and>
     (\<forall>t. smap_wf (p_mem s t)) \<and> (\<forall>t f S. map_of (p_mem s t) f = Some S \<longrightarrow> ptrs_wf T S))"

definition same_sets :: "pta \<Rightarrow> pta \<Rightarrow> bool" where
  "same_sets s s' = (p_pts s' = p_pts s \<and> p_mem s' = p_mem s \<and> p_gep s' = p_gep s)"

text \<open>The nodes that can change a set, and graphs where each of them is reached from all of them.\<close>

definition acting :: "pgraph \<Rightarrow> nat \<Rightarrow> bool" where
  "acting G n = (ntype G n \<in> {PS_LOAD, PS_STORE, PS_GEP, PS_PHI, PS_CAST, PS_CALL_RETURN, PS_RETURN, PS_MEMCPY,
     PS_CALL_FUNCPTR, PS_FORK})"

definition reach_set :: "(nat \<Rightarrow> nat list) \<Rightarrow> nat set \<Rightarrow> nat set" where
  "reach_set E A = {(x, y). y \<in> set (E x)}\<^sup>* `` A"

definition linked :: "pgraph \<Rightarrow> nat set \<Rightarrow> pta \<Rightarrow> bool" where
  "linked G N s = (\<forall>a \<in> N. a = pg_root G \<or> acting G a \<longrightarrow> {b \<in> N. acting G b} \<subseteq> reach_set (edges_of G s) {a})"

definition stays :: "pgraph \<Rightarrow> nat set \<Rightarrow> pta \<Rightarrow> pta \<Rightarrow> bool" where
  "stays G N s s' = ((linked G N s \<longrightarrow> linked G N s') \<and> p_gep s' = p_gep s \<and>
     (\<forall>n. ntype G n = PS_CONSTANT \<longrightarrow> p_pts s' n = p_pts s n))"

text \<open>The handlers may change edges, within \<open>N\<close>, but no sets.\<close>

definition handler_ok :: "pgraph \<Rightarrow> nat set \<Rightarrow> nat set \<Rightarrow> (pta \<Rightarrow> pta) \<Rightarrow> bool" where
  "handler_ok G N T h = (\<forall>s. pta_wf G N T s \<longrightarrow> pta_wf G N T (h s) \<and> same_sets s (h s) \<and> stays G N s (h s))"

definition env_wf :: "pgraph \<Rightarrow> penv \<Rightarrow> nat set \<Rightarrow> nat set \<Rightarrow> bool" where
  "env_wf G e N T = ((\<forall>S. set (e_iter e S) = set S) \<and>
     (\<forall>n t. handler_ok G N T (e_call e n t)) \<and> (\<forall>n t. handler_ok G N T (e_fork e n t)) \<and>
     (\<forall>n. (\<forall>s. \<not> fst (e_join e n s)) \<and> handler_ok G N T (\<lambda>s. snd (e_join e n s))))"

definition pta_weight :: "nat set \<Rightarrow> nat set \<Rightarrow> pta \<Rightarrow> nat" where
  "pta_weight N T s = (\<Sum>n \<in> N. pts_weight (p_pts s n)) + (\<Sum>t \<in> T. \<Sum>f \<in> UNIV. pts_weight (mo_get (p_mem s t) f))"

definition step_ok :: "pgraph \<Rightarrow> nat set \<Rightarrow> nat set \<Rightarrow> pta \<Rightarrow> bool \<times> pta \<Rightarrow> bool" where
  "step_ok G N T s r = (pta_wf G N T (snd r) \<and>
     pta_weight N T s + (if fst r then 1 else 0) \<le> pta_weight N T (snd r) \<and> (\<not> fst r \<longrightarrow> same_sets s (snd r)) \<and>
     stays G N s (snd r))"

lemma same_sets_refl [simp]: "same_sets s s"
  by (simp add: same_sets_def)

lemma same_sets_trans: "same_sets s s' \<Longrightarrow> same_sets s' s'' \<Longrightarrow> same_sets s s''"
  by (simp add: same_sets_def)

lemma same_sets_weight: "same_sets s s' \<Longrightarrow> pta_weight N T s' = pta_weight N T s"
  by (simp add: same_sets_def pta_weight_def)

lemma stays_refl [simp]: "stays G N s s"
  by (simp add: stays_def)

lemma stays_trans: "stays G N s s' \<Longrightarrow> stays G N s' s'' \<Longrightarrow> stays G N s s''"
  by (simp add: stays_def)

lemma stays_same: "edges_of G s' = edges_of G s \<Longrightarrow> p_pts s' = p_pts s \<Longrightarrow> p_gep s' = p_gep s \<Longrightarrow> stays G N s s'"
  by (simp add: stays_def linked_def)

lemma step_ok_same: "pta_wf G N T s' \<Longrightarrow> same_sets s s' \<Longrightarrow> stays G N s s' \<Longrightarrow> step_ok G N T s (False, s')"
  by (simp add: step_ok_def same_sets_weight)

lemma step_ok_trans:
  assumes "step_ok G N T s (c, s')" and "step_ok G N T s' (c', s'')"
  shows "step_ok G N T s (c \<or> c', s'')"
  using assms same_sets_trans [of s s' s''] stays_trans [of G N s s' s''] by (auto simp: step_ok_def split: if_splits)

lemma step_ok_edges:
  assumes "step_ok G N T s (True, s')" and "pta_wf G N T s''" and "same_sets s' s''" and "stays G N s' s''"
  shows "step_ok G N T s (True, s'')"
  using assms same_sets_weight [OF assms(3)] stays_trans [of G N s s' s''] by (simp add: step_ok_def)

definition steps :: "pgraph \<Rightarrow> nat set \<Rightarrow> nat set \<Rightarrow> (pta \<Rightarrow> (bool \<times> pta) option) \<Rightarrow> bool" where
  "steps G N T f = (\<forall>s. pta_wf G N T s \<longrightarrow> (\<exists>r. f s = Some r \<and> step_ok G N T s r))"

lemma each_steps:
  "(\<And>x. x \<in> set xs \<Longrightarrow> steps G N T (f x)) \<Longrightarrow> steps G N T (each f xs)"
proof (induction xs)
  case Nil
  then show ?case by (simp add: steps_def step_ok_same)
next
  case (Cons x xs)
  show ?case unfolding steps_def
  proof (intro allI impI)
    fix s assume s: "pta_wf G N T s"
    obtain c s' where 1: "f x s = Some (c, s')" "step_ok G N T s (c, s')"
      using Cons.prems [of x] s by (auto simp: steps_def)
    have "steps G N T (each f xs)" using Cons by simp
    moreover have "pta_wf G N T s'" using 1(2) by (simp add: step_ok_def)
    ultimately obtain c' s'' where 2: "each f xs s' = Some (c', s'')" "step_ok G N T s' (c', s'')"
      unfolding steps_def by (metis surj_pair)
    show "\<exists>r. each f (x # xs) s = Some r \<and> step_ok G N T s r"
      using step_ok_trans [OF 1(2) 2(2)] 1(1) 2(1) by simp
  qed
qed

lemma both_steps:
  assumes "steps G N T f" and "steps G N T g"
  shows "steps G N T (both f g)"
  unfolding steps_def
proof (intro allI impI)
  fix s assume s: "pta_wf G N T s"
  obtain c s' where 1: "f s = Some (c, s')" "step_ok G N T s (c, s')" using assms(1) s by (auto simp: steps_def)
  moreover have "pta_wf G N T s'" using 1(2) by (simp add: step_ok_def)
  ultimately obtain c' s'' where 2: "g s' = Some (c', s'')" "step_ok G N T s' (c', s'')"
    using assms(2) unfolding steps_def by (metis surj_pair)
  show "\<exists>r. both f g s = Some r \<and> step_ok G N T s r"
    using step_ok_trans [OF 1(2) 2(2)] 1(1) 2(1) by (simp add: both_def)
qed

section \<open>The elementary changes\<close>

definition processed :: "pgraph \<Rightarrow> nat set \<Rightarrow> nat \<Rightarrow> bool" where
  "processed G N n = (n \<in> N \<and> ntype G n \<noteq> PS_ALLOC \<and> ntype G n \<noteq> PS_FUNCTION \<and> ntype G n \<noteq> PS_CONSTANT)"

lemma sum_increase:
  fixes f g :: "'a \<Rightarrow> nat"
  assumes "finite A" and "a \<in> A" and "f a + k \<le> g a" and "\<And>x. x \<noteq> a \<Longrightarrow> g x = f x"
  shows "sum f A + k \<le> sum g A"
proof -
  have "sum g (A - {a}) = sum f (A - {a})" using assms(4) by (intro sum.cong) auto
  then show ?thesis using assms(3) by (simp add: sum.remove [OF assms(1,2)])
qed

lemma pts_update_ok:
  assumes G: "pg_wf G N T" and s: "pta_wf G N T s" and n: "processed G N n" and S: "ptrs_wf T S"
    and w: "pts_weight (p_pts s n) + (if c then 1 else 0) \<le> pts_weight S" and e: "\<not> c \<longrightarrow> S = p_pts s n"
  shows "step_ok G N T s (c, s\<lparr>p_pts := (p_pts s)(n := S)\<rparr>)"
proof -
  have n': "n \<in> N" "n \<noteq> NULLPTR" "n \<noteq> UNKNOWN_MEMORY" "n \<noteq> INVALIDATED"
    using n G by (auto simp: processed_def pg_wf_def special_def)
  have "sum (\<lambda>m. pts_weight (p_pts s m)) N + (if c then 1 else 0) \<le> sum (\<lambda>m. pts_weight (((p_pts s)(n := S)) m)) N"
    using G n'(1) w by (intro sum_increase [of N n]) (auto simp: pg_wf_def)
  then have "pta_weight N T s + (if c then 1 else 0) \<le> pta_weight N T (s\<lparr>p_pts := (p_pts s)(n := S)\<rparr>)"
    unfolding pta_weight_def by simp
  moreover have ed: "edges_of G (s\<lparr>p_pts := (p_pts s)(n := S)\<rparr>) = edges_of G s"
    by (simp add: edges_of_def fun_eq_iff cong: if_cong)
  moreover have "edges_wf G N (s\<lparr>p_pts := (p_pts s)(n := S)\<rparr>) = edges_wf G N s" by (simp add: edges_wf_def ed)
  moreover have "stays G N s (s\<lparr>p_pts := (p_pts s)(n := S)\<rparr>)"
    using n by (simp add: stays_def linked_def ed) (auto simp: processed_def)
  moreover have "fixed_wf G N (s\<lparr>p_pts := (p_pts s)(n := S)\<rparr>)"
    using s n n' by (auto simp: pta_wf_def fixed_wf_def processed_def)
  ultimately show ?thesis using s S e by (auto simp: step_ok_def pta_wf_def same_sets_def)
qed

lemma addPtr_steps:
  assumes G: "pg_wf G N T" and n: "processed G N n" and p: "fst p \<in> T \<union> special"
  shows "steps G N T (\<lambda>s. Some (addPtr n p s))"
  unfolding steps_def
proof (intro allI impI)
  fix s assume s: "pta_wf G N T s"
  obtain c S where a: "simple_add p (p_pts s n) = (c, S)" by fastforce
  have wf: "ptrs_wf T (p_pts s n)" using s by (simp add: pta_wf_def)
  then have srt: "sorted_wrt (<) (p_pts s n)" by (simp add: ptrs_wf_def)
  have "ptrs_wf T S" using simple_add_ok [OF srt, of p] wf p unfolding a
    by (auto simp: ptrs_wf_def spec_add_def split: if_splits)
  moreover note simple_add_weight [OF srt, of p, unfolded a fst_conv snd_conv]
  ultimately show "\<exists>r. Some (addPtr n p s) = Some r \<and> step_ok G N T s r"
    using pts_update_ok [OF G s n] a by (simp add: addPtr_def)
qed

lemma addPts_steps:
  assumes G: "pg_wf G N T" and n: "processed G N n" and T: "\<And>s. pta_wf G N T s \<Longrightarrow> fst ` set (F s) \<subseteq> T \<union> special"
  shows "steps G N T (\<lambda>s. Some (addPts n (F s) s))"
  unfolding steps_def
proof (intro allI impI)
  fix s assume s: "pta_wf G N T s"
  obtain c S where a: "simple_unite (p_pts s n) (F s) = (c, S)" by fastforce
  have wf: "ptrs_wf T (p_pts s n)" using s by (simp add: pta_wf_def)
  then have srt: "sorted_wrt (<) (p_pts s n)" by (simp add: ptrs_wf_def)
  have "ptrs_wf T S" using simple_unite_ok [OF srt, of "F s"] wf T [OF s] unfolding a by (auto simp: ptrs_wf_def)
  moreover note simple_unite_weight [OF srt, of "F s", unfolded a fst_conv snd_conv]
  ultimately show "\<exists>r. Some (addPts n (F s) s) = Some r \<and> step_ok G N T s r"
    using pts_update_ok [OF G s n] a by (simp add: addPts_def)
qed

lemma mo_get_wf: "pta_wf G N T s \<Longrightarrow> ptrs_wf T (mo_get (p_mem s d) f)"
  by (auto simp: mo_get_def pta_wf_def ptrs_wf_def split: option.split)

lemma spec_add_nonempty: "spec_add p A \<noteq> {}"
  by (auto simp: spec_add_def)

lemma mem_update_ok:
  assumes G: "pg_wf G N T" and s: "pta_wf G N T s" and d: "d \<in> T" and S: "ptrs_wf T S"
    and w: "pts_weight (mo_get (p_mem s d) f) + (if c then 1 else 0) \<le> pts_weight S"
    and e: "\<not> c \<longrightarrow> map_of (p_mem s d) f = Some S"
  shows "step_ok G N T s (c, s\<lparr>p_mem := (p_mem s)(d := smap_set f S (p_mem s d))\<rparr>)"
proof -
  let ?s' = "s\<lparr>p_mem := (p_mem s)(d := smap_set f S (p_mem s d))\<rparr>"
  have "sum (\<lambda>g. pts_weight (mo_get (p_mem s d) g)) UNIV + (if c then 1 else 0) \<le>
      sum (\<lambda>g. pts_weight (mo_get (smap_set f S (p_mem s d)) g)) UNIV"
    using w by (intro sum_increase [of UNIV f]) (auto simp: mo_get_def)
  then have "sum (\<lambda>t. sum (\<lambda>g. pts_weight (mo_get (p_mem s t) g)) UNIV) T + (if c then 1 else 0) \<le>
      sum (\<lambda>t. sum (\<lambda>g. pts_weight (mo_get (p_mem ?s' t) g)) UNIV) T"
    using G d by (intro sum_increase [of T d]) (auto simp: pg_wf_def)
  then have "pta_weight N T s + (if c then 1 else 0) \<le> pta_weight N T ?s'" unfolding pta_weight_def by simp
  moreover have ed: "edges_of G ?s' = edges_of G s" by (simp add: edges_of_def fun_eq_iff cong: if_cong)
  moreover have "edges_wf G N ?s' = edges_wf G N s" "fixed_wf G N ?s' = fixed_wf G N s"
    by (simp_all add: edges_wf_def ed fixed_wf_def)
  moreover have "stays G N s ?s'" by (rule stays_same [OF ed]) simp_all
  moreover have "p_mem ?s' = p_mem s" if "\<not> c"
  proof -
    have m: "map_of (p_mem s d) f = Some S" using e that by simp
    have sm: "smap_wf (p_mem s d)" using s by (simp add: pta_wf_def)
    have "smap_set f S (p_mem s d) = p_mem s d" using sm m by (intro smap_ext) auto
    then show ?thesis by simp
  qed
  ultimately show ?thesis using s S by (auto simp: step_ok_def pta_wf_def same_sets_def split: if_splits)
qed

lemma mo_addPtr_steps:
  assumes G: "pg_wf G N T" and d: "d \<in> T" and p: "fst p \<in> T \<union> special"
  shows "steps G N T (\<lambda>s. Some (mo_addPtr d f p s))"
  unfolding steps_def
proof (intro allI impI)
  fix s assume s: "pta_wf G N T s"
  obtain c S where a: "simple_add p (mo_get (p_mem s d) f) = (c, S)" by fastforce
  have wf: "ptrs_wf T (mo_get (p_mem s d) f)" by (rule mo_get_wf [OF s])
  then have srt: "sorted_wrt (<) (mo_get (p_mem s d) f)" by (simp add: ptrs_wf_def)
  note ok = simple_add_ok [OF srt, of p, unfolded a fst_conv snd_conv]
  have "ptrs_wf T S" using ok wf p by (auto simp: ptrs_wf_def spec_add_def split: if_splits)
  moreover note w = simple_add_weight [OF srt, of p, unfolded a fst_conv snd_conv]
  moreover have "map_of (p_mem s d) f = Some S" if "\<not> c"
  proof -
    have "S = mo_get (p_mem s d) f" using w that by simp
    moreover have "S \<noteq> []" using ok spec_add_nonempty by (metis list.set(1))
    ultimately show ?thesis by (auto simp: mo_get_def split: option.splits)
  qed
  ultimately show "\<exists>r. Some (mo_addPtr d f p s) = Some r \<and> step_ok G N T s r"
    using mem_update_ok [OF G s d, of S f c] a by (simp add: mo_addPtr_def)
qed

lemma mo_addPts_ok:
  assumes G: "pg_wf G N T" and d: "d \<in> T" and s: "pta_wf G N T s" and F: "fst ` set F \<subseteq> T \<union> special"
  shows "step_ok G N T s (mo_addPts d f F s)"
proof (cases "F = []")
  case True
  then show ?thesis using s by (simp add: mo_addPts_def step_ok_same)
next
  case False
  obtain c S where a: "simple_unite (mo_get (p_mem s d) f) F = (c, S)" by fastforce
  have wf: "ptrs_wf T (mo_get (p_mem s d) f)" by (rule mo_get_wf [OF s])
  then have srt: "sorted_wrt (<) (mo_get (p_mem s d) f)" by (simp add: ptrs_wf_def)
  note ok = simple_unite_ok [OF srt, of F, unfolded a fst_conv snd_conv]
  have "ptrs_wf T S" using ok wf F by (auto simp: ptrs_wf_def)
  moreover note w = simple_unite_weight [OF srt, of F, unfolded a fst_conv snd_conv]
  moreover have "map_of (p_mem s d) f = Some S" if "\<not> c"
  proof -
    have "S = mo_get (p_mem s d) f" using w that by simp
    moreover have "S \<noteq> []" using ok False by auto
    ultimately show ?thesis by (auto simp: mo_get_def split: option.splits)
  qed
  ultimately show ?thesis using mem_update_ok [OF G s d, of S f c] a False by (simp add: mo_addPts_def)
qed

lemma mo_addPts_steps:
  assumes "pg_wf G N T" and "d \<in> T" and "\<And>s. pta_wf G N T s \<Longrightarrow> fst ` set (F s) \<subseteq> T \<union> special"
  shows "steps G N T (\<lambda>s. Some (mo_addPts d f (F s) s))"
  using mo_addPts_ok [OF assms(1,2)] assms(3) by (simp add: steps_def)

lemma next_entry_wf:
  assumes "pta_wf G N T s" and "next_entry (p_mem s so) cur = Some (k, S)"
  shows "map_of (p_mem s so) k = Some S" and "fst ` set S \<subseteq> T \<union> special"
proof -
  have "(k, S) \<in> set (p_mem s so)" using assms(2) by (auto simp: next_entry_def find_Some_iff split: option.splits) (metis nth_mem)+
  moreover have "smap_wf (p_mem s so)" using assms(1) by (simp add: pta_wf_def)
  ultimately show m: "map_of (p_mem s so) k = Some S" by (simp add: map_of_in_set)
  then show "fst ` set S \<subseteq> T \<union> special" using assms(1) unfolding pta_wf_def ptrs_wf_def by blast
qed

lemma copy_object_ok:
  assumes "pg_wf G N T" and "d \<in> T"
  shows "pta_wf G N T s \<Longrightarrow> step_ok G N T s (copy_object G e sp dp len d so cur s)"
  using assms
proof (induction G e sp dp len d so cur s rule: copy_object.induct)
  case (1 G e sp dp len d so cur s)
  show ?case
  proof (cases "next_entry (p_mem s so) cur")
    case None
    then show ?thesis using 1(2) by (simp add: copy_object.simps step_ok_same)
  next
    case (Some kS)
    obtain k S where kS: "kS = (k, S)" by fastforce
    note n = Some [unfolded kS]
    define r where "r = (if copied (snd sp) len k then mo_addPts d (dest_offset G e d (snd sp) (snd dp) k) S s else (False, s))"
    have r: "step_ok G N T s r"
      using mo_addPts_ok [OF 1(3,4,2) next_entry_wf(2) [OF 1(2) n]] step_ok_same [OF 1(2)] by (simp add: r_def)
    obtain c s' where cs: "r = (c, s')" by fastforce
    have s': "pta_wf G N T s'" using r cs by (simp add: step_ok_def)
    have "step_ok G N T s' (copy_object G e sp dp len d so (Some k) s')"
      by (rule 1(1) [OF n refl _ s' 1(3,4)]) (use cs in \<open>simp add: r_def\<close>)
    moreover have "copy_object G e sp dp len d so cur s = (c \<or> fst (copy_object G e sp dp len d so (Some k) s'),
        snd (copy_object G e sp dp len d so (Some k) s'))"
      using cs by (subst copy_object.simps) (simp add: n r_def [symmetric] split: prod.split)
    ultimately show ?thesis using step_ok_trans r cs by (metis prod.collapse)
  qed
qed

section \<open>Processing a node makes a step\<close>

lemma stepsI: "(\<And>s. pta_wf G N T s \<Longrightarrow> \<exists>g. steps G N T g \<and> f s = g s) \<Longrightarrow> steps G N T f"
  unfolding steps_def by metis

lemma steps_skip: "steps G N T (\<lambda>s. Some (False, s))"
  by (simp add: steps_def step_ok_same)

lemma each_steps_dep:
  assumes "\<And>s x. pta_wf G N T s \<Longrightarrow> x \<in> set (X s) \<Longrightarrow> steps G N T (f x)"
  shows "steps G N T (\<lambda>s. each f (X s) s)"
proof (rule stepsI)
  fix s assume "pta_wf G N T s"
  then have "steps G N T (each f (X s))" using assms by (intro each_steps) blast
  then show "\<exists>g. steps G N T g \<and> each f (X s) s = g s" by blast
qed

lemma load_empty_steps:
  assumes "pg_wf G N T" and "processed G N n"
  shows "steps G N T (\<lambda>s. Some (load_empty n t s))"
proof (rule stepsI)
  fix s
  show "\<exists>g. steps G N T g \<and> Some (load_empty n t s) = g s"
    using addPtr_steps [OF assms, of NullPointer] steps_skip
    by (cases "p_zero s t") (auto simp: load_empty_def NullPointer_def special_def)
qed

lemma deref_alloc:
  assumes "pg_wf G N T" and "fst p \<in> T \<union> special" and "canBeDereferenced G p"
  shows "fst p \<in> T" and "ntype G (fst p) = PS_ALLOC" and "getMemoryObjects G e p s = Some [fst p]"
proof -
  show 1: "fst p \<in> T" using assms(2,3) by (auto simp: canBeDereferenced_def isValidPtr_def special_def split: if_splits)
  show 2: "ntype G (fst p) = PS_ALLOC" using assms 1 by (auto simp: pg_wf_def canBeDereferenced_def split: if_splits)
  show "getMemoryObjects G e p s = Some [fst p]" by (simp add: getMemoryObjects_def 2)
qed

lemma mem_ptrs: "pta_wf G N T s \<Longrightarrow> map_of (p_mem s d) f = Some S \<Longrightarrow> fst ` set S \<subseteq> T \<union> special"
  unfolding pta_wf_def ptrs_wf_def by blast

lemma pts_ptrs: "pta_wf G N T s \<Longrightarrow> fst ` set (p_pts s n) \<subseteq> T \<union> special"
  unfolding pta_wf_def ptrs_wf_def by blast

lemma addPts_const_steps:
  "pg_wf G N T \<Longrightarrow> processed G N n \<Longrightarrow> fst ` set S \<subseteq> T \<union> special \<Longrightarrow> steps G N T (\<lambda>s. Some (addPts n S s))"
  by (rule addPts_steps)

lemma load_entry_steps:
  assumes G: "pg_wf G N T" and n: "processed G N n" and A: "steps G N T (\<lambda>s. Some (A s))"
  shows "steps G N T (\<lambda>s. Some (case map_of (p_mem s d) f of None \<Rightarrow> A s | Some S \<Rightarrow> addPts n S s))"
proof (rule stepsI)
  fix s assume s: "pta_wf G N T s"
  show "\<exists>g. steps G N T g \<and> Some (case map_of (p_mem s d) f of None \<Rightarrow> A s | Some S \<Rightarrow> addPts n S s) = g s"
    using A addPts_const_steps [OF G n mem_ptrs [OF s]] by (cases "map_of (p_mem s d) f") auto
qed

lemma load_set_steps:
  assumes G: "pg_wf G N T" and n: "processed G N n" and s: "pta_wf G N T s" and x: "x \<in> set (p_mem s d)"
  shows "steps G N T ((\<lambda>(_, S) s. Some (addPts n S s)) x)"
proof -
  obtain f S where fS: "x = (f, S)" by fastforce
  then have "map_of (p_mem s d) f = Some S" using s x by (simp add: pta_wf_def map_of_in_set)
  then show ?thesis using addPts_const_steps [OF G n mem_ptrs [OF s]] by (simp add: fS)
qed

lemma load_object_steps:
  assumes G: "pg_wf G N T" and n: "processed G N n"
  shows "steps G N T (load_object n p objects d)"
proof (cases "isUnknown (snd p)")
  case True
  then have "load_object n p objects d = both (\<lambda>s. Some (if p_mem s d = [] then load_empty n (fst p) s else (False, s)))
      (\<lambda>s. each (\<lambda>(_, S) s. Some (addPts n S s)) (p_mem s d) s)" by (intro ext) (simp only: load_object_def if_True)
  moreover have "steps G N T (\<lambda>s. Some (if p_mem s d = [] then load_empty n (fst p) s else (False, s)))"
    by (rule stepsI) (use load_empty_steps [OF G n, of "fst p"] steps_skip in \<open>metis (mono_tags)\<close>)
  moreover have "steps G N T (\<lambda>s. each (\<lambda>(_, S) s. Some (addPts n S s)) (p_mem s d) s)"
    by (rule each_steps_dep) (rule load_set_steps [OF G n])
  ultimately show ?thesis using both_steps by simp
next
  case False
  then have "load_object n p objects d = both (\<lambda>s. Some (case map_of (p_mem s d) (snd p) of
        None \<Rightarrow> load_empty n (fst p) s | Some S \<Rightarrow> addPts n S s))
      (\<lambda>s. Some (case map_of (p_mem s d) getUnknown of None \<Rightarrow> (False, s) | Some S \<Rightarrow> addPts n S s))"
    by (intro ext) (simp only: load_object_def if_False)
  then show ?thesis
    using both_steps [OF load_entry_steps [OF G n load_empty_steps [OF G n]] load_entry_steps [OF G n steps_skip]] by simp
qed

lemma load_pointer_steps:
  assumes "pg_wf G N T" and "processed G N n" and "fst p \<in> T \<union> special"
  shows "steps G N T (load_pointer G e n p)"
proof -
  consider "fst p = UNKNOWN_MEMORY" | "fst p \<noteq> UNKNOWN_MEMORY" "\<not> canBeDereferenced G p"
    | "fst p \<noteq> UNKNOWN_MEMORY" "canBeDereferenced G p" by blast
  then show ?thesis
  proof cases
    case 1
    then show ?thesis unfolding load_pointer_def
      using addPtr_steps [OF assms(1,2), of UnknownPointer] by (simp add: UnknownPointer_def special_def)
  next
    case 2
    then show ?thesis unfolding load_pointer_def using steps_skip by simp
  next
    case 3
    note d = deref_alloc [OF assms(1,3) 3(2)]
    have "load_pointer G e n p = each (load_object n p [fst p]) [fst p]"
      using 3 d by (simp add: load_pointer_def fun_eq_iff)
    then show ?thesis using each_steps [of "[fst p]" G N T "load_object n p [fst p]"] load_object_steps [OF assms(1,2)] by simp
  qed
qed

lemma iter_ptr:
  assumes "env_wf G e N T" and "pta_wf G N T s" and "p \<in> set (e_iter e (p_pts s m))"
  shows "fst p \<in> T \<union> special"
proof -
  have "p \<in> set (p_pts s m)" using assms(1,3) by (simp add: env_wf_def)
  then show ?thesis using pts_ptrs [OF assms(2), of m] by blast
qed

lemma getOperand_0: "n_operands (pg_node G n) \<noteq> [] \<Longrightarrow> getOperand G n 0 = Some (hd (n_operands (pg_node G n)))"
  by (simp add: getOperand_def hd_conv_nth)

lemma processLoad_steps:
  assumes "pg_wf G N T" and "env_wf G e N T" and "processed G N n" and "n_operands (pg_node G n) \<noteq> []"
  shows "steps G N T (processLoad G e n)"
proof (rule stepsI)
  fix s assume s: "pta_wf G N T s"
  let ?op = "hd (n_operands (pg_node G n))"
  have "steps G N T (\<lambda>s. each (load_pointer G e n) (e_iter e (p_pts s ?op)) s)"
    by (rule each_steps_dep, rule load_pointer_steps [OF assms(1,3)], rule iter_ptr [OF assms(2)])
  then show "\<exists>g. steps G N T g \<and> processLoad G e n s = g s"
    using steps_skip by (cases "p_pts s ?op = []") (auto simp: processLoad_def getOperand_0 [OF assms(4)])
qed

lemma processGep_steps:
  assumes "pg_wf G N T" and "env_wf G e N T" and "processed G N n" and "n_operands (pg_node G n) \<noteq> []"
  shows "steps G N T (processGep G e n)"
proof (rule stepsI)
  fix s assume s: "pta_wf G N T s"
  let ?op = "hd (n_operands (pg_node G n))"
  have "steps G N T (\<lambda>t. each (\<lambda>p t. Some (addPtr n (fst p, gep_offset G e p (p_gep s n)) t)) (e_iter e (p_pts t ?op)) t)"
    by (rule each_steps_dep, rule addPtr_steps [OF assms(1,3)]) (use iter_ptr [OF assms(2)] in \<open>simp only: fst_conv\<close>)
  moreover have "processGep G e n s =
      each (\<lambda>p t. Some (addPtr n (fst p, gep_offset G e p (p_gep t n)) t)) (e_iter e (p_pts s ?op)) s"
    by (simp add: processGep_def getOperand_0 [OF assms(4)])
  moreover have "each (\<lambda>p t. Some (addPtr n (fst p, gep_offset G e p (p_gep t n)) t)) ps t =
      each (\<lambda>p t. Some (addPtr n (fst p, gep_offset G e p f) t)) ps t" if "p_gep t n = f" for ps t f
    using that by (induction ps arbitrary: t) (auto simp: addPtr_def split: prod.splits)
  ultimately show "\<exists>g. steps G N T g \<and> processGep G e n s = g s" by force
qed

lemma two_operands:
  assumes "2 \<le> length (n_operands (pg_node G n))"
  obtains v d where "getOperand G n 0 = Some v" and "getOperand G n 1 = Some d"
proof
  have "n_operands (pg_node G n) \<noteq> []" using assms by auto
  then show "getOperand G n 0 = Some (n_operands (pg_node G n) ! 0)" by (simp add: getOperand_def)
  show "getOperand G n 1 = Some (n_operands (pg_node G n) ! 1)" using assms by (simp add: getOperand_def)
qed

lemma store_pointer_steps:
  assumes "pg_wf G N T" and p: "fst p \<in> T \<union> special"
  shows "steps G N T (store_pointer G e v p)"
proof (cases "canBeDereferenced G p")
  case True
  note d = deref_alloc [OF assms(1) p True]
  have "store_pointer G e v p = each (\<lambda>d s. Some (mo_addPts d (snd p) (p_pts s v) s)) [fst p]"
    using True d by (simp add: store_pointer_def fun_eq_iff)
  then show ?thesis using mo_addPts_steps [OF assms(1) d(1), of "\<lambda>s. p_pts s v" "snd p"] pts_ptrs
      each_steps [of "[fst p]" G N T "\<lambda>d s. Some (mo_addPts d (snd p) (p_pts s v) s)"] by simp
next
  case False
  then show ?thesis using steps_skip by (simp add: store_pointer_def [abs_def])
qed

lemma processStore_steps:
  assumes "pg_wf G N T" and "env_wf G e N T" and "2 \<le> length (n_operands (pg_node G n))"
  shows "steps G N T (processStore G e n)"
proof -
  obtain v d where op: "getOperand G n 0 = Some v" "getOperand G n 1 = Some d" using two_operands [OF assms(3)] .
  have "steps G N T (\<lambda>s. each (store_pointer G e v) (e_iter e (p_pts s d)) s)"
    using iter_ptr [OF assms(2)] store_pointer_steps [OF assms(1)] by (intro each_steps_dep) simp
  then show ?thesis by (simp add: processStore_def [abs_def] op [unfolded One_nat_def])
qed

lemma processPhi_steps:
  assumes "pg_wf G N T" and "processed G N n"
  shows "steps G N T (processPhi G n)"
proof -
  have "steps G N T (each (\<lambda>op s. Some (addPts n (p_pts s op) s)) (n_operands (pg_node G n)))"
    by (intro each_steps addPts_steps [OF assms] pts_ptrs)
  then show ?thesis by (simp add: processPhi_def [abs_def])
qed

lemma call_return_invalidate_steps:
  assumes "pg_wf G N T" and "env_wf G e N T" and "processed G N n"
  shows "steps G N T (call_return_invalidate G e n)"
proof -
  let ?body = "\<lambda>p s. if \<not> canBeDereferenced G p then Some (False, s)
             else if ntype G (fst p) \<noteq> PS_ALLOC then None
             else if \<not> n_heap (pg_node G (fst p)) \<and> \<not> n_global (pg_node G (fst p))
             then Some (addPtr n (INVALIDATED, Offset 0) s)
             else Some (False, s)"
  have body: "steps G N T (?body p)" if p: "fst p \<in> T \<union> special" for p
  proof (cases "canBeDereferenced G p")
    case True
    then show ?thesis using deref_alloc(2) [OF assms(1) p True] steps_skip
        addPtr_steps [OF assms(1,3), of "(INVALIDATED, Offset 0)"]
      by (cases "n_heap (pg_node G (fst p))"; cases "n_global (pg_node G (fst p))") (simp_all add: special_def)
  next
    case False
    then show ?thesis using steps_skip by simp
  qed
  have "steps G N T (\<lambda>s. each ?body (e_iter e (p_pts s op)) s)" for op
    using iter_ptr [OF assms(2)] by (intro each_steps_dep body)
  then have "steps G N T (each (\<lambda>op s. each ?body (e_iter e (p_pts s op)) s) (n_operands (pg_node G n)))"
    by (intro each_steps)
  then show ?thesis using steps_skip by (cases "e_invalidateNodes e") (simp_all add: call_return_invalidate_def [abs_def])
qed

lemma processCall_steps:
  assumes "pg_wf G N T" and "env_wf G e N T" and "processed G N n" and "n_operands (pg_node G n) \<noteq> []"
    and h: "\<And>t. handler_ok G N T (h n t)"
  shows "steps G N T (processCall G e h n)"
proof -
  have "steps G N T (call_pointer G e h n p)" if p: "fst p \<in> T \<union> special" for p
    unfolding steps_def
  proof (intro allI impI)
    fix s assume s: "pta_wf G N T s"
    obtain c s' where a: "addPtr n p s = (c, s')" by fastforce
    have "step_ok G N T s (addPtr n p s)" using addPtr_steps [OF assms(1,3) p] s by (simp add: steps_def)
    then have ok: "step_ok G N T s (c, s')" by (simp only: a)
    then have s': "pta_wf G N T s'" by (simp add: step_ok_def)
    have "step_ok G N T s (True, h n (fst p) s')" if c using step_ok_edges [of G N T s s'] ok h s' that by (simp add: handler_ok_def)
    then show "\<exists>r. call_pointer G e h n p s = Some r \<and> step_ok G N T s r"
      using ok a step_ok_same [OF s] by (auto simp: call_pointer_def)
  qed
  then have "steps G N T (\<lambda>s. each (call_pointer G e h n) (e_iter e (p_pts s (hd (n_operands (pg_node G n))))) s)"
    using iter_ptr [OF assms(2)] by (intro each_steps_dep) simp
  then show ?thesis by (simp add: processCall_def [abs_def] getOperand_0 [OF assms(4)])
qed

lemma edges_zero: "edges_of G (s\<lparr>p_zero := z\<rparr>) = edges_of G s"
  by (simp add: edges_of_def fun_eq_iff cong: if_cong)

lemma pta_wf_zero: "pta_wf G N T (s\<lparr>p_zero := z\<rparr>) = pta_wf G N T s"
  by (simp add: pta_wf_def edges_wf_def fixed_wf_def edges_zero)

lemma memcpy_objects_steps:
  assumes "pg_wf G N T" and "fst dp \<in> T" and "ntype G (fst sp) = PS_ALLOC" and "ntype G (fst dp) = PS_ALLOC"
    and "off len \<noteq> 0"
  shows "steps G N T (memcpy_objects G e srcs [fst dp] sp dp len)"
  unfolding steps_def
proof (intro allI impI)
  fix s assume s: "pta_wf G N T s"
  let ?null = "copies_null G (fst sp) (fst dp) sp len"
  let ?zero = "p_zero s (fst sp)"
  define s' where "s' = (if ?zero \<and> \<not> ?null then s\<lparr>p_zero := (p_zero s)(fst dp := True)\<rparr> else s)"
  let ?body = "\<lambda>d. both (\<lambda>s. Some (if ?zero \<and> ?null then mo_addPtr d getUnknown NullPointer s else (False, s)))
            (each (\<lambda>so s. Some (copy_object G e sp dp len d so None s)) srcs)"
  have "steps G N T (\<lambda>s. Some (mo_addPtr (fst dp) getUnknown NullPointer s))"
    by (rule mo_addPtr_steps [OF assms(1,2)]) (simp add: NullPointer_def special_def)
  then have "steps G N T (\<lambda>s. Some (if ?zero \<and> ?null then mo_addPtr (fst dp) getUnknown NullPointer s else (False, s)))"
    using steps_skip by (cases "?zero \<and> ?null") auto
  moreover have "steps G N T (each (\<lambda>so s. Some (copy_object G e sp dp len (fst dp) so None s)) srcs)"
    by (rule each_steps) (simp add: steps_def copy_object_ok [OF assms(1,2)])
  ultimately have "steps G N T (?body (fst dp))" by (rule both_steps)
  then have "steps G N T (?body x)" if "x \<in> set [fst dp]" for x using that by (simp only: list.set singleton_iff)
  then have b: "steps G N T (each ?body [fst dp])" by (rule each_steps)
  have s': "pta_wf G N T s'" "same_sets s s'" "stays G N s s'"
    using s by (simp_all add: s'_def same_sets_def stays_same edges_zero pta_wf_zero)
  obtain r where r: "each ?body [fst dp] s' = Some r" "step_ok G N T s' r"
    using b [unfolded steps_def, rule_format, OF s'(1)] by (elim exE conjE)
  have "memcpy_objects G e srcs [fst dp] sp dp len s = Some r"
  proof -
    have "(off len = 0 \<or> ntype G (fst sp) \<noteq> PS_ALLOC \<or> ntype G (fst dp) \<noteq> PS_ALLOC) = False" using assms(3-5) by simp
    note m = memcpy_objects_def [of G e srcs "[fst dp]" sp dp len s, unfolded this if_False Let_def]
    show ?thesis by (rule trans [OF m]) (rule r(1) [unfolded s'_def])
  qed
  moreover have "step_ok G N T s r" using step_ok_trans [OF step_ok_same [OF s'], of "fst r" "snd r"] r(2) by simp
  ultimately show "\<exists>r. memcpy_objects G e srcs [fst dp] sp dp len s = Some r \<and> step_ok G N T s r" by blast
qed

lemma memcpy_dest_steps:
  assumes "pg_wf G N T" and "off len \<noteq> 0" and sp: "ntype G (fst sp) = PS_ALLOC" and dp: "fst dp \<in> T \<union> special"
  shows "steps G N T (memcpy_dest G e [fst sp] sp len dp)"
proof (cases "canBeDereferenced G dp")
  case True
  note d = deref_alloc [OF assms(1) dp True]
  have "memcpy_dest G e [fst sp] sp len dp = memcpy_objects G e [fst sp] [fst dp] sp dp len"
    using True d(3) by (simp add: memcpy_dest_def fun_eq_iff)
  then show ?thesis using memcpy_objects_steps [OF assms(1) d(1) sp d(2) assms(2)] by simp
next
  case False
  then show ?thesis using steps_skip by (simp add: memcpy_dest_def [abs_def])
qed

lemma memcpy_source_steps:
  assumes "pg_wf G N T" and "env_wf G e N T" and "off (n_len (pg_node G n)) \<noteq> 0" and sp: "fst sp \<in> T \<union> special"
  shows "steps G N T (memcpy_source G e n dest sp)"
proof (cases "canBeDereferenced G sp")
  case True
  note d = deref_alloc [OF assms(1) sp True]
  have "steps G N T (\<lambda>s. each (memcpy_dest G e [fst sp] sp (n_len (pg_node G n))) (e_iter e (p_pts s dest)) s)"
    using iter_ptr [OF assms(2)] memcpy_dest_steps [OF assms(1,3) d(2)] by (intro each_steps_dep) simp
  moreover have "memcpy_source G e n dest sp =
      (\<lambda>s. each (memcpy_dest G e [fst sp] sp (n_len (pg_node G n))) (e_iter e (p_pts s dest)) s)"
    using True d(3) by (simp add: memcpy_source_def fun_eq_iff)
  ultimately show ?thesis by simp
next
  case False
  then show ?thesis using steps_skip by (simp add: memcpy_source_def [abs_def])
qed

lemma processMemcpy_steps:
  assumes "pg_wf G N T" and "env_wf G e N T" and "2 \<le> length (n_operands (pg_node G n))" and "off (n_len (pg_node G n)) \<noteq> 0"
  shows "steps G N T (processMemcpy G e n)"
proof -
  obtain src dest where op: "getOperand G n 0 = Some src" "getOperand G n 1 = Some dest" using two_operands [OF assms(3)] .
  have "steps G N T (\<lambda>s. each (memcpy_source G e n dest) (e_iter e (p_pts s src)) s)"
    using iter_ptr [OF assms(2)] memcpy_source_steps [OF assms(1,2,4)] by (intro each_steps_dep) simp
  then show ?thesis by (simp add: processMemcpy_def [abs_def] op [unfolded One_nat_def])
qed

lemma processNode_steps:
  assumes G: "pg_wf G N T" and e: "env_wf G e N T" and n: "n \<in> N"
  shows "steps G N T (pta_processNode G e n)"
proof -
  have wf: "node_wf G n" using G n by (simp add: pg_wf_def)
  have chk: "steps G N T (\<lambda>s. if P s then Some (False, s) else None)" if "\<And>s. pta_wf G N T s \<Longrightarrow> P s" for P
    using that steps_skip by (simp add: steps_def)
  have fx: "pta_wf G N T s \<Longrightarrow> fixed_wf G N s \<and> edges_wf G N s" for s by (simp add: pta_wf_def)
  have h: "\<And>t. handler_ok G N T (e_call e n t)" "\<And>t. handler_ok G N T (e_fork e n t)"
    using e by (simp_all add: env_wf_def)
  have "steps G N T (\<lambda>s. Some (False, snd (e_join e n s)))"
    using e step_ok_same by (simp add: env_wf_def handler_ok_def steps_def)
  moreover have "e_join e n s = (False, snd (e_join e n s))" for s using e by (simp add: env_wf_def prod_eq_iff)
  ultimately have join: "steps G N T (\<lambda>s. Some (e_join e n s))" by simp
  have p: "processed G N n" if "ntype G n \<noteq> PS_ALLOC" "ntype G n \<noteq> PS_FUNCTION" "ntype G n \<noteq> PS_CONSTANT"
    using that n by (simp add: processed_def)
  show ?thesis
  proof (cases "ntype G n")
    case PS_ALLOC
    then show ?thesis using chk [of "\<lambda>s. p_pts s n = [(n, Offset 0)]"] fx n by (simp add: pta_processNode_def [abs_def] fixed_wf_def)
  next
    case PS_FUNCTION
    then show ?thesis using chk [of "\<lambda>s. p_pts s n = [(n, Offset 0)]"] fx n by (simp add: pta_processNode_def [abs_def] fixed_wf_def)
  next
    case PS_CONSTANT
    then show ?thesis using chk [of "\<lambda>s. length (p_pts s n) = 1"] fx n by (simp add: pta_processNode_def [abs_def] fixed_wf_def)
  next
    case PS_INVALIDATE_LOCALS
    then show ?thesis using chk [of "\<lambda>s. length (p_succ s (hd (n_operands (pg_node G n)))) = 1"] fx n wf getOperand_0 [of G n]
      by (simp add: pta_processNode_def [abs_def] edges_wf_def node_wf_def)
  next
    case PS_CAST
    then have "n_operands (pg_node G n) \<noteq> []" using wf by (simp add: node_wf_def)
    then show ?thesis using PS_CAST addPts_steps [OF G p, of "\<lambda>s. p_pts s (hd (n_operands (pg_node G n)))"] pts_ptrs
      by (simp add: pta_processNode_def [abs_def] getOperand_0)
  next
    case PS_LOAD
    then show ?thesis using processLoad_steps [OF G e p] wf by (simp add: pta_processNode_def [abs_def] node_wf_def)
  next
    case PS_GEP
    then show ?thesis using processGep_steps [OF G e p] wf by (simp add: pta_processNode_def [abs_def] node_wf_def)
  next
    case PS_STORE
    then show ?thesis using processStore_steps [OF G e] wf by (simp add: pta_processNode_def [abs_def] node_wf_def)
  next
    case PS_MEMCPY
    then show ?thesis using processMemcpy_steps [OF G e] wf by (simp add: pta_processNode_def [abs_def] node_wf_def)
  next
    case PS_CALL_RETURN
    then show ?thesis using both_steps [OF call_return_invalidate_steps [OF G e p] processPhi_steps [OF G p]]
      by (simp add: pta_processNode_def [abs_def])
  next
    case PS_CALL_FUNCPTR
    then show ?thesis using processCall_steps [OF G e p, of "e_call e"] h(1) wf by (simp add: pta_processNode_def [abs_def] node_wf_def)
  next
    case PS_FORK
    then show ?thesis using processCall_steps [OF G e p, of "e_fork e"] h(2) wf by (simp add: pta_processNode_def [abs_def] node_wf_def)
  qed (use wf join steps_skip processPhi_steps [OF G p] in \<open>simp_all add: pta_processNode_def [abs_def] node_wf_def\<close>)
qed

end
