(* ===== verification/Pointer_Termination.thy ===== *)
theory Pointer_Termination
  imports Pointer_Growth
begin

text \<open>
  The traversal visits every node reachable from the start once, and the analysis returns: an iteration that
  changes a node makes the state heavier, and the weight of a state is bounded.
\<close>

section \<open>The traversal\<close>

lemma reach_set_start: "A \<subseteq> reach_set E A"
  by (auto simp: reach_set_def)

lemma reach_set_step: "x \<in> reach_set E A \<Longrightarrow> set (E x) \<subseteq> reach_set E A"
  by (auto simp: reach_set_def Image_iff intro: rtrancl_into_rtrancl)

lemma reach_set_closed: "A \<subseteq> B \<Longrightarrow> (\<And>x. x \<in> B \<Longrightarrow> set (E x) \<subseteq> B) \<Longrightarrow> reach_set E A \<subseteq> B"
  unfolding reach_set_def by (rule subset_trans [OF Image_mono [OF subset_refl]], assumption)
    (subst Image_closed_trancl; auto)

lemma dispatch_ok:
  "dispatch ns (q, v) = (q', v') \<Longrightarrow>
     \<exists>new. q' = q @ new \<and> set v' = set v \<union> set new \<and> distinct new \<and> set new = set ns - set v"
proof (induction ns arbitrary: q v)
  case (Cons n ns)
  show ?case
  proof (cases "n \<in> set v")
    case True
    then show ?thesis using Cons.IH [of q v] Cons.prems by (auto simp: insert_absorb)
  next
    case False
    then obtain new where "q' = q @ n # new" "set v' = set v \<union> set (n # new)" "distinct new" "set new = set ns - set (n # v)"
      using Cons.IH [of "q @ [n]" "n # v"] Cons.prems by auto
    then show ?thesis using False by (intro exI [of _ "n # new"]) auto
  qed
qed simp

lemma bfs_run_ok:
  assumes "finite N" and "\<And>n. n \<in> N \<Longrightarrow> set (E n) \<subseteq> N"
    and "set v = set c \<union> set q" and "set v \<subseteq> N" and "distinct (c @ q)"
    and "A \<subseteq> set v" and "set v \<subseteq> reach_set E A" and "\<And>n. n \<in> set c \<Longrightarrow> set (E n) \<subseteq> set v"
  shows "\<exists>r. bfs_run E q v c = Some r \<and> distinct r \<and> set r = reach_set E A"
  using assms(3-)
proof (induction "card (N - set v) + length q" arbitrary: q v c rule: less_induct)
  case less
  show ?case
  proof (cases q)
    case Nil
    have "reach_set E A \<subseteq> set v" using less.prems Nil by (intro reach_set_closed) auto
    then show ?thesis using less.prems Nil by (subst bfs_run.simps) auto
  next
    case (Cons n p)
    obtain q' v' where d: "dispatch (E n) (p, v) = (q', v')" by fastforce
    obtain new where new: "q' = p @ new" "set v' = set v \<union> set new" "distinct new" "set new = set (E n) - set v"
      using dispatch_ok [OF d] by auto
    have n: "n \<in> set v" "set (E n) \<subseteq> N" using less.prems Cons assms(2) by auto
    have fin: "finite (N - set v)" using assms(1) by simp
    have "card (N - set v') + length new = card (N - set v)"
    proof -
      have "N - set v' = (N - set v) - set new" using new(2) by auto
      moreover have "set new \<subseteq> N - set v" using new(4) n(2) by auto
      ultimately show ?thesis using card_Diff_subset [of "set new" "N - set v"] card_mono [OF fin, of "set new"]
        by (simp add: distinct_card [OF new(3)])
    qed
    then have m: "card (N - set v') + length q' < card (N - set v) + length q" by (simp add: new(1) Cons)
    have "\<exists>r. bfs_run E q' v' (c @ [n]) = Some r \<and> distinct r \<and> set r = reach_set E A"
    proof (rule less.hyps [OF m])
      show "set v' = set (c @ [n]) \<union> set q'" using less.prems(1) new Cons by auto
      show "set v' \<subseteq> N" using less.prems(2) new n by auto
      show "distinct ((c @ [n]) @ q')" using less.prems(1,3) new Cons by auto
      show "A \<subseteq> set v'" using less.prems(4) new(2) by auto
      show "set v' \<subseteq> reach_set E A" using less.prems(5) new n(1) reach_set_step [of n E A] by auto
      show "set (E m) \<subseteq> set v'" if "m \<in> set (c @ [n])" for m using that less.prems(6) new(2,4) by auto
    qed
    then show ?thesis using Cons d by (subst bfs_run.simps) simp
  qed
qed

lemma getNodes_ok:
  assumes "finite N" and "edges_wf G N s" and "set start \<subseteq> N" and "distinct start"
  shows "\<exists>ns. getNodes G s start = Some ns \<and> distinct ns \<and> set ns = reach_set (edges_of G s) (set start) \<and> set ns \<subseteq> N"
proof -
  have e: "\<And>n. n \<in> N \<Longrightarrow> set (edges_of G s n) \<subseteq> N" using assms(2) by (simp add: edges_wf_def)
  have "\<exists>ns. bfs_run (edges_of G s) start (rev start) [] = Some ns \<and> distinct ns \<and>
      set ns = reach_set (edges_of G s) (set start)"
    by (rule bfs_run_ok [OF assms(1) e]) (use assms(3,4) reach_set_start in auto)
  moreover have "reach_set (edges_of G s) (set start) \<subseteq> N" using assms(3) e by (rule reach_set_closed)
  ultimately show ?thesis by (auto simp: getNodes_def)
qed

section \<open>Iterations\<close>

lemma iteration_ok:
  assumes "pg_wf G N T" and "env_wf G e N T" and "pta_wf G N T s" and "set ns \<subseteq> N"
  shows "\<exists>ch s'. iteration G e ns s = Some (ch, s') \<and> pta_wf G N T s' \<and>
    pta_weight N T s + length ch \<le> pta_weight N T s' \<and> (ch = [] \<longrightarrow> same_sets s s') \<and> set ch \<subseteq> set ns \<and> (distinct ns \<longrightarrow> distinct ch)"
  using assms(3,4)
proof (induction ns arbitrary: s)
  case (Cons n ns)
  have "steps G N T (pta_processNode G e n)" using processNode_steps [OF assms(1,2)] Cons.prems by simp
  then obtain r where "pta_processNode G e n s = Some r" "step_ok G N T s r"
    using Cons.prems(1) by (auto simp only: steps_def)
  then obtain c s1 where 1: "pta_processNode G e n s = Some (c, s1)" "step_ok G N T s (c, s1)" by (metis surj_pair)
  have s1: "pta_wf G N T s1" using 1(2) by (simp add: step_ok_def)
  obtain ch s' where 2: "iteration G e ns s1 = Some (ch, s')" "pta_wf G N T s'"
    "pta_weight N T s1 + length ch \<le> pta_weight N T s'" "ch = [] \<longrightarrow> same_sets s1 s'"
    "set ch \<subseteq> set ns" "distinct ns \<longrightarrow> distinct ch"
    using Cons.IH [OF s1] Cons.prems(2) by auto
  have "iteration G e (n # ns) s = Some (if c then n # ch else ch, s')" using 1 2 by simp
  moreover have "pta_weight N T s + length (if c then n # ch else ch) \<le> pta_weight N T s'"
    using 1(2) 2(3) by (cases c) (simp_all add: step_ok_def)
  moreover have "(if c then n # ch else ch) = [] \<longrightarrow> same_sets s s'"
    using 1(2) 2(4) same_sets_trans [of s s1 s'] by (cases c) (simp_all add: step_ok_def)
  moreover have "set (if c then n # ch else ch) \<subseteq> set (n # ns)" "distinct (n # ns) \<longrightarrow> distinct (if c then n # ch else ch)"
    using 2(5,6) by auto
  ultimately show ?case using 2(2) by blast
qed simp

lemma queue_changed_ok:
  assumes "finite N" and "edges_wf G N s" and "set ch \<subseteq> N" and "distinct ch"
  shows "\<exists>ns. queue_changed G ch s = Some ns \<and> distinct ns \<and> set ns = reach_set (edges_of G s) (set ch) \<and> set ns \<subseteq> N \<and>
    (ns = [] \<longleftrightarrow> ch = [])"
proof (cases "ch = []")
  case True
  then show ?thesis by (auto simp: queue_changed_def reach_set_def)
next
  case False
  obtain ns where ns: "getNodes G s ch = Some ns" "distinct ns" "set ns = reach_set (edges_of G s) (set ch)" "set ns \<subseteq> N"
    using getNodes_ok [OF assms] by auto
  have sub: "set ch \<subseteq> set ns" using ns(3) reach_set_start by simp
  have "length ch \<le> length ns" using card_mono [OF _ sub] distinct_card [OF assms(4)] distinct_card [OF ns(2)] by simp
  then show ?thesis using False ns sub by (auto simp: queue_changed_def)
qed

lemma weight_bound:
  assumes "pg_wf G N T" and "pta_wf G N T s"
  shows "pta_weight N T s \<le> (card N + card T * 2 ^ 64) * (2 ^ 65 * card (T \<union> special))"
proof -
  let ?b = "2 ^ 65 * card (T \<union> special)"
  have fin: "finite N" "finite (T \<union> special)" using assms(1) by (simp_all add: pg_wf_def special_def)
  have b: "pts_weight S \<le> ?b" if "ptrs_wf T S" for S
    using that by (intro pts_weight_bound [OF fin(2)]) (simp add: ptrs_wf_def)
  have "(\<Sum>n \<in> N. pts_weight (p_pts s n)) \<le> (\<Sum>n \<in> N. ?b)" using assms(2) by (intro sum_mono b) (simp add: pta_wf_def)
  moreover have "(\<Sum>f \<in> UNIV. pts_weight (mo_get (p_mem s t) f)) \<le> (\<Sum>f \<in> (UNIV :: Offset set). ?b)" for t
    by (intro sum_mono b mo_get_wf [OF assms(2)])
  then have "(\<Sum>t \<in> T. \<Sum>f \<in> UNIV. pts_weight (mo_get (p_mem s t) f)) \<le> (\<Sum>t \<in> T. \<Sum>f \<in> (UNIV :: Offset set). ?b)"
    by (rule sum_mono)
  ultimately show ?thesis by (simp add: pta_weight_def card_Offset algebra_simps)
qed

section \<open>The loop ends\<close>

text \<open>\<open>J\<close> is what a user of the rule wants to hold of the queue and the state before every iteration.\<close>

definition loop_exit ::
    "pgraph \<Rightarrow> penv \<Rightarrow> nat set \<Rightarrow> nat set \<Rightarrow> (nat list \<Rightarrow> pta \<Rightarrow> bool) \<Rightarrow> nat \<Rightarrow> pta \<Rightarrow> bool" where
  "loop_exit G e N T J n s =
     ((0 < e_maxIterations e \<and> e_maxIterations e < n \<and>
        (\<exists>ns t. set ns \<subseteq> N \<and> pta_wf G N T t \<and> s = setToEmpty G ns t)) \<or>
      (pta_wf G N T s \<and> (\<exists>ns t. set ns \<subseteq> N \<and> pta_wf G N T t \<and> J ns t \<and> iteration G e ns t = Some ([], s))))"

definition loop_inv :: "pgraph \<Rightarrow> penv \<Rightarrow> nat set \<Rightarrow> nat set \<Rightarrow> (nat list \<Rightarrow> pta \<Rightarrow> bool) \<Rightarrow> bool" where
  "loop_inv G e N T J =
     (\<forall>ns s ch s' ns'. set ns \<subseteq> N \<longrightarrow> pta_wf G N T s \<longrightarrow> J ns s \<longrightarrow> iteration G e ns s = Some (ch, s') \<longrightarrow>
        ch \<noteq> [] \<longrightarrow> set ch \<subseteq> N \<longrightarrow> pta_wf G N T s' \<longrightarrow> set ns' = reach_set (edges_of G s') (set ch) \<longrightarrow> J ns' s')"

lemma fixpoint_ok:
  assumes "pg_wf G N T" and "env_wf G e N T" and "pta_wf G N T s" and "set ns \<subseteq> N" and "distinct ns"
    and inv: "loop_inv G e N T J" and "J ns s"
  shows "\<exists>n' s'. fixpoint G e n ns s = Some (n', s') \<and> loop_exit G e N T J n' s'"
  using assms(3-5,7)
proof (induction "(card N + card T * 2 ^ 64) * (2 ^ 65 * card (T \<union> special)) - pta_weight N T s"
    arbitrary: n ns s rule: less_induct)
  case less
  show ?case
  proof (cases "0 < e_maxIterations e \<and> e_maxIterations e < n")
    case True
    then have "fixpoint G e n ns s = Some (n, setToEmpty G ns s)" by (subst fixpoint.simps) simp
    then show ?thesis using True less.prems by (auto simp: loop_exit_def)
  next
    case False
    obtain ch s' where it: "iteration G e ns s = Some (ch, s')" "pta_wf G N T s'"
      "pta_weight N T s + length ch \<le> pta_weight N T s'" "set ch \<subseteq> N" "distinct ch"
      using iteration_ok [OF assms(1,2) less.prems(1,2)] less.prems(2,3) by auto
    have fin: "finite N" using assms(1) by (simp add: pg_wf_def)
    have ed: "edges_wf G N s'" using it(2) by (simp add: pta_wf_def)
    obtain ns' where q: "queue_changed G ch s' = Some ns'" "distinct ns'" "set ns' \<subseteq> N" "ns' = [] \<longleftrightarrow> ch = []"
      "set ns' = reach_set (edges_of G s') (set ch)"
      using queue_changed_ok [OF fin ed it(4,5)] by auto
    show ?thesis
    proof (cases "ch = []")
      case True
      then have "fixpoint G e n ns s = Some (Suc n, s')" using False it(1) q by (subst fixpoint.simps) simp
      then show ?thesis using True it less.prems by (auto simp: loop_exit_def)
    next
      case nonempty: False
      then have w: "pta_weight N T s < pta_weight N T s'" using it(3) by (cases ch) simp_all
      have "fixpoint G e n ns s = fixpoint G e (Suc n) ns' s'"
        using False it(1) q nonempty by (subst fixpoint.simps) auto
      moreover have "J ns' s'"
        using inv less.prems nonempty it q(5) unfolding loop_inv_def by blast
      then have "\<exists>n' t. fixpoint G e (Suc n) ns' s' = Some (n', t) \<and> loop_exit G e N T J n' t"
        using w weight_bound [OF assms(1) it(2)] by (intro less.hyps it(2) q(2,3) diff_less_mono2) simp_all
      ultimately show ?thesis by simp
    qed
  qed
qed

section \<open>The run\<close>

lemma sanityCheck_ok:
  assumes "pg_wf G N T" and "edges_wf G N s" and "p_pts s NULLPTR = [NullPointer]"
    and "p_pts s UNKNOWN_MEMORY = [UnknownPointer]" and "p_pts s INVALIDATED = []"
    and "\<And>n. n \<in> N \<Longrightarrow> ntype G n = PS_ALLOC \<Longrightarrow> p_pts s n = [(n, Offset 0)]"
  shows "sanityCheck G s = Some ()"
proof -
  obtain ns where ns: "getNodes G s [pg_root G] = Some ns" "set ns \<subseteq> N"
    using getNodes_ok [of N G s "[pg_root G]"] assms(1,2) by (auto simp: pg_wf_def)
  then have "list_all (\<lambda>n. ntype G n = PS_ALLOC \<longrightarrow> p_pts s n = [(n, Offset 0)]) ns"
    using assms(6) by (auto simp: list_all_iff)
  then show ?thesis using assms(3-5) ns(1) by (simp add: sanityCheck_def assert_opt_def)
qed

lemma setToEmpty_pts:
  "p_pts (setToEmpty G ns s) n =
     (if n \<in> set ns \<and> ntype G n \<noteq> PS_ALLOC \<and> ntype G n \<noteq> PS_CONSTANT then [] else p_pts s n)"
proof -
  have l: "foldl (\<lambda>p n. if ntype G n \<noteq> PS_ALLOC \<and> ntype G n \<noteq> PS_CONSTANT then p(n := []) else p) p ns n =
      (if n \<in> set ns \<and> ntype G n \<noteq> PS_ALLOC \<and> ntype G n \<noteq> PS_CONSTANT then [] else p n)" for p
    by (induction ns arbitrary: p) auto
  show ?thesis by (simp add: setToEmpty_def l)
qed

lemma loop_exit_checked:
  assumes "pg_wf G N T" and "loop_exit G e N T J n s"
  shows "sanityCheck G s = Some ()"
  using assms(2) unfolding loop_exit_def
proof (elim disjE conjE exE)
  fix ns t assume ns: "set ns \<subseteq> N" "pta_wf G N T t" "s = setToEmpty G ns t"
  have "edges_wf G N t" "fixed_wf G N t" using ns(2) by (simp_all add: pta_wf_def)
  moreover have "NULLPTR \<notin> set ns" "UNKNOWN_MEMORY \<notin> set ns" "INVALIDATED \<notin> set ns"
    using ns(1) assms(1) by (auto simp: pg_wf_def special_def)
  moreover have "edges_wf G N s = edges_wf G N t" by (simp add: ns(3) edges_wf_def edges_of_def setToEmpty_def)
  ultimately show ?thesis using ns(3) by (intro sanityCheck_ok [OF assms(1)]) (simp_all add: setToEmpty_pts fixed_wf_def)
next
  assume "pta_wf G N T s"
  then show ?thesis by (intro sanityCheck_ok [OF assms(1)]) (simp_all add: pta_wf_def fixed_wf_def)
qed

lemma preprocess_wf: "pta_wf G N T s \<Longrightarrow> pta_wf G N T (preprocess G e s)"
proof -
  have "edges_of G (preprocess G e s) = edges_of G s"
    by (simp add: preprocess_def preprocessGEPs_def edges_of_def fun_eq_iff cong: if_cong)
  then show "pta_wf G N T s \<Longrightarrow> pta_wf G N T (preprocess G e s)"
    by (simp add: preprocess_def preprocessGEPs_def pta_wf_def edges_wf_def fixed_wf_def)
qed

lemma globals_ok:
  assumes "pg_wf G N T" and "env_wf G e N T" and "pta_wf G N T s" and "set (pg_globals G) \<subseteq> N"
    and "process_globals G e s = Some s1"
  obtains ch t where "iteration G e (pg_globals G) s = Some (ch, t)" and "pta_wf G N T t"
    and "iteration G e (pg_globals G) t = Some ([], s1)" and "pta_wf G N T s1"
proof -
  obtain ch t where t: "iteration G e (pg_globals G) s = Some (ch, t)" "pta_wf G N T t"
    using iteration_ok [OF assms(1-4)] by blast
  moreover obtain ch' t' where t': "iteration G e (pg_globals G) t = Some (ch', t')" "pta_wf G N T t'"
    using iteration_ok [OF assms(1,2) t(2) assms(4)] by blast
  moreover have "ch' = []" "t' = s1" using assms(5) t t' by (simp_all add: process_globals_def split: if_splits)
  ultimately show ?thesis using that by blast
qed

lemma pta_run_ok:
  assumes "pg_wf G N T" and "env_wf G e N T" and "pta_wf G N T s" and "set (pg_globals G) \<subseteq> N"
    and "process_globals G e (preprocess G e s) = Some s1"
    and "loop_inv G e N T J" and J: "\<And>ns. set ns = reach_set (edges_of G s1) {pg_root G} \<Longrightarrow> J ns s1"
  shows "\<exists>n s'. pta_run G e s = Some (0 < e_maxIterations e \<longrightarrow> n \<le> e_maxIterations e, s') \<and> loop_exit G e N T J n s'"
proof -
  have wf: "pta_wf G N T (preprocess G e s)" using assms(3) by (rule preprocess_wf)
  have s1: "pta_wf G N T s1" using globals_ok [OF assms(1,2) wf assms(4,5)] by blast
  have fin: "finite N" "set [pg_root G] \<subseteq> N" using assms(1) by (simp_all add: pg_wf_def)
  obtain ns where ns: "getNodes G s1 [pg_root G] = Some ns" "distinct ns" "set ns \<subseteq> N"
    "set ns = reach_set (edges_of G s1) {pg_root G}"
    using getNodes_ok [of N G s1 "[pg_root G]"] fin s1 by (auto simp: pta_wf_def)
  obtain n s' where f: "fixpoint G e 0 ns s1 = Some (n, s')" "loop_exit G e N T J n s'"
    using fixpoint_ok [OF assms(1,2) s1 ns(3,2) assms(6) J [OF ns(4)]] by blast
  have "sanityCheck G (preprocess G e s) = Some ()"
    using wf by (intro sanityCheck_ok [OF assms(1)]) (simp_all add: pta_wf_def fixed_wf_def)
  then show ?thesis using assms(5) ns(1) f loop_exit_checked [OF assms(1) f(2)] by (auto simp: pta_run_def)
qed

text \<open>An environment whose handlers change nothing, for examples.\<close>

definition example_env :: penv where
  "example_env = \<lparr>e_fieldSensitivity = getUnknown, e_invalidateNodes = False, e_preprocessGeps = False,
     e_maxIterations = 0, e_iter = (\<lambda>S. S), e_call = (\<lambda>_ _ s. s), e_fork = (\<lambda>_ _ s. s), e_join = (\<lambda>_ s. (False, s))\<rparr>"

lemma example_env_wf: "env_wf G example_env N T"
  by (simp add: env_wf_def handler_ok_def example_env_def)

end
