(* ===== verification/Pointer_Stable.thy ===== *)
theory Pointer_Stable
  imports Pointer_Termination
begin

text \<open>
  What it means that processing a node reports no change: the sets satisfy the inclusion constraint of the node.
  A run on a graph whose acting nodes are all reachable from each other ends with the constraints of all nodes
  satisfied.
\<close>

section \<open>The constraint of a node\<close>

abbreviation operand :: "pgraph \<Rightarrow> nat \<Rightarrow> nat \<Rightarrow> nat" where
  "operand G n i \<equiv> n_operands (pg_node G n) ! i"

definition load_sat :: "pgraph \<Rightarrow> nat \<Rightarrow> pta \<Rightarrow> ptr \<Rightarrow> bool" where
  "load_sat G n s p =
     (if fst p = UNKNOWN_MEMORY then UnknownPointer \<in> set (p_pts s n)
      else canBeDereferenced G p \<longrightarrow> (\<forall>f S. map_of (p_mem s (fst p)) f = Some S \<longrightarrow>
        isUnknown (snd p) \<or> f = snd p \<or> f = getUnknown \<longrightarrow> set S \<subseteq> set (p_pts s n)))"

definition memcpy_sat :: "pgraph \<Rightarrow> penv \<Rightarrow> Offset \<Rightarrow> pta \<Rightarrow> ptr \<Rightarrow> ptr \<Rightarrow> bool" where
  "memcpy_sat G e len s sp dp =
     (\<forall>k S. map_of (p_mem s (fst sp)) k = Some S \<longrightarrow> copied (snd sp) len k \<longrightarrow>
        set S \<subseteq> set (mo_get (p_mem s (fst dp)) (dest_offset G e (fst dp) (snd sp) (snd dp) k)))"

definition sat :: "pgraph \<Rightarrow> penv \<Rightarrow> nat \<Rightarrow> pta \<Rightarrow> bool" where
  "sat G e n s =
     (case ntype G n of
        PS_LOAD \<Rightarrow> \<forall>p \<in> set (p_pts s (operand G n 0)). load_sat G n s p
      | PS_STORE \<Rightarrow> \<forall>p \<in> set (p_pts s (operand G n 1)). canBeDereferenced G p \<longrightarrow>
          set (p_pts s (operand G n 0)) \<subseteq> set (mo_get (p_mem s (fst p)) (snd p))
      | PS_GEP \<Rightarrow> \<forall>p \<in> set (p_pts s (operand G n 0)).
          (fst p, gep_offset G e p (p_gep s n)) \<in> set (p_pts s n) \<or> (fst p, getUnknown) \<in> set (p_pts s n)
      | PS_CAST \<Rightarrow> set (p_pts s (operand G n 0)) \<subseteq> set (p_pts s n)
      | PS_PHI \<Rightarrow> \<forall>op \<in> set (n_operands (pg_node G n)). set (p_pts s op) \<subseteq> set (p_pts s n)
      | PS_RETURN \<Rightarrow> \<forall>op \<in> set (n_operands (pg_node G n)). set (p_pts s op) \<subseteq> set (p_pts s n)
      | PS_CALL_RETURN \<Rightarrow> \<forall>op \<in> set (n_operands (pg_node G n)). set (p_pts s op) \<subseteq> set (p_pts s n)
      | PS_MEMCPY \<Rightarrow> \<forall>sp \<in> set (p_pts s (operand G n 0)). \<forall>dp \<in> set (p_pts s (operand G n 1)).
          canBeDereferenced G sp \<longrightarrow> canBeDereferenced G dp \<longrightarrow> memcpy_sat G e (n_len (pg_node G n)) s sp dp
      | _ \<Rightarrow> True)"

lemma sat_same: "same_sets s s' \<Longrightarrow> sat G e n s' = sat G e n s"
  by (simp add: sat_def load_sat_def memcpy_sat_def same_sets_def cong: PSNodeType.case_cong)

section \<open>No change reported\<close>

lemma steps_quiet:
  assumes "steps G N T f" and "pta_wf G N T s" and "f s = Some (False, s')"
  shows "pta_wf G N T s'" and "same_sets s s'"
  using assms by (auto simp: steps_def step_ok_def)

lemma each_quiet:
  assumes "pta_wf G N T s" and "each f xs s = Some (False, s')" and "\<And>x. x \<in> set xs \<Longrightarrow> steps G N T (f x)"
    and "\<And>x t t'. x \<in> set xs \<Longrightarrow> pta_wf G N T t \<Longrightarrow> same_sets s t \<Longrightarrow> f x t = Some (False, t') \<Longrightarrow> P x"
  shows "\<forall>x \<in> set xs. P x"
  using assms
proof (induction xs arbitrary: s)
  case (Cons x xs)
  obtain s1 where 1: "f x s = Some (False, s1)" "each f xs s1 = Some (False, s')"
    using Cons.prems(2) by (auto simp: bind_eq_Some_conv)
  have fx: "steps G N T (f x)" using Cons.prems(3) by simp
  note q = steps_quiet [OF fx Cons.prems(1) 1(1)]
  have "P x" using Cons.prems(4) [OF _ Cons.prems(1) same_sets_refl 1(1)] by simp
  moreover have "\<forall>x \<in> set xs. P x"
  proof (rule Cons.IH [OF q(1) 1(2)])
    show "steps G N T (f y)" if "y \<in> set xs" for y using Cons.prems(3) that by simp
    show "P y" if "y \<in> set xs" "pta_wf G N T t" "same_sets s1 t" "f y t = Some (False, t')" for y t t'
      using Cons.prems(4) [OF _ that(2) same_sets_trans [OF q(2) that(3)] that(4)] that(1) by simp
  qed
  ultimately show ?case by simp
qed simp

lemma both_quiet:
  assumes "pta_wf G N T s" and "both f g s = Some (False, s')" and "steps G N T f"
  obtains s1 where "f s = Some (False, s1)" and "pta_wf G N T s1" and "same_sets s s1" and "g s1 = Some (False, s')"
proof -
  obtain s1 where 1: "f s = Some (False, s1)" "g s1 = Some (False, s')"
    using assms(2) by (auto simp: both_def bind_eq_Some_conv)
  show ?thesis using that [OF 1(1) steps_quiet [OF assms(3,1) 1(1)] 1(2)] .
qed

lemma addPtr_quiet:
  assumes "pta_wf G N T s" and "addPtr n p s = (False, s')"
  shows "p \<in> set (p_pts s n) \<or> (fst p, getUnknown) \<in> set (p_pts s n)"
proof -
  have "sorted_wrt (<) (p_pts s n)" using assms(1) by (simp add: pta_wf_def ptrs_wf_def)
  then have "spec_add p (set (p_pts s n)) = set (p_pts s n)"
    using simple_add_ok [of "p_pts s n" p] assms(2) by (auto simp: addPtr_def split: prod.splits)
  then show ?thesis by (auto simp: spec_add_def any_offset_def split: if_splits)
qed

lemma addPts_quiet:
  assumes "pta_wf G N T s" and "addPts n S s = (False, s')"
  shows "set S \<subseteq> set (p_pts s n)"
proof -
  have "sorted_wrt (<) (p_pts s n)" using assms(1) by (simp add: pta_wf_def ptrs_wf_def)
  then show ?thesis using simple_unite_ok [of "p_pts s n" S] assms(2) by (auto simp: addPts_def split: prod.splits)
qed

lemma mo_addPts_quiet:
  assumes "pta_wf G N T s" and "mo_addPts d f S s = (False, s')"
  shows "set S \<subseteq> set (mo_get (p_mem s d) f)"
proof -
  have "sorted_wrt (<) (mo_get (p_mem s d) f)" using mo_get_wf [OF assms(1)] by (simp add: ptrs_wf_def)
  then show ?thesis using simple_unite_ok [of "mo_get (p_mem s d) f" S] assms(2)
    by (auto simp: mo_addPts_def split: prod.splits if_splits)
qed

section \<open>Each kind of node\<close>

lemma env_iter: "env_wf G e N T \<Longrightarrow> set (e_iter e S) = set S"
  by (simp add: env_wf_def)

lemma iter_mem:
  "pta_wf G N T s \<Longrightarrow> env_wf G e N T \<Longrightarrow> p \<in> set (e_iter e (p_pts s op)) \<Longrightarrow> fst p \<in> T \<union> special"
  by (rule iter_ptr)

lemma load_object_quiet:
  assumes G: "pg_wf G N T" and n: "processed G N n" and s: "pta_wf G N T s"
    and q: "load_object n p objects d s = Some (False, s')"
    and m: "map_of (p_mem s d) f = Some S" and f: "isUnknown (snd p) \<or> f = snd p \<or> f = getUnknown"
  shows "set S \<subseteq> set (p_pts s n)"
proof (cases "isUnknown (snd p)")
  case True
  have ne: "p_mem s d \<noteq> []" using m by auto
  then have "each (\<lambda>(_, S) s. Some (addPts n S s)) (p_mem s d) s = Some (False, s')"
    using q True by (auto simp: load_object_def both_def bind_eq_Some_conv)
  then have "\<forall>x \<in> set (p_mem s d). set (snd x) \<subseteq> set (p_pts s n)"
    using load_set_steps [OF G n s]
  proof (rule each_quiet [OF s])
    fix x t t' assume t: "pta_wf G N T t" "same_sets s t" "(\<lambda>(_, S) s. Some (addPts n S s)) x t = Some (False, t')"
    then show "set (snd x) \<subseteq> set (p_pts s n)"
      using addPts_quiet [OF t(1), of n "snd x" t'] by (simp add: same_sets_def split: prod.splits)
  qed
  then show ?thesis using map_of_SomeD [OF m] by force
next
  case False
  have b: "both (\<lambda>s. Some (case map_of (p_mem s d) (snd p) of None \<Rightarrow> load_empty n (fst p) s | Some S \<Rightarrow> addPts n S s))
      (\<lambda>s. Some (case map_of (p_mem s d) getUnknown of None \<Rightarrow> (False, s) | Some S \<Rightarrow> addPts n S s)) s = Some (False, s')"
    using q False by (simp only: load_object_def if_False)
  obtain s1 where 1: "Some (case map_of (p_mem s d) (snd p) of None \<Rightarrow> load_empty n (fst p) s | Some S \<Rightarrow> addPts n S s) =
      Some (False, s1)" "pta_wf G N T s1" "same_sets s s1"
    "Some (case map_of (p_mem s1 d) getUnknown of None \<Rightarrow> (False, s1) | Some S \<Rightarrow> addPts n S s1) = Some (False, s')"
    using both_quiet [OF s b load_entry_steps [OF G n load_empty_steps [OF G n]]] by blast
  show ?thesis
  proof (cases "f = snd p")
    case True
    then show ?thesis using 1(1) m addPts_quiet [OF s, of n S s1] by simp
  next
    case False
    then have "f = getUnknown" using f \<open>\<not> isUnknown (snd p)\<close> by blast
    then show ?thesis using 1(3,4) m addPts_quiet [OF 1(2), of n S s'] by (simp add: same_sets_def)
  qed
qed

lemma processLoad_quiet:
  assumes G: "pg_wf G N T" and e: "env_wf G e N T" and n: "processed G N n" and o: "n_operands (pg_node G n) \<noteq> []"
    and s: "pta_wf G N T s" and q: "processLoad G e n s = Some (False, s')"
  shows "\<forall>p \<in> set (p_pts s (operand G n 0)). load_sat G n s p"
proof (cases "p_pts s (operand G n 0) = []")
  case nonempty: False
  have ld: "load_sat G n s p" if p: "fst p \<in> T \<union> special" and t: "pta_wf G N T t" "same_sets s t"
    "load_pointer G e n p t = Some (False, t')" for p t t'
  proof -
    have eq: "load_sat G n s p = load_sat G n t p" using t(2) by (simp add: load_sat_def same_sets_def)
    consider "fst p = UNKNOWN_MEMORY" | "fst p \<noteq> UNKNOWN_MEMORY" "\<not> canBeDereferenced G p"
      | "fst p \<noteq> UNKNOWN_MEMORY" "canBeDereferenced G p" by blast
    then show ?thesis
    proof cases
      case 1
      then show ?thesis using t(3) addPtr_quiet [OF t(1), of n UnknownPointer t']
        unfolding eq by (simp add: load_pointer_def load_sat_def) (simp add: UnknownPointer_def)
    next
      case 2
      then show ?thesis by (simp add: load_sat_def)
    next
      case 3
      note d = deref_alloc [OF G p 3(2)]
      have "\<exists>t''. load_object n p [fst p] (fst p) t = Some (False, t'')" using t(3) 3 d
        by (auto simp: load_pointer_def bind_eq_Some_conv)
      then have "load_sat G n t p" using load_object_quiet [OF G n t(1)] 3 unfolding load_sat_def by metis
      then show ?thesis by (simp only: eq)
    qed
  qed
  have "each (load_pointer G e n) (e_iter e (p_pts s (operand G n 0))) s = Some (False, s')"
    using q nonempty o by (simp add: processLoad_def getOperand_def)
  then have "\<forall>p \<in> set (e_iter e (p_pts s (operand G n 0))). load_sat G n s p"
    using load_pointer_steps [OF G n iter_mem [OF s e]] ld [OF iter_mem [OF s e]] by (rule each_quiet [OF s])
  then show ?thesis by (simp add: env_iter [OF e])
qed simp

lemma addPtr_iter_quiet:
  assumes G: "pg_wf G N T" and e: "env_wf G e N T" and n: "processed G N n" and s: "pta_wf G N T s"
    and q: "each (\<lambda>p t. Some (addPtr n (fst p, F p) t)) (e_iter e (p_pts s op)) s = Some (False, s')"
  shows "\<forall>p \<in> set (p_pts s op). (fst p, F p) \<in> set (p_pts s n) \<or> (fst p, getUnknown) \<in> set (p_pts s n)"
proof -
  have "\<forall>p \<in> set (e_iter e (p_pts s op)). (fst p, F p) \<in> set (p_pts s n) \<or> (fst p, getUnknown) \<in> set (p_pts s n)"
    using q
  proof (rule each_quiet [OF s])
    fix p assume "p \<in> set (e_iter e (p_pts s op))"
    then show "steps G N T (\<lambda>t. Some (addPtr n (fst p, F p) t))"
      using addPtr_steps [OF G n, of "(fst p, F p)"] iter_mem [OF s e] by simp
  next
    fix p t t' assume "pta_wf G N T t" "same_sets s t" "Some (addPtr n (fst p, F p) t) = Some (False, t')"
    then show "(fst p, F p) \<in> set (p_pts s n) \<or> (fst p, getUnknown) \<in> set (p_pts s n)"
      using addPtr_quiet [of G N T t n "(fst p, F p)" t'] by (simp add: same_sets_def)
  qed
  then show ?thesis by (simp add: env_iter [OF e])
qed

lemma each_fixed:
  assumes "\<And>t x. p_gep (snd (H x (p_gep t n) t)) = p_gep t"
  shows "each (\<lambda>x t. Some (H x (p_gep t n) t)) xs s = each (\<lambda>x t. Some (H x (p_gep s n) t)) xs s"
proof -
  have "p_gep t n = f \<Longrightarrow> each (\<lambda>x t. Some (H x (p_gep t n) t)) xs t = each (\<lambda>x t. Some (H x f t)) xs t" for t f
  proof (induction xs arbitrary: t)
    case (Cons x xs)
    obtain c t' where h: "H x f t = (c, t')" by fastforce
    then have "p_gep t' n = f" using assms [of x t] Cons.prems by simp
    then show ?case using Cons h by simp
  qed simp
  then show ?thesis by simp
qed

lemma processGep_quiet:
  assumes G: "pg_wf G N T" and e: "env_wf G e N T" and n: "processed G N n" and o: "n_operands (pg_node G n) \<noteq> []"
    and s: "pta_wf G N T s" and q: "processGep G e n s = Some (False, s')"
  shows "\<forall>p \<in> set (p_pts s (operand G n 0)).
    (fst p, gep_offset G e p (p_gep s n)) \<in> set (p_pts s n) \<or> (fst p, getUnknown) \<in> set (p_pts s n)"
proof -
  have "each (\<lambda>p t. Some (addPtr n (fst p, gep_offset G e p (p_gep t n)) t)) (e_iter e (p_pts s (operand G n 0))) s = Some (False, s')"
    using q o by (simp add: processGep_def getOperand_def)
  then have "each (\<lambda>p t. Some (addPtr n (fst p, gep_offset G e p (p_gep s n)) t)) (e_iter e (p_pts s (operand G n 0))) s =
      Some (False, s')"
    using each_fixed [of "\<lambda>p f. addPtr n (fst p, gep_offset G e p f)"] by (simp add: addPtr_def split: prod.splits)
  then show ?thesis by (rule addPtr_iter_quiet [OF G e n s])
qed

lemma processStore_quiet:
  assumes G: "pg_wf G N T" and e: "env_wf G e N T" and o: "2 \<le> length (n_operands (pg_node G n))"
    and s: "pta_wf G N T s" and q: "processStore G e n s = Some (False, s')"
  shows "\<forall>p \<in> set (p_pts s (operand G n 1)). canBeDereferenced G p \<longrightarrow>
    set (p_pts s (operand G n 0)) \<subseteq> set (mo_get (p_mem s (fst p)) (snd p))"
proof -
  let ?P = "\<lambda>p. canBeDereferenced G p \<longrightarrow> set (p_pts s (operand G n 0)) \<subseteq> set (mo_get (p_mem s (fst p)) (snd p))"
  have "getOperand G n 0 = Some (operand G n 0)" "getOperand G n (Suc 0) = Some (operand G n (Suc 0))"
    using o by (auto simp: getOperand_def)
  then have "each (store_pointer G e (operand G n 0)) (e_iter e (p_pts s (operand G n 1))) s = Some (False, s')"
    using q by (simp add: processStore_def)
  then have "\<forall>p \<in> set (e_iter e (p_pts s (operand G n 1))). ?P p"
    using store_pointer_steps [OF G iter_mem [OF s e]]
  proof (rule each_quiet [OF s])
    fix p t t' assume p: "p \<in> set (e_iter e (p_pts s (operand G n 1)))"
      and t: "pta_wf G N T t" "same_sets s t" "store_pointer G e (operand G n 0) p t = Some (False, t')"
    show "?P p"
    proof
      assume d: "canBeDereferenced G p"
      note a = deref_alloc [OF G iter_mem [OF s e p] d]
      have "mo_addPts (fst p) (snd p) (p_pts t (operand G n 0)) t = (False, t')"
        using t(3) d a(3) by (auto simp: store_pointer_def bind_eq_Some_conv)
      then show "set (p_pts s (operand G n 0)) \<subseteq> set (mo_get (p_mem s (fst p)) (snd p))"
        using mo_addPts_quiet [OF t(1)] t(2) by (simp add: same_sets_def)
    qed
  qed
  then show ?thesis by (simp add: env_iter [OF e])
qed

lemma processPhi_quiet:
  assumes G: "pg_wf G N T" and n: "processed G N n" and s: "pta_wf G N T s"
    and q: "processPhi G n s = Some (False, s')"
  shows "\<forall>op \<in> set (n_operands (pg_node G n)). set (p_pts s op) \<subseteq> set (p_pts s n)"
  using q [unfolded processPhi_def]
proof (rule each_quiet [OF s])
  show "steps G N T (\<lambda>s. Some (addPts n (p_pts s op) s))" for op by (intro addPts_steps [OF G n] pts_ptrs)
  show "set (p_pts s op) \<subseteq> set (p_pts s n)"
    if "pta_wf G N T t" "same_sets s t" "Some (addPts n (p_pts t op) t) = Some (False, t')" for op t t'
    using addPts_quiet [OF that(1), of n "p_pts t op" t'] that(2,3) by (simp add: same_sets_def)
qed

definition after :: "Offset option \<Rightarrow> Offset \<Rightarrow> bool" where
  "after cur k = (case cur of None \<Rightarrow> True | Some j \<Rightarrow> j < k)"

lemma next_entry_find: "next_entry m cur = List.find (\<lambda>(a, _). after cur a) m"
  by (cases cur; cases m) (auto simp: next_entry_def after_def)

lemma find_first:
  "smap_wf m \<Longrightarrow> map_of m k = Some S \<Longrightarrow> P k \<Longrightarrow>
     \<exists>j R. List.find (\<lambda>(a, _). P a) m = Some (j, R) \<and> (k = j \<and> S = R \<or> j < k)"
proof (induction m)
  case (Cons x m)
  obtain j R where x: "x = (j, R)" by fastforce
  have lt: "a < b \<Longrightarrow> a = c \<Longrightarrow> c < b" for a b c :: Offset by simp
  show ?case
  proof (cases "P j")
    case True
    have "k = j \<and> S = R \<or> j < k"
    proof (cases "k = j")
      case False
      then have "map_of m k = Some S" using Cons.prems(2) x by (simp split: if_splits)
      then show ?thesis using Cons.prems(1) x map_of_SomeD [of m k S] by (force simp: smap_wf_def sorted_wrt_map)
    qed (use Cons.prems(2) x in simp)
    then show ?thesis using True x by simp
  next
    case False
    then have "k \<noteq> j" using Cons.prems(3) by auto
    then have "map_of m k = Some S" using Cons.prems(2) x by (simp split: if_splits)
    moreover have "smap_wf m" using Cons.prems(1) by (simp add: smap_wf_def)
    ultimately show ?thesis using Cons.IH Cons.prems(3) False x by simp
  qed
qed simp

lemma copy_object_quiet:
  assumes "pg_wf G N T" and "d \<in> T"
  shows "pta_wf G N T s \<Longrightarrow> copy_object G e sp dp len d so cur s = (False, s') \<Longrightarrow>
    map_of (p_mem s so) k = Some S \<Longrightarrow> after cur k \<Longrightarrow> copied (snd sp) len k \<Longrightarrow>
    set S \<subseteq> set (mo_get (p_mem s d) (dest_offset G e d (snd sp) (snd dp) k))"
  using assms
proof (induction G e sp dp len d so cur s arbitrary: s' rule: copy_object.induct)
  case (1 G e sp dp len d so cur s)
  have wf: "smap_wf (p_mem s so)" using 1(2) by (simp add: pta_wf_def)
  obtain j R where n: "next_entry (p_mem s so) cur = Some (j, R)" and jk: "k = j \<and> S = R \<or> j < k"
    using find_first [OF wf 1(4), of "after cur"] 1(5) by (auto simp: next_entry_find)
  define r where "r = (if copied (snd sp) len j then mo_addPts d (dest_offset G e d (snd sp) (snd dp) j) R s else (False, s))"
  obtain c s1 where cs: "r = (c, s1)" by fastforce
  have c: "\<not> c" and rest: "copy_object G e sp dp len d so (Some j) s1 = (False, s')"
    using 1(3) cs by (subst (asm) copy_object.simps, simp add: n r_def [symmetric] split: prod.splits)+
  have ok: "step_ok G N T s r"
    using mo_addPts_ok [OF 1(7,8,2) next_entry_wf(2) [OF 1(2) n]] step_ok_same [OF 1(2)] by (simp add: r_def)
  then have s1: "pta_wf G N T s1" "same_sets s s1" using cs c by (simp_all add: step_ok_def)
  show ?case
  proof (cases "k = j")
    case True
    then have "S = R" using 1(4) next_entry_wf(1) [OF 1(2) n] by simp
    then have "mo_addPts d (dest_offset G e d (snd sp) (snd dp) k) S s = (False, s1)"
      using cs c 1(6) True by (simp add: r_def)
    then show ?thesis by (rule mo_addPts_quiet [OF 1(2)])
  next
    case False
    then have "after (Some j) k" using jk by (simp add: after_def)
    moreover have "map_of (p_mem s1 so) k = Some S" using 1(4) s1(2) by (simp add: same_sets_def)
    ultimately have "set S \<subseteq> set (mo_get (p_mem s1 d) (dest_offset G e d (snd sp) (snd dp) k))"
      using 1(1) [OF n refl _ s1(1) rest _ _ 1(6-8)] cs by (simp add: r_def)
    then show ?thesis using s1(2) by (simp add: same_sets_def)
  qed
qed

lemma memcpy_objects_quiet:
  assumes G: "pg_wf G N T" and d: "fst dp \<in> T" and s: "pta_wf G N T s"
    and q: "memcpy_objects G e [fst sp] [fst dp] sp dp len s = Some (False, s')"
  shows "memcpy_sat G e len s sp dp"
proof -
  let ?null = "copies_null G (fst sp) (fst dp) sp len"
  let ?zero = "p_zero s (fst sp)"
  let ?s1 = "if ?zero \<and> \<not> ?null then s\<lparr>p_zero := (p_zero s)(fst dp := True)\<rparr> else s"
  have s1: "pta_wf G N T ?s1" "same_sets s ?s1"
    using s by (simp_all add: pta_wf_zero same_sets_def)
  have "\<not> (off len = 0 \<or> ntype G (fst sp) \<noteq> PS_ALLOC \<or> ntype G (fst dp) \<noteq> PS_ALLOC)"
    using q by (metis memcpy_objects_def option.distinct(1))
  note q' = q [unfolded memcpy_objects_def if_not_P [OF this] Let_def]
  obtain t where t: "both (\<lambda>s1. Some (if ?zero \<and> ?null then mo_addPtr (fst dp) getUnknown NullPointer s1 else (False, s1)))
      (each (\<lambda>so s. Some (copy_object G e sp dp len (fst dp) so None s)) [fst sp]) ?s1 = Some (False, t)"
    using q' by (auto simp: bind_eq_Some_conv)
  have "steps G N T (\<lambda>s. Some (mo_addPtr (fst dp) getUnknown NullPointer s))"
    by (rule mo_addPtr_steps [OF G d]) (simp add: NullPointer_def special_def)
  then have "steps G N T (\<lambda>s1. Some (if ?zero \<and> ?null then mo_addPtr (fst dp) getUnknown NullPointer s1 else (False, s1)))"
    using steps_skip by (cases "?zero \<and> ?null") auto
  then obtain s2 where s2: "pta_wf G N T s2" "same_sets ?s1 s2"
    "each (\<lambda>so s. Some (copy_object G e sp dp len (fst dp) so None s)) [fst sp] s2 = Some (False, t)"
    using both_quiet [OF s1(1) t] by blast
  have same: "same_sets s s2" using same_sets_trans [OF s1(2) s2(2)] .
  have "memcpy_sat G e len s2 sp dp" unfolding memcpy_sat_def
    using copy_object_quiet [OF G d s2(1), of e sp dp len "fst sp" None] s2(3) by (auto simp: bind_eq_Some_conv after_def)
  then show ?thesis using same by (simp add: memcpy_sat_def same_sets_def)
qed

lemma processMemcpy_quiet:
  assumes G: "pg_wf G N T" and e: "env_wf G e N T" and o: "2 \<le> length (n_operands (pg_node G n))"
    and len: "off (n_len (pg_node G n)) \<noteq> 0"
    and s: "pta_wf G N T s" and q: "processMemcpy G e n s = Some (False, s')"
  shows "\<forall>sp \<in> set (p_pts s (operand G n 0)). \<forall>dp \<in> set (p_pts s (operand G n 1)).
    canBeDereferenced G sp \<longrightarrow> canBeDereferenced G dp \<longrightarrow> memcpy_sat G e (n_len (pg_node G n)) s sp dp"
proof -
  let ?len = "n_len (pg_node G n)"
  let ?P = "\<lambda>sp. \<forall>dp \<in> set (p_pts s (operand G n 1)).
    canBeDereferenced G sp \<longrightarrow> canBeDereferenced G dp \<longrightarrow> memcpy_sat G e ?len s sp dp"
  have "getOperand G n 0 = Some (operand G n 0)" "getOperand G n (Suc 0) = Some (operand G n (Suc 0))"
    using o by (auto simp: getOperand_def)
  then have "each (memcpy_source G e n (operand G n 1)) (e_iter e (p_pts s (operand G n 0))) s = Some (False, s')"
    using q by (simp add: processMemcpy_def)
  then have "\<forall>sp \<in> set (e_iter e (p_pts s (operand G n 0))). ?P sp"
    using memcpy_source_steps [OF G e len iter_mem [OF s e]]
  proof (rule each_quiet [OF s])
    fix sp t t' assume sp: "sp \<in> set (e_iter e (p_pts s (operand G n 0)))"
      and t: "pta_wf G N T t" "same_sets s t" "memcpy_source G e n (operand G n 1) sp t = Some (False, t')"
    show "?P sp"
    proof (cases "canBeDereferenced G sp")
      case True
      note a = deref_alloc [OF G iter_mem [OF s e sp] True]
      have "each (memcpy_dest G e [fst sp] sp ?len) (e_iter e (p_pts t (operand G n 1))) t = Some (False, t')"
        using t(3) True a(3) by (auto simp: memcpy_source_def bind_eq_Some_conv)
      then have "\<forall>dp \<in> set (e_iter e (p_pts t (operand G n 1))). canBeDereferenced G dp \<longrightarrow> memcpy_sat G e ?len t sp dp"
        using memcpy_dest_steps [OF G len a(2) iter_mem [OF t(1) e]]
      proof (rule each_quiet [OF t(1)])
        fix dp u u' assume dp: "dp \<in> set (e_iter e (p_pts t (operand G n 1)))"
          and u: "pta_wf G N T u" "same_sets t u" "memcpy_dest G e [fst sp] sp ?len dp u = Some (False, u')"
        show "canBeDereferenced G dp \<longrightarrow> memcpy_sat G e ?len t sp dp"
        proof
          assume d: "canBeDereferenced G dp"
          note b = deref_alloc [OF G iter_mem [OF t(1) e dp] d]
          have "memcpy_objects G e [fst sp] [fst dp] sp dp ?len u = Some (False, u')"
            using u(3) d b(3) by (auto simp: memcpy_dest_def bind_eq_Some_conv)
          then have "memcpy_sat G e ?len u sp dp" by (rule memcpy_objects_quiet [OF G b(1) u(1)])
          then show "memcpy_sat G e ?len t sp dp" using u(2) by (simp add: memcpy_sat_def same_sets_def)
        qed
      qed
      then show ?thesis using t(2) by (simp add: env_iter [OF e] memcpy_sat_def same_sets_def)
    qed simp
  qed
  then show ?thesis by (simp add: env_iter [OF e])
qed

lemma processNode_quiet:
  assumes G: "pg_wf G N T" and e: "env_wf G e N T" and n: "n \<in> N" and s: "pta_wf G N T s"
    and q: "pta_processNode G e n s = Some (False, s')"
  shows "sat G e n s"
proof -
  have wf: "node_wf G n" using G n by (simp add: pg_wf_def)
  have p: "processed G N n" if "ntype G n \<noteq> PS_ALLOC" "ntype G n \<noteq> PS_FUNCTION" "ntype G n \<noteq> PS_CONSTANT"
    using that n by (simp add: processed_def)
  show ?thesis
  proof (cases "ntype G n")
    case PS_LOAD
    then show ?thesis using processLoad_quiet [OF G e p _ s] wf q by (simp add: pta_processNode_def node_wf_def sat_def)
  next
    case PS_STORE
    then show ?thesis using processStore_quiet [OF G e _ s, of n s'] wf q by (simp add: pta_processNode_def node_wf_def sat_def)
  next
    case PS_GEP
    then show ?thesis using processGep_quiet [OF G e p _ s] wf q by (simp add: pta_processNode_def node_wf_def sat_def)
  next
    case PS_CAST
    then show ?thesis using addPts_quiet [OF s, of n "p_pts s (operand G n 0)" s'] wf q
      by (simp add: pta_processNode_def node_wf_def sat_def getOperand_def)
  next
    case PS_PHI
    then show ?thesis using processPhi_quiet [OF G p s] q by (simp add: pta_processNode_def sat_def)
  next
    case PS_RETURN
    then show ?thesis using processPhi_quiet [OF G p s] q by (simp add: pta_processNode_def sat_def)
  next
    case PS_CALL_RETURN
    then have pr: "processed G N n" using p by simp
    obtain s1 where "pta_wf G N T s1" "same_sets s s1" "processPhi G n s1 = Some (False, s')"
      using both_quiet [OF s _ call_return_invalidate_steps [OF G e pr], of "processPhi G n" s'] q PS_CALL_RETURN
      by (simp add: pta_processNode_def) blast
    then show ?thesis using processPhi_quiet [OF G pr, of s1 s'] PS_CALL_RETURN by (simp add: sat_def same_sets_def)
  next
    case PS_MEMCPY
    then show ?thesis using processMemcpy_quiet [OF G e _ _ s, of n s'] wf q by (simp add: pta_processNode_def node_wf_def sat_def)
  qed (simp_all add: sat_def)
qed

lemma processNode_idle:
  assumes "env_wf G e N T" and "\<not> acting G n" and "pta_processNode G e n s = Some (c, s')"
  shows "\<not> c"
proof -
  have "\<not> fst (e_join e n s)" using assms(1) by (simp add: env_wf_def)
  then show ?thesis using assms(2,3)
    by (cases "ntype G n") (auto simp: acting_def pta_processNode_def bind_eq_Some_conv split: if_splits)
qed

section \<open>The end of the run\<close>

lemma sat_idle: "\<not> acting G n \<Longrightarrow> sat G e n s"
  by (cases "ntype G n") (simp_all add: acting_def sat_def)

lemma iteration_quiet:
  assumes "pg_wf G N T" and "env_wf G e N T" and "pta_wf G N T s" and "set ns \<subseteq> N"
    and "iteration G e ns s = Some (ch, s')"
  shows "stays G N s s' \<and> (\<forall>n \<in> set ch. acting G n) \<and> (ch = [] \<longrightarrow> (\<forall>n \<in> set ns. sat G e n s'))"
  using assms(3-)
proof (induction ns arbitrary: s ch)
  case (Cons n ns)
  obtain c s1 ch1 where 1: "pta_processNode G e n s = Some (c, s1)" "iteration G e ns s1 = Some (ch1, s')"
    "ch = (if c then n # ch1 else ch1)"
    using Cons.prems(3) by (auto simp: bind_eq_Some_conv)
  have "steps G N T (pta_processNode G e n)" using processNode_steps [OF assms(1,2)] Cons.prems(2) by simp
  then have ok: "step_ok G N T s (c, s1)" using Cons.prems(1) 1(1) by (auto simp: steps_def)
  then have s1: "pta_wf G N T s1" "stays G N s s1" "\<not> c \<longrightarrow> same_sets s s1" by (simp_all add: step_ok_def)
  have IH: "stays G N s1 s' \<and> (\<forall>n \<in> set ch1. acting G n) \<and> (ch1 = [] \<longrightarrow> (\<forall>n \<in> set ns. sat G e n s'))"
    using Cons.IH [OF s1(1) _ 1(2)] Cons.prems(2) by simp
  have "sat G e n s'" if "ch = []"
  proof -
    have c: "\<not> c" "ch1 = []" using 1(3) that by (auto split: if_splits)
    have "same_sets s1 s'" using iteration_ok [OF assms(1,2) s1(1), of ns] 1(2) c(2) Cons.prems(2) by auto
    then have "same_sets s s'" using same_sets_trans s1(3) c(1) by blast
    moreover have "sat G e n s" using processNode_quiet [OF assms(1,2) _ Cons.prems(1), of n s1] 1(1) c(1) Cons.prems(2) by simp
    ultimately show ?thesis using sat_same by blast
  qed
  moreover have "c \<Longrightarrow> acting G n" using processNode_idle [OF assms(2) _ 1(1)] by blast
  ultimately show ?case using IH stays_trans [OF s1(2)] 1(3) by (auto split: if_splits)
qed simp

lemma linked_queue:
  assumes "linked G N s" and "a \<in> set ch" and "a \<in> N" and "a = pg_root G \<or> acting G a"
  shows "{b \<in> N. acting G b} \<subseteq> reach_set (edges_of G s) (set ch)"
proof -
  have "{b \<in> N. acting G b} \<subseteq> reach_set (edges_of G s) {a}"
    using assms(1,3,4) unfolding linked_def by blast
  also have "\<dots> \<subseteq> reach_set (edges_of G s) (set ch)" using assms(2) by (auto simp: reach_set_def)
  finally show ?thesis .
qed

text \<open>What holds before every iteration on a linked graph: the queue has every node that can change a set.\<close>

definition all_queued :: "pgraph \<Rightarrow> nat set \<Rightarrow> pta \<Rightarrow> nat list \<Rightarrow> pta \<Rightarrow> bool" where
  "all_queued G N s0 ns s = (linked G N s \<and> stays G N s0 s \<and> {b \<in> N. acting G b} \<subseteq> set ns)"

lemma all_queued_inv:
  assumes G: "pg_wf G N T" and e: "env_wf G e N T"
  shows "loop_inv G e N T (all_queued G N s0)"
  unfolding loop_inv_def
proof (intro allI impI)
  fix ns s ch s' ns'
  assume a: "set ns \<subseteq> N" "pta_wf G N T s" "all_queued G N s0 ns s" "iteration G e ns s = Some (ch, s')" "ch \<noteq> []"
    "set ch \<subseteq> N" "set ns' = reach_set (edges_of G s') (set ch)"
  note q = iteration_quiet [OF G e a(2,1,4)]
  obtain c where c: "c \<in> set ch" using a(5) by (cases ch) auto
  have l: "linked G N s'" using q a(3) by (simp add: stays_def all_queued_def)
  have "{b \<in> N. acting G b} \<subseteq> set ns'" unfolding a(7) using linked_queue [OF l c] c q a(6) by blast
  moreover have "stays G N s0 s'" using a(3) q stays_trans by (auto simp: all_queued_def)
  ultimately show "all_queued G N s0 ns' s'" using l by (simp add: all_queued_def)
qed

lemma preprocess_linked: "linked G N (preprocess G e s) = linked G N s"
proof -
  have "edges_of G (preprocess G e s) = edges_of G s"
    by (simp add: preprocess_def preprocessGEPs_def edges_of_def fun_eq_iff cong: if_cong)
  then show ?thesis by (simp add: linked_def)
qed

lemma pta_run_sat:
  assumes G: "pg_wf G N T" and e: "env_wf G e N T" and s: "pta_wf G N T s" and g: "set (pg_globals G) \<subseteq> N"
    and pg: "process_globals G e (preprocess G e s) \<noteq> None" and max: "e_maxIterations e = 0" and l: "linked G N s"
  shows "\<exists>s'. pta_run G e s = Some (True, s') \<and> pta_wf G N T s' \<and> (\<forall>n \<in> N. sat G e n s') \<and>
    stays G N (preprocess G e s) s'"
proof -
  let ?s0 = "preprocess G e s"
  have wf: "pta_wf G N T ?s0" using s by (rule preprocess_wf)
  obtain s1 where s1: "process_globals G e ?s0 = Some s1" using pg by auto
  obtain ch t where t: "iteration G e (pg_globals G) ?s0 = Some (ch, t)" "pta_wf G N T t"
    "iteration G e (pg_globals G) t = Some ([], s1)" "pta_wf G N T s1" using globals_ok [OF G e wf g s1] .
  have st: "stays G N ?s0 s1"
    using iteration_quiet [OF G e wf g t(1)] iteration_quiet [OF G e t(2) g t(3)] stays_trans by blast
  then have l1: "linked G N s1" using l by (simp add: stays_def preprocess_linked)
  have J: "all_queued G N ?s0 ns s1" if "set ns = reach_set (edges_of G s1) {pg_root G}" for ns
    using linked_queue [OF l1, of "pg_root G" "[pg_root G]"] G l1 st that by (simp add: all_queued_def pg_wf_def)
  obtain n s' where run: "pta_run G e s = Some (True, s')" and ex: "loop_exit G e N T (all_queued G N ?s0) n s'"
    using pta_run_ok [OF G e s g s1 all_queued_inv [OF G e] J] max by auto
  obtain ns u where u: "set ns \<subseteq> N" "pta_wf G N T u" "all_queued G N ?s0 ns u" "iteration G e ns u = Some ([], s')"
    "pta_wf G N T s'" using ex max by (auto simp: loop_exit_def)
  note q = iteration_quiet [OF G e u(2,1,4)]
  have "sat G e m s'" if "m \<in> N" for m using q u(3) that sat_idle
    by (cases "acting G m") (auto simp: all_queued_def)
  moreover have "stays G N ?s0 s'" using q u(3) stays_trans by (auto simp: all_queued_def)
  ultimately show ?thesis using run u(5) by blast
qed

end
