(* ===== verification/Pointer_Sound.thy ===== *)
theory Pointer_Sound
  imports Pointer_Stable
begin

text \<open>
  What the points-to sets promise: a concrete semantics of the nodes, where an allocation makes an instance of its
  site, memory maps offsets of instances to values, and the relation between its states and the points-to sets.
  States that satisfy the constraints of all nodes cover every execution; the result of the analysis does on
  graphs whose acting nodes reach each other, and fails to on others.
\<close>

section \<open>Concrete states\<close>

datatype cvalue = CNull | CAddr nat nat "64 word"

record cstate =
  c_val :: "nat \<Rightarrow> cvalue"
  c_mem :: "nat \<Rightarrow> nat \<Rightarrow> 64 word \<Rightarrow> cvalue"

definition copy_bytes :: "(64 word \<Rightarrow> cvalue) \<Rightarrow> 64 word \<Rightarrow> (64 word \<Rightarrow> cvalue) \<Rightarrow> 64 word \<Rightarrow> nat \<Rightarrow> 64 word \<Rightarrow> cvalue" where
  "copy_bytes src f dst g len = (\<lambda>x. if unat g \<le> unat x \<and> unat x < unat g + len then src (f + (x - g)) else dst x)"

text \<open>\<open>off\<close> gives the constant offset of a GEP; a GEP with unknown offset may yield any. A copy of unknown
  length copies any number of cells, and no copy runs over the end of the address space.\<close>

inductive cstep :: "pgraph \<Rightarrow> (nat \<Rightarrow> Offset) \<Rightarrow> nat \<Rightarrow> cstate \<Rightarrow> cstate \<Rightarrow> bool" for G gep n where
  alloc: "ntype G n = PS_ALLOC \<Longrightarrow>
    cstep G gep n c (c\<lparr>c_val := (c_val c)(n := CAddr n i 0), c_mem := (c_mem c)(n := (c_mem c n)(i := \<lambda>_. CNull))\<rparr>)"
| func: "ntype G n = PS_FUNCTION \<Longrightarrow> cstep G gep n c (c\<lparr>c_val := (c_val c)(n := CAddr n i 0)\<rparr>)"
| cast: "ntype G n = PS_CAST \<Longrightarrow> cstep G gep n c (c\<lparr>c_val := (c_val c)(n := c_val c (operand G n 0))\<rparr>)"
| phi: "ntype G n \<in> {PS_PHI, PS_RETURN, PS_CALL_RETURN} \<Longrightarrow> op \<in> set (n_operands (pg_node G n)) \<Longrightarrow>
    cstep G gep n c (c\<lparr>c_val := (c_val c)(n := c_val c op)\<rparr>)"
| gep: "ntype G n = PS_GEP \<Longrightarrow> c_val c (operand G n 0) = CAddr t i f \<Longrightarrow> isUnknown (gep n) \<or> g = off (gep n) \<Longrightarrow>
    cstep G gep n c (c\<lparr>c_val := (c_val c)(n := CAddr t i (f + g))\<rparr>)"
| load: "ntype G n = PS_LOAD \<Longrightarrow> c_val c (operand G n 0) = CAddr t i f \<Longrightarrow> ntype G t = PS_ALLOC \<Longrightarrow>
    cstep G gep n c (c\<lparr>c_val := (c_val c)(n := c_mem c t i f)\<rparr>)"
| store: "ntype G n = PS_STORE \<Longrightarrow> c_val c (operand G n 1) = CAddr t i f \<Longrightarrow> ntype G t = PS_ALLOC \<Longrightarrow>
    cstep G gep n c (c\<lparr>c_mem := (c_mem c)(t := (c_mem c t)(i := (c_mem c t i)(f := c_val c (operand G n 0))))\<rparr>)"
| memcpy: "ntype G n = PS_MEMCPY \<Longrightarrow> c_val c (operand G n 0) = CAddr t i f \<Longrightarrow> ntype G t = PS_ALLOC \<Longrightarrow>
    c_val c (operand G n 1) = CAddr u j g \<Longrightarrow> ntype G u = PS_ALLOC \<Longrightarrow>
    isUnknown (n_len (pg_node G n)) \<or> len = unat (off (n_len (pg_node G n))) \<Longrightarrow>
    unat f + len \<le> 2 ^ 64 \<Longrightarrow> unat g + len \<le> 2 ^ 64 \<Longrightarrow>
    cstep G gep n c (c\<lparr>c_mem := (c_mem c)(u := (c_mem c u)(j := copy_bytes (c_mem c t i) f (c_mem c u j) g len))\<rparr>)"
| skip: "ntype G n \<in> {PS_CALL, PS_CALL_FUNCPTR, PS_ENTRY, PS_FORK, PS_JOIN, PS_INVALIDATE_LOCALS, PS_FREE,
      PS_INVALIDATE_OBJECT, PS_CONSTANT, PS_NOOP} \<Longrightarrow> cstep G gep n c c"

inductive csteps :: "pgraph \<Rightarrow> (nat \<Rightarrow> Offset) \<Rightarrow> nat list \<Rightarrow> cstate \<Rightarrow> cstate \<Rightarrow> bool" for G gep where
  start: "csteps G gep [] c c"
| more: "cstep G gep n c c' \<Longrightarrow> csteps G gep ns c' c'' \<Longrightarrow> csteps G gep (n # ns) c c''"

section \<open>Covering\<close>

definition covers :: "ptr set \<Rightarrow> cvalue \<Rightarrow> bool" where
  "covers A v = (case v of CNull \<Rightarrow> True
     | CAddr t i f \<Rightarrow> (t, Offset f) \<in> A \<or> (t, getUnknown) \<in> A \<or> UnknownPointer \<in> A)"

definition covered :: "pta \<Rightarrow> cstate \<Rightarrow> bool" where
  "covered s c = ((\<forall>n. covers (set (p_pts s n)) (c_val c n)) \<and>
     (\<forall>t i f. covers (set (mo_get (p_mem s t) (Offset f)) \<union> set (mo_get (p_mem s t) getUnknown)) (c_mem c t i f)))"

lemma covers_mono: "covers A v \<Longrightarrow> A \<subseteq> B \<Longrightarrow> covers B v"
  by (auto simp: covers_def split: cvalue.splits)

lemma covers_null [simp]: "covers A CNull"
  by (simp add: covers_def)

lemma covered_val: "covered s c \<Longrightarrow> covers (set (p_pts s n)) (c_val c n)"
  by (simp add: covered_def)

lemma covered_set:
  "covered s c \<Longrightarrow> covers (set (p_pts s n)) v \<Longrightarrow> covered s (c\<lparr>c_val := (c_val c)(n := v)\<rparr>)"
  by (simp add: covered_def)

lemma covered_store:
  assumes "covered s c" and "\<And>f. covers (set (mo_get (p_mem s t) (Offset f)) \<union> set (mo_get (p_mem s t) getUnknown)) (m f)"
  shows "covered s (c\<lparr>c_mem := (c_mem c)(t := (c_mem c t)(i := m))\<rparr>)"
  using assms by (simp add: covered_def)

section \<open>Every step is covered\<close>

lemma unknown_unknown [simp]: "isUnknown getUnknown"
  by (simp add: getUnknown_isUnknown)

lemma gep_offset_cases:
  "gep_offset G e p k = getUnknown \<or> \<not> isUnknown (snd p) \<and> \<not> isUnknown k \<and> gep_offset G e p k = Offset (off (snd p) + off k)"
proof -
  have "\<not> UNKNOWN < x" for x :: "64 word" by (simp add: UNKNOWN_def)
  then show ?thesis by (auto simp: gep_offset_def Let_def)
qed

lemma dest_offset_cases:
  "dest_offset G e d f g k = getUnknown \<or>
     \<not> isUnknown k \<and> \<not> isUnknown f \<and> \<not> isUnknown g \<and> dest_offset G e d f g k = Offset (off k - off f + off g)"
  by (auto simp: dest_offset_def Let_def)

text \<open>A state whose pointers for stores and copies are known.\<close>

definition known_targets :: "pgraph \<Rightarrow> nat set \<Rightarrow> pta \<Rightarrow> bool" where
  "known_targets G N s = (\<forall>n \<in> N.
     (ntype G n = PS_STORE \<longrightarrow> UnknownPointer \<notin> set (p_pts s (operand G n 1))) \<and>
     (ntype G n = PS_MEMCPY \<longrightarrow> UnknownPointer \<notin> set (p_pts s (operand G n 0)) \<union> set (p_pts s (operand G n 1))))"

lemma alloc_deref:
  assumes "pg_wf G N T" and "ntype G t = PS_ALLOC"
  shows "canBeDereferenced G (t, f)" and "t \<noteq> UNKNOWN_MEMORY"
proof -
  have "t \<notin> special" using assms by (auto simp: pg_wf_def special_def)
  then show "canBeDereferenced G (t, f)" and "t \<noteq> UNKNOWN_MEMORY"
    using assms(2) by (auto simp: canBeDereferenced_def isValidPtr_def special_def)
qed

lemma known_cases:
  assumes "covers A (CAddr t i f)" and "UnknownPointer \<notin> A"
  obtains h where "(t, h) \<in> A" and "h = Offset f \<or> h = getUnknown"
  using assms that unfolding covers_def cvalue.case by blast

lemma gep_covered:
  assumes c: "covers (set (p_pts s (operand G n 0))) (CAddr t i f)" and k: "p_gep s n = gep n \<or> isUnknown (p_gep s n)"
    and g: "isUnknown (gep n) \<or> g = off (gep n)"
    and sat: "\<And>p. p \<in> set (p_pts s (operand G n 0)) \<Longrightarrow>
      (fst p, gep_offset G e p (p_gep s n)) \<in> set (p_pts s n) \<or> (fst p, getUnknown) \<in> set (p_pts s n)"
  shows "covers (set (p_pts s n)) (CAddr t i (f + g))"
proof -
  obtain u h where p: "(u, h) \<in> set (p_pts s (operand G n 0))"
    "(u, h) = UnknownPointer \<or> u = t \<and> (h = Offset f \<or> h = getUnknown)"
    using c unfolding covers_def cvalue.case UnknownPointer_def by blast
  consider "(u, getUnknown) \<in> set (p_pts s n)"
    | "(u, Offset (off h + off (p_gep s n))) \<in> set (p_pts s n)" "\<not> isUnknown h" "\<not> isUnknown (p_gep s n)"
    using sat [OF p(1)] gep_offset_cases [of G e "(u, h)" "p_gep s n"] by (metis fst_conv snd_conv)
  then show ?thesis
  proof cases
    case 1
    then show ?thesis using p(2) by (auto simp: covers_def UnknownPointer_def)
  next
    case 2
    then have "u = t" "h = Offset f" "g = off (p_gep s n)"
      using p(2) k g by (auto simp: UnknownPointer_def)
    then show ?thesis using 2(1) by (simp add: covers_def)
  qed
qed

lemma mo_get_sat:
  assumes "\<And>S. map_of (p_mem s t) k = Some S \<Longrightarrow> set S \<subseteq> A"
  shows "set (mo_get (p_mem s t) k) \<subseteq> A"
  using assms by (cases "map_of (p_mem s t) k") (simp_all add: mo_get_def)

lemma load_covered:
  assumes G: "pg_wf G N T" and t: "ntype G t = PS_ALLOC" and c: "covers (set (p_pts s (operand G n 0))) (CAddr t i f)"
    and m: "covers (set (mo_get (p_mem s t) (Offset f)) \<union> set (mo_get (p_mem s t) getUnknown)) v"
    and sat: "\<And>p. p \<in> set (p_pts s (operand G n 0)) \<Longrightarrow> load_sat G n s p"
  shows "covers (set (p_pts s n)) v"
proof (cases "UnknownPointer \<in> set (p_pts s (operand G n 0))")
  case True
  then have "UnknownPointer \<in> set (p_pts s n)" using sat [OF True] by (simp add: load_sat_def UnknownPointer_def)
  then show ?thesis by (simp add: covers_def split: cvalue.split)
next
  case False
  obtain h where p: "(t, h) \<in> set (p_pts s (operand G n 0))" "h = Offset f \<or> h = getUnknown"
    using known_cases [OF c False] .
  have "set (mo_get (p_mem s t) (Offset f)) \<subseteq> set (p_pts s n)" "set (mo_get (p_mem s t) getUnknown) \<subseteq> set (p_pts s n)"
    using sat [OF p(1)] p(2) alloc_deref(1) [OF G t, of h] alloc_deref(2) [OF G t]
    by (intro mo_get_sat; force simp: load_sat_def)+
  then show ?thesis using covers_mono [OF m] by blast
qed

lemma store_covered:
  assumes G: "pg_wf G N T" and t: "ntype G t = PS_ALLOC" and c: "covers (set (p_pts s (operand G n 1))) (CAddr t i f)"
    and u: "UnknownPointer \<notin> set (p_pts s (operand G n 1))" and v: "covers (set (p_pts s (operand G n 0))) v"
    and sat: "\<And>p. p \<in> set (p_pts s (operand G n 1)) \<Longrightarrow> canBeDereferenced G p \<Longrightarrow>
      set (p_pts s (operand G n 0)) \<subseteq> set (mo_get (p_mem s (fst p)) (snd p))"
  shows "covers (set (mo_get (p_mem s t) (Offset f)) \<union> set (mo_get (p_mem s t) getUnknown)) v"
proof -
  obtain h where p: "(t, h) \<in> set (p_pts s (operand G n 1))" "h = Offset f \<or> h = getUnknown"
    using known_cases [OF c u] .
  have "set (p_pts s (operand G n 0)) \<subseteq> set (mo_get (p_mem s t) (Offset f)) \<union> set (mo_get (p_mem s t) getUnknown)"
    using sat [OF p(1) alloc_deref(1) [OF G t]] p(2) by auto
  then show ?thesis by (rule covers_mono [OF v])
qed

lemma copied_range:
  assumes "isUnknown len \<or> l = unat (off len)" and "unat f + l \<le> 2 ^ 64"
    and "unat g \<le> unat x" and "unat x < unat g + l"
  shows "f \<le> f + (x - g)" and "isUnknown len \<or> (f + (x - g)) - f < off len"
proof -
  have g: "g \<le> x" using assms(3) by (simp add: word_le_nat_alt)
  then have d: "unat (x - g) = unat x - unat g" by (rule unat_sub)
  then have "unat f + unat (x - g) < 2 ^ 64" using assms by linarith
  then have "unat (f + (x - g)) = unat f + unat (x - g)" by (simp add: unat_word_ariths)
  then show "f \<le> f + (x - g)" by (simp add: word_le_nat_alt)
  show "isUnknown len \<or> (f + (x - g)) - f < off len"
  proof (cases "isUnknown len")
    case False
    then have "unat (x - g) < unat (off len)" using assms(1,3,4) d by linarith
    then show ?thesis by (simp only: add_diff_cancel_left' word_less_nat_alt simp_thms)
  qed simp
qed

lemma memcpy_cell:
  assumes sat: "memcpy_sat G e len s (t, h) (u, k)"
    and h: "h = Offset f \<or> h = getUnknown" and k: "k = Offset g \<or> k = getUnknown"
    and len: "isUnknown len \<or> l = unat (off len)" and f: "unat f + l \<le> 2 ^ 64"
    and x: "unat g \<le> unat x" "unat x < unat g + l"
    and v: "covers (set (mo_get (p_mem s t) (Offset (f + (x - g)))) \<union> set (mo_get (p_mem s t) getUnknown)) v"
  shows "covers (set (mo_get (p_mem s u) (Offset x)) \<union> set (mo_get (p_mem s u) getUnknown)) v"
proof -
  let ?B = "set (mo_get (p_mem s u) (Offset x)) \<union> set (mo_get (p_mem s u) getUnknown)"
  note r = copied_range [OF len f x]
  have sub: "set (mo_get (p_mem s t) j) \<subseteq> ?B" if j: "j = Offset (f + (x - g)) \<or> j = getUnknown" for j
  proof (rule mo_get_sat)
    fix S assume S: "map_of (p_mem s t) j = Some S"
    have "copied h len j" using h j r by (auto simp: copied_def less_eq_Offset_def)
    then have "set S \<subseteq> set (mo_get (p_mem s u) (dest_offset G e u h k j))"
      using sat S by (simp add: memcpy_sat_def)
    moreover have "dest_offset G e u h k j = Offset x \<or> dest_offset G e u h k j = getUnknown"
      using dest_offset_cases [of G e u h k j] h k j by (auto simp: algebra_simps)
    ultimately show "set S \<subseteq> ?B" by auto
  qed
  have "set (mo_get (p_mem s t) (Offset (f + (x - g)))) \<union> set (mo_get (p_mem s t) getUnknown) \<subseteq> ?B"
    using sub [of "Offset (f + (x - g))"] sub [of getUnknown] by blast
  then show ?thesis by (rule covers_mono [OF v])
qed

lemma cstep_covered:
  assumes G: "pg_wf G N T" and s: "pta_wf G N T s" and n: "n \<in> N" and sat: "sat G e n s"
    and kt: "known_targets G N s" and gp: "\<And>n. p_gep s n = gep n \<or> isUnknown (p_gep s n)"
    and st: "cstep G gep n c c'" and c: "covered s c"
  shows "covered s c'"
  using st
proof cases
  case (alloc i)
  have "p_pts s n = [(n, Offset 0)]" using s n alloc(2) by (simp add: pta_wf_def fixed_wf_def)
  then have "covered s (c\<lparr>c_val := (c_val c)(n := CAddr n i 0)\<rparr>)" by (intro covered_set [OF c]) (simp add: covers_def)
  then show ?thesis unfolding alloc(1) using covered_store [of s "c\<lparr>c_val := (c_val c)(n := CAddr n i 0)\<rparr>" n "\<lambda>_. CNull" i]
    by simp
next
  case (func i)
  have "p_pts s n = [(n, Offset 0)]" using s n func(2) by (simp add: pta_wf_def fixed_wf_def)
  then show ?thesis unfolding func(1) by (intro covered_set [OF c]) (simp add: covers_def)
next
  case cast
  then have "set (p_pts s (operand G n 0)) \<subseteq> set (p_pts s n)" using sat by (simp add: sat_def)
  then show ?thesis unfolding cast(1) by (intro covered_set [OF c] covers_mono [OF covered_val [OF c]])
next
  case (phi op)
  then have "set (p_pts s op) \<subseteq> set (p_pts s n)" using sat by (elim insertE emptyE) (simp_all add: sat_def)
  then show ?thesis unfolding phi(1) by (intro covered_set [OF c] covers_mono [OF covered_val [OF c]])
next
  case (gep t i f g)
  show ?thesis unfolding gep(1)
    by (rule covered_set [OF c], rule gep_covered [where gep = gep and G = G and e = e])
      (use covered_val [OF c, of "operand G n 0"] gep(2-4) gp [of n] sat in \<open>simp_all add: sat_def\<close>)
next
  case (load t i f)
  show ?thesis unfolding load(1)
    by (rule covered_set [OF c], rule load_covered [OF G load(4), of s n i f])
      (use covered_val [OF c, of "operand G n 0"] load(2,3) sat c in \<open>simp_all add: sat_def covered_def\<close>)
next
  case (store t i f)
  have cv: "covers (set (p_pts s (operand G n 1))) (CAddr t i f)"
    using covered_val [OF c, of "operand G n 1"] store(3) by simp
  have "covers (set (mo_get (p_mem s t) (Offset f)) \<union> set (mo_get (p_mem s t) getUnknown)) (c_val c (operand G n 0))"
    by (rule store_covered [OF G store(4) cv _ covered_val [OF c]])
      (use store(2) sat kt n in \<open>simp_all add: sat_def known_targets_def\<close>)
  then show ?thesis unfolding store(1) using c by (intro covered_store [OF c]) (simp add: covered_def)
next
  case (memcpy t i f u j g l)
  have u: "UnknownPointer \<notin> set (p_pts s (operand G n 0))" "UnknownPointer \<notin> set (p_pts s (operand G n 1))"
    using kt n memcpy(2) by (auto simp: known_targets_def)
  have cv: "covers (set (p_pts s (operand G n 0))) (CAddr t i f)" "covers (set (p_pts s (operand G n 1))) (CAddr u j g)"
    using covered_val [OF c, of "operand G n 0"] covered_val [OF c, of "operand G n 1"] memcpy(3,5) by simp_all
  obtain h where h: "(t, h) \<in> set (p_pts s (operand G n 0))" "h = Offset f \<or> h = getUnknown" using known_cases [OF cv(1) u(1)] .
  obtain k where k: "(u, k) \<in> set (p_pts s (operand G n 1))" "k = Offset g \<or> k = getUnknown" using known_cases [OF cv(2) u(2)] .
  have m: "memcpy_sat G e (n_len (pg_node G n)) s (t, h) (u, k)"
    using sat memcpy(2) h(1) k(1) alloc_deref(1) [OF G memcpy(4)] alloc_deref(1) [OF G memcpy(6)] by (simp add: sat_def)
  show ?thesis unfolding memcpy(1)
  proof (rule covered_store [OF c])
    fix x
    show "covers (set (mo_get (p_mem s u) (Offset x)) \<union> set (mo_get (p_mem s u) getUnknown))
        (copy_bytes (c_mem c t i) f (c_mem c u j) g l x)"
      using memcpy_cell [OF m h(2) k(2) memcpy(7,8)] c by (auto simp: copy_bytes_def covered_def)
  qed
qed (use c in simp)

lemma csteps_covered:
  assumes "csteps G gep ns c c'" and "pg_wf G N T" and "pta_wf G N T s" and "\<And>n. n \<in> N \<Longrightarrow> sat G e n s"
    and "known_targets G N s" and "\<And>n. p_gep s n = gep n \<or> isUnknown (p_gep s n)" and "set ns \<subseteq> N" and "covered s c"
  shows "covered s c'"
  using assms(1,7,8)
proof induction
  case (more n c c' ns c'')
  have "covered s c'" using more.prems by (intro cstep_covered [OF assms(2,3) _ assms(4-6) more.hyps(1)]) auto
  then show ?case using more by simp
qed

section \<open>Executions from the start\<close>

text \<open>No value but the constants, and no pointer in memory.\<close>

definition initial_state :: "pgraph \<Rightarrow> pta \<Rightarrow> cstate \<Rightarrow> bool" where
  "initial_state G s c =
     ((\<forall>n. c_val c n = CNull \<or> ntype G n = PS_CONSTANT \<and> covers (set (p_pts s n)) (c_val c n)) \<and>
      (\<forall>t i f. c_mem c t i f = CNull))"

lemma preprocess_gep: "p_gep (preprocess G e s) n = p_gep s n \<or> isUnknown (p_gep (preprocess G e s) n)"
proof -
  have "foldl (\<lambda>g n. if ntype G n = PS_GEP then g(n := getUnknown) else g) g ns n = g n \<or>
      foldl (\<lambda>g n. if ntype G n = PS_GEP then g(n := getUnknown) else g) g ns n = getUnknown" for g ns
  proof (induction ns arbitrary: g)
    case (Cons m ns)
    show ?case using Cons [of "if ntype G m = PS_GEP then g(m := getUnknown) else g"] by (auto split: if_splits)
  qed simp
  then show ?thesis by (simp add: preprocess_def preprocessGEPs_def getUnknown_isUnknown)
qed

lemma initial_covered:
  assumes "initial_state G s c" and "stays G N (preprocess G e s) s'"
  shows "covered s' c"
proof -
  have "p_pts (preprocess G e s) = p_pts s" by (simp add: preprocess_def preprocessGEPs_def)
  then have "ntype G n = PS_CONSTANT \<Longrightarrow> p_pts s' n = p_pts s n" for n using assms(2) by (simp add: stays_def)
  then have "covers (set (p_pts s' n)) (c_val c n)" for n
    using assms(1) by (cases "c_val c n = CNull") (auto simp: initial_state_def)
  then show ?thesis using assms(1) by (simp add: covered_def initial_state_def)
qed

lemma linked_by_traversal:
  assumes "finite N" and "edges_wf G N s"
    and "\<And>a. a \<in> N \<Longrightarrow> a = pg_root G \<or> acting G a \<Longrightarrow> \<exists>ns. getNodes G s [a] = Some ns \<and> {b \<in> N. acting G b} \<subseteq> set ns"
  shows "linked G N s"
  unfolding linked_def
proof (intro ballI impI)
  fix a assume a: "a \<in> N" "a = pg_root G \<or> acting G a"
  obtain ns where ns: "getNodes G s [a] = Some ns" "{b \<in> N. acting G b} \<subseteq> set ns" using assms(3) [OF a] by blast
  then show "{b \<in> N. acting G b} \<subseteq> reach_set (edges_of G s) {a}"
    using getNodes_ok [of N G s "[a]"] assms(1,2) a(1) by auto
qed

end
