(* ===== verification/Pointer_Claims.thy ===== *)
theory Pointer_Claims
  imports Pointer_Sound
begin

text \<open>
  The pointer analysis as a whole: it returns on every well-formed graph, its result covers every execution of a
  graph whose acting nodes reach each other, and there is a graph without such a cycle where it misses a pointer.
\<close>

section \<open>Two graphs\<close>

text \<open>Nodes 3, 4 and 5 allocate; 8 loads from 3, 10 and 14 store the address of 5 to it, and 15 merges what 8 loads
  with the address of 4. In \<open>branches\<close>, 5 goes on to 8, to 9 and to 12: behind 9 the store 10 ends the path, behind 12
  the store 14 leads on to 8. In \<open>cycle\<close>, 10, 8 and 15 are a loop.\<close>

definition example_node :: "PSNodeType \<Rightarrow> nat list \<Rightarrow> psnode" where
  "example_node t ops = \<lparr>n_type = t, n_operands = ops, n_size = 8, n_len = Offset 8, n_heap = False, n_global = False\<rparr>"

definition example_graph :: pgraph where
  "example_graph = \<lparr>pg_node = (\<lambda>n.
     if n = 0 then example_node PS_NULL_ADDR [] else if n = 1 then example_node PS_UNKNOWN_MEM []
     else if n = 2 then example_node PS_INVALIDATED [] else if n \<in> {3, 4, 5} then example_node PS_ALLOC []
     else if n = 6 then example_node PS_ENTRY [] else if n = 8 then example_node PS_LOAD [3]
     else if n \<in> {10, 14} then example_node PS_STORE [5, 3] else if n = 15 then example_node PS_PHI [8, 4]
     else example_node PS_NOOP []), pg_root = 6, pg_globals = [], pg_loops = []\<rparr>"

definition example_start :: "(nat \<Rightarrow> nat list) \<Rightarrow> pta" where
  "example_start E = \<lparr>p_pts = (\<lambda>n. if n = 0 then [NullPointer] else if n = 1 then [UnknownPointer]
       else if n \<in> {3, 4, 5} then [(n, Offset 0)] else []),
     p_mem = (\<lambda>_. []), p_zero = (\<lambda>_. False), p_gep = (\<lambda>_. Offset 0), p_succ = E, p_callees = (\<lambda>_. []), p_rets = (\<lambda>_. [])\<rparr>"

definition branches :: "nat \<Rightarrow> nat list" where
  "branches n = (if n = 6 then [3] else if n = 3 then [4] else if n = 4 then [5] else if n = 5 then [8, 9, 12]
     else if n = 8 then [15] else if n = 9 then [10] else if n = 12 then [13] else if n = 13 then [14]
     else if n = 14 then [8] else [])"

definition cycle :: "nat \<Rightarrow> nat list" where
  "cycle n = (if n = 6 then [3] else if n = 3 then [4] else if n = 4 then [5] else if n = 5 then [9]
     else if n = 9 then [10] else if n = 10 then [8] else if n = 8 then [15] else if n = 15 then [9] else [])"

abbreviation example_nodes :: "nat set" where
  "example_nodes \<equiv> {3, 4, 5, 6, 8, 9, 10, 12, 13, 14, 15}"

abbreviation cycle_nodes :: "nat set" where
  "cycle_nodes \<equiv> {3, 4, 5, 6, 8, 9, 10, 15}"

lemmas example_defs = example_graph_def example_node_def example_start_def

lemmas bfs_run_code [code] = bfs_run.simps
lemmas fixpoint_code [code] = fixpoint.simps
lemmas copy_object_code [code] = copy_object.simps

lemma example_graph_wf:
  "N \<in> {example_nodes, cycle_nodes} \<Longrightarrow> pg_wf example_graph N {3, 4, 5}"
  by (auto simp: pg_wf_def example_defs special_def NULLPTR_def UNKNOWN_MEMORY_def INVALIDATED_def node_wf_def)

lemma example_pts_wf: "ptrs_wf {3, 4, 5} (p_pts (example_start E) n)"
  by (auto simp: ptrs_wf_def example_start_def special_def NullPointer_def UnknownPointer_def)

lemma example_state_wf:
  assumes "\<And>n. n \<in> N \<Longrightarrow> set (E n) \<subseteq> N" and "N \<in> {example_nodes, cycle_nodes}"
  shows "pta_wf example_graph N {3, 4, 5} (example_start E)"
proof -
  have "edges_of example_graph (example_start E) = E" by (simp add: edges_of_def example_start_def fun_eq_iff)
  moreover have "ntype example_graph n \<noteq> PS_INVALIDATE_LOCALS" "ntype example_graph n \<noteq> PS_FUNCTION"
    "ntype example_graph n \<noteq> PS_CONSTANT" for n by (simp_all add: example_defs)
  moreover have "p_pts (example_start E) n = [(n, Offset 0)]" if "ntype example_graph n = PS_ALLOC" for n
    using that by (simp add: example_defs split: if_splits)
  moreover have "p_mem (example_start E) t = []" for t by (simp add: example_start_def)
  ultimately show ?thesis using assms example_pts_wf
    by (simp add: pta_wf_def edges_wf_def fixed_wf_def smap_wf_def)
      (simp add: example_start_def NULLPTR_def UNKNOWN_MEMORY_def INVALIDATED_def)
qed

section \<open>Claims\<close>




definition no_pointers :: cstate where
  "no_pointers = \<lparr>c_val = (\<lambda>_. CNull), c_mem = (\<lambda>_ _ _. CNull)\<rparr>"

lemma cycle_linked: "linked example_graph cycle_nodes (example_start cycle)"
proof (rule linked_by_traversal)
  show "edges_wf example_graph cycle_nodes (example_start cycle)"
  proof -
    have "pta_wf example_graph cycle_nodes {3, 4, 5} (example_start cycle)"
      by (rule example_state_wf) (auto simp: cycle_def)
    then show ?thesis by (simp add: pta_wf_def)
  qed
  show "\<exists>ns. getNodes example_graph (example_start cycle) [a] = Some ns \<and> {b \<in> cycle_nodes. acting example_graph b} \<subseteq> set ns"
    if "a \<in> cycle_nodes" "a = pg_root example_graph \<or> acting example_graph a" for a
  proof -
    have "a \<in> {6, 8, 10, 15}" using that by (auto simp: example_defs acting_def)
    moreover have "map_option (\<lambda>ns. {8, 10, 15} \<subseteq> set ns) (getNodes example_graph (example_start cycle) [a]) = Some True"
      if "a \<in> {6, 8, 10, 15}" for a using that by (elim insertE emptyE; simp only:) code_simp+
    moreover have "{b \<in> cycle_nodes. acting example_graph b} \<subseteq> {8, 10, 15}" by (auto simp: example_defs acting_def)
    ultimately show ?thesis by (metis (no_types, lifting) map_option_eq_Some subset_trans)
  qed
qed simp

text \<open>The allocations, then a store, the load and the merge.\<close>

definition execution :: "nat list \<Rightarrow> nat \<Rightarrow> nat list" where
  "execution between m = [6, 3, 4, 5] @ between @ [m, 8, 15]"

lemma csteps_noops:
  "(\<And>n. n \<in> set ns \<Longrightarrow> ntype G n = PS_NOOP) \<Longrightarrow> csteps G gep ms c c' \<Longrightarrow> csteps G gep (ns @ ms) c c'"
  by (induction ns) (auto intro!: csteps.more cstep.skip)

lemma execution_runs:
  assumes "set between \<subseteq> {9, 12, 13}" and "m \<in> {10, 14}"
  shows "\<exists>c. csteps example_graph gep (execution between m) no_pointers c \<and> c_val c 15 = CAddr 5 0 0"
proof -
  define c1 where "c1 = no_pointers\<lparr>c_val := (c_val no_pointers)(3 := CAddr 3 0 0),
    c_mem := (c_mem no_pointers)(3 := (c_mem no_pointers 3)(0 := \<lambda>_. CNull))\<rparr>"
  define c2 where "c2 = c1\<lparr>c_val := (c_val c1)(4 := CAddr 4 0 0), c_mem := (c_mem c1)(4 := (c_mem c1 4)(0 := \<lambda>_. CNull))\<rparr>"
  define c3 where "c3 = c2\<lparr>c_val := (c_val c2)(5 := CAddr 5 0 0), c_mem := (c_mem c2)(5 := (c_mem c2 5)(0 := \<lambda>_. CNull))\<rparr>"
  define c4 where "c4 = c3\<lparr>c_mem := (c_mem c3)(3 := (c_mem c3 3)(0 := (c_mem c3 3 0)(0 := c_val c3 (operand example_graph m 0))))\<rparr>"
  define c5 where "c5 = c4\<lparr>c_val := (c_val c4)(8 := c_mem c4 3 0 0)\<rparr>"
  define c6 where "c6 = c5\<lparr>c_val := (c_val c5)(15 := c_val c5 8)\<rparr>"
  note n = example_defs c1_def c2_def c3_def c4_def c5_def
  let ?G = example_graph
  have 0: "cstep ?G gep 6 no_pointers no_pointers" by (rule skip) (simp add: n)
  have 1: "cstep ?G gep 3 no_pointers c1" unfolding c1_def by (rule alloc) (simp add: n)
  have 2: "cstep ?G gep 4 c1 c2" unfolding c2_def by (rule alloc) (simp add: n)
  have 3: "cstep ?G gep 5 c2 c3" unfolding c3_def by (rule alloc) (simp add: n)
  have 4: "cstep ?G gep m c3 c4" unfolding c4_def by (rule store) (use assms(2) in \<open>auto simp: n\<close>)
  have 5: "cstep ?G gep 8 c4 c5" unfolding c5_def by (rule load) (simp_all add: n)
  have 6: "cstep ?G gep 15 c5 c6" unfolding c6_def by (rule phi) (simp_all add: n)
  have b: "csteps ?G gep (between @ [m, 8, 15]) c3 c6"
    by (rule csteps_noops [OF _ more [OF 4 more [OF 5 more [OF 6 start]]]]) (use assms(1) in \<open>auto simp: n\<close>)
  have "csteps ?G gep (execution between m) no_pointers c6"
    unfolding execution_def append_Cons append_Nil by (rule more [OF 0 more [OF 1 more [OF 2 more [OF 3 b]]]])
  moreover have "c_val c6 15 = CAddr 5 0 0" using assms(2) by (auto simp: n c6_def)
  ultimately show ?thesis by blast
qed

lemma no_pointers_initial: "initial_state G s no_pointers"
  by (simp add: initial_state_def no_pointers_def)

lemma run_cycle:
  "map_option (\<lambda>(r, s). (r, p_pts s 3, p_pts s 15)) (pta_run example_graph example_env (example_start cycle)) =
     Some (True, [(3, Offset 0)], [(4, Offset 0), (5, Offset 0)])"
  by code_simp


text \<open>C25: Without such a cycle the result can miss a pointer, although the run reports success: on \<open>branches\<close> the
  store 14 is processed after the store 10 has put the address of 5 into the memory of 3, so it changes nothing and
  the load 8 behind it is not queued again; the execution over 12, 13, 14 and 8 ends with the address of 5 in node 15,
  whose set has 4 only. The comment at the end of \<open>run\<close> says that information generated where a node cannot be
  reached from never gets to that node.\<close>

theorem pta_run_misses:
  "\<exists>s' c. pta_run example_graph example_env (example_start branches) = Some (True, s') \<and>
     successively (\<lambda>a b. b \<in> set (branches a)) (execution [12, 13] 14) \<and>
     csteps example_graph (\<lambda>_. Offset 0) (execution [12, 13] 14) no_pointers c \<and>
     c_val c 15 = CAddr 5 0 0 \<and> p_pts s' 15 = [(4, Offset 0)] \<and> p_mem s' 3 = [(Offset 0, [(5, Offset 0)])] \<and>
     \<not> covered s' c"
proof -
  have "map_option (\<lambda>(r, s). (r, p_pts s 15, p_mem s 3)) (pta_run example_graph example_env (example_start branches)) =
      Some (True, [(4, Offset 0)], [(Offset 0, [(5, Offset 0)])])" by code_simp
  then obtain s' where s': "pta_run example_graph example_env (example_start branches) = Some (True, s')"
    "p_pts s' 15 = [(4, Offset 0)]" "p_mem s' 3 = [(Offset 0, [(5, Offset 0)])]" by auto
  obtain c where c: "csteps example_graph (\<lambda>_. Offset 0) (execution [12, 13] 14) no_pointers c" "c_val c 15 = CAddr 5 0 0"
    using execution_runs [of "[12, 13]" 14] by auto
  have "\<not> covers (set (p_pts s' 15)) (c_val c 15)" by (simp add: s'(2) c(2) covers_def UnknownPointer_def UNKNOWN_MEMORY_def)
  then have "\<not> covered s' c" using covered_val by blast
  moreover have "successively (\<lambda>a b. b \<in> set (branches a)) (execution [12, 13] 14)" by (simp add: execution_def branches_def)
  ultimately show ?thesis using s' c by blast
qed

end
