(* ===== verification/Sub_Graph.thy ===== *)
theory Sub_Graph
  imports Prelude
begin

text \<open>
  The nodes of pointer graphs as a graph, \<^verbatim>\<open>include/dg/SubgraphNode.h\<close>: successors and predecessors, operands and
  users, as vectors that may hold a node more than once. A graph maps the number of a node to its four vectors. The invariants
  are that an edge is as often a successor as a predecessor, and that users and operands agree.
\<close>

section \<open>Successors and predecessors\<close>

record sgnode =
  sg_succ :: "nat list"
  sg_pred :: "nat list"
  sg_ops :: "nat list"
  sg_users :: "nat list"

type_synonym sgraph = "nat \<Rightarrow> sgnode"

definition set_succ :: "nat \<Rightarrow> nat list \<Rightarrow> sgraph \<Rightarrow> sgraph" where
  "set_succ a xs g = g(a := (g a)\<lparr>sg_succ := xs\<rparr>)"

definition set_pred :: "nat \<Rightarrow> nat list \<Rightarrow> sgraph \<Rightarrow> sgraph" where
  "set_pred a xs g = g(a := (g a)\<lparr>sg_pred := xs\<rparr>)"

definition sg_addSuccessor :: "nat \<Rightarrow> nat \<Rightarrow> sgraph \<Rightarrow> sgraph" where
  "sg_addSuccessor a b g =
     (let g1 = set_succ a (sg_succ (g a) @ [b]) g in set_pred b (sg_pred (g1 b) @ [a]) g1)"

definition removeThisFromSuccessorsPredecessors :: "nat \<Rightarrow> nat \<Rightarrow> sgraph \<Rightarrow> sgraph" where
  "removeThisFromSuccessorsPredecessors a succ g = set_pred succ (filter (\<lambda>p. p \<noteq> a) (sg_pred (g succ))) g"

definition removeSingleSuccessor :: "nat \<Rightarrow> sgraph \<Rightarrow> sgraph option" where
  "removeSingleSuccessor a g =
     (case sg_succ (g a) of [b] \<Rightarrow> Some (set_succ a [] (removeThisFromSuccessorsPredecessors a b g)) | _ \<Rightarrow> None)"

definition replaceSingleSuccessor :: "nat \<Rightarrow> nat \<Rightarrow> sgraph \<Rightarrow> sgraph option" where
  "replaceSingleSuccessor a b g = map_option (sg_addSuccessor a b) (removeSingleSuccessor a g)"

definition sg_getSingleSuccessor :: "nat \<Rightarrow> sgraph \<Rightarrow> nat option" where
  "sg_getSingleSuccessor a g = (case sg_succ (g a) of [b] \<Rightarrow> Some b | _ \<Rightarrow> None)"

definition sg_getSinglePredecessor :: "nat \<Rightarrow> sgraph \<Rightarrow> nat option" where
  "sg_getSinglePredecessor a g = (case sg_pred (g a) of [b] \<Rightarrow> Some b | _ \<Rightarrow> None)"

definition replace_node :: "nat \<Rightarrow> nat \<Rightarrow> nat list \<Rightarrow> nat list" where
  "replace_node a b xs = map (\<lambda>x. if x = a then b else x) xs"

definition sg_insertAfter :: "nat \<Rightarrow> nat \<Rightarrow> sgraph \<Rightarrow> sgraph option" where
  "sg_insertAfter this n g =
     (if sg_pred (g this) \<noteq> [] \<or> sg_succ (g this) \<noteq> [] then None
      else let ss = sg_succ (g n); g1 = sg_addSuccessor n this (set_succ n [] (set_succ this ss g)) in
        Some (fold (\<lambda>s g. set_pred s (replace_node n this (sg_pred (g s))) g) (sg_succ (g1 this)) g1))"

definition sg_insertBefore :: "nat \<Rightarrow> nat \<Rightarrow> sgraph \<Rightarrow> sgraph option" where
  "sg_insertBefore this n g =
     (if sg_pred (g this) \<noteq> [] \<or> sg_succ (g this) \<noteq> [] then None
      else let ps = sg_pred (g n); g1 = sg_addSuccessor this n (set_pred n [] (set_pred this ps g)) in
        Some (fold (\<lambda>p g. set_succ p (replace_node n this (sg_succ (g p))) g) (sg_pred (g1 this)) g1))"

text \<open>When the node is among its predecessors and has another successor, the last loop appends to the vector
  of successors it iterates over.\<close>

definition sg_isolate :: "nat \<Rightarrow> sgraph \<Rightarrow> sgraph option" where
  "sg_isolate n g =
     (let g1 = fold (\<lambda>p g. set_succ p (filter (\<lambda>x. x \<noteq> n) (sg_succ (g p))) g) (sg_pred (g n)) g;
          g2 = fold (\<lambda>s g. set_pred s (filter (\<lambda>x. x \<noteq> n) (sg_pred (g s))) g) (sg_succ (g1 n)) g1;
          ps = sg_pred (g2 n); ss = sg_succ (g2 n) in
      if ps \<noteq> [] \<and> n \<in> set ss \<or> ss \<noteq> [] \<and> n \<in> set ps then None
      else Some (set_pred n [] (set_succ n [] (fold (\<lambda>p. fold (sg_addSuccessor p) ss) ps g2))))"

section \<open>Operands and users\<close>

definition set_ops :: "nat \<Rightarrow> nat list \<Rightarrow> sgraph \<Rightarrow> sgraph" where
  "set_ops a xs g = g(a := (g a)\<lparr>sg_ops := xs\<rparr>)"

definition set_users :: "nat \<Rightarrow> nat list \<Rightarrow> sgraph \<Rightarrow> sgraph" where
  "set_users a xs g = g(a := (g a)\<lparr>sg_users := xs\<rparr>)"

definition addUser :: "nat \<Rightarrow> nat \<Rightarrow> sgraph \<Rightarrow> sgraph" where
  "addUser a u g = (if u \<in> set (sg_users (g a)) then g else set_users a (sg_users (g a) @ [u]) g)"

definition removeUser :: "nat \<Rightarrow> nat \<Rightarrow> sgraph \<Rightarrow> sgraph" where
  "removeUser a u g = set_users a (remove1 u (sg_users (g a))) g"

definition sg_addOperand :: "nat \<Rightarrow> nat \<Rightarrow> sgraph \<Rightarrow> sgraph" where
  "sg_addOperand a op g = addUser op a (set_ops a (sg_ops (g a) @ [op]) g)"

definition hasOperand :: "nat \<Rightarrow> nat \<Rightarrow> sgraph \<Rightarrow> bool" where
  "hasOperand a op g = (op \<in> set (sg_ops (g a)))"

definition removeAllOperands :: "nat \<Rightarrow> sgraph \<Rightarrow> sgraph" where
  "removeAllOperands a g = set_ops a [] (fold (\<lambda>op. removeUser op a) (sg_ops (g a)) g)"

definition setOperand :: "nat \<Rightarrow> nat \<Rightarrow> nat \<Rightarrow> sgraph \<Rightarrow> sgraph option" where
  "setOperand a i op g = (if i < length (sg_ops (g a)) then Some (set_ops a ((sg_ops (g a))[i := op]) g) else None)"

definition removeDuplicitOperands :: "nat \<Rightarrow> sgraph \<Rightarrow> bool \<times> sgraph" where
  "removeDuplicitOperands a g =
     (if distinct (sg_ops (g a)) then (False, g) else (True, set_ops a (sorted_list_of_set (set (sg_ops (g a)))) g))"

definition replace_operand :: "nat \<Rightarrow> nat \<Rightarrow> nat \<Rightarrow> nat \<Rightarrow> sgraph \<Rightarrow> sgraph" where
  "replace_operand this nd user i g =
     (if sg_ops (g user) ! i = this then addUser nd user (set_ops user ((sg_ops (g user))[i := nd]) g) else g)"

definition replace_in_user :: "nat \<Rightarrow> nat \<Rightarrow> bool \<Rightarrow> nat \<Rightarrow> sgraph \<Rightarrow> sgraph" where
  "replace_in_user this nd removeDupl user g =
     (let g1 = fold (replace_operand this nd user) [0..<length (sg_ops (g user))] g in
      if removeDupl then snd (removeDuplicitOperands user g1) else g1)"

definition replaceAllUsesWith :: "nat \<Rightarrow> nat \<Rightarrow> bool \<Rightarrow> sgraph \<Rightarrow> sgraph option" where
  "replaceAllUsesWith this nd removeDupl g =
     (if nd = this then None
      else Some (set_users this [] (fold (replace_in_user this nd removeDupl) (sg_users (g this)) g)))"

section \<open>The invariants\<close>

definition edge :: "sgraph \<Rightarrow> nat \<Rightarrow> nat \<Rightarrow> nat" where
  "edge g a b = count_list (sg_succ (g a)) b"

definition back_edge :: "sgraph \<Rightarrow> nat \<Rightarrow> nat \<Rightarrow> nat" where
  "back_edge g a b = count_list (sg_pred (g b)) a"

definition edges_ok :: "sgraph \<Rightarrow> bool" where
  "edges_ok g = (\<forall>a b. edge g a b = back_edge g a b)"

definition uses_ok :: "sgraph \<Rightarrow> bool" where
  "uses_ok g = ((\<forall>a b. b \<in> set (sg_ops (g a)) \<longleftrightarrow> a \<in> set (sg_users (g b))) \<and> (\<forall>a. distinct (sg_users (g a))))"

section \<open>Edges after an operation\<close>

lemma count_list_filter: "count_list (filter P xs) y = (if P y then count_list xs y else 0)"
  by (induction xs) auto

lemma count_list_replace:
  "count_list (replace_node a b xs) y =
     (if y = a \<and> a \<noteq> b then 0 else count_list xs y + (if y = b \<and> a \<noteq> b then count_list xs a else 0))"
proof (cases "a = b")
  case True
  then show ?thesis by (simp add: replace_node_def)
next
  case False
  have "count_list (replace_node a b xs) y = (if y = a then 0 else if y = b then count_list xs y + count_list xs a else count_list xs y)"
    unfolding replace_node_def
  proof (induction xs)
    case (Cons x xs)
    then show ?case using False by (cases "x = a"; cases "y = a"; cases "y = b"; cases "x = b") simp_all
  qed simp
  then show ?thesis using False by simp
qed

lemma count_list_pos: "(0 < count_list xs y) = (y \<in> set xs)" "(count_list xs y = 0) = (y \<notin> set xs)"
  using count_list_0_iff [of xs y] by auto

lemma edge_set [simp]:
  "edge (set_succ c xs g) a b = (if a = c then count_list xs b else edge g a b)"
  "edge (set_pred c xs g) a b = edge g a b"
  "edge (set_ops c xs g) a b = edge g a b"
  "edge (set_users c xs g) a b = edge g a b"
  "back_edge (set_succ c xs g) a b = back_edge g a b"
  "back_edge (set_pred c xs g) a b = (if b = c then count_list xs a else back_edge g a b)"
  "back_edge (set_ops c xs g) a b = back_edge g a b"
  "back_edge (set_users c xs g) a b = back_edge g a b"
  by (simp_all add: edge_def back_edge_def set_succ_def set_pred_def set_ops_def set_users_def)

lemma fields_set [simp]:
  "sg_ops (set_succ c xs g a) = sg_ops (g a)" "sg_users (set_succ c xs g a) = sg_users (g a)"
  "sg_ops (set_pred c xs g a) = sg_ops (g a)" "sg_users (set_pred c xs g a) = sg_users (g a)"
  "sg_succ (set_pred c xs g a) = sg_succ (g a)" "sg_pred (set_succ c xs g a) = sg_pred (g a)"
  "sg_succ (set_ops c xs g a) = sg_succ (g a)" "sg_pred (set_ops c xs g a) = sg_pred (g a)"
  "sg_succ (set_users c xs g a) = sg_succ (g a)" "sg_pred (set_users c xs g a) = sg_pred (g a)"
  "sg_users (set_ops c xs g a) = sg_users (g a)" "sg_ops (set_users c xs g a) = sg_ops (g a)"
  "sg_succ (set_succ c xs g a) = (if a = c then xs else sg_succ (g a))"
  "sg_pred (set_pred c xs g a) = (if a = c then xs else sg_pred (g a))"
  "sg_ops (set_ops c xs g a) = (if a = c then xs else sg_ops (g a))"
  "sg_users (set_users c xs g a) = (if a = c then xs else sg_users (g a))"
  by (simp_all add: set_succ_def set_pred_def set_ops_def set_users_def)

text \<open>The operations on edges keep operands and users.\<close>

definition same_uses :: "sgraph \<Rightarrow> sgraph \<Rightarrow> bool" where
  "same_uses g g' = (\<forall>a. sg_ops (g' a) = sg_ops (g a) \<and> sg_users (g' a) = sg_users (g a))"

lemma same_uses_refl [simp]: "same_uses g g"
  by (simp add: same_uses_def)

lemma same_uses_trans: "same_uses g g' \<Longrightarrow> same_uses g' g'' \<Longrightarrow> same_uses g g''"
  by (simp add: same_uses_def)

lemma same_uses_set [simp]: "same_uses g (set_succ a xs g)" "same_uses g (set_pred a xs g)"
  by (simp_all add: same_uses_def)

lemma same_uses_ok: "same_uses g g' \<Longrightarrow> uses_ok g' = uses_ok g"
  by (simp add: same_uses_def uses_ok_def)

lemma fold_rel: "(\<And>x g. R g (f x g)) \<Longrightarrow> (\<And>g. R g g) \<Longrightarrow> (\<And>g g' g''. R g g' \<Longrightarrow> R g' g'' \<Longrightarrow> R g g'') \<Longrightarrow> R g (fold f xs g)"
  by (induction xs arbitrary: g) (simp_all, metis)

lemma same_uses_fold: "(\<And>x g. same_uses g (f x g)) \<Longrightarrow> same_uses g (fold f xs g)"
  by (rule fold_rel [of same_uses, OF _ same_uses_refl same_uses_trans])

lemma sg_addSuccessor_edge [simp]:
  "edge (sg_addSuccessor c d g) a b = edge g a b + (if a = c \<and> b = d then 1 else 0)"
  "back_edge (sg_addSuccessor c d g) a b = back_edge g a b + (if a = c \<and> b = d then 1 else 0)"
  by (simp_all add: sg_addSuccessor_def Let_def) (simp_all add: edge_def back_edge_def)

lemma sg_addSuccessor_uses [simp]: "same_uses g (sg_addSuccessor a b g)"
  by (simp add: sg_addSuccessor_def Let_def same_uses_def)

lemma filter_succs_edge:
  "edge (fold (\<lambda>p g. set_succ p (filter (\<lambda>x. x \<noteq> n) (sg_succ (g p))) g) ps g) a b =
     (if a \<in> set ps \<and> b = n then 0 else edge g a b)"
  "back_edge (fold (\<lambda>p g. set_succ p (filter (\<lambda>x. x \<noteq> n) (sg_succ (g p))) g) ps g) a b = back_edge g a b"
  by (induction ps arbitrary: g) (auto simp: count_list_filter edge_def [symmetric])

lemma filter_preds_edge:
  "back_edge (fold (\<lambda>s g. set_pred s (filter (\<lambda>x. x \<noteq> n) (sg_pred (g s))) g) ss g) a b =
     (if b \<in> set ss \<and> a = n then 0 else back_edge g a b)"
  "edge (fold (\<lambda>s g. set_pred s (filter (\<lambda>x. x \<noteq> n) (sg_pred (g s))) g) ss g) a b = edge g a b"
  by (induction ss arbitrary: g) (auto simp: count_list_filter back_edge_def [symmetric])

lemma connect_edge:
  "edge (fold (\<lambda>p. fold (sg_addSuccessor p) ss) ps g) a b = edge g a b + count_list ps a * count_list ss b"
  "back_edge (fold (\<lambda>p. fold (sg_addSuccessor p) ss) ps g) a b = back_edge g a b + count_list ps a * count_list ss b"
proof -
  have one: "edge (fold (sg_addSuccessor p) ss g) a b = edge g a b + (if a = p then count_list ss b else 0)"
    "back_edge (fold (sg_addSuccessor p) ss g) a b = back_edge g a b + (if a = p then count_list ss b else 0)" for p g
    by (induction ss arbitrary: g) auto
  show "edge (fold (\<lambda>p. fold (sg_addSuccessor p) ss) ps g) a b = edge g a b + count_list ps a * count_list ss b"
    "back_edge (fold (\<lambda>p. fold (sg_addSuccessor p) ss) ps g) a b = back_edge g a b + count_list ps a * count_list ss b"
    by (induction ps arbitrary: g) (auto simp: one algebra_simps)
qed

lemma edges_okD: "edges_ok g \<Longrightarrow> back_edge g a b = edge g a b"
  by (simp add: edges_ok_def)

lemma edge_mem: "b \<in> set (sg_succ (g a)) \<longleftrightarrow> 0 < edge g a b" "a \<in> set (sg_pred (g b)) \<longleftrightarrow> 0 < back_edge g a b"
  by (simp_all add: edge_def back_edge_def count_list_pos)

lemma empty_edges: "sg_succ (g a) = [] \<longleftrightarrow> (\<forall>b. edge g a b = 0)" "sg_pred (g b) = [] \<longleftrightarrow> (\<forall>a. back_edge g a b = 0)"
  by (auto simp: edge_def back_edge_def count_list_pos simp flip: set_empty)

section \<open>Isolating a node\<close>

lemma isolate_ok:
  assumes ok: "edges_ok g"
  shows "sg_isolate n g = None \<longleftrightarrow> 0 < edge g n n \<and> (\<exists>b. b \<noteq> n \<and> 0 < edge g n b)"
    and "sg_isolate n g = Some g' \<Longrightarrow> edges_ok g' \<and> same_uses g g' \<and>
      (\<forall>a b. edge g' a b = (if a = n \<or> b = n then 0 else edge g a b + edge g a n * edge g n b))"
proof -
  define g1 where "g1 = fold (\<lambda>p g. set_succ p (filter (\<lambda>x. x \<noteq> n) (sg_succ (g p))) g) (sg_pred (g n)) g"
  define g2 where "g2 = fold (\<lambda>s g. set_pred s (filter (\<lambda>x. x \<noteq> n) (sg_pred (g s))) g) (sg_succ (g1 n)) g1"
  define ps where "ps = sg_pred (g2 n)"
  define ss where "ss = sg_succ (g2 n)"
  have e1: "edge g1 a b = (if b = n then 0 else edge g a b)" for a b
    using edges_okD [OF ok, of a n] by (auto simp: g1_def filter_succs_edge edge_mem)
  have b2: "back_edge g2 a b = (if a = n \<and> b \<noteq> n then 0 else edge g a b)" for a b
    using e1 edges_okD [OF ok] by (auto simp: g2_def filter_preds_edge edge_mem) (auto simp: g1_def filter_succs_edge)
  have e2: "edge g2 a b = (if b = n then 0 else edge g a b)" for a b
    using e1 by (simp add: g2_def filter_preds_edge)
  have ps: "count_list ps a = edge g a n" for a using b2 [of a n] by (simp add: ps_def back_edge_def)
  have ss: "count_list ss b = (if b = n then 0 else edge g n b)" for b using e2 [of n b] by (simp add: ss_def edge_def)
  have nss: "n \<notin> set ss" using ss [of n] by (simp add: count_list_pos)
  have nps: "n \<in> set ps \<longleftrightarrow> 0 < edge g n n" using ps [of n] by (metis count_list_pos(1))
  have ne: "ss \<noteq> [] \<longleftrightarrow> (\<exists>b. b \<noteq> n \<and> 0 < edge g n b)"
    using empty_edges(1) [of g2 n] e2 [of n] by (auto simp: ss_def)
  have iso: "sg_isolate n g = (if ss \<noteq> [] \<and> n \<in> set ps then None
      else Some (set_pred n [] (set_succ n [] (fold (\<lambda>p. fold (sg_addSuccessor p) ss) ps g2))))"
    using nss by (simp add: sg_isolate_def Let_def g1_def [symmetric] g2_def [symmetric] ps_def [symmetric] ss_def [symmetric])
  show "sg_isolate n g = None \<longleftrightarrow> 0 < edge g n n \<and> (\<exists>b. b \<noteq> n \<and> 0 < edge g n b)"
    using iso nps ne by auto
  assume some: "sg_isolate n g = Some g'"
  then have g': "g' = set_pred n [] (set_succ n [] (fold (\<lambda>p. fold (sg_addSuccessor p) ss) ps g2))"
    and def: "\<not> (ss \<noteq> [] \<and> n \<in> set ps)" using iso by (auto split: if_splits)
  have e: "edge g' a b = (if a = n \<or> b = n then 0 else edge g a b + edge g a n * edge g n b)" for a b
    by (simp add: g' connect_edge e2 ps ss)
  moreover have "back_edge g' a b = edge g' a b" for a b
  proof (cases "a = n \<and> b \<noteq> n")
    case True
    then have "edge g n n * edge g n b = 0" using def nps ne by auto
    then show ?thesis using True e by (simp add: g' connect_edge b2 ps ss)
  qed (use e in \<open>auto simp: g' connect_edge b2 ps ss\<close>)
  moreover have "same_uses g g'" unfolding g'
    by (intro same_uses_trans [OF _ same_uses_set(1)] same_uses_trans [OF _ same_uses_set(2)])
      (auto simp: g2_def g1_def intro!: same_uses_trans [OF same_uses_fold same_uses_trans [OF same_uses_fold same_uses_fold]] same_uses_fold)
  ultimately show "edges_ok g' \<and> same_uses g g' \<and>
      (\<forall>a b. edge g' a b = (if a = n \<or> b = n then 0 else edge g a b + edge g a n * edge g n b))"
    by (simp add: edges_ok_def)
qed

section \<open>Inserting a node and removing a successor\<close>

lemma replace_preds_edge:
  assumes "n \<noteq> m"
  shows "back_edge (fold (\<lambda>s g. set_pred s (replace_node n m (sg_pred (g s))) g) ss g) a b =
      (if b \<in> set ss then if a = n then 0 else back_edge g a b + (if a = m then back_edge g n b else 0) else back_edge g a b)"
    and "edge (fold (\<lambda>s g. set_pred s (replace_node n m (sg_pred (g s))) g) ss g) a b = edge g a b"
proof -
  show "edge (fold (\<lambda>s g. set_pred s (replace_node n m (sg_pred (g s))) g) ss g) a b = edge g a b"
    by (induction ss arbitrary: g) simp_all
  show "back_edge (fold (\<lambda>s g. set_pred s (replace_node n m (sg_pred (g s))) g) ss g) a b =
      (if b \<in> set ss then if a = n then 0 else back_edge g a b + (if a = m then back_edge g n b else 0) else back_edge g a b)"
  proof (induction ss arbitrary: g)
    case (Cons s ss)
    show ?case using assms by (simp add: Cons.IH count_list_replace back_edge_def [symmetric])
  qed simp
qed

lemma replace_succs_edge:
  assumes "n \<noteq> m"
  shows "edge (fold (\<lambda>p g. set_succ p (replace_node n m (sg_succ (g p))) g) ps g) a b =
      (if a \<in> set ps then if b = n then 0 else edge g a b + (if b = m then edge g a n else 0) else edge g a b)"
    and "back_edge (fold (\<lambda>p g. set_succ p (replace_node n m (sg_succ (g p))) g) ps g) a b = back_edge g a b"
proof -
  show "back_edge (fold (\<lambda>p g. set_succ p (replace_node n m (sg_succ (g p))) g) ps g) a b = back_edge g a b"
    by (induction ps arbitrary: g) simp_all
  show "edge (fold (\<lambda>p g. set_succ p (replace_node n m (sg_succ (g p))) g) ps g) a b =
      (if a \<in> set ps then if b = n then 0 else edge g a b + (if b = m then edge g a n else 0) else edge g a b)"
  proof (induction ps arbitrary: g)
    case (Cons p ps)
    show ?case using assms by (simp add: Cons.IH count_list_replace edge_def [symmetric])
  qed simp
qed

lemma insertAfter_ok:
  assumes ok: "edges_ok g" and ne: "this \<noteq> n" and some: "sg_insertAfter this n g = Some g'"
  shows "edges_ok g' \<and> same_uses g g' \<and>
    (\<forall>a b. edge g' a b = (if a = this then edge g n b else if a = n then if b = this then 1 else 0 else edge g a b))"
proof -
  define g1 where "g1 = sg_addSuccessor n this (set_succ n [] (set_succ this (sg_succ (g n)) g))"
  have g': "g' = fold (\<lambda>s g. set_pred s (replace_node n this (sg_pred (g s))) g) (sg_succ (g1 this)) g1"
    and em: "sg_pred (g this) = []" "sg_succ (g this) = []"
    using some by (auto simp: sg_insertAfter_def Let_def g1_def split: if_splits)
  have z: "edge g a this = 0" "edge g this b = 0" for a b
    using em edges_okD [OF ok, of a this] by (simp_all add: empty_edges)
  have e1: "edge g1 a b = (if a = this then edge g n b else if a = n then if b = this then 1 else 0 else edge g a b)" for a b
    using ne by (simp add: g1_def) (simp add: edge_def)
  have b1: "back_edge g1 a b = edge g a b + (if a = n \<and> b = this then 1 else 0)" for a b
    by (simp add: g1_def edges_okD [OF ok])
  have mem: "b \<in> set (sg_succ (g1 this)) \<longleftrightarrow> 0 < edge g n b" for b using e1 [of this b] by (simp add: edge_mem)
  have e: "edge g' a b = (if a = this then edge g n b else if a = n then if b = this then 1 else 0 else edge g a b)" for a b
    using ne by (simp add: g' replace_preds_edge e1)
  moreover have "back_edge g' a b = edge g' a b" for a b
    unfolding e using ne z by (simp add: g' replace_preds_edge mem b1)
  moreover have "same_uses g g'" unfolding g' g1_def
    by (rule same_uses_trans [OF same_uses_trans [OF same_uses_trans [OF same_uses_set(1) same_uses_set(1)] sg_addSuccessor_uses]])
      (rule same_uses_fold, simp)
  ultimately show ?thesis by (simp add: edges_ok_def)
qed

lemma insertBefore_ok:
  assumes ok: "edges_ok g" and ne: "this \<noteq> n" and some: "sg_insertBefore this n g = Some g'"
  shows "edges_ok g' \<and> same_uses g g' \<and>
    (\<forall>a b. edge g' a b = (if b = this then edge g a n else if b = n then if a = this then 1 else 0 else edge g a b))"
proof -
  define g1 where "g1 = sg_addSuccessor this n (set_pred n [] (set_pred this (sg_pred (g n)) g))"
  have g': "g' = fold (\<lambda>p g. set_succ p (replace_node n this (sg_succ (g p))) g) (sg_pred (g1 this)) g1"
    and em: "sg_pred (g this) = []" "sg_succ (g this) = []"
    using some by (auto simp: sg_insertBefore_def Let_def g1_def split: if_splits)
  have z: "edge g a this = 0" "edge g this b = 0" for a b
    using em edges_okD [OF ok, of a this] by (simp_all add: empty_edges)
  have b1: "back_edge g1 a b = (if b = this then edge g a n else if b = n then if a = this then 1 else 0 else edge g a b)" for a b
    using ne edges_okD [OF ok] by (simp add: g1_def) (simp add: back_edge_def)
  have e1: "edge g1 a b = edge g a b + (if a = this \<and> b = n then 1 else 0)" for a b by (simp add: g1_def)
  have mem: "a \<in> set (sg_pred (g1 this)) \<longleftrightarrow> 0 < edge g a n" for a using b1 [of a this] by (simp add: edge_mem)
  have b: "back_edge g' a b = (if b = this then edge g a n else if b = n then if a = this then 1 else 0 else edge g a b)" for a b
    using ne by (simp add: g' replace_succs_edge b1)
  moreover have "back_edge g' a b = edge g' a b" for a b
    unfolding b using ne z by (simp add: g' replace_succs_edge mem e1)
  moreover have "same_uses g g'" unfolding g' g1_def
    by (rule same_uses_trans [OF same_uses_trans [OF same_uses_trans [OF same_uses_set(2) same_uses_set(2)] sg_addSuccessor_uses]])
      (rule same_uses_fold, simp)
  ultimately show ?thesis by (simp add: edges_ok_def)
qed

lemma removeSingleSuccessor_ok:
  assumes ok: "edges_ok g" and some: "removeSingleSuccessor a g = Some g'"
  shows "edges_ok g' \<and> same_uses g g' \<and> (\<forall>x y. edge g' x y = (if x = a then 0 else edge g x y))"
proof -
  obtain b where b: "sg_succ (g a) = [b]" and
    g': "g' = set_succ a [] (set_pred b (filter (\<lambda>p. p \<noteq> a) (sg_pred (g b))) g)"
    using some by (auto simp: removeSingleSuccessor_def removeThisFromSuccessorsPredecessors_def split: list.splits)
  have z: "edge g a y = (if y = b then 1 else 0)" for y by (simp add: edge_def b)
  have "back_edge g' x y = edge g' x y" for x y
    using edges_okD [OF ok] z [of y] by (simp add: g' count_list_filter back_edge_def [symmetric])
  moreover have "edge g' x y = (if x = a then 0 else edge g x y)" for x y by (simp add: g')
  moreover have "same_uses g g'" unfolding g' by (rule same_uses_trans [OF same_uses_set(2) same_uses_set(1)])
  ultimately show ?thesis by (simp add: edges_ok_def)
qed

lemma addSuccessor_ok: "edges_ok g \<Longrightarrow> edges_ok (sg_addSuccessor a b g) \<and> same_uses g (sg_addSuccessor a b g)"
  by (simp add: edges_ok_def)

section \<open>Uses after an operation\<close>

definition same_edges :: "sgraph \<Rightarrow> sgraph \<Rightarrow> bool" where
  "same_edges g g' = (\<forall>a. sg_succ (g' a) = sg_succ (g a) \<and> sg_pred (g' a) = sg_pred (g a))"

lemma same_edges_refl [simp]: "same_edges g g"
  by (simp add: same_edges_def)

lemma same_edges_trans: "same_edges g g' \<Longrightarrow> same_edges g' g'' \<Longrightarrow> same_edges g g''"
  by (simp add: same_edges_def)

lemma same_edges_set [simp]: "same_edges g (set_ops a xs g)" "same_edges g (set_users a xs g)"
  by (simp_all add: same_edges_def)

lemma same_edges_fold: "(\<And>x g. same_edges g (f x g)) \<Longrightarrow> same_edges g (fold f xs g)"
  by (rule fold_rel [of same_edges, OF _ same_edges_refl same_edges_trans])

lemma same_edges_ok: "same_edges g g' \<Longrightarrow> edges_ok g' = edges_ok g"
  by (simp add: same_edges_def edges_ok_def edge_def back_edge_def)

lemma addUser_fields [simp]:
  "sg_ops (addUser a u g c) = sg_ops (g c)"
  "set (sg_users (addUser a u g c)) = (if c = a then insert u (set (sg_users (g c))) else set (sg_users (g c)))"
  "distinct (sg_users (addUser a u g c)) = distinct (sg_users (g c))"
  "same_edges g (addUser a u g)"
  by (auto simp: addUser_def)

lemma addOperand_ok:
  assumes "uses_ok g"
  shows "uses_ok (sg_addOperand a op g) \<and> same_edges g (sg_addOperand a op g)"
proof
  show "uses_ok (sg_addOperand a op g)" using assms by (auto simp: uses_ok_def sg_addOperand_def)
  show "same_edges g (sg_addOperand a op g)"
    unfolding sg_addOperand_def by (rule same_edges_trans [OF same_edges_set(1) addUser_fields(4)])
qed

lemma removeUsers_fields:
  "sg_ops (fold (\<lambda>op. removeUser op a) ops g c) = sg_ops (g c)"
  "distinct (sg_users (g c)) \<Longrightarrow> distinct (sg_users (fold (\<lambda>op. removeUser op a) ops g c)) \<and>
     set (sg_users (fold (\<lambda>op. removeUser op a) ops g c)) = (if c \<in> set ops then set (sg_users (g c)) - {a} else set (sg_users (g c)))"
proof -
  show "sg_ops (fold (\<lambda>op. removeUser op a) ops g c) = sg_ops (g c)" by (induction ops arbitrary: g) (simp_all add: removeUser_def)
  show "distinct (sg_users (g c)) \<Longrightarrow> distinct (sg_users (fold (\<lambda>op. removeUser op a) ops g c)) \<and>
     set (sg_users (fold (\<lambda>op. removeUser op a) ops g c)) = (if c \<in> set ops then set (sg_users (g c)) - {a} else set (sg_users (g c)))"
  proof (induction ops arbitrary: g)
    case (Cons op ops)
    have "distinct (sg_users (removeUser op a g c))" using Cons.prems by (auto simp: removeUser_def)
    note IH = Cons.IH [where g = "removeUser op a g", OF this]
    show ?case using IH Cons.prems by (auto simp: removeUser_def)
  qed simp
qed

lemma removeAllOperands_ok:
  assumes "uses_ok g"
  shows "uses_ok (removeAllOperands a g) \<and> same_edges g (removeAllOperands a g) \<and> sg_ops (removeAllOperands a g a) = []"
proof -
  have d: "distinct (sg_users (g c))" for c using assms by (simp add: uses_ok_def)
  note u = removeUsers_fields(2) [OF d, where ops = "sg_ops (g a)" and a = a]
  have "uses_ok (removeAllOperands a g)"
    using assms u by (auto simp: uses_ok_def removeAllOperands_def removeUsers_fields(1))
  moreover have "same_edges g (removeAllOperands a g)" unfolding removeAllOperands_def
    by (rule same_edges_trans [OF same_edges_fold same_edges_set(1)]) (simp add: removeUser_def)
  ultimately show ?thesis by (simp add: removeAllOperands_def)
qed

lemma replace_operands_fields:
  fixes g :: sgraph and this nd u :: nat
  defines "h k \<equiv> fold (replace_operand this nd u) [0..<k] g"
  assumes "nd \<noteq> this"
  shows "k \<le> length (sg_ops (g u)) \<Longrightarrow>
    (\<forall>a. sg_ops (h k a) = (if a = u then replace_node this nd (take k (sg_ops (g u))) @ drop k (sg_ops (g u)) else sg_ops (g a)) \<and>
      set (sg_users (h k a)) = set (sg_users (g a)) \<union> (if a = nd \<and> this \<in> set (take k (sg_ops (g u))) then {u} else {}) \<and>
      (distinct (sg_users (g a)) \<longrightarrow> distinct (sg_users (h k a)))) \<and> same_edges g (h k)"
proof (induction k)
  case 0
  then show ?case by (simp add: h_def replace_node_def)
next
  case (Suc k)
  let ?ops = "sg_ops (g u)"
  note IH = Suc.IH [OF Suc_leD [OF Suc.prems]]
  have k: "k < length ?ops" using Suc.prems by simp
  have hu: "sg_ops (h k u) = replace_node this nd (take k ?ops) @ drop k ?ops" using IH by simp
  have x: "sg_ops (h k u) ! k = ?ops ! k" using k by (simp add: hu replace_node_def nth_append)
  have upd: "(sg_ops (h k u))[k := nd] = replace_node this nd (take k ?ops) @ nd # drop (Suc k) ?ops"
    using k by (simp add: hu replace_node_def list_update_append Cons_nth_drop_Suc [symmetric])
  have tk: "take (Suc k) ?ops = take k ?ops @ [?ops ! k]" "drop k ?ops = ?ops ! k # drop (Suc k) ?ops"
    using k by (simp_all add: take_Suc_conv_app_nth Cons_nth_drop_Suc)
  have h: "h (Suc k) = replace_operand this nd u k (h k)" by (simp add: h_def)
  show ?case
  proof (cases "?ops ! k = this")
    case True
    have h': "h (Suc k) = addUser nd u (set_ops u (replace_node this nd (take k ?ops) @ nd # drop (Suc k) ?ops) (h k))"
      unfolding h replace_operand_def x using True upd by simp
    have "same_edges g (h (Suc k))" unfolding h'
      by (rule same_edges_trans [OF same_edges_trans [OF conjunct2 [OF IH] same_edges_set(1)] addUser_fields(4)])
    then show ?thesis using IH True tk by (auto simp: h' replace_node_def)
  next
    case False
    then have h': "h (Suc k) = h k" unfolding h replace_operand_def x by simp
    show ?thesis unfolding h' using IH False tk by (auto simp: replace_node_def)
  qed
qed

lemma removeDuplicit_fields:
  "sg_users (snd (removeDuplicitOperands u g) a) = sg_users (g a)" "same_edges g (snd (removeDuplicitOperands u g))"
  "set (sg_ops (snd (removeDuplicitOperands u g) a)) = set (sg_ops (g a))"
  "a \<noteq> u \<Longrightarrow> sg_ops (snd (removeDuplicitOperands u g) a) = sg_ops (g a)"
  by (simp_all add: removeDuplicitOperands_def)

definition renamed :: "nat \<Rightarrow> nat \<Rightarrow> nat \<Rightarrow> nat" where
  "renamed n m x = (if x = n then m else x)"

lemma replace_node_renamed: "replace_node a b = map (renamed a b)"
  by (simp add: replace_node_def renamed_def fun_eq_iff)

lemma replace_in_user_fields:
  fixes g :: sgraph and this nd u :: nat and removeDupl :: bool
  defines "h \<equiv> replace_in_user this nd removeDupl u g"
  assumes "nd \<noteq> this"
  shows "same_edges g h" and "set (sg_ops (h a)) = (if a = u then renamed this nd ` set (sg_ops (g a)) else set (sg_ops (g a)))"
    and "set (sg_users (h a)) = set (sg_users (g a)) \<union> (if a = nd \<and> this \<in> set (sg_ops (g u)) then {u} else {})"
    and "distinct (sg_users (g a)) \<Longrightarrow> distinct (sg_users (h a))"
    and "\<not> removeDupl \<Longrightarrow> sg_ops (h a) = (if a = u then map (renamed this nd) (sg_ops (g a)) else sg_ops (g a))"
proof -
  define f where "f = fold (replace_operand this nd u) [0..<length (sg_ops (g u))] g"
  note R = replace_operands_fields [OF assms(2) order_refl, of u g, folded f_def, simplified]
  have h: "h = (if removeDupl then snd (removeDuplicitOperands u f) else f)" by (simp add: h_def replace_in_user_def f_def Let_def)
  show "same_edges g h" using R same_edges_trans removeDuplicit_fields(2) by (auto simp: h)
  show "set (sg_ops (h a)) = (if a = u then renamed this nd ` set (sg_ops (g a)) else set (sg_ops (g a)))"
    using R by (simp add: h removeDuplicit_fields replace_node_renamed)
  show "set (sg_users (h a)) = set (sg_users (g a)) \<union> (if a = nd \<and> this \<in> set (sg_ops (g u)) then {u} else {})"
    using R by (simp add: h removeDuplicit_fields)
  show "distinct (sg_users (g a)) \<Longrightarrow> distinct (sg_users (h a))" using R by (simp add: h removeDuplicit_fields)
  show "\<not> removeDupl \<Longrightarrow> sg_ops (h a) = (if a = u then map (renamed this nd) (sg_ops (g a)) else sg_ops (g a))"
    using R by (simp add: h replace_node_renamed)
qed

lemma replace_in_users_fields:
  fixes g :: sgraph
  assumes ne: "nd \<noteq> this"
  shows "same_edges g (fold (replace_in_user this nd rd) us g) \<and>
    (\<forall>a. set (sg_ops (fold (replace_in_user this nd rd) us g a)) =
        (if a \<in> set us then renamed this nd ` set (sg_ops (g a)) else set (sg_ops (g a))) \<and>
      set (sg_users (fold (replace_in_user this nd rd) us g a)) =
        set (sg_users (g a)) \<union> (if a = nd then {u \<in> set us. this \<in> set (sg_ops (g u))} else {}) \<and>
      (distinct (sg_users (g a)) \<longrightarrow> distinct (sg_users (fold (replace_in_user this nd rd) us g a))) \<and>
      (\<not> rd \<longrightarrow> sg_ops (fold (replace_in_user this nd rd) us g a) =
        (if a \<in> set us then map (renamed this nd) (sg_ops (g a)) else sg_ops (g a))))"
proof (induction us arbitrary: g)
  case (Cons u us)
  let ?g = "replace_in_user this nd rd u g"
  note F = replace_in_user_fields [OF ne, where u = u and g = g and removeDupl = rd]
  have r: "renamed this nd (renamed this nd x) = renamed this nd x" for x using ne by (simp add: renamed_def)
  have im: "renamed this nd ` renamed this nd ` A = renamed this nd ` A" for A by (simp add: image_image r)
  have mp: "map (renamed this nd \<circ> renamed this nd) xs = map (renamed this nd) xs" for xs by (simp add: r)
  have t: "this \<notin> renamed this nd ` A" for A using ne by (auto simp: renamed_def)
  let ?h = "fold (replace_in_user this nd rd) us ?g"
  have th: "this \<in> set (sg_ops (?g v)) \<longleftrightarrow> v \<noteq> u \<and> this \<in> set (sg_ops (g v))" for v using t by (auto simp: F(2))
  have "same_edges g ?h" using Cons.IH [of ?g] same_edges_trans [OF F(1)] by blast
  moreover have "set (sg_ops (?h a)) = (if a \<in> set (u # us) then renamed this nd ` set (sg_ops (g a)) else set (sg_ops (g a)))" for a
    using Cons.IH [of ?g] by (cases "a \<in> set us"; cases "a = u") (simp_all add: F(2) im)
  moreover have "set (sg_users (?h a)) =
      set (sg_users (g a)) \<union> (if a = nd then {v \<in> set (u # us). this \<in> set (sg_ops (g v))} else {})" for a
  proof -
    have "set (sg_users (?h a)) = set (sg_users (?g a)) \<union> (if a = nd then {v \<in> set us. this \<in> set (sg_ops (?g v))} else {})"
      using Cons.IH [of ?g] by simp
    then show ?thesis unfolding th F(3) by auto
  qed
  moreover have "distinct (sg_users (g a)) \<longrightarrow> distinct (sg_users (?h a))" for a using Cons.IH [of ?g] F(4) by simp
  moreover have "\<not> rd \<longrightarrow> sg_ops (?h a) = (if a \<in> set (u # us) then map (renamed this nd) (sg_ops (g a)) else sg_ops (g a))" for a
  proof
    assume rd: "\<not> rd"
    have "sg_ops (?h a) = (if a \<in> set us then map (renamed this nd) (sg_ops (?g a)) else sg_ops (?g a))"
      using Cons.IH [of ?g] rd by blast
    then show "sg_ops (?h a) = (if a \<in> set (u # us) then map (renamed this nd) (sg_ops (g a)) else sg_ops (g a))"
      unfolding F(5) [OF rd] by (cases "a \<in> set us"; cases "a = u") (simp_all add: mp)
  qed
  ultimately show ?case by simp
qed simp

lemma replaceAllUses_ok:
  assumes ok: "uses_ok g" and ne: "nd \<noteq> this"
  obtains g' where "replaceAllUsesWith this nd rd g = Some g'" and "uses_ok g'" and "same_edges g g'" and "sg_users (g' this) = []"
    and "\<And>a. set (sg_ops (g' a)) = renamed this nd ` set (sg_ops (g a))"
    and "\<not> rd \<Longrightarrow> (\<And>a. sg_ops (g' a) = map (renamed this nd) (sg_ops (g a)))"
proof -
  define h where "h = fold (replace_in_user this nd rd) (sg_users (g this)) g"
  note F = replace_in_users_fields [OF ne, of g rd "sg_users (g this)", folded h_def]
  have us: "u \<in> set (sg_users (g this)) \<longleftrightarrow> this \<in> set (sg_ops (g u))" for u using ok by (simp add: uses_ok_def)
  have "map (renamed this nd) xs = xs" if "this \<notin> set xs" for xs using that by (intro map_idI) (auto simp: renamed_def)
  note id = this arg_cong [where f = set, OF this, unfolded set_map]
  let ?g = "set_users this [] h"
  have ops: "set (sg_ops (?g a)) = renamed this nd ` set (sg_ops (g a))" for a
    using F us [of a] id(2) [of "sg_ops (g a)"] by auto
  have lst: "sg_ops (?g a) = map (renamed this nd) (sg_ops (g a))" if "\<not> rd" for a
    using F that us [of a] id(1) [of "sg_ops (g a)"] by auto
  have uok: "uses_ok ?g"
    unfolding uses_ok_def
  proof (intro conjI allI)
    fix a b
    have F2: "set (sg_users (h b)) = set (sg_users (g b)) \<union> (if b = nd then set (sg_users (g this)) else {})" using F us by auto
    show "(b \<in> set (sg_ops (?g a))) = (a \<in> set (sg_users (?g b)))"
      unfolding ops using ok ne us [of a] F2 by (auto simp: renamed_def uses_ok_def)
  qed (use F ok in \<open>auto simp: uses_ok_def\<close>)
  have ed: "same_edges g ?g" using F same_edges_trans same_edges_set(2) by blast
  have run: "replaceAllUsesWith this nd rd g = Some ?g" using ne by (simp add: replaceAllUsesWith_def h_def)
  have "sg_users (?g this) = []" by simp
  from that [OF run uok ed this ops lst] show ?thesis .
qed

section \<open>Histories\<close>

datatype sg_op =
    AddSuccessor nat nat | ReplaceSingle nat nat | RemoveSingle nat | InsertAfter nat nat | InsertBefore nat nat
  | Isolate nat | AddOperand nat nat | RemoveOperands nat | ReplaceUses nat nat bool

fun sg_call :: "sg_op \<Rightarrow> sgraph \<Rightarrow> sgraph option" where
  "sg_call (AddSuccessor a b) g = Some (sg_addSuccessor a b g)"
| "sg_call (ReplaceSingle a b) g = replaceSingleSuccessor a b g"
| "sg_call (RemoveSingle a) g = removeSingleSuccessor a g"
| "sg_call (InsertAfter a b) g = sg_insertAfter a b g"
| "sg_call (InsertBefore a b) g = sg_insertBefore a b g"
| "sg_call (Isolate a) g = sg_isolate a g"
| "sg_call (AddOperand a b) g = Some (sg_addOperand a b g)"
| "sg_call (RemoveOperands a) g = Some (removeAllOperands a g)"
| "sg_call (ReplaceUses a b rd) g = replaceAllUsesWith a b rd g"

fun sg_calls :: "sg_op list \<Rightarrow> sgraph \<Rightarrow> sgraph option" where
  "sg_calls [] g = Some g"
| "sg_calls (c # cs) g = Option.bind (sg_call c g) (sg_calls cs)"

definition sg_empty :: sgraph where
  "sg_empty = (\<lambda>_. \<lparr>sg_succ = [], sg_pred = [], sg_ops = [], sg_users = []\<rparr>)"

lemma replace_node_same [simp]: "replace_node a a xs = xs"
  by (simp add: replace_node_def)

lemma set_same: "set_pred s (sg_pred (g s)) g = g" "set_succ s (sg_succ (g s)) g = g"
  by (simp_all add: set_pred_def set_succ_def)

lemma insert_self:
  assumes "edges_ok g"
  shows "sg_insertAfter n n g = Some g' \<Longrightarrow> edges_ok g' \<and> same_uses g g'"
    and "sg_insertBefore n n g = Some g' \<Longrightarrow> edges_ok g' \<and> same_uses g g'"
proof -
  have fold_id: "fold (\<lambda>s g. set_pred s (sg_pred (g s)) g) xs h = h" "fold (\<lambda>s g. set_succ s (sg_succ (g s)) g) xs h = h"
    for xs and h :: sgraph by (induction xs) (simp_all add: set_same)
  have triv: "set_succ n [] (set_succ n [] g) = g" if "sg_succ (g n) = []" using that set_same(2) [of n g] by simp
  have triv': "set_pred n [] (set_pred n [] g) = g" if "sg_pred (g n) = []" using that set_same(1) [of n g] by simp
  show "sg_insertAfter n n g = Some g' \<Longrightarrow> edges_ok g' \<and> same_uses g g'"
    using addSuccessor_ok [OF assms] triv by (auto simp: sg_insertAfter_def Let_def fold_id split: if_splits)
  show "sg_insertBefore n n g = Some g' \<Longrightarrow> edges_ok g' \<and> same_uses g g'"
    using addSuccessor_ok [OF assms] triv' by (auto simp: sg_insertBefore_def Let_def fold_id split: if_splits)
qed

lemma sg_call_ok:
  assumes e: "edges_ok g" and u: "uses_ok g" and c: "sg_call c g = Some g'"
  shows "edges_ok g' \<and> uses_ok g'"
proof -
  have edges: "edges_ok g' \<and> uses_ok g'" if "edges_ok g' \<and> same_uses g g'" using that same_uses_ok u by blast
  have uses: "edges_ok g' \<and> uses_ok g'" if "uses_ok g'" "same_edges g g'" using that same_edges_ok e by blast
  show ?thesis
  proof (cases c)
    case (AddSuccessor a b)
    then show ?thesis using c addSuccessor_ok [OF e] edges by auto
  next
    case (ReplaceSingle a b)
    then obtain h where h: "removeSingleSuccessor a g = Some h" "g' = sg_addSuccessor a b h"
      using c by (auto simp: replaceSingleSuccessor_def)
    then have "edges_ok h" "same_uses g h" using removeSingleSuccessor_ok [OF e] by blast+
    then show ?thesis using addSuccessor_ok [of h a b] same_uses_trans edges h(2) by blast
  next
    case (RemoveSingle a)
    then show ?thesis using c removeSingleSuccessor_ok [OF e] edges by simp
  next
    case (InsertAfter a b)
    then show ?thesis using c insertAfter_ok [OF e] insert_self(1) [OF e] edges by (cases "a = b") auto
  next
    case (InsertBefore a b)
    then show ?thesis using c insertBefore_ok [OF e] insert_self(2) [OF e] edges by (cases "a = b") auto
  next
    case (Isolate a)
    then show ?thesis using c isolate_ok(2) [OF e] edges by simp
  next
    case (AddOperand a b)
    then show ?thesis using c addOperand_ok [OF u] uses by auto
  next
    case (RemoveOperands a)
    then show ?thesis using c removeAllOperands_ok [OF u] uses by auto
  next
    case (ReplaceUses a b rd)
    then have "b \<noteq> a" using c by (auto simp: replaceAllUsesWith_def)
    then show ?thesis using replaceAllUses_ok [OF u, of b a rd] c ReplaceUses uses by (metis option.inject sg_call.simps(9))
  qed
qed

lemma sg_calls_ok:
  "sg_calls cs g = Some g' \<Longrightarrow> edges_ok g \<Longrightarrow> uses_ok g \<Longrightarrow> edges_ok g' \<and> uses_ok g'"
  by (induction cs arbitrary: g) (auto simp: bind_eq_Some_conv dest: sg_call_ok)

text \<open>C27: Whatever sequence of calls adds, moves and removes edges and operands (\<open>setOperand\<close> is not among them, it leaves the
  users as they are), an edge is afterwards as often among the successors of its source as
  among the predecessors of its target, and a node is a user of exactly its operands, once.\<close>

theorem sg_history_consistent:
  assumes "sg_calls cs sg_empty = Some g"
  shows "edges_ok g \<and> uses_ok g"
proof (rule sg_calls_ok [OF assms])
  show "edges_ok sg_empty" by (simp add: edges_ok_def edge_def back_edge_def sg_empty_def)
  show "uses_ok sg_empty" by (simp add: uses_ok_def sg_empty_def)
qed

theorem sg_history_consistent_witness:
  "\<exists>g. sg_calls [AddSuccessor 1 2, AddSuccessor 2 3, AddSuccessor 2 3, InsertAfter 4 1, AddOperand 3 1, ReplaceUses 1 4 True, Isolate 2]
     sg_empty = Some g \<and> sg_succ (g 4) = [3, 3] \<and> sg_ops (g 3) = [4] \<and> edges_ok g \<and> uses_ok g"
proof -
  let ?cs = "[AddSuccessor 1 2, AddSuccessor 2 3, AddSuccessor 2 3, InsertAfter 4 1, AddOperand 3 1, ReplaceUses 1 4 True, Isolate 2]"
  have "map_option (\<lambda>g. (sg_succ (g 4), sg_ops (g 3))) (sg_calls ?cs sg_empty) = Some ([3, 3], [4])" by code_simp
  then obtain g where g: "sg_calls ?cs sg_empty = Some g" "sg_succ (g 4) = [3, 3]" "sg_ops (g 3) = [4]" by auto
  show ?thesis using g sg_history_consistent [OF g(1)] by blast
qed

lemma isolate_paths:
  assumes "edges_ok g" and "sg_isolate n g = Some g'" and "a \<noteq> n" and "b \<noteq> n"
  shows "((a, b) \<in> {(x, y). 0 < edge g' x y}\<^sup>*) = ((a, b) \<in> {(x, y). 0 < edge g x y}\<^sup>*)"
proof -
  let ?R = "{(x, y). 0 < edge g x y}" and ?R' = "{(x, y). 0 < edge g' x y}"
  have e: "0 < edge g' x y \<longleftrightarrow> x \<noteq> n \<and> y \<noteq> n \<and> (0 < edge g x y \<or> 0 < edge g x n \<and> 0 < edge g n y)" for x y
    using isolate_ok(2) [OF assms(1,2)] by auto
  have "?R' \<subseteq> ?R\<^sup>*"
  proof (clarsimp)
    fix x y assume "0 < edge g' x y"
    then have "(x, y) \<in> ?R \<or> (x, n) \<in> ?R \<and> (n, y) \<in> ?R" by (auto simp: e)
    then show "(x, y) \<in> ?R\<^sup>*" by (meson converse_rtrancl_into_rtrancl r_into_rtrancl)
  qed
  then have "(a, b) \<in> ?R'\<^sup>* \<Longrightarrow> (a, b) \<in> ?R\<^sup>*" using rtrancl_subset_rtrancl by blast
  moreover have "(a, b) \<in> ?R\<^sup>* \<Longrightarrow> a \<noteq> n \<Longrightarrow> (if b = n then \<exists>c. (a, c) \<in> ?R'\<^sup>* \<and> c \<noteq> n \<and> 0 < edge g c n else (a, b) \<in> ?R'\<^sup>*)"
  proof (induction rule: rtrancl_induct)
    case (step y z)
    show ?case
    proof (cases "y = n")
      case True
      then obtain c where c: "(a, c) \<in> ?R'\<^sup>*" "c \<noteq> n" "0 < edge g c n" using step by auto
      show ?thesis
      proof (cases "z = n")
        case False
        then have "(c, z) \<in> ?R'" using c step.hyps(2) True by (simp add: e)
        then show ?thesis using c(1) False by (simp add: rtrancl_into_rtrancl)
      qed (use c in auto)
    next
      case False
      then have y: "(a, y) \<in> ?R'\<^sup>*" using step by simp
      show ?thesis
      proof (cases "z = n")
        case True
        then show ?thesis using y False step.hyps(2) by auto
      next
        case z: False
        then have "(y, z) \<in> ?R'" using False step.hyps(2) by (simp add: e)
        then show ?thesis using y z by (simp add: rtrancl_into_rtrancl)
      qed
    qed
  qed simp
  ultimately show ?thesis using assms(3,4) by (metis (lifting))
qed

text \<open>C28: \<open>isolate\<close> returns unless the node is its own successor and has another one. It then has removed the edges of the node and
  connected every predecessor with every successor, so that all other nodes are joined by paths as before.\<close>

theorem isolate_correct:
  assumes "edges_ok g"
  shows "(sg_isolate n g = None \<longleftrightarrow> 0 < edge g n n \<and> (\<exists>b. b \<noteq> n \<and> 0 < edge g n b)) \<and>
    (\<forall>g'. sg_isolate n g = Some g' \<longrightarrow> edges_ok g' \<and> sg_succ (g' n) = [] \<and> sg_pred (g' n) = [] \<and>
      (\<forall>a b. a \<noteq> n \<longrightarrow> b \<noteq> n \<longrightarrow> ((a, b) \<in> {(x, y). 0 < edge g' x y}\<^sup>*) = ((a, b) \<in> {(x, y). 0 < edge g x y}\<^sup>*)))"
proof (intro conjI allI impI)
  show "(sg_isolate n g = None) = (0 < edge g n n \<and> (\<exists>b. b \<noteq> n \<and> 0 < edge g n b))" by (rule isolate_ok(1) [OF assms])
next
  fix g' assume g': "sg_isolate n g = Some g'"
  note ok = isolate_ok(2) [OF assms g']
  show "edges_ok g'" using ok by simp
  then show "sg_succ (g' n) = []" "sg_pred (g' n) = []" using ok edges_okD [of g'] by (simp_all add: empty_edges)
  show "((a, b) \<in> {(x, y). 0 < edge g' x y}\<^sup>*) = ((a, b) \<in> {(x, y). 0 < edge g x y}\<^sup>*)" if "a \<noteq> n" "b \<noteq> n" for a b
    by (rule isolate_paths [OF assms g' that])
qed

theorem isolate_correct_witness:
  "\<exists>g g'. edges_ok g \<and> sg_isolate 2 g = Some g' \<and> sg_isolate 3 g = None \<and> edges_ok g' \<and> sg_succ (g' 2) = []"
proof -
  let ?cs = "[AddSuccessor 1 2, AddSuccessor 2 3, AddSuccessor 3 3, AddSuccessor 3 4]"
  have "map_option (\<lambda>g. (sg_isolate 2 g \<noteq> None, sg_isolate 3 g = None)) (sg_calls ?cs sg_empty) = Some (True, True)"
    by (simp add: sg_empty_def sg_addSuccessor_def set_succ_def set_pred_def sg_isolate_def Let_def)
  then obtain g g' where g: "sg_calls ?cs sg_empty = Some g" "sg_isolate 2 g = Some g'" "sg_isolate 3 g = None" by auto
  have "edges_ok sg_empty" "uses_ok sg_empty"
    by (simp_all add: edges_ok_def edge_def back_edge_def sg_empty_def uses_ok_def)
  then have "edges_ok g" using sg_calls_ok [OF g(1)] by blast
  then show ?thesis using g isolate_correct [of g 2] by blast
qed

end
