(* ===== verification/Pointer_Build.thy ===== *)
theory Pointer_Build
  imports Sub_Graph Pointer_Termination
begin

text \<open>
  Building a pointer graph, \<^verbatim>\<open>include/dg/PointerAnalysis/PointerGraph.h\<close> and the constructors in \<^verbatim>\<open>PSNode.h\<close>: a
  \<open>pstore\<close> has the nodes with their types, operands and edges, the vectors of nodes and of global nodes that own them,
  and the subgraphs by their roots. A node is the number 2 + its id; 0, 1 and 2 are the special nodes, whose id is 0.
  The arguments a caller passes for a type of node are a list of operands and an offset; passing another number than
  the constructor reads is not modelled (\<open>None\<close>).
\<close>

section \<open>The store\<close>

record pstore =
  ps_graph :: sgraph
  ps_type :: "nat \<Rightarrow> PSNodeType"
  ps_off :: "nat \<Rightarrow> Offset"
  ps_pts :: "nat \<Rightarrow> simple_pts"
  ps_size :: "nat \<Rightarrow> 64 word"
  ps_zero :: "nat \<Rightarrow> bool"
  ps_heap :: "nat \<Rightarrow> bool"
  ps_global :: "nat \<Rightarrow> bool"
  ps_callees :: "nat \<Rightarrow> nat list"
  ps_rets :: "nat \<Rightarrow> nat list"
  ps_subgraphs :: "nat list"
  ps_nodes :: "nat option list"
  ps_globals :: "nat list"
  ps_last :: nat

definition getID :: "nat \<Rightarrow> nat" where
  "getID n = n - 2"

definition initStaticNodes :: "nat \<Rightarrow> simple_pts" where
  "initStaticNodes n = (if n = NULLPTR then [NullPointer] else if n = UNKNOWN_MEMORY then [UnknownPointer] else [])"

definition PointerGraph :: pstore where
  "PointerGraph = \<lparr>ps_graph = sg_empty,
     ps_type = (\<lambda>n. if n = NULLPTR then PS_NULL_ADDR else if n = UNKNOWN_MEMORY then PS_UNKNOWN_MEM else PS_INVALIDATED),
     ps_off = (\<lambda>_. Offset 0), ps_pts = initStaticNodes, ps_size = (\<lambda>_. 0), ps_zero = (\<lambda>_. False), ps_heap = (\<lambda>_. False),
     ps_global = (\<lambda>_. False), ps_callees = (\<lambda>_. []), ps_rets = (\<lambda>_. []), ps_subgraphs = [], ps_nodes = [None],
     ps_globals = [], ps_last = 0\<rparr>"

text \<open>The number of operands the constructor of a type takes.\<close>

definition takes :: "PSNodeType \<Rightarrow> nat \<Rightarrow> bool" where
  "takes t k =
     (case t of
        PS_ALLOC \<Rightarrow> k = 0 | PS_ENTRY \<Rightarrow> k = 0 | PS_CALL \<Rightarrow> k = 0 | PS_JOIN \<Rightarrow> k = 0 | PS_NOOP \<Rightarrow> k = 0 | PS_FUNCTION \<Rightarrow> k = 0
      | PS_GEP \<Rightarrow> k = 1 | PS_CONSTANT \<Rightarrow> k = 1 | PS_CALL_FUNCPTR \<Rightarrow> k = 1 | PS_FORK \<Rightarrow> k = 1 | PS_CAST \<Rightarrow> k = 1 | PS_LOAD \<Rightarrow> k = 1
      | PS_INVALIDATE_OBJECT \<Rightarrow> k = 1 | PS_INVALIDATE_LOCALS \<Rightarrow> k = 1 | PS_FREE \<Rightarrow> k = 1
      | PS_MEMCPY \<Rightarrow> k = 2 | PS_STORE \<Rightarrow> k = 2
      | PS_PHI \<Rightarrow> True | PS_CALL_RETURN \<Rightarrow> True | PS_RETURN \<Rightarrow> True
      | _ \<Rightarrow> False)"

definition initial_pts :: "PSNodeType \<Rightarrow> nat \<Rightarrow> nat list \<Rightarrow> Offset \<Rightarrow> simple_pts" where
  "initial_pts t n ops f =
     (if t = PS_ALLOC \<or> t = PS_FUNCTION then [(n, Offset 0)] else if t = PS_CONSTANT then [(hd ops, f)] else [])"

definition construct :: "nat \<Rightarrow> PSNodeType \<Rightarrow> nat list \<Rightarrow> Offset \<Rightarrow> pstore \<Rightarrow> pstore" where
  "construct n t ops f S =
     S\<lparr>ps_last := Suc (ps_last S), ps_type := (ps_type S)(n := t), ps_off := (ps_off S)(n := f),
       ps_pts := (ps_pts S)(n := initial_pts t n ops f), ps_size := (ps_size S)(n := 0),
       ps_zero := (ps_zero S)(n := False), ps_heap := (ps_heap S)(n := False), ps_global := (ps_global S)(n := False),
       ps_callees := (ps_callees S)(n := []), ps_rets := (ps_rets S)(n := []),
       ps_graph := fold (sg_addOperand n) ops ((ps_graph S)(n := sg_empty n))\<rparr>"

definition create_node :: "PSNodeType \<Rightarrow> nat list \<Rightarrow> Offset \<Rightarrow> pstore \<Rightarrow> (nat \<times> pstore) option" where
  "create_node t ops f S =
     (if takes t (length ops) then Some (ps_last S + 3, construct (ps_last S + 3) t ops f S) else None)"

definition create :: "PSNodeType \<Rightarrow> nat list \<Rightarrow> Offset \<Rightarrow> pstore \<Rightarrow> (nat \<times> pstore) option" where
  "create t ops f S = map_option (\<lambda>(n, S). (n, S\<lparr>ps_nodes := ps_nodes S @ [Some n]\<rparr>)) (create_node t ops f S)"

definition createGlobal :: "PSNodeType \<Rightarrow> nat list \<Rightarrow> Offset \<Rightarrow> pstore \<Rightarrow> (nat \<times> pstore) option" where
  "createGlobal t ops f S = map_option (\<lambda>(n, S). (n, S\<lparr>ps_globals := ps_globals S @ [n]\<rparr>)) (create_node t ops f S)"

text \<open>Subgraphs are numbered from 1.\<close>

definition createSubgraph :: "nat \<Rightarrow> pstore \<Rightarrow> nat \<times> pstore" where
  "createSubgraph root S = (Suc (length (ps_subgraphs S)), S\<lparr>ps_subgraphs := ps_subgraphs S @ [root]\<rparr>)"

definition addCallee :: "nat \<Rightarrow> nat \<Rightarrow> pstore \<Rightarrow> bool \<times> pstore" where
  "addCallee c k S =
     (if k \<in> set (ps_callees S c) then (False, S)
      else (True, S\<lparr>ps_callees := (ps_callees S)(c := ps_callees S c @ [k])\<rparr>))"

definition addReturnSite :: "nat \<Rightarrow> nat \<Rightarrow> pstore \<Rightarrow> bool \<times> pstore" where
  "addReturnSite r x S =
     (if x \<in> set (ps_rets S r) then (False, S)
      else (True, S\<lparr>ps_rets := (ps_rets S)(r := ps_rets S r @ [x])\<rparr>))"

definition subgraph_root :: "pstore \<Rightarrow> nat \<Rightarrow> nat" where
  "subgraph_root S k = ps_subgraphs S ! (k - 1)"

text \<open>Removing a node empties the entry of its id. The size that is asserted counts the global nodes, too; the access to the
  entry needs the id to be an index of the vector.\<close>

definition remove_node :: "nat \<Rightarrow> pstore \<Rightarrow> pstore option" where
  "remove_node n S =
     (if sg_succ (ps_graph S n) = [] \<and> sg_pred (ps_graph S n) = [] \<and> getID n < length (ps_nodes S) + length (ps_globals S) \<and>
         0 < getID n \<and> sg_users (ps_graph S n) = [] \<and> sg_ops (ps_graph S n) = [] \<and>
         getID n < length (ps_nodes S) \<and> ps_nodes S ! getID n = Some n
      then Some (S\<lparr>ps_nodes := (ps_nodes S)[getID n := None]\<rparr>) else None)"

definition pg_setSize :: "nat \<Rightarrow> 64 word \<Rightarrow> pstore \<Rightarrow> pstore" where
  "pg_setSize n w S = S\<lparr>ps_size := (ps_size S)(n := w)\<rparr>"

definition setZeroInitialized :: "nat \<Rightarrow> pstore \<Rightarrow> pstore" where
  "setZeroInitialized n S = S\<lparr>ps_zero := (ps_zero S)(n := True)\<rparr>"

definition setIsHeap :: "nat \<Rightarrow> pstore \<Rightarrow> pstore" where
  "setIsHeap n S = S\<lparr>ps_heap := (ps_heap S)(n := True)\<rparr>"

definition setIsGlobal :: "nat \<Rightarrow> pstore \<Rightarrow> pstore" where
  "setIsGlobal n S = S\<lparr>ps_global := (ps_global S)(n := True)\<rparr>"

section \<open>Reading the store as a graph to analyse\<close>

definition graph_of :: "pstore \<Rightarrow> nat \<Rightarrow> nat list list \<Rightarrow> pgraph" where
  "graph_of S entry loops =
     \<lparr>pg_node = (\<lambda>n. \<lparr>n_type = ps_type S n, n_operands = sg_ops (ps_graph S n), n_size = ps_size S n, n_len = ps_off S n,
        n_heap = ps_heap S n, n_global = ps_global S n\<rparr>),
      pg_root = subgraph_root S entry, pg_globals = ps_globals S, pg_loops = loops\<rparr>"

definition state_of :: "pstore \<Rightarrow> pta" where
  "state_of S = \<lparr>p_pts = ps_pts S, p_mem = (\<lambda>_. []), p_zero = ps_zero S, p_gep = ps_off S,
     p_succ = (\<lambda>n. sg_succ (ps_graph S n)), p_callees = (\<lambda>n. map (subgraph_root S) (ps_callees S n)), p_rets = ps_rets S\<rparr>"

definition created :: "pstore \<Rightarrow> nat set" where
  "created S = {3..<ps_last S + 3}"

section \<open>Building\<close>

text \<open>What a builder does, in any order: operands and edges are nodes that have been made, operands are added later to nodes that
  merge pointers only, callees are subgraphs and return sites are nodes.\<close>

inductive built :: "pstore \<Rightarrow> bool" where
  start: "built PointerGraph"
| node: "built S \<Longrightarrow> set ops \<subseteq> created S \<union> special \<Longrightarrow> create t ops f S = Some (n, S') \<Longrightarrow> built S'"
| global: "built S \<Longrightarrow> set ops \<subseteq> created S \<union> special \<Longrightarrow> createGlobal t ops f S = Some (n, S') \<Longrightarrow> built S'"
| succ: "built S \<Longrightarrow> a \<in> created S \<Longrightarrow> b \<in> created S \<Longrightarrow> built (S\<lparr>ps_graph := sg_addSuccessor a b (ps_graph S)\<rparr>)"
| operand: "built S \<Longrightarrow> ps_type S a \<in> {PS_PHI, PS_RETURN, PS_CALL_RETURN} \<Longrightarrow> a \<in> created S \<Longrightarrow> b \<in> created S \<union> special \<Longrightarrow>
    built (S\<lparr>ps_graph := sg_addOperand a b (ps_graph S)\<rparr>)"
| subgraph: "built S \<Longrightarrow> root \<in> created S \<Longrightarrow> built (snd (createSubgraph root S))"
| callee: "built S \<Longrightarrow> 0 < k \<Longrightarrow> k \<le> length (ps_subgraphs S) \<Longrightarrow> built (snd (addCallee c k S))"
| ret: "built S \<Longrightarrow> x \<in> created S \<Longrightarrow> built (snd (addReturnSite r x S))"
| size: "built S \<Longrightarrow> built (pg_setSize n w S)"
| zero: "built S \<Longrightarrow> built (setZeroInitialized n S)"
| heap: "built S \<Longrightarrow> built (setIsHeap n S)"
| glob: "built S \<Longrightarrow> built (setIsGlobal n S)"

section \<open>The invariant of a built graph\<close>

definition live_nodes :: "nat option list \<Rightarrow> nat list" where
  "live_nodes xs = map the (filter (\<lambda>x. x \<noteq> None) xs)"

definition ids_ok :: "pstore \<Rightarrow> bool" where
  "ids_ok S = (distinct (live_nodes (ps_nodes S)) \<and> distinct (ps_globals S) \<and>
     set (live_nodes (ps_nodes S)) \<inter> set (ps_globals S) = {} \<and>
     set (live_nodes (ps_nodes S)) \<union> set (ps_globals S) = created S)"

lemma live_nodes_simps [simp]:
  "live_nodes [] = []" "live_nodes (xs @ [Some n]) = live_nodes xs @ [n]" "live_nodes (None # xs) = live_nodes xs"
  by (simp_all add: live_nodes_def)

definition shape_ok :: "pstore \<Rightarrow> nat \<Rightarrow> bool" where
  "shape_ok S n = (takes (ps_type S n) (length (sg_ops (ps_graph S n))) \<and>
     set (sg_ops (ps_graph S n)) \<subseteq> created S \<union> special \<and>
     (ps_type S n \<notin> {PS_PHI, PS_RETURN, PS_CALL_RETURN} \<longrightarrow> n \<notin> set (sg_ops (ps_graph S n))))"

definition edges_in :: "pstore \<Rightarrow> bool" where
  "edges_in S = ((\<forall>n. set (sg_succ (ps_graph S n)) \<subseteq> created S) \<and> (\<forall>n. set (ps_rets S n) \<subseteq> created S) \<and>
     set (ps_subgraphs S) \<subseteq> created S \<and> (\<forall>n. \<forall>k \<in> set (ps_callees S n). 0 < k \<and> k \<le> length (ps_subgraphs S)))"

definition store_ok :: "pstore \<Rightarrow> bool" where
  "store_ok S = (edges_ok (ps_graph S) \<and> uses_ok (ps_graph S) \<and> ids_ok S \<and> edges_in S \<and> (\<forall>n \<in> created S. shape_ok S n) \<and>
     (\<forall>n. n \<notin> created S \<union> special \<longrightarrow> ps_graph S n = sg_empty n) \<and>
     (\<forall>n. n \<notin> created S \<longrightarrow> ps_type S n = ps_type PointerGraph n) \<and>
     (\<forall>n. ps_pts S n = (if n \<in> created S then initial_pts (ps_type S n) n (sg_ops (ps_graph S n)) (ps_off S n) else initStaticNodes n)))"

lemma special_nodes: "special = {0, 1, 2}"
  by (auto simp: special_def NULLPTR_def UNKNOWN_MEMORY_def INVALIDATED_def)

lemma created_last: "created (S\<lparr>ps_nodes := xs\<rparr>) = created S" "created (S\<lparr>ps_globals := ys\<rparr>) = created S"
  by (simp_all add: created_def)

lemma created_special: "created S \<inter> special = {}"
  by (auto simp: created_def special_nodes)

lemma addOperands_fields:
  "sg_ops (fold (sg_addOperand n) ops g m) = (if m = n then sg_ops (g n) @ ops else sg_ops (g m))"
  "sg_succ (fold (sg_addOperand n) ops g m) = sg_succ (g m)"
  "sg_pred (fold (sg_addOperand n) ops g m) = sg_pred (g m)"
  "m \<noteq> n \<Longrightarrow> m \<notin> set ops \<Longrightarrow> fold (sg_addOperand n) ops g m = g m"
  "uses_ok g \<Longrightarrow> uses_ok (fold (sg_addOperand n) ops g)"
proof -
  have one: "sg_succ (sg_addOperand n op g m) = sg_succ (g m)" "sg_pred (sg_addOperand n op g m) = sg_pred (g m)"
    "sg_ops (sg_addOperand n op g m) = (if m = n then sg_ops (g n) @ [op] else sg_ops (g m))"
    "m \<noteq> n \<Longrightarrow> m \<noteq> op \<Longrightarrow> sg_addOperand n op g m = g m" for op g m
    by (auto simp: sg_addOperand_def addUser_def set_ops_def set_users_def)
  show "sg_ops (fold (sg_addOperand n) ops g m) = (if m = n then sg_ops (g n) @ ops else sg_ops (g m))"
    by (induction ops arbitrary: g) (auto simp: one)
  show "sg_succ (fold (sg_addOperand n) ops g m) = sg_succ (g m)" "sg_pred (fold (sg_addOperand n) ops g m) = sg_pred (g m)"
    by (induction ops arbitrary: g) (auto simp: one)
  show "m \<noteq> n \<Longrightarrow> m \<notin> set ops \<Longrightarrow> fold (sg_addOperand n) ops g m = g m"
    by (induction ops arbitrary: g) (auto simp: one)
  show "uses_ok g \<Longrightarrow> uses_ok (fold (sg_addOperand n) ops g)"
    by (induction ops arbitrary: g) (auto simp: addOperand_ok)
qed

lemma created_node:
  assumes ok: "store_ok S" and ops: "set ops \<subseteq> created S \<union> special" and c: "create_node t ops f S = Some (n, S')"
  shows "n \<notin> created S" and "created S' = insert n (created S)" and "ps_nodes S' = ps_nodes S" and "ps_globals S' = ps_globals S"
    and "edges_ok (ps_graph S')" and "uses_ok (ps_graph S')" and "edges_in S'" and "\<forall>m \<in> created S'. shape_ok S' m"
    and "\<forall>m. m \<notin> created S' \<union> special \<longrightarrow> ps_graph S' m = sg_empty m"
    and "\<forall>m. m \<notin> created S' \<longrightarrow> ps_type S' m = ps_type PointerGraph m"
    and "\<forall>m. ps_pts S' m = (if m \<in> created S' then initial_pts (ps_type S' m) m (sg_ops (ps_graph S' m)) (ps_off S' m) else initStaticNodes m)"
proof -
  have n: "n = ps_last S + 3" "takes t (length ops)" using c by (auto simp: create_node_def split: if_splits)
  then have new: "n \<notin> created S" "n \<notin> special" by (auto simp: created_def special_nodes)
  then have "ps_graph S n = sg_empty n" using ok by (simp add: store_ok_def)
  then have g: "(ps_graph S)(n := sg_empty n) = ps_graph S" by (simp add: fun_upd_idem)
  have "S' = construct n t ops f S" using c by (auto simp: create_node_def split: if_splits)
  note S' = this [unfolded construct_def g]
  show "n \<notin> created S" by (rule new)
  show cr: "created S' = insert n (created S)" by (auto simp: created_def S' n(1))
  show "ps_nodes S' = ps_nodes S" "ps_globals S' = ps_globals S" by (simp_all add: S')
  have gr: "ps_graph S' = fold (sg_addOperand n) ops (ps_graph S)" by (simp add: S')
  note fld = addOperands_fields [where n = n and ops = ops and g = "ps_graph S", folded gr]
  show "uses_ok (ps_graph S')" using fld(5) ok by (simp add: store_ok_def)
  have "same_edges (ps_graph S) (ps_graph S')" using fld(2,3) by (simp add: same_edges_def)
  then show "edges_ok (ps_graph S')" using ok same_edges_ok by (simp add: store_ok_def)
  show "edges_in S'" using ok cr fld(2) by (auto simp: store_ok_def edges_in_def S')
  have emp: "sg_ops (ps_graph S n) = []" using \<open>ps_graph S n = sg_empty n\<close> by (simp add: sg_empty_def)
  show "\<forall>m \<in> created S'. shape_ok S' m"
  proof
    fix m assume m: "m \<in> created S'"
    show "shape_ok S' m"
    proof (cases "m = n")
      case True
      then show ?thesis using n(2) ops new emp fld(1) [of n] cr by (auto simp: shape_ok_def S')
    next
      case False
      then have "shape_ok S m" using m cr ok by (simp add: store_ok_def)
      then show ?thesis using False fld(1) [of m] cr by (auto simp: shape_ok_def S')
    qed
  qed
  show "\<forall>m. m \<notin> created S' \<union> special \<longrightarrow> ps_graph S' m = sg_empty m"
  proof (intro allI impI)
    fix m assume m: "m \<notin> created S' \<union> special"
    then have "m \<noteq> n" "m \<notin> set ops" "m \<notin> created S \<union> special" using cr ops by auto
    then show "ps_graph S' m = sg_empty m" using fld(4) [of m] ok by (simp add: store_ok_def)
  qed
  show "\<forall>m. m \<notin> created S' \<longrightarrow> ps_type S' m = ps_type PointerGraph m" using ok cr by (auto simp: store_ok_def S')
  show "\<forall>m. ps_pts S' m = (if m \<in> created S' then initial_pts (ps_type S' m) m (sg_ops (ps_graph S' m)) (ps_off S' m) else initStaticNodes m)"
    using ok cr fld(1) emp by (auto simp: store_ok_def S')
qed

lemma built_ok: "built S \<Longrightarrow> store_ok S"
proof (induction rule: built.induct)
  case start
  have "edges_ok sg_empty" "uses_ok sg_empty" by (simp_all add: edges_ok_def edge_def back_edge_def sg_empty_def uses_ok_def)
  moreover have "created PointerGraph = {}" by (simp add: created_def PointerGraph_def)
  ultimately show ?case by (simp add: store_ok_def ids_ok_def edges_in_def) (simp add: PointerGraph_def sg_empty_def)
next
  case (node S ops t f n S')
  obtain S1 where c: "create_node t ops f S = Some (n, S1)" "S' = S1\<lparr>ps_nodes := ps_nodes S1 @ [Some n]\<rparr>"
    using node by (auto simp: create_def)
  note N = created_node [OF node.IH node.hyps(2) c(1)]
  have "ids_ok S'" using node.IH N(1-4) by (auto simp: store_ok_def ids_ok_def c(2) created_last)
  moreover have "created S' = created S1" "\<And>m. shape_ok S' m = shape_ok S1 m" "edges_in S' = edges_in S1"
    by (simp_all add: c(2) created_def shape_ok_def edges_in_def)
  ultimately show ?case using N(5-) by (simp add: store_ok_def) (simp add: c(2))
next
  case (global S ops t f n S')
  obtain S1 where c: "create_node t ops f S = Some (n, S1)" "S' = S1\<lparr>ps_globals := ps_globals S1 @ [n]\<rparr>"
    using global by (auto simp: createGlobal_def)
  note N = created_node [OF global.IH global.hyps(2) c(1)]
  have "ids_ok S'" using global.IH N(1-4) by (auto simp: store_ok_def ids_ok_def c(2) created_last)
  moreover have "created S' = created S1" "\<And>m. shape_ok S' m = shape_ok S1 m" "edges_in S' = edges_in S1"
    by (simp_all add: c(2) created_def shape_ok_def edges_in_def)
  ultimately show ?case using N(5-) by (simp add: store_ok_def) (simp add: c(2))
next
  case (succ S a b)
  let ?g = "sg_addSuccessor a b (ps_graph S)" and ?S = "S\<lparr>ps_graph := sg_addSuccessor a b (ps_graph S)\<rparr>"
  have cr: "created ?S = created S" by (simp add: created_def)
  have u: "same_uses (ps_graph S) ?g" by simp
  have f: "sg_ops (?g n) = sg_ops (ps_graph S n)" for n using u by (simp add: same_uses_def)
  have e: "set (sg_succ (?g n)) \<subseteq> set (sg_succ (ps_graph S n)) \<union> {b}" for n
    by (auto simp: sg_addSuccessor_def Let_def)
  have o: "n \<noteq> a \<Longrightarrow> n \<noteq> b \<Longrightarrow> ?g n = ps_graph S n" for n by (simp add: sg_addSuccessor_def Let_def set_succ_def set_pred_def)
  have "edges_ok ?g" "uses_ok ?g" using succ.IH addSuccessor_ok same_uses_ok [OF u] by (auto simp: store_ok_def)
  moreover have "edges_in ?S" using succ.IH succ.hyps(3) e cr unfolding store_ok_def edges_in_def by simp blast
  moreover have "ids_ok ?S" "\<And>n. shape_ok ?S n = shape_ok S n" using succ.IH cr f by (simp_all add: store_ok_def ids_ok_def shape_ok_def)
  moreover have "?g n = sg_empty n" if "n \<notin> created S" "n \<notin> special" for n
  proof -
    have "?g n = ps_graph S n" using o succ.hyps(2,3) that by metis
    then show ?thesis using succ.IH that by (simp add: store_ok_def)
  qed
  ultimately show ?case using succ.IH cr f by (simp add: store_ok_def)
next
  case (operand S a b)
  let ?g = "sg_addOperand a b (ps_graph S)" and ?S = "S\<lparr>ps_graph := sg_addOperand a b (ps_graph S)\<rparr>"
  have cr: "created ?S = created S" by (simp add: created_def)
  note F = addOperands_fields [where n = a and ops = "[b]" and g = "ps_graph S", simplified]
  have "uses_ok ?g" using F(5) operand.IH by (simp add: store_ok_def)
  moreover have "edges_ok ?g" using same_edges_ok [of "ps_graph S" ?g] F(2,3) operand.IH by (simp add: same_edges_def store_ok_def)
  moreover have "edges_in ?S" "ids_ok ?S" using operand.IH cr F(2) by (simp_all add: store_ok_def edges_in_def ids_ok_def)
  moreover have "shape_ok ?S n" if "n \<in> created S" for n
    using that operand.IH operand.hyps cr F(1) [of n] by (auto simp: store_ok_def shape_ok_def takes_def)
  moreover have "initial_pts (ps_type S n) n (sg_ops (?g n)) (ps_off S n) = initial_pts (ps_type S n) n (sg_ops (ps_graph S n)) (ps_off S n)" for n
    using operand.hyps(2) F(1) [of n] by (auto simp: initial_pts_def)
  moreover have "?g n = sg_empty n" if "n \<notin> created S" "n \<notin> special" for n
  proof -
    have "?g n = ps_graph S n" using F(4) [of n] operand.hyps(3,4) that by blast
    then show ?thesis using operand.IH that by (simp add: store_ok_def)
  qed
  ultimately show ?case using operand.IH cr by (simp add: store_ok_def)
next
  case (subgraph S root)
  then show ?case
    by (auto simp: store_ok_def createSubgraph_def ids_ok_def edges_in_def shape_ok_def created_def intro: le_SucI)
next
  case (callee S k c)
  then show ?case by (auto simp: store_ok_def addCallee_def ids_ok_def edges_in_def shape_ok_def created_def)
next
  case (ret S x r)
  then show ?case by (auto simp: store_ok_def addReturnSite_def ids_ok_def edges_in_def shape_ok_def created_def)
qed (simp_all add: store_ok_def ids_ok_def edges_in_def shape_ok_def created_def pg_setSize_def setZeroInitialized_def
  setIsHeap_def setIsGlobal_def)

section \<open>Analysing a built graph\<close>

definition targets :: "pstore \<Rightarrow> nat set" where
  "targets S = {n \<in> created S. ps_type S n = PS_ALLOC \<or> ps_type S n = PS_FUNCTION}"

text \<open>What the constructors do not ensure: copies have a length, constants point to memory and functions, and what is
  invalidated when a function returns is given by a node with one successor.\<close>

definition analysable :: "pstore \<Rightarrow> nat \<Rightarrow> bool" where
  "analysable S entry =
     (0 < entry \<and> entry \<le> length (ps_subgraphs S) \<and>
      (\<forall>n \<in> created S.
         (ps_type S n = PS_MEMCPY \<longrightarrow> off (ps_off S n) \<noteq> 0) \<and>
         (ps_type S n = PS_CONSTANT \<longrightarrow> set (sg_ops (ps_graph S n)) \<subseteq> targets S \<union> special) \<and>
         (ps_type S n = PS_INVALIDATE_LOCALS \<longrightarrow> length (sg_succ (ps_graph S (hd (sg_ops (ps_graph S n))))) = 1)))"

lemma root_created: "store_ok S \<Longrightarrow> 0 < k \<Longrightarrow> k \<le> length (ps_subgraphs S) \<Longrightarrow> subgraph_root S k \<in> created S"
proof -
  assume ok: "store_ok S" and k: "0 < k" "k \<le> length (ps_subgraphs S)"
  have "ps_subgraphs S ! (k - 1) \<in> set (ps_subgraphs S)" using k by simp
  then show ?thesis using ok unfolding store_ok_def edges_in_def subgraph_root_def by blast
qed

lemma graph_of_wf:
  assumes ok: "store_ok S" and a: "analysable S entry"
  shows "pg_wf (graph_of S entry loops) (created S) (targets S)"
proof -
  have "node_wf (graph_of S entry loops) n" if n: "n \<in> created S" for n
  proof -
    have sh: "shape_ok S n" using ok n by (simp add: store_ok_def)
    have m: "ps_type S n = PS_MEMCPY \<longrightarrow> off (ps_off S n) \<noteq> 0" using a n by (simp add: analysable_def)
    show ?thesis using sh m by (cases "ps_type S n") (auto simp: node_wf_def graph_of_def shape_ok_def takes_def)
  qed
  moreover have "ps_type S n = ps_type PointerGraph n" if "n \<in> special" for n
    using that ok created_special [of S] by (auto simp: store_ok_def)
  then have "ps_type S NULLPTR = PS_NULL_ADDR" "ps_type S UNKNOWN_MEMORY = PS_UNKNOWN_MEM" "ps_type S INVALIDATED = PS_INVALIDATED"
    by (simp_all add: PointerGraph_def special_def) (simp_all add: NULLPTR_def UNKNOWN_MEMORY_def INVALIDATED_def)
  moreover have "subgraph_root S entry \<in> created S" using root_created [OF ok] a by (simp add: analysable_def)
  moreover have "targets S \<subseteq> created S" "finite (created S)" by (auto simp: targets_def created_def)
  ultimately show ?thesis using created_special [of S] finite_subset [of "targets S" "created S"]
    by (auto simp: pg_wf_def) (auto simp: graph_of_def targets_def)
qed

lemma state_of_wf:
  assumes ok: "store_ok S" and a: "analysable S entry"
  shows "pta_wf (graph_of S entry loops) (created S) (targets S) (state_of S)"
proof -
  let ?G = "graph_of S entry loops" and ?s = "state_of S"
  have ty: "ntype ?G n = ps_type S n" "n_operands (pg_node ?G n) = sg_ops (ps_graph S n)" for n by (simp_all add: graph_of_def)
  have fld: "p_pts ?s = ps_pts S" "p_mem ?s = (\<lambda>_. [])" by (simp_all add: state_of_def)
  have pts: "ps_pts S n = (if n \<in> created S then initial_pts (ps_type S n) n (sg_ops (ps_graph S n)) (ps_off S n) else initStaticNodes n)" for n
    using ok by (simp add: store_ok_def)
  have "set (edges_of ?G ?s n) \<subseteq> created S" for n
  proof -
    have "set (sg_succ (ps_graph S n)) \<subseteq> created S" "set (ps_rets S n) \<subseteq> created S" using ok by (simp_all add: store_ok_def edges_in_def)
    moreover have "set (map (subgraph_root S) (ps_callees S n)) \<subseteq> created S"
      using ok root_created [OF ok] by (auto simp: store_ok_def edges_in_def)
    ultimately show ?thesis by (simp add: edges_of_def state_of_def)
  qed
  then have "edges_wf ?G (created S) ?s" using a by (simp add: edges_wf_def ty) (simp add: analysable_def state_of_def)
  moreover have "fixed_wf ?G (created S) ?s"
  proof -
    have "NULLPTR \<notin> created S" "UNKNOWN_MEMORY \<notin> created S" "INVALIDATED \<notin> created S"
      using created_special [of S] by (auto simp: special_def)
    then have "ps_pts S NULLPTR = [NullPointer]" "ps_pts S UNKNOWN_MEMORY = [UnknownPointer]" "ps_pts S INVALIDATED = []"
      by (simp_all add: pts initStaticNodes_def) (simp_all add: NULLPTR_def UNKNOWN_MEMORY_def INVALIDATED_def)
    then show ?thesis by (simp add: fixed_wf_def ty fld) (simp add: pts initial_pts_def)
  qed
  moreover have "ptrs_wf (targets S) (ps_pts S n)" for n
  proof (cases "n \<in> created S")
    case True
    have c: "hd (sg_ops (ps_graph S n)) \<in> targets S \<union> special" if "ps_type S n = PS_CONSTANT"
    proof -
      have "length (sg_ops (ps_graph S n)) = 1" using ok True that by (auto simp: store_ok_def shape_ok_def takes_def)
      then have "hd (sg_ops (ps_graph S n)) \<in> set (sg_ops (ps_graph S n))" by (intro hd_in_set) auto
      then show ?thesis using a True that unfolding analysable_def by blast
    qed
    have "n \<in> targets S" if "ps_type S n = PS_ALLOC \<or> ps_type S n = PS_FUNCTION" using True that by (simp add: targets_def)
    then show ?thesis using True c by (auto simp: pts initial_pts_def ptrs_wf_def)
  next
    case False
    then show ?thesis by (auto simp: pts initStaticNodes_def ptrs_wf_def special_def NullPointer_def UnknownPointer_def)
  qed
  ultimately show ?thesis by (simp add: pta_wf_def fld smap_wf_def)
qed


definition example_store :: pstore where
  "example_store =
     (let S1 = snd (the (create PS_ALLOC [] (Offset 0) PointerGraph));
          S2 = snd (the (create PS_STORE [3, 3] (Offset 0) S1));
          S3 = S2\<lparr>ps_graph := sg_addSuccessor 3 4 (ps_graph S2)\<rparr> in snd (createSubgraph 3 S3))"

lemma example_store_simps:
  "ps_type example_store n = (if n = 4 then PS_STORE else if n = 3 then PS_ALLOC else ps_type PointerGraph n)"
  "created example_store = {3, 4}" "ps_subgraphs example_store = [3]" "ps_globals example_store = []"
  by (auto simp: example_store_def Let_def create_def create_node_def takes_def construct_def createSubgraph_def created_def
    PointerGraph_def)

lemma example_store_built: "built example_store"
proof -
  obtain S1 where c1: "create PS_ALLOC [] (Offset 0) PointerGraph = Some (3, S1)"
    by (simp add: create_def create_node_def takes_def PointerGraph_def)
  have l1: "ps_last S1 = 1" using c1 by (auto simp: create_def create_node_def takes_def PointerGraph_def construct_def)
  obtain S2 where c2: "create PS_STORE [3, 3] (Offset 0) S1 = Some (4, S2)"
    by (simp add: create_def create_node_def takes_def l1)
  have l2: "ps_last S2 = 2" using c2 l1 by (auto simp: create_def create_node_def takes_def construct_def)
  have "built S1" using built.node [OF built.start _ c1] by simp
  then have "built S2" using built.node [OF _ _ c2] by (simp add: created_def l1)
  then have b3: "built (S2\<lparr>ps_graph := sg_addSuccessor 3 4 (ps_graph S2)\<rparr>)" by (rule built.succ) (simp_all add: created_def l2)
  have "built (snd (createSubgraph 3 (S2\<lparr>ps_graph := sg_addSuccessor 3 4 (ps_graph S2)\<rparr>)))"
    by (rule built.subgraph [OF b3]) (simp add: created_def l2)
  then show ?thesis by (simp add: example_store_def c1 c2 Let_def)
qed


section \<open>Removing nodes\<close>

lemma built_nodes:
  "built S \<Longrightarrow> \<exists>xs. ps_nodes S = None # map Some xs \<and> sorted_wrt (<) xs"
proof (induction rule: built.induct)
  case start
  show ?case by (intro exI [of _ "[]"]) (simp add: PointerGraph_def)
next
  case (node S ops t f n S')
  obtain S1 where c: "create_node t ops f S = Some (n, S1)" "S' = S1\<lparr>ps_nodes := ps_nodes S1 @ [Some n]\<rparr>"
    using node by (auto simp: create_def)
  have ok: "store_ok S" using built_ok node.hyps(1) .
  obtain xs where xs: "ps_nodes S = None # map Some xs" "sorted_wrt (<) xs" using node.IH by blast
  have n: "n = ps_last S + 3" "ps_nodes S1 = ps_nodes S"
    using c(1) created_node(3) [OF ok node.hyps(2) c(1)] by (auto simp: create_node_def split: if_splits)
  have "set xs \<subseteq> created S" using ok xs(1) by (auto simp: store_ok_def ids_ok_def live_nodes_def comp_def)
  then have "\<forall>x \<in> set xs. x < n" using n(1) by (auto simp: created_def)
  then show ?case using xs n(2) by (intro exI [of _ "xs @ [n]"]) (simp add: c(2) sorted_wrt_append)
next
  case (global S ops t f n S')
  obtain S1 where c: "create_node t ops f S = Some (n, S1)" "S' = S1\<lparr>ps_globals := ps_globals S1 @ [n]\<rparr>"
    using global by (auto simp: createGlobal_def)
  then show ?case using global.IH created_node(3) [OF built_ok global.hyps(2) c(1)] global.hyps(1) by simp
qed (simp_all add: createSubgraph_def addCallee_def addReturnSite_def pg_setSize_def setZeroInitialized_def setIsHeap_def setIsGlobal_def)

text \<open>In a sorted list that holds the numbers of an interval except some, the index of a number is its distance from the lower
  end less those left out.\<close>

lemma sorted_index:
  assumes "sorted_wrt (<) xs" and "set xs \<union> G = {l..<u}" and "set xs \<inter> G = {}" and "i < length xs"
  shows "xs ! i = l + i + card {g \<in> G. g < xs ! i}"
proof -
  have lt: "xs ! a < xs ! b" if "a < b" "b < length xs" for a b using that assms(1) by (simp add: sorted_wrt_iff_nth_less)
  have inj: "inj_on ((!) xs) {..<i}" using lt assms(4) by (auto simp: inj_on_def) (metis less_trans nat_neq_iff)
  have "{x \<in> set xs. x < xs ! i} = (!) xs ` {..<i}"
  proof (intro set_eqI iffI)
    fix x assume "x \<in> {x \<in> set xs. x < xs ! i}"
    then obtain j where j: "x = xs ! j" "j < length xs" "xs ! j < xs ! i" by (auto simp: in_set_conv_nth)
    then have "j < i" using lt [of i j] assms(4) by (metis less_asym less_irrefl nat_neq_iff)
    then show "x \<in> (!) xs ` {..<i}" using j by simp
  qed (use lt assms(4) in auto)
  then have c: "card {x \<in> set xs. x < xs ! i} = i" using card_image [OF inj] by simp
  have "xs ! i \<in> {l..<u}" using assms(2,4) nth_mem by blast
  then have "{l..<xs ! i} = {x \<in> {l..<u}. x < xs ! i}" by auto
  also have "\<dots> = {x \<in> set xs. x < xs ! i} \<union> {g \<in> G. g < xs ! i}" using assms(2) by blast
  finally have e: "{l..<xs ! i} = {x \<in> set xs. x < xs ! i} \<union> {g \<in> G. g < xs ! i}" .
  have fin: "finite {g \<in> G. g < xs ! i}" by (rule finite_subset [of _ "{..<xs ! i}"]) auto
  have "card {l..<xs ! i} = i + card {g \<in> G. g < xs ! i}"
    unfolding e using assms(3) c fin by (subst card_Un_disjoint) auto
  then have "xs ! i - l = i + card {g \<in> G. g < xs ! i}" by simp
  moreover have "l \<le> xs ! i" using \<open>xs ! i \<in> {l..<u}\<close> by simp
  ultimately show ?thesis by linarith
qed

text \<open>C29: \<open>remove\<close> works on the nodes that were created before the first global node only: a global node takes an id without an
  entry in the vector of nodes, so for every later node its id is not its index, and the check of the entry fails.\<close>

theorem remove_only_before_globals:
  assumes "built S" and "Some n \<in> set (ps_nodes S)"
    and "sg_succ (ps_graph S n) = []" and "sg_pred (ps_graph S n) = []" and "sg_users (ps_graph S n) = []" and "sg_ops (ps_graph S n) = []"
  shows "remove_node n S = (if \<forall>g \<in> set (ps_globals S). n < g then Some (S\<lparr>ps_nodes := (ps_nodes S)[getID n := None]\<rparr>) else None)"
proof -
  obtain xs where xs: "ps_nodes S = None # map Some xs" "sorted_wrt (<) xs" using built_nodes [OF assms(1)] by blast
  have ids: "set xs \<inter> set (ps_globals S) = {}" "set xs \<union> set (ps_globals S) = {3..<ps_last S + 3}"
    using built_ok [OF assms(1)] xs(1) by (auto simp: store_ok_def ids_ok_def created_def live_nodes_def comp_def)
  obtain i where i: "i < length xs" "n = xs ! i" using assms(2) xs(1) by (auto simp: in_set_conv_nth)
  define k where "k = card {g \<in> set (ps_globals S). g < n}"
  have n: "n = 3 + i + k" using sorted_index [OF xs(2) ids(2,1) i(1)] i(2) by (simp add: k_def)
  have k0: "k = 0 \<longleftrightarrow> (\<forall>g \<in> set (ps_globals S). \<not> g < n)" by (auto simp: k_def)
  have "n \<notin> set (ps_globals S)" using ids(1) i nth_mem by blast
  then have k: "k = 0 \<longleftrightarrow> (\<forall>g \<in> set (ps_globals S). n < g)" unfolding k0 by (metis linorder_neqE_nat less_asym)
  have id: "getID n = Suc (i + k)" using n by (simp add: getID_def)
  have "getID n < length (ps_nodes S) \<and> ps_nodes S ! getID n = Some n \<longleftrightarrow> i + k < length xs \<and> xs ! (i + k) = n"
    by (auto simp: id xs(1))
  also have "\<dots> \<longleftrightarrow> k = 0" unfolding i(2) using i(1) sorted_wrt_nth_less [OF xs(2), of i "i + k"] by (cases "k = 0") auto
  finally have "getID n < length (ps_nodes S) \<and> ps_nodes S ! getID n = Some n \<longleftrightarrow> (\<forall>g \<in> set (ps_globals S). n < g)" using k by blast
  then show ?thesis using assms(3-6) id unfolding remove_node_def by auto
qed

definition global_store :: pstore where
  "global_store =
     (let S1 = snd (the (create PS_ALLOC [] (Offset 0) PointerGraph));
          S2 = snd (the (createGlobal PS_ALLOC [] (Offset 0) S1)) in snd (the (create PS_ALLOC [] (Offset 0) S2)))"

theorem remove_only_before_globals_witness:
  "built global_store \<and> remove_node 3 global_store \<noteq> None \<and> remove_node 5 global_store = None"
proof -
  obtain S1 where c1: "create PS_ALLOC [] (Offset 0) PointerGraph = Some (3, S1)"
    by (simp add: create_def create_node_def takes_def PointerGraph_def)
  have l1: "ps_last S1 = 1" using c1 by (auto simp: create_def create_node_def takes_def PointerGraph_def construct_def)
  obtain S2 where c2: "createGlobal PS_ALLOC [] (Offset 0) S1 = Some (4, S2)"
    by (simp add: createGlobal_def create_node_def takes_def l1)
  have l2: "ps_last S2 = 2" using c2 l1 by (auto simp: createGlobal_def create_node_def takes_def construct_def)
  obtain S3 where c3: "create PS_ALLOC [] (Offset 0) S2 = Some (5, S3)"
    by (simp add: create_def create_node_def takes_def l2)
  have "built S1" using built.node [OF built.start _ c1] by simp
  then have "built S2" using built.global [OF _ _ c2] by simp
  then have b: "built S3" using built.node [OF _ _ c3] by simp
  have S3: "global_store = S3" by (simp add: global_store_def c1 c2 c3 Let_def)
  have f: "ps_nodes S3 = [None, Some 3, Some 5]" "ps_globals S3 = [4]" "ps_graph S3 3 = sg_empty 3" "ps_graph S3 5 = sg_empty 5"
    using c1 c2 c3
    by (auto simp: create_def createGlobal_def create_node_def takes_def PointerGraph_def construct_def sg_empty_def)
  show ?thesis using remove_only_before_globals [OF b, of 3] remove_only_before_globals [OF b, of 5] b
    by (simp add: S3 f sg_empty_def)
qed

end
