(* ===== verification/Def_Sites.thy ===== *)
theory Def_Sites
  imports Interval_Queries Ordered_Map
begin

text \<open>
  Definition sites, \<^verbatim>\<open>include/dg/ReadWriteGraph/DefSite.h\<close>, and the lists of intervals their sets are intersected with,
  \<^verbatim>\<open>include/dg/ADT/IntervalsList.h\<close>. A site is the target, a node, with the offset and the length of the bytes of it that
  are defined or used. The bytes of a site are \<open>ds_bytes\<close>.
\<close>

section \<open>Intervals\<close>

definition intervalsDisjunctive :: "64 word \<Rightarrow> 64 word \<Rightarrow> 64 word \<Rightarrow> 64 word \<Rightarrow> bool option" where
  "intervalsDisjunctive a a_len b b_len =
     (if a = UNKNOWN \<or> b = UNKNOWN \<or> \<not> a_len > 0 \<or> \<not> b_len > 0 then None
      else if a_len = UNKNOWN then
        Some (if b_len = UNKNOWN then False else if a \<le> b then False else b_len \<le> a - b)
      else if b_len = UNKNOWN then Some (if a \<le> b then a_len \<le> b - a else False)
      else Some (if a \<le> b then a_len \<le> b - a else b_len \<le> a - b))"

definition intervalsOverlap :: "64 word \<Rightarrow> 64 word \<Rightarrow> 64 word \<Rightarrow> 64 word \<Rightarrow> bool option" where
  "intervalsOverlap a1 a2 b1 b2 = map_option Not (intervalsDisjunctive a1 a2 b1 b2)"

section \<open>Definition sites\<close>

datatype DefSite = DefSite (ds_target: nat) (ds_offset: Offset) (ds_len: Offset)

definition mk_defsite :: "nat \<Rightarrow> Offset \<Rightarrow> Offset \<Rightarrow> DefSite option" where
  "mk_defsite t f l =
     (if isUnknown f \<or> isUnknown l \<or> off f + off l > 0 then Some (DefSite t f l) else None)"

instantiation DefSite :: linorder
begin

definition less_DefSite :: "DefSite \<Rightarrow> DefSite \<Rightarrow> bool" where
  "less_DefSite a b =
     (if ds_target a = ds_target b then
        (if ds_offset a = ds_offset b then ds_len a < ds_len b else ds_offset a < ds_offset b)
      else ds_target a < ds_target b)"

definition less_eq_DefSite :: "DefSite \<Rightarrow> DefSite \<Rightarrow> bool" where
  "less_eq_DefSite a b = (a < b \<or> a = b)"

instance
proof
  fix x y z :: DefSite
  show "(x < y) = (x \<le> y \<and> \<not> y \<le> x)" by (auto simp: less_eq_DefSite_def less_DefSite_def split: if_splits)
  show "x \<le> x" by (simp add: less_eq_DefSite_def)
  show "x \<le> y \<Longrightarrow> y \<le> z \<Longrightarrow> x \<le> z"
    by (auto simp: less_eq_DefSite_def less_DefSite_def split: if_splits)
  show "x \<le> y \<Longrightarrow> y \<le> x \<Longrightarrow> x = y" by (auto simp: less_eq_DefSite_def less_DefSite_def split: if_splits)
  show "x \<le> y \<or> y \<le> x"
    by (cases x; cases y) (auto simp: less_eq_DefSite_def less_DefSite_def split: if_splits)
qed

end

definition ds_end :: "DefSite \<Rightarrow> Offset" where
  "ds_end ds =
     (if isUnknown (ds_offset ds) then getUnknown
      else offset_plus (ds_offset ds) (offset_minus (ds_len ds) (Offset 1)))"

definition getInterval :: "DefSite \<Rightarrow> Offset \<times> Offset" where
  "getInterval ds =
     (if isUnknown (ds_offset ds) then (Offset 0, getUnknown)
      else (ds_offset ds, offset_plus (ds_offset ds) (offset_minus (ds_len ds) (Offset 1))))"

section \<open>Lists of intervals\<close>

definition il_overlaps :: "DiscreteInterval \<Rightarrow> DiscreteInterval \<Rightarrow> bool" where
  "il_overlaps this I = (istart this \<le> iend I \<and> iend this \<ge> istart I)"

text \<open>\<open>add\<close> has already moved its iterator behind the interval it overlaps when it calls \<open>_replace_overlapping\<close>: \<open>bef\<close> are the
  intervals before the iterator and \<open>rest\<close> those from it on. \<open>_check\<close> never advances its iterator in a list with two intervals.\<close>

definition replace_overlapping :: "DiscreteInterval \<Rightarrow> DiscreteInterval list \<Rightarrow> DiscreteInterval list \<Rightarrow> DiscreteInterval list option" where
  "replace_overlapping I bef rest =
     (let n = length (takeWhile (il_overlaps I) rest); k = (if n = length rest then n - 1 else n) in
      if rest = [] \<or> \<not> il_overlaps (hd rest) I \<or> \<not> il_overlaps (rest ! k) I then None
      else Some (bef @ \<lparr>istart = min (istart (hd rest)) (istart I), iend = max (iend (rest ! k)) (iend I)\<rparr> # drop (Suc k) rest))"

fun il_scan :: "DiscreteInterval \<Rightarrow> DiscreteInterval list \<Rightarrow> DiscreteInterval list \<Rightarrow> DiscreteInterval list option" where
  "il_scan I bef [] = Some (bef @ [I])"
| "il_scan I bef (J # rest) =
     (if il_overlaps I J then replace_overlapping I (bef @ [J]) rest
      else if istart J > iend I then Some (bef @ I # J # rest)
      else il_scan I (bef @ [J]) rest)"

fun il_check :: "DiscreteInterval list \<Rightarrow> bool" where
  "il_check [] = True"
| "il_check [I] = (istart I < iend I)"
| "il_check (I # J # xs) = False"

definition il_add :: "DiscreteInterval \<Rightarrow> DiscreteInterval list \<Rightarrow> DiscreteInterval list option" where
  "il_add I xs =
     Option.bind (il_scan I [] (if xs = [] then [I] else xs)) (\<lambda>ys. if il_check ys then Some ys else None)"

fun il_intersect :: "DiscreteInterval list \<Rightarrow> DiscreteInterval list \<Rightarrow> DiscreteInterval list" where
  "il_intersect xs [] = xs"
| "il_intersect xs (R # rs) =
     (case dropWhile (\<lambda>J. iend J < istart R) xs of
        [] \<Rightarrow> []
      | J # ys \<Rightarrow>
          il_intersect
            ((if il_overlaps J R then \<lparr>istart = max (istart J) (istart R), iend = min (iend J) (iend R)\<rparr> else J) # ys) rs)"

definition intersectWith :: "DiscreteInterval list \<Rightarrow> DiscreteInterval list \<Rightarrow> DiscreteInterval list" where
  "intersectWith xs rs = (if xs = [] then [] else il_intersect xs rs)"

section \<open>Sets of sites\<close>

fun ds_lists :: "DefSite list \<Rightarrow> (nat, DiscreteInterval list) smap \<Rightarrow> (nat, DiscreteInterval list) smap option" where
  "ds_lists [] m = Some m"
| "ds_lists (ds # S) m =
     Option.bind (mk_interval (fst (getInterval ds)) (snd (getInterval ds))) (\<lambda>I.
     Option.bind (il_add I (case map_of m (ds_target ds) of None \<Rightarrow> [] | Some xs \<Rightarrow> xs)) (\<lambda>xs.
       ds_lists S (smap_set (ds_target ds) xs m)))"

fun ds_emplace :: "nat \<Rightarrow> DiscreteInterval list \<Rightarrow> DefSite list \<Rightarrow> DefSite list option" where
  "ds_emplace t [] S = Some S"
| "ds_emplace t (I # Is) S =
     Option.bind (mk_defsite t (istart I) (iv_length I)) (\<lambda>ds. ds_emplace t Is (sset_insert ds S))"

fun ds_meet :: "(nat, DiscreteInterval list) smap \<Rightarrow> (nat, DiscreteInterval list) smap \<Rightarrow> DefSite list \<Rightarrow> DefSite list option" where
  "ds_meet [] r S = Some S"
| "ds_meet ((t, xs) # l) r S =
     (case map_of r t of
        None \<Rightarrow> ds_meet l r S
      | Some ys \<Rightarrow> Option.bind (ds_emplace t (intersectWith xs ys) S) (ds_meet l r))"

definition ds_intersect :: "DefSite list \<Rightarrow> DefSite list \<Rightarrow> DefSite list option" where
  "ds_intersect S T =
     Option.bind (ds_lists S []) (\<lambda>l. Option.bind (ds_lists T []) (\<lambda>r. ds_meet l r []))"

definition ds_union :: "DefSite list \<Rightarrow> DefSite list \<Rightarrow> DefSite list" where
  "ds_union S C = fold sset_insert C S"

section \<open>Intersection fails on all sets with a site\<close>

lemma il_add_empty: "il_add I [] = None"
proof (cases "il_overlaps I I")
  case False
  then have lt: "iend I < istart I" by (simp add: il_overlaps_def not_le)
  then show ?thesis using False by (simp add: il_add_def)
qed (simp add: il_add_def replace_overlapping_def Let_def)

text \<open>C39: \<open>add\<close> fails on an empty list of intervals, as it reads the end of the list, so that two sets of sites can be intersected
  only when both are empty.\<close>

theorem ds_intersect_fails: "ds_intersect S T = (if S = [] \<and> T = [] then Some [] else None)"
proof -
  have "ds_lists (ds # S) [] = None" for ds S by (cases "mk_interval (fst (getInterval ds)) (snd (getInterval ds))") (simp_all add: il_add_empty)
  then show ?thesis by (cases S; cases T) (simp_all add: ds_intersect_def del: ds_lists.simps(2))
qed

section \<open>The bytes of a site\<close>

definition ds_bytes :: "DefSite \<Rightarrow> Offset set" where
  "ds_bytes ds = {x. fst (getInterval ds) \<le> x \<and> x \<le> snd (getInterval ds)}"

definition ds_iv :: "DefSite \<Rightarrow> DiscreteInterval" where
  "ds_iv ds = \<lparr>istart = fst (getInterval ds), iend = snd (getInterval ds)\<rparr>"

text \<open>A site is proper when its interval does not end at the last offset before the unknown one.\<close>

definition ds_ok :: "DefSite \<Rightarrow> bool" where
  "ds_ok ds = (snd (getInterval ds) \<noteq> Offset (UNKNOWN - 1))"

lemma getInterval_le: "fst (getInterval ds) \<le> snd (getInterval ds)"
  using onat_bound [of "ds_offset ds"] by (auto simp: getInterval_def offset_arith)

lemma ds_iv_ok: "ds_ok ds \<Longrightarrow> iv_ok (ds_iv ds)"
proof -
  assume ok: "ds_ok ds"
  have "\<not> isUnknown (fst (getInterval ds))" by (simp add: getInterval_def isUnknown_def UNKNOWN_num)
  then show ?thesis using ok getInterval_le by (simp add: iv_ok_def ds_iv_def ds_ok_def)
qed

lemma ds_bytes_iv: "(x \<in> ds_bytes ds) = in_iv x (ds_iv ds)"
  by (simp add: ds_bytes_def in_iv_def ds_iv_def)

lemma ds_mk_interval: "mk_interval (fst (getInterval ds)) (snd (getInterval ds)) = Some (ds_iv ds)"
  by (simp add: getInterval_le ds_iv_def)

lemma ds_bytes_ne: "fst (getInterval ds) \<in> ds_bytes ds"
  by (simp add: ds_bytes_def getInterval_le)

text \<open>The site made of an interval has the bytes of the interval.\<close>

lemma site_of_interval:
  assumes "iv_ok I"
  shows "mk_defsite t (istart I) (iv_length I) = Some (DefSite t (istart I) (iv_length I))"
    and "ds_iv (DefSite t (istart I) (iv_length I)) = I" and "ds_ok (DefSite t (istart I) (iv_length I))"
proof -
  have I: "onat (istart I) \<le> onat (iend I)" "onat (istart I) \<noteq> 18446744073709551615" "onat (iend I) \<noteq> 18446744073709551614"
    using assms onat_last_known by (auto simp: iv_ok_def isUnknown_onat onat_le_iff onat_eq_iff)
  have len: "onat (iv_length I) = (if onat (iend I) = 18446744073709551615 then 18446744073709551615
      else onat (iend I) - onat (istart I) + 1)"
  proof (cases "onat (iend I) = 18446744073709551615")
    case False
    then have "onat (iend I) < 18446744073709551614" using I(3) onat_bound [of "iend I"] by linarith
    then show ?thesis using False I(1) by (simp add: iv_length_def onat_plus onat_minus)
  qed (simp add: iv_length_def onat_plus onat_minus)
  have "onat (offset_plus (istart I) (offset_minus (iv_length I) (Offset 1))) = onat (iend I)"
  proof (cases "onat (iend I) = 18446744073709551615")
    case False
    then have "onat (iend I) < 18446744073709551614" using I(3) onat_bound [of "iend I"] by linarith
    then show ?thesis using False I(1,2) by (simp add: onat_plus onat_minus len)
  qed (use I(2) in \<open>simp add: onat_plus onat_minus len\<close>)
  then have e: "offset_plus (istart I) (offset_minus (iv_length I) (Offset 1)) = iend I" by (simp add: onat_eq_iff)
  have "\<not> isUnknown (istart I)" using assms by (simp add: iv_ok_def)
  then have gi: "getInterval (DefSite t (istart I) (iv_length I)) = (istart I, iend I)" by (simp add: getInterval_def e)
  show "ds_iv (DefSite t (istart I) (iv_length I)) = I" by (simp add: ds_iv_def gi)
  show "ds_ok (DefSite t (istart I) (iv_length I))" using assms by (simp add: ds_ok_def gi iv_ok_def)
  have "isUnknown (iv_length I) \<or> off (istart I) + off (iv_length I) > 0"
  proof (cases "onat (iend I) = 18446744073709551615")
    case True
    then show ?thesis by (simp add: isUnknown_onat len)
  next
    case False
    then have "onat (iend I) < 18446744073709551614" using onat_bound [of "iend I"] I(3) by linarith
    then have "unat (off (istart I) + off (iv_length I)) = onat (iend I) + 1"
      using I len False by (simp add: unat_word_ariths)
    then show ?thesis by (metis add_is_0 one_neq_zero unat_0 word_gt_0)
  qed
  then show "mk_defsite t (istart I) (iv_length I) = Some (DefSite t (istart I) (iv_length I))" by (auto simp: mk_defsite_def)
qed

end
