(* ===== verification/Definitions_Map.thy ===== *)
theory Definitions_Map
  imports Def_Sites
begin

text \<open>
  Which node defines which memory: \<^verbatim>\<open>include/dg/MemorySSA/DefinitionsMap.h\<close>, a map from targets to maps of intervals, and
  \<^verbatim>\<open>Definitions.h\<close> with \<^verbatim>\<open>lib/MemorySSA/Definitions.cpp\<close>, the summary of the definitions of a block. The abstract value of a map is
  \<open>dm_at\<close>: the set of nodes stored for each byte of each target, if any. Node 0 is the unknown memory.
\<close>

section \<open>DefinitionsMap\<close>

type_synonym dmap = "(nat, nat dimap) smap"

definition dm_entry :: "dmap \<Rightarrow> nat \<Rightarrow> nat dimap" where
  "dm_entry m t = (case map_of m t of None \<Rightarrow> [] | Some im \<Rightarrow> im)"

definition dm_put :: "bool \<Rightarrow> DefSite \<Rightarrow> nat \<Rightarrow> dmap \<Rightarrow> (bool \<times> dmap) option" where
  "dm_put upd ds n m =
     Option.bind (mk_interval (fst (getInterval ds)) (snd (getInterval ds))) (\<lambda>I.
       map_option (\<lambda>(c, im). (c, smap_set (ds_target ds) im m)) (dim_add (dm_entry m (ds_target ds)) I n upd))"

definition dm_add :: "DefSite \<Rightarrow> nat \<Rightarrow> dmap \<Rightarrow> (bool \<times> dmap) option" where
  "dm_add ds n m = dm_put False ds n m"

definition dm_update :: "DefSite \<Rightarrow> nat \<Rightarrow> dmap \<Rightarrow> (bool \<times> dmap) option" where
  "dm_update ds n m = dm_put True ds n m"

fun dm_addAll :: "nat \<Rightarrow> dmap \<Rightarrow> bool \<times> dmap" where
  "dm_addAll n [] = (False, [])"
| "dm_addAll n ((t, im) # m) =
     (let (c, im') = dim_addAll im n; (c', m') = dm_addAll n m in (c \<or> c', (t, im') # m'))"

fun dm_add_nodes :: "DefSite \<Rightarrow> nat list \<Rightarrow> dmap \<Rightarrow> (bool \<times> dmap) option" where
  "dm_add_nodes ds [] m = Some (False, m)"
| "dm_add_nodes ds (n # ns) m =
     Option.bind (dm_add ds n m) (\<lambda>(c, m'). map_option (\<lambda>(c', m''). (c \<or> c', m'')) (dm_add_nodes ds ns m'))"

fun dm_update_nodes :: "DefSite \<Rightarrow> nat list \<Rightarrow> dmap \<Rightarrow> (bool \<times> dmap) option" where
  "dm_update_nodes ds [] m = Some (False, m)"
| "dm_update_nodes ds (n # ns) m =
     Option.bind (dm_update ds n m) (\<lambda>(c, m'). map_option (\<lambda>(c', m''). (c \<or> c', m'')) (dm_update_nodes ds ns m'))"

fun dm_add_sites :: "DefSite list \<Rightarrow> nat \<Rightarrow> dmap \<Rightarrow> (bool \<times> dmap) option" where
  "dm_add_sites [] n m = Some (False, m)"
| "dm_add_sites (ds # S) n m =
     Option.bind (dm_add ds n m) (\<lambda>(c, m'). map_option (\<lambda>(c', m''). (c \<or> c', m'')) (dm_add_sites S n m'))"

fun dm_add_elems :: "nat \<Rightarrow> nat dimap \<Rightarrow> dmap \<Rightarrow> (bool \<times> dmap) option" where
  "dm_add_elems t [] m = Some (False, m)"
| "dm_add_elems t ((I, vs) # es) m =
     Option.bind (dim_add_values (dm_entry m t) I (sorted_list_of_set vs) False) (\<lambda>(c, im).
       map_option (\<lambda>(c', m'). (c \<or> c', m')) (dm_add_elems t es (smap_set t im m)))"

fun dm_add_map :: "dmap \<Rightarrow> dmap \<Rightarrow> (bool \<times> dmap) option" where
  "dm_add_map [] m = Some (False, m)"
| "dm_add_map ((t, im) # rhs) m =
     Option.bind (dm_add_elems t im m) (\<lambda>(c, m'). map_option (\<lambda>(c', m''). (c \<or> c', m'')) (dm_add_map rhs m'))"

definition dm_get :: "DefSite \<Rightarrow> dmap \<Rightarrow> nat set option" where
  "dm_get ds m =
     (case map_of m (ds_target ds) of
        None \<Rightarrow> Some {}
      | Some im \<Rightarrow> Option.bind (mk_interval (fst (getInterval ds)) (snd (getInterval ds))) (gather im))"

definition undefinedIntervals :: "DefSite \<Rightarrow> dmap \<Rightarrow> DiscreteInterval list option" where
  "undefinedIntervals ds m =
     (case map_of m (ds_target ds) of
        None \<Rightarrow> map_option (\<lambda>I. [I])
          (mk_interval (ds_offset ds) (offset_plus (ds_offset ds) (offset_minus (ds_len ds) (Offset 1))))
      | Some im \<Rightarrow> Option.bind (mk_interval (fst (getInterval ds)) (snd (getInterval ds))) (Interval_Map.uncovered im))"

definition definesTarget :: "nat \<Rightarrow> dmap \<Rightarrow> bool" where
  "definesTarget t m = (map_of m t \<noteq> None)"

definition dm_filter :: "(nat \<Rightarrow> bool) \<Rightarrow> dmap \<Rightarrow> dmap" where
  "dm_filter filt m = fold (\<lambda>(t, im) tmp. if filt t then smap_emplace t im tmp else tmp) m []"

fun dm_meet :: "dmap \<Rightarrow> dmap \<Rightarrow> dmap \<Rightarrow> dmap option" where
  "dm_meet [] rhs ret = Some ret"
| "dm_meet ((t, im) # m) rhs ret =
     (case map_of rhs t of
        None \<Rightarrow> dm_meet m rhs ret
      | Some im' \<Rightarrow> Option.bind (dim_intersection im im') (\<lambda>K. Option.bind (dm_add_elems t K ret) (\<lambda>(_, ret'). dm_meet m rhs ret')))"

definition dm_intersect :: "dmap \<Rightarrow> dmap \<Rightarrow> dmap option" where
  "dm_intersect m rhs = dm_meet m rhs []"

definition dm_values :: "dmap \<Rightarrow> nat set" where
  "dm_values m = (\<Union>(t, im) \<in> set m. \<Union>(I, vs) \<in> set im. vs)"

section \<open>Definitions\<close>

record Definitions =
  d_processed :: bool
  d_definitions :: dmap
  d_kills :: dmap
  d_unknownWrites :: "nat list"
  d_unknownReads :: "nat list"

definition no_definitions :: Definitions where
  "no_definitions = \<lparr>d_processed = False, d_definitions = [], d_kills = [], d_unknownWrites = [], d_unknownReads = []\<rparr>"

definition addUnknownWrite :: "nat \<Rightarrow> Definitions \<Rightarrow> Definitions" where
  "addUnknownWrite n D = D\<lparr>d_unknownWrites := d_unknownWrites D @ [n]\<rparr>"

definition addUnknownRead :: "nat \<Rightarrow> Definitions \<Rightarrow> Definitions" where
  "addUnknownRead n D = D\<lparr>d_unknownReads := d_unknownReads D @ [n]\<rparr>"

definition d_get :: "DefSite \<Rightarrow> Definitions \<Rightarrow> nat set option" where
  "d_get ds D =
     map_option (\<lambda>retval. if retval = {} then set (d_unknownWrites D) else retval) (dm_get ds (d_definitions D))"

definition d_uncovered :: "DefSite \<Rightarrow> Definitions \<Rightarrow> DiscreteInterval list option" where
  "d_uncovered ds D = undefinedIntervals ds (d_kills D)"

definition setProcessed :: "Definitions \<Rightarrow> Definitions" where
  "setProcessed D = D\<lparr>d_processed := True\<rparr>"

text \<open>The processed flag stays with the object.\<close>

definition d_swap :: "Definitions \<Rightarrow> Definitions \<Rightarrow> Definitions \<times> Definitions" where
  "d_swap D E = (E\<lparr>d_processed := d_processed D\<rparr>, D\<lparr>d_processed := d_processed E\<rparr>)"

record annotations =
  an_defs :: "DefSite list"
  an_overwrites :: "DefSite list"
  an_uses :: "DefSite list"

fun update_defines :: "DefSite list \<Rightarrow> nat \<Rightarrow> Definitions \<Rightarrow> Definitions option" where
  "update_defines [] n D = Some D"
| "update_defines (ds # S) n D =
     (if ds_target ds = 0
      then update_defines S n (addUnknownWrite n (D\<lparr>d_definitions := snd (dm_addAll n (d_definitions D))\<rparr>))
      else Option.bind (dm_add ds n (d_definitions D)) (\<lambda>(_, m). update_defines S n (D\<lparr>d_definitions := m\<rparr>)))"

fun update_overwrites :: "DefSite list \<Rightarrow> bool \<Rightarrow> nat \<Rightarrow> Definitions \<Rightarrow> Definitions option" where
  "update_overwrites [] phi n D = Some D"
| "update_overwrites (ds # S) phi n D =
     (if \<not> phi \<and> isUnknown (ds_offset ds) \<or> ds_target ds = 0 then None
      else Option.bind (dm_add ds n (d_kills D)) (\<lambda>(_, k).
        Option.bind (dm_update ds n (d_definitions D)) (\<lambda>(_, m).
          update_overwrites S phi n (D\<lparr>d_definitions := m, d_kills := k\<rparr>))))"

definition uses_unknown :: "annotations \<Rightarrow> bool" where
  "uses_unknown A = (\<exists>ds \<in> set (an_uses A). ds_target ds = 0)"

text \<open>\<open>update\<close> with the annotations of the node, whether the defining node is a phi, and the defining node.\<close>

definition d_update :: "annotations \<Rightarrow> bool \<Rightarrow> nat \<Rightarrow> Definitions \<Rightarrow> Definitions option" where
  "d_update A phi n D =
     Option.bind (update_defines (an_defs A) n D) (\<lambda>D1.
       map_option (\<lambda>D2. if uses_unknown A then addUnknownRead n D2 else D2) (update_overwrites (an_overwrites A) phi n D1))"

definition d_join :: "Definitions \<Rightarrow> Definitions \<Rightarrow> Definitions option" where
  "d_join rhs D =
     Option.bind (dm_add_map (d_definitions rhs) (d_definitions D)) (\<lambda>(_, m).
       map_option (\<lambda>k. D\<lparr>d_definitions := m, d_kills := k,
           d_unknownWrites := d_unknownWrites D @ d_unknownWrites rhs,
           d_unknownReads := d_unknownReads D @ d_unknownReads rhs\<rparr>)
         (dm_intersect (d_kills D) (d_kills rhs)))"

section \<open>The abstract map\<close>

definition dm_wf :: "dmap \<Rightarrow> bool" where
  "dm_wf m = (smap_wf m \<and> (\<forall>(t, im) \<in> set m. dim_wf im \<and> im \<noteq> []))"

definition dm_at :: "dmap \<Rightarrow> nat \<Rightarrow> Offset \<Rightarrow> nat set option" where
  "dm_at m t x = dim_at (dm_entry m t) x"

definition dm_vals :: "dmap \<Rightarrow> nat \<Rightarrow> Offset \<Rightarrow> nat set" where
  "dm_vals m t x = values_at (dm_entry m t) x"

lemma dm_vals_at: "dm_vals m t x = (case dm_at m t x of None \<Rightarrow> {} | Some vs \<Rightarrow> vs)"
  by (simp add: dm_vals_def dm_at_def values_at_def)

lemma dm_empty [simp]: "dm_wf []" "dm_at [] t x = None" "dm_vals [] t x = {}"
  by (simp_all add: dm_wf_def dm_at_def dm_vals_def dm_entry_def values_at_def)

lemma dm_entry_wf: "dm_wf m \<Longrightarrow> dim_wf (dm_entry m t)"
  by (auto simp: dm_wf_def dm_entry_def split: option.splits dest!: map_of_SomeD)

lemma dm_entry_ne: "dm_wf m \<Longrightarrow> map_of m t = Some im \<Longrightarrow> im \<noteq> []"
  by (auto simp: dm_wf_def dest!: map_of_SomeD)

lemma dim_add_ne: "dim_add m I v upd = Some (c, m') \<Longrightarrow> dim_wf m \<Longrightarrow> iv_ok I \<Longrightarrow> m' \<noteq> []"
proof
  assume a: "dim_add m I v upd = Some (c, m')" "dim_wf m" "iv_ok I" "m' = []"
  then have "None = added_at (istart I) (iend I) upd v m (istart I)" using dim_add_ok [of m I v upd] by force
  then show False using a(3) by (simp add: added_at_def iv_ok_def)
qed

lemma dm_put_ok:
  assumes "dm_wf m" and "ds_ok ds"
  shows "\<exists>c m'. dm_put upd ds n m = Some (c, m') \<and> dm_wf m' \<and>
     (\<forall>t x. dm_at m' t x = (if t = ds_target ds \<and> x \<in> ds_bytes ds
        then Some (if upd then {n} else insert n (dm_vals m t x)) else dm_at m t x))"
proof -
  let ?e = "dm_entry m (ds_target ds)"
  obtain c im where im: "dim_add ?e (ds_iv ds) n upd = Some (c, im)" "dim_wf im"
    "\<forall>x. dim_at im x = added_at (istart (ds_iv ds)) (iend (ds_iv ds)) upd n ?e x"
    using dim_add_ok [OF dm_entry_wf [OF assms(1)] ds_iv_ok [OF assms(2)], of "ds_target ds" n upd] by auto
  have "im \<noteq> []" by (rule dim_add_ne [OF im(1) dm_entry_wf [OF assms(1)] ds_iv_ok [OF assms(2)]])
  then have "dm_wf (smap_set (ds_target ds) im m)"
    using assms(1) im(2) by (auto simp: dm_wf_def set_smap_set)
  moreover have "dm_at (smap_set (ds_target ds) im m) t x = (if t = ds_target ds \<and> x \<in> ds_bytes ds
        then Some (if upd then {n} else insert n (dm_vals m t x)) else dm_at m t x)" for t x
    by (simp add: dm_at_def dm_entry_def im(3)) (simp add: added_at_def ds_bytes_iv in_iv_def upd_values_def dm_vals_def dm_entry_def)
  ultimately show ?thesis using im(1) by (auto simp: dm_put_def ds_mk_interval)
qed

lemma dm_add_ok:
  assumes "dm_wf m" and "ds_ok ds"
  obtains c m' where "dm_add ds n m = Some (c, m')" and "dm_wf m'"
    and "\<And>t x. dm_at m' t x = (if t = ds_target ds \<and> x \<in> ds_bytes ds then Some (insert n (dm_vals m t x)) else dm_at m t x)"
  using dm_put_ok [OF assms, of False n] that by (auto simp: dm_add_def)

lemma dm_update_ok:
  assumes "dm_wf m" and "ds_ok ds"
  obtains c m' where "dm_update ds n m = Some (c, m')" and "dm_wf m'"
    and "\<And>t x. dm_at m' t x = (if t = ds_target ds \<and> x \<in> ds_bytes ds then Some {n} else dm_at m t x)"
  using dm_put_ok [OF assms, of True n] that by (auto simp: dm_update_def)

lemma dm_get_ok:
  assumes "dm_wf m"
  shows "dm_get ds m = Some (\<Union>x \<in> ds_bytes ds. dm_vals m (ds_target ds) x)"
proof (cases "map_of m (ds_target ds)")
  case None
  then show ?thesis by (simp add: dm_get_def dm_vals_def dm_entry_def values_at_def)
next
  case (Some im)
  then have e: "dm_entry m (ds_target ds) = im" by (simp add: dm_entry_def)
  have "gather im (ds_iv ds) = Some (\<Union>x \<in> {x. in_iv x (ds_iv ds)}. values_at im x)"
    using dm_entry_wf [OF assms] dm_entry_ne [OF assms Some] e getInterval_le
    by (intro gather_ok) (auto simp: ds_iv_def)
  then show ?thesis using Some by (simp add: dm_get_def ds_mk_interval dm_vals_def e ds_bytes_iv [symmetric])
qed

text \<open>The sites made of the undefined intervals.\<close>

definition sites_of :: "nat \<Rightarrow> DiscreteInterval list \<Rightarrow> DefSite list" where
  "sites_of t Is = map (\<lambda>I. DefSite t (istart I) (iv_length I)) Is"

definition holes :: "dmap \<Rightarrow> DefSite \<Rightarrow> DiscreteInterval list \<Rightarrow> bool" where
  "holes m ds Is =
     ((\<forall>I \<in> set Is. mk_defsite (ds_target ds) (istart I) (iv_length I) = Some (DefSite (ds_target ds) (istart I) (iv_length I))) \<and>
      (\<forall>u \<in> set (sites_of (ds_target ds) Is). ds_ok u \<and> (\<forall>x \<in> ds_bytes u. dm_at m (ds_target ds) x = None)) \<and>
      (\<forall>x \<in> ds_bytes ds. dm_at m (ds_target ds) x = None \<longrightarrow> (\<exists>u \<in> set (sites_of (ds_target ds) Is). x \<in> ds_bytes u)) \<and>
      sorted_wrt (\<lambda>u v. ds_bytes u \<inter> ds_bytes v = {}) (sites_of (ds_target ds) Is))"

lemma sites_target: "u \<in> set (sites_of t Is) \<Longrightarrow> ds_target u = t"
  by (auto simp: sites_of_def)

lemma ivs_sites:
  assumes "ivs_ok Is"
  shows "\<forall>I \<in> set Is. mk_defsite t (istart I) (iv_length I) = Some (DefSite t (istart I) (iv_length I))"
    and "map ds_iv (sites_of t Is) = Is" and "\<forall>u \<in> set (sites_of t Is). ds_ok u"
    and "sorted_wrt (\<lambda>u v. ds_bytes u \<inter> ds_bytes v = {}) (sites_of t Is)"
proof -
  have ok: "\<forall>I \<in> set Is. iv_ok I" using assms by (simp add: ivs_ok_def)
  show "\<forall>I \<in> set Is. mk_defsite t (istart I) (iv_length I) = Some (DefSite t (istart I) (iv_length I))"
    using ok site_of_interval(1) by blast
  show m: "map ds_iv (sites_of t Is) = Is" using ok site_of_interval(2) by (simp add: sites_of_def map_idI)
  show "\<forall>u \<in> set (sites_of t Is). ds_ok u" using ok site_of_interval(3) by (auto simp: sites_of_def)
  have "sorted_wrt (\<lambda>a b. iend a < istart b) (map ds_iv (sites_of t Is))" using assms by (simp add: m ivs_ok_def)
  then have "sorted_wrt (\<lambda>u v. iend (ds_iv u) < istart (ds_iv v)) (sites_of t Is)" by (simp add: sorted_wrt_map)
  then show "sorted_wrt (\<lambda>u v. ds_bytes u \<inter> ds_bytes v = {}) (sites_of t Is)"
    by (rule sorted_wrt_mono_rel [rotated]) (auto simp: ds_bytes_iv in_iv_def)
qed

lemma undefinedIntervals_ok:
  assumes "dm_wf m" and "ds_ok ds"
  obtains Is where "undefinedIntervals ds m = Some Is" and "holes m ds Is"
proof (cases "map_of m (ds_target ds)")
  case None
  let ?t = "ds_target ds"
  have no: "dm_at m ?t x = None" for x using None by (simp add: dm_at_def dm_entry_def)
  show ?thesis
  proof (cases "isUnknown (ds_offset ds)")
    case True
    let ?I = "\<lparr>istart = ds_offset ds, iend = offset_plus (ds_offset ds) (offset_minus (ds_len ds) (Offset 1))\<rparr>"
    have "ds_offset ds \<le> offset_plus (ds_offset ds) (offset_minus (ds_len ds) (Offset 1))"
      using True by (simp add: onat_le_iff onat_plus isUnknown_onat)
    then have u: "undefinedIntervals ds m = Some [?I]" by (simp add: undefinedIntervals_def None)
    have g: "getInterval (DefSite ?t (ds_offset ds) (iv_length ?I)) = (Offset 0, getUnknown)"
      using True by (simp add: getInterval_def)
    have "x \<in> ds_bytes (DefSite ?t (ds_offset ds) (iv_length ?I))" for x
      using onat_bound [of x] by (simp add: ds_bytes_def g onat_le_iff)
    moreover have "ds_ok (DefSite ?t (ds_offset ds) (iv_length ?I))" by (simp add: ds_ok_def g getUnknown_def UNKNOWN_num)
    ultimately have "holes m ds [?I]" using True no by (simp add: holes_def sites_of_def mk_defsite_def)
    then show ?thesis using u that by blast
  next
    case False
    then have g: "(ds_offset ds, offset_plus (ds_offset ds) (offset_minus (ds_len ds) (Offset 1))) = getInterval ds"
      by (simp add: getInterval_def)
    have u: "undefinedIntervals ds m = Some [ds_iv ds]"
      using ds_mk_interval [of ds] by (simp add: undefinedIntervals_def None g [symmetric])
    have "ivs_ok [ds_iv ds]" using ds_iv_ok [OF assms(2)] by (simp add: ivs_ok_def)
    note S = ivs_sites [OF this, of ?t]
    obtain s where s: "sites_of ?t [ds_iv ds] = [s]" "ds_iv s = ds_iv ds" using S(2) by (auto simp: sites_of_def)
    then have "ds_bytes s = ds_bytes ds" by (auto simp: ds_bytes_iv)
    then have "holes m ds [ds_iv ds]" using S no s(1) by (simp add: holes_def)
    then show ?thesis using u that by blast
  qed
next
  case (Some im)
  let ?t = "ds_target ds"
  have e: "dm_entry m ?t = im" using Some by (simp add: dm_entry_def)
  have wf: "dim_wf im" using dm_entry_wf [OF assms(1), of ?t] e by simp
  obtain gs where gs: "Interval_Map.uncovered im (ds_iv ds) = Some gs"
    "\<And>x. (\<exists>g \<in> set gs. in_iv x g) \<Longrightarrow> dim_at im x = None"
    "\<And>x. in_iv x (ds_iv ds) \<Longrightarrow> dim_at im x = None \<Longrightarrow> (\<exists>g \<in> set gs. in_iv x g)"
    using uncovered_ok [OF wf ds_iv_ok [OF assms(2)]] by blast
  have u: "undefinedIntervals ds m = Some gs" using gs(1) by (simp add: undefinedIntervals_def Some ds_mk_interval)
  note S = ivs_sites [OF uncovered_ivs [OF wf ds_iv_ok [OF assms(2)] gs(1), THEN conjunct1], of ?t]
  have mem: "(\<exists>u \<in> set (sites_of ?t gs). x \<in> ds_bytes u) = (\<exists>g \<in> set gs. in_iv x g)" for x
  proof -
    have "(\<exists>g \<in> set gs. in_iv x g) = (\<exists>g \<in> set (map ds_iv (sites_of ?t gs)). in_iv x g)" using S(2) by simp
    then show ?thesis by (simp add: ds_bytes_iv)
  qed
  then have "dim_at im x = None" if "u \<in> set (sites_of ?t gs)" "x \<in> ds_bytes u" for u x using that gs(2) by blast
  moreover have "\<exists>u \<in> set (sites_of ?t gs). x \<in> ds_bytes u" if "x \<in> ds_bytes ds" "dim_at im x = None" for x
    using that gs(3) mem by (simp add: ds_bytes_iv)
  ultimately have "holes m ds gs" using S(1,3,4) by (simp add: holes_def dm_at_def e)
  then show ?thesis using u that by blast
qed


text \<open>When all or no bytes of the site are mapped, the undefined intervals are none or the site itself.\<close>

lemma undefinedIntervals_cell:
  assumes "dm_wf m" and "ds_ok ds"
    and "(\<forall>x \<in> ds_bytes ds. dm_at m (ds_target ds) x = None) \<or> (\<forall>x \<in> ds_bytes ds. dm_at m (ds_target ds) x \<noteq> None)"
  obtains Is where "undefinedIntervals ds m = Some Is" and "holes m ds Is"
    and "\<And>u. u \<in> set (sites_of (ds_target ds) Is) \<Longrightarrow> ds_bytes u = ds_bytes ds"
proof -
  obtain Is where Is: "undefinedIntervals ds m = Some Is" "holes m ds Is" using undefinedIntervals_ok [OF assms(1,2)] .
  have "ds_bytes u = ds_bytes ds" if u: "u \<in> set (sites_of (ds_target ds) Is)" for u
  proof (cases "map_of m (ds_target ds)")
    case None
    then have I: "Is = [\<lparr>istart = ds_offset ds, iend = offset_plus (ds_offset ds) (offset_minus (ds_len ds) (Offset 1))\<rparr>]"
      using Is(1) by (auto simp: undefinedIntervals_def mk_interval_def split: if_splits)
    show ?thesis
    proof (cases "isUnknown (ds_offset ds)")
      case True
      then show ?thesis using u by (auto simp: I sites_of_def ds_bytes_def getInterval_def)
    next
      case False
      then have "Is = [ds_iv ds]" by (simp add: I ds_iv_def getInterval_def)
      then show ?thesis using u site_of_interval(2) [OF ds_iv_ok [OF assms(2)]] by (auto simp: sites_of_def ds_bytes_iv)
    qed
  next
    case (Some im)
    let ?t = "ds_target ds"
    have e: "dm_entry m ?t = im" using Some by (simp add: dm_entry_def)
    have wf: "dim_wf im" using dm_entry_wf [OF assms(1), of ?t] e by simp
    note ok = ds_iv_ok [OF assms(2)]
    have U: "Interval_Map.uncovered im (ds_iv ds) = Some Is" using Is(1) by (simp add: undefinedIntervals_def Some ds_mk_interval)
    have "(\<forall>x. in_iv x (ds_iv ds) \<longrightarrow> dim_at im x = None) \<or> (\<forall>x. in_iv x (ds_iv ds) \<longrightarrow> dim_at im x \<noteq> None)"
      using assms(3) unfolding ds_bytes_iv [symmetric] dm_at_def e by blast
    then have "Is = [ds_iv ds] \<or> Is = []" using uncovered_none [OF wf ok] uncovered_all [OF wf ok] U by auto
    then show ?thesis using u site_of_interval(2) [OF ok] by (auto simp: sites_of_def ds_bytes_iv)
  qed
  then show ?thesis using Is that by blast
qed

section \<open>The effect of an update\<close>

definition defs_ok :: "Definitions \<Rightarrow> bool" where
  "defs_ok D = (dm_wf (d_definitions D) \<and> dm_wf (d_kills D))"

definition sites_at :: "DefSite list \<Rightarrow> nat \<Rightarrow> Offset \<Rightarrow> bool" where
  "sites_at S t x = (\<exists>ds \<in> set S. ds_target ds = t \<and> x \<in> ds_bytes ds)"

lemma sites_at_simps [simp]:
  "sites_at [] t x = False" "sites_at (ds # S) t x = (ds_target ds = t \<and> x \<in> ds_bytes ds \<or> sites_at S t x)"
  by (auto simp: sites_at_def)

lemma update_defines_ok:
  assumes "defs_ok D" and "\<forall>ds \<in> set S. ds_ok ds \<and> ds_target ds \<noteq> 0"
  shows "\<exists>m. update_defines S n D = Some (D\<lparr>d_definitions := m\<rparr>) \<and> dm_wf m \<and>
    (\<forall>t x. dm_vals m t x = (if sites_at S t x then insert n (dm_vals (d_definitions D) t x) else dm_vals (d_definitions D) t x))"
  using assms
proof (induction S arbitrary: D)
  case Nil
  then show ?case by (intro exI [of _ "d_definitions D"]) (simp add: defs_ok_def)
next
  case (Cons ds S)
  have wf: "dm_wf (d_definitions D)" and ds: "ds_ok ds" "ds_target ds \<noteq> 0" using Cons.prems by (simp_all add: defs_ok_def)
  obtain c m1 where m1: "dm_add ds n (d_definitions D) = Some (c, m1)" "dm_wf m1"
    "\<And>t x. dm_at m1 t x = (if t = ds_target ds \<and> x \<in> ds_bytes ds then Some (insert n (dm_vals (d_definitions D) t x)) else dm_at (d_definitions D) t x)"
    using dm_add_ok [OF wf ds(1)] by metis
  have v1: "dm_vals m1 t x = (if t = ds_target ds \<and> x \<in> ds_bytes ds then insert n (dm_vals (d_definitions D) t x) else dm_vals (d_definitions D) t x)" for t x
    by (simp add: dm_vals_at m1(3))
  have ok1: "defs_ok (D\<lparr>d_definitions := m1\<rparr>)" using m1(2) Cons.prems(1) by (simp add: defs_ok_def)
  obtain m where m: "update_defines S n (D\<lparr>d_definitions := m1\<rparr>) = Some (D\<lparr>d_definitions := m\<rparr>)" "dm_wf m"
    "\<forall>t x. dm_vals m t x = (if sites_at S t x then insert n (dm_vals m1 t x) else dm_vals m1 t x)"
    using Cons.IH [OF ok1] Cons.prems(2) by auto
  show ?case
  proof (intro exI [of _ m] conjI allI)
    show "update_defines (ds # S) n D = Some (D\<lparr>d_definitions := m\<rparr>)" using m(1) m1(1) ds(2) by simp
    show "dm_vals m t x = (if sites_at (ds # S) t x then insert n (dm_vals (d_definitions D) t x) else dm_vals (d_definitions D) t x)" for t x
      by (auto simp: m(3) v1)
  qed (rule m(2))
qed

lemma update_overwrites_ok:
  assumes "defs_ok D" and "\<forall>ds \<in> set S. ds_ok ds \<and> ds_target ds \<noteq> 0 \<and> (phi \<or> \<not> isUnknown (ds_offset ds))"
  shows "\<exists>m k. update_overwrites S phi n D = Some (D\<lparr>d_definitions := m, d_kills := k\<rparr>) \<and> dm_wf m \<and> dm_wf k \<and>
    (\<forall>t x. dm_vals m t x = (if sites_at S t x then {n} else dm_vals (d_definitions D) t x)) \<and>
    (\<forall>t x. (dm_at k t x = None) = (dm_at (d_kills D) t x = None \<and> \<not> sites_at S t x))"
  using assms
proof (induction S arbitrary: D)
  case Nil
  then show ?case by (intro exI [of _ "d_definitions D"] exI [of _ "d_kills D"]) (simp add: defs_ok_def)
next
  case (Cons ds S)
  have wf: "dm_wf (d_definitions D)" "dm_wf (d_kills D)" and ds: "ds_ok ds" "ds_target ds \<noteq> 0" "phi \<or> \<not> isUnknown (ds_offset ds)"
    using Cons.prems by (simp_all add: defs_ok_def)
  obtain c k1 where k1: "dm_add ds n (d_kills D) = Some (c, k1)" "dm_wf k1"
    "\<And>t x. dm_at k1 t x = (if t = ds_target ds \<and> x \<in> ds_bytes ds then Some (insert n (dm_vals (d_kills D) t x)) else dm_at (d_kills D) t x)"
    using dm_add_ok [OF wf(2) ds(1)] by metis
  obtain c' m1 where m1: "dm_update ds n (d_definitions D) = Some (c', m1)" "dm_wf m1"
    "\<And>t x. dm_at m1 t x = (if t = ds_target ds \<and> x \<in> ds_bytes ds then Some {n} else dm_at (d_definitions D) t x)"
    using dm_update_ok [OF wf(1) ds(1)] by metis
  have v1: "dm_vals m1 t x = (if t = ds_target ds \<and> x \<in> ds_bytes ds then {n} else dm_vals (d_definitions D) t x)" for t x
    by (simp add: dm_vals_at m1(3))
  have ok1: "defs_ok (D\<lparr>d_definitions := m1, d_kills := k1\<rparr>)" using m1(2) k1(2) by (simp add: defs_ok_def)
  obtain m k where m: "update_overwrites S phi n (D\<lparr>d_definitions := m1, d_kills := k1\<rparr>) = Some (D\<lparr>d_definitions := m, d_kills := k\<rparr>)"
    "dm_wf m" "dm_wf k" "\<forall>t x. dm_vals m t x = (if sites_at S t x then {n} else dm_vals m1 t x)"
    "\<forall>t x. (dm_at k t x = None) = (dm_at k1 t x = None \<and> \<not> sites_at S t x)"
    using Cons.IH [OF ok1] Cons.prems(2) by auto
  show ?case
  proof (rule exI [of _ m], rule exI [of _ k], intro conjI allI)
    show "update_overwrites (ds # S) phi n D = Some (D\<lparr>d_definitions := m, d_kills := k\<rparr>)"
      using m(1) m1(1) k1(1) ds(2,3) by auto
    show "dm_vals m t x = (if sites_at (ds # S) t x then {n} else dm_vals (d_definitions D) t x)" for t x
      by (auto simp: m(4) v1)
    show "(dm_at k t x = None) = (dm_at (d_kills D) t x = None \<and> \<not> sites_at (ds # S) t x)" for t x
      by (auto simp: m(5) k1(3))
  qed (use m in auto)
qed

definition annot_ok :: "bool \<Rightarrow> annotations \<Rightarrow> bool" where
  "annot_ok phi A =
     ((\<forall>ds \<in> set (an_defs A). ds_ok ds \<and> ds_target ds \<noteq> 0) \<and>
      (\<forall>ds \<in> set (an_overwrites A). ds_ok ds \<and> ds_target ds \<noteq> 0 \<and> (phi \<or> \<not> isUnknown (ds_offset ds))))"

text \<open>An update adds the node to the bytes it may define and makes it the only definition of the bytes it overwrites.\<close>

lemma d_update_ok:
  assumes "defs_ok D" and "annot_ok phi A"
  obtains D' where "d_update A phi n D = Some D'" and "defs_ok D'" and "d_processed D' = d_processed D"
    and "d_unknownWrites D' = d_unknownWrites D"
    and "\<And>t x. dm_vals (d_definitions D') t x = (if sites_at (an_overwrites A) t x then {n}
       else if sites_at (an_defs A) t x then insert n (dm_vals (d_definitions D) t x) else dm_vals (d_definitions D) t x)"
    and "\<And>t x. (dm_at (d_kills D') t x = None) = (dm_at (d_kills D) t x = None \<and> \<not> sites_at (an_overwrites A) t x)"
proof -
  obtain m where m: "update_defines (an_defs A) n D = Some (D\<lparr>d_definitions := m\<rparr>)" "dm_wf m"
    "\<And>t x. dm_vals m t x = (if sites_at (an_defs A) t x then insert n (dm_vals (d_definitions D) t x) else dm_vals (d_definitions D) t x)"
    using update_defines_ok [OF assms(1), of "an_defs A" n] assms(2) unfolding annot_ok_def by auto
  have ok1: "defs_ok (D\<lparr>d_definitions := m\<rparr>)" using m(2) assms(1) by (simp add: defs_ok_def)
  obtain m' k where o: "update_overwrites (an_overwrites A) phi n (D\<lparr>d_definitions := m\<rparr>) = Some (D\<lparr>d_definitions := m', d_kills := k\<rparr>)"
    "dm_wf m'" "dm_wf k" "\<And>t x. dm_vals m' t x = (if sites_at (an_overwrites A) t x then {n} else dm_vals m t x)"
    "\<And>t x. (dm_at k t x = None) = (dm_at (d_kills D) t x = None \<and> \<not> sites_at (an_overwrites A) t x)"
    using update_overwrites_ok [OF ok1, of "an_overwrites A" phi n] assms(2) unfolding annot_ok_def by auto
  show ?thesis
    by (rule that [of "if uses_unknown A then addUnknownRead n (D\<lparr>d_definitions := m', d_kills := k\<rparr>) else D\<lparr>d_definitions := m', d_kills := k\<rparr>"])
      (simp_all add: d_update_def m(1) o(1) defs_ok_def o(2-5) addUnknownRead_def m(3))
qed

end
