(* ===== verification/RW_Graph.thy ===== *)
theory RW_Graph
  imports Definitions_Map Sub_Graph
begin

text \<open>
  Read-write graphs, \<^verbatim>\<open>include/dg/ReadWriteGraph\<close> with \<^verbatim>\<open>lib/ReadWriteGraph/ReadWriteGraph.cpp\<close> and the blocks of
  \<^verbatim>\<open>include/dg/BBlockBase.h\<close>: nodes say what memory they define, overwrite and use, blocks are lists of nodes with edges, and
  subgraphs, one per function, own blocks and know their callers. Nodes, blocks and subgraphs are numbers; node 0 is the unknown
  memory. The edges, operands and users that every node has (\<open>SubgraphNode\<close>) are an \<open>sgraph\<close>.
\<close>

section \<open>Nodes\<close>

datatype RWNodeType =
    RW_NONE | RW_ALLOC | RW_DYN_ALLOC | RW_GLOBAL | RW_STORE | RW_LOAD | RW_PHI | RW_INARG | RW_OUTARG | RW_CALLIN
  | RW_CALLOUT | RW_MU | RW_RETURN | RW_CALL | RW_FORK | RW_JOIN | RW_GENERIC | RW_NOOP

datatype RWCalledValue = CalledSubgraph nat | CalledValue nat

record rwnode =
  rw_type :: RWNodeType
  rw_addressTaken :: bool
  rw_bblock :: "nat option"
  rw_defuse :: "nat list"
  rw_init :: bool
  rw_annotations :: annotations
  rw_callees :: "RWCalledValue list"
  rw_inputs :: "nat list"
  rw_outputs :: "nat list"
  rw_unknownInput :: "nat option"

record rwblock =
  rb_nodes :: "nat list"
  rb_succ :: "nat list"
  rb_pred :: "nat list"
  rb_subgraph :: nat

record rwsubgraph =
  rs_bblocks :: "nat list"
  rs_callers :: "nat list"

record rwgraph =
  rwg_nodes :: "nat \<Rightarrow> rwnode"
  rwg_last :: nat
  rwg_edges :: sgraph
  rwg_blocks :: "nat \<Rightarrow> rwblock"
  rwg_nblocks :: nat
  rwg_subs :: "nat \<Rightarrow> rwsubgraph"
  rwg_nsubs :: nat

definition no_annotations :: annotations where
  "no_annotations = \<lparr>an_defs = [], an_overwrites = [], an_uses = []\<rparr>"

definition RWNode :: "RWNodeType \<Rightarrow> rwnode" where
  "RWNode t = \<lparr>rw_type = t, rw_addressTaken = False, rw_bblock = None, rw_defuse = [], rw_init = False,
     rw_annotations = no_annotations, rw_callees = [], rw_inputs = [], rw_outputs = [], rw_unknownInput = None\<rparr>"

definition RWBBlock :: "nat \<Rightarrow> rwblock" where
  "RWBBlock k = \<lparr>rb_nodes = [], rb_succ = [], rb_pred = [], rb_subgraph = k\<rparr>"

definition upd_rw :: "nat \<Rightarrow> (rwnode \<Rightarrow> rwnode) \<Rightarrow> rwgraph \<Rightarrow> rwgraph" where
  "upd_rw n f G = G\<lparr>rwg_nodes := (rwg_nodes G)(n := f (rwg_nodes G n))\<rparr>"

definition upd_rb :: "nat \<Rightarrow> (rwblock \<Rightarrow> rwblock) \<Rightarrow> rwgraph \<Rightarrow> rwgraph" where
  "upd_rb b f G = G\<lparr>rwg_blocks := (rwg_blocks G)(b := f (rwg_blocks G b))\<rparr>"

abbreviation rw_t :: "rwgraph \<Rightarrow> nat \<Rightarrow> RWNodeType" where
  "rw_t G n \<equiv> rw_type (rwg_nodes G n)"

definition isInOut :: "rwgraph \<Rightarrow> nat \<Rightarrow> bool" where
  "isInOut G n = (rw_t G n = RW_INARG \<or> rw_t G n = RW_OUTARG \<or> rw_t G n = RW_CALLIN \<or> rw_t G n = RW_CALLOUT)"

definition isPhi :: "rwgraph \<Rightarrow> nat \<Rightarrow> bool" where
  "isPhi G n = (rw_t G n = RW_PHI \<or> isInOut G n)"

definition isDynAlloc :: "rwgraph \<Rightarrow> nat \<Rightarrow> bool" where
  "isDynAlloc G n =
     (rw_t G n = RW_DYN_ALLOC \<or>
      rw_t G n = RW_CALL \<and> (\<exists>cv \<in> set (rw_callees (rwg_nodes G n)).
        case cv of CalledValue v \<Rightarrow> rw_t G v = RW_DYN_ALLOC | CalledSubgraph _ \<Rightarrow> False))"

definition canEscape :: "rwgraph \<Rightarrow> nat \<Rightarrow> bool" where
  "canEscape G n = (isDynAlloc G n \<or> rw_t G n = RW_GLOBAL \<or> rw_addressTaken (rwg_nodes G n))"

definition defuse_add :: "nat \<Rightarrow> nat \<Rightarrow> rwgraph \<Rightarrow> rwgraph" where
  "defuse_add n d G = upd_rw n (\<lambda>N. N\<lparr>rw_init := True,
     rw_defuse := (if d \<in> set (rw_defuse N) then rw_defuse N else rw_defuse N @ [d])\<rparr>) G"

definition addDefUse :: "nat \<Rightarrow> nat list \<Rightarrow> rwgraph \<Rightarrow> rwgraph" where
  "addDefUse n ds G = fold (defuse_add n) ds (upd_rw n (\<lambda>N. N\<lparr>rw_init := True\<rparr>) G)"

section \<open>What calls define and use\<close>

definition undefined_callees :: "rwgraph \<Rightarrow> nat \<Rightarrow> nat list" where
  "undefined_callees G n =
     concat (map (\<lambda>cv. case cv of CalledValue v \<Rightarrow> [v] | CalledSubgraph _ \<Rightarrow> []) (rw_callees (rwg_nodes G n)))"

definition getSingleUndefined :: "rwgraph \<Rightarrow> nat \<Rightarrow> nat option" where
  "getSingleUndefined G n = (case rw_callees (rwg_nodes G n) of [CalledValue v] \<Rightarrow> Some v | _ \<Rightarrow> None)"

definition callsOneUndefined :: "rwgraph \<Rightarrow> nat \<Rightarrow> bool" where
  "callsOneUndefined G n = (getSingleUndefined G n \<noteq> None)"

definition callsDefined :: "rwgraph \<Rightarrow> nat \<Rightarrow> bool" where
  "callsDefined G n =
     (\<exists>cv \<in> set (rw_callees (rwg_nodes G n)). case cv of CalledSubgraph _ \<Rightarrow> True | CalledValue _ \<Rightarrow> False)"

definition callsUndefined :: "rwgraph \<Rightarrow> nat \<Rightarrow> bool" where
  "callsUndefined G n =
     (\<exists>cv \<in> set (rw_callees (rwg_nodes G n)). case cv of CalledSubgraph _ \<Rightarrow> False | CalledValue _ \<Rightarrow> True)"

text \<open>The summary is computed once and kept by the code; the annotations it is computed from do not change afterwards.\<close>

definition summarizeAnnotation :: "rwgraph \<Rightarrow> nat \<Rightarrow> annotations option" where
  "summarizeAnnotation G n =
     (let an = (\<lambda>v. rw_annotations (rwg_nodes G v)); us = undefined_callees G n in
      if length (rw_callees (rwg_nodes G n)) > 1 then
        (case us of
           [] \<Rightarrow> Some (an n)
         | [u] \<Rightarrow> Some (an u)
         | u # v # vs \<Rightarrow>
             Option.bind (ds_intersect (an_overwrites (an u)) (an_overwrites (an v))) (\<lambda>k.
             map_option (\<lambda>kills. \<lparr>an_defs = fold (\<lambda>u S. ds_union S (an_defs (an u))) us (an_defs (an n)),
                 an_overwrites = kills, an_uses = fold (\<lambda>u S. ds_union S (an_uses (an u))) us (an_uses (an n))\<rparr>)
               (fold (\<lambda>v k. Option.bind k (\<lambda>S. ds_intersect S (an_overwrites (an v)))) vs (Some k))))
      else Some (an n))"

definition getAnnotations :: "rwgraph \<Rightarrow> nat \<Rightarrow> annotations option" where
  "getAnnotations G n =
     (if rw_t G n = RW_CALL then
        (case getSingleUndefined G n of
           Some u \<Rightarrow> Some (rw_annotations (rwg_nodes G u))
         | None \<Rightarrow> summarizeAnnotation G n)
      else Some (rw_annotations (rwg_nodes G n)))"

definition rw_defines :: "annotations \<Rightarrow> nat \<Rightarrow> Offset \<Rightarrow> bool" where
  "rw_defines A target f =
     (\<exists>ds \<in> set (an_defs A) \<union> set (an_overwrites A). ds_target ds = target \<and>
        (isUnknown f \<or> inRange f (off (ds_offset ds)) (off (ds_offset ds) + off (ds_len ds))))"

definition addUse :: "nat \<Rightarrow> DefSite \<Rightarrow> rwgraph \<Rightarrow> rwgraph" where
  "addUse n ds = upd_rw n (\<lambda>N. N\<lparr>rw_annotations := (rw_annotations N)\<lparr>an_uses := sset_insert ds (an_uses (rw_annotations N))\<rparr>\<rparr>)"

definition addOverwrites :: "nat \<Rightarrow> DefSite \<Rightarrow> rwgraph \<Rightarrow> rwgraph" where
  "addOverwrites n ds =
     upd_rw n (\<lambda>N. N\<lparr>rw_annotations := (rw_annotations N)\<lparr>an_overwrites := sset_insert ds (an_overwrites (rw_annotations N))\<rparr>\<rparr>)"

definition addDef :: "nat \<Rightarrow> DefSite \<Rightarrow> bool \<Rightarrow> rwgraph \<Rightarrow> rwgraph" where
  "addDef n ds strong =
     (if strong then addOverwrites n ds
      else upd_rw n (\<lambda>N. N\<lparr>rw_annotations := (rw_annotations N)\<lparr>an_defs := sset_insert ds (an_defs (rw_annotations N))\<rparr>\<rparr>))"

section \<open>Building a graph\<close>

definition ReadWriteGraph :: rwgraph where
  "ReadWriteGraph = \<lparr>rwg_nodes = (\<lambda>_. RWNode RW_NONE), rwg_last = 0, rwg_edges = sg_empty, rwg_blocks = (\<lambda>_. RWBBlock 0),
     rwg_nblocks = 0, rwg_subs = (\<lambda>_. \<lparr>rs_bblocks = [], rs_callers = []\<rparr>), rwg_nsubs = 0\<rparr>"

definition rw_create :: "RWNodeType \<Rightarrow> rwgraph \<Rightarrow> nat \<times> rwgraph" where
  "rw_create t G = (Suc (rwg_last G), upd_rw (Suc (rwg_last G)) (\<lambda>_. RWNode t) (G\<lparr>rwg_last := Suc (rwg_last G)\<rparr>))"

definition rw_createSubgraph :: "rwgraph \<Rightarrow> nat \<times> rwgraph" where
  "rw_createSubgraph G = (rwg_nsubs G, G\<lparr>rwg_nsubs := Suc (rwg_nsubs G)\<rparr>)"

definition new_block :: "nat \<Rightarrow> rwgraph \<Rightarrow> nat \<times> rwgraph" where
  "new_block k G = (rwg_nblocks G, upd_rb (rwg_nblocks G) (\<lambda>_. RWBBlock k) (G\<lparr>rwg_nblocks := Suc (rwg_nblocks G)\<rparr>))"

definition upd_rs :: "nat \<Rightarrow> (rwsubgraph \<Rightarrow> rwsubgraph) \<Rightarrow> rwgraph \<Rightarrow> rwgraph" where
  "upd_rs k f G = G\<lparr>rwg_subs := (rwg_subs G)(k := f (rwg_subs G k))\<rparr>"

definition createBBlock :: "nat \<Rightarrow> rwgraph \<Rightarrow> nat \<times> rwgraph" where
  "createBBlock k G = (let (b, G1) = new_block k G in (b, upd_rs k (\<lambda>S. S\<lparr>rs_bblocks := rs_bblocks S @ [b]\<rparr>) G1))"

definition addCaller :: "nat \<Rightarrow> nat \<Rightarrow> rwgraph \<Rightarrow> rwgraph option" where
  "addCaller k c G =
     (if rw_t G c \<noteq> RW_CALL then None
      else Some (upd_rs k (\<lambda>S. if c \<in> set (rs_callers S) then S else S\<lparr>rs_callers := rs_callers S @ [c]\<rparr>) G))"

definition addCalledSubgraph :: "nat \<Rightarrow> nat \<Rightarrow> rwgraph \<Rightarrow> rwgraph option" where
  "addCalledSubgraph c k G = addCaller k c (upd_rw c (\<lambda>N. N\<lparr>rw_callees := rw_callees N @ [CalledSubgraph k]\<rparr>) G)"

definition addCalledValue :: "nat \<Rightarrow> nat \<Rightarrow> rwgraph \<Rightarrow> rwgraph" where
  "addCalledValue c v = upd_rw c (\<lambda>N. N\<lparr>rw_callees := rw_callees N @ [CalledValue v]\<rparr>)"

definition rw_addOutput :: "nat \<Rightarrow> nat \<Rightarrow> rwgraph \<Rightarrow> rwgraph option" where
  "rw_addOutput c n G = (if isPhi G n then Some (upd_rw c (\<lambda>N. N\<lparr>rw_outputs := rw_outputs N @ [n]\<rparr>) G) else None)"

definition rw_addInput :: "nat \<Rightarrow> nat \<Rightarrow> rwgraph \<Rightarrow> rwgraph option" where
  "rw_addInput c n G = (if isPhi G n then Some (upd_rw c (\<lambda>N. N\<lparr>rw_inputs := rw_inputs N @ [n]\<rparr>) G) else None)"

definition addUnknownInput :: "nat \<Rightarrow> nat \<Rightarrow> rwgraph \<Rightarrow> rwgraph option" where
  "addUnknownInput c n G =
     (if rw_unknownInput (rwg_nodes G c) = None \<and> isPhi G n
      then Some (upd_rw c (\<lambda>N. N\<lparr>rw_inputs := rw_inputs N @ [n], rw_unknownInput := Some n\<rparr>) G) else None)"

section \<open>Blocks\<close>

definition setBBlock :: "nat \<Rightarrow> nat \<Rightarrow> rwgraph \<Rightarrow> rwgraph" where
  "setBBlock n b = upd_rw n (\<lambda>N. N\<lparr>rw_bblock := Some b\<rparr>)"

definition rb_append :: "nat \<Rightarrow> nat \<Rightarrow> rwgraph \<Rightarrow> rwgraph" where
  "rb_append b n G = setBBlock n b (upd_rb b (\<lambda>B. B\<lparr>rb_nodes := rb_nodes B @ [n]\<rparr>) G)"

definition rb_prepend :: "nat \<Rightarrow> nat \<Rightarrow> rwgraph \<Rightarrow> rwgraph" where
  "rb_prepend b n G = setBBlock n b (upd_rb b (\<lambda>B. B\<lparr>rb_nodes := n # rb_nodes B\<rparr>) G)"

definition insert_at :: "nat \<Rightarrow> nat \<Rightarrow> nat list \<Rightarrow> nat list" where
  "insert_at n bef xs = takeWhile (\<lambda>x. x \<noteq> bef) xs @ n # dropWhile (\<lambda>x. x \<noteq> bef) xs"

definition rb_insertBefore :: "nat \<Rightarrow> nat \<Rightarrow> nat \<Rightarrow> rwgraph \<Rightarrow> rwgraph option" where
  "rb_insertBefore b n bef G =
     (if bef \<in> set (rb_nodes (rwg_blocks G b))
      then Some (setBBlock n b (upd_rb b (\<lambda>B. B\<lparr>rb_nodes := insert_at n bef (rb_nodes B)\<rparr>) G)) else None)"

definition rb_addSuccessor :: "nat \<Rightarrow> nat \<Rightarrow> rwgraph \<Rightarrow> rwgraph" where
  "rb_addSuccessor a b G =
     (if b \<in> set (rb_succ (rwg_blocks G a)) then G
      else let G1 = upd_rb a (\<lambda>B. B\<lparr>rb_succ := rb_succ B @ [b]\<rparr>) G in
        if a \<in> set (rb_pred (rwg_blocks G1 b)) then G1 else upd_rb b (\<lambda>B. B\<lparr>rb_pred := rb_pred B @ [a]\<rparr>) G1)"

definition rb_getSinglePredecessor :: "rwgraph \<Rightarrow> nat \<Rightarrow> nat option" where
  "rb_getSinglePredecessor G b = (case rb_pred (rwg_blocks G b) of [p] \<Rightarrow> Some p | _ \<Rightarrow> None)"

definition rb_getSingleSuccessor :: "rwgraph \<Rightarrow> nat \<Rightarrow> nat option" where
  "rb_getSingleSuccessor G b = (case rb_succ (rwg_blocks G b) of [p] \<Rightarrow> Some p | _ \<Rightarrow> None)"

definition isReturnBBlock :: "rwgraph \<Rightarrow> nat \<Rightarrow> bool" where
  "isReturnBBlock G b =
     (rb_nodes (rwg_blocks G b) \<noteq> [] \<and> rw_t G (last (rb_nodes (rwg_blocks G b))) = RW_RETURN)"

text \<open>\<open>splitAround\<close> puts the nodes behind the node into a new block, and the node, too, when there are nodes before it.\<close>

definition splitAround :: "nat \<Rightarrow> nat \<Rightarrow> rwgraph \<Rightarrow> (nat option \<times> nat option \<times> rwgraph) option" where
  "splitAround b n G =
     (let ns = rb_nodes (rwg_blocks G b); k = rb_subgraph (rwg_blocks G b);
          front = takeWhile (\<lambda>x. x \<noteq> n) ns; behind = tl (dropWhile (\<lambda>x. x \<noteq> n) ns) in
      if rw_bblock (rwg_nodes G n) \<noteq> Some b then None
      else if length ns = 1 then (if hd ns = n then Some (None, None, G) else None)
      else if ns = [] \<or> n \<notin> set ns then None
      else
        let (after, G1) = (if behind = [] then (None, G)
              else let (a, G') = new_block k G in (Some a, fold (rb_append a) behind G'));
            (withnode, G2) = (if front = [] then (None, upd_rb b (\<lambda>B. B\<lparr>rb_nodes := [n]\<rparr>) G1)
              else let (w, G') = new_block k G1 in (Some w, upd_rb b (\<lambda>B. B\<lparr>rb_nodes := front\<rparr>) (rb_append w n G')));
            c = (case after of Some a \<Rightarrow> a | None \<Rightarrow> (case withnode of Some w \<Rightarrow> w | None \<Rightarrow> b));
            ss = rb_succ (rwg_blocks G2 b);
            G3 = fold (\<lambda>s. upd_rb s (\<lambda>B. B\<lparr>rb_pred := replace_node b c (rb_pred B)\<rparr>)) ss G2;
            G4 = upd_rb b (\<lambda>B. B\<lparr>rb_succ := []\<rparr>) (upd_rb c (\<lambda>B. B\<lparr>rb_succ := ss\<rparr>) G3);
            G5 = (case withnode of
                Some w \<Rightarrow> (case after of Some a \<Rightarrow> rb_addSuccessor w a (rb_addSuccessor b w G4) | None \<Rightarrow> rb_addSuccessor b w G4)
              | None \<Rightarrow> (case after of Some a \<Rightarrow> rb_addSuccessor b a G4 | None \<Rightarrow> G4))
        in Some (withnode, after, G5))"

definition splitBlockOnFirstCall :: "nat \<Rightarrow> nat list \<Rightarrow> rwgraph \<Rightarrow> (nat option \<times> nat list \<times> rwgraph) option" where
  "splitBlockOnFirstCall b newblocks G =
     (case dropWhile (\<lambda>n. \<not> (rw_t G n = RW_CALL \<and> \<not> callsOneUndefined G n)) (rb_nodes (rwg_blocks G b)) of
        [] \<Rightarrow> Some (None, newblocks, G)
      | n # _ \<Rightarrow>
          map_option (\<lambda>(w, a, G').
            (a, newblocks @ (case w of Some x \<Rightarrow> [x] | None \<Rightarrow> []) @ (case a of Some x \<Rightarrow> [x] | None \<Rightarrow> []), G'))
            (splitAround b n G))"

partial_function (option) split_loop :: "nat \<Rightarrow> nat list \<Rightarrow> rwgraph \<Rightarrow> (nat list \<times> rwgraph) option" where
  "split_loop cur newblocks G =
     Option.bind (splitBlockOnFirstCall cur newblocks G) (\<lambda>(nxt, nb, G').
       case nxt of None \<Rightarrow> Some (nb, G') | Some c \<Rightarrow> split_loop c nb G')"

fun split_blocks :: "nat list \<Rightarrow> nat list \<Rightarrow> rwgraph \<Rightarrow> (nat list \<times> rwgraph) option" where
  "split_blocks [] nb G = Some (nb, G)"
| "split_blocks (b # bs) nb G = Option.bind (split_loop b nb G) (\<lambda>(nb', G'). split_blocks bs nb' G')"

definition sub_splitBBlocksOnCalls :: "nat \<Rightarrow> rwgraph \<Rightarrow> rwgraph option" where
  "sub_splitBBlocksOnCalls k G =
     map_option (\<lambda>(nb, G'). upd_rs k (\<lambda>S. S\<lparr>rs_bblocks := rs_bblocks S @ nb\<rparr>) G')
       (split_blocks (rs_bblocks (rwg_subs G k)) [] G)"

fun split_subgraphs :: "nat list \<Rightarrow> rwgraph \<Rightarrow> rwgraph option" where
  "split_subgraphs [] G = Some G"
| "split_subgraphs (k # ks) G = Option.bind (sub_splitBBlocksOnCalls k G) (split_subgraphs ks)"

definition splitBBlocksOnCalls :: "rwgraph \<Rightarrow> rwgraph option" where
  "splitBBlocksOnCalls G = split_subgraphs [0..<rwg_nsubs G] G"

end
