(* ===== verification/Memory_SSA.thy ===== *)
theory Memory_SSA
  imports RW_Graph
begin

text \<open>
  The transformation to memory SSA form, \<^verbatim>\<open>lib/MemorySSA/MemorySSA.cpp\<close> and \<^verbatim>\<open>ModRef.cpp\<close> with their headers. The definitions a
  use may read are searched on demand, backwards over the blocks; where paths meet, phi nodes are created that merge what the
  predecessors define. The functions of the search call each other: each is a definition over a parameter \<open>rec\<close> that runs a
  \<open>task\<close>, a call of one of them, and \<open>msearch\<close> ties them together as a fixpoint, so that a search that does not end is \<open>None\<close>.
  A search returns the nodes it found, as a list.
\<close>

section \<open>The state\<close>

record modref =
  mr_init :: bool
  mr_maydef :: dmap
  mr_mayref :: dmap
  mr_mustdef :: dmap

record mssa =
  ms_g :: rwgraph
  ms_phis :: "nat list"
  ms_defs :: "nat \<Rightarrow> Definitions"
  ms_call :: "nat \<Rightarrow> nat option"
  ms_inputs :: "nat \<Rightarrow> dmap"
  ms_outputs :: "nat \<Rightarrow> dmap"
  ms_modref :: "nat \<Rightarrow> modref"

type_synonym found = "(nat list \<times> mssa) option"

definition MemorySSATransformation :: "rwgraph \<Rightarrow> mssa" where
  "MemorySSATransformation G = \<lparr>ms_g = G, ms_phis = [], ms_defs = (\<lambda>_. no_definitions), ms_call = (\<lambda>_. None),
     ms_inputs = (\<lambda>_. []), ms_outputs = (\<lambda>_. []),
     ms_modref = (\<lambda>_. \<lparr>mr_init = False, mr_maydef = [], mr_mayref = [], mr_mustdef = []\<rparr>)\<rparr>"

abbreviation ms_block :: "mssa \<Rightarrow> nat \<Rightarrow> rwblock" where
  "ms_block s b \<equiv> rwg_blocks (ms_g s) b"

abbreviation ms_node :: "mssa \<Rightarrow> nat \<Rightarrow> rwnode" where
  "ms_node s n \<equiv> rwg_nodes (ms_g s) n"

definition upd_g :: "(rwgraph \<Rightarrow> rwgraph) \<Rightarrow> mssa \<Rightarrow> mssa" where
  "upd_g f s = s\<lparr>ms_g := f (ms_g s)\<rparr>"

definition try_g :: "(rwgraph \<Rightarrow> rwgraph option) \<Rightarrow> mssa \<Rightarrow> mssa option" where
  "try_g f s = map_option (\<lambda>G. s\<lparr>ms_g := G\<rparr>) (f (ms_g s))"

definition set_defs :: "nat \<Rightarrow> Definitions \<Rightarrow> mssa \<Rightarrow> mssa" where
  "set_defs b D s = s\<lparr>ms_defs := (ms_defs s)(b := D)\<rparr>"

definition ms_addDefUse :: "nat \<Rightarrow> nat list \<Rightarrow> mssa \<Rightarrow> mssa" where
  "ms_addDefUse n ds s = upd_g (addDefUse n ds) s"

section \<open>Local value numbering\<close>

fun lvn_nodes :: "rwgraph \<Rightarrow> nat list \<Rightarrow> Definitions \<Rightarrow> Definitions option" where
  "lvn_nodes G [] D = Some D"
| "lvn_nodes G (n # ns) D =
     Option.bind (getAnnotations G n) (\<lambda>A. Option.bind (d_update A (isPhi G n) n D) (lvn_nodes G ns))"

definition performLvn :: "nat \<Rightarrow> mssa \<Rightarrow> mssa option" where
  "performLvn b s =
     (if d_processed (ms_defs s b) then None
      else map_option (\<lambda>D. set_defs b (setProcessed D) s) (lvn_nodes (ms_g s) (rb_nodes (ms_block s b)) (ms_defs s b)))"

definition nodes_before :: "nat \<Rightarrow> mssa \<Rightarrow> nat list option" where
  "nodes_before n s =
     map_option (\<lambda>b. takeWhile (\<lambda>m. m \<noteq> n) (rb_nodes (ms_block s b))) (rw_bblock (ms_node s n))"

fun lvn_filtered :: "(annotations \<Rightarrow> bool) \<Rightarrow> rwgraph \<Rightarrow> nat list \<Rightarrow> Definitions \<Rightarrow> Definitions option" where
  "lvn_filtered P G [] D = Some D"
| "lvn_filtered P G (n # ns) D =
     Option.bind (getAnnotations G n) (\<lambda>A.
       if P A then Option.bind (d_update A (isPhi G n) n D) (lvn_filtered P G ns) else lvn_filtered P G ns D)"

definition findDefinitionsInBlock :: "nat \<Rightarrow> nat option \<Rightarrow> mssa \<Rightarrow> Definitions option" where
  "findDefinitionsInBlock to mem s =
     Option.bind (nodes_before to s) (\<lambda>ns.
       case mem of
         None \<Rightarrow> lvn_nodes (ms_g s) ns no_definitions
       | Some m \<Rightarrow> lvn_filtered (\<lambda>A. rw_defines A m getUnknown) (ms_g s) ns no_definitions)"

definition findEscapingDefinitionsInBlock :: "nat \<Rightarrow> mssa \<Rightarrow> Definitions option" where
  "findEscapingDefinitionsInBlock to s =
     Option.bind (nodes_before to s) (\<lambda>ns. lvn_nodes (ms_g s) (filter (canEscape (ms_g s)) ns) no_definitions)"

section \<open>Phi nodes\<close>

definition createPhi :: "DefSite \<Rightarrow> RWNodeType \<Rightarrow> mssa \<Rightarrow> (nat \<times> mssa) option" where
  "createPhi ds t s =
     (let (phi, G) = rw_create t (ms_g s); s1 = s\<lparr>ms_g := G, ms_phis := ms_phis s @ [phi]\<rparr> in
      if isPhi G phi then Some (phi, upd_g (addOverwrites phi ds) s1) else None)"

fun define_holes :: "nat \<Rightarrow> nat \<Rightarrow> DiscreteInterval list \<Rightarrow> Definitions \<Rightarrow> Definitions option" where
  "define_holes phi t [] D = Some D"
| "define_holes phi t (I # Is) D =
     Option.bind (mk_defsite t (istart I) (iv_length I)) (\<lambda>uds.
     Option.bind (dm_add uds phi (d_definitions D)) (\<lambda>(_, m).
     Option.bind (dm_get uds (d_kills D)) (\<lambda>killed.
       if killed \<noteq> {} then None
       else Option.bind (dm_add uds phi (d_kills D)) (\<lambda>(_, k).
         if d_unknownWrites D = [] then define_holes phi t Is (D\<lparr>d_definitions := m, d_kills := k\<rparr>)
         else Option.bind (dm_add_nodes uds (d_unknownWrites D) m) (\<lambda>(_, m').
           define_holes phi t Is (D\<lparr>d_definitions := m', d_kills := k\<rparr>))))))"

text \<open>\<open>createPhi\<close> with the definitions of a block.\<close>

definition createPhi_in :: "nat \<Rightarrow> DefSite \<Rightarrow> RWNodeType \<Rightarrow> mssa \<Rightarrow> (nat \<times> mssa) option" where
  "createPhi_in b ds t s =
     Option.bind (createPhi ds t s) (\<lambda>(phi, s1).
     Option.bind (d_uncovered ds (ms_defs s1 b)) (\<lambda>Is.
       map_option (\<lambda>D. (phi, set_defs b D s1)) (define_holes phi (ds_target ds) Is (ms_defs s1 b))))"

definition canBeInput :: "mssa \<Rightarrow> nat \<Rightarrow> nat \<Rightarrow> bool" where
  "canBeInput s n k =
     (canEscape (ms_g s) n \<or>
      (case rw_bblock (ms_node s n) of Some b \<Rightarrow> rb_subgraph (ms_block s b) \<noteq> k | None \<Rightarrow> False))"

section \<open>What a function may define\<close>

definition canBeOutput :: "mssa \<Rightarrow> nat \<Rightarrow> nat option \<Rightarrow> bool" where
  "canBeOutput s n k =
     (canEscape (ms_g s) n \<or>
      (case rw_bblock (ms_node s n) of Some b \<Rightarrow> Some (rb_subgraph (ms_block s b)) \<noteq> k | None \<Rightarrow> True))"

fun modRefAdd :: "mssa \<Rightarrow> DefSite list \<Rightarrow> nat \<Rightarrow> nat option \<Rightarrow> dmap \<Rightarrow> dmap option" where
  "modRefAdd s [] n k m = Some m"
| "modRefAdd s (ds # C) n k m =
     (if canBeOutput s (ds_target ds) k then Option.bind (dm_add ds n m) (\<lambda>(_, m'). modRefAdd s C n k m')
      else modRefAdd s C n k m)"

definition set_modref :: "nat \<Rightarrow> modref \<Rightarrow> mssa \<Rightarrow> mssa" where
  "set_modref k M s = s\<lparr>ms_modref := (ms_modref s)(k := M)\<rparr>"

definition modref_sites :: "nat \<Rightarrow> annotations \<Rightarrow> nat \<Rightarrow> nat option \<Rightarrow> mssa \<Rightarrow> mssa option" where
  "modref_sites k A n sub s =
     (let M = ms_modref s k in
      Option.bind (modRefAdd s (an_defs A) n sub (mr_maydef M)) (\<lambda>d.
      Option.bind (modRefAdd s (an_overwrites A) n sub d) (\<lambda>d'.
      map_option (\<lambda>u. set_modref k (M\<lparr>mr_maydef := d', mr_mayref := u\<rparr>) s) (modRefAdd s (an_uses A) n sub (mr_mayref M)))))"

definition modref_add :: "modref \<Rightarrow> modref \<Rightarrow> modref option" where
  "modref_add oth M =
     Option.bind (dm_add_map (mr_maydef oth) (mr_maydef M)) (\<lambda>(_, d).
     Option.bind (dm_add_map (mr_mayref oth) (mr_mayref M)) (\<lambda>(_, r).
     map_option (\<lambda>(_, u). M\<lparr>mr_maydef := d, mr_mayref := r, mr_mustdef := u\<rparr>) (dm_add_map (mr_mustdef oth) (mr_mustdef M))))"

fun modref_nodes :: "nat \<Rightarrow> nat list \<Rightarrow> mssa \<Rightarrow> mssa option" where
  "modref_nodes k [] s = Some s"
| "modref_nodes k (n # ns) s =
     Option.bind (getAnnotations (ms_g s) n) (\<lambda>A. Option.bind (modref_sites k A n (Some k) s) (modref_nodes k ns))"

datatype mr_task = MR_subgraph nat | MR_blocks nat "nat list" | MR_callees nat nat "RWCalledValue list"

partial_function (option) computeModRef :: "mr_task \<Rightarrow> mssa \<Rightarrow> mssa option" where
  "computeModRef t s =
     (case t of
        MR_subgraph k \<Rightarrow>
          if mr_init (ms_modref s k) then Some s
          else computeModRef (MR_blocks k (rs_bblocks (rwg_subs (ms_g s) k))) (set_modref k ((ms_modref s k)\<lparr>mr_init := True\<rparr>) s)
      | MR_blocks k bs \<Rightarrow>
          (case bs of
             [] \<Rightarrow> Some s
           | b # bs' \<Rightarrow>
               Option.bind
                 (case ms_call s b of
                    Some C \<Rightarrow> computeModRef (MR_callees k C (rw_callees (ms_node s C))) s
                  | None \<Rightarrow> modref_nodes k (rb_nodes (ms_block s b)) s)
                 (computeModRef (MR_blocks k bs')))
      | MR_callees k C cs \<Rightarrow>
          (case cs of
             [] \<Rightarrow> Some s
           | c # cs' \<Rightarrow>
               Option.bind
                 (case c of
                    CalledSubgraph k' \<Rightarrow>
                      Option.bind (computeModRef (MR_subgraph k') s) (\<lambda>s1.
                        map_option (\<lambda>M. set_modref k M s1) (modref_add (ms_modref s1 k') (ms_modref s1 k)))
                  | CalledValue v \<Rightarrow>
                      Option.bind (getAnnotations (ms_g s) v) (\<lambda>A. modref_sites k A C None s))
                 (computeModRef (MR_callees k C cs'))))"

definition mayDefine :: "nat \<Rightarrow> modref \<Rightarrow> bool" where
  "mayDefine n M = definesTarget n (mr_maydef M)"

definition mayDefineUnknown :: "modref \<Rightarrow> bool" where
  "mayDefineUnknown M = mayDefine 0 M"

definition mayDefineOrUnknown :: "nat \<Rightarrow> modref \<Rightarrow> bool" where
  "mayDefineOrUnknown n M = (mayDefine n M \<or> mayDefineUnknown M)"

fun callMayDefineTarget :: "RWCalledValue list \<Rightarrow> nat \<Rightarrow> mssa \<Rightarrow> (bool \<times> mssa) option" where
  "callMayDefineTarget [] target s = Some (False, s)"
| "callMayDefineTarget (CalledValue v # cs) target s =
     Option.bind (getAnnotations (ms_g s) v) (\<lambda>A.
       if rw_defines A target getUnknown then Some (True, s) else callMayDefineTarget cs target s)"
| "callMayDefineTarget (CalledSubgraph k # cs) target s =
     Option.bind (computeModRef (MR_subgraph k) s) (\<lambda>s1.
       if mayDefineOrUnknown target (ms_modref s1 k) then Some (True, s1) else callMayDefineTarget cs target s1)"

section \<open>Searching the definitions of known memory\<close>

datatype task =
    T_block nat DefSite
  | T_node nat DefSite
  | T_get nat DefSite
  | T_preds nat DefSite
  | T_multi nat DefSite
  | T_uncovered nat nat "DiscreteInterval list"
  | T_phi "nat list" DefSite
  | T_callers nat "nat list" DefSite
  | T_fill nat nat DefSite
  | T_fill_holes nat nat nat "DiscreteInterval list"
  | T_callees nat nat DefSite "RWCalledValue list"
  | T_subgraph nat nat DefSite nat "DiscreteInterval list"
  | T_returns nat DefSite "nat list"

type_synonym runner = "task \<Rightarrow> mssa \<Rightarrow> found"

definition found_then :: "nat list \<Rightarrow> (mssa \<Rightarrow> found) \<Rightarrow> mssa \<Rightarrow> found" where
  "found_then defs f s = map_option (\<lambda>(more, s'). (defs @ more, s')) (f s)"

text \<open>\<open>addUncoveredFromPredecessors\<close>; the loop runs over the intervals found before it starts.\<close>

definition uncovered_from_predecessors :: "runner \<Rightarrow> nat \<Rightarrow> nat \<Rightarrow> DiscreteInterval list \<Rightarrow> mssa \<Rightarrow> found" where
  "uncovered_from_predecessors rec b t Is s =
     (case Is of
        [] \<Rightarrow> Some ([], s)
      | I # Is' \<Rightarrow>
          Option.bind (mk_defsite t (istart I) (iv_length I)) (\<lambda>ds.
          Option.bind (rec (T_preds b ds) s) (\<lambda>(defs, s1). found_then defs (rec (T_uncovered b t Is')) s1)))"

definition addUncoveredFromPredecessors :: "runner \<Rightarrow> nat \<Rightarrow> Definitions \<Rightarrow> DefSite \<Rightarrow> mssa \<Rightarrow> found" where
  "addUncoveredFromPredecessors rec b D ds s =
     Option.bind (d_uncovered ds D) (\<lambda>Is. rec (T_uncovered b (ds_target ds) Is) s)"

text \<open>\<open>findDefinitions\<close> of a block.\<close>

definition findDefinitions_block :: "runner \<Rightarrow> nat \<Rightarrow> DefSite \<Rightarrow> mssa \<Rightarrow> found" where
  "findDefinitions_block rec b ds s =
     Option.bind (rec (T_get b ds) s) (\<lambda>(_, s1).
     Option.bind (d_get ds (ms_defs s1 b)) (\<lambda>defSet.
       found_then (sorted_list_of_set defSet) (addUncoveredFromPredecessors rec b (ms_defs s1 b) ds) s1))"

text \<open>\<open>findDefinitions\<close> of a node and a site.\<close>

definition findDefinitions_node :: "runner \<Rightarrow> nat \<Rightarrow> DefSite \<Rightarrow> mssa \<Rightarrow> found" where
  "findDefinitions_node rec n ds s =
     (if ds_target ds = 0 then None
      else Option.bind (rw_bblock (ms_node s n)) (\<lambda>b.
           Option.bind (findDefinitionsInBlock n None s) (\<lambda>D.
           Option.bind (d_get ds D) (\<lambda>defSet.
             found_then (sorted_list_of_set defSet) (addUncoveredFromPredecessors rec b D ds) s))))"

definition createAndPlacePhi :: "runner \<Rightarrow> nat \<Rightarrow> DefSite \<Rightarrow> mssa \<Rightarrow> (nat \<times> mssa) option" where
  "createAndPlacePhi rec b ds s =
     Option.bind (rec (T_get b ds) s) (\<lambda>(_, s1).
       map_option (\<lambda>(phi, s2). (phi, upd_g (rb_prepend b phi) s2)) (createPhi_in b ds RW_PHI s1))"

definition findPhiDefinitions :: "runner \<Rightarrow> nat \<Rightarrow> mssa \<Rightarrow> mssa option" where
  "findPhiDefinitions rec phi s =
     Option.bind (rw_bblock (ms_node s phi)) (\<lambda>b.
       case an_overwrites (rw_annotations (ms_node s phi)) of
         [ds] \<Rightarrow>
           if rb_getSinglePredecessor (ms_g s) b \<noteq> None \<or> ds_target ds = 0 then None
           else Option.bind (rec (T_phi (rb_pred (ms_block s b)) ds) s) (\<lambda>(defs, s1).
             Some (ms_addDefUse phi (sorted_list_of_set (set defs)) s1))
       | _ \<Rightarrow> None)"

definition phi_operands :: "runner \<Rightarrow> nat list \<Rightarrow> DefSite \<Rightarrow> mssa \<Rightarrow> found" where
  "phi_operands rec bs ds s =
     (case bs of
        [] \<Rightarrow> Some ([], s)
      | b # bs' \<Rightarrow> Option.bind (rec (T_block b ds) s) (\<lambda>(defs, s1). found_then defs (rec (T_phi bs' ds)) s1))"

definition summary_addInput :: "nat \<Rightarrow> DefSite \<Rightarrow> nat \<Rightarrow> mssa \<Rightarrow> mssa option" where
  "summary_addInput k ds n s = map_option (\<lambda>(_, m). s\<lparr>ms_inputs := (ms_inputs s)(k := m)\<rparr>) (dm_add ds n (ms_inputs s k))"

definition summary_addOutput :: "nat \<Rightarrow> DefSite \<Rightarrow> nat \<Rightarrow> mssa \<Rightarrow> mssa option" where
  "summary_addOutput k ds n s = map_option (\<lambda>(_, m). s\<lparr>ms_outputs := (ms_outputs s)(k := m)\<rparr>) (dm_add ds n (ms_outputs s k))"

definition findDefinitionsInMultiplePredecessors :: "runner \<Rightarrow> nat \<Rightarrow> DefSite \<Rightarrow> mssa \<Rightarrow> found" where
  "findDefinitionsInMultiplePredecessors rec b ds s =
     (if rb_pred (ms_block s b) \<noteq> [] then
        Option.bind (createAndPlacePhi rec b ds s) (\<lambda>(phi, s1).
          map_option (\<lambda>s2. ([phi], s2)) (findPhiDefinitions rec phi s1))
      else if canBeInput s (ds_target ds) (rb_subgraph (ms_block s b)) then
        Option.bind (rec (T_get b ds) s) (\<lambda>(_, s0).
        Option.bind (createPhi_in b ds RW_INARG s0) (\<lambda>(phi, s1).
        Option.bind (summary_addInput (rb_subgraph (ms_block s b)) ds phi s1) (\<lambda>s2.
          map_option (\<lambda>(_, s3). ([phi], s3))
            (rec (T_callers phi (rs_callers (rwg_subs (ms_g s2) (rb_subgraph (ms_block s b)))) ds) s2))))
      else Some ([], s))"

text \<open>The assertion of the branch with one predecessor asks for the definitions of that block again.\<close>

definition findDefinitionsInPredecessors :: "runner \<Rightarrow> nat \<Rightarrow> DefSite \<Rightarrow> mssa \<Rightarrow> found" where
  "findDefinitionsInPredecessors rec b ds s =
     (if ds_target ds = 0 then None
      else case rb_getSinglePredecessor (ms_g s) b of
        Some p \<Rightarrow>
          Option.bind (rec (T_block p ds) s) (\<lambda>(pdefs, s1).
          Option.bind (rec (T_get p ds) s1) (\<lambda>(_, s2).
            if pdefs = [] \<and> d_unknownWrites (ms_defs s2 p) \<noteq> [] then None else Some (pdefs, s2)))
      | None \<Rightarrow> rec (T_multi b ds) s)"

section \<open>Searching through calls\<close>

definition findDefinitionsFromCalledFun :: "runner \<Rightarrow> nat \<Rightarrow> nat list \<Rightarrow> DefSite \<Rightarrow> mssa \<Rightarrow> found" where
  "findDefinitionsFromCalledFun rec phi cs ds s =
     (case cs of
        [] \<Rightarrow> Some ([], s)
      | C # cs' \<Rightarrow>
          if rw_type (ms_node s C) \<noteq> RW_CALL then None
          else Option.bind (rw_bblock (ms_node s C)) (\<lambda>b.
            if ms_call s b = None then None
            else Option.bind (createPhi ds RW_CALLIN s) (\<lambda>(callphi, s1).
              Option.bind (try_g (rb_insertBefore b callphi C) s1) (\<lambda>s2.
              Option.bind (try_g (rw_addInput C callphi) s2) (\<lambda>s3.
              Option.bind (rec (T_node callphi ds) (ms_addDefUse phi [callphi] s3)) (\<lambda>(defs, s4).
                rec (T_callers phi cs' ds) (ms_addDefUse callphi defs s4)))))))"

definition fillDefinitionsFromCall :: "runner \<Rightarrow> nat \<Rightarrow> nat \<Rightarrow> DefSite \<Rightarrow> mssa \<Rightarrow> found" where
  "fillDefinitionsFromCall rec b C ds s =
     Option.bind (callMayDefineTarget (rw_callees (ms_node s C)) (ds_target ds) s) (\<lambda>(may, s1).
       if \<not> may then Some ([], s1)
       else Option.bind (d_uncovered ds (ms_defs s1 b)) (\<lambda>Is. rec (T_fill_holes b C (ds_target ds) Is) s1))"

definition fill_holes :: "runner \<Rightarrow> nat \<Rightarrow> nat \<Rightarrow> nat \<Rightarrow> DiscreteInterval list \<Rightarrow> mssa \<Rightarrow> found" where
  "fill_holes rec b C t Is s =
     (case Is of
        [] \<Rightarrow> Some ([], s)
      | I # Is' \<Rightarrow>
          Option.bind (mk_defsite t (istart I) (iv_length I)) (\<lambda>uds.
          Option.bind (createPhi_in b uds RW_CALLOUT s) (\<lambda>(phi, s1).
          Option.bind (rw_bblock (ms_node s1 C)) (\<lambda>cb.
          Option.bind (try_g (rw_addOutput C phi) (upd_g (rb_append cb phi) s1)) (\<lambda>s2.
          Option.bind (rec (T_callees phi C uds (rw_callees (ms_node s2 C))) s2) (\<lambda>(_, s3).
            rec (T_fill_holes b C t Is') s3))))))"

definition addDefinitionsFromCalledValue :: "runner \<Rightarrow> nat \<Rightarrow> nat \<Rightarrow> DefSite \<Rightarrow> nat \<Rightarrow> mssa \<Rightarrow> mssa option" where
  "addDefinitionsFromCalledValue rec phi C ds v s =
     Option.bind (getAnnotations (ms_g s) v) (\<lambda>A.
     Option.bind (d_update A (isPhi (ms_g s) v) v no_definitions) (\<lambda>D.
     Option.bind (d_get ds D) (\<lambda>defSet.
     Option.bind (rw_bblock (ms_node s C)) (\<lambda>cb.
     Option.bind (addUncoveredFromPredecessors rec cb D ds s) (\<lambda>(more, s1).
       Some (ms_addDefUse phi (sorted_list_of_set defSet @ more) s1))))))"

text \<open>The loop of \<open>findDefinitionsInSubgraph\<close> over the uncovered intervals of the summary; the search in the returning blocks
  is for the whole site.\<close>

definition findDefinitionsInSubgraph :: "runner \<Rightarrow> nat \<Rightarrow> nat \<Rightarrow> DefSite \<Rightarrow> nat \<Rightarrow> DiscreteInterval list \<Rightarrow> mssa \<Rightarrow> found" where
  "findDefinitionsInSubgraph rec phi C ds k Is s =
     (case Is of
        [] \<Rightarrow> Some ([], s)
      | I # Is' \<Rightarrow>
          Option.bind (mk_defsite (ds_target ds) (istart I) (iv_length I)) (\<lambda>subgds.
            if \<not> mayDefine (ds_target ds) (ms_modref s k) then
              Option.bind
                (if mayDefineUnknown (ms_modref s k) then
                   Option.bind (createPhi subgds RW_OUTARG s) (\<lambda>(subgphi, s1).
                   Option.bind (summary_addOutput k subgds subgphi s1) (\<lambda>s2.
                   Option.bind (dm_get (DefSite 0 getUnknown getUnknown) (mr_maydef (ms_modref s2 k))) (\<lambda>ws.
                     Some (ms_addDefUse phi [subgphi]
                       (if ws = {} then s2 else ms_addDefUse subgphi (sorted_list_of_set ws) s2)))))
                 else Some s)
                (\<lambda>s3. Option.bind (rec (T_node C subgds) s3) (\<lambda>(defs, s4).
                  rec (T_subgraph phi C ds k Is') (ms_addDefUse phi defs s4)))
            else
              Option.bind (createPhi subgds RW_OUTARG s) (\<lambda>(subgphi, s1).
              Option.bind (summary_addOutput k subgds subgphi s1) (\<lambda>s2.
              Option.bind (rec (T_returns subgphi ds (rs_bblocks (rwg_subs (ms_g s2) k))) (ms_addDefUse phi [subgphi] s2)) (\<lambda>(_, s3).
                rec (T_subgraph phi C ds k Is') s3)))))"

definition return_blocks :: "runner \<Rightarrow> nat \<Rightarrow> DefSite \<Rightarrow> nat list \<Rightarrow> mssa \<Rightarrow> found" where
  "return_blocks rec subgphi ds bs s =
     (case bs of
        [] \<Rightarrow> Some ([], s)
      | b # bs' \<Rightarrow>
          if rb_succ (ms_block s b) \<noteq> [] \<or> \<not> isReturnBBlock (ms_g s) b then rec (T_returns subgphi ds bs') s
          else Option.bind (rec (T_block b ds) s) (\<lambda>(defs, s1). rec (T_returns subgphi ds bs') (ms_addDefUse subgphi defs s1)))"

definition search_callees :: "runner \<Rightarrow> nat \<Rightarrow> nat \<Rightarrow> DefSite \<Rightarrow> RWCalledValue list \<Rightarrow> mssa \<Rightarrow> found" where
  "search_callees rec phi C ds cs s =
     (case cs of
        [] \<Rightarrow> Some ([], s)
      | CalledSubgraph k # cs' \<Rightarrow>
          Option.bind (computeModRef (MR_subgraph k) s) (\<lambda>s1.
          Option.bind (undefinedIntervals ds (ms_outputs s1 k)) (\<lambda>Is.
          Option.bind (rec (T_subgraph phi C ds k Is) s1) (\<lambda>(_, s2). rec (T_callees phi C ds cs') s2)))
      | CalledValue v # cs' \<Rightarrow>
          Option.bind (addDefinitionsFromCalledValue rec phi C ds v s) (rec (T_callees phi C ds cs')))"

text \<open>Blocks that are not calls are processed once, calls are asked for the site only.\<close>

definition getBBlockDefinitions :: "runner \<Rightarrow> nat \<Rightarrow> DefSite \<Rightarrow> mssa \<Rightarrow> found" where
  "getBBlockDefinitions rec b ds s =
     (if d_processed (ms_defs s b) then Some ([], s)
      else case ms_call s b of
        Some C \<Rightarrow> rec (T_fill b C ds) s
      | None \<Rightarrow> map_option (\<lambda>s1. ([], s1)) (performLvn b s))"

definition search_task :: "runner \<Rightarrow> task \<Rightarrow> mssa \<Rightarrow> found" where
  "search_task rec t =
     (case t of
        T_block b ds \<Rightarrow> findDefinitions_block rec b ds
      | T_node n ds \<Rightarrow> findDefinitions_node rec n ds
      | T_get b ds \<Rightarrow> getBBlockDefinitions rec b ds
      | T_preds b ds \<Rightarrow> findDefinitionsInPredecessors rec b ds
      | T_multi b ds \<Rightarrow> findDefinitionsInMultiplePredecessors rec b ds
      | T_uncovered b t Is \<Rightarrow> uncovered_from_predecessors rec b t Is
      | T_phi bs ds \<Rightarrow> phi_operands rec bs ds
      | T_callers phi cs ds \<Rightarrow> findDefinitionsFromCalledFun rec phi cs ds
      | T_fill b C ds \<Rightarrow> fillDefinitionsFromCall rec b C ds
      | T_fill_holes b C t Is \<Rightarrow> fill_holes rec b C t Is
      | T_callees phi C ds cs \<Rightarrow> search_callees rec phi C ds cs
      | T_subgraph phi C ds k Is \<Rightarrow> findDefinitionsInSubgraph rec phi C ds k Is
      | T_returns phi ds bs \<Rightarrow> return_blocks rec phi ds bs)"

section \<open>The fixpoint\<close>

text \<open>The functions are monotone in the calls they make.\<close>

abbreviation run_by :: "(task \<times> mssa \<Rightarrow> found) \<Rightarrow> runner" where
  "run_by f \<equiv> \<lambda>t s. f (t, s)"

named_theorems search_mono \<open>monotonicity of the steps of the search\<close>

lemma search_mono_basic [search_mono]:
  fixes A :: "('a \<Rightarrow> 'b option) \<Rightarrow> 'c option" and C :: "('a \<Rightarrow> 'b option) \<Rightarrow> 'c \<Rightarrow> 'd option"
  shows "mono_option (\<lambda>f. c)"
    and "mono_option (\<lambda>f. f x)"
    and "mono_option A \<Longrightarrow> (\<And>y. mono_option (\<lambda>f. C f y)) \<Longrightarrow> mono_option (\<lambda>f. Option.bind (A f) (C f))"
    and "mono_option A \<Longrightarrow> mono_option (\<lambda>f. map_option g (A f))"
proof -
  show "mono_option (\<lambda>f. c)" by (rule option.const_mono)
  show "mono_option (\<lambda>f. f x)" by (rule call_mono)
  show "mono_option A \<Longrightarrow> (\<And>y. mono_option (\<lambda>f. C f y)) \<Longrightarrow> mono_option (\<lambda>f. Option.bind (A f) (C f))" by (rule bind_mono)
  show "mono_option A \<Longrightarrow> mono_option (\<lambda>f. map_option g (A f))"
    using bind_mono [of A "\<lambda>x f. Some (g x)", OF _ option.const_mono] by (simp add: map_conv_bind_option comp_def)
qed

lemma search_mono_if [search_mono]:
  "mono_option A \<Longrightarrow> mono_option B \<Longrightarrow> mono_option (\<lambda>f. if b then A f else B f)"
  by (cases b) simp_all

lemma search_mono_option [search_mono]:
  "mono_option A \<Longrightarrow> (\<And>y. mono_option (\<lambda>f. B f y)) \<Longrightarrow> mono_option (\<lambda>f. case x of None \<Rightarrow> A f | Some y \<Rightarrow> B f y)"
  by (cases x) simp_all

lemma search_mono_list [search_mono]:
  "mono_option A \<Longrightarrow> (\<And>y ys. mono_option (\<lambda>f. B f y ys)) \<Longrightarrow> mono_option (\<lambda>f. case xs of [] \<Rightarrow> A f | y # ys \<Rightarrow> B f y ys)"
  by (cases xs) simp_all

lemma search_mono_prod [search_mono]:
  "(\<And>y z. mono_option (\<lambda>f. B f y z)) \<Longrightarrow> mono_option (\<lambda>f. case p of (y, z) \<Rightarrow> B f y z)"
  by (cases p) simp_all

lemma search_mono_callee [search_mono]:
  "(\<And>k. mono_option (\<lambda>f. A f k)) \<Longrightarrow> (\<And>v. mono_option (\<lambda>f. B f v)) \<Longrightarrow>
    mono_option (\<lambda>f. case c of CalledSubgraph k \<Rightarrow> A f k | CalledValue v \<Rightarrow> B f v)"
  by (cases c) simp_all

lemma found_then_mono [search_mono]:
  "mono_option (\<lambda>f. g f s) \<Longrightarrow> mono_option (\<lambda>f. found_then defs (g f) s)"
  unfolding found_then_def by (intro search_mono)

lemma addUncoveredFromPredecessors_mono [search_mono]:
  "mono_option (\<lambda>f. addUncoveredFromPredecessors (run_by f) b D ds s)"
  unfolding addUncoveredFromPredecessors_def by (intro search_mono)

lemma createAndPlacePhi_mono [search_mono]: "mono_option (\<lambda>f. createAndPlacePhi (run_by f) b ds s)"
  unfolding createAndPlacePhi_def by (intro search_mono)

lemma findPhiDefinitions_mono [search_mono]: "mono_option (\<lambda>f. findPhiDefinitions (run_by f) phi s)"
  unfolding findPhiDefinitions_def by (intro search_mono)

lemma addDefinitionsFromCalledValue_mono [search_mono]:
  "mono_option (\<lambda>f. addDefinitionsFromCalledValue (run_by f) phi C ds v s)"
  unfolding addDefinitionsFromCalledValue_def by (intro search_mono)

lemmas search_steps =
  findDefinitions_block_def findDefinitions_node_def getBBlockDefinitions_def findDefinitionsInPredecessors_def
  findDefinitionsInMultiplePredecessors_def uncovered_from_predecessors_def phi_operands_def findDefinitionsFromCalledFun_def
  fillDefinitionsFromCall_def fill_holes_def search_callees_def findDefinitionsInSubgraph_def return_blocks_def

lemma search_task_mono [partial_function_mono]: "mono_option (\<lambda>f. search_task (run_by f) t s)"
  unfolding search_task_def by (cases t; simp add: search_steps; intro search_mono)

partial_function (option) msearch :: "task \<times> mssa \<Rightarrow> found" where
  "msearch ts = search_task (run_by msearch) (fst ts) (snd ts)"

abbreviation search :: runner where
  "search \<equiv> run_by msearch"

lemma search_unfold: "search t s = search_task search t s"
  by (subst msearch.simps) simp

lemma search_tasks:
  "search (T_block b ds) s = findDefinitions_block search b ds s"
  "search (T_node n ds) s = findDefinitions_node search n ds s"
  "search (T_get b ds) s = getBBlockDefinitions search b ds s"
  "search (T_preds b ds) s = findDefinitionsInPredecessors search b ds s"
  "search (T_multi b ds) s = findDefinitionsInMultiplePredecessors search b ds s"
  "search (T_uncovered b t Is) s = uncovered_from_predecessors search b t Is s"
  "search (T_phi bs ds) s = phi_operands search bs ds s"
  "search (T_callers phi cs ds) s = findDefinitionsFromCalledFun search phi cs ds s"
  "search (T_fill b C ds) s = fillDefinitionsFromCall search b C ds s"
  "search (T_fill_holes b C t Is) s = fill_holes search b C t Is s"
  "search (T_callees phi C ds vs) s = search_callees search phi C ds vs s"
  "search (T_subgraph phi C ds k Is) s = findDefinitionsInSubgraph search phi C ds k Is s"
  "search (T_returns phi ds bs) s = return_blocks search phi ds bs s"
  by (subst search_unfold, simp add: search_task_def)+

text \<open>To evaluate a search, its tasks are unfolded one by one.\<close>

lemmas [code] = search_tasks computeModRef.simps

end
