(* ===== verification/Memory_Query.thy ===== *)
theory Memory_Query
  imports Memory_SSA
begin

text \<open>
  The queries of memory SSA, \<^verbatim>\<open>lib/MemorySSA/MemorySSA.cpp\<close>: collecting all definitions for a use of unknown memory, the
  definitions of a use, and what \<open>getDefinitions\<close> returns, where phi nodes are replaced by what they merge.
\<close>

section \<open>Joining definitions\<close>

fun join_holes :: "nat \<Rightarrow> nat set \<Rightarrow> DiscreteInterval list \<Rightarrow> dmap \<Rightarrow> dmap option" where
  "join_holes t vs [] to = Some to"
| "join_holes t vs (U # Us) to =
     Option.bind (mk_defsite t (istart U) (iv_length U)) (\<lambda>ds.
     Option.bind (dm_add_nodes ds (sorted_list_of_set vs) to) (\<lambda>(_, to'). join_holes t vs Us to'))"

fun join_entries :: "nat \<Rightarrow> nat dimap \<Rightarrow> dmap \<Rightarrow> dmap option" where
  "join_entries t [] to = Some to"
| "join_entries t ((I, vs) # es) to =
     Option.bind (mk_defsite t (istart I) (iv_length I)) (\<lambda>ds.
     Option.bind (undefinedIntervals ds to) (\<lambda>Us.
     Option.bind (join_holes t vs Us to) (join_entries t es)))"

fun join_maps :: "rwgraph \<Rightarrow> bool \<Rightarrow> dmap \<Rightarrow> dmap \<Rightarrow> dmap option" where
  "join_maps G escaping [] to = Some to"
| "join_maps G escaping ((t, im) # from) to =
     (if escaping \<and> \<not> canEscape G t then join_maps G escaping from to
      else Option.bind
        (if \<not> definesTarget t to then map_option snd (dm_add_elems t im to) else join_entries t im to)
        (join_maps G escaping from))"

definition joinDefinitions :: "rwgraph \<Rightarrow> bool \<Rightarrow> Definitions \<Rightarrow> Definitions \<Rightarrow> Definitions option" where
  "joinDefinitions G escaping from to =
     map_option (\<lambda>m. to\<lparr>d_definitions := m, d_unknownWrites := d_unknownWrites to @ d_unknownWrites from\<rparr>)
       (join_maps G escaping (d_definitions from) (d_definitions to))"

text \<open>What a predecessor contributes where paths meet.\<close>

definition add_branch :: "Definitions \<Rightarrow> Definitions \<Rightarrow> Definitions option" where
  "add_branch tmp defs =
     map_option (\<lambda>(_, m). defs\<lparr>d_definitions := m, d_unknownWrites := d_unknownWrites defs @ d_unknownWrites tmp\<rparr>)
       (dm_add_map (d_definitions tmp) (d_definitions defs))"

section \<open>All definitions\<close>

definition add_unknown_writes :: "nat \<Rightarrow> nat list \<Rightarrow> mssa \<Rightarrow> mssa" where
  "add_unknown_writes b ws s = set_defs b ((ms_defs s b)\<lparr>d_unknownWrites := d_unknownWrites (ms_defs s b) @ ws\<rparr>) s"

fun fill_sites :: "nat \<Rightarrow> nat \<Rightarrow> DefSite list \<Rightarrow> mssa \<Rightarrow> mssa option" where
  "fill_sites b C [] s = Some s"
| "fill_sites b C (ds # S) s = Option.bind (search (T_fill b C ds) s) (\<lambda>(_, s'). fill_sites b C S s')"

fun fill_entries :: "nat \<Rightarrow> nat \<Rightarrow> nat \<Rightarrow> nat dimap \<Rightarrow> mssa \<Rightarrow> mssa option" where
  "fill_entries b C t [] s = Some s"
| "fill_entries b C t ((I, vs) # es) s =
     Option.bind (mk_defsite t (istart I) (iv_length I)) (\<lambda>ds.
     Option.bind (search (T_fill b C ds) s) (\<lambda>(_, s'). fill_entries b C t es s'))"

fun fill_maydef :: "nat \<Rightarrow> nat \<Rightarrow> dmap \<Rightarrow> mssa \<Rightarrow> mssa option" where
  "fill_maydef b C [] s = Some s"
| "fill_maydef b C ((t, im) # m) s =
     Option.bind
       (if t = 0 then Some (add_unknown_writes b (concat (map (\<lambda>(I, vs). sorted_list_of_set vs) im)) s)
        else fill_entries b C t im s)
       (fill_maydef b C m)"

fun fill_callees :: "nat \<Rightarrow> nat \<Rightarrow> RWCalledValue list \<Rightarrow> mssa \<Rightarrow> mssa option" where
  "fill_callees b C [] s = Some s"
| "fill_callees b C (CalledValue v # cs) s =
     Option.bind (getAnnotations (ms_g s) v) (\<lambda>A.
     Option.bind (fill_sites b C (an_defs A) s) (\<lambda>s1.
     Option.bind (fill_sites b C (an_overwrites A) s1) (fill_callees b C cs)))"
| "fill_callees b C (CalledSubgraph k # cs) s =
     Option.bind (computeModRef (MR_subgraph k) s) (\<lambda>s1.
     Option.bind (fill_maydef b C (mr_maydef (ms_modref s1 k)) s1) (fill_callees b C cs))"

text \<open>\<open>getBBlockDefinitions\<close> without a site.\<close>

definition allBBlockDefinitions :: "nat \<Rightarrow> mssa \<Rightarrow> mssa option" where
  "allBBlockDefinitions b s =
     (if d_processed (ms_defs s b) then Some s
      else case ms_call s b of
        Some C \<Rightarrow> map_option (\<lambda>s'. set_defs b (setProcessed (ms_defs s' b)) s') (fill_callees b C (rw_callees (ms_node s C)) s)
      | None \<Rightarrow> performLvn b s)"

definition getUnknownPhi :: "nat \<Rightarrow> mssa \<Rightarrow> nat option option" where
  "getUnknownPhi k s =
     Option.bind (dm_get (DefSite 0 (Offset 0) getUnknown) (ms_inputs s k)) (\<lambda>S.
       if S = {} then Some None else if card S = 1 then Some (Some (Min S)) else None)"

datatype ktask =
    K_node nat bool Definitions
  | K_block nat bool Definitions "nat set"
  | K_preds "nat list" bool dmap Definitions "nat set"
  | K_callers nat "nat list"

text \<open>The result of a search of callers is not used; the blocks visited are shared by all predecessors of a node.\<close>

partial_function (option) collectAllDefinitions :: "ktask \<Rightarrow> mssa \<Rightarrow> (Definitions \<times> nat set \<times> mssa) option" where
  "collectAllDefinitions t s =
     (case t of
        K_node n escaping defs \<Rightarrow>
          Option.bind (rw_bblock (ms_node s n)) (\<lambda>b.
          Option.bind (if escaping then findEscapingDefinitionsInBlock n s else findDefinitionsInBlock n None s) (\<lambda>D.
          Option.bind
            (case rb_getSinglePredecessor (ms_g s) b of
               Some p \<Rightarrow> collectAllDefinitions (K_block p escaping defs {}) s
             | None \<Rightarrow> collectAllDefinitions (K_preds (rb_pred (ms_block s b)) escaping (d_kills D) defs {}) s)
            (\<lambda>(defs1, _, s1).
              let k = rb_subgraph (ms_block s b); cs = rs_callers (rwg_subs (ms_g s1) k) in
              Option.bind
                (if cs = [] then Some (defs1, s1)
                 else Option.bind (getUnknownPhi k s1) (\<lambda>old.
                   Option.bind
                     (case old of
                        Some phi \<Rightarrow> Some (phi, s1)
                      | None \<Rightarrow> Option.bind (createPhi (DefSite 0 getUnknown getUnknown) RW_INARG s1) (\<lambda>(phi, s2).
                          Option.bind (summary_addInput k (DefSite 0 getUnknown getUnknown) phi s2) (\<lambda>s3. Some (phi, s3))))
                     (\<lambda>(phi, s2). Option.bind (collectAllDefinitions (K_callers phi cs) s2) (\<lambda>(_, _, s3).
                       Some (defs1\<lparr>d_unknownWrites := d_unknownWrites defs1 @ [phi]\<rparr>, s3)))))
                (\<lambda>(defs2, s4). Option.bind (joinDefinitions (ms_g s4) False defs2 D) (\<lambda>D'.
                  Some (fst (d_swap defs2 D'), {}, s4))))))
      | K_block b escaping defs visited \<Rightarrow>
          if b \<in> visited then Some (defs, visited, s)
          else
            Option.bind (allBBlockDefinitions b s) (\<lambda>s1.
            Option.bind (joinDefinitions (ms_g s1) escaping (ms_defs s1 b) defs) (\<lambda>defs1.
              case rb_getSinglePredecessor (ms_g s1) b of
                Some p \<Rightarrow> collectAllDefinitions (K_block p escaping defs1 (insert b visited)) s1
              | None \<Rightarrow> collectAllDefinitions (K_preds (rb_pred (ms_block s1 b)) escaping (d_definitions defs1) defs1 (insert b visited)) s1))
      | K_preds ps escaping old defs visited \<Rightarrow>
          (case ps of
             [] \<Rightarrow> Some (defs, visited, s)
           | p # ps' \<Rightarrow>
               Option.bind (collectAllDefinitions (K_block p escaping (no_definitions\<lparr>d_definitions := old\<rparr>) visited) s) (\<lambda>(tmp, visited', s1).
               Option.bind (add_branch tmp defs) (\<lambda>defs1. collectAllDefinitions (K_preds ps' escaping old defs1 visited') s1)))
      | K_callers phi cs \<Rightarrow>
          (case cs of
             [] \<Rightarrow> Some (no_definitions, {}, s)
           | C # cs' \<Rightarrow>
               if rw_type (ms_node s C) \<noteq> RW_CALL then None
               else case rw_unknownInput (ms_node s C) of
                 Some callphi \<Rightarrow> collectAllDefinitions (K_callers phi cs') (ms_addDefUse phi [callphi] s)
               | None \<Rightarrow>
                   Option.bind (createPhi (DefSite 0 getUnknown getUnknown) RW_CALLIN s) (\<lambda>(callphi, s1).
                   Option.bind (try_g (addUnknownInput C callphi) s1) (\<lambda>s2.
                   Option.bind (collectAllDefinitions (K_node C True no_definitions) (ms_addDefUse phi [callphi] s2)) (\<lambda>(tmp, _, s3).
                     collectAllDefinitions (K_callers phi cs')
                       (ms_addDefUse callphi (d_unknownWrites tmp)
                         (fold (\<lambda>vs. ms_addDefUse callphi (sorted_list_of_set vs))
                           (concat (map (\<lambda>(t, im). map snd im) (d_definitions tmp))) s3)))))))"

definition findAllDefinitions :: "nat \<Rightarrow> mssa \<Rightarrow> found" where
  "findAllDefinitions n s =
     map_option (\<lambda>(defs, _, s'). (sorted_list_of_set (dm_values (d_definitions defs) \<union> set (d_unknownWrites defs)), s'))
       (collectAllDefinitions (K_node n False no_definitions) s)"

section \<open>The definitions of a use\<close>

fun uses_definitions :: "nat \<Rightarrow> Definitions \<Rightarrow> DefSite list \<Rightarrow> mssa \<Rightarrow> found" where
  "uses_definitions b D [] s = Some ([], s)"
| "uses_definitions b D (ds # S) s =
     Option.bind (d_get ds D) (\<lambda>defSet.
     Option.bind (addUncoveredFromPredecessors search b D ds s) (\<lambda>(more, s1).
       found_then (sorted_list_of_set defSet @ more) (uses_definitions b D S) s1))"

definition findDefinitions :: "nat \<Rightarrow> mssa \<Rightarrow> found" where
  "findDefinitions n s =
     Option.bind (getAnnotations (ms_g s) n) (\<lambda>A.
       if an_uses A = [] then None
       else if uses_unknown A then findAllDefinitions n s
       else case rw_bblock (ms_node s n) of
         None \<Rightarrow> Some ([], s)
       | Some b \<Rightarrow> Option.bind (findDefinitionsInBlock n None s) (\<lambda>D. uses_definitions b D (an_uses A) s))"

partial_function (option) gatherNonPhis :: "bool \<Rightarrow> rwgraph \<Rightarrow> nat list \<Rightarrow> nat set \<Rightarrow> nat set \<Rightarrow> nat set option" where
  "gatherNonPhis intraproc G ns phis ret =
     (case ns of
        [] \<Rightarrow> Some ret
      | n # ns' \<Rightarrow>
          if \<not> isPhi G n \<or> intraproc \<and> isInOut G n then gatherNonPhis intraproc G ns' phis (insert n ret)
          else if n \<in> phis then gatherNonPhis intraproc G ns' phis ret
          else gatherNonPhis intraproc G (rw_defuse (rwg_nodes G n) @ ns') (insert n phis) ret)"

definition gatherNonPhisDefs :: "rwgraph \<Rightarrow> nat list \<Rightarrow> nat list option" where
  "gatherNonPhisDefs G ns = map_option sorted_list_of_set (gatherNonPhis False G ns {} {})"

definition search_use :: "nat \<Rightarrow> mssa \<Rightarrow> mssa option" where
  "search_use n s =
     (if rw_init (ms_node s n) then Some s
      else map_option (\<lambda>(defs, s'). ms_addDefUse n defs s') (findDefinitions n s))"

definition getDefinitions :: "nat \<Rightarrow> mssa \<Rightarrow> found" where
  "getDefinitions use s =
     Option.bind (search_use use s) (\<lambda>s1.
       map_option (\<lambda>defs. (defs, s1)) (gatherNonPhisDefs (ms_g s1) (rw_defuse (ms_node s1 use))))"

definition insertUse :: "nat \<Rightarrow> nat \<Rightarrow> Offset \<Rightarrow> Offset \<Rightarrow> mssa \<Rightarrow> (nat \<times> mssa) option" where
  "insertUse wh mem f len s =
     (let (use, G) = rw_create RW_MU (ms_g s) in
      Option.bind (mk_defsite mem f len) (\<lambda>ds.
      Option.bind (sg_insertBefore use wh (rwg_edges G)) (\<lambda>E.
      Option.bind (rw_bblock (rwg_nodes G wh)) (\<lambda>b.
        map_option (\<lambda>G'. (use, s\<lparr>ms_g := G'\<rparr>)) (rb_insertBefore b use wh (addUse use ds (G\<lparr>rwg_edges := E\<rparr>)))))))"

definition getDefinitions_at :: "nat \<Rightarrow> nat \<Rightarrow> Offset \<Rightarrow> Offset \<Rightarrow> mssa \<Rightarrow> found" where
  "getDefinitions_at wh mem f len s = Option.bind (insertUse wh mem f len s) (\<lambda>(use, s1). getDefinitions use s1)"

section \<open>Running the transformation\<close>

fun find_calls :: "nat list \<Rightarrow> mssa \<Rightarrow> mssa" where
  "find_calls [] s = s"
| "find_calls (b # bs) s =
     find_calls bs
       (case rb_nodes (ms_block s b) of
          [C] \<Rightarrow> if rw_type (ms_node s C) = RW_CALL \<and> callsDefined (ms_g s) C then s\<lparr>ms_call := (ms_call s)(b \<mapsto> C)\<rparr> else s
        | _ \<Rightarrow> s)"

definition ms_initialize :: "mssa \<Rightarrow> mssa option" where
  "ms_initialize s =
     map_option (\<lambda>s1. fold (\<lambda>k. find_calls (rs_bblocks (rwg_subs (ms_g s1) k))) [0..<rwg_nsubs (ms_g s1)] s1)
       (try_g splitBBlocksOnCalls s)"

fun compute_uses :: "nat list \<Rightarrow> mssa \<Rightarrow> mssa option" where
  "compute_uses [] s = Some s"
| "compute_uses (n # ns) s =
     Option.bind (getAnnotations (ms_g s) n) (\<lambda>A.
       Option.bind (if an_uses A = [] then Some s else search_use n s) (compute_uses ns))"

fun compute_blocks :: "nat list \<Rightarrow> mssa \<Rightarrow> mssa option" where
  "compute_blocks [] s = Some s"
| "compute_blocks (b # bs) s = Option.bind (compute_uses (rb_nodes (ms_block s b)) s) (compute_blocks bs)"

fun compute_subgraphs :: "nat list \<Rightarrow> mssa \<Rightarrow> mssa option" where
  "compute_subgraphs [] s = Some s"
| "compute_subgraphs (k # ks) s = Option.bind (compute_blocks (rs_bblocks (rwg_subs (ms_g s) k)) s) (compute_subgraphs ks)"

definition computeAllDefinitions :: "mssa \<Rightarrow> mssa option" where
  "computeAllDefinitions s = compute_subgraphs [0..<rwg_nsubs (ms_g s)] s"

lemmas [code] = collectAllDefinitions.simps gatherNonPhis.simps split_loop.simps

end
