(* ===== verification/Memory_Reach.thy ===== *)
theory Memory_Reach
  imports Memory_Query
begin

text \<open>
  What reaches what, for graphs of one function: the nodes whose definition of a byte may reach a use over a path of blocks, and
  how definitions and phi nodes that the search has found cover them.
\<close>

section \<open>The last definitions in a list of nodes\<close>

definition ann :: "rwgraph \<Rightarrow> nat \<Rightarrow> annotations" where
  "ann G n = (case getAnnotations G n of None \<Rightarrow> no_annotations | Some A \<Rightarrow> A)"

definition may_define :: "rwgraph \<Rightarrow> nat \<Rightarrow> nat \<Rightarrow> Offset \<Rightarrow> bool" where
  "may_define G n t x = (sites_at (an_defs (ann G n)) t x \<or> sites_at (an_overwrites (ann G n)) t x)"

definition must_define :: "rwgraph \<Rightarrow> nat \<Rightarrow> nat \<Rightarrow> Offset \<Rightarrow> bool" where
  "must_define G n t x = sites_at (an_overwrites (ann G n)) t x"

text \<open>A node of the list may define the byte and none behind it overwrites it.\<close>

definition last_def :: "rwgraph \<Rightarrow> nat list \<Rightarrow> nat \<Rightarrow> Offset \<Rightarrow> nat \<Rightarrow> bool" where
  "last_def G ns t x d = (\<exists>xs ys. ns = xs @ d # ys \<and> may_define G d t x \<and> (\<forall>n \<in> set ys. \<not> must_define G n t x))"

definition overwritten :: "rwgraph \<Rightarrow> nat list \<Rightarrow> nat \<Rightarrow> Offset \<Rightarrow> bool" where
  "overwritten G ns t x = (\<exists>n \<in> set ns. must_define G n t x)"

fun ldefs :: "rwgraph \<Rightarrow> nat list \<Rightarrow> nat \<Rightarrow> Offset \<Rightarrow> nat set \<Rightarrow> nat set" where
  "ldefs G [] t x R = R"
| "ldefs G (n # ns) t x R = ldefs G ns t x (if must_define G n t x then {n} else if may_define G n t x then insert n R else R)"

lemma overwritten_simps [simp]:
  "overwritten G [] t x = False" "overwritten G (n # ns) t x = (must_define G n t x \<or> overwritten G ns t x)"
  "overwritten G (xs @ ys) t x = (overwritten G xs t x \<or> overwritten G ys t x)"
  by (auto simp: overwritten_def)

lemma must_may: "must_define G n t x \<Longrightarrow> may_define G n t x"
  by (simp add: must_define_def may_define_def)

lemma ldefs_append [simp]: "ldefs G (xs @ ys) t x R = ldefs G ys t x (ldefs G xs t x R)"
  by (induction xs arbitrary: R) auto

lemma ldefs_split: "ldefs G ns t x R = ldefs G ns t x {} \<union> (if overwritten G ns t x then {} else R)"
proof (induction ns arbitrary: R)
  case (Cons n ns)
  show ?case using Cons.IH [of "insert n R"] Cons.IH [of R] Cons.IH [of "{n}"] by auto
qed simp

lemma last_def_Nil [simp]: "\<not> last_def G [] t x d"
  by (simp add: last_def_def)

lemma last_def_Cons:
  "last_def G (n # ns) t x d = (last_def G ns t x d \<or> d = n \<and> may_define G n t x \<and> \<not> overwritten G ns t x)"
proof
  assume "last_def G (n # ns) t x d"
  then obtain xs ys where xs: "n # ns = xs @ d # ys" "may_define G d t x" "\<forall>n \<in> set ys. \<not> must_define G n t x"
    unfolding last_def_def by blast
  then show "last_def G ns t x d \<or> d = n \<and> may_define G n t x \<and> \<not> overwritten G ns t x"
    by (cases xs) (auto simp: last_def_def overwritten_def)
next
  assume r: "last_def G ns t x d \<or> d = n \<and> may_define G n t x \<and> \<not> overwritten G ns t x"
  show "last_def G (n # ns) t x d"
  proof (cases "last_def G ns t x d")
    case True
    then obtain xs ys where "ns = xs @ d # ys" "may_define G d t x" "\<forall>n \<in> set ys. \<not> must_define G n t x"
      unfolding last_def_def by blast
    then show ?thesis unfolding last_def_def by - (rule exI [of _ "n # xs"], rule exI [of _ ys], simp)
  next
    case False
    then show ?thesis using r unfolding last_def_def overwritten_def by - (rule exI [of _ "[]"], rule exI [of _ ns], auto)
  qed
qed

lemma ldefs_last_def: "(d \<in> ldefs G ns t x {}) = last_def G ns t x d"
proof (induction ns)
  case (Cons n ns)
  show ?case using ldefs_split [of G ns t x "{n}"] Cons.IH must_may [of G n t x] by (auto simp: last_def_Cons)
qed simp

lemma overwritten_last: "overwritten G ns t x \<Longrightarrow> \<exists>n. n \<in> ldefs G ns t x {} \<and> n \<in> set ns \<and> must_define G n t x"
proof (induction ns)
  case (Cons n ns)
  show ?case
  proof (cases "overwritten G ns t x")
    case True
    then have "ldefs G (n # ns) t x {} = ldefs G ns t x {}"
      using ldefs_split [of G ns t x "if must_define G n t x then {n} else if may_define G n t x then {n} else {}"] by simp
    then show ?thesis using Cons.IH [OF True] by auto
  next
    case False
    then have "must_define G n t x" "ldefs G (n # ns) t x {} = ldefs G ns t x {} \<union> {n}"
      using Cons.prems ldefs_split [of G ns t x "{n}"] by simp_all
    then show ?thesis by auto
  qed
qed simp

lemma ldefs_skip: "\<forall>n \<in> set ns. P n \<or> \<not> may_define G n t x \<Longrightarrow> ldefs G ns t x R = ldefs G (filter P ns) t x R"
  by (induction ns arbitrary: R) (auto dest: must_may)

lemma overwritten_skip: "\<forall>n \<in> set ns. P n \<or> \<not> may_define G n t x \<Longrightarrow> overwritten G ns t x = overwritten G (filter P ns) t x"
  by (auto simp: overwritten_def dest: must_may)

section \<open>Local value numbering computes them\<close>

lemma lvn_nodes_ok:
  assumes "defs_ok D" and "\<forall>n \<in> set ns. getAnnotations G n \<noteq> None \<and> annot_ok (isPhi G n) (ann G n)"
  shows "\<exists>D'. lvn_nodes G ns D = Some D' \<and> defs_ok D' \<and> d_processed D' = d_processed D \<and> d_unknownWrites D' = d_unknownWrites D \<and>
    (\<forall>t x. dm_vals (d_definitions D') t x = ldefs G ns t x (dm_vals (d_definitions D) t x)) \<and>
    (\<forall>t x. (dm_at (d_kills D') t x = None) = (dm_at (d_kills D) t x = None \<and> \<not> overwritten G ns t x))"
  using assms
proof (induction ns arbitrary: D)
  case (Cons n ns)
  obtain A where A: "getAnnotations G n = Some A" using Cons.prems(2) by auto
  then have an: "ann G n = A" by (simp add: ann_def)
  then have ok: "annot_ok (isPhi G n) A" using Cons.prems(2) by simp
  obtain D1 where D1: "d_update A (isPhi G n) n D = Some D1" "defs_ok D1" "d_processed D1 = d_processed D"
    "d_unknownWrites D1 = d_unknownWrites D"
    "\<And>t x. dm_vals (d_definitions D1) t x = (if sites_at (an_overwrites A) t x then {n}
       else if sites_at (an_defs A) t x then insert n (dm_vals (d_definitions D) t x) else dm_vals (d_definitions D) t x)"
    "\<And>t x. (dm_at (d_kills D1) t x = None) = (dm_at (d_kills D) t x = None \<and> \<not> sites_at (an_overwrites A) t x)"
    using d_update_ok [OF Cons.prems(1) ok, of n thesis] by blast
  have vals: "dm_vals (d_definitions D1) t x = (if must_define G n t x then {n} else
      if may_define G n t x then insert n (dm_vals (d_definitions D) t x) else dm_vals (d_definitions D) t x)" for t x
    by (simp add: D1(5) must_define_def may_define_def an)
  have kills: "(dm_at (d_kills D1) t x = None) = (dm_at (d_kills D) t x = None \<and> \<not> must_define G n t x)" for t x
    by (simp add: D1(6) must_define_def an)
  obtain D' where "lvn_nodes G ns D1 = Some D'" "defs_ok D'" "d_processed D' = d_processed D1" "d_unknownWrites D' = d_unknownWrites D1"
    "\<forall>t x. dm_vals (d_definitions D') t x = ldefs G ns t x (dm_vals (d_definitions D1) t x)"
    "\<forall>t x. (dm_at (d_kills D') t x = None) = (dm_at (d_kills D1) t x = None \<and> \<not> overwritten G ns t x)"
    using Cons.IH [OF D1(2)] Cons.prems(2) by auto
  then show ?case using A D1(1,3,4) by (intro exI [of _ D']) (simp add: vals kills)
qed simp

section \<open>Reaching definitions\<close>

abbreviation preds :: "rwgraph \<Rightarrow> nat \<Rightarrow> nat list" where
  "preds G b \<equiv> rb_pred (rwg_blocks G b)"

abbreviation block_nodes :: "rwgraph \<Rightarrow> nat \<Rightarrow> nat list" where
  "block_nodes G b \<equiv> rb_nodes (rwg_blocks G b)"

definition writer :: "rwgraph \<Rightarrow> nat \<Rightarrow> bool" where
  "writer G n = (\<not> isPhi G n \<and> (an_defs (ann G n) \<noteq> [] \<or> an_overwrites (ann G n) \<noteq> []))"

text \<open>The program's nodes of a block that write memory, and those before a node.\<close>

definition prog :: "rwgraph \<Rightarrow> nat \<Rightarrow> nat list" where
  "prog G b = filter (writer G) (block_nodes G b)"

definition prog_before :: "rwgraph \<Rightarrow> nat \<Rightarrow> nat \<Rightarrow> nat list" where
  "prog_before G b n = filter (writer G) (takeWhile (\<lambda>m. m \<noteq> n) (block_nodes G b))"

inductive reach_end :: "rwgraph \<Rightarrow> nat \<Rightarrow> Offset \<Rightarrow> nat \<Rightarrow> nat \<Rightarrow> bool" for G t x d where
  here: "last_def G (prog G b) t x d \<Longrightarrow> reach_end G t x d b"
| flow: "\<not> overwritten G (prog G b) t x \<Longrightarrow> p \<in> set (preds G b) \<Longrightarrow> reach_end G t x d p \<Longrightarrow> reach_end G t x d b"

text \<open>The definition of a byte by a node may be the one a use sees.\<close>

definition reaches :: "rwgraph \<Rightarrow> nat \<Rightarrow> Offset \<Rightarrow> nat \<Rightarrow> nat \<Rightarrow> bool" where
  "reaches G t x d u =
     (\<exists>b. rw_bblock (rwg_nodes G u) = Some b \<and>
       (last_def G (prog_before G b u) t x d \<or>
        \<not> overwritten G (prog_before G b u) t x \<and> (\<exists>p \<in> set (preds G b). reach_end G t x d p)))"

section \<open>Covering\<close>

definition phi_at :: "rwgraph \<Rightarrow> nat \<Rightarrow> nat \<Rightarrow> bool" where
  "phi_at G b phi = (phi \<le> rwg_last G \<and> isPhi G phi \<and> rw_bblock (rwg_nodes G phi) = Some b)"

inductive incov :: "rwgraph \<Rightarrow> nat \<Rightarrow> Offset \<Rightarrow> nat set \<Rightarrow> nat \<Rightarrow> bool" for G t x N where
  entry: "preds G b = [] \<Longrightarrow> incov G t x N b"
| phi: "phi \<in> N \<Longrightarrow> phi_at G b phi \<Longrightarrow> must_define G phi t x \<Longrightarrow> incov G t x N b"
| single: "preds G b = [p] \<Longrightarrow> ldefs G (prog G p) t x {} \<subseteq> N \<Longrightarrow> overwritten G (prog G p) t x \<or> incov G t x N p \<Longrightarrow> incov G t x N b"

definition endcov :: "rwgraph \<Rightarrow> nat \<Rightarrow> Offset \<Rightarrow> nat set \<Rightarrow> nat \<Rightarrow> bool" where
  "endcov G t x N b = (ldefs G (prog G b) t x {} \<subseteq> N \<and> (overwritten G (prog G b) t x \<or> incov G t x N b))"

lemma incov_single: "preds G b = [p] \<Longrightarrow> endcov G t x N p \<Longrightarrow> incov G t x N b"
  by (auto simp: endcov_def intro: incov.single)

lemma incov_mono: "incov G t x N b \<Longrightarrow> N \<subseteq> M \<Longrightarrow> incov G t x M b"
proof (induction rule: incov.induct)
  case (single b p)
  then show ?case by (intro incov.single [of G b p]) auto
qed (auto intro: incov.intros)

lemma endcov_mono: "endcov G t x N b \<Longrightarrow> N \<subseteq> M \<Longrightarrow> endcov G t x M b"
  using incov_mono unfolding endcov_def by blast

text \<open>What the operands of phi nodes lead to.\<close>

inductive_set via_phis :: "rwgraph \<Rightarrow> nat set \<Rightarrow> nat set" for G N where
  start: "n \<in> N \<Longrightarrow> n \<in> via_phis G N"
| operand: "phi \<in> via_phis G N \<Longrightarrow> isPhi G phi \<Longrightarrow> n \<in> set (rw_defuse (rwg_nodes G phi)) \<Longrightarrow> n \<in> via_phis G N"

lemma via_phis_trans: "n \<in> via_phis G M \<Longrightarrow> M \<subseteq> via_phis G N \<Longrightarrow> n \<in> via_phis G N"
  by (induction rule: via_phis.induct) (auto intro: via_phis.operand)

definition phi_done :: "rwgraph \<Rightarrow> nat \<Rightarrow> nat \<Rightarrow> bool" where
  "phi_done G b phi =
     (\<forall>t x. must_define G phi t x \<longrightarrow> (\<forall>p \<in> set (preds G b). endcov G t x (set (rw_defuse (rwg_nodes G phi))) p))"

text \<open>When every phi node is finished, what covers the end of a block leads to everything that reaches it.\<close>

lemma cov_reaches:
  assumes fin: "\<And>b phi. phi_at G b phi \<Longrightarrow> phi_done G b phi"
  shows "reach_end G t x d b \<Longrightarrow> endcov G t x N b \<Longrightarrow> d \<in> via_phis G N"
proof (induction arbitrary: N rule: reach_end.induct)
  case (here b)
  then show ?case by (auto simp: endcov_def ldefs_last_def [symmetric] intro: via_phis.start)
next
  case (flow b p)
  have "incov G t x N b" using flow.hyps(1) flow.prems by (simp add: endcov_def)
  then show ?case
  proof cases
    case entry
    then show ?thesis using flow.hyps(2) by simp
  next
    case (phi phi)
    have "endcov G t x (set (rw_defuse (rwg_nodes G phi))) p"
      using fin [OF phi(2)] phi(3) flow.hyps(2) by (simp add: phi_done_def)
    then have "d \<in> via_phis G (set (rw_defuse (rwg_nodes G phi)))" by (rule flow.IH)
    moreover have "set (rw_defuse (rwg_nodes G phi)) \<subseteq> via_phis G N"
      using phi(1,2) by (auto simp: phi_at_def intro: via_phis.intros)
    ultimately show ?thesis by (rule via_phis_trans)
  next
    case (single q)
    then have "p = q" using flow.hyps(2) by simp
    then have "endcov G t x N p" using single by (simp add: endcov_def)
    then show ?thesis by (rule flow.IH)
  qed
qed

lemma incov_reaches:
  assumes fin: "\<And>b phi. phi_at G b phi \<Longrightarrow> phi_done G b phi"
    and "incov G t x N b" and "p \<in> set (preds G b)" and "reach_end G t x d p"
  shows "d \<in> via_phis G N"
  using assms(2)
proof cases
  case entry
  then show ?thesis using assms(3) by simp
next
  case (phi phi)
  have "endcov G t x (set (rw_defuse (rwg_nodes G phi))) p"
    using fin [OF phi(2)] phi(3) assms(3) by (simp add: phi_done_def)
  then have "d \<in> via_phis G (set (rw_defuse (rwg_nodes G phi)))" using cov_reaches [OF fin assms(4)] by blast
  moreover have "set (rw_defuse (rwg_nodes G phi)) \<subseteq> via_phis G N"
    using phi(1,2) by (auto simp: phi_at_def intro: via_phis.intros)
  ultimately show ?thesis by (rule via_phis_trans)
next
  case (single q)
  then have "endcov G t x N p" using assms(3) by (simp add: endcov_def)
  then show ?thesis using cov_reaches [OF fin assms(4)] by blast
qed

end
