(* ===== verification/Memory_Inv.thy ===== *)
theory Memory_Inv
  imports Memory_Reach
begin

text \<open>
  The invariant of the search in graphs of one function, what a search only adds to, and the steps that create phi nodes.
\<close>

section \<open>Growing graphs\<close>

definition same_core :: "rwgraph \<Rightarrow> rwgraph \<Rightarrow> nat \<Rightarrow> bool" where
  "same_core G H n =
     (rw_t H n = rw_t G n \<and> rw_annotations (rwg_nodes H n) = rw_annotations (rwg_nodes G n) \<and>
      rw_callees (rwg_nodes H n) = rw_callees (rwg_nodes G n))"

lemma getAnnotations_cong:
  assumes "same_core G H n" and "\<And>v. CalledValue v \<in> set (rw_callees (rwg_nodes G n)) \<Longrightarrow> same_core G H v"
  shows "getAnnotations H n = getAnnotations G n"
proof -
  have c: "rw_callees (rwg_nodes H n) = rw_callees (rwg_nodes G n)" "rw_t H n = rw_t G n"
    and o: "rw_annotations (rwg_nodes H n) = rw_annotations (rwg_nodes G n)" using assms(1) by (simp_all add: same_core_def)
  then have su: "getSingleUndefined H n = getSingleUndefined G n" and uc: "undefined_callees H n = undefined_callees G n"
    by (simp_all add: getSingleUndefined_def undefined_callees_def)
  have v: "rw_annotations (rwg_nodes H v) = rw_annotations (rwg_nodes G v)" if "CalledValue v \<in> set (rw_callees (rwg_nodes G n))" for v
    using assms(2) [OF that] by (simp add: same_core_def)
  have us: "rw_annotations (rwg_nodes H u) = rw_annotations (rwg_nodes G u)" if "u \<in> set (undefined_callees G n)" for u
    using that v by (auto simp: undefined_callees_def split: RWCalledValue.splits)
  have one: "rw_annotations (rwg_nodes H u) = rw_annotations (rwg_nodes G u)" if "getSingleUndefined G n = Some u" for u
  proof -
    have "rw_callees (rwg_nodes G n) = [CalledValue u]" using that by (auto simp: getSingleUndefined_def split: list.splits RWCalledValue.splits)
    then show ?thesis using v by simp
  qed
  have f: "fold (\<lambda>v k. Option.bind k (\<lambda>S. ds_intersect S (an_overwrites (rw_annotations (rwg_nodes H v))))) vs k =
      fold (\<lambda>v k. Option.bind k (\<lambda>S. ds_intersect S (an_overwrites (rw_annotations (rwg_nodes G v))))) vs k"
    "fold (\<lambda>u S. ds_union S (g (rw_annotations (rwg_nodes H u)))) vs S = fold (\<lambda>u S. ds_union S (g (rw_annotations (rwg_nodes G u)))) vs S"
    if "set vs \<subseteq> set (undefined_callees G n)" for vs k S and g :: "annotations \<Rightarrow> DefSite list"
    using us that by (auto intro!: List.fold_cong)
  have "summarizeAnnotation H n = summarizeAnnotation G n"
  proof (cases "undefined_callees G n")
    case Nil
    then show ?thesis by (simp add: summarizeAnnotation_def c uc o)
  next
    case (Cons u us')
    show ?thesis
    proof (cases us')
      case Nil
      then show ?thesis using Cons us [of u] by (simp add: summarizeAnnotation_def Let_def c uc o)
    next
      case (Cons v vs)
      note l = \<open>undefined_callees G n = u # us'\<close> [unfolded Cons]
      have "set vs \<subseteq> set (undefined_callees G n)" "set (u # v # vs) \<subseteq> set (undefined_callees G n)" by (auto simp: l)
      note f1 = f(1) [OF this(1)] and f2 = f(2) [OF this(2), where g = an_defs] f(2) [OF this(2), where g = an_uses]
      have "rw_annotations (rwg_nodes H u) = rw_annotations (rwg_nodes G u)" "rw_annotations (rwg_nodes H v) = rw_annotations (rwg_nodes G v)"
        using us by (simp_all add: l)
      then show ?thesis using f2 by (simp add: summarizeAnnotation_def Let_def c uc o l f1)
    qed
  qed
  then show ?thesis using one by (auto simp: getAnnotations_def c su o split: option.split)
qed

definition closed_callees :: "rwgraph \<Rightarrow> bool" where
  "closed_callees G = (\<forall>n \<le> rwg_last G. \<forall>v. CalledValue v \<in> set (rw_callees (rwg_nodes G n)) \<longrightarrow> v \<le> rwg_last G)"

lemma ann_core:
  assumes "\<And>m. m \<le> rwg_last G \<Longrightarrow> same_core G H m" and "closed_callees G" and "n \<le> rwg_last G"
  shows "getAnnotations H n = getAnnotations G n" and "ann H n = ann G n" and "isPhi H n = isPhi G n"
proof -
  show g: "getAnnotations H n = getAnnotations G n" using assms by (intro getAnnotations_cong) (auto simp: closed_callees_def)
  then show "ann H n = ann G n" by (simp add: ann_def)
  show "isPhi H n = isPhi G n" using assms(1) [OF assms(3)] by (simp add: same_core_def isPhi_def isInOut_def)
qed

text \<open>A search adds phi nodes; the program and its blocks stay.\<close>

definition ext :: "rwgraph \<Rightarrow> rwgraph \<Rightarrow> bool" where
  "ext G H =
     (rwg_last G \<le> rwg_last H \<and> rwg_subs H = rwg_subs G \<and>
      (\<forall>b. preds H b = preds G b \<and> rb_succ (rwg_blocks H b) = rb_succ (rwg_blocks G b) \<and>
        rb_subgraph (rwg_blocks H b) = rb_subgraph (rwg_blocks G b)) \<and>
      (\<forall>n \<le> rwg_last G. same_core G H n \<and> ann H n = ann G n \<and> rw_bblock (rwg_nodes H n) = rw_bblock (rwg_nodes G n)) \<and>
      (\<forall>b. prog H b = prog G b) \<and>
      (\<forall>b. \<forall>n \<le> rwg_last G. \<not> isPhi G n \<longrightarrow> prog_before H b n = prog_before G b n))"

lemma extD:
  assumes "ext G H"
  shows "rwg_last G \<le> rwg_last H" and "preds H b = preds G b" and "prog H b = prog G b" and "rwg_subs H = rwg_subs G"
    and "n \<le> rwg_last G \<Longrightarrow> ann H n = ann G n" and "n \<le> rwg_last G \<Longrightarrow> isPhi H n = isPhi G n"
    and "n \<le> rwg_last G \<Longrightarrow> rw_bblock (rwg_nodes H n) = rw_bblock (rwg_nodes G n)"
    and "n \<le> rwg_last G \<Longrightarrow> \<not> isPhi G n \<Longrightarrow> prog_before H b n = prog_before G b n"
  using assms by (simp_all add: ext_def isPhi_def isInOut_def same_core_def)

lemma ext_refl [simp]: "ext G G"
  by (simp add: ext_def same_core_def)

lemma ext_trans: "ext G H \<Longrightarrow> ext H K \<Longrightarrow> ext G K"
  unfolding ext_def same_core_def by (simp add: isPhi_def isInOut_def)

lemma ldefs_cong: "\<forall>n \<in> set ns. ann H n = ann G n \<Longrightarrow> ldefs H ns t x R = ldefs G ns t x R \<and> overwritten H ns t x = overwritten G ns t x"
  by (induction ns arbitrary: R) (auto simp: must_define_def may_define_def)

definition old_nodes :: "rwgraph \<Rightarrow> bool" where
  "old_nodes G = (\<forall>b. \<forall>n \<in> set (block_nodes G b). n \<le> rwg_last G)"

lemma prog_ext:
  assumes "ext G H" and "old_nodes G"
  shows "ldefs H (prog H b) t x R = ldefs G (prog G b) t x R" and "overwritten H (prog H b) t x = overwritten G (prog G b) t x"
proof -
  have "\<forall>n \<in> set (prog G b). ann H n = ann G n" using assms extD(5) [OF assms(1)] by (auto simp: prog_def old_nodes_def)
  then show "ldefs H (prog H b) t x R = ldefs G (prog G b) t x R" "overwritten H (prog H b) t x = overwritten G (prog G b) t x"
    using ldefs_cong extD(3) [OF assms(1)] by simp_all
qed

lemma phi_at_ext: "ext G H \<Longrightarrow> phi_at G b phi \<Longrightarrow> phi_at H b phi"
  using extD(1) [of G H] extD(6,7) [of G H phi] by (simp add: phi_at_def)

lemma incov_ext:
  assumes "ext G H" and "old_nodes G"
  shows "incov G t x N b \<Longrightarrow> incov H t x N b"
proof (induction rule: incov.induct)
  case (entry b)
  then show ?case using extD(2) [OF assms(1)] by (intro incov.entry) simp
next
  case (phi phi b)
  have "must_define H phi t x" using phi extD(5) [OF assms(1)] by (simp add: must_define_def phi_at_def)
  then show ?case using phi phi_at_ext [OF assms(1)] by (intro incov.phi) auto
next
  case (single b p)
  then show ?case using extD(2) [OF assms(1)] prog_ext [OF assms] by (intro incov.single [of H b p]) auto
qed

lemma endcov_ext: "ext G H \<Longrightarrow> old_nodes G \<Longrightarrow> endcov G t x N b \<Longrightarrow> endcov H t x N b"
  using incov_ext prog_ext unfolding endcov_def by blast

section \<open>What a search may return\<close>

text \<open>A phi node of the inputs of the function, without a block, and a phi node that defines the bytes of a site.\<close>

definition orphan :: "rwgraph \<Rightarrow> nat \<Rightarrow> bool" where
  "orphan G n = (n \<le> rwg_last G \<and> isPhi G n \<and> rw_bblock (rwg_nodes G n) = None)"

definition phi_site :: "rwgraph \<Rightarrow> nat \<Rightarrow> DefSite \<Rightarrow> bool" where
  "phi_site G n ds =
     (\<forall>t x. must_define G n t x = (t = ds_target ds \<and> x \<in> ds_bytes ds) \<and> may_define G n t x = (t = ds_target ds \<and> x \<in> ds_bytes ds))"

definition site_over :: "rwgraph \<Rightarrow> nat list \<Rightarrow> DefSite \<Rightarrow> bool" where
  "site_over G ns ds = (\<exists>x \<in> ds_bytes ds. overwritten G ns (ds_target ds) x)"

text \<open>From the end of a block, a definition or a phi node is seen over a path on which the site is not overwritten.\<close>

inductive seen :: "rwgraph \<Rightarrow> DefSite \<Rightarrow> nat \<Rightarrow> nat \<Rightarrow> bool" for G ds n where
  here: "x \<in> ds_bytes ds \<Longrightarrow> n \<in> ldefs G (prog G b) (ds_target ds) x {} \<Longrightarrow> seen G ds n b"
| orphan: "orphan G n \<Longrightarrow> seen G ds n b"
| phi: "\<not> site_over G (prog G b) ds \<Longrightarrow> phi_at G b n \<Longrightarrow> phi_site G n ds \<Longrightarrow> seen G ds n b"
| flow: "\<not> site_over G (prog G b) ds \<Longrightarrow> p \<in> set (preds G b) \<Longrightarrow> seen G ds n p \<Longrightarrow> seen G ds n b"

definition seen_start :: "rwgraph \<Rightarrow> DefSite \<Rightarrow> nat \<Rightarrow> nat \<Rightarrow> bool" where
  "seen_start G ds n b =
     (orphan G n \<or> phi_at G b n \<and> phi_site G n ds \<or> (\<exists>p \<in> set (preds G b). seen G ds n p))"

lemma seen_from_start: "\<not> site_over G (prog G b) ds \<Longrightarrow> seen_start G ds n b \<Longrightarrow> seen G ds n b"
  by (auto simp: seen_start_def intro: seen.orphan seen.phi seen.flow)

lemma same_bytes:
  assumes "ds_target u = ds_target v" and "ds_bytes u = ds_bytes v"
  shows "phi_site G n u = phi_site G n v" and "site_over G ns u = site_over G ns v" and "seen G u n b \<Longrightarrow> seen G v n b"
    and "seen_start G u n b \<Longrightarrow> seen_start G v n b"
proof -
  show p: "phi_site G n u = phi_site G n v" and o: "site_over G ns u = site_over G ns v" for ns
    by (simp_all add: phi_site_def site_over_def assms)
  have s: "seen G v n b" if "seen G u n b" for b using that
  proof (induction rule: seen.induct)
    case (here x b)
    then show ?case by (intro seen.here [of x]) (simp_all add: assms)
  next
    case (flow b p)
    then show ?case by (intro seen.flow [of G b v p]) (simp_all add: o)
  qed (simp_all add: seen.orphan seen.phi p o)
  show "seen G u n b \<Longrightarrow> seen G v n b" by (rule s)
  show "seen_start G u n b \<Longrightarrow> seen_start G v n b" using s p by (auto simp: seen_start_def)
qed

lemma orphan_ext: "ext G H \<Longrightarrow> orphan G n \<Longrightarrow> orphan H n"
  using extD(1) [of G H] extD(6,7) [of G H n] by (simp add: orphan_def)

lemma phi_site_ext: "ext G H \<Longrightarrow> n \<le> rwg_last G \<Longrightarrow> phi_site H n ds = phi_site G n ds"
  using extD(5) [of G H n] by (simp add: phi_site_def must_define_def may_define_def)

lemma seen_ext:
  assumes "ext G H" and "old_nodes G"
  shows "seen G ds n b \<Longrightarrow> seen H ds n b" and "seen_start G ds n b \<Longrightarrow> seen_start H ds n b"
proof -
  note e = prog_ext [OF assms]
  have s: "seen H ds n b" if "seen G ds n b" for b using that
  proof (induction rule: seen.induct)
    case (here x b)
    then show ?case by (intro seen.here [of x]) (simp_all add: e)
  next
    case (orphan b)
    then show ?case by (intro seen.orphan orphan_ext [OF assms(1)])
  next
    case (phi b)
    then show ?case using phi_at_ext [OF assms(1)] phi_site_ext [OF assms(1), of n ds]
      by (intro seen.phi) (simp_all add: site_over_def e phi_at_def)
  next
    case (flow b p)
    then show ?case using extD(2) [OF assms(1)] by (intro seen.flow [of H b ds p]) (simp_all add: site_over_def e)
  qed
  show "seen G ds n b \<Longrightarrow> seen H ds n b" by (rule s)
  have p: "phi_at H b n \<and> phi_site H n ds" if "phi_at G b n" "phi_site G n ds"
    using that phi_at_ext [OF assms(1) that(1)] phi_site_ext [OF assms(1), of n ds] by (simp add: phi_at_def)
  have "preds H b = preds G b" by (rule extD(2) [OF assms(1)])
  then show "seen_start G ds n b \<Longrightarrow> seen_start H ds n b"
    unfolding seen_start_def using s p orphan_ext [OF assms(1)] by auto
qed

section \<open>The invariant\<close>

definition rw_wf :: "rwgraph \<Rightarrow> nat set \<Rightarrow> bool" where
  "rw_wf G B =
     (finite B \<and> (\<forall>b \<in> B. set (preds G b) \<subseteq> B) \<and> acyclic {(p, b). b \<in> B \<and> preds G b = [p]} \<and>
      (\<forall>k. rs_callers (rwg_subs G k) = []) \<and> closed_callees G \<and> old_nodes G \<and> finite {n. isPhi G n} \<and>
      (\<forall>b \<in> B. \<forall>n \<in> set (block_nodes G b).
        getAnnotations G n \<noteq> None \<and> annot_ok (isPhi G n) (ann G n) \<and> rw_bblock (rwg_nodes G n) = Some b))"

text \<open>Two accesses are to the same bytes or to different ones: no site of \<open>C\<close> overlaps another in part. Then all or no bytes of a
  site are overwritten.\<close>

definition cells_ok :: "DefSite set \<Rightarrow> bool" where
  "cells_ok C = (\<forall>u \<in> C. \<forall>v \<in> C. ds_target u = ds_target v \<longrightarrow> ds_bytes u = ds_bytes v \<or> ds_bytes u \<inter> ds_bytes v = {})"

definition is_cell :: "DefSite set \<Rightarrow> DefSite \<Rightarrow> bool" where
  "is_cell C ds = (\<exists>u \<in> C. ds_target u = ds_target ds \<and> ds_bytes u = ds_bytes ds)"

definition whole :: "DefSite set \<Rightarrow> (nat \<Rightarrow> Offset \<Rightarrow> bool) \<Rightarrow> bool" where
  "whole C K = (\<forall>u. is_cell C u \<longrightarrow> (\<forall>x \<in> ds_bytes u. K (ds_target u) x) \<or> (\<forall>x \<in> ds_bytes u. \<not> K (ds_target u) x))"

lemma cells_same:
  "cells_ok C \<Longrightarrow> is_cell C u \<Longrightarrow> is_cell C v \<Longrightarrow> ds_target u = ds_target v \<Longrightarrow> x \<in> ds_bytes u \<Longrightarrow> x \<in> ds_bytes v \<Longrightarrow>
    ds_bytes u = ds_bytes v"
  unfolding cells_ok_def is_cell_def by (metis disjoint_iff)

lemma whole_overwritten:
  assumes "cells_ok C" and "\<forall>n \<in> set ns. \<forall>ds \<in> set (an_overwrites (ann G n)). is_cell C ds"
  shows "whole C (overwritten G ns)"
proof -
  have "overwritten G ns (ds_target u) y" if u: "is_cell C u" "x \<in> ds_bytes u" "y \<in> ds_bytes u" "overwritten G ns (ds_target u) x" for u x y
  proof -
    obtain n ds where n: "n \<in> set ns" "ds \<in> set (an_overwrites (ann G n))" "ds_target ds = ds_target u" "x \<in> ds_bytes ds"
      using u(4) by (auto simp: overwritten_def must_define_def sites_at_def)
    then have "ds_bytes ds = ds_bytes u" using cells_same [OF assms(1) _ u(1), of ds x] assms(2) u(2) by blast
    then show ?thesis using n u(3) by (auto simp: overwritten_def must_define_def sites_at_def)
  qed
  then show ?thesis unfolding whole_def by blast
qed

text \<open>The definitions of a block: nothing before it is processed; then the last definitions of the program's nodes are among
  them, and a byte that is marked as overwritten is so by a node of the program or is defined by a phi node.\<close>

definition block_defs_ok :: "DefSite set \<Rightarrow> rwgraph \<Rightarrow> nat \<Rightarrow> Definitions \<Rightarrow> bool" where
  "block_defs_ok C G b D =
     (if d_processed D then
        defs_ok D \<and> d_unknownWrites D = [] \<and> (\<forall>t x. finite (dm_vals (d_definitions D) t x)) \<and> whole C (\<lambda>t x. dm_at (d_kills D) t x \<noteq> None) \<and>
        (\<forall>t x. ldefs G (prog G b) t x {} \<subseteq> dm_vals (d_definitions D) t x \<and>
          (dm_at (d_kills D) t x \<noteq> None \<longrightarrow> overwritten G (prog G b) t x \<or> preds G b = [] \<or>
             (\<exists>phi \<in> dm_vals (d_definitions D) t x. phi_at G b phi \<and> must_define G phi t x)))
      else D = no_definitions)"

definition phis_first :: "rwgraph \<Rightarrow> nat \<Rightarrow> bool" where
  "phis_first G b = (block_nodes G b = filter (isPhi G) (block_nodes G b) @ filter (\<lambda>n. \<not> isPhi G n) (block_nodes G b))"

text \<open>Phi nodes have one site and merge what is seen from the predecessors of their block; the definitions of a processed block
  are its last definitions, and phi nodes where the program does not overwrite.\<close>

definition phi_sound :: "DefSite set \<Rightarrow> nat set \<Rightarrow> rwgraph \<Rightarrow> nat \<Rightarrow> bool" where
  "phi_sound C B G phi =
     (\<exists>ds. is_cell C ds \<and> phi_site G phi ds \<and>
       (orphan G phi \<and> rw_defuse (rwg_nodes G phi) = [] \<or>
        (\<exists>b \<in> B. phi_at G b phi \<and> (\<forall>n \<in> set (rw_defuse (rwg_nodes G phi)). \<exists>p \<in> set (preds G b). seen G ds n p))))"

definition block_sound :: "rwgraph \<Rightarrow> nat \<Rightarrow> Definitions \<Rightarrow> bool" where
  "block_sound G b D =
     (d_processed D \<longrightarrow>
       (\<forall>t x. (overwritten G (prog G b) t x \<longrightarrow> dm_at (d_kills D) t x \<noteq> None) \<and>
         (\<forall>n \<in> dm_vals (d_definitions D) t x. n \<in> ldefs G (prog G b) t x {} \<or>
           \<not> overwritten G (prog G b) t x \<and> (phi_at G b n \<or> orphan G n) \<and> may_define G n t x)))"

definition exact :: "DefSite set \<Rightarrow> nat set \<Rightarrow> rwgraph \<Rightarrow> (nat \<Rightarrow> Definitions) \<Rightarrow> bool" where
  "exact C B G defs = ((\<forall>n \<le> rwg_last G. isPhi G n \<longrightarrow> phi_sound C B G n) \<and> (\<forall>b \<in> B. block_sound G b (defs b)))"

lemma phi_sound_ext:
  assumes "ext G H" and "old_nodes G" and "phi \<le> rwg_last G" and "phi_sound C B G phi"
    and "rw_defuse (rwg_nodes H phi) = rw_defuse (rwg_nodes G phi)"
  shows "phi_sound C B H phi"
proof -
  obtain ds where ds: "is_cell C ds" "phi_site G phi ds" and c: "orphan G phi \<and> rw_defuse (rwg_nodes G phi) = [] \<or>
      (\<exists>b \<in> B. phi_at G b phi \<and> (\<forall>n \<in> set (rw_defuse (rwg_nodes G phi)). \<exists>p \<in> set (preds G b). seen G ds n p))"
    using assms(4) by (auto simp: phi_sound_def)
  have "orphan H phi \<and> rw_defuse (rwg_nodes H phi) = [] \<or>
      (\<exists>b \<in> B. phi_at H b phi \<and> (\<forall>n \<in> set (rw_defuse (rwg_nodes H phi)). \<exists>p \<in> set (preds H b). seen H ds n p))"
    using c orphan_ext [OF assms(1)] phi_at_ext [OF assms(1)] seen_ext(1) [OF assms(1,2)] extD(2) [OF assms(1)] assms(5)
    by simp blast
  then show ?thesis using ds phi_site_ext [OF assms(1,3)] unfolding phi_sound_def by blast
qed

lemma block_sound_ext:
  assumes "ext G H" and "old_nodes G" and "block_sound G b D"
  shows "block_sound H b D"
proof -
  have "(phi_at H b n \<or> orphan H n) \<and> may_define H n t x" if "phi_at G b n \<or> orphan G n" "may_define G n t x" for n t x
  proof -
    have "n \<le> rwg_last G" using that(1) by (auto simp: phi_at_def orphan_def)
    then show ?thesis using that phi_at_ext [OF assms(1)] orphan_ext [OF assms(1)] extD(5) [OF assms(1), of n] by (auto simp: may_define_def)
  qed
  then show ?thesis using assms(3) prog_ext [OF assms(1,2)] unfolding block_sound_def by simp blast
qed

definition inv :: "DefSite set \<Rightarrow> nat set \<Rightarrow> nat set \<Rightarrow> mssa \<Rightarrow> bool" where
  "inv C B Q s =
     (rw_wf (ms_g s) B \<and> cells_ok C \<and> (\<forall>b. ms_call s b = None) \<and> (\<forall>k. dm_wf (ms_inputs s k)) \<and>
      (\<forall>b \<in> B. \<forall>n \<in> set (block_nodes (ms_g s) b). \<forall>ds \<in> set (an_overwrites (ann (ms_g s) n)). is_cell C ds) \<and>
      (\<forall>b \<in> B. phis_first (ms_g s) b \<and> block_defs_ok C (ms_g s) b (ms_defs s b)) \<and>
      (\<forall>b phi. phi_at (ms_g s) b phi \<longrightarrow> phi \<notin> Q \<longrightarrow> phi_done (ms_g s) b phi) \<and> exact C B (ms_g s) (ms_defs s))"

definition ms_grows :: "nat set \<Rightarrow> mssa \<Rightarrow> mssa \<Rightarrow> bool" where
  "ms_grows B s s' =
     (ext (ms_g s) (ms_g s') \<and>
      (\<forall>n \<le> rwg_last (ms_g s). \<not> isPhi (ms_g s) n \<longrightarrow> ms_node s' n = ms_node s n) \<and>
      (\<forall>b \<in> B. d_processed (ms_defs s b) \<longrightarrow> d_processed (ms_defs s' b) \<and>
        (\<forall>t x. dm_at (d_kills (ms_defs s b)) t x \<noteq> None \<longrightarrow> dm_at (d_kills (ms_defs s' b)) t x \<noteq> None)))"

lemma ms_grows_refl [simp]: "ms_grows B s s"
  by (simp add: ms_grows_def)

lemma ms_grows_trans: "ms_grows B s s' \<Longrightarrow> ms_grows B s' s'' \<Longrightarrow> ms_grows B s s''"
  unfolding ms_grows_def using ext_trans [of "ms_g s" "ms_g s'" "ms_g s''"] extD(1,6) [of "ms_g s" "ms_g s'"]
  by (metis order.trans)

lemma ms_grows_ext: "ms_grows B s s' \<Longrightarrow> ext (ms_g s) (ms_g s')"
  by (simp add: ms_grows_def)

lemma inv_wf: "inv C B Q s \<Longrightarrow> rw_wf (ms_g s) B" "inv C B Q s \<Longrightarrow> old_nodes (ms_g s)" "inv C B Q s \<Longrightarrow> finite B"
  "inv C B Q s \<Longrightarrow> b \<in> B \<Longrightarrow> set (preds (ms_g s) b) \<subseteq> B" "inv C B Q s \<Longrightarrow> b \<in> B \<Longrightarrow> block_defs_ok C (ms_g s) b (ms_defs s b)"
  by (simp_all add: inv_def rw_wf_def)

section \<open>The bytes left\<close>

lemma finite_Offset: "finite (UNIV :: Offset set)"
proof -
  have "(UNIV :: Offset set) \<subseteq> Offset ` UNIV" using Offset.exhaust_sel by blast
  then show ?thesis by (rule finite_subset) simp
qed

definition open_bytes :: "nat \<Rightarrow> mssa \<Rightarrow> nat \<Rightarrow> Offset set" where
  "open_bytes t s b = {x. \<not> (d_processed (ms_defs s b) \<and> dm_at (d_kills (ms_defs s b)) t x \<noteq> None)}"

definition bytes_left :: "nat \<Rightarrow> nat set \<Rightarrow> mssa \<Rightarrow> nat" where
  "bytes_left t B s = (\<Sum>b \<in> B. card (open_bytes t s b))"

lemma open_bytes_mono: "ms_grows B s s' \<Longrightarrow> b \<in> B \<Longrightarrow> open_bytes t s' b \<subseteq> open_bytes t s b"
  unfolding ms_grows_def open_bytes_def by blast

lemma finite_open: "finite (open_bytes t s b)"
  by (rule finite_subset [OF subset_UNIV finite_Offset])

lemma bytes_left_mono: "ms_grows B s s' \<Longrightarrow> bytes_left t B s' \<le> bytes_left t B s"
  unfolding bytes_left_def by (intro sum_mono card_mono finite_open) (rule open_bytes_mono)

lemma bytes_left_less:
  assumes "ms_grows B s s'" and "finite B" and "b \<in> B" and "x \<in> open_bytes t s b" and "x \<notin> open_bytes t s' b"
  shows "bytes_left t B s' < bytes_left t B s"
proof -
  have "card (open_bytes t s' b) < card (open_bytes t s b)"
    using open_bytes_mono [OF assms(1,3), of t] assms(4,5) finite_open by (intro psubset_card_mono) auto
  moreover have "\<forall>c \<in> B. card (open_bytes t s' c) \<le> card (open_bytes t s c)"
    using card_mono [OF finite_open open_bytes_mono [OF assms(1)]] by blast
  ultimately show ?thesis unfolding bytes_left_def using assms(2,3) by (intro sum_strict_mono_ex1) auto
qed

section \<open>Processing a block\<close>

lemma no_definitions_ok: "defs_ok no_definitions"
  by (simp add: defs_ok_def no_definitions_def)

lemma finite_ldefs: "finite R \<Longrightarrow> finite (ldefs G ns t x R)"
  by (induction ns arbitrary: R) auto

lemma phis_first_sorted:
  "(ns = filter P ns @ filter (\<lambda>n. \<not> P n) ns) = sorted_wrt (\<lambda>m n. P n \<longrightarrow> P m) ns"
proof (induction ns)
  case (Cons n ns)
  show ?case
  proof (cases "P n")
    case False
    have "(n # ns = filter P ns @ n # filter (\<lambda>n. \<not> P n) ns) = (\<forall>m \<in> set ns. \<not> P m)"
    proof (cases "filter P ns")
      case Nil
      then show ?thesis by (metis append_Nil filter_False filter_True filter_empty_conv)
    next
      case (Cons m ms)
      then have "P m" "m \<in> set ns" using filter_eq_ConsD by fastforce+
      then show ?thesis using False Cons by auto
    qed
    moreover have "(\<forall>m \<in> set ns. \<not> P m) \<Longrightarrow> sorted_wrt (\<lambda>m n. P n \<longrightarrow> P m) ns" by (induction ns) auto
    ultimately show ?thesis using False by auto
  qed (use Cons.IH in auto)
qed simp

lemma phis_first_prefix: "phis_first G b \<Longrightarrow> block_nodes G b = xs @ ys \<Longrightarrow> xs = filter (isPhi G) xs @ filter (\<lambda>n. \<not> isPhi G n) xs"
  unfolding phis_first_def by (simp only: phis_first_sorted sorted_wrt_append)

text \<open>Local value numbering of the first nodes of a block.\<close>

lemma lvn_prefix_ok:
  assumes "rw_wf G B" and b: "b \<in> B" and ns: "phis_first G b" "block_nodes G b = xs @ ys" and cells: "cells_ok C"
    "\<forall>n \<in> set (block_nodes G b). \<forall>ds \<in> set (an_overwrites (ann G n)). is_cell C ds"
  obtains D where "lvn_nodes G xs no_definitions = Some D" and "defs_ok D" and "d_unknownWrites D = []"
    and "\<forall>t x. finite (dm_vals (d_definitions D) t x)" and "whole C (\<lambda>t x. dm_at (d_kills D) t x \<noteq> None)"
    and "\<forall>t x. ldefs G (filter (writer G) xs) t x {} \<subseteq> dm_vals (d_definitions D) t x \<and>
      (dm_at (d_kills D) t x \<noteq> None \<longrightarrow> overwritten G (filter (writer G) xs) t x \<or>
        (\<exists>phi \<in> dm_vals (d_definitions D) t x. phi_at G b phi \<and> must_define G phi t x))"
    and "\<forall>t x. (overwritten G (filter (writer G) xs) t x \<longrightarrow> dm_at (d_kills D) t x \<noteq> None) \<and>
      (\<forall>n \<in> dm_vals (d_definitions D) t x. n \<in> ldefs G (filter (writer G) xs) t x {} \<or>
        \<not> overwritten G (filter (writer G) xs) t x \<and> phi_at G b n \<and> may_define G n t x)"
proof -
  let ?w = "filter (writer G) xs" and ?ph = "filter (isPhi G) xs" and ?rest = "filter (\<lambda>n. \<not> isPhi G n) xs"
  have "\<forall>n \<in> set xs. getAnnotations G n \<noteq> None \<and> annot_ok (isPhi G n) (ann G n)" using assms(1) b ns(2) by (simp add: rw_wf_def)
  then obtain D where D: "lvn_nodes G xs no_definitions = Some D" "defs_ok D" "d_unknownWrites D = []"
    "\<forall>t x. dm_vals (d_definitions D) t x = ldefs G xs t x {}"
    "\<forall>t x. (dm_at (d_kills D) t x = None) = (\<not> overwritten G xs t x)"
    using lvn_nodes_ok [OF no_definitions_ok, of xs G] by (auto simp: no_definitions_def)
  have split: "xs = ?ph @ ?rest" by (rule phis_first_prefix [OF ns])
  have w: "?w = filter (writer G) ?rest" by (auto simp: writer_def intro: filter_cong)
  have sk: "\<forall>n \<in> set ?rest. writer G n \<or> \<not> may_define G n t x" for t x
    by (auto simp: writer_def may_define_def)
  have p: "ldefs G ?rest t x R = ldefs G ?w t x R" "overwritten G ?rest t x = overwritten G ?w t x" for t x R
    using ldefs_skip [OF sk] overwritten_skip [OF sk] by (simp_all only: w)
  have e: "ldefs G xs t x {} = ldefs G ?w t x (ldefs G ?ph t x {})"
    "overwritten G xs t x = (overwritten G ?ph t x \<or> overwritten G ?w t x)" for t x
    by (subst split, simp only: ldefs_append overwritten_simps p)+
  have at: "phi_at G b phi" if "phi \<in> set ?ph" for phi
  proof -
    have "phi \<in> set (block_nodes G b)" "isPhi G phi" using that ns(2) by simp_all
    then show ?thesis using assms(1) b by (simp add: phi_at_def rw_wf_def old_nodes_def)
  qed
  have c1: "\<exists>phi \<in> ldefs G xs t x {}. phi_at G b phi \<and> must_define G phi t x"
    if o: "overwritten G xs t x" "\<not> overwritten G ?w t x" for t x
  proof -
    obtain phi where phi: "phi \<in> ldefs G ?ph t x {}" "phi \<in> set ?ph" "must_define G phi t x"
      using overwritten_last [of G ?ph t x] o e(2) by blast
    have "phi_at G b phi" by (rule at [OF phi(2)])
    moreover have "phi \<in> ldefs G xs t x {}" using phi(1) o(2) ldefs_split [of G ?w t x "ldefs G ?ph t x {}"] by (simp add: e(1))
    ultimately show ?thesis using phi(3) by blast
  qed
  have c2: "ldefs G ?w t x {} \<subseteq> ldefs G xs t x {}" for t x
    using ldefs_split [of G ?w t x "ldefs G ?ph t x {}"] by (auto simp: e(1))
  have wh: "whole C (overwritten G xs)" using cells(2) ns(2) by (intro whole_overwritten [OF cells(1)]) auto
  have fin: "finite (ldefs G xs t x {})" for t x by (rule finite_ldefs) simp
  have c3: "n \<in> ldefs G ?w t x {} \<or> \<not> overwritten G ?w t x \<and> phi_at G b n \<and> may_define G n t x"
    if "n \<in> ldefs G xs t x {}" for n t x
  proof (cases "n \<in> ldefs G ?w t x {}")
    case False
    then have "\<not> overwritten G ?w t x" "last_def G ?ph t x n"
      using that ldefs_split [of G ?w t x "ldefs G ?ph t x {}"] by (auto simp: e(1) ldefs_last_def split: if_splits)
    moreover from this(2) have "n \<in> set ?ph" "may_define G n t x" by (auto simp: last_def_def simp del: set_filter)
    ultimately show ?thesis using at by blast
  qed simp
  have kills: "dm_at (d_kills D) t x \<noteq> None \<longleftrightarrow> overwritten G xs t x" for t x using D(5) by metis
  show ?thesis
  proof (rule that [OF D(1-3)])
    show "\<forall>t x. finite (dm_vals (d_definitions D) t x)" using D(4) fin by simp
    show "whole C (\<lambda>t x. dm_at (d_kills D) t x \<noteq> None)" using wh by (simp only: kills)
    show "\<forall>t x. ldefs G ?w t x {} \<subseteq> dm_vals (d_definitions D) t x \<and> (dm_at (d_kills D) t x \<noteq> None \<longrightarrow> overwritten G ?w t x \<or>
        (\<exists>phi \<in> dm_vals (d_definitions D) t x. phi_at G b phi \<and> must_define G phi t x))"
      unfolding kills using c1 c2 D(4) by simp blast
    show "\<forall>t x. (overwritten G ?w t x \<longrightarrow> dm_at (d_kills D) t x \<noteq> None) \<and> (\<forall>n \<in> dm_vals (d_definitions D) t x.
        n \<in> ldefs G ?w t x {} \<or> \<not> overwritten G ?w t x \<and> phi_at G b n \<and> may_define G n t x)"
      unfolding kills using c3 D(4) e(2) by simp
  qed
qed

lemma lvn_block_ok:
  assumes "rw_wf G B" and "b \<in> B" and "phis_first G b" and "cells_ok C"
    "\<forall>n \<in> set (block_nodes G b). \<forall>ds \<in> set (an_overwrites (ann G n)). is_cell C ds"
  obtains D where "lvn_nodes G (block_nodes G b) no_definitions = Some D" and "block_defs_ok C G b (setProcessed D)"
    and "block_sound G b (setProcessed D)"
proof (rule lvn_prefix_ok [OF assms(1-3) append_Nil2 [symmetric] assms(4,5)])
  fix D
  assume "lvn_nodes G (block_nodes G b) no_definitions = Some D" and D: "defs_ok D" "d_unknownWrites D = []"
    "\<forall>t x. finite (dm_vals (d_definitions D) t x)" "whole C (\<lambda>t x. dm_at (d_kills D) t x \<noteq> None)"
    "\<forall>t x. ldefs G (filter (writer G) (block_nodes G b)) t x {} \<subseteq> dm_vals (d_definitions D) t x \<and>
      (dm_at (d_kills D) t x \<noteq> None \<longrightarrow> overwritten G (filter (writer G) (block_nodes G b)) t x \<or>
        (\<exists>phi \<in> dm_vals (d_definitions D) t x. phi_at G b phi \<and> must_define G phi t x))"
    "\<forall>t x. (overwritten G (filter (writer G) (block_nodes G b)) t x \<longrightarrow> dm_at (d_kills D) t x \<noteq> None) \<and>
      (\<forall>n \<in> dm_vals (d_definitions D) t x. n \<in> ldefs G (filter (writer G) (block_nodes G b)) t x {} \<or>
        \<not> overwritten G (filter (writer G) (block_nodes G b)) t x \<and> phi_at G b n \<and> may_define G n t x)"
  moreover have "block_sound G b (setProcessed D)"
    using D(6) by (simp add: block_sound_def setProcessed_def prog_def) blast
  moreover have "block_defs_ok C G b (setProcessed D)"
    using D(1-5) by (simp add: block_defs_ok_def setProcessed_def defs_ok_def prog_def) blast
  ultimately show ?thesis using that by blast
qed

lemma get_ok:
  assumes "inv C B Q s" and "b \<in> B"
  obtains s' where "search (T_get b ds) s = Some ([], s')" and "inv C B Q s'" and "ms_grows B s s'" and "ms_g s' = ms_g s"
    and "d_processed (ms_defs s' b)"
proof (cases "d_processed (ms_defs s b)")
  case True
  then show ?thesis using assms(1) by (intro that [of s]) (simp_all add: search_tasks(3) getBBlockDefinitions_def)
next
  case False
  have no: "ms_defs s b = no_definitions" using inv_wf(5) [OF assms] False by (simp add: block_defs_ok_def)
  have "phis_first (ms_g s) b" using assms by (simp add: inv_def)
  then obtain D where D: "lvn_nodes (ms_g s) (block_nodes (ms_g s) b) no_definitions = Some D"
    "block_defs_ok C (ms_g s) b (setProcessed D)" "block_sound (ms_g s) b (setProcessed D)"
  proof -
    have "cells_ok C" "\<forall>n \<in> set (block_nodes (ms_g s) b). \<forall>ds \<in> set (an_overwrites (ann (ms_g s) n)). is_cell C ds"
      using assms by (simp_all add: inv_def)
    then show ?thesis using lvn_block_ok [OF inv_wf(1) [OF assms(1)] assms(2) \<open>phis_first (ms_g s) b\<close>] that by blast
  qed
  let ?s = "set_defs b (setProcessed D) s"
  have "ms_call s b = None" using assms(1) by (simp add: inv_def)
  then have "search (T_get b ds) s = Some ([], ?s)"
    using False D(1) by (simp add: search_tasks(3) getBBlockDefinitions_def performLvn_def no)
  moreover have "inv C B Q ?s" using assms(1) D(2,3) by (simp add: inv_def set_defs_def exact_def)
  moreover have "ms_grows B s ?s" using False by (simp add: ms_grows_def set_defs_def)
  ultimately show ?thesis by (intro that [of ?s]) (simp_all add: set_defs_def setProcessed_def)
qed

end
