(* ===== verification/Memory_Phi.thy ===== *)
theory Memory_Phi
  imports Memory_Inv
begin

text \<open>The steps of the search that create phi nodes keep the invariant, up to the operands of the new node.\<close>

section \<open>A new phi node\<close>

definition adds_phi :: "rwgraph \<Rightarrow> rwgraph \<Rightarrow> nat \<Rightarrow> DefSite \<Rightarrow> nat option \<Rightarrow> bool" where
  "adds_phi G H phi ds bo =
     (phi = Suc (rwg_last G) \<and> rwg_last H = phi \<and> rwg_subs H = rwg_subs G \<and>
      (\<forall>n. n \<noteq> phi \<longrightarrow> rwg_nodes H n = rwg_nodes G n) \<and>
      isPhi H phi \<and> rw_annotations (rwg_nodes H phi) = \<lparr>an_defs = [], an_overwrites = [ds], an_uses = []\<rparr> \<and>
      rw_callees (rwg_nodes H phi) = [] \<and> rw_bblock (rwg_nodes H phi) = bo \<and> rw_defuse (rwg_nodes H phi) = [] \<and>
      (\<forall>b. rwg_blocks H b = (if bo = Some b then (rwg_blocks G b)\<lparr>rb_nodes := phi # block_nodes G b\<rparr> else rwg_blocks G b)))"

lemma adds_phiD:
  assumes "adds_phi G H phi ds bo"
  shows "phi = Suc (rwg_last G)" and "rwg_last H = phi" and "rwg_subs H = rwg_subs G"
    and "n \<noteq> phi \<Longrightarrow> rwg_nodes H n = rwg_nodes G n" and "isPhi H phi"
    and "rw_annotations (rwg_nodes H phi) = \<lparr>an_defs = [], an_overwrites = [ds], an_uses = []\<rparr>"
    and "rw_callees (rwg_nodes H phi) = []" and "rw_bblock (rwg_nodes H phi) = bo" and "rw_defuse (rwg_nodes H phi) = []"
    and "rwg_blocks H b = (if bo = Some b then (rwg_blocks G b)\<lparr>rb_nodes := phi # block_nodes G b\<rparr> else rwg_blocks G b)"
    and "block_nodes H b = (if bo = Some b then phi # block_nodes G b else block_nodes G b)"
proof -
  note a = assms [unfolded adds_phi_def]
  show "phi = Suc (rwg_last G)" "rwg_last H = phi" "rwg_subs H = rwg_subs G" "n \<noteq> phi \<Longrightarrow> rwg_nodes H n = rwg_nodes G n" "isPhi H phi"
    "rw_annotations (rwg_nodes H phi) = \<lparr>an_defs = [], an_overwrites = [ds], an_uses = []\<rparr>"
    "rw_callees (rwg_nodes H phi) = []" "rw_bblock (rwg_nodes H phi) = bo" "rw_defuse (rwg_nodes H phi) = []"
    "rwg_blocks H b = (if bo = Some b then (rwg_blocks G b)\<lparr>rb_nodes := phi # block_nodes G b\<rparr> else rwg_blocks G b)"
    using a by blast+
  then show "block_nodes H b = (if bo = Some b then phi # block_nodes G b else block_nodes G b)" by simp
qed

lemma phi_ann: "isPhi H phi \<Longrightarrow> ann H phi = rw_annotations (rwg_nodes H phi) \<and> getAnnotations H phi \<noteq> None"
  by (auto simp: ann_def getAnnotations_def isPhi_def isInOut_def)

lemma adds_phi_core:
  assumes "adds_phi G H phi ds bo" and "closed_callees G" and "n \<le> rwg_last G"
  shows "getAnnotations H n = getAnnotations G n" and "ann H n = ann G n" and "isPhi H n = isPhi G n"
    and "rwg_nodes H n = rwg_nodes G n"
proof -
  have "rwg_nodes H m = rwg_nodes G m" if "m \<le> rwg_last G" for m using adds_phiD(1,4) [OF assms(1)] that by fastforce
  then have c: "same_core G H m" if "m \<le> rwg_last G" for m using that by (simp add: same_core_def)
  show "getAnnotations H n = getAnnotations G n" "ann H n = ann G n" "isPhi H n = isPhi G n"
    using ann_core [OF c assms(2,3)] by simp_all
  show "rwg_nodes H n = rwg_nodes G n" using adds_phiD(1,4) [OF assms(1)] assms(3) by fastforce
qed

lemma adds_phi_ext:
  assumes a: "adds_phi G H phi ds bo" and "closed_callees G" and o: "old_nodes G"
  shows "ext G H"
proof -
  note C = adds_phi_core [OF a assms(2)]
  have last: "rwg_last G \<le> rwg_last H" "phi = Suc (rwg_last G)" using adds_phiD(1,2) [OF a] by simp_all
  have "isPhi H phi" by (rule adds_phiD(5) [OF a])
  then have np: "\<not> writer H phi" by (simp add: writer_def)
  have w: "writer H n = writer G n" if "n \<in> set (block_nodes G b)" for n b
    using that o C(2,3) [of n] by (auto simp: writer_def old_nodes_def)
  note bn = adds_phiD(11) [OF a]
  have "prog H b = prog G b" for b using np w [of _ b] by (auto simp: prog_def bn intro: filter_cong)
  moreover have "prog_before H b n = prog_before G b n" if "n \<le> rwg_last G" for b n
  proof -
    have "n \<noteq> phi" using that last(2) by simp
    moreover have "\<forall>m \<in> set (takeWhile (\<lambda>m. m \<noteq> n) (block_nodes G b)). writer H m = writer G m" using w [of _ b] by (auto dest: set_takeWhileD)
    ultimately show ?thesis using np by (auto simp: prog_before_def bn intro: filter_cong)
  qed
  moreover have "rwg_subs H = rwg_subs G" "\<forall>b. preds H b = preds G b \<and> rb_succ (rwg_blocks H b) = rb_succ (rwg_blocks G b) \<and>
        rb_subgraph (rwg_blocks H b) = rb_subgraph (rwg_blocks G b)"
    using adds_phiD(3,10) [OF a] by auto
  ultimately show ?thesis using C last by (simp add: ext_def same_core_def)
qed

lemma adds_phi_wf:
  assumes a: "adds_phi G H phi ds bo" and wf: "rw_wf G B" and ds: "ds_ok ds" "ds_target ds \<noteq> 0"
  shows "rw_wf H B"
proof -
  have cc: "closed_callees G" and o: "old_nodes G" using wf by (simp_all add: rw_wf_def)
  note C = adds_phi_core [OF a cc] and E = adds_phi_ext [OF a cc o]
  have last: "rwg_last H = Suc (rwg_last G)" "phi = Suc (rwg_last G)" using adds_phiD(1,2) [OF a] by simp_all
  have p: "preds H b = preds G b" for b by (rule extD(2) [OF E])
  have "closed_callees H"
  proof -
    have "v \<le> rwg_last H" if n: "n \<le> rwg_last H" and v: "CalledValue v \<in> set (rw_callees (rwg_nodes H n))" for n v
    proof (cases "n = phi")
      case True
      show ?thesis using v True adds_phiD(7) [OF a] by simp
    next
      case False
      then have "n \<le> rwg_last G" using n last by simp
      then show ?thesis using v cc C(4) [of n] last(1) by (auto simp: closed_callees_def intro: le_SucI)
    qed
    then show ?thesis by (simp add: closed_callees_def)
  qed
  moreover note bn = adds_phiD(11) [OF a]
  moreover have "old_nodes H" using o last by (auto simp: old_nodes_def bn intro: le_SucI)
  moreover have "getAnnotations H n \<noteq> None \<and> annot_ok (isPhi H n) (ann H n) \<and> rw_bblock (rwg_nodes H n) = Some b"
    if b: "b \<in> B" and n: "n \<in> set (block_nodes H b)" for b n
  proof (cases "n \<in> set (block_nodes G b)")
    case True
    then have "n \<le> rwg_last G" using o by (simp add: old_nodes_def)
    then show ?thesis using True b wf C [of n] by (simp add: rw_wf_def)
  next
    case False
    then have "n = phi" "bo = Some b" using n bn by (auto split: if_splits)
    then show ?thesis using phi_ann [OF adds_phiD(5) [OF a]] adds_phiD(5,6,8) [OF a] ds by (simp add: annot_ok_def)
  qed
  moreover have "{n. isPhi H n} \<subseteq> insert phi {n. isPhi G n}"
    using adds_phiD(4) [OF a] by (auto simp: isPhi_def isInOut_def)
  then have "finite {n. isPhi H n}" using wf finite_subset [of "{n. isPhi H n}"] by (simp add: rw_wf_def)
  ultimately show ?thesis using wf extD(2,4) [OF E] by (simp add: rw_wf_def)
qed

lemma block_defs_ok_ext:
  assumes "ext G H" and "old_nodes G" and "block_defs_ok C G b D"
  shows "block_defs_ok C H b D"
proof -
  have "phi_at H b phi \<and> must_define H phi t x" if "phi_at G b phi" "must_define G phi t x" for phi t x
    using phi_at_ext [OF assms(1) that(1)] that extD(5) [OF assms(1), of phi] by (simp add: phi_at_def must_define_def)
  then show ?thesis
    using assms(3) prog_ext [OF assms(1,2)] extD(2) [OF assms(1), of b] unfolding block_defs_ok_def by (simp split: if_splits) blast
qed

lemma phi_done_ext:
  assumes "ext G H" and "old_nodes G" and "phi_at G b phi" and "phi_done G b phi"
    and "set (rw_defuse (rwg_nodes G phi)) \<subseteq> set (rw_defuse (rwg_nodes H phi))"
  shows "phi_done H b phi"
proof -
  have "must_define H phi t x = must_define G phi t x" for t x
    using assms(3) extD(5) [OF assms(1), of phi] by (simp add: phi_at_def must_define_def)
  then show ?thesis
    using assms(4) extD(2) [OF assms(1)] endcov_mono [OF endcov_ext [OF assms(1,2)] assms(5)] by (simp add: phi_done_def)
qed

lemma phis_first_add:
  assumes a: "adds_phi G H phi ds bo" and "closed_callees G" and o: "old_nodes G" and "phis_first G b"
  shows "phis_first H b"
proof -
  have e: "isPhi H n = isPhi G n" if "n \<in> set (block_nodes G b)" for n
    using adds_phi_core(3) [OF a assms(2), of n] that o by (simp add: old_nodes_def)
  have f: "filter (isPhi H) (block_nodes G b) = filter (isPhi G) (block_nodes G b)"
    "filter (\<lambda>n. \<not> isPhi H n) (block_nodes G b) = filter (\<lambda>n. \<not> isPhi G n) (block_nodes G b)"
    using e by (auto intro: filter_cong)
  show ?thesis using assms(4) f adds_phiD(5,11) [OF a] by (simp add: phis_first_def)
qed

section \<open>The definitions of its block\<close>

lemma define_holes_ok:
  assumes "defs_ok D" and "d_unknownWrites D = []"
    and "\<forall>I \<in> set Is. mk_defsite t (istart I) (iv_length I) = Some (DefSite t (istart I) (iv_length I))"
    and "\<forall>u \<in> set (sites_of t Is). ds_ok u \<and> (\<forall>x \<in> ds_bytes u. dm_at (d_kills D) t x = None)"
    and "sorted_wrt (\<lambda>u v. ds_bytes u \<inter> ds_bytes v = {}) (sites_of t Is)"
  shows "\<exists>m k. define_holes phi t Is D = Some (D\<lparr>d_definitions := m, d_kills := k\<rparr>) \<and> dm_wf m \<and> dm_wf k \<and>
    (\<forall>t' x. dm_vals m t' x = (if sites_at (sites_of t Is) t' x then insert phi (dm_vals (d_definitions D) t' x)
       else dm_vals (d_definitions D) t' x)) \<and>
    (\<forall>t' x. (dm_at k t' x = None) = (dm_at (d_kills D) t' x = None \<and> \<not> sites_at (sites_of t Is) t' x))"
  using assms
proof (induction Is arbitrary: D)
  case Nil
  then show ?case
    by (intro exI [of _ "d_definitions D"] exI [of _ "d_kills D"]) (simp add: defs_ok_def sites_of_def)
next
  case (Cons I Is)
  let ?u = "DefSite t (istart I) (iv_length I)"
  have so: "sites_of t (I # Is) = ?u # sites_of t Is" by (simp add: sites_of_def)
  have u: "mk_defsite t (istart I) (iv_length I) = Some ?u" "ds_ok ?u" "\<forall>x \<in> ds_bytes ?u. dm_at (d_kills D) t x = None"
    using Cons.prems(3,4) so by simp_all
  have wf: "dm_wf (d_definitions D)" "dm_wf (d_kills D)" using Cons.prems(1) by (simp_all add: defs_ok_def)
  obtain c m1 where m1: "dm_add ?u phi (d_definitions D) = Some (c, m1)" "dm_wf m1"
    "\<And>t' x. dm_at m1 t' x = (if t' = t \<and> x \<in> ds_bytes ?u then Some (insert phi (dm_vals (d_definitions D) t' x)) else dm_at (d_definitions D) t' x)"
    using dm_add_ok [OF wf(1) u(2), of phi thesis] by auto
  obtain c' k1 where k1: "dm_add ?u phi (d_kills D) = Some (c', k1)" "dm_wf k1"
    "\<And>t' x. dm_at k1 t' x = (if t' = t \<and> x \<in> ds_bytes ?u then Some (insert phi (dm_vals (d_kills D) t' x)) else dm_at (d_kills D) t' x)"
    using dm_add_ok [OF wf(2) u(2), of phi thesis] by auto
  have g: "dm_get ?u (d_kills D) = Some {}" using u(3) by (simp add: dm_get_ok [OF wf(2)] dm_vals_at)
  let ?D = "D\<lparr>d_definitions := m1, d_kills := k1\<rparr>"
  have "sorted_wrt (\<lambda>u v. ds_bytes u \<inter> ds_bytes v = {}) (sites_of t Is)" "\<forall>v \<in> set (sites_of t Is). ds_bytes ?u \<inter> ds_bytes v = {}"
    using Cons.prems(5) so by simp_all
  moreover from this(2) have "\<forall>v \<in> set (sites_of t Is). ds_ok v \<and> (\<forall>x \<in> ds_bytes v. dm_at (d_kills ?D) t x = None)"
    using Cons.prems(4) so by (auto simp: k1(3))
  moreover have "defs_ok ?D" using m1(2) k1(2) by (simp add: defs_ok_def)
  ultimately obtain m k where mk: "define_holes phi t Is ?D = Some (?D\<lparr>d_definitions := m, d_kills := k\<rparr>)" "dm_wf m" "dm_wf k"
    "\<forall>t' x. dm_vals m t' x = (if sites_at (sites_of t Is) t' x then insert phi (dm_vals m1 t' x) else dm_vals m1 t' x)"
    "\<forall>t' x. (dm_at k t' x = None) = (dm_at k1 t' x = None \<and> \<not> sites_at (sites_of t Is) t' x)"
    using Cons.IH [of ?D] Cons.prems(2,3) by auto
  have v: "dm_vals m1 t' x = (if t' = t \<and> x \<in> ds_bytes ?u then insert phi (dm_vals (d_definitions D) t' x) else dm_vals (d_definitions D) t' x)" for t' x
    by (simp add: dm_vals_at m1(3))
  have "define_holes phi t (I # Is) D = Some (D\<lparr>d_definitions := m, d_kills := k\<rparr>)"
    using mk(1) by (simp add: u(1) m1(1) k1(1) g Cons.prems(2))
  moreover have "dm_vals m t' x = (if sites_at (sites_of t (I # Is)) t' x then insert phi (dm_vals (d_definitions D) t' x)
       else dm_vals (d_definitions D) t' x)" for t' x
    using mk(4) v by (auto simp: so)
  moreover have "(dm_at k t' x = None) = (dm_at (d_kills D) t' x = None \<and> \<not> sites_at (sites_of t (I # Is)) t' x)" for t' x
    using mk(5) k1(3) by (auto simp: so)
  ultimately show ?case using mk(2,3) by blast
qed

lemma createPhi_new:
  assumes "createPhi ds ty s = Some (phi, s1)" and "\<forall>G n. rw_t G n = ty \<longrightarrow> isPhi G n"
  shows "adds_phi (ms_g s) (ms_g s1) phi ds None" and "s1 = s\<lparr>ms_g := ms_g s1, ms_phis := ms_phis s @ [phi]\<rparr>"
  using assms by (auto simp: createPhi_def rw_create_def Let_def adds_phi_def upd_g_def addOverwrites_def upd_rw_def RWNode_def
      no_annotations_def split: if_splits)

lemma createPhi_total:
  assumes "\<forall>G n. rw_t G n = ty \<longrightarrow> isPhi G n"
  obtains phi s1 where "createPhi ds ty s = Some (phi, s1)"
proof -
  have "isPhi (snd (rw_create ty (ms_g s))) (fst (rw_create ty (ms_g s)))"
    using assms by (simp add: rw_create_def upd_rw_def RWNode_def)
  then show ?thesis using that by (simp add: createPhi_def Let_def case_prod_unfold)
qed

lemma phi_types: "\<forall>G n. rw_t G n = RW_PHI \<longrightarrow> isPhi G n" "\<forall>G n. rw_t G n = RW_INARG \<longrightarrow> isPhi G n"
  by (simp_all add: isPhi_def isInOut_def)

text \<open>The new definitions of a processed block: the phi node defines what was not overwritten.\<close>

definition phi_defs :: "nat \<Rightarrow> DefSite \<Rightarrow> Definitions \<Rightarrow> Definitions \<Rightarrow> bool" where
  "phi_defs phi ds D D' =
     (defs_ok D' \<and> d_unknownWrites D' = [] \<and> d_processed D' \<and>
      (\<forall>t x. dm_vals (d_definitions D) t x \<subseteq> dm_vals (d_definitions D') t x \<and>
        dm_vals (d_definitions D') t x \<subseteq> insert phi (dm_vals (d_definitions D) t x)) \<and>
      (\<forall>t x. phi \<in> dm_vals (d_definitions D') t x \<longrightarrow> phi \<in> dm_vals (d_definitions D) t x \<or>
        t = ds_target ds \<and> x \<in> ds_bytes ds \<and> dm_at (d_kills D) t x = None) \<and>
      (\<forall>t x. (dm_at (d_kills D') t x \<noteq> None) = (dm_at (d_kills D) t x \<noteq> None \<or> t = ds_target ds \<and> x \<in> ds_bytes ds)) \<and>
      (\<forall>x \<in> ds_bytes ds. dm_at (d_kills D) (ds_target ds) x = None \<longrightarrow> phi \<in> dm_vals (d_definitions D') (ds_target ds) x))"

lemma whole_bytes:
  assumes "whole C K" and "is_cell C ds"
  shows "(\<forall>x \<in> ds_bytes ds. \<not> K (ds_target ds) x) \<or> (\<forall>x \<in> ds_bytes ds. K (ds_target ds) x)"
  using assms unfolding whole_def by blast

lemma createPhi_in_ok:
  assumes s: "inv C B Q s" "b \<in> B" "d_processed (ms_defs s b)" and ds: "ds_ok ds" "is_cell C ds"
    and ty: "\<forall>G n. rw_t G n = ty \<longrightarrow> isPhi G n"
  obtains phi s1 D where "createPhi_in b ds ty s = Some (phi, s1)" and "adds_phi (ms_g s) (ms_g s1) phi ds None"
    and "s1 = s\<lparr>ms_g := ms_g s1, ms_phis := ms_phis s @ [phi], ms_defs := (ms_defs s)(b := D)\<rparr>"
    and "phi_defs phi ds (ms_defs s b) D"
proof -
  obtain phi s1 where c: "createPhi ds ty s = Some (phi, s1)" using createPhi_total [OF ty] by blast
  note A = createPhi_new [OF c ty]
  have defs: "ms_defs s1 b = ms_defs s b" by (subst A(2)) simp
  let ?D = "ms_defs s b" and ?t = "ds_target ds"
  have D: "defs_ok ?D" "d_unknownWrites ?D = []" "whole C (\<lambda>t x. dm_at (d_kills ?D) t x \<noteq> None)"
    using inv_wf(5) [OF s(1,2)] s(3) by (simp_all add: block_defs_ok_def)
  have "(\<forall>x \<in> ds_bytes ds. dm_at (d_kills ?D) ?t x = None) \<or> (\<forall>x \<in> ds_bytes ds. dm_at (d_kills ?D) ?t x \<noteq> None)"
    using whole_bytes [OF D(3) ds(2)] by simp
  moreover have "dm_wf (d_kills ?D)" using D(1) by (simp add: defs_ok_def)
  ultimately obtain Is where Is: "undefinedIntervals ds (d_kills ?D) = Some Is" "holes (d_kills ?D) ds Is"
    "\<And>u. u \<in> set (sites_of ?t Is) \<Longrightarrow> ds_bytes u = ds_bytes ds"
    using undefinedIntervals_cell [OF _ ds(1)] by blast
  obtain m k where mk: "define_holes phi ?t Is ?D = Some (?D\<lparr>d_definitions := m, d_kills := k\<rparr>)" "dm_wf m" "dm_wf k"
    "\<forall>t' x. dm_vals m t' x = (if sites_at (sites_of ?t Is) t' x then insert phi (dm_vals (d_definitions ?D) t' x)
       else dm_vals (d_definitions ?D) t' x)"
    "\<forall>t' x. (dm_at k t' x = None) = (dm_at (d_kills ?D) t' x = None \<and> \<not> sites_at (sites_of ?t Is) t' x)"
    using define_holes_ok [OF D(1,2), of Is ?t phi] Is(2) unfolding holes_def by blast
  let ?D' = "?D\<lparr>d_definitions := m, d_kills := k\<rparr>"
  have r: "createPhi_in b ds ty s = Some (phi, set_defs b ?D' s1)"
    by (simp add: createPhi_in_def c defs d_uncovered_def Is(1) mk(1))
  have tgt: "sites_at (sites_of ?t Is) t x \<Longrightarrow> t = ?t \<and> x \<in> ds_bytes ds" for t x
    using Is(3) by (auto simp: sites_at_def dest: sites_target)
  have cov: "sites_at (sites_of ?t Is) ?t x" if x: "x \<in> ds_bytes ds" "dm_at (d_kills ?D) ?t x = None" for x
  proof -
    obtain u where "u \<in> set (sites_of ?t Is)" "x \<in> ds_bytes u" using Is(2) x unfolding holes_def by blast
    then show ?thesis using sites_target by (auto simp: sites_at_def)
  qed
  have "(dm_at k t x \<noteq> None) = (dm_at (d_kills ?D) t x \<noteq> None \<or> t = ?t \<and> x \<in> ds_bytes ds)" for t x
    using mk(5) tgt [of t x] cov [of x] by auto
  moreover have "dm_vals (d_definitions ?D) t x \<subseteq> dm_vals m t x \<and> dm_vals m t x \<subseteq> insert phi (dm_vals (d_definitions ?D) t x)" for t x
    using mk(4) by auto
  moreover have "phi \<in> dm_vals m ?t x" if "x \<in> ds_bytes ds" "dm_at (d_kills ?D) ?t x = None" for x
    using mk(4) cov [OF that] by simp
  moreover have "phi \<in> dm_vals (d_definitions ?D) t x \<or> t = ?t \<and> x \<in> ds_bytes ds \<and> dm_at (d_kills ?D) t x = None"
    if "phi \<in> dm_vals m t x" for t x
  proof (cases "sites_at (sites_of ?t Is) t x")
    case True
    then have "dm_at (d_kills ?D) t x = None" using Is(2) sites_target by (auto simp: sites_at_def holes_def)
    then show ?thesis using tgt [OF True] by blast
  qed (use mk(4) that in simp)
  ultimately have "phi_defs phi ds ?D ?D'" using mk(2,3) D(2) s(3) by (simp add: phi_defs_def defs_ok_def)
  moreover have "set_defs b ?D' s1 = s\<lparr>ms_g := ms_g (set_defs b ?D' s1), ms_phis := ms_phis s @ [phi], ms_defs := (ms_defs s)(b := ?D')\<rparr>"
    by (subst (1) A(2)) (simp add: set_defs_def)
  ultimately show ?thesis using r A(1) by (intro that [of phi "set_defs b ?D' s1" ?D']) (simp_all add: set_defs_def)
qed

lemma exact_add_phi:
  assumes ex: "exact C B G defs" and a: "adds_phi G H phi ds bo" and cc: "closed_callees G" and o: "old_nodes G"
    and bo: "bo = Some b \<or> bo = None \<and> preds G b = []" and b: "b \<in> B" and ds: "is_cell C ds"
    and D: "d_processed (defs b)" "phi_defs phi ds (defs b) D"
  shows "exact C B H (defs(b := D))"
proof -
  note E = adds_phi_ext [OF a cc o] and A = adds_phi_core [OF a cc]
  have phi: "phi = Suc (rwg_last G)" "rwg_last H = phi" "isPhi H phi" "rw_bblock (rwg_nodes H phi) = bo"
    "rw_annotations (rwg_nodes H phi) = \<lparr>an_defs = [], an_overwrites = [ds], an_uses = []\<rparr>"
    by (rule adds_phiD [OF a])+
  have an: "ann H phi = \<lparr>an_defs = [], an_overwrites = [ds], an_uses = []\<rparr>" using phi_ann [OF phi(3)] phi(5) by simp
  have ps: "phi_site H phi ds" by (auto simp: phi_site_def must_define_def may_define_def an)
  have "phi_sound C B H n" if n: "n \<le> rwg_last H" "isPhi H n" for n
  proof (cases "n = phi")
    case True
    have "orphan H phi \<or> phi_at H b phi" using bo phi by (auto simp: orphan_def phi_at_def)
    then show ?thesis using True ps ds b adds_phiD(9) [OF a] unfolding phi_sound_def by auto
  next
    case False
    then have n: "n \<le> rwg_last G" "isPhi G n" using n phi(1,2) A(3) [of n] by simp_all
    then have "phi_sound C B G n" using ex by (simp add: exact_def)
    then show ?thesis using A(4) [OF n(1)] by (intro phi_sound_ext [OF E o n(1)]) simp_all
  qed
  moreover have "block_sound H c (defs c)" if "c \<in> B" for c
    using ex that by (intro block_sound_ext [OF E o]) (simp add: exact_def)
  moreover have "block_sound H b D"
  proof -
    have bs: "block_sound H b (defs b)" using calculation(2) b by blast
    have "n \<in> ldefs H (prog H b) t x {} \<or> \<not> overwritten H (prog H b) t x \<and> (phi_at H b n \<or> orphan H n) \<and> may_define H n t x"
      if n: "n \<in> dm_vals (d_definitions D) t x" for n t x
    proof (cases "n \<in> dm_vals (d_definitions (defs b)) t x")
      case True
      then show ?thesis using bs D(1) unfolding block_sound_def by blast
    next
      case False
      then have np: "n = phi" using n D(2) by (auto simp: phi_defs_def)
      then have "t = ds_target ds \<and> x \<in> ds_bytes ds \<and> dm_at (d_kills (defs b)) t x = None"
        using D(2) n False unfolding phi_defs_def by blast
      moreover from this have "\<not> overwritten H (prog H b) t x" using bs D(1) unfolding block_sound_def by blast
      moreover have "orphan H phi \<or> phi_at H b phi" using bo phi by (auto simp: orphan_def phi_at_def)
      ultimately show ?thesis using ps np unfolding phi_site_def by blast
    qed
    moreover have "dm_at (d_kills D) t x \<noteq> None" if "overwritten H (prog H b) t x" for t x
    proof -
      have "dm_at (d_kills (defs b)) t x \<noteq> None" using bs D(1) that unfolding block_sound_def by blast
      then show ?thesis using D(2) unfolding phi_defs_def by blast
    qed
    ultimately show ?thesis by (simp add: block_sound_def)
  qed
  ultimately show ?thesis by (simp add: exact_def)
qed

text \<open>The invariant after a phi node was added to a block, or for the input of a function, when its operands are still missing.\<close>

lemma inv_add_phi:
  assumes s: "inv C B Q s" "b \<in> B" and a: "adds_phi (ms_g s) H phi ds bo" and bo: "bo = Some b \<or> bo = None \<and> preds (ms_g s) b = []"
    and ds: "ds_ok ds" "ds_target ds \<noteq> 0" "is_cell C ds" and D: "d_processed (ms_defs s b)" "phi_defs phi ds (ms_defs s b) D"
    and s': "ms_g s' = H" "ms_defs s' = (ms_defs s)(b := D)" "ms_call s' = ms_call s" "ms_inputs s' = ms_inputs s"
  shows "inv C B (insert phi Q) s'" and "ms_grows B s s'" and "bo = Some b \<Longrightarrow> phi_at H b phi"
    and "must_define H phi t x = (t = ds_target ds \<and> x \<in> ds_bytes ds)"
proof -
  let ?G = "ms_g s"
  have wf: "rw_wf ?G B" using s(1) by (simp add: inv_def)
  then have cc: "closed_callees ?G" and o: "old_nodes ?G" by (simp_all add: rw_wf_def)
  note E = adds_phi_ext [OF a cc o] and A = adds_phi_core [OF a cc]
  have phi: "phi = Suc (rwg_last ?G)" "rwg_last H = phi" "isPhi H phi" "rw_bblock (rwg_nodes H phi) = bo"
    "rw_annotations (rwg_nodes H phi) = \<lparr>an_defs = [], an_overwrites = [ds], an_uses = []\<rparr>"
    by (rule adds_phiD [OF a])+
  have an: "ann H phi = \<lparr>an_defs = [], an_overwrites = [ds], an_uses = []\<rparr>" using phi_ann [OF phi(3)] phi(5) by simp
  then show md: "must_define H phi t x = (t = ds_target ds \<and> x \<in> ds_bytes ds)" for t x by (auto simp: must_define_def)
  show pat: "phi_at H b phi" if "bo = Some b" using that phi by (simp add: phi_at_def)
  have bd: "block_defs_ok C ?G c (ms_defs s c)" if "c \<in> B" for c using inv_wf(5) [OF s(1) that] .
  have wh: "whole C (\<lambda>t x. dm_at (d_kills D) t x \<noteq> None)"
  proof -
    have w: "whole C (\<lambda>t x. dm_at (d_kills (ms_defs s b)) t x \<noteq> None)" using bd [OF s(2)] D(1) by (simp add: block_defs_ok_def)
    have C: "cells_ok C" using s(1) by (simp add: inv_def)
    have k: "(dm_at (d_kills D) t x \<noteq> None) = (dm_at (d_kills (ms_defs s b)) t x \<noteq> None \<or> t = ds_target ds \<and> x \<in> ds_bytes ds)" for t x
      using D(2) by (simp add: phi_defs_def)
    show ?thesis unfolding whole_def k
    proof (intro allI impI)
      fix u assume u: "is_cell C u"
      show "(\<forall>x \<in> ds_bytes u. dm_at (d_kills (ms_defs s b)) (ds_target u) x \<noteq> None \<or> ds_target u = ds_target ds \<and> x \<in> ds_bytes ds) \<or>
        (\<forall>x \<in> ds_bytes u. \<not> (dm_at (d_kills (ms_defs s b)) (ds_target u) x \<noteq> None \<or> ds_target u = ds_target ds \<and> x \<in> ds_bytes ds))"
      proof (cases "ds_target u = ds_target ds \<and> ds_bytes u = ds_bytes ds")
        case False
        then have "\<not> (ds_target u = ds_target ds \<and> x \<in> ds_bytes ds)" if "x \<in> ds_bytes u" for x
          using cells_same [OF C ds(3) u, of x] that by metis
        then show ?thesis using w u unfolding whole_def by blast
      qed simp
    qed
  qed
  have Dok: "block_defs_ok C H b D"
  proof -
    have "block_defs_ok C H b (ms_defs s b)" using block_defs_ok_ext [OF E o bd [OF s(2)]] .
    then have old: "ldefs H (prog H b) t x {} \<subseteq> dm_vals (d_definitions (ms_defs s b)) t x"
      "dm_at (d_kills (ms_defs s b)) t x \<noteq> None \<Longrightarrow> overwritten H (prog H b) t x \<or> preds H b = [] \<or>
        (\<exists>phi \<in> dm_vals (d_definitions (ms_defs s b)) t x. phi_at H b phi \<and> must_define H phi t x)" for t x
      using D(1) by (simp_all add: block_defs_ok_def)
    have sub: "dm_vals (d_definitions (ms_defs s b)) t x \<subseteq> dm_vals (d_definitions D) t x" for t x
      using D(2) by (simp add: phi_defs_def)
    have "overwritten H (prog H b) t x \<or> preds H b = [] \<or> (\<exists>phi \<in> dm_vals (d_definitions D) t x. phi_at H b phi \<and> must_define H phi t x)"
      if k: "dm_at (d_kills D) t x \<noteq> None" for t x
    proof (cases "dm_at (d_kills (ms_defs s b)) t x = None")
      case True
      then have "t = ds_target ds" "x \<in> ds_bytes ds" "phi \<in> dm_vals (d_definitions D) t x" using k D(2) by (auto simp: phi_defs_def)
      then show ?thesis using bo pat md extD(2) [OF E, of b] by auto
    next
      case False
      then show ?thesis using old(2) [of t x] sub [of t x] by blast
    qed
    moreover have "ldefs H (prog H b) t x {} \<subseteq> dm_vals (d_definitions D) t x" for t x
      using old(1) sub by blast
    moreover have "finite (dm_vals (d_definitions D) t x)" for t x
    proof -
      have "finite (dm_vals (d_definitions (ms_defs s b)) t x)" using bd [OF s(2)] D(1) by (simp add: block_defs_ok_def)
      moreover have "dm_vals (d_definitions D) t x \<subseteq> insert phi (dm_vals (d_definitions (ms_defs s b)) t x)"
        using D(2) by (simp add: phi_defs_def)
      ultimately show ?thesis using finite_insert finite_subset by metis
    qed
    ultimately show ?thesis using D(2) wh by (simp add: block_defs_ok_def phi_defs_def)
  qed
  have cells: "is_cell C u" if c: "c \<in> B" "n \<in> set (block_nodes H c)" "u \<in> set (an_overwrites (ann H n))" for c n u
  proof (cases "n = phi")
    case True
    then show ?thesis using c(3) an ds(3) by simp
  next
    case False
    then have n: "n \<in> set (block_nodes ?G c)" using c(2) adds_phiD(11) [OF a] by (auto split: if_splits)
    then have "n \<le> rwg_last ?G" using o by (simp add: old_nodes_def)
    then show ?thesis using n c(1,3) s(1) A(2) [of n] by (simp add: inv_def)
  qed
  have "phi_done H c ph" if c: "phi_at H c ph" "ph \<notin> insert phi Q" for c ph
  proof -
    have ph: "ph \<le> rwg_last ?G" using c phi(1,2) by (auto simp: phi_at_def)
    then have "phi_at ?G c ph" using c(1) A(3,4) [of ph] by (simp add: phi_at_def)
    moreover from this have "phi_done ?G c ph" using s(1) c(2) by (simp add: inv_def)
    ultimately show ?thesis using phi_done_ext [OF E o] A(4) [OF ph] by simp
  qed
  moreover have "exact C B H (ms_defs s')"
    using exact_add_phi [where defs = "ms_defs s" and b = b and D = D, OF _ a cc o bo s(2) ds(3) D] s(1)
    by (simp add: inv_def s'(2))
  ultimately show "inv C B (insert phi Q) s'"
    using s(1) adds_phi_wf [OF a wf ds(1,2)] phis_first_add [OF a cc o] block_defs_ok_ext [OF E o bd] Dok cells
    by (simp add: inv_def s')
  have "rwg_nodes H n = rwg_nodes ?G n" if "n \<le> rwg_last ?G" for n by (rule A(4) [OF that])
  then show "ms_grows B s s'" using E D(2) by (auto simp: ms_grows_def s' phi_defs_def)
qed

end
