(* ===== verification/Memory_Search.thy ===== *)
theory Memory_Search
  imports Memory_Phi
begin

text \<open>
  A search of the definitions of known memory in a graph of one function ends and keeps the invariant; the nodes it returns are
  seen from the end of the block it starts from, and cover it.
\<close>

section \<open>The operands of a phi node\<close>

lemma addDefUse_eq:
  "\<exists>xs. set xs = set (rw_defuse (rwg_nodes G n)) \<union> set ds \<and>
     addDefUse n ds G = G\<lparr>rwg_nodes := (rwg_nodes G)(n := (rwg_nodes G n)\<lparr>rw_init := True, rw_defuse := xs\<rparr>)\<rparr>"
proof -
  have "\<exists>xs. set xs = set (rw_defuse (rwg_nodes G n)) \<union> set ds \<and>
     fold (defuse_add n) ds G = G\<lparr>rwg_nodes := (rwg_nodes G)(n := (rwg_nodes G n)\<lparr>rw_init := True, rw_defuse := xs\<rparr>)\<rparr>"
    if "rw_init (rwg_nodes G n)" for G
    using that
  proof (induction ds arbitrary: G)
    case Nil
    then have "(rwg_nodes G n)\<lparr>rw_init := True, rw_defuse := rw_defuse (rwg_nodes G n)\<rparr> = rwg_nodes G n"
      by (cases "rwg_nodes G n") simp
    then show ?case by (intro exI [of _ "rw_defuse (rwg_nodes G n)"]) (simp add: fun_upd_idem del: fun_upd_apply)
  next
    case (Cons d ds)
    have "rw_init (rwg_nodes (defuse_add n d G) n)" by (simp add: defuse_add_def upd_rw_def)
    then obtain xs where xs: "set xs = set (rw_defuse (rwg_nodes (defuse_add n d G) n)) \<union> set ds"
      "fold (defuse_add n) ds (defuse_add n d G) = (defuse_add n d G)\<lparr>rwg_nodes := (rwg_nodes (defuse_add n d G))
         (n := (rwg_nodes (defuse_add n d G) n)\<lparr>rw_init := True, rw_defuse := xs\<rparr>)\<rparr>"
      using Cons.IH [of "defuse_add n d G"] by blast
    have "set xs = set (rw_defuse (rwg_nodes G n)) \<union> set (d # ds)"
      using xs(1) by (auto simp: defuse_add_def upd_rw_def split: if_splits)
    moreover have "(defuse_add n d G)\<lparr>rwg_nodes := (rwg_nodes (defuse_add n d G))
         (n := (rwg_nodes (defuse_add n d G) n)\<lparr>rw_init := True, rw_defuse := xs\<rparr>)\<rparr> =
       G\<lparr>rwg_nodes := (rwg_nodes G)(n := (rwg_nodes G n)\<lparr>rw_init := True, rw_defuse := xs\<rparr>)\<rparr>"
      by (simp add: defuse_add_def upd_rw_def)
    ultimately show ?case using xs(2) by (intro exI [of _ xs]) (simp del: fun_upd_apply)
  qed
  from this [of "upd_rw n (\<lambda>N. N\<lparr>rw_init := True\<rparr>) G"] show ?thesis by (simp add: addDefUse_def upd_rw_def)
qed

text \<open>Giving a node more definitions changes nothing that the search reads.\<close>

lemma addDefUse_ok:
  assumes "H = addDefUse phi ds G"
  shows "ext G H" and "rwg_nodes H n = rwg_nodes G n \<or> n = phi" and "rwg_last H = rwg_last G" and "rwg_blocks H = rwg_blocks G"
    and "ann H n = ann G n" and "isPhi H n = isPhi G n" and "getAnnotations H n = getAnnotations G n"
    and "set (rw_defuse (rwg_nodes H n)) = set (rw_defuse (rwg_nodes G n)) \<union> (if n = phi then set ds else {})"
    and "rw_bblock (rwg_nodes H n) = rw_bblock (rwg_nodes G n)" and "rw_callees (rwg_nodes H n) = rw_callees (rwg_nodes G n)"
    and "rwg_subs H = rwg_subs G"
proof -
  obtain xs where xs: "set xs = set (rw_defuse (rwg_nodes G phi)) \<union> set ds"
    "H = G\<lparr>rwg_nodes := (rwg_nodes G)(phi := (rwg_nodes G phi)\<lparr>rw_init := True, rw_defuse := xs\<rparr>)\<rparr>"
    using addDefUse_eq [of G phi ds] assms by blast
  have sc: "same_core G H m" for m by (simp add: same_core_def xs(2))
  show g: "getAnnotations H n = getAnnotations G n" for n by (rule getAnnotations_cong) (rule sc)+
  show a: "ann H n = ann G n" for n by (simp add: ann_def g)
  show p: "isPhi H n = isPhi G n" for n by (simp add: isPhi_def isInOut_def xs(2))
  show l: "rwg_last H = rwg_last G" "rwg_blocks H = rwg_blocks G" "rwg_subs H = rwg_subs G"
    and "rwg_nodes H n = rwg_nodes G n \<or> n = phi"
    by (simp_all add: xs(2))
  show b: "rw_bblock (rwg_nodes H n) = rw_bblock (rwg_nodes G n)" for n by (simp add: xs(2))
  show "set (rw_defuse (rwg_nodes H n)) = set (rw_defuse (rwg_nodes G n)) \<union> (if n = phi then set ds else {})"
    "rw_callees (rwg_nodes H n) = rw_callees (rwg_nodes G n)"
    by (simp_all add: xs)
  have "writer H = writer G" by (simp add: writer_def fun_eq_iff a p)
  then show "ext G H" by (simp add: ext_def sc a b prog_def prog_before_def l)
qed

lemma inv_addDefUse:
  assumes s: "inv C B (insert phi Q) s" and at: "phi_at (ms_g s) b0 phi"
    and new: "\<And>d n. phi_site (ms_g s) phi d \<Longrightarrow> n \<in> set ds \<Longrightarrow> \<exists>p \<in> set (preds (ms_g s) b0). seen (ms_g s) d n p"
    and cov: "\<And>b t x p. phi_at (ms_g s) b phi \<Longrightarrow> must_define (ms_g s) phi t x \<Longrightarrow> p \<in> set (preds (ms_g s) b) \<Longrightarrow>
      endcov (ms_g s) t x (set ds) p"
  shows "inv C B Q (ms_addDefUse phi ds s)" and "ms_grows B s (ms_addDefUse phi ds s)"
proof -
  define H where "H = addDefUse phi ds (ms_g s)"
  note A = addDefUse_ok [OF H_def]
  have s': "ms_addDefUse phi ds s = s\<lparr>ms_g := H\<rparr>" by (simp add: ms_addDefUse_def upd_g_def H_def)
  have phi: "isPhi (ms_g s) phi" using at by (simp add: phi_at_def)
  have wf: "rw_wf (ms_g s) B" and o: "old_nodes (ms_g s)" using inv_wf(1,2) [OF s] by simp_all
  have wf': "rw_wf H B" using wf by (simp add: rw_wf_def A(3-7,9-11) closed_callees_def old_nodes_def)
  have pa: "phi_at H b n = phi_at (ms_g s) b n" for b n by (simp add: phi_at_def A)
  have "phi_done H b n" if n: "phi_at H b n" "n \<notin> Q" for b n
  proof (cases "n = phi")
    case True
    then have "phi_at (ms_g s) b phi" using n(1) pa by simp
    then have "endcov H t x (set ds) p" if "must_define H phi t x" "p \<in> set (preds H b)" for t x p
      using cov [of b t x p] that endcov_ext [OF A(1) o] by (simp add: must_define_def A(4,5))
    then show ?thesis using endcov_mono [of H _ _ "set ds"] by (auto simp: phi_done_def True A(8))
  next
    case False
    then have "phi_done (ms_g s) b n" using s n pa by (simp add: inv_def)
    then show ?thesis using phi_done_ext [OF A(1) o, of b n] n(1) pa A(8) [of n] by simp
  qed
  moreover have "isPhi H = isPhi (ms_g s)" by (simp add: fun_eq_iff A(6))
  then have "phis_first H b = phis_first (ms_g s) b" for b
    by (simp add: phis_first_def A(4))
  moreover have "exact C B H (ms_defs s)"
  proof -
    have ex: "exact C B (ms_g s) (ms_defs s)" using s by (simp add: inv_def)
    have "phi_sound C B H n" if n: "n \<le> rwg_last H" "isPhi H n" for n
    proof (cases "n = phi")
      case True
      obtain d b where d: "is_cell C d" "phi_site (ms_g s) phi d" "b \<in> B" "phi_at (ms_g s) b phi"
        "\<forall>n \<in> set (rw_defuse (ms_node s phi)). \<exists>p \<in> set (preds (ms_g s) b). seen (ms_g s) d n p"
        using ex at by (auto simp: exact_def phi_sound_def orphan_def phi_at_def)
      have "b = b0" using at d(4) by (simp add: phi_at_def)
      then have "\<forall>n \<in> set (rw_defuse (rwg_nodes H phi)). \<exists>p \<in> set (preds H b). seen H d n p"
        using d(5) new [OF d(2)] seen_ext(1) [OF A(1) o] by (simp add: A(4,8)) blast
      moreover have "phi_site H phi d" using d(2,4) phi_site_ext [OF A(1), of phi d] by (simp add: phi_at_def)
      ultimately show ?thesis using d pa True unfolding phi_sound_def by blast
    next
      case False
      then have "rwg_nodes H n = ms_node s n" using A(2) [of n] by simp
      moreover have "n \<le> rwg_last (ms_g s)" using n(1) by (simp add: A(3))
      moreover from this have "phi_sound C B (ms_g s) n" using ex n(2) by (simp add: exact_def A(6))
      ultimately show ?thesis using phi_sound_ext [OF A(1) o] by simp
    qed
    then show ?thesis using ex block_sound_ext [OF A(1) o] by (simp add: exact_def)
  qed
  ultimately show "inv C B Q (ms_addDefUse phi ds s)"
    using s wf' block_defs_ok_ext [OF A(1) o] by (simp add: s' inv_def A(4,5))
  show "ms_grows B s (ms_addDefUse phi ds s)" using A(1,2) phi by (auto simp: s' ms_grows_def)
qed

lemma inv_drop: "inv C B (insert phi Q) s \<Longrightarrow> \<forall>b. \<not> phi_at (ms_g s) b phi \<Longrightarrow> inv C B Q s"
  unfolding inv_def by (metis insertE)

section \<open>The specification of the steps\<close>

text \<open>A search from the end of a block, and one from its start.\<close>

definition block_ok :: "DefSite set \<Rightarrow> nat set \<Rightarrow> DefSite \<Rightarrow> nat \<Rightarrow> mssa \<Rightarrow> bool" where
  "block_ok C B ds b s =
     (\<forall>Q. inv C B Q s \<longrightarrow>
       (\<exists>N s'. search (T_block b ds) s = Some (N, s') \<and> inv C B Q s' \<and> ms_grows B s s' \<and>
         (\<forall>x \<in> ds_bytes ds. endcov (ms_g s') (ds_target ds) x (set N) b) \<and> (\<forall>n \<in> set N. seen (ms_g s') ds n b)))"

definition preds_ok :: "DefSite set \<Rightarrow> nat set \<Rightarrow> nat set \<Rightarrow> DefSite \<Rightarrow> nat \<Rightarrow> mssa \<Rightarrow> bool" where
  "preds_ok C B Q ds b s =
     (\<exists>N s'. search (T_preds b ds) s = Some (N, s') \<and> inv C B Q s' \<and> ms_grows B s s' \<and>
       (\<forall>x \<in> ds_bytes ds. incov (ms_g s') (ds_target ds) x (set N) b) \<and> (\<forall>n \<in> set N. seen_start (ms_g s') ds n b))"

definition site_ok :: "DefSite set \<Rightarrow> DefSite \<Rightarrow> bool" where
  "site_ok C ds = (ds_ok ds \<and> ds_target ds \<noteq> 0 \<and> is_cell C ds)"

lemma phi_operands_ok:
  assumes "inv C B Q s" and "\<And>p s'. p \<in> set ps \<Longrightarrow> ms_grows B s s' \<Longrightarrow> block_ok C B ds p s'"
  shows "\<exists>N s'. search (T_phi ps ds) s = Some (N, s') \<and> inv C B Q s' \<and> ms_grows B s s' \<and>
    (\<forall>p \<in> set ps. \<forall>x \<in> ds_bytes ds. endcov (ms_g s') (ds_target ds) x (set N) p) \<and>
    (\<forall>n \<in> set N. \<exists>p \<in> set ps. seen (ms_g s') ds n p)"
  using assms
proof (induction ps arbitrary: s)
  case Nil
  then show ?case by (simp add: search_tasks(7) phi_operands_def)
next
  case (Cons p ps)
  have "block_ok C B ds p s" using Cons.prems(2) by simp
  then obtain N s1 where s1: "search (T_block p ds) s = Some (N, s1)" "inv C B Q s1" "ms_grows B s s1"
    "\<forall>x \<in> ds_bytes ds. endcov (ms_g s1) (ds_target ds) x (set N) p" "\<forall>n \<in> set N. seen (ms_g s1) ds n p"
    using Cons.prems(1) unfolding block_ok_def by blast
  obtain M s2 where s2: "search (T_phi ps ds) s1 = Some (M, s2)" "inv C B Q s2" "ms_grows B s1 s2"
    "\<forall>p \<in> set ps. \<forall>x \<in> ds_bytes ds. endcov (ms_g s2) (ds_target ds) x (set M) p"
    "\<forall>n \<in> set M. \<exists>p \<in> set ps. seen (ms_g s2) ds n p"
    using Cons.IH [OF s1(2)] Cons.prems(2) ms_grows_trans [OF s1(3)] by (metis list.set_intros(2))
  have "search (T_phi (p # ps) ds) s = Some (N @ M, s2)"
    by (simp add: search_tasks(7) [of "p # ps"] phi_operands_def s1(1) s2(1) found_then_def)
  moreover have "endcov (ms_g s2) (ds_target ds) x (set (N @ M)) q" if "q \<in> set (p # ps)" "x \<in> ds_bytes ds" for q x
  proof (cases "q \<in> set ps")
    case True
    then show ?thesis using s2(4) that endcov_mono [of _ _ _ "set M"] by simp
  next
    case False
    then have "endcov (ms_g s1) (ds_target ds) x (set N) q" using that s1(4) by simp
    then have "endcov (ms_g s2) (ds_target ds) x (set N) q" by (rule endcov_ext [OF ms_grows_ext [OF s2(3)] inv_wf(2) [OF s1(2)]])
    then show ?thesis using endcov_mono [of _ _ _ "set N"] by simp
  qed
  moreover have "\<exists>q \<in> set (p # ps). seen (ms_g s2) ds n q" if "n \<in> set (N @ M)" for n
    using that s1(5) s2(5) seen_ext(1) [OF ms_grows_ext [OF s2(3)] inv_wf(2) [OF s1(2)]] by auto
  ultimately show ?case using s2(2) ms_grows_trans [OF s1(3) s2(3)] by blast
qed

section \<open>The search from the start of a block\<close>

lemma must_site:
  assumes "phi_site G n d" and "\<And>t x. must_define G n t x = (t = ds_target ds \<and> x \<in> ds_bytes ds)"
  shows "ds_target d = ds_target ds" and "ds_bytes d = ds_bytes ds"
proof -
  have e: "(t = ds_target d \<and> x \<in> ds_bytes d) = (t = ds_target ds \<and> x \<in> ds_bytes ds)" for t x
    using assms unfolding phi_site_def by blast
  show t: "ds_target d = ds_target ds" using e [of "ds_target d" "fst (getInterval d)"] ds_bytes_ne [of d] by simp
  show "ds_bytes d = ds_bytes ds" using e t by blast
qed

lemma site_of_phi:
  assumes "inv C B Q s" and "phi_at (ms_g s) b phi" and "\<And>t x. must_define (ms_g s) phi t x = (t = ds_target ds \<and> x \<in> ds_bytes ds)"
  shows "phi_site (ms_g s) phi ds"
proof -
  obtain d where d: "phi_site (ms_g s) phi d" using assms(1,2) by (auto simp: inv_def exact_def phi_at_def phi_sound_def)
  show ?thesis using same_bytes(1) [OF must_site [OF d assms(3)]] d by simp
qed

lemma get_processed: "d_processed (ms_defs s b) \<Longrightarrow> search (T_get b ds) s = Some ([], s)"
  by (simp add: search_tasks(3) getBBlockDefinitions_def)

lemma adds_phi_prepend: "adds_phi G H phi ds None \<Longrightarrow> adds_phi G (rb_prepend b phi H) phi ds (Some b)"
  by (auto simp: adds_phi_def rb_prepend_def setBBlock_def upd_rb_def upd_rw_def isPhi_def isInOut_def)

lemma preds_phi:
  assumes s: "inv C B Q s" "b \<in> B" "d_processed (ms_defs s b)" and ds: "site_ok C ds"
    and less: "\<And>p s'. p \<in> B \<Longrightarrow> ms_grows B s s' \<Longrightarrow>
      (\<forall>x \<in> ds_bytes ds. dm_at (d_kills (ms_defs s b)) (ds_target ds) x = None) \<longrightarrow>
        bytes_left (ds_target ds) B s' < bytes_left (ds_target ds) B s \<Longrightarrow> block_ok C B ds p s'"
    and ps: "preds (ms_g s) b \<noteq> []" "rb_getSinglePredecessor (ms_g s) b = None"
  shows "preds_ok C B Q ds b s"
proof -
  let ?t = "ds_target ds"
  have ds': "ds_ok ds" "?t \<noteq> 0" "is_cell C ds" using ds by (simp_all add: site_ok_def)
  obtain phi s1 D where c: "createPhi_in b ds RW_PHI s = Some (phi, s1)" "adds_phi (ms_g s) (ms_g s1) phi ds None"
    "s1 = s\<lparr>ms_g := ms_g s1, ms_phis := ms_phis s @ [phi], ms_defs := (ms_defs s)(b := D)\<rparr>" "phi_defs phi ds (ms_defs s b) D"
    using createPhi_in_ok [OF s ds'(1,3) phi_types(1)] by blast
  define s2 where "s2 = upd_g (rb_prepend b phi) s1"
  have a: "adds_phi (ms_g s) (ms_g s2) phi ds (Some b)" using adds_phi_prepend [OF c(2)] by (simp add: s2_def upd_g_def)
  have s2: "ms_defs s2 = (ms_defs s)(b := D)" "ms_call s2 = ms_call s" "ms_inputs s2 = ms_inputs s"
    by (subst s2_def, subst c(3), simp add: upd_g_def)+
  note I = inv_add_phi [OF s(1,2) a _ ds' s(3) c(4) refl s2]
  have inv2: "inv C B (insert phi Q) s2" and g2: "ms_grows B s s2" and at2: "phi_at (ms_g s2) b phi"
    and md2: "\<And>t x. must_define (ms_g s2) phi t x = (t = ?t \<and> x \<in> ds_bytes ds)"
    using I by blast+
  have P: "preds (ms_g s2) b = preds (ms_g s) b" by (rule extD(2) [OF ms_grows_ext [OF g2]])
  let ?x = "fst (getInterval ds)"
  have lt: "bytes_left ?t B s2 < bytes_left ?t B s" if "\<forall>x \<in> ds_bytes ds. dm_at (d_kills (ms_defs s b)) ?t x = None"
  proof -
    have "?x \<in> open_bytes ?t s b" "?x \<notin> open_bytes ?t s2 b"
      using that ds_bytes_ne [of ds] c(4) by (simp_all add: open_bytes_def s2 phi_defs_def)
    then show ?thesis by (rule bytes_left_less [OF g2 inv_wf(3) [OF s(1)] s(2)])
  qed
  have "block_ok C B ds p s'" if "p \<in> set (preds (ms_g s) b)" "ms_grows B s2 s'" for p s'
  proof (rule less)
    show "p \<in> B" using inv_wf(4) [OF s(1,2)] that(1) by blast
    show "ms_grows B s s'" by (rule ms_grows_trans [OF g2 that(2)])
    show "(\<forall>x \<in> ds_bytes ds. dm_at (d_kills (ms_defs s b)) ?t x = None) \<longrightarrow> bytes_left ?t B s' < bytes_left ?t B s"
      using le_less_trans [OF bytes_left_mono [OF that(2)] lt] by blast
  qed
  then obtain N s3 where s3: "search (T_phi (preds (ms_g s) b) ds) s2 = Some (N, s3)" "inv C B (insert phi Q) s3" "ms_grows B s2 s3"
    "\<forall>p \<in> set (preds (ms_g s) b). \<forall>x \<in> ds_bytes ds. endcov (ms_g s3) ?t x (set N) p"
    "\<forall>n \<in> set N. \<exists>p \<in> set (preds (ms_g s) b). seen (ms_g s3) ds n p"
    using phi_operands_ok [OF inv2] by blast
  let ?ns = "sorted_list_of_set (set N)" and ?s4 = "ms_addDefUse phi (sorted_list_of_set (set N)) s3"
  note E3 = ms_grows_ext [OF s3(3)]
  have at3: "phi_at (ms_g s3) b phi" by (rule phi_at_ext [OF E3 at2])
  have md3: "must_define (ms_g s3) phi t x = (t = ?t \<and> x \<in> ds_bytes ds)" for t x
    using md2 extD(5) [OF E3, of phi] at2 by (simp add: must_define_def phi_at_def)
  have cov: "endcov (ms_g s3) t x (set ?ns) p"
    if "phi_at (ms_g s3) b' phi" "must_define (ms_g s3) phi t x" "p \<in> set (preds (ms_g s3) b')" for b' t x p
  proof -
    have "b' = b" using that(1) at3 by (simp add: phi_at_def)
    then show ?thesis using that(2,3) s3(4) md3 extD(2) [OF E3, of b] P by simp
  qed
  have new: "\<exists>p \<in> set (preds (ms_g s3) b). seen (ms_g s3) d n p" if "phi_site (ms_g s3) phi d" "n \<in> set ?ns" for d n
  proof -
    have "n \<in> set N" using that(2) by simp
    then obtain p where p: "p \<in> set (preds (ms_g s) b)" "seen (ms_g s3) ds n p" using s3(5) by blast
    note m = must_site [OF that(1) md3]
    have "seen (ms_g s3) d n p" by (rule same_bytes(3) [OF m [symmetric] p(2)])
    then show ?thesis using p(1) extD(2) [OF E3, of b] P by auto
  qed
  have inv4: "inv C B Q ?s4" and g4: "ms_grows B s3 ?s4"
    by (rule inv_addDefUse [OF s3(2) at3 new cov], assumption+)+
  have r: "search (T_preds b ds) s = Some ([phi], ?s4)"
  proof -
    have an: "an_overwrites (rw_annotations (ms_node s2 phi)) = [ds]" "rw_bblock (ms_node s2 phi) = Some b"
      using adds_phiD(6,8) [OF a] by simp_all
    have "createAndPlacePhi search b ds s = Some (phi, s2)"
      by (simp add: createAndPlacePhi_def get_processed [OF s(3)] c(1) s2_def)
    moreover have "findPhiDefinitions search phi s2 = Some ?s4"
      using ps(2) ds'(2) by (simp add: findPhiDefinitions_def an rb_getSinglePredecessor_def P s3(1))
    ultimately show ?thesis
      using ps ds'(2) by (simp add: search_tasks(4,5) findDefinitionsInPredecessors_def findDefinitionsInMultiplePredecessors_def)
  qed
  note E4 = ms_grows_ext [OF g4]
  have at4: "phi_at (ms_g ?s4) b phi" by (rule phi_at_ext [OF E4 at3])
  have md4: "must_define (ms_g ?s4) phi t x = (t = ?t \<and> x \<in> ds_bytes ds)" for t x
    using md3 extD(5) [OF E4, of phi] at3 by (simp add: must_define_def phi_at_def)
  have "incov (ms_g ?s4) ?t x (set [phi]) b" if "x \<in> ds_bytes ds" for x
    by (rule incov.phi [of phi]) (use at4 md4 that in simp_all)
  moreover have "\<forall>n \<in> set [phi]. seen_start (ms_g ?s4) ds n b"
    using at4 site_of_phi [OF inv4 at4 md4] by (simp add: seen_start_def)
  ultimately show ?thesis unfolding preds_ok_def using r inv4 ms_grows_trans [OF g2 ms_grows_trans [OF s3(3) g4]] by blast
qed

lemma inv_inputs: "inv C B Q s \<Longrightarrow> dm_wf m \<Longrightarrow> inv C B Q (s\<lparr>ms_inputs := (ms_inputs s)(k := m)\<rparr>)"
  unfolding inv_def by simp

lemma ms_grows_inputs: "ms_grows B s (s'\<lparr>ms_inputs := f\<rparr>) = ms_grows B s s'"
  unfolding ms_grows_def by simp

text \<open>The first block of a function: the value may come from outside, through a node for the input.\<close>

lemma preds_entry:
  assumes s: "inv C B Q s" "b \<in> B" "d_processed (ms_defs s b)" and ds: "site_ok C ds" and ps: "preds (ms_g s) b = []"
  shows "preds_ok C B Q ds b s"
proof -
  let ?t = "ds_target ds" and ?k = "rb_subgraph (ms_block s b)"
  have ds': "ds_ok ds" "?t \<noteq> 0" "is_cell C ds" using ds by (simp_all add: site_ok_def)
  have u: "search (T_preds b ds) s = findDefinitionsInMultiplePredecessors search b ds s"
    using ps ds'(2) by (simp add: search_tasks(4,5) findDefinitionsInPredecessors_def rb_getSinglePredecessor_def)
  show ?thesis
  proof (cases "canBeInput s ?t ?k")
    case False
    then have "search (T_preds b ds) s = Some ([], s)" using ps by (simp add: u findDefinitionsInMultiplePredecessors_def)
    then show ?thesis unfolding preds_ok_def using s(1) incov.entry [of "ms_g s" b, OF ps] by (intro exI [of _ "[]"] exI [of _ s]) simp
  next
    case True
    obtain phi s1 D where c: "createPhi_in b ds RW_INARG s = Some (phi, s1)" "adds_phi (ms_g s) (ms_g s1) phi ds None"
      "s1 = s\<lparr>ms_g := ms_g s1, ms_phis := ms_phis s @ [phi], ms_defs := (ms_defs s)(b := D)\<rparr>" "phi_defs phi ds (ms_defs s b) D"
      using createPhi_in_ok [OF s ds'(1,3) phi_types(2)] by blast
    have s1: "ms_defs s1 = (ms_defs s)(b := D)" "ms_call s1 = ms_call s" "ms_inputs s1 = ms_inputs s"
      by (subst c(3), simp)+
    have bo: "None = Some b \<or> None = (None :: nat option) \<and> preds (ms_g s) b = []" using ps by simp
    note I = inv_add_phi [OF s(1,2) c(2) bo ds' s(3) c(4) refl s1]
    have inv1: "inv C B (insert phi Q) s1" and g1: "ms_grows B s s1" by (rule I)+
    have "\<forall>b. \<not> phi_at (ms_g s1) b phi" using adds_phiD(8) [OF c(2)] by (simp add: phi_at_def)
    then have inv1': "inv C B Q s1" by (rule inv_drop [OF inv1])
    have wi: "dm_wf (ms_inputs s1 ?k)" using inv1' by (simp add: inv_def)
    obtain ch m where m: "dm_add ds phi (ms_inputs s1 ?k) = Some (ch, m)" "dm_wf m"
      using dm_add_ok [OF wi ds'(1), of phi thesis] by auto
    let ?s2 = "s1\<lparr>ms_inputs := (ms_inputs s1)(?k := m)\<rparr>"
    have inv2: "inv C B Q ?s2" by (rule inv_inputs [OF inv1' m(2)])
    have g2: "ms_grows B s ?s2" using g1 by (simp only: ms_grows_inputs)
    have "rs_callers (rwg_subs (ms_g s1) ?k) = []" using inv_wf(1) [OF inv1'] by (simp add: rw_wf_def)
    then have "search (T_callers phi (rs_callers (rwg_subs (ms_g ?s2) ?k)) ds) ?s2 = Some ([], ?s2)"
      by (simp add: search_tasks(8) findDefinitionsFromCalledFun_def)
    then have "search (T_preds b ds) s = Some ([phi], ?s2)"
      using ps True by (simp add: u findDefinitionsInMultiplePredecessors_def get_processed [OF s(3)] c(1) summary_addInput_def m(1))
    moreover have "preds (ms_g ?s2) b = []" using extD(2) [OF ms_grows_ext [OF g2], of b] ps by simp
    moreover have "\<forall>n \<in> set [phi]. seen_start (ms_g ?s2) ds n b"
      using adds_phiD(2,5,8) [OF c(2)] by (simp add: seen_start_def orphan_def)
    ultimately show ?thesis unfolding preds_ok_def using inv2 g2 incov.entry [of "ms_g ?s2" b] by blast
  qed
qed

lemma preds_single:
  assumes s: "inv C B Q s" "b \<in> B" and ds: "site_ok C ds" and single: "block_ok C B ds p s" and p: "preds (ms_g s) b = [p]"
  shows "preds_ok C B Q ds b s"
proof -
  have pB: "p \<in> B" using inv_wf(4) [OF s] p by simp
  have t: "ds_target ds \<noteq> 0" using ds by (simp add: site_ok_def)
  obtain N s1 where s1: "search (T_block p ds) s = Some (N, s1)" "inv C B Q s1" "ms_grows B s s1"
    "\<forall>x \<in> ds_bytes ds. endcov (ms_g s1) (ds_target ds) x (set N) p" "\<forall>n \<in> set N. seen (ms_g s1) ds n p"
    using single s(1) unfolding block_ok_def by blast
  obtain s2 where s2: "search (T_get p ds) s1 = Some ([], s2)" "inv C B Q s2" "ms_grows B s1 s2" "ms_g s2 = ms_g s1"
    "d_processed (ms_defs s2 p)" using get_ok [OF s1(2) pB] by blast
  have "d_unknownWrites (ms_defs s2 p) = []" using inv_wf(5) [OF s2(2) pB] s2(5) by (simp add: block_defs_ok_def)
  then have "search (T_preds b ds) s = Some (N, s2)"
    using t by (simp add: search_tasks(4) findDefinitionsInPredecessors_def rb_getSinglePredecessor_def p s1(1) s2(1))
  moreover have p1: "preds (ms_g s1) b = [p]" using extD(2) [OF ms_grows_ext [OF s1(3)], of b] p by simp
  then have "incov (ms_g s2) (ds_target ds) x (set N) b" if "x \<in> ds_bytes ds" for x
    using s1(4) that s2(4) incov_single by simp
  moreover have "\<forall>n \<in> set N. seen_start (ms_g s2) ds n b" using s1(5) s2(4) p1 by (simp add: seen_start_def)
  ultimately show ?thesis unfolding preds_ok_def using s2(2) ms_grows_trans [OF s1(3) s2(3)] by blast
qed

lemma preds_step:
  assumes s: "inv C B Q s" "b \<in> B" "d_processed (ms_defs s b)" and ds: "site_ok C ds"
    and free: "\<forall>x \<in> ds_bytes ds. dm_at (d_kills (ms_defs s b)) (ds_target ds) x = None"
    and single: "\<And>p. preds (ms_g s) b = [p] \<Longrightarrow> block_ok C B ds p s"
    and less: "\<And>p s'. p \<in> B \<Longrightarrow> ms_grows B s s' \<Longrightarrow> bytes_left (ds_target ds) B s' < bytes_left (ds_target ds) B s \<Longrightarrow> block_ok C B ds p s'"
  shows "preds_ok C B Q ds b s"
proof (cases "preds (ms_g s) b = []")
  case True
  then show ?thesis by (rule preds_entry [OF s ds])
next
  case ne: False
  show ?thesis
  proof (cases "rb_getSinglePredecessor (ms_g s) b")
    case None
    then show ?thesis using preds_phi [OF s ds _ ne] free less by blast
  next
    case (Some p)
    then have "preds (ms_g s) b = [p]" by (auto simp: rb_getSinglePredecessor_def split: list.splits)
    then show ?thesis using preds_single [OF s(1,2) ds] single by blast
  qed
qed

section \<open>The search from the end of a block\<close>

text \<open>As no site overlaps another in part, the bytes of a site are open all together or not at all.\<close>

lemma uncovered_cell:
  assumes D: "defs_ok D" "whole C (\<lambda>t x. dm_at (d_kills D) t x \<noteq> None)" and ds: "site_ok C ds"
  obtains (all) "\<forall>x \<in> ds_bytes ds. dm_at (d_kills D) (ds_target ds) x \<noteq> None" and "d_uncovered ds D = Some []"
  | (none) I u where "\<forall>x \<in> ds_bytes ds. dm_at (d_kills D) (ds_target ds) x = None"
    and "d_uncovered ds D = Some [I]" and "mk_defsite (ds_target ds) (istart I) (iv_length I) = Some u"
    and "ds_target u = ds_target ds" and "ds_bytes u = ds_bytes ds" and "site_ok C u"
proof -
  let ?t = "ds_target ds"
  have c: "ds_ok ds" "is_cell C ds" using ds by (simp_all add: site_ok_def)
  have w: "(\<forall>x \<in> ds_bytes ds. dm_at (d_kills D) ?t x = None) \<or> (\<forall>x \<in> ds_bytes ds. dm_at (d_kills D) ?t x \<noteq> None)"
    using whole_bytes [OF D(2) c(2)] by simp
  have "dm_wf (d_kills D)" using D(1) by (simp add: defs_ok_def)
  then obtain Is where Is: "undefinedIntervals ds (d_kills D) = Some Is" "holes (d_kills D) ds Is"
    "\<And>u. u \<in> set (sites_of ?t Is) \<Longrightarrow> ds_bytes u = ds_bytes ds"
    using undefinedIntervals_cell [OF _ c(1) w] by blast
  note b0 = ds_bytes_ne [of ds]
  show ?thesis
  proof (cases Is)
    case Nil
    then have "dm_at (d_kills D) ?t (fst (getInterval ds)) \<noteq> None" using Is(2) b0 by (auto simp: holes_def sites_of_def)
    then show ?thesis using w b0 Is(1) all by (auto simp: d_uncovered_def Nil)
  next
    case (Cons I Js)
    let ?u = "DefSite ?t (istart I) (iv_length I)"
    have so: "sites_of ?t Is = ?u # sites_of ?t Js" by (simp add: Cons sites_of_def)
    then have ub: "ds_bytes ?u = ds_bytes ds" using Is(3) by simp
    have "ds_bytes v = ds_bytes ds \<and> ds_bytes ?u \<inter> ds_bytes v = {}" if "v \<in> set (sites_of ?t Js)" for v
      using that Is(2,3) so by (auto simp: holes_def)
    then have "sites_of ?t Js = []" using ub b0 by (metis disjoint_iff list.set_intros(1) neq_Nil_conv)
    then have J: "Js = []" by (simp add: sites_of_def)
    have h: "mk_defsite ?t (istart I) (iv_length I) = Some ?u" "ds_ok ?u" "\<forall>x \<in> ds_bytes ds. dm_at (d_kills D) ?t x = None"
      using Is(2) so ub by (auto simp: holes_def Cons)
    have "site_ok C ?u" using ds h(2) ub by (simp add: site_ok_def is_cell_def)
    then show ?thesis using none [OF h(3) _ h(1)] Is(1) ub by (simp add: d_uncovered_def Cons J)
  qed
qed

text \<open>A phi node that defines a byte of a site defines exactly the site.\<close>

lemma phi_covers:
  assumes s: "inv C B Q s" and ds: "is_cell C ds" "x \<in> ds_bytes ds"
    and phi: "phi_at (ms_g s) b n" "may_define (ms_g s) n (ds_target ds) x"
  shows "phi_site (ms_g s) n ds"
proof -
  have ex: "exact C B (ms_g s) (ms_defs s)" and C: "cells_ok C" using s by (simp_all add: inv_def)
  obtain d where d: "is_cell C d" "phi_site (ms_g s) n d" using ex phi(1) by (auto simp: exact_def phi_at_def phi_sound_def)
  then have t: "ds_target ds = ds_target d" "x \<in> ds_bytes d" using phi(2) unfolding phi_site_def by blast+
  then have "ds_bytes ds = ds_bytes d" using cells_same [OF C ds(1) d(1) _ ds(2)] by simp
  then show ?thesis using same_bytes(1) [of ds d] t(1) d(2) by simp
qed

lemma site_not_over:
  assumes s: "inv C B Q s" "b \<in> B" and "set ns \<subseteq> set (block_nodes (ms_g s) b)" and ds: "is_cell C ds" "x \<in> ds_bytes ds"
    and "\<not> overwritten (ms_g s) ns (ds_target ds) x"
  shows "\<not> site_over (ms_g s) ns ds"
proof -
  have C: "cells_ok C" and ov: "\<forall>n \<in> set (block_nodes (ms_g s) b). \<forall>ds \<in> set (an_overwrites (ann (ms_g s) n)). is_cell C ds"
    using s by (simp_all add: inv_def)
  have "whole C (overwritten (ms_g s) ns)" using ov assms(3) by (intro whole_overwritten [OF C]) auto
  then show ?thesis using ds assms(6) unfolding whole_def site_over_def by blast
qed

lemma vals_seen:
  assumes s: "inv C B Q s" "b \<in> B" "d_processed (ms_defs s b)" and ds: "is_cell C ds" "x \<in> ds_bytes ds"
    and n: "n \<in> dm_vals (d_definitions (ms_defs s b)) (ds_target ds) x"
  shows "seen (ms_g s) ds n b"
proof -
  let ?G = "ms_g s" and ?t = "ds_target ds"
  have "set (prog ?G b) \<subseteq> set (block_nodes ?G b)" by (auto simp: prog_def)
  note w = site_not_over [OF s(1,2) this ds]
  have "block_sound ?G b (ms_defs s b)" using s(1,2) by (simp add: inv_def exact_def)
  then consider (last) "n \<in> ldefs ?G (prog ?G b) ?t x {}"
    | (phi) "\<not> overwritten ?G (prog ?G b) ?t x" "phi_at ?G b n" "may_define ?G n ?t x" | (orphan) "orphan ?G n"
    using s(3) n unfolding block_sound_def by blast
  then show ?thesis
  proof cases
    case last
    then show ?thesis by (rule seen.here [OF ds(2)])
  next
    case phi
    show ?thesis by (rule seen.phi [OF w [OF phi(1)] phi(2) phi_covers [OF s(1) ds phi(2,3)]])
  qed (rule seen.orphan)
qed

lemma not_over:
  assumes "inv C B Q s" and "b \<in> B" and "d_processed (ms_defs s b)"
    and "\<forall>x \<in> ds_bytes ds. dm_at (d_kills (ms_defs s b)) (ds_target ds) x = None"
  shows "\<not> site_over (ms_g s) (prog (ms_g s) b) ds"
proof -
  have "block_sound (ms_g s) b (ms_defs s b)" using assms(1,2) by (simp add: inv_def exact_def)
  then show ?thesis using assms(3,4) unfolding block_sound_def site_over_def by blast
qed

lemma block_step:
  assumes b: "b \<in> B" and ds: "site_ok C ds"
    and single: "\<And>p s' u. ms_grows B s s' \<Longrightarrow> preds (ms_g s) b = [p] \<Longrightarrow> site_ok C u \<Longrightarrow> ds_target u = ds_target ds \<Longrightarrow> block_ok C B u p s'"
    and less: "\<And>p s' u. p \<in> B \<Longrightarrow> ms_grows B s s' \<Longrightarrow> bytes_left (ds_target ds) B s' < bytes_left (ds_target ds) B s \<Longrightarrow>
      site_ok C u \<Longrightarrow> ds_target u = ds_target ds \<Longrightarrow> block_ok C B u p s'"
  shows "block_ok C B ds b s"
  unfolding block_ok_def
proof (intro allI impI)
  fix Q assume s: "inv C B Q s"
  let ?t = "ds_target ds"
  obtain s1 where s1: "search (T_get b ds) s = Some ([], s1)" "inv C B Q s1" "ms_grows B s s1" "d_processed (ms_defs s1 b)"
    using get_ok [OF s b] by blast
  let ?D = "ms_defs s1 b"
  have D: "defs_ok ?D" "d_unknownWrites ?D = []" "\<And>t x. finite (dm_vals (d_definitions ?D) t x)"
    "\<And>t x. ldefs (ms_g s1) (prog (ms_g s1) b) t x {} \<subseteq> dm_vals (d_definitions ?D) t x"
    "\<And>t x. dm_at (d_kills ?D) t x \<noteq> None \<Longrightarrow> overwritten (ms_g s1) (prog (ms_g s1) b) t x \<or> preds (ms_g s1) b = [] \<or>
       (\<exists>phi \<in> dm_vals (d_definitions ?D) t x. phi_at (ms_g s1) b phi \<and> must_define (ms_g s1) phi t x)"
    using inv_wf(5) [OF s1(2) b] s1(4) by (simp_all add: block_defs_ok_def)
  have wh: "whole C (\<lambda>t x. dm_at (d_kills ?D) t x \<noteq> None)" using inv_wf(5) [OF s1(2) b] s1(4) by (simp add: block_defs_ok_def)
  define V where "V = (\<Union>x \<in> ds_bytes ds. dm_vals (d_definitions ?D) ?t x)"
  have fV: "finite V" unfolding V_def using D(3) finite_subset [OF subset_UNIV finite_Offset] by blast
  have g: "d_get ds ?D = Some V" using D(1,2) by (simp add: d_get_def dm_get_ok defs_ok_def V_def)
  have r: "search (T_block b ds) s = Some (sorted_list_of_set V @ M, s2)"
    if "addUncoveredFromPredecessors search b ?D ds s1 = Some (M, s2)" for M s2
    by (simp add: search_tasks(1) findDefinitions_block_def s1(1) g found_then_def that)
  have cov_end: "endcov (ms_g s2) ?t x (set (sorted_list_of_set V @ M)) b"
    if x: "x \<in> ds_bytes ds" and g2: "ms_grows B s1 s2" and c: "dm_at (d_kills ?D) ?t x \<noteq> None \<or> incov (ms_g s2) ?t x (set M) b" for x s2 M
  proof -
    let ?N = "set (sorted_list_of_set V @ M)"
    note E = ms_grows_ext [OF g2] and o = inv_wf(2) [OF s1(2)]
    have V: "dm_vals (d_definitions ?D) ?t x \<subseteq> ?N" using x fV by (auto simp: V_def)
    then have "ldefs (ms_g s2) (prog (ms_g s2) b) ?t x {} \<subseteq> ?N" using D(4) [of ?t x] prog_ext [OF E o] by auto
    moreover have "overwritten (ms_g s2) (prog (ms_g s2) b) ?t x \<or> incov (ms_g s2) ?t x ?N b"
    proof (cases "incov (ms_g s2) ?t x (set M) b")
      case True
      then show ?thesis using incov_mono [of _ _ _ "set M"] by simp
    next
      case False
      then have "overwritten (ms_g s1) (prog (ms_g s1) b) ?t x \<or> incov (ms_g s1) ?t x ?N b"
        using D(5) [of ?t x] c V incov.entry [of "ms_g s1" b ?t x ?N] incov.phi [of _ ?N "ms_g s1" b ?t x] by blast
      then show ?thesis using prog_ext [OF E o] incov_ext [OF E o] by blast
    qed
    ultimately show ?thesis by (simp only: endcov_def simp_thms)
  qed
  have vs: "seen (ms_g s2) ds n b" if "n \<in> set (sorted_list_of_set V)" "ms_grows B s1 s2" for n s2
  proof -
    have "n \<in> V" using that(1) fV by simp
    then obtain x where "x \<in> ds_bytes ds" "n \<in> dm_vals (d_definitions ?D) ?t x" unfolding V_def by blast
    then have "seen (ms_g s1) ds n b" using vals_seen [OF s1(2) b s1(4)] ds by (simp add: site_ok_def)
    then show ?thesis by (rule seen_ext(1) [OF ms_grows_ext [OF that(2)] inv_wf(2) [OF s1(2)]])
  qed
  show "\<exists>N s'. search (T_block b ds) s = Some (N, s') \<and> inv C B Q s' \<and> ms_grows B s s' \<and>
      (\<forall>x \<in> ds_bytes ds. endcov (ms_g s') ?t x (set N) b) \<and> (\<forall>n \<in> set N. seen (ms_g s') ds n b)"
  proof (rule uncovered_cell [OF D(1) wh ds])
    assume k: "\<forall>x \<in> ds_bytes ds. dm_at (d_kills ?D) ?t x \<noteq> None" and I: "d_uncovered ds ?D = Some []"
    have "addUncoveredFromPredecessors search b ?D ds s1 = Some ([], s1)"
      by (simp add: addUncoveredFromPredecessors_def I search_tasks(6) uncovered_from_predecessors_def)
    note R = r [OF this]
    have "\<forall>x \<in> ds_bytes ds. endcov (ms_g s1) ?t x (set (sorted_list_of_set V @ [])) b" using cov_end k ms_grows_refl by blast
    moreover have "\<forall>n \<in> set (sorted_list_of_set V @ []). seen (ms_g s1) ds n b" using vs by simp
    ultimately show ?thesis using R s1(2,3) by blast
  next
    fix I u
    assume k: "\<forall>x \<in> ds_bytes ds. dm_at (d_kills ?D) ?t x = None" and I: "d_uncovered ds ?D = Some [I]"
      and u: "mk_defsite ?t (istart I) (iv_length I) = Some u" "ds_target u = ?t" "ds_bytes u = ds_bytes ds" "site_ok C u"
    have P: "preds (ms_g s1) b = preds (ms_g s) b" by (rule extD(2) [OF ms_grows_ext [OF s1(3)]])
    have "preds_ok C B Q u b s1"
    proof (rule preds_step [OF s1(2) b s1(4) u(4)])
      show "\<forall>x \<in> ds_bytes u. dm_at (d_kills ?D) (ds_target u) x = None" using k u(2,3) by simp
      show "block_ok C B u p s1" if "preds (ms_g s1) b = [p]" for p using single [OF s1(3) _ u(4,2)] that P by simp
      show "block_ok C B u p s'" if "p \<in> B" "ms_grows B s1 s'" "bytes_left (ds_target u) B s' < bytes_left (ds_target u) B s1" for p s'
        using less [OF that(1) ms_grows_trans [OF s1(3) that(2)] _ u(4,2)] that(3) bytes_left_mono [OF s1(3), of ?t] u(2) by simp
    qed
    then obtain M s2 where s2: "search (T_preds b u) s1 = Some (M, s2)" "inv C B Q s2" "ms_grows B s1 s2"
      "\<forall>x \<in> ds_bytes ds. incov (ms_g s2) ?t x (set M) b" "\<forall>n \<in> set M. seen_start (ms_g s2) u n b"
      unfolding preds_ok_def u(2,3) by blast
    have "\<not> site_over (ms_g s2) (prog (ms_g s2) b) ds"
      using not_over [OF s1(2) b s1(4) k] prog_ext(2) [OF ms_grows_ext [OF s2(3)] inv_wf(2) [OF s1(2)]] by (simp add: site_over_def)
    then have M: "\<forall>n \<in> set (sorted_list_of_set V @ M). seen (ms_g s2) ds n b"
      using vs s2(3,5) seen_from_start same_bytes(4) [OF u(2,3)] by auto
    have "addUncoveredFromPredecessors search b ?D ds s1 = Some (M, s2)"
      by (simp add: addUncoveredFromPredecessors_def I search_tasks(6) uncovered_from_predecessors_def u(1) s2(1) found_then_def)
    note R = r [OF this]
    have "\<forall>x \<in> ds_bytes ds. endcov (ms_g s2) ?t x (set (sorted_list_of_set V @ M)) b" using cov_end s2(3,4) by blast
    then show ?thesis using R s2(2) M ms_grows_trans [OF s1(3) s2(3)] by blast
  qed
qed

text \<open>Blocks with one predecessor lead to it, in finitely many steps; at other blocks bytes of the target are covered for good.\<close>

lemma block_search:
  assumes "inv C B Q s" and "b \<in> B" and "site_ok C ds"
  shows "block_ok C B ds b s"
proof -
  define P where "P = preds (ms_g s)"
  let ?R = "{(p, b). b \<in> B \<and> P b = [p]}" and ?t = "ds_target ds"
  have "?R \<subseteq> B \<times> B" using inv_wf(4) [OF assms(1)] by (fastforce simp: P_def)
  then have "finite ?R" using inv_wf(3) [OF assms(1)] finite_subset by blast
  moreover have "acyclic ?R" using inv_wf(1) [OF assms(1)] by (simp add: rw_wf_def P_def)
  ultimately have "wf (less_than <*lex*> ?R)" by (intro wf_lex_prod wf_less_than finite_acyclic_wf)
  then have "preds (ms_g s) = P \<Longrightarrow> b \<in> B \<Longrightarrow> site_ok C ds \<Longrightarrow> ds_target ds = ?t \<Longrightarrow> (bytes_left ?t B s, b) = m \<Longrightarrow> block_ok C B ds b s"
    for m s b ds
  proof (induction m arbitrary: s b ds rule: wf_induct_rule)
    case (less m)
    have P: "preds (ms_g s') = P" if "ms_grows B s s'" for s'
      using extD(2) [OF ms_grows_ext [OF that]] less.prems(1) by (simp add: fun_eq_iff)
    have PB: "b = b' \<Longrightarrow> b' \<in> B" for b' using less.prems(2) by simp
    show ?case
    proof (rule block_step [OF less.prems(2,3)])
      fix p s' u assume g: "ms_grows B s s'" and p: "preds (ms_g s) b = [p]" and u: "site_ok C u" "ds_target u = ds_target ds"
      have R: "(p, b) \<in> ?R" using p less.prems(2) fun_cong [OF less.prems(1), of b] by simp
      then have pB: "p \<in> B" using \<open>?R \<subseteq> B \<times> B\<close> by blast
      have d: "((bytes_left ?t B s', p), m) \<in> less_than <*lex*> ?R"
        using R bytes_left_mono [OF g, of ?t] by (auto simp: less.prems(5) [symmetric])
      have "ds_target u = ?t" using u(2) less.prems(4) by simp
      then show "block_ok C B u p s'" by (rule less.IH [OF d P [OF g] pB u(1) _ refl])
    next
      fix p s' u assume p: "p \<in> B" and g: "ms_grows B s s'" and u: "site_ok C u" "ds_target u = ds_target ds"
        and lt: "bytes_left (ds_target ds) B s' < bytes_left (ds_target ds) B s"
      have d: "((bytes_left ?t B s', p), m) \<in> less_than <*lex*> ?R" using lt by (simp add: less.prems(4) less.prems(5) [symmetric])
      have "ds_target u = ?t" using u(2) less.prems(4) by simp
      then show "block_ok C B u p s'" by (rule less.IH [OF d P [OF g] p u(1) _ refl])
    qed
  qed
  then show ?thesis using assms P_def by blast
qed

end
