(* ===== verification/Memory_Claims.thy ===== *)
theory Memory_Claims
  imports Memory_Search
begin

text \<open>
  What the queries of memory SSA return, for graphs of one function that access known memory only.
\<close>

section \<open>The definitions of a use\<close>

lemma block_search_ok: "b \<in> B \<Longrightarrow> site_ok C ds \<Longrightarrow> block_ok C B ds b s"
  using block_search unfolding block_ok_def by meson

lemma preds_search:
  assumes s: "inv C B Q s" "b \<in> B" and ds: "site_ok C ds"
  shows "preds_ok C B Q ds b s"
proof (cases "\<exists>p. preds (ms_g s) b = [p]")
  case True
  then obtain p where p: "preds (ms_g s) b = [p]" by blast
  then have "p \<in> B" using inv_wf(4) [OF s] by simp
  then show ?thesis by (intro preds_single [OF s ds _ p] block_search_ok ds)
next
  case False
  then have np: "rb_getSinglePredecessor (ms_g s) b = None" by (auto simp: rb_getSinglePredecessor_def split: list.splits)
  have t: "ds_target ds \<noteq> 0" using ds by (simp add: site_ok_def)
  obtain s0 where s0: "search (T_get b ds) s = Some ([], s0)" "inv C B Q s0" "ms_grows B s s0" "ms_g s0 = ms_g s"
    "d_processed (ms_defs s0 b)" using get_ok [OF s] by blast
  note get = get_processed [OF s0(5)]
  have ok: "preds_ok C B Q ds b s0"
  proof (cases "preds (ms_g s) b = []")
    case True
    then show ?thesis using preds_entry [OF s0(2) s(2) s0(5) ds] s0(4) by simp
  next
    case ne: False
    then show ?thesis using preds_phi [OF s0(2) s(2) s0(5) ds] block_search_ok ds np s0(4) by simp
  qed
  have u: "search (T_preds b ds) s' = findDefinitionsInMultiplePredecessors search b ds s'" if "ms_g s' = ms_g s" for s'
    using t np that by (simp add: search_tasks(4,5) findDefinitionsInPredecessors_def)
  show ?thesis
  proof (cases "preds (ms_g s) b = [] \<and> \<not> canBeInput s (ds_target ds) (rb_subgraph (ms_block s b))")
    case True
    then have "search (T_preds b ds) s = Some ([], s)" by (simp add: u findDefinitionsInMultiplePredecessors_def)
    then show ?thesis unfolding preds_ok_def using s(1) incov.entry [of "ms_g s" b] True
      by (intro exI [of _ "[]"] exI [of _ s]) simp
  next
    case False
    have "canBeInput s0 = canBeInput s" by (auto simp: canBeInput_def fun_eq_iff s0(4) split: option.split)
    then have "search (T_preds b ds) s = search (T_preds b ds) s0"
      using False by (auto simp: u s0(4) findDefinitionsInMultiplePredecessors_def createAndPlacePhi_def s0(1) get)
    then show ?thesis using ok ms_grows_trans [OF s0(3)] unfolding preds_ok_def by metis
  qed
qed

text \<open>Nodes that cover a byte where a node reads it.\<close>

definition usecov :: "rwgraph \<Rightarrow> nat \<Rightarrow> Offset \<Rightarrow> nat set \<Rightarrow> nat \<Rightarrow> nat \<Rightarrow> bool" where
  "usecov G t x N b u =
     (ldefs G (prog_before G b u) t x {} \<subseteq> N \<and> (overwritten G (prog_before G b u) t x \<or> incov G t x N b))"

lemma before_ext:
  assumes "ext G H" and "old_nodes G" and "u \<le> rwg_last G" and "\<not> isPhi G u"
  shows "ldefs H (prog_before H b u) t x R = ldefs G (prog_before G b u) t x R"
    and "overwritten H (prog_before H b u) t x = overwritten G (prog_before G b u) t x"
proof -
  have p: "prog_before H b u = prog_before G b u" by (rule extD(8) [OF assms(1,3,4)])
  have "ann H n = ann G n" if n: "n \<in> set (prog_before G b u)" for n
  proof -
    have "n \<in> set (block_nodes G b)" using n by (auto simp: prog_before_def dest: set_takeWhileD)
    then show ?thesis using assms(2) by (intro extD(5) [OF assms(1)]) (simp add: old_nodes_def)
  qed
  then have "\<forall>n \<in> set (prog_before G b u). ann H n = ann G n" by blast
  then show "ldefs H (prog_before H b u) t x R = ldefs G (prog_before G b u) t x R"
    "overwritten H (prog_before H b u) t x = overwritten G (prog_before G b u) t x"
    unfolding p using ldefs_cong by blast+
qed

lemma usecov_ext:
  assumes "ext G H" and "old_nodes G" and "u \<le> rwg_last G" and "\<not> isPhi G u" and "usecov G t x N b u"
  shows "usecov H t x N b u"
  using assms(5) before_ext [OF assms(1-4)] incov_ext [OF assms(1,2)] unfolding usecov_def by auto

lemma usecov_mono: "usecov G t x N b u \<Longrightarrow> N \<subseteq> M \<Longrightarrow> usecov G t x M b u"
  using incov_mono unfolding usecov_def by blast

lemma usecov_reaches:
  assumes fin: "\<And>b phi. phi_at G b phi \<Longrightarrow> phi_done G b phi"
    and "rw_bblock (rwg_nodes G u) = Some b" and "usecov G t x N b u" and "reaches G t x d u"
  shows "d \<in> via_phis G N"
proof (cases "d \<in> ldefs G (prog_before G b u) t x {}")
  case True
  then show ?thesis using assms(3) by (auto simp: usecov_def intro: via_phis.start)
next
  case False
  then obtain p where "\<not> overwritten G (prog_before G b u) t x" "p \<in> set (preds G b)" "reach_end G t x d p"
    using assms(2,4) by (auto simp: reaches_def ldefs_last_def)
  then show ?thesis using assms(3) incov_reaches [OF fin] by (auto simp: usecov_def)
qed

text \<open>What a search from a use may return.\<close>

definition seen_use :: "rwgraph \<Rightarrow> DefSite \<Rightarrow> nat \<Rightarrow> nat \<Rightarrow> nat \<Rightarrow> bool" where
  "seen_use G ds n b u =
     ((\<exists>x \<in> ds_bytes ds. n \<in> ldefs G (prog_before G b u) (ds_target ds) x {}) \<or>
      \<not> site_over G (prog_before G b u) ds \<and> seen_start G ds n b)"

lemma seen_use_ext:
  assumes "ext G H" and "old_nodes G" and "u \<le> rwg_last G" and "\<not> isPhi G u" and "seen_use G ds n b u"
  shows "seen_use H ds n b u"
  using assms(5) before_ext [OF assms(1-4)] seen_ext(2) [OF assms(1,2)] unfolding seen_use_def site_over_def by auto

text \<open>The search for one site of a use.\<close>

lemma use_site_ok:
  assumes s: "inv C B Q s" "b \<in> B" and ds: "site_ok C ds" and D: "defs_ok D" "d_unknownWrites D = []"
    "\<forall>t x. finite (dm_vals (d_definitions D) t x)" "whole C (\<lambda>t x. dm_at (d_kills D) t x \<noteq> None)"
  obtains V M s' where "d_get ds D = Some V" and "finite V" and "addUncoveredFromPredecessors search b D ds s = Some (M, s')"
    and "inv C B Q s'" and "ms_grows B s s'" and "\<forall>x \<in> ds_bytes ds. dm_vals (d_definitions D) (ds_target ds) x \<subseteq> V"
    and "\<forall>x \<in> ds_bytes ds. dm_at (d_kills D) (ds_target ds) x \<noteq> None \<or> incov (ms_g s') (ds_target ds) x (set M) b"
    and "\<forall>n \<in> V. \<exists>x \<in> ds_bytes ds. n \<in> dm_vals (d_definitions D) (ds_target ds) x"
    and "\<forall>n \<in> set M. (\<forall>x \<in> ds_bytes ds. dm_at (d_kills D) (ds_target ds) x = None) \<and> seen_start (ms_g s') ds n b"
proof -
  let ?t = "ds_target ds"
  define V where "V = (\<Union>x \<in> ds_bytes ds. dm_vals (d_definitions D) ?t x)"
  have fV: "finite V" unfolding V_def using D(3) finite_subset [OF subset_UNIV finite_Offset] by blast
  have g: "d_get ds D = Some V" using D(1,2) by (simp add: d_get_def dm_get_ok defs_ok_def V_def)
  have V: "\<forall>x \<in> ds_bytes ds. dm_vals (d_definitions D) ?t x \<subseteq> V" by (auto simp: V_def)
  have W: "\<forall>n \<in> V. \<exists>x \<in> ds_bytes ds. n \<in> dm_vals (d_definitions D) ?t x" unfolding V_def by blast
  show ?thesis
  proof (rule uncovered_cell [OF D(1,4) ds])
    assume k: "\<forall>x \<in> ds_bytes ds. dm_at (d_kills D) ?t x \<noteq> None" and I: "d_uncovered ds D = Some []"
    have "addUncoveredFromPredecessors search b D ds s = Some ([], s)"
      by (simp add: addUncoveredFromPredecessors_def I search_tasks(6) uncovered_from_predecessors_def)
    then show ?thesis using that [OF g fV _ s(1) ms_grows_refl V _ W] k by simp
  next
    fix I u
    assume k: "\<forall>x \<in> ds_bytes ds. dm_at (d_kills D) ?t x = None" and I: "d_uncovered ds D = Some [I]"
      and u: "mk_defsite ?t (istart I) (iv_length I) = Some u" "ds_target u = ?t" "ds_bytes u = ds_bytes ds" "site_ok C u"
    obtain M s2 where s2: "search (T_preds b u) s = Some (M, s2)" "inv C B Q s2" "ms_grows B s s2"
      "\<forall>x \<in> ds_bytes ds. incov (ms_g s2) ?t x (set M) b" "\<forall>n \<in> set M. seen_start (ms_g s2) u n b"
      using preds_search [OF s u(4)] unfolding preds_ok_def u(2,3) by blast
    have "addUncoveredFromPredecessors search b D ds s = Some (M, s2)"
      by (simp add: addUncoveredFromPredecessors_def I search_tasks(6) uncovered_from_predecessors_def u(1) s2(1) found_then_def)
    moreover have "\<forall>n \<in> set M. seen_start (ms_g s2) ds n b" using s2(5) same_bytes(4) [OF u(2,3)] by blast
    ultimately show ?thesis using that [OF g fV _ s2(2,3) V _ W] s2(4) k by blast
  qed
qed

text \<open>The definitions of the nodes before a use.\<close>

definition prefix_ok :: "DefSite set \<Rightarrow> rwgraph \<Rightarrow> nat \<Rightarrow> nat \<Rightarrow> Definitions \<Rightarrow> bool" where
  "prefix_ok C G b u D =
     (defs_ok D \<and> d_unknownWrites D = [] \<and> (\<forall>t x. finite (dm_vals (d_definitions D) t x)) \<and> whole C (\<lambda>t x. dm_at (d_kills D) t x \<noteq> None) \<and>
      (\<forall>t x. ldefs G (prog_before G b u) t x {} \<subseteq> dm_vals (d_definitions D) t x \<and>
        (dm_at (d_kills D) t x \<noteq> None \<longrightarrow> overwritten G (prog_before G b u) t x \<or>
          (\<exists>phi \<in> dm_vals (d_definitions D) t x. phi_at G b phi \<and> must_define G phi t x))) \<and>
      (\<forall>t x. (overwritten G (prog_before G b u) t x \<longrightarrow> dm_at (d_kills D) t x \<noteq> None) \<and>
        (\<forall>n \<in> dm_vals (d_definitions D) t x. n \<in> ldefs G (prog_before G b u) t x {} \<or>
          \<not> overwritten G (prog_before G b u) t x \<and> phi_at G b n \<and> may_define G n t x)))"

lemma prefix_ok_ext:
  assumes "ext G H" and "old_nodes G" and "u \<le> rwg_last G" and "\<not> isPhi G u" and "prefix_ok C G b u D"
  shows "prefix_ok C H b u D"
proof -
  have "phi_at H b phi \<and> must_define H phi t x" if "phi_at G b phi" "must_define G phi t x" for phi t x
    using phi_at_ext [OF assms(1) that(1)] that extD(5) [OF assms(1), of phi] by (simp add: phi_at_def must_define_def)
  moreover have "phi_at H b n \<and> may_define H n t x" if "phi_at G b n" "may_define G n t x" for n t x
    using phi_at_ext [OF assms(1) that(1)] that extD(5) [OF assms(1), of n] by (simp add: phi_at_def may_define_def)
  ultimately show ?thesis using assms(5) before_ext [OF assms(1-4)] unfolding prefix_ok_def by simp blast
qed

lemma prefix_seen:
  assumes s: "inv C B Q s" "b \<in> B" and D: "prefix_ok C (ms_g s) b u D" and ds: "site_ok C ds"
    and x: "x \<in> ds_bytes ds" "n \<in> dm_vals (d_definitions D) (ds_target ds) x"
  shows "seen_use (ms_g s) ds n b u"
proof -
  let ?G = "ms_g s" and ?t = "ds_target ds"
  have c: "is_cell C ds" using ds by (simp add: site_ok_def)
  have "set (prog_before ?G b u) \<subseteq> set (block_nodes ?G b)" by (auto simp: prog_before_def dest: set_takeWhileD)
  note w = site_not_over [OF s this c x(1)]
  consider "n \<in> ldefs ?G (prog_before ?G b u) ?t x {}"
    | "\<not> overwritten ?G (prog_before ?G b u) ?t x" "phi_at ?G b n" "may_define ?G n ?t x"
    using D x(2) unfolding prefix_ok_def by blast
  then show ?thesis
  proof cases
    case 1
    then show ?thesis using x(1) unfolding seen_use_def by blast
  next
    case 2
    then show ?thesis using w phi_covers [OF s(1) c x(1) 2(2,3)] by (simp add: seen_use_def seen_start_def)
  qed
qed

lemma uses_definitions_ok:
  assumes "inv C B Q s" and "b \<in> B" and "u \<le> rwg_last (ms_g s)" and "\<not> isPhi (ms_g s) u"
    and "prefix_ok C (ms_g s) b u D" and "\<forall>ds \<in> set S. site_ok C ds"
  shows "\<exists>N s'. uses_definitions b D S s = Some (N, s') \<and> inv C B Q s' \<and> ms_grows B s s' \<and>
    (\<forall>ds \<in> set S. \<forall>x \<in> ds_bytes ds. usecov (ms_g s') (ds_target ds) x (set N) b u) \<and>
    (\<forall>n \<in> set N. \<exists>ds \<in> set S. seen_use (ms_g s') ds n b u)"
  using assms
proof (induction S arbitrary: s)
  case Nil
  then show ?case by simp
next
  case (Cons ds S)
  let ?t = "ds_target ds"
  have ds: "site_ok C ds" using Cons.prems(6) by simp
  have D: "defs_ok D" "d_unknownWrites D = []" "\<forall>t x. finite (dm_vals (d_definitions D) t x)"
    "whole C (\<lambda>t x. dm_at (d_kills D) t x \<noteq> None)" using Cons.prems(5) by (simp_all add: prefix_ok_def)
  obtain V M s1 where s1: "d_get ds D = Some V" "finite V" "addUncoveredFromPredecessors search b D ds s = Some (M, s1)"
    "inv C B Q s1" "ms_grows B s s1" "\<forall>x \<in> ds_bytes ds. dm_vals (d_definitions D) ?t x \<subseteq> V"
    "\<forall>x \<in> ds_bytes ds. dm_at (d_kills D) ?t x \<noteq> None \<or> incov (ms_g s1) ?t x (set M) b"
    "\<forall>n \<in> V. \<exists>x \<in> ds_bytes ds. n \<in> dm_vals (d_definitions D) ?t x"
    "\<forall>n \<in> set M. (\<forall>x \<in> ds_bytes ds. dm_at (d_kills D) ?t x = None) \<and> seen_start (ms_g s1) ds n b"
    by (rule use_site_ok [OF Cons.prems(1,2) ds D])
  note E = ms_grows_ext [OF s1(5)] and o = inv_wf(2) [OF Cons.prems(1)] and o1 = inv_wf(2) [OF s1(4)]
  have u1: "u \<le> rwg_last (ms_g s1)" "\<not> isPhi (ms_g s1) u"
    using Cons.prems(3,4) extD(1) [OF E] extD(6) [OF E Cons.prems(3)] by simp_all
  have D1: "prefix_ok C (ms_g s1) b u D" by (rule prefix_ok_ext [OF E o Cons.prems(3-5)])
  obtain N s2 where s2: "uses_definitions b D S s1 = Some (N, s2)" "inv C B Q s2" "ms_grows B s1 s2"
    "\<forall>ds \<in> set S. \<forall>x \<in> ds_bytes ds. usecov (ms_g s2) (ds_target ds) x (set N) b u"
    "\<forall>n \<in> set N. \<exists>ds \<in> set S. seen_use (ms_g s2) ds n b u"
    using Cons.IH [OF s1(4) Cons.prems(2) u1 D1] Cons.prems(6) by auto
  let ?N = "set ((sorted_list_of_set V @ M) @ N)"
  have "usecov (ms_g s1) ?t x ?N b u" if x: "x \<in> ds_bytes ds" for x
  proof -
    have V: "dm_vals (d_definitions D) ?t x \<subseteq> ?N" using s1(2,6) x by auto
    then have "ldefs (ms_g s1) (prog_before (ms_g s1) b u) ?t x {} \<subseteq> ?N" using D1 unfolding prefix_ok_def by blast
    moreover have "overwritten (ms_g s1) (prog_before (ms_g s1) b u) ?t x \<or> incov (ms_g s1) ?t x ?N b"
    proof (cases "dm_at (d_kills D) ?t x = None")
      case True
      then have "incov (ms_g s1) ?t x (set M) b" using s1(7) x by blast
      then have "incov (ms_g s1) ?t x ?N b" by (rule incov_mono) auto
      then show ?thesis ..
    next
      case False
      then show ?thesis using D1 V incov.phi [of _ ?N "ms_g s1" b ?t x] unfolding prefix_ok_def by blast
    qed
    ultimately show ?thesis by (simp only: usecov_def simp_thms)
  qed
  then have "usecov (ms_g s2) ?t x ?N b u" if "x \<in> ds_bytes ds" for x
    using usecov_ext [OF ms_grows_ext [OF s2(3)] o1 u1] that by blast
  moreover have "set N \<subseteq> ?N" by auto
  ultimately have "\<forall>ds' \<in> set (ds # S). \<forall>x \<in> ds_bytes ds'. usecov (ms_g s2) (ds_target ds') x ?N b u"
    using s2(4) usecov_mono [OF _ \<open>set N \<subseteq> ?N\<close>] by auto
  moreover have "\<forall>n \<in> ?N. \<exists>ds' \<in> set (ds # S). seen_use (ms_g s2) ds' n b u"
  proof
    fix n assume "n \<in> ?N"
    then consider (V) "n \<in> V" | (M) "n \<in> set M" | (N) "n \<in> set N" using s1(2) by auto
    then show "\<exists>ds' \<in> set (ds # S). seen_use (ms_g s2) ds' n b u"
    proof cases
      case V
      then have "seen_use (ms_g s1) ds n b u" using prefix_seen [OF s1(4) Cons.prems(2) D1 ds] s1(8) by blast
      then show ?thesis using seen_use_ext [OF ms_grows_ext [OF s2(3)] o1 u1] by auto
    next
      case M
      then have "seen_use (ms_g s1) ds n b u" using s1(9) D1 unfolding seen_use_def site_over_def prefix_ok_def by blast
      then show ?thesis using seen_use_ext [OF ms_grows_ext [OF s2(3)] o1 u1] by auto
    next
      case N
      then show ?thesis using s2(5) by auto
    qed
  qed
  moreover have "uses_definitions b D (ds # S) s = Some ((sorted_list_of_set V @ M) @ N, s2)"
    by (simp add: s1(1,3) s2(1) found_then_def)
  ultimately show ?case using s2(2) ms_grows_trans [OF s1(5) s2(3)] by blast
qed

text \<open>A node of the program that reads known memory only.\<close>

definition use_at :: "DefSite set \<Rightarrow> nat set \<Rightarrow> rwgraph \<Rightarrow> nat \<Rightarrow> nat \<Rightarrow> bool" where
  "use_at C B G b u =
     (b \<in> B \<and> u \<le> rwg_last G \<and> \<not> isPhi G u \<and> rw_bblock (rwg_nodes G u) = Some b \<and> getAnnotations G u \<noteq> None \<and>
      an_uses (ann G u) \<noteq> [] \<and> (\<forall>ds \<in> set (an_uses (ann G u)). site_ok C ds))"

lemma use_at_ext: "ext G H \<Longrightarrow> closed_callees G \<Longrightarrow> use_at C B G b u \<Longrightarrow> use_at C B H b u"
proof -
  assume e: "ext G H" and c: "closed_callees G" and u: "use_at C B G b u"
  have sc: "same_core G H m" if "m \<le> rwg_last G" for m using e that by (simp add: ext_def)
  have l: "u \<le> rwg_last G" using u by (simp add: use_at_def)
  show ?thesis using ann_core [OF sc c l] u extD(1) [OF e] extD(7) [OF e l] by (simp add: use_at_def)
qed

definition answered :: "rwgraph \<Rightarrow> nat set \<Rightarrow> nat \<Rightarrow> nat \<Rightarrow> bool" where
  "answered G N b u =
     ((\<forall>ds \<in> set (an_uses (ann G u)). \<forall>x \<in> ds_bytes ds. usecov G (ds_target ds) x N b u) \<and>
      (\<forall>n \<in> N. \<exists>ds \<in> set (an_uses (ann G u)). seen_use G ds n b u))"

lemma findDefinitions_ok:
  assumes s: "inv C B Q s" and u: "use_at C B (ms_g s) b u"
  obtains N s' where "findDefinitions u s = Some (N, s')" and "inv C B Q s'" and "ms_grows B s s'" and "answered (ms_g s') (set N) b u"
proof -
  let ?G = "ms_g s" and ?xs = "takeWhile (\<lambda>m. m \<noteq> u) (block_nodes (ms_g s) b)"
  have U: "b \<in> B" "u \<le> rwg_last ?G" "\<not> isPhi ?G u" "rw_bblock (rwg_nodes ?G u) = Some b" "getAnnotations ?G u \<noteq> None"
    "an_uses (ann ?G u) \<noteq> []" "\<forall>ds \<in> set (an_uses (ann ?G u)). site_ok C ds" using u by (simp_all add: use_at_def)
  have ph: "phis_first ?G b" and cells: "cells_ok C" "\<forall>n \<in> set (block_nodes ?G b). \<forall>ds \<in> set (an_overwrites (ann ?G n)). is_cell C ds"
    using s U(1) by (simp_all add: inv_def)
  have split: "block_nodes ?G b = ?xs @ dropWhile (\<lambda>m. m \<noteq> u) (block_nodes ?G b)" by simp
  obtain D where D: "lvn_nodes ?G ?xs no_definitions = Some D" "prefix_ok C ?G b u D"
  proof (rule lvn_prefix_ok [OF inv_wf(1) [OF s] U(1) ph split cells])
    fix D assume "lvn_nodes ?G ?xs no_definitions = Some D" "defs_ok D" "d_unknownWrites D = []"
      "\<forall>t x. finite (dm_vals (d_definitions D) t x)" "whole C (\<lambda>t x. dm_at (d_kills D) t x \<noteq> None)"
      "\<forall>t x. ldefs ?G (filter (writer ?G) ?xs) t x {} \<subseteq> dm_vals (d_definitions D) t x \<and>
        (dm_at (d_kills D) t x \<noteq> None \<longrightarrow> overwritten ?G (filter (writer ?G) ?xs) t x \<or>
          (\<exists>phi \<in> dm_vals (d_definitions D) t x. phi_at ?G b phi \<and> must_define ?G phi t x))"
      "\<forall>t x. (overwritten ?G (filter (writer ?G) ?xs) t x \<longrightarrow> dm_at (d_kills D) t x \<noteq> None) \<and>
        (\<forall>n \<in> dm_vals (d_definitions D) t x. n \<in> ldefs ?G (filter (writer ?G) ?xs) t x {} \<or>
          \<not> overwritten ?G (filter (writer ?G) ?xs) t x \<and> phi_at ?G b n \<and> may_define ?G n t x)"
    then show ?thesis using that unfolding prefix_ok_def prog_before_def by blast
  qed
  obtain N s' where s': "uses_definitions b D (an_uses (ann ?G u)) s = Some (N, s')" "inv C B Q s'" "ms_grows B s s'"
    "\<forall>ds \<in> set (an_uses (ann ?G u)). \<forall>x \<in> ds_bytes ds. usecov (ms_g s') (ds_target ds) x (set N) b u"
    "\<forall>n \<in> set N. \<exists>ds \<in> set (an_uses (ann ?G u)). seen_use (ms_g s') ds n b u"
    using uses_definitions_ok [OF s U(1-3) D(2) U(7)] by blast
  obtain A where A: "getAnnotations ?G u = Some A" using U(5) by blast
  then have an: "ann ?G u = A" by (simp add: ann_def)
  have "\<not> uses_unknown A" using U(7) by (auto simp: uses_unknown_def site_ok_def an)
  then have "findDefinitions u s = Some (N, s')"
    using U(4,6) s'(1) by (simp add: findDefinitions_def A an findDefinitionsInBlock_def nodes_before_def D(1))
  moreover have "answered (ms_g s') (set N) b u" using s'(4,5) extD(5) [OF ms_grows_ext [OF s'(3)] U(2)] by (simp add: answered_def)
  ultimately show ?thesis using that s'(2,3) by blast
qed

section \<open>Gathering the definitions behind phi nodes\<close>

lemma gatherNonPhis_ok:
  assumes "finite {n. isPhi G n}" and "finite ret" and "phis \<subseteq> {n. isPhi G n}" and "set ns \<subseteq> via_phis G N" and "phis \<subseteq> via_phis G N"
    and "ret \<subseteq> {n \<in> via_phis G N. \<not> isPhi G n}"
    and "\<And>p n. p \<in> phis \<Longrightarrow> n \<in> set (rw_defuse (rwg_nodes G p)) \<Longrightarrow> n \<in> phis \<union> ret \<union> set ns"
  shows "\<exists>X P. gatherNonPhis False G ns phis ret = Some X \<and> finite X \<and> X \<subseteq> {n \<in> via_phis G N. \<not> isPhi G n} \<and>
    phis \<union> ret \<union> set ns \<subseteq> P \<union> X \<and> (\<forall>p \<in> P. isPhi G p \<and> set (rw_defuse (rwg_nodes G p)) \<subseteq> P \<union> X)"
proof -
  have "wf (less_than <*lex*> less_than)" by (intro wf_lex_prod wf_less_than)
  then show ?thesis using assms(2-)
  proof (induction "(card ({n. isPhi G n} - phis), length ns)" arbitrary: ns phis ret rule: wf_induct_rule)
    case less
    show ?case
    proof (cases ns)
      case Nil
      then have "gatherNonPhis False G ns phis ret = Some ret" by (subst gatherNonPhis.simps) simp
      moreover have "\<forall>p \<in> phis. isPhi G p \<and> set (rw_defuse (rwg_nodes G p)) \<subseteq> phis \<union> ret"
        using less.prems(2,6) Nil by auto
      moreover have "phis \<union> ret \<union> set ns \<subseteq> phis \<union> ret" using Nil by simp
      ultimately show ?thesis using less.prems(1,5) by blast
    next
      case (Cons n ns')
      consider (non) "\<not> isPhi G n" | (old) "isPhi G n" "n \<in> phis" | (new) "isPhi G n" "n \<notin> phis" by blast
      then show ?thesis
      proof cases
        case non
        then have r: "gatherNonPhis False G ns phis ret = gatherNonPhis False G ns' phis (insert n ret)"
          by (subst gatherNonPhis.simps) (simp add: Cons)
        have "\<exists>X P. gatherNonPhis False G ns' phis (insert n ret) = Some X \<and> finite X \<and> X \<subseteq> {n \<in> via_phis G N. \<not> isPhi G n} \<and>
          phis \<union> insert n ret \<union> set ns' \<subseteq> P \<union> X \<and> (\<forall>p \<in> P. isPhi G p \<and> set (rw_defuse (rwg_nodes G p)) \<subseteq> P \<union> X)"
        proof (rule less.hyps)
          show "m \<in> phis \<union> insert n ret \<union> set ns'" if "p \<in> phis" "m \<in> set (rw_defuse (rwg_nodes G p))" for p m
            using less.prems(6) [OF that] by (auto simp: Cons)
        qed (use less.prems non in \<open>auto simp: Cons\<close>)
        then show ?thesis unfolding r by (simp add: Cons)
      next
        case old
        then have r: "gatherNonPhis False G ns phis ret = gatherNonPhis False G ns' phis ret"
          by (subst gatherNonPhis.simps) (simp add: Cons)
        have "\<exists>X P. gatherNonPhis False G ns' phis ret = Some X \<and> finite X \<and> X \<subseteq> {n \<in> via_phis G N. \<not> isPhi G n} \<and>
          phis \<union> ret \<union> set ns' \<subseteq> P \<union> X \<and> (\<forall>p \<in> P. isPhi G p \<and> set (rw_defuse (rwg_nodes G p)) \<subseteq> P \<union> X)"
        proof (rule less.hyps)
          show "m \<in> phis \<union> ret \<union> set ns'" if "p \<in> phis" "m \<in> set (rw_defuse (rwg_nodes G p))" for p m
            using less.prems(6) [OF that] old by (auto simp: Cons)
        qed (use less.prems old in \<open>auto simp: Cons\<close>)
        then show ?thesis unfolding r using old by (auto simp: Cons)
      next
        case new
        then have r: "gatherNonPhis False G ns phis ret = gatherNonPhis False G (rw_defuse (rwg_nodes G n) @ ns') (insert n phis) ret"
          by (subst gatherNonPhis.simps) (simp add: Cons)
        have c: "card ({m. isPhi G m} - insert n phis) < card ({m. isPhi G m} - phis)"
          using new assms(1) by (intro psubset_card_mono) auto
        have v: "n \<in> via_phis G N" using less.prems(3) by (simp add: Cons)
        have "\<exists>X P. gatherNonPhis False G (rw_defuse (rwg_nodes G n) @ ns') (insert n phis) ret = Some X \<and> finite X \<and>
          X \<subseteq> {n \<in> via_phis G N. \<not> isPhi G n} \<and> insert n phis \<union> ret \<union> set (rw_defuse (rwg_nodes G n) @ ns') \<subseteq> P \<union> X \<and>
          (\<forall>p \<in> P. isPhi G p \<and> set (rw_defuse (rwg_nodes G p)) \<subseteq> P \<union> X)"
        proof (rule less.hyps)
          show "m \<in> insert n phis \<union> ret \<union> set (rw_defuse (rwg_nodes G n) @ ns')"
            if "p \<in> insert n phis" "m \<in> set (rw_defuse (rwg_nodes G p))" for p m
            using less.prems(6) [of p m] that by (auto simp: Cons)
          show "set (rw_defuse (rwg_nodes G n) @ ns') \<subseteq> via_phis G N"
            using less.prems(3) via_phis.operand [OF v new(1)] by (auto simp: Cons)
        qed (use less.prems new c v in \<open>auto simp: Cons\<close>)
        then show ?thesis unfolding r by (auto simp: Cons)
      qed
    qed
  qed
qed

lemma gatherNonPhisDefs_eq:
  assumes "finite {n. isPhi G n}"
  shows "gatherNonPhisDefs G ns = Some (sorted_list_of_set {n \<in> via_phis G (set ns). \<not> isPhi G n})"
    and "finite {n \<in> via_phis G (set ns). \<not> isPhi G n}"
proof -
  have sub: "set ns \<subseteq> via_phis G (set ns)" by (auto intro: via_phis.start)
  obtain X P where X: "gatherNonPhis False G ns {} {} = Some X" "finite X" "X \<subseteq> {n \<in> via_phis G (set ns). \<not> isPhi G n}"
    "set ns \<subseteq> P \<union> X" "\<forall>p \<in> P. isPhi G p \<and> set (rw_defuse (rwg_nodes G p)) \<subseteq> P \<union> X"
    using gatherNonPhis_ok [OF assms, of "{}" "{}" ns "set ns"] sub by auto
  have "n \<in> P \<union> X" if "n \<in> via_phis G (set ns)" for n
    using that X(3-5) by (induction rule: via_phis.induct) auto
  then have e: "{n \<in> via_phis G (set ns). \<not> isPhi G n} = X" using X(3,5) by blast
  then show "gatherNonPhisDefs G ns = Some (sorted_list_of_set {n \<in> via_phis G (set ns). \<not> isPhi G n})"
    using X(1) by (simp add: gatherNonPhisDefs_def)
  show "finite {n \<in> via_phis G (set ns). \<not> isPhi G n}" using X(2) e by simp
qed

section \<open>Queries\<close>

text \<open>What holds between the queries of the uses \<open>U\<close>: those that were searched stay covered.\<close>

definition queries_ok :: "DefSite set \<Rightarrow> nat set \<Rightarrow> (nat \<times> nat) set \<Rightarrow> mssa \<Rightarrow> bool" where
  "queries_ok C B U s =
     (inv C B {} s \<and>
      (\<forall>(b, u) \<in> U. use_at C B (ms_g s) b u \<and>
        (if rw_init (ms_node s u) then answered (ms_g s) (set (rw_defuse (ms_node s u))) b u else rw_defuse (ms_node s u) = [])))"

lemma answered_ext:
  assumes "ext G H" and "old_nodes G" and "use_at C B G b u" and "answered G N b u"
  shows "answered H N b u"
proof -
  have u: "u \<le> rwg_last G" "\<not> isPhi G u" using assms(3) by (simp_all add: use_at_def)
  show ?thesis using assms(4) usecov_ext [OF assms(1,2) u] seen_use_ext [OF assms(1,2) u] extD(5) [OF assms(1) u(1)]
    unfolding answered_def by simp blast
qed

lemma inv_init_use:
  assumes s: "inv C B {} s" and u: "\<not> isPhi (ms_g s) u"
  shows "inv C B {} (ms_addDefUse u ds s)"
proof -
  define H where "H = addDefUse u ds (ms_g s)"
  note A = addDefUse_ok [OF H_def]
  have s': "ms_addDefUse u ds s = s\<lparr>ms_g := H\<rparr>" by (simp add: ms_addDefUse_def upd_g_def H_def)
  have wf: "rw_wf (ms_g s) B" and o: "old_nodes (ms_g s)" using inv_wf(1,2) [OF s] by simp_all
  have wf': "rw_wf H B" using wf by (simp add: rw_wf_def A(3-7,9-11) closed_callees_def old_nodes_def)
  have "phi_at H b n = phi_at (ms_g s) b n" for b n by (simp add: phi_at_def A)
  moreover have "phi_done H b n" if "phi_at (ms_g s) b n" for b n
    using s that phi_done_ext [OF A(1) o that] A(8) [of n] by (simp add: inv_def)
  moreover have "isPhi H = isPhi (ms_g s)" by (simp add: fun_eq_iff A(6))
  then have "phis_first H b = phis_first (ms_g s) b" for b by (simp add: phis_first_def A(4))
  moreover have "exact C B H (ms_defs s)"
  proof -
    have ex: "exact C B (ms_g s) (ms_defs s)" using s by (simp add: inv_def)
    have "phi_sound C B H n" if n: "n \<le> rwg_last (ms_g s)" "isPhi (ms_g s) n" for n
    proof (rule phi_sound_ext [OF A(1) o n(1)])
      show "phi_sound C B (ms_g s) n" using ex n by (simp add: exact_def)
      show "rw_defuse (rwg_nodes H n) = rw_defuse (ms_node s n)" using A(2) [of n] n(2) u by auto
    qed
    then show ?thesis using ex block_sound_ext [OF A(1) o] by (simp add: exact_def A(3,6))
  qed
  ultimately show ?thesis using s wf' block_defs_ok_ext [OF A(1) o] by (simp add: s' inv_def A(4,5))
qed

lemma search_use_ok:
  assumes q: "queries_ok C B U s" and bu: "(b, u) \<in> U"
  obtains s' where "search_use u s = Some s'" and "queries_ok C B U s'" and "ext (ms_g s) (ms_g s')"
    and "answered (ms_g s') (set (rw_defuse (ms_node s' u))) b u"
proof (cases "rw_init (ms_node s u)")
  case True
  then show ?thesis using q bu by (intro that [of s]) (auto simp: search_use_def queries_ok_def)
next
  case False
  have i: "inv C B {} s" and at: "use_at C B (ms_g s) b u" using q bu by (auto simp: queries_ok_def)
  obtain N s1 where s1: "findDefinitions u s = Some (N, s1)" "inv C B {} s1" "ms_grows B s s1" "answered (ms_g s1) (set N) b u"
    using findDefinitions_ok [OF i at] by metis
  note E1 = ms_grows_ext [OF s1(3)] and o1 = inv_wf(2) [OF s1(2)] and o = inv_wf(2) [OF i]
  have cc: "closed_callees (ms_g s)" "closed_callees (ms_g s1)" using inv_wf(1) [OF i] inv_wf(1) [OF s1(2)] by (simp_all add: rw_wf_def)
  define H where "H = addDefUse u N (ms_g s1)"
  note A = addDefUse_ok [OF H_def]
  have s': "ms_addDefUse u N s1 = s1\<lparr>ms_g := H\<rparr>" by (simp add: ms_addDefUse_def upd_g_def H_def)
  have np: "\<not> isPhi (ms_g s1) u" using extD(6) [OF E1, of u] at by (simp add: use_at_def)
  have "ms_node s1 u = ms_node s u" using s1(3) at by (simp add: ms_grows_def use_at_def)
  then have d0: "rw_defuse (ms_node s1 u) = []" using q bu False by (auto simp: queries_ok_def)
  have Hu: "set (rw_defuse (rwg_nodes H u)) = set N" using A(8) [of u] d0 by simp
  have iu: "rw_init (rwg_nodes H u)" using addDefUse_eq [of "ms_g s1" u N] by (auto simp: H_def)
  have "use_at C B H c v \<and> (if rw_init (rwg_nodes H v) then answered H (set (rw_defuse (rwg_nodes H v))) c v else rw_defuse (rwg_nodes H v) = [])"
    if cv: "(c, v) \<in> U" for c v
  proof -
    have v: "use_at C B (ms_g s) c v" using q cv by (auto simp: queries_ok_def)
    have v1: "use_at C B (ms_g s1) c v" by (rule use_at_ext [OF E1 cc(1) v])
    have "if rw_init (rwg_nodes H v) then answered H (set (rw_defuse (rwg_nodes H v))) c v else rw_defuse (rwg_nodes H v) = []"
    proof (cases "v = u")
      case True
      moreover from this have "c = b" using v at by (simp add: use_at_def)
      ultimately show ?thesis using answered_ext [OF A(1) o1 _ s1(4)] v1 Hu iu by simp
    next
      case False
      then have n1: "rwg_nodes H v = ms_node s1 v" using A(2) [of v] by simp
      have n: "ms_node s1 v = ms_node s v" using s1(3) v by (simp add: ms_grows_def use_at_def)
      have "answered H (set (rw_defuse (ms_node s v))) c v" if "answered (ms_g s) (set (rw_defuse (ms_node s v))) c v"
        by (rule answered_ext [OF A(1) o1 v1 answered_ext [OF E1 o v that]])
      moreover have "if rw_init (ms_node s v) then answered (ms_g s) (set (rw_defuse (ms_node s v))) c v else rw_defuse (ms_node s v) = []"
        using q cv by (auto simp: queries_ok_def)
      ultimately show ?thesis unfolding n1 n by (simp split: if_splits)
    qed
    then show ?thesis using use_at_ext [OF A(1) cc(2) v1] by blast
  qed
  then have "queries_ok C B U (ms_addDefUse u N s1)"
    using inv_init_use [OF s1(2) np, of N] by (auto simp: queries_ok_def s')
  moreover have "answered H (set (rw_defuse (rwg_nodes H u))) b u"
    using answered_ext [OF A(1) o1 use_at_ext [OF E1 cc(1) at] s1(4)] Hu by simp
  moreover have "ext (ms_g s) H" by (rule ext_trans [OF E1 A(1)])
  ultimately show ?thesis using False s1(1) by (intro that [of "ms_addDefUse u N s1"]) (simp_all add: search_use_def s')
qed

text \<open>What reaches a use does not change.\<close>

lemma reach_end_ext:
  assumes "ext G H" and "old_nodes G"
  shows "reach_end H t x d b = reach_end G t x d b"
proof -
  note p = prog_ext [OF assms]
  have l: "last_def H (prog H b) t x d = last_def G (prog G b) t x d" for b using p(1) [of b t x "{}"] by (simp add: ldefs_last_def [symmetric])
  have pr: "preds H b = preds G b" for b by (rule extD(2) [OF assms(1)])
  show ?thesis
  proof
    show "reach_end H t x d b \<Longrightarrow> reach_end G t x d b"
      by (induction rule: reach_end.induct) (auto simp: l p(2) pr intro: reach_end.intros)
    show "reach_end G t x d b \<Longrightarrow> reach_end H t x d b"
      by (induction rule: reach_end.induct) (auto simp: l p(2) pr intro: reach_end.intros)
  qed
qed

lemma reaches_ext:
  assumes "ext G H" and "old_nodes G" and "use_at C B G b u"
  shows "reaches H t x d u = reaches G t x d u"
proof -
  have u: "u \<le> rwg_last G" "\<not> isPhi G u" "rw_bblock (rwg_nodes G u) = Some b" using assms(3) by (simp_all add: use_at_def)
  note e = before_ext [OF assms(1,2) u(1,2)]
  have "last_def H (prog_before H b u) t x d = last_def G (prog_before G b u) t x d"
    using e(1) [of b t x "{}"] by (simp add: ldefs_last_def [symmetric])
  then show ?thesis using u(3) extD(7) [OF assms(1) u(1)] extD(2) [OF assms(1), of b] e(2) reach_end_ext [OF assms(1,2)]
    unfolding reaches_def by simp
qed

text \<open>What is seen behind phi nodes: their operands are seen where they are, and what is seen reaches.\<close>

lemma operand_sound:
  assumes ex: "exact C B G defs" and phi: "phi_at G b phi" "phi_site G phi ds" and n: "n \<in> set (rw_defuse (rwg_nodes G phi))"
  shows "\<exists>p \<in> set (preds G b). seen G ds n p"
proof -
  obtain d c where d: "phi_site G phi d" "phi_at G c phi" "\<exists>p \<in> set (preds G c). seen G d n p"
    using ex phi(1) n by (auto simp: exact_def phi_sound_def phi_at_def orphan_def)
  have "c = b" using d(2) phi(1) by (simp add: phi_at_def)
  have "\<And>t x. must_define G phi t x = (t = ds_target ds \<and> x \<in> ds_bytes ds)" using phi(2) by (simp add: phi_site_def)
  note m = must_site [OF d(1) this]
  show ?thesis using d(3) same_bytes(3) [OF m] \<open>c = b\<close> by blast
qed

lemma orphan_operand: "exact C B G defs \<Longrightarrow> orphan G phi \<Longrightarrow> rw_defuse (rwg_nodes G phi) = []"
  unfolding exact_def phi_sound_def orphan_def phi_at_def by fastforce

lemma ldefs_prog: "n \<in> ldefs G ns t x {} \<Longrightarrow> set ns \<subseteq> Collect (writer G) \<Longrightarrow> \<not> isPhi G n"
  by (auto simp: ldefs_last_def last_def_def writer_def)

lemma seen_operand:
  assumes ex: "exact C B G defs" and "isPhi G phi" and n: "n \<in> set (rw_defuse (rwg_nodes G phi))"
  shows "seen G ds phi b \<Longrightarrow> seen G ds n b" and "seen_start G ds phi b \<Longrightarrow> seen_start G ds n b"
proof -
  have s: "seen G ds n b" if "seen G ds phi b" for b using that
  proof (induction rule: seen.induct)
    case (here x b)
    then show ?case using ldefs_prog [of phi G "prog G b"] assms(2) by (auto simp: prog_def)
  next
    case (orphan b)
    then show ?case using orphan_operand [OF ex] n by simp
  next
    case (phi b)
    then show ?case using operand_sound [OF ex phi(2,3) n] by (auto intro: seen.flow)
  next
    case (flow b p)
    then show ?case by (intro seen.flow [of G b ds p])
  qed
  show "seen G ds phi b \<Longrightarrow> seen G ds n b" by (rule s)
  show "seen_start G ds phi b \<Longrightarrow> seen_start G ds n b"
    using s operand_sound [OF ex _ _ n] orphan_operand [OF ex] n unfolding seen_start_def by fastforce
qed

lemma via_phis_seen:
  assumes ex: "exact C B G defs" and N: "\<forall>n \<in> N. \<exists>ds \<in> S. seen_use G ds n b u"
  shows "n \<in> via_phis G N \<Longrightarrow> \<exists>ds \<in> S. seen_use G ds n b u"
proof (induction rule: via_phis.induct)
  case (start n)
  then show ?case using N by blast
next
  case (operand phi n)
  obtain ds where ds: "ds \<in> S" "seen_use G ds phi b u" using operand.IH by blast
  have "\<not> (\<exists>x \<in> ds_bytes ds. phi \<in> ldefs G (prog_before G b u) (ds_target ds) x {})"
    using ldefs_prog [of phi G "prog_before G b u"] operand.hyps(2) by (auto simp: prog_before_def)
  then have "seen_use G ds n b u"
    using ds(2) seen_operand(2) [OF ex operand.hyps(2,3)] unfolding seen_use_def by blast
  then show ?case using ds(1) by blast
qed

lemma seen_reach: "seen G ds n b \<Longrightarrow> \<not> isPhi G n \<Longrightarrow> \<exists>x \<in> ds_bytes ds. reach_end G (ds_target ds) x n b"
proof (induction rule: seen.induct)
  case (here x b)
  then show ?case by (intro bexI [of _ x] reach_end.here) (simp_all add: ldefs_last_def)
next
  case (flow b p)
  then show ?case by (auto simp: site_over_def intro: reach_end.flow)
qed (auto simp: orphan_def phi_at_def)

lemma seen_use_reaches:
  assumes "seen_use G ds n b u" and "\<not> isPhi G n" and "rw_bblock (rwg_nodes G u) = Some b"
  shows "\<exists>x \<in> ds_bytes ds. reaches G (ds_target ds) x n u"
proof (cases "\<exists>x \<in> ds_bytes ds. n \<in> ldefs G (prog_before G b u) (ds_target ds) x {}")
  case True
  then show ?thesis using assms(3) by (auto simp: reaches_def ldefs_last_def)
next
  case False
  then have "\<not> site_over G (prog_before G b u) ds" "seen_start G ds n b" using assms(1) by (simp_all add: seen_use_def)
  moreover from this(2) obtain p where "p \<in> set (preds G b)" "seen G ds n p"
    using assms(2) by (auto simp: seen_start_def orphan_def phi_at_def)
  ultimately show ?thesis using seen_reach [of G ds n p] assms(2,3) by (auto simp: reaches_def site_over_def)
qed

text \<open>The nodes whose definition of a byte that a use reads reaches it.\<close>

definition all_reaching :: "rwgraph \<Rightarrow> nat \<Rightarrow> nat set" where
  "all_reaching G u = {d. \<exists>ds \<in> set (an_uses (ann G u)). \<exists>x \<in> ds_bytes ds. reaches G (ds_target ds) x d u}"

lemma getDefinitions_ok:
  assumes q: "queries_ok C B U s" and bu: "(b, u) \<in> U"
  obtains R s' where "getDefinitions u s = Some (R, s')" and "queries_ok C B U s'" and "ext (ms_g s) (ms_g s')"
    and "set R = {d \<in> all_reaching (ms_g s) u. \<not> isPhi (ms_g s') d}"
proof -
  obtain s' where s': "search_use u s = Some s'" "queries_ok C B U s'" "ext (ms_g s) (ms_g s')"
    "answered (ms_g s') (set (rw_defuse (ms_node s' u))) b u" using search_use_ok [OF q bu] by metis
  let ?N = "rw_defuse (ms_node s' u)" and ?H = "ms_g s'"
  have i: "inv C B {} s'" and at: "use_at C B ?H b u" using s'(2) bu by (auto simp: queries_ok_def)
  have i0: "inv C B {} s" and at0: "use_at C B (ms_g s) b u" using q bu by (auto simp: queries_ok_def)
  have "finite {n. isPhi ?H n}" using inv_wf(1) [OF i] by (simp add: rw_wf_def)
  note g = gatherNonPhisDefs_eq [OF this, of ?N]
  have done_phis: "phi_done ?H c phi" if "phi_at ?H c phi" for c phi using i that by (simp add: inv_def)
  have bb: "rw_bblock (rwg_nodes ?H u) = Some b" using at by (simp add: use_at_def)
  have an: "ann ?H u = ann (ms_g s) u" using at0 by (intro extD(5) [OF s'(3)]) (simp add: use_at_def)
  have re: "reaches ?H t x d u = reaches (ms_g s) t x d u" for t x d by (rule reaches_ext [OF s'(3) inv_wf(2) [OF i0] at0])
  have "d \<in> via_phis ?H (set ?N)" if d: "d \<in> all_reaching (ms_g s) u" for d
  proof -
    obtain ds x where ds: "ds \<in> set (an_uses (ann ?H u))" "x \<in> ds_bytes ds" "reaches ?H (ds_target ds) x d u"
      using d by (auto simp: all_reaching_def an re)
    then show ?thesis using usecov_reaches [OF done_phis bb _ ds(3)] s'(4) by (simp add: answered_def)
  qed
  moreover have "d \<in> all_reaching (ms_g s) u" if d: "d \<in> via_phis ?H (set ?N)" "\<not> isPhi ?H d" for d
  proof -
    have ex: "exact C B ?H (ms_defs s')" using i by (simp add: inv_def)
    have "\<forall>n \<in> set ?N. \<exists>ds \<in> set (an_uses (ann ?H u)). seen_use ?H ds n b u" using s'(4) by (simp add: answered_def)
    from via_phis_seen [OF ex this d(1)] obtain ds where "ds \<in> set (an_uses (ann ?H u))" "seen_use ?H ds d b u" by blast
    moreover from seen_use_reaches [OF this(2) d(2) bb] obtain x where "x \<in> ds_bytes ds" "reaches ?H (ds_target ds) x d u" by blast
    ultimately show ?thesis unfolding all_reaching_def an re by blast
  qed
  ultimately have "{n \<in> via_phis ?H (set ?N). \<not> isPhi ?H n} = {d \<in> all_reaching (ms_g s) u. \<not> isPhi ?H d}" by blast
  then show ?thesis using that [of "sorted_list_of_set {n \<in> via_phis ?H (set ?N). \<not> isPhi ?H n}" s'] s'(1-3) g
    by (simp add: getDefinitions_def)
qed

section \<open>A graph of one function\<close>

text \<open>The graph before the transformation: calls are to undefined functions only and nothing was searched. The sites that nodes
  overwrite are in \<open>C\<close>, up to their length, and do not overlap in part.\<close>

definition one_function :: "DefSite set \<Rightarrow> nat set \<Rightarrow> rwgraph \<Rightarrow> bool" where
  "one_function C B G =
     (rw_wf G B \<and> cells_ok C \<and> (\<forall>n. \<not> isPhi G n \<and> \<not> rw_init (rwg_nodes G n) \<and> rw_defuse (rwg_nodes G n) = []) \<and>
      (\<forall>b. \<forall>n \<in> set (block_nodes G b). rw_t G n = RW_CALL \<longrightarrow> callsOneUndefined G n) \<and>
      (\<forall>b \<in> B. \<forall>n \<in> set (block_nodes G b). \<forall>ds \<in> set (an_overwrites (ann G n)). is_cell C ds))"

fun run_queries :: "nat list \<Rightarrow> mssa \<Rightarrow> (nat list list \<times> mssa) option" where
  "run_queries [] s = Some ([], s)"
| "run_queries (u # us) s =
     Option.bind (getDefinitions u s) (\<lambda>(R, s1). map_option (\<lambda>(Rs, s2). (R # Rs, s2)) (run_queries us s1))"

lemma initialize_same:
  assumes calls: "\<And>b n. n \<in> set (block_nodes G b) \<Longrightarrow> rw_t G n = RW_CALL \<Longrightarrow> callsOneUndefined G n"
  shows "ms_initialize (MemorySSATransformation G) = Some (MemorySSATransformation G)"
proof -
  have one: "splitBlockOnFirstCall b nb G = Some (None, nb, G)" for b nb
  proof -
    have "dropWhile (\<lambda>n. \<not> (rw_t G n = RW_CALL \<and> \<not> callsOneUndefined G n)) (block_nodes G b) = []"
      using calls by (auto simp: dropWhile_eq_Nil_conv)
    then show ?thesis by (simp only: splitBlockOnFirstCall_def list.case)
  qed
  have loop: "split_loop b nb G = Some (nb, G)" for b nb by (subst split_loop.simps) (simp add: one)
  have blocks: "split_blocks bs nb G = Some (nb, G)" for bs nb by (induction bs arbitrary: nb) (simp_all add: loop)
  have sub: "sub_splitBBlocksOnCalls k G = Some G" for k by (simp add: sub_splitBBlocksOnCalls_def blocks upd_rs_def)
  have "split_subgraphs ks G = Some G" for ks by (induction ks) (simp_all add: sub)
  then have split: "try_g splitBBlocksOnCalls (MemorySSATransformation G) = Some (MemorySSATransformation G)"
    by (simp add: try_g_def splitBBlocksOnCalls_def MemorySSATransformation_def)
  have nd: "\<not> callsDefined G n" if "n \<in> set (block_nodes G b)" "rw_t G n = RW_CALL" for n b
    using calls [OF that] by (auto simp: callsOneUndefined_def callsDefined_def getSingleUndefined_def split: list.splits RWCalledValue.splits)
  have find: "find_calls bs s = s" if "ms_g s = G" for bs s
    using that
  proof (induction bs arbitrary: s)
    case (Cons b bs)
    show ?case using Cons nd [of _ b] by (auto split: list.splits)
  qed simp
  have "ms_g (MemorySSATransformation G) = G" by (simp add: MemorySSATransformation_def)
  then have "fold (\<lambda>k. find_calls (f k)) ks (MemorySSATransformation G) = MemorySSATransformation G" for f ks
    by (induction ks) (simp_all add: find)
  then show ?thesis by (simp add: ms_initialize_def split)
qed

lemma one_function_ok:
  assumes "one_function C B G"
  shows "queries_ok C B {(b, u). use_at C B G b u} (MemorySSATransformation G)"
proof -
  have np: "\<not> isPhi G n" "\<not> rw_init (rwg_nodes G n)" "rw_defuse (rwg_nodes G n) = []" for n using assms by (simp_all add: one_function_def)
  have "phis_first G b" for b using np(1) by (simp add: phis_first_def)
  then have "inv C B {} (MemorySSATransformation G)"
    using assms np(1) by (simp add: inv_def one_function_def MemorySSATransformation_def block_defs_ok_def no_definitions_def phi_at_def
        exact_def block_sound_def)
  then show ?thesis using np(2,3) by (simp add: queries_ok_def MemorySSATransformation_def)
qed

lemma reaches_old:
  assumes "\<And>n. \<not> isPhi G n" and "old_nodes G" and "reaches G t x d u"
  shows "d \<le> rwg_last G"
proof -
  have l: "d \<in> set ns" if "last_def G ns t x d" for ns using that by (auto simp: last_def_def)
  have p: "d \<le> rwg_last G" if "d \<in> set (block_nodes G b)" for b using assms(2) that by (simp add: old_nodes_def)
  have q: "d \<le> rwg_last G" if "last_def G (prog G b) t x d" for b
    using l [OF that] p [of b] by (simp add: prog_def)
  have "d \<le> rwg_last G" if "reach_end G t x d b" for b
    using that by (induction rule: reach_end.induct) (use q in blast)+
  moreover have "d \<le> rwg_last G" if "last_def G (prog_before G b u) t x d" for b
    using l [OF that] p [of b] by (auto simp: prog_before_def dest: set_takeWhileD)
  ultimately show ?thesis using assms(3) unfolding reaches_def by blast
qed

lemma run_queries_ok:
  assumes "one_function C B G" and "queries_ok C B {(b, u). use_at C B G b u} s" and "ext G (ms_g s)"
    and "\<forall>u \<in> set us. \<exists>b. use_at C B G b u"
  shows "\<exists>Rs s'. run_queries us s = Some (Rs, s') \<and> list_all2 (\<lambda>u R. set R = all_reaching G u) us Rs"
  using assms(2-4)
proof (induction us arbitrary: s)
  case (Cons u us)
  obtain b where b: "use_at C B G b u" using Cons.prems(3) by auto
  have o: "old_nodes G" using assms(1) by (simp add: one_function_def rw_wf_def)
  have np: "\<not> isPhi G n" for n using assms(1) by (simp add: one_function_def)
  obtain R s1 where R: "getDefinitions u s = Some (R, s1)" "queries_ok C B {(b, u). use_at C B G b u} s1" "ext (ms_g s) (ms_g s1)"
    "set R = {d \<in> all_reaching (ms_g s) u. \<not> isPhi (ms_g s1) d}"
    using getDefinitions_ok [OF Cons.prems(1), of b u thesis] b by blast
  have e: "ext G (ms_g s1)" by (rule ext_trans [OF Cons.prems(2) R(3)])
  have "ann (ms_g s) u = ann G u" using b by (intro extD(5) [OF Cons.prems(2)]) (simp add: use_at_def)
  then have "all_reaching (ms_g s) u = all_reaching G u" by (simp add: all_reaching_def reaches_ext [OF Cons.prems(2) o b])
  moreover have "\<not> isPhi (ms_g s1) d" if "d \<in> all_reaching G u" for d
    using that extD(6) [OF e reaches_old [OF np o]] np by (auto simp: all_reaching_def)
  ultimately have "set R = all_reaching G u" using R(4) by blast
  moreover obtain Rs s2 where "run_queries us s1 = Some (Rs, s2)" "list_all2 (\<lambda>u R. set R = all_reaching G u) us Rs"
    using Cons.IH [OF R(2) e] Cons.prems(3) by auto
  ultimately show ?case using R(1) by simp
qed simp


end
