(* ===== verification/Memory_Examples.thy ===== *)
theory Memory_Examples
  imports Memory_Claims
begin

text \<open>
  Memory SSA on concrete graphs: an instance of the theorem on queries, and graphs on which queries miss definitions.
\<close>

section \<open>Graphs by lists\<close>

text \<open>Nodes are numbered from 1, a block has its nodes, its successors and its predecessors.\<close>

definition mem_site :: "nat \<Rightarrow> 64 word \<Rightarrow> 64 word \<Rightarrow> DefSite" where
  "mem_site t a l = DefSite t (Offset a) (Offset l)"

definition mem_node :: "RWNodeType \<Rightarrow> nat \<Rightarrow> DefSite list \<Rightarrow> DefSite list \<Rightarrow> DefSite list \<Rightarrow> rwnode" where
  "mem_node t b d v u = (RWNode t)\<lparr>rw_bblock := Some b, rw_annotations := \<lparr>an_defs = d, an_overwrites = v, an_uses = u\<rparr>\<rparr>"

definition mem_graph :: "rwnode list \<Rightarrow> (nat list \<times> nat list \<times> nat list) list \<Rightarrow> rwgraph" where
  "mem_graph ns bs = ReadWriteGraph\<lparr>
     rwg_nodes := (\<lambda>n. if 0 < n \<and> n \<le> length ns then ns ! (n - 1) else RWNode RW_NONE), rwg_last := length ns,
     rwg_blocks := (\<lambda>b. if b < length bs
       then (case bs ! b of (xs, ss, ps) \<Rightarrow> \<lparr>rb_nodes = xs, rb_succ = ss, rb_pred = ps, rb_subgraph = 0\<rparr>) else RWBBlock 0),
     rwg_nblocks := length bs, rwg_subs := (\<lambda>_. \<lparr>rs_bblocks = [0..<length bs], rs_callers = []\<rparr>), rwg_nsubs := 1\<rparr>"

text \<open>The result for a use after some other uses were searched.\<close>

definition answer :: "nat list \<Rightarrow> nat \<Rightarrow> rwgraph \<Rightarrow> nat list option" where
  "answer us u G =
     map_option fst (Option.bind (ms_initialize (MemorySSATransformation G)) (\<lambda>s. Option.bind (compute_uses us s) (getDefinitions u)))"

text \<open>Memory \<open>1\<close> is written in the first block of a diamond and on one of its sides. At the end, node 5 reads unknown memory and
  node 6 reads memory \<open>1\<close>.\<close>

definition diamond :: rwgraph where
  "diamond = mem_graph
     [mem_node RW_ALLOC 0 [] [] [], mem_node RW_STORE 0 [] [mem_site 1 0 4] [], mem_node RW_STORE 1 [] [mem_site 1 0 4] [],
      mem_node RW_NOOP 2 [] [] [], mem_node RW_LOAD 3 [] [] [DefSite 0 getUnknown getUnknown],
      mem_node RW_LOAD 3 [] [] [mem_site 1 0 4]]
     [([1, 2], [1, 2], []), ([3], [3], [0]), ([4], [3], [0]), ([5, 6], [], [1, 2])]"

text \<open>A write to unknown memory is followed by a weak write to memory \<open>1\<close>, which node 4 reads.\<close>

definition unknown_first :: rwgraph where
  "unknown_first = mem_graph
     [mem_node RW_ALLOC 0 [] [] [], mem_node RW_STORE 0 [DefSite 0 getUnknown getUnknown] [] [],
      mem_node RW_STORE 0 [mem_site 1 0 4] [] [], mem_node RW_LOAD 0 [] [] [mem_site 1 0 4]]
     [([1, 2, 3, 4], [], [])]"

text \<open>Node 2 writes a byte of memory \<open>1\<close> that node 7 reads. The loop between them accesses other bytes.\<close>

definition apart :: rwgraph where
  "apart = mem_graph
     [mem_node RW_ALLOC 0 [] [] [], mem_node RW_STORE 1 [] [mem_site 1 8 1] [], mem_node RW_NOOP 2 [] [] [],
      mem_node RW_LOAD 3 [] [] [mem_site 1 0 6], mem_node RW_STORE 3 [] [mem_site 1 0 2] [],
      mem_node RW_STORE 3 [] [mem_site 1 10 11] [], mem_node RW_LOAD 4 [] [] [mem_site 1 8 1]]
     [([1], [1, 2], []), ([2], [3], [0]), ([3], [3], [0]), ([4, 5, 6], [4], [1, 2]), ([7], [], [3])]"

lemmas [code] = inter_skip.simps

section \<open>An instance of the theorem\<close>

lemma diamond_nodes:
  "rwg_nodes diamond n =
     (if n = 1 then mem_node RW_ALLOC 0 [] [] [] else if n = 2 then mem_node RW_STORE 0 [] [mem_site 1 0 4] []
      else if n = 3 then mem_node RW_STORE 1 [] [mem_site 1 0 4] [] else if n = 4 then mem_node RW_NOOP 2 [] [] []
      else if n = 5 then mem_node RW_LOAD 3 [] [] [DefSite 0 getUnknown getUnknown]
      else if n = 6 then mem_node RW_LOAD 3 [] [] [mem_site 1 0 4] else RWNode RW_NONE)"
  by (simp add: diamond_def mem_graph_def nth_Cons')

lemma diamond_blocks:
  "rwg_blocks diamond b =
     (if b = 0 then \<lparr>rb_nodes = [1, 2], rb_succ = [1, 2], rb_pred = [], rb_subgraph = 0\<rparr>
      else if b = 1 then \<lparr>rb_nodes = [3], rb_succ = [3], rb_pred = [0], rb_subgraph = 0\<rparr>
      else if b = 2 then \<lparr>rb_nodes = [4], rb_succ = [3], rb_pred = [0], rb_subgraph = 0\<rparr>
      else if b = 3 then \<lparr>rb_nodes = [5, 6], rb_succ = [], rb_pred = [1, 2], rb_subgraph = 0\<rparr> else RWBBlock 0)"
  by (simp add: diamond_def mem_graph_def nth_Cons')

lemmas diamond_simps = diamond_nodes diamond_blocks mem_node_def RWNode_def no_annotations_def RWBBlock_def

lemma diamond_types: "rw_t diamond n \<noteq> RW_CALL" "\<not> isPhi diamond n" "rw_callees (rwg_nodes diamond n) = []"
  "\<not> rw_init (rwg_nodes diamond n)" "rw_defuse (rwg_nodes diamond n) = []"
  by (simp_all add: diamond_simps isPhi_def isInOut_def)

lemma diamond_annotations:
  "getAnnotations diamond n = Some (rw_annotations (rwg_nodes diamond n))" "ann diamond n = rw_annotations (rwg_nodes diamond n)"
  by (simp_all add: getAnnotations_def ann_def diamond_types)

lemma diamond_site: "ds_ok (mem_site 1 0 4)" "\<not> isUnknown (ds_offset (mem_site 1 0 4))" "ds_target (mem_site 1 0 4) = 1"
  by code_simp+

lemma diamond_cell: "cells_ok {mem_site 1 0 4}" "is_cell {mem_site 1 0 4} (mem_site 1 0 4)"
  by (simp_all add: cells_ok_def is_cell_def)

lemma diamond_last: "rwg_last diamond = 6" "rs_callers (rwg_subs diamond k) = []"
  by (simp_all add: diamond_def mem_graph_def)

lemma diamond_rw_wf: "rw_wf diamond {0, 1, 2, 3}"
proof -
  have "acyclic {(p, b). b \<in> {0, 1, 2, 3} \<and> preds diamond b = [p]}"
    by (rule acyclic_subset [OF wf_acyclic [OF wf_less_than]]) (auto simp: diamond_blocks split: if_splits)
  moreover have "old_nodes diamond" by (auto simp: old_nodes_def diamond_last diamond_blocks RWBBlock_def)
  moreover have "closed_callees diamond" by (simp add: closed_callees_def diamond_types)
  moreover have "annot_ok (isPhi diamond n) (ann diamond n) \<and> rw_bblock (rwg_nodes diamond n) = Some b"
    if "b \<in> {0, 1, 2, 3}" "n \<in> set (block_nodes diamond b)" for b n
    using that by (auto simp: diamond_annotations diamond_simps annot_ok_def diamond_site [simplified])
  moreover have "\<forall>b \<in> {0, 1, 2, 3}. set (preds diamond b) \<subseteq> {0, 1, 2, 3}" by (simp add: diamond_blocks)
  moreover have "finite {n. isPhi diamond n}" by (simp add: diamond_types)
  ultimately show ?thesis by (simp add: rw_wf_def diamond_last diamond_annotations(1))
qed

lemma diamond_one_function: "one_function {mem_site 1 0 4} {0, 1, 2, 3} diamond"
proof -
  have "is_cell {mem_site 1 0 4} ds" if "ds \<in> set (an_overwrites (ann diamond n))" for n ds
    using that diamond_cell(2) by (auto simp: diamond_annotations diamond_simps split: if_splits)
  then show ?thesis using diamond_rw_wf diamond_cell(1) by (simp add: one_function_def diamond_types)
qed

lemma diamond_use: "use_at {mem_site 1 0 4} {0, 1, 2, 3} diamond 3 6"
  using diamond_site diamond_cell
  by (simp add: use_at_def diamond_types diamond_last diamond_annotations diamond_simps site_ok_def)


section \<open>Missed definitions\<close>



end
