(* ===== verification/Spec2Isabelle.thy ===== *)
theory Spec2Isabelle
  imports Interval_Queries Bitsets Ranganath Control_Closure Runtime Cape_Code Dep_Nodes BBlocks Points_To_Separate Pointer_Claims
    Pointer_Build Memory_Examples
begin

text \<open>
  A verification development for Cape, a tool that protects secrets of a program from cache side
  channels: it marks the instructions that depend on a secret in a dependence graph, and puts
  hardware transactions with preloads of code and data around the branches and loops they
  depend on. It is built on the dg library, which computes the dependences. All paths below
  are relative to the root of the repository.

  \<^bold>\<open>The parts of the program and their theories.\<close>

  \<^item> The slicer, \<^verbatim>\<open>include/dg/Slicing.h\<close>. \<open>Cape_IR\<close> has its data: the LLVM program and the pointer
    analysis (\<open>ir\<close>, a parameter), the dependence graph it reads (\<open>graph\<close>), and its state (\<open>cape\<close>): slice ids of
    nodes and blocks, buffer ids, names already preloaded for a branch, and the code of every
    LLVM block, to which calls are added. \<open>Cape_Loops\<close> finds the loop of a branch
    (\<open>collectLoopBlks\<close>, \<open>getBrLoopBlocks\<close>, \<open>isCondExit\<close>), \<open>Cape_Preload\<close> preloads the code of a region
    (\<open>preloadBB\<close>, \<open>preloadBlockCode\<close>, \<open>preloadTransactionCode\<close>), \<open>Cape_Transactions\<close> places transactions and preloads
    (\<open>addTransactionStart\<close> to \<open>processBBlockRevCDs\<close>), \<open>Cape_Mark\<close> is \<open>markSlice\<close>,
    \<open>handlePreloadingForSensitiveAccesses\<close> and \<open>handleFreeFunc\<close>, and \<open>Cape_Walk\<close> is the walk of
    \<^verbatim>\<open>include/dg/legacy/NodesWalk.h\<close> with \<open>WalkAndMark::mark\<close> and \<open>Slicer::mark\<close> on top.
    \<open>Cape_Code\<close> proves what all of them do to the code.
  \<^item> The run-time library the added calls run, \<^verbatim>\<open>samples/common.h\<close>: \<open>Runtime\<close>.
  \<^item> Control dependence, \<^verbatim>\<open>lib/ControlDependence\<close>: graphs (\<open>CDGraphs\<close>), the algorithms of
    \<^verbatim>\<open>NTSCD.h\<close> (\<open>Ntscd\<close>, \<open>Ranganath\<close>) and \<^verbatim>\<open>ControlClosure.h\<close> (\<open>Control_Closure\<close>).
  \<^item> The dependence graph: nodes and their edges, \<^verbatim>\<open>include/dg/Node.h\<close> (\<open>Dep_Nodes\<close>), and basic blocks,
    \<^verbatim>\<open>include/dg/BBlock.h\<close> (\<open>BBlocks\<close>).
  \<^item> Points-to sets, \<^verbatim>\<open>include/dg/PointerAnalysis/PointsToSets\<close>: \<open>Points_To\<close> has the pointers and the abstract
    set with the contract of the operations, \<open>Points_To_Sets\<close> the plain sets (\<open>SimplePointsToSet\<close>,
    \<open>OffsetsSetPointsToSet\<close>), \<open>Points_To_Bits\<close> what the four sets in a bit vector share, over a table that places
    pointers at bits, \<open>Points_To_Classes\<close> these four with their tables, and \<open>Points_To_Separate\<close>
    \<open>SeparateOffsetsPointsToSet\<close> and the comparison of all of them.
  \<^item> The flow-insensitive pointer analysis, \<^verbatim>\<open>lib/PointerAnalysis/PointerAnalysis.cpp\<close> with \<^verbatim>\<open>PSNode.h\<close>,
    \<^verbatim>\<open>PointerGraph.h\<close>, \<^verbatim>\<open>MemoryObject.h\<close> and \<^verbatim>\<open>PointerAnalysisFI.h\<close>: \<open>Pointer_Graph\<close> has the graph, the state
    (\<open>pta\<close>: the sets of the nodes and of the memory, edges) and the processing of nodes but copies, \<open>Pointer_Run\<close> copies,
    the switch over the types, the traversal and \<open>pta_run\<close>. \<open>Pointer_Growth\<close> weighs states, \<open>Pointer_Termination\<close> shows
    that the run ends, \<open>Pointer_Stable\<close> what holds when nothing changes any more, \<open>Pointer_Sound\<close> has the concrete
    semantics the sets are about, and \<open>Pointer_Claims\<close> the properties of the run.
    \<open>Sub_Graph\<close> has the edges, operands and users of the nodes (\<^verbatim>\<open>SubgraphNode.h\<close>), and \<open>Pointer_Build\<close> the store of nodes with the
    constructors and the operations that build a graph (\<open>pstore\<close>); \<open>graph_of\<close> and \<open>state_of\<close> read it as the graph
    and the state the analysis starts from.
  \<^item> Data dependence, \<^verbatim>\<open>include/dg/ReadWriteGraph\<close> and \<^verbatim>\<open>lib/MemorySSA\<close>: \<open>Def_Sites\<close> (definition sites and
    \<^verbatim>\<open>IntervalsList.h\<close>), \<open>Definitions_Map\<close> (\<^verbatim>\<open>DefinitionsMap.h\<close>, \<^verbatim>\<open>Definitions.cpp\<close>), \<open>RW_Graph\<close> (the graph, its construction and
    \<open>splitBBlocksOnCalls\<close>), \<open>Memory_SSA\<close> (\<^verbatim>\<open>ModRef.cpp\<close> and the search for definitions of known memory over blocks, calls and
    called functions; the state is \<open>mssa\<close>) and \<open>Memory_Query\<close> (searches for unknown memory, \<open>getDefinitions\<close>, \<open>initialize\<close>).
    \<open>Memory_Reach\<close> defines which definitions reach a use, \<open>Memory_Inv\<close>, \<open>Memory_Phi\<close> and \<open>Memory_Search\<close> have the
    invariant of the search and its proof, \<open>Memory_Claims\<close> the theorem on queries and \<open>Memory_Examples\<close> concrete graphs.
  \<^item> Containers, \<^verbatim>\<open>include/dg/ADT\<close> and \<^verbatim>\<open>include/dg/Offset.h\<close>: \<open>Offsets\<close>, \<open>Bitsets\<close>, \<open>Interval_Map\<close>
    and \<open>Interval_Queries\<close> (\<open>DisjunctiveIntervalMap\<close>), \<open>Queues\<close>. \<open>Ordered_Map\<close> is the part of \<open>std::map\<close> and
    \<open>std::set\<close> they use, and \<open>Prelude\<close> holds collections of facts and general lemmas.

  \<^bold>\<open>How the code is modelled.\<close> Objects are numbers and a set of pointers is iterated in increasing order
  of the numbers, or, where an algorithm's result could depend on it, in an order given as a
  parameter (\<open>iter\<close>). A machine integer is a word of its width. A failed assertion, a
  dereferenced null pointer or end iterator, and a loop or recursion that does not end are the value
  \<open>None\<close>; loops whose end is not evident are \<open>partial_function (option)\<close>, without fuel, and
  that they end is part of the theorems. The functions of memory SSA that call each other are steps over a parameter for
  these calls, tied together by one fixpoint (\<open>msearch\<close>). The recursion of \<open>preloadBB\<close> and of
  \<open>processBBlockIDomsAndNodeRevCDs\<close> is written over explicit tasks. LLVM, the result of the pointer analysis on
  LLVM values and the construction of the dependence graph are given to the slicer by \<open>ir\<close> and \<open>graph\<close>; the graph the
  pointer analysis runs on, and what its builder does for calls through pointers, forks and joins, by \<open>pgraph\<close> and
  \<open>penv\<close>.

  \<^bold>\<open>What is proved.\<close>

  \<^item> Cape: a pass only adds calls and never touches the program's instructions and terminators
    (\<open>Cape_Code\<close>, by one contract \<open>adds\<close> that every operation satisfies); pass 0 marks all dependent nodes of a function
    (\<open>Cape_Walk\<close>, by the locale \<open>node_walk\<close> of what a walk guarantees for any handler of nodes, interpreted on
    \<open>markSlice\<close>); the transaction of a branch is placed once, closed at the post-dominator and preloads
    all functions the region calls; the searches place at one point and end unless functions
    call each other; loops are natural loops; buffer ids are unique.
  \<^item> Control dependence: \<open>NTSCD2\<close> and the fixpoint version of Ranganath's algorithm are exact and agree;
    \<open>NTSCD\<close> is exact under a condition and misses dependences without it; \<open>closeSet\<close> ends with a closed set.
  \<^item> Graph: node edges refine a set of labelled edges; isolating a node or a block is correct; some of the other
    removals of block edges break consistency, and exactly when is stated.
  \<^item> Containers: refinement of sets and maps, iteration, round trip, saturation, queries of the interval
    map, and the queries that are wrong.
  \<^item> Points-to sets: one contract, the locale \<open>points_to_set\<close>, of what a client of a set may observe; the sets in bit
    vectors satisfy it completely, the plain sets but for some operations (with the counterexamples),
    \<open>SeparateOffsetsPointsToSet\<close> over-approximates.
  \<^item> Pointer analysis: it returns on every well-formed graph, as the weight of its state grows and is bounded; its result
    covers every execution when the nodes that change sets reach each other, and a graph without such a
    cycle shows that it can miss a pointer. Every graph built by the constructors is well-formed but for what they do not check,
    whatever the order of the operations; edges and operands stay consistent; \<open>remove\<close> is wrong after global nodes.
  \<^item> Data dependence: on graphs of one function whose accesses to known memory do not overlap in part, any sequence of queries ends,
    and each answer is the set of definitions that reach the use: the bytes left open in the blocks bound the search, the phi nodes
    cover what reaches their block, and what they merge is seen from it. Where unknown memory or partial overlaps are involved, queries can miss definitions. Intersecting
    sets of sites fails.
  \<^item> Run time: preloading reads every cache line of a range, of live stack buffers under a condition, and
    never of the heap; a transaction is retried at most 200 times.

  Each theory puts its invariants first and its properties, with a concrete witness each, last. The
  shared contracts are locales interpreted on the model: \<open>number_set\<close> (\<open>Bitsets\<close>), the work
  lists (\<open>Queues\<close>), \<open>node_walk\<close> (\<open>Cape_Walk\<close>), and \<open>points_to_set\<close> (\<open>Points_To\<close>), which a table of places
  for pointers gives (\<open>placing_ok\<close> in \<open>Points_To_Bits\<close>).

  \<^bold>\<open>Not modelled.\<close> Of \<^verbatim>\<open>Slicing.h\<close>, the removal of nodes and blocks (\<open>sliceNodes\<close>, \<open>sliceBBlocks\<close>), debug
  locations and IR casts; of \<^verbatim>\<open>NodesWalk.h\<close>, the walk over blocks. The front end
  (\<^verbatim>\<open>lib/llvm\<close>, \<^verbatim>\<open>include/dg/llvm\<close>) and the tools are calls of the LLVM API, which is not part of the repository.
  The flow-sensitive pointer analyses, the optimizations and the validator of pointer graphs, value relations, thread regions, the system dependence graph, the traversals of
  \<^verbatim>\<open>include/dg/legacy\<close> and decisive order dependence (\<^verbatim>\<open>DOD.h\<close>) are not modelled so far.
\<close>

end
